(* ===== verification/Prelude.thy ===== *)
theory Prelude
  imports Complex_Main "HOL-Library.AList" "HOL-Library.Multiset"
begin

text \<open>
  Shared vocabulary of the development.

  \<^item> Python exceptions that the modelled code raises, as a datatype of error values;
    a fallible operation returns \<open>py_error + 'a\<close>.
  \<^item> Python dictionaries: insertion-ordered association lists over
    \<^theory_text>\<open>HOL-Library.AList\<close>. Writing an existing key keeps its position, a new key goes
    to the end, deletion keeps the order of the rest.
  \<^item> \<open>OrderedDict\<close> objects whose values are all \<open>None\<close> (the recency lists): lists of keys
    with \<open>move_to_end\<close>.
  \<^item> Floats: a finite double is the rational number it denotes, and every float operation
    rounds its exact result through a rounding function, a parameter of the definitions
    that compute with floats.
  \<^item> The generic list lemmas that several components use.
\<close>

named_theorems dict_simps \<open>rewriting of Python dictionaries to maps\<close>
named_theorems inv_intros \<open>preservation of component invariants\<close>

section \<open>Exceptions\<close>

datatype py_error =
    AssertionError
  | IndexError
  | KeyError
  | RuntimeError
  | ValueError
  | ZeroDivisionError
  | NotImplementedError
  | OverflowError
  | StructError
  | ImportError

type_synonym 'a result = "py_error + 'a"

section \<open>Dictionaries\<close>

type_synonym ('k, 'v) pydict = "('k \<times> 'v) list"

abbreviation (input) dict_get :: "('k, 'v) pydict \<Rightarrow> 'k \<Rightarrow> 'v option" where
  "dict_get d k \<equiv> map_of d k"

abbreviation (input) dict_set :: "'k \<Rightarrow> 'v \<Rightarrow> ('k, 'v) pydict \<Rightarrow> ('k, 'v) pydict" where
  "dict_set k v d \<equiv> AList.update k v d"

abbreviation (input) dict_del :: "'k \<Rightarrow> ('k, 'v) pydict \<Rightarrow> ('k, 'v) pydict" where
  "dict_del k d \<equiv> AList.delete k d"

abbreviation (input) dict_keys :: "('k, 'v) pydict \<Rightarrow> 'k list" where
  "dict_keys d \<equiv> map fst d"

abbreviation (input) dict_values :: "('k, 'v) pydict \<Rightarrow> 'v list" where
  "dict_values d \<equiv> map snd d"

definition dict_wf :: "('k, 'v) pydict \<Rightarrow> bool" where
  "dict_wf d \<longleftrightarrow> distinct (map fst d)"

definition dict_get_default :: "('k, 'v) pydict \<Rightarrow> 'k \<Rightarrow> 'v \<Rightarrow> 'v" where
  "dict_get_default d k v = (case map_of d k of None \<Rightarrow> v | Some w \<Rightarrow> w)"

lemma map_of_dict_set [simp, dict_simps]:
  "map_of (dict_set k v d) k' = (if k' = k then Some v else map_of d k')"
  by (simp add: update_conv')

lemma map_of_dict_del [simp, dict_simps]:
  "map_of (dict_del k d) k' = (if k' = k then None else map_of d k')"
  by (simp add: delete_conv')

lemma set_dict_keys_set [simp, dict_simps]:
  "fst ` set (dict_set k v d) = insert k (fst ` set d)"
  by (induction d) auto

lemma set_dict_keys_del [simp, dict_simps]:
  "fst ` set (dict_del k d) = fst ` set d - {k}"
  by (induction d) auto

definition dict_dom :: "('k, 'v) pydict \<Rightarrow> 'k set" where
  "dict_dom d = fst ` set d"

lemma dict_dom_simps [simp, dict_simps]:
  "dict_dom [] = {}"
  "dict_dom (dict_set k v d) = insert k (dict_dom d)"
  "dict_dom (dict_del k d) = dict_dom d - {k}"
  by (simp_all add: dict_dom_def)

lemma dict_dom_iff: "k \<in> dict_dom d \<longleftrightarrow> map_of d k \<noteq> None"
  by (simp add: dict_dom_def map_of_eq_None_iff)

lemma dict_wf_Nil [simp]: "dict_wf []"
  by (simp add: dict_wf_def)

lemma dict_wf_set [simp, intro]: "dict_wf d \<Longrightarrow> dict_wf (dict_set k v d)"
  by (simp add: dict_wf_def distinct_update)

lemma dict_wf_del [simp, intro]: "dict_wf d \<Longrightarrow> dict_wf (dict_del k d)"
  by (simp add: dict_wf_def distinct_delete)

lemma dict_wf_filter [simp, intro]: "dict_wf d \<Longrightarrow> dict_wf (filter P d)"
  by (simp add: dict_wf_def distinct_map_filter)

lemma map_of_filter_wf:
  "dict_wf d \<Longrightarrow> map_of (filter P d) k =
     (case map_of d k of None \<Rightarrow> None | Some v \<Rightarrow> if P (k, v) then Some v else None)"
  by (induction d) (auto simp: dict_wf_def map_of_eq_None_iff split: option.splits)

lemma dict_wf_map_of_eq: "dict_wf d \<Longrightarrow> map_of d k = Some v \<longleftrightarrow> (k, v) \<in> set d"
  by (simp add: dict_wf_def)

lemma map_of_isSome_keys: "(\<exists>v. map_of d k = Some v) \<longleftrightarrow> k \<in> fst ` set d"
  by (metis map_of_eq_None_iff not_None_eq)

lemma dict_get_default_set [simp, dict_simps]:
  "dict_get_default (dict_set k v d) k' w = (if k' = k then v else dict_get_default d k' w)"
  by (simp add: dict_get_default_def)

lemma dict_get_default_del [simp, dict_simps]:
  "dict_get_default (dict_del k d) k' w = (if k' = k then w else dict_get_default d k' w)"
  by (simp add: dict_get_default_def)

lemma dict_get_default_Nil [simp]: "dict_get_default [] k w = w"
  by (simp add: dict_get_default_def)

lemma dict_set_new: "k \<notin> fst ` set d \<Longrightarrow> dict_set k v d = d @ [(k, v)]"
  by (induction d) auto

lemma dict_set_twice [simp]: "dict_set k v (dict_set k w d) = dict_set k v d"
  by (induction d) auto

lemma foldl_dict_set:
  "distinct (map fst xs) \<Longrightarrow> fst ` set d \<inter> fst ` set xs = {} \<Longrightarrow>
     foldl (\<lambda>d (k, v). dict_set k v d) d xs = d @ xs"
proof (induction xs arbitrary: d)
  case (Cons x xs)
  obtain k v where x: "x = (k, v)" by fastforce
  have "k \<notin> fst ` set d" using Cons.prems x by auto
  then have "dict_set k v d = d @ [(k, v)]" by (induction d) auto
  moreover have "foldl (\<lambda>d (k, v). dict_set k v d) (d @ [(k, v)]) xs = (d @ [(k, v)]) @ xs"
    using Cons.prems x by (intro Cons.IH) auto
  ultimately show ?case by (simp add: x)
qed simp

section \<open>Recency lists\<close>

definition move_to_end :: "'a \<Rightarrow> 'a list \<Rightarrow> 'a list" where
  "move_to_end k xs = remove1 k xs @ [k]"

lemma set_move_to_end [simp]: "set (move_to_end k xs) = insert k (set xs)"
  by (auto simp: move_to_end_def dest: in_set_remove1 [THEN iffD2, rotated]
      set_remove1_subset [THEN subsetD])

lemma distinct_move_to_end [simp, intro]: "distinct xs \<Longrightarrow> distinct (move_to_end k xs)"
  by (simp add: move_to_end_def)

lemma move_to_end_not_Nil [simp]: "move_to_end k xs \<noteq> []"
  by (simp add: move_to_end_def)

section \<open>Floats\<close>

type_synonym pyfloat = rat

text \<open>
  The documented behaviour of IEEE-754 rounding that the code relies on: rounding is
  monotone and exact on integers up to \<open>2^53\<close>.
\<close>

definition ieee_rounding :: "(rat \<Rightarrow> rat) \<Rightarrow> bool" where
  "ieee_rounding rnd \<longleftrightarrow>
     (\<forall>x y. x \<le> y \<longrightarrow> rnd x \<le> rnd y) \<and>
     (\<forall>n::int. \<bar>n\<bar> \<le> 2 ^ 53 \<longrightarrow> rnd (of_int n) = of_int n)"

lemma ieee_rounding_id: "ieee_rounding (\<lambda>x. x)"
  by (simp add: ieee_rounding_def)

lemma ieee_int: "ieee_rounding rnd \<Longrightarrow> \<bar>n\<bar> \<le> 2 ^ 53 \<Longrightarrow> rnd (of_int n) = of_int n"
  by (simp add: ieee_rounding_def)

lemma ieee_nat: "ieee_rounding rnd \<Longrightarrow> int n \<le> 2 ^ 53 \<Longrightarrow> rnd (of_nat n) = of_nat n"
  using ieee_int [of rnd "int n"] by simp

lemma ieee_zero: "ieee_rounding rnd \<Longrightarrow> rnd 0 = 0"
  using ieee_int [of rnd 0] by simp

section \<open>Lists\<close>

lemma sum_list_pos_int:
  fixes f :: "'a \<Rightarrow> int"
  shows "\<forall>x\<in>set xs. 0 < f x \<Longrightarrow> xs \<noteq> [] \<Longrightarrow> 0 < sum_list (map f xs)"
proof (induction xs)
  case (Cons x xs)
  then show ?case by (cases "xs = []") auto
qed simp

lemma strict_sorted_key_unique:
  fixes f :: "'a \<Rightarrow> 'b::linorder"
  assumes "sorted_wrt (\<lambda>a b. f a < f b) xs" and "sorted_wrt (\<lambda>a b. f a < f b) ys"
    and "set xs = set ys"
  shows "xs = ys"
  using assms
proof (induction xs arbitrary: ys)
  case Nil
  then show ?case by simp
next
  case (Cons x xs)
  then obtain y ys' where ys: "ys = y # ys'" by (cases ys) auto
  have xy: "x = y"
  proof (rule ccontr)
    assume "x \<noteq> y"
    with Cons.prems ys have "x \<in> set ys'" and "y \<in> set xs" by auto
    with Cons.prems ys have "f y < f x" and "f x < f y" by auto
    then show False by simp
  qed
  have "x \<notin> set xs" and "y \<notin> set ys'" using Cons.prems ys by auto
  with Cons.prems ys xy have "set xs = set ys'" by auto
  with Cons.IH [of ys'] Cons.prems ys xy show ?case by simp
qed

lemma sorted_distinct_key_strict:
  fixes f :: "'a \<Rightarrow> 'b::linorder"
  assumes "sorted (map f xs)" and "distinct (map f xs)"
  shows "sorted_wrt (\<lambda>a b. f a < f b) xs"
  using assms by (induction xs) (auto simp: order.order_iff_strict)

lemma find_split:
  assumes "List.find P xs = Some x"
  obtains ys zs where "xs = ys @ x # zs" and "P x" and "\<forall>y\<in>set ys. \<not> P y"
  using assms
proof (induction xs arbitrary: thesis)
  case Nil
  then show ?case by simp
next
  case (Cons a xs)
  show ?case
  proof (cases "P a")
    case True
    with Cons.prems show ?thesis by (intro Cons.prems(1) [of "[]" xs]) auto
  next
    case False
    with Cons.prems(2) have "List.find P xs = Some x" by simp
    from Cons.IH [OF _ this] False obtain ys zs where
      "xs = ys @ x # zs" "P x" "\<forall>y\<in>set ys. \<not> P y" by blast
    with False show ?thesis by (intro Cons.prems(1) [of "a # ys" zs]) auto
  qed
qed

lemma foldl_inv: "P a \<Longrightarrow> (\<And>a x. x \<in> set xs \<Longrightarrow> P a \<Longrightarrow> P (f a x)) \<Longrightarrow> P (foldl f a xs)"
  by (induction xs arbitrary: a) auto

end
