(* ===== verification/Object_Key.thy ===== *)
theory Object_Key
  imports Prelude "HOL-Library.Word"
begin

unbundle bit_operations_syntax

text \<open>
  \<^verbatim>\<open>lmcache/v1/distributed/api.py\<close>: \<open>ObjectKey\<close> with its validation, the packed rank and
  the hex wire form, \<open>AttnWindowDesc\<close>, \<open>PrefetchRequestSpec\<close> and \<open>ipc_key_to_object_keys\<close>;
  \<^verbatim>\<open>lmcache/v1/multiprocess/custom_types.py\<close>: the validation of \<open>IPCCacheServerKey\<close>;
  \<^verbatim>\<open>lmcache/v1/mp_coordinator/utils/encoding.py\<close>: the positional encoding of keys.

  A constructor that validates its fields returns the object or \<open>ValueError\<close>. A Python \<open>str\<close> is
  a list of characters, \<open>bytes\<close> a list of 8-bit words.
\<close>

section \<open>Keys\<close>

type_synonym pybytes = "8 word list"

record object_key =
  chunk_hash :: pybytes
  model_name :: string
  kv_rank :: int
  object_group_id :: int
  cache_salt :: string

definition SALT_FORBIDDEN_CHARS :: "char set" where
  "SALT_FORBIDDEN_CHARS = {CHR ''@'', CHR ''/'', CHR 0x5C, CHR 0x00}"

definition SALT_MAX_LEN :: nat where
  "SALT_MAX_LEN = 128"

definition salt_ok :: "string \<Rightarrow> bool" where
  "salt_ok salt \<longleftrightarrow> set salt \<inter> SALT_FORBIDDEN_CHARS = {} \<and> length salt \<le> SALT_MAX_LEN"

definition new_object_key :: "pybytes \<Rightarrow> string \<Rightarrow> int \<Rightarrow> int \<Rightarrow> string \<Rightarrow> object_key result" where
  "new_object_key h model rank grp salt =
     (if CHR ''@'' \<in> set model then Inl ValueError
      else if grp < 0 then Inl ValueError
      else if set salt \<inter> SALT_FORBIDDEN_CHARS \<noteq> {} then Inl ValueError
      else if length salt > SALT_MAX_LEN then Inl ValueError
      else Inr \<lparr>chunk_hash = h, model_name = model, kv_rank = rank, object_group_id = grp, cache_salt = salt\<rparr>)"

definition key_ok :: "object_key \<Rightarrow> bool" where
  "key_ok key \<longleftrightarrow> CHR ''@'' \<notin> set (model_name key) \<and> 0 \<le> object_group_id key \<and> salt_ok (cache_salt key)"

section \<open>The rank\<close>

definition ComputeKVRank :: "int \<Rightarrow> int \<Rightarrow> int \<Rightarrow> int \<Rightarrow> int" where
  "ComputeKVRank world_size global_rank local_world_size local_rank =
     ((push_bit 24 world_size OR push_bit 16 global_rank) OR push_bit 8 local_world_size) OR local_rank"

section \<open>The hex wire form\<close>

definition hex_digit :: "nat \<Rightarrow> char" where
  "hex_digit n = ''0123456789abcdef'' ! n"

definition hex_byte :: "8 word \<Rightarrow> string" where
  "hex_byte b = [hex_digit (unat b div 16), hex_digit (unat b mod 16)]"

definition hex_of_bytes :: "pybytes \<Rightarrow> string" where
  "hex_of_bytes bs = concat (map hex_byte bs)"

definition hex_value :: "char \<Rightarrow> nat option" where
  "hex_value c =
     (let n = of_char c :: nat
      in if 48 \<le> n \<and> n \<le> 57 then Some (n - 48)
         else if 97 \<le> n \<and> n \<le> 102 then Some (n - 87)
         else if 65 \<le> n \<and> n \<le> 70 then Some (n - 55)
         else None)"

definition is_ascii_space :: "char \<Rightarrow> bool" where
  "is_ascii_space c \<longleftrightarrow> (let n = of_char c :: nat in n = 32 \<or> (9 \<le> n \<and> n \<le> 13))"

text \<open>\<open>bytes.fromhex\<close>: pairs of hex digits of either case, whitespace allowed between bytes.\<close>

fun bytes_fromhex :: "string \<Rightarrow> pybytes result" where
  "bytes_fromhex [] = Inr []"
| "bytes_fromhex (c # cs) =
     (if is_ascii_space c then bytes_fromhex cs
      else case cs of
        [] \<Rightarrow> Inl ValueError
      | d # ds \<Rightarrow>
          (case (hex_value c, hex_value d) of
             (Some hi, Some lo) \<Rightarrow>
               (case bytes_fromhex ds of
                  Inl e \<Rightarrow> Inl e
                | Inr bs \<Rightarrow> Inr (of_nat (16 * hi + lo) # bs))
           | _ \<Rightarrow> Inl ValueError))"

record encoded_object_key =
  chunk_hash_hex :: string
  ek_model_name :: string
  ek_kv_rank :: int
  ek_object_group_id :: int
  ek_cache_salt :: string

definition to_encoded_object_key :: "object_key \<Rightarrow> encoded_object_key" where
  "to_encoded_object_key key =
     \<lparr>chunk_hash_hex = hex_of_bytes (chunk_hash key), ek_model_name = model_name key,
      ek_kv_rank = kv_rank key, ek_object_group_id = object_group_id key, ek_cache_salt = cache_salt key\<rparr>"

definition to_object_key :: "encoded_object_key \<Rightarrow> object_key result" where
  "to_object_key ek =
     (case bytes_fromhex (chunk_hash_hex ek) of
        Inl e \<Rightarrow> Inl e
      | Inr h \<Rightarrow> new_object_key h (ek_model_name ek) (ek_kv_rank ek) (ek_object_group_id ek) (ek_cache_salt ek))"

section \<open>The positional encoding\<close>

type_synonym encoded_key = "pybytes \<times> string \<times> int \<times> int \<times> string"

definition encode_key :: "object_key \<Rightarrow> encoded_key" where
  "encode_key key = (chunk_hash key, model_name key, kv_rank key, object_group_id key, cache_salt key)"

definition decode_key :: "encoded_key \<Rightarrow> object_key result" where
  "decode_key encoded = (case encoded of (h, model, rank, grp, salt) \<Rightarrow> new_object_key h model rank grp salt)"

section \<open>Attention windows and prefetch requests\<close>

datatype group_kind = Attention | Recurrent | Standalone | Other_Kind string

record attn_window_desc =
  num_chunks_in_sw :: "int list"
  aw_world_size :: int
  group_kinds :: "group_kind list"

definition valid_kind :: "group_kind \<Rightarrow> bool" where
  "valid_kind k \<longleftrightarrow> (case k of Other_Kind _ \<Rightarrow> False | _ \<Rightarrow> True)"

definition new_attn_window_desc :: "int list \<Rightarrow> int \<Rightarrow> group_kind list \<Rightarrow> attn_window_desc result" where
  "new_attn_window_desc ws world kinds =
     (if world < 1 then Inl ValueError
      else if \<exists>w\<in>set ws. w = 0 \<or> w < -1 then Inl ValueError
      else if kinds \<noteq> [] \<and> length kinds \<noteq> length ws then Inl ValueError
      else if kinds \<noteq> [] \<and> (\<exists>k\<in>set kinds. \<not> valid_kind k) then Inl ValueError
      else Inr \<lparr>num_chunks_in_sw = ws, aw_world_size = world, group_kinds = kinds\<rparr>)"

definition num_object_groups :: "attn_window_desc \<Rightarrow> nat" where
  "num_object_groups d = length (num_chunks_in_sw d)"

text \<open>Python indexing: a negative index counts from the end, out of range raises.\<close>

definition is_full_attention :: "attn_window_desc \<Rightarrow> int \<Rightarrow> bool result" where
  "is_full_attention d i =
     (let n = int (length (num_chunks_in_sw d)); j = (if i < 0 then i + n else i)
      in if 0 \<le> j \<and> j < n then Inr (num_chunks_in_sw d ! nat j < 0) else Inl IndexError)"

definition prefetch_spec_ok :: "int \<Rightarrow> attn_window_desc \<Rightarrow> (int, 'l) pydict \<Rightarrow> unit result" where
  "prefetch_spec_ok num_kv_readers d group_layout_descs =
     (if num_kv_readers < 1 then Inl ValueError
      else if \<not> set (map int [0..<num_object_groups d]) \<subseteq> set (dict_keys group_layout_descs) then Inl ValueError
      else Inr ())"

section \<open>Expanding an IPC key\<close>

record ipc_key =
  ipc_model_name :: string
  ipc_world_size :: int
  ipc_worker_id :: "int option"
  ipc_cache_salt :: string

definition new_ipc_key :: "string \<Rightarrow> int \<Rightarrow> int option \<Rightarrow> string \<Rightarrow> ipc_key result" where
  "new_ipc_key model world wid salt =
     (if set salt \<inter> SALT_FORBIDDEN_CHARS \<noteq> {} then Inl ValueError
      else if length salt > SALT_MAX_LEN then Inl ValueError
      else Inr \<lparr>ipc_model_name = model, ipc_world_size = world, ipc_worker_id = wid, ipc_cache_salt = salt\<rparr>)"

definition ipc_kv_ranks :: "ipc_key \<Rightarrow> int list" where
  "ipc_kv_ranks k =
     (case ipc_worker_id k of
        None \<Rightarrow> map (\<lambda>w. ComputeKVRank (ipc_world_size k) (int w) (ipc_world_size k) (int w))
                  [0..<nat (ipc_world_size k)]
      | Some w \<Rightarrow> [ComputeKVRank (ipc_world_size k) w (ipc_world_size k) w])"

text \<open>A comprehension whose element constructor raises stops at the first error.\<close>

fun sequence_results :: "'a result list \<Rightarrow> 'a list result" where
  "sequence_results [] = Inr []"
| "sequence_results (r # rs) =
     (case r of Inl e \<Rightarrow> Inl e
      | Inr x \<Rightarrow> (case sequence_results rs of Inl e \<Rightarrow> Inl e | Inr xs \<Rightarrow> Inr (x # xs)))"

definition ipc_group_keys :: "ipc_key \<Rightarrow> pybytes list \<Rightarrow> int \<Rightarrow> object_key list result" where
  "ipc_group_keys k chunk_hashes grp =
     sequence_results (concat (map (\<lambda>h. map (\<lambda>rank.
       new_object_key h (ipc_model_name k) rank grp (ipc_cache_salt k)) (ipc_kv_ranks k)) chunk_hashes))"

definition ipc_key_to_object_keys :: "ipc_key \<Rightarrow> pybytes list \<Rightarrow> int list \<Rightarrow> object_key list list result" where
  "ipc_key_to_object_keys k chunk_hashes object_group_ids =
     sequence_results (map (ipc_group_keys k chunk_hashes) object_group_ids)"

section \<open>Round trips\<close>

lemma new_object_key_ok: "new_object_key h m r g s = Inr key \<Longrightarrow> key_ok key"
  by (auto simp: new_object_key_def key_ok_def salt_ok_def split: if_splits)

lemma new_object_key_fields:
  "key_ok key \<Longrightarrow>
     new_object_key (chunk_hash key) (model_name key) (kv_rank key) (object_group_id key) (cache_salt key) = Inr key"
  by (simp add: new_object_key_def key_ok_def salt_ok_def)

lemma hex_digit_cases: "n < 16 \<Longrightarrow> hex_value (hex_digit n) = Some n \<and> \<not> is_ascii_space (hex_digit n)"
proof -
  assume "n < 16"
  then have "n \<in> set [0..<16]" by simp
  moreover have "\<forall>n\<in>set [0..<16]. hex_value (hex_digit n) = Some n \<and> \<not> is_ascii_space (hex_digit n)"
    by code_simp
  ultimately show ?thesis by blast
qed

lemma bytes_fromhex_of_bytes: "bytes_fromhex (hex_of_bytes bs) = Inr bs"
proof (induction bs)
  case (Cons b bs)
  have lt: "unat b < 256" using unsigned_less [of b, where ?'a = nat] by simp
  then have d: "unat b div 16 < 16" "unat b mod 16 < 16" by auto
  have "(of_nat (16 * (unat b div 16) + unat b mod 16) :: 8 word) = b" by (simp del: of_nat_add of_nat_mult)
  with Cons hex_digit_cases [OF d(1)] hex_digit_cases [OF d(2)] show ?case
    by (simp add: hex_of_bytes_def hex_byte_def del: of_nat_add of_nat_mult)
qed (simp add: hex_of_bytes_def)

lemma push_or_low:
  assumes "0 \<le> b" and "b < 2 ^ n"
  shows "push_bit n a OR b = a * 2 ^ n + (b::int)"
proof -
  have "push_bit n a AND b = 0"
  proof (rule bit_eqI)
    fix i
    have "take_bit n b = b" using assms by (simp add: take_bit_int_eq_self)
    then have "\<not> bit b i" if "n \<le> i" using that by (metis bit_take_bit_iff not_less)
    then show "bit (push_bit n a AND b) i = bit (0::int) i" by (auto simp: bit_simps)
  qed
  then show ?thesis by (simp add: disjunctive_add_eq_or [symmetric] push_bit_eq_mult)
qed

lemma kv_rank_sum:
  assumes "0 \<le> gr" "gr < 256" "0 \<le> lws" "lws < 256" "0 \<le> lr" "lr < 256"
  shows "ComputeKVRank ws gr lws lr = ((ws * 256 + gr) * 256 + lws) * 256 + lr"
proof -
  have "push_bit 24 ws OR push_bit 16 gr = push_bit 16 (push_bit 8 ws OR gr)"
    by (simp add: push_bit_or)
  also have "push_bit 8 ws OR gr = ws * 256 + gr" using push_or_low [of gr 8 ws] assms by simp
  finally have 1: "push_bit 24 ws OR push_bit 16 gr = push_bit 16 (ws * 256 + gr)" .
  have "push_bit 16 (ws * 256 + gr) OR push_bit 8 lws = push_bit 8 (push_bit 8 (ws * 256 + gr) OR lws)"
    by (simp add: push_bit_or)
  also have "push_bit 8 (ws * 256 + gr) OR lws = (ws * 256 + gr) * 256 + lws"
    using push_or_low [of lws 8 "ws * 256 + gr"] assms by simp
  finally show ?thesis
    using push_or_low [of lr 8 "(ws * 256 + gr) * 256 + lws"] assms by (simp add: ComputeKVRank_def 1)
qed

lemma kv_rank_inj_worker:
  assumes "0 \<le> ws" "ws < 256" "0 \<le> w" "w < 256" "0 \<le> w'" "w' < 256"
    and "ComputeKVRank ws w ws w = ComputeKVRank ws w' ws w'"
  shows "w = w'"
  using assms by (simp add: kv_rank_sum)

section \<open>Expansion\<close>

lemma sequence_results_map_Inr: "sequence_results (map (\<lambda>x. Inr (f x)) xs) = Inr (map f xs)"
  by (induction xs) auto

lemma sequence_results_Inr:
  "sequence_results rs = Inr ys \<longleftrightarrow> rs = map Inr ys"
proof (induction rs arbitrary: ys)
  case (Cons r rs)
  show ?case
  proof (cases r)
    case (Inr x)
    show ?thesis
    proof (cases "sequence_results rs")
      case (Inl e)
      then have "rs \<noteq> map Inr zs" for zs using Cons.IH [of zs] by simp
      then show ?thesis using Inl Inr by auto
    next
      case (Inr zs)
      then show ?thesis using \<open>r = Inr x\<close> Cons.IH [of zs] by (auto dest!: inj_onD [OF inj_mapI [OF inj_Inr]])
    qed
  qed auto
qed auto

definition ipc_object_key :: "ipc_key \<Rightarrow> int \<Rightarrow> pybytes \<times> int \<Rightarrow> object_key" where
  "ipc_object_key k grp hr =
     \<lparr>chunk_hash = fst hr, model_name = ipc_model_name k, kv_rank = snd hr, object_group_id = grp,
      cache_salt = ipc_cache_salt k\<rparr>"

lemma ipc_group_keys_eq:
  assumes "CHR ''@'' \<notin> set (ipc_model_name k)" and "salt_ok (ipc_cache_salt k)" and "0 \<le> grp"
  shows "ipc_group_keys k hs grp = Inr (map (ipc_object_key k grp) (List.product hs (ipc_kv_ranks k)))"
proof -
  have "new_object_key h (ipc_model_name k) r grp (ipc_cache_salt k) = Inr (ipc_object_key k grp (h, r))" for h r
    using assms by (simp add: new_object_key_def salt_ok_def ipc_object_key_def)
  then have "concat (map (\<lambda>h. map (\<lambda>rank. new_object_key h (ipc_model_name k) rank grp (ipc_cache_salt k))
      (ipc_kv_ranks k)) hs) = map (\<lambda>p. Inr (ipc_object_key k grp p)) (List.product hs (ipc_kv_ranks k))"
    by (induction hs) (auto simp: comp_def)
  then show ?thesis by (simp add: ipc_group_keys_def sequence_results_map_Inr)
qed

lemma ipc_keys_eq:
  assumes "CHR ''@'' \<notin> set (ipc_model_name k)" and "salt_ok (ipc_cache_salt k)" and "\<forall>g\<in>set gs. 0 \<le> g"
  shows "ipc_key_to_object_keys k hs gs =
    Inr (map (\<lambda>g. map (ipc_object_key k g) (List.product hs (ipc_kv_ranks k))) gs)"
proof -
  have "map (ipc_group_keys k hs) gs = map (\<lambda>g. Inr (map (ipc_object_key k g) (List.product hs (ipc_kv_ranks k)))) gs"
    using assms by (intro map_cong) (simp_all add: ipc_group_keys_eq)
  then show ?thesis by (simp only: ipc_key_to_object_keys_def sequence_results_map_Inr)
qed

lemma distinct_ipc_ranks:
  assumes "0 \<le> ipc_world_size k" and "ipc_world_size k < 256"
  shows "distinct (ipc_kv_ranks k)"
proof -
  have "x = y" if "x < nat (ipc_world_size k)" "y < nat (ipc_world_size k)"
      "ComputeKVRank (ipc_world_size k) (int x) (ipc_world_size k) (int x) =
       ComputeKVRank (ipc_world_size k) (int y) (ipc_world_size k) (int y)" for x y
    using kv_rank_inj_worker [OF assms _ _ _ _ that(3)] that assms by simp
  then show ?thesis by (auto simp: ipc_kv_ranks_def distinct_map inj_on_def split: option.splits)
qed

lemma ipc_object_key_inj: "ipc_object_key k g p = ipc_object_key k g' p' \<longleftrightarrow> g = g' \<and> p = p'"
  by (auto simp: ipc_object_key_def prod_eq_iff)

lemma distinct_concat_groups:
  assumes "distinct gs" and "distinct ps"
  shows "distinct (concat (map (\<lambda>g. map (ipc_object_key k g) ps) gs))"
  using assms by (induction gs) (auto simp: distinct_map inj_on_def ipc_object_key_inj)

section \<open>Properties\<close>

lemma sequence_results_all: "\<forall>x\<in>set xs. f x = Inr (g x) \<Longrightarrow> sequence_results (map f xs) = Inr (map g xs)"
  by (induction xs) auto

lemma decode_encode: "key_ok k \<Longrightarrow> decode_key (encode_key k) = Inr k"
  using new_object_key_fields [of k] by (simp add: decode_key_def encode_key_def)

definition demo_key :: object_key where
  "demo_key = \<lparr>chunk_hash = [0, 171, 255], model_name = ''llama'', kv_rank = 7, object_group_id = 0, cache_salt = ''u1''\<rparr>"

text \<open>
  C38. Wire round trips: a key that satisfies the class invariants survives the hex wire form
  and the positional encoding of checkpoints unchanged.
\<close>

theorem object_key_roundtrip:
  assumes "key_ok key"
  shows "to_object_key (to_encoded_object_key key) = Inr key \<and> decode_key (encode_key key) = Inr key"
  using assms new_object_key_fields [of key]
  by (simp add: to_object_key_def to_encoded_object_key_def bytes_fromhex_of_bytes decode_key_def encode_key_def)

theorem object_key_roundtrip_witness:
  "chunk_hash_hex (to_encoded_object_key demo_key) = ''00abff'' \<and>
   to_object_key (to_encoded_object_key demo_key) = Inr demo_key"
proof -
  have "key_ok demo_key"
    by (simp add: key_ok_def demo_key_def salt_ok_def SALT_FORBIDDEN_CHARS_def SALT_MAX_LEN_def)
  moreover have "chunk_hash_hex (to_encoded_object_key demo_key) = ''00abff''" by code_simp
  ultimately show ?thesis using object_key_roundtrip by blast
qed

text \<open>
  C40. The packed rank loses nothing while the three lower fields fit in 8 bits: each of the
  four numbers can be read back.
\<close>

theorem kv_rank_fields:
  fixes ws gr lws lr :: int
  assumes "0 \<le> gr" "gr < 256" "0 \<le> lws" "lws < 256" "0 \<le> lr" "lr < 256"
  defines "r \<equiv> ComputeKVRank ws gr lws lr"
  shows "r div 2 ^ 24 = ws \<and> r div 2 ^ 16 mod 2 ^ 8 = gr \<and> r div 2 ^ 8 mod 2 ^ 8 = lws \<and> r mod 2 ^ 8 = lr"
proof -
  define a where "a = ws * 256 + gr"
  define b where "b = a * 256 + lws"
  have "r = b * 256 + lr" unfolding r_def a_def b_def by (rule kv_rank_sum [OF assms(1-6)])
  then have "r div 2 ^ 8 = b" "r mod 2 ^ 8 = lr" using assms(5,6) by simp_all
  moreover have "b div 256 = a" "b mod 256 = lws" using assms(3,4) by (simp_all add: b_def)
  moreover have "a div 256 = ws" "a mod 256 = gr" using assms(1,2) by (simp_all add: a_def)
  moreover have "r div 2 ^ 16 = r div 2 ^ 8 div 256" "r div 2 ^ 24 = r div 2 ^ 8 div 256 div 256"
    by (simp_all add: zdiv_zmult2_eq [symmetric])
  ultimately show ?thesis by simp
qed

theorem kv_rank_fields_witness: "ComputeKVRank 8 5 4 1 div 2 ^ 24 = 8 \<and> ComputeKVRank 8 5 4 1 mod 2 ^ 8 = 1"
  using kv_rank_fields [of 5 4 1 8] by simp

text \<open>
  Expanding an IPC key: for valid inputs it succeeds, with one list per object group;
  no two of the produced keys are equal, and every one carries the salt and the model of the
  request, so keys of different users never meet.
\<close>

theorem ipc_keys_distinct_and_isolated:
  assumes "CHR ''@'' \<notin> set (ipc_model_name k)" and "salt_ok (ipc_cache_salt k)" and "\<forall>g\<in>set gs. 0 \<le> g"
    and "0 \<le> ipc_world_size k" and "ipc_world_size k < 256" and "distinct hs" and "distinct gs"
  shows "\<exists>kss. ipc_key_to_object_keys k hs gs = Inr kss \<and> length kss = length gs \<and>
    distinct (concat kss) \<and>
    (\<forall>ks\<in>set kss. length ks = length hs * length (ipc_kv_ranks k)) \<and>
    (\<forall>key\<in>set (concat kss). cache_salt key = ipc_cache_salt k \<and> model_name key = ipc_model_name k \<and> key_ok key)"
proof -
  let ?ps = "List.product hs (ipc_kv_ranks k)"
  have "distinct ?ps" using assms(6) distinct_ipc_ranks [OF assms(4,5)] by (simp add: distinct_product)
  then have "distinct (concat (map (\<lambda>g. map (ipc_object_key k g) ?ps) gs))"
    by (rule distinct_concat_groups [OF assms(7)])
  with ipc_keys_eq [OF assms(1-3)] assms(1-3) show ?thesis
    by (auto simp: length_product ipc_object_key_def key_ok_def)
qed

end
