(* ===== verification/Token_Hasher.thy ===== *)
theory Token_Hasher
  imports Object_Key
begin

text \<open>
  \<^verbatim>\<open>lmcache/v1/multiprocess/token_hasher.py\<close>: \<open>TokenHasher\<close>, the rolling prefix hashes of token
  chunks; \<^verbatim>\<open>lmcache/v1/multiprocess/cache_control/key_resolver.py\<close>: \<open>resolve_object_keys\<close>, which
  turns a token sequence into the object keys of its complete chunks.

  The digest of the package \<open>blake3\<close> and the hash functions of vLLM are not part of the
  repository: the hasher has its hash function as a field, and \<open>blake3\<close> is an argument of
  \<open>blake3_hash\<close>. Two updates of a hash object hash the concatenation.
\<close>

section \<open>Hash values\<close>

datatype hash_value = Hash_Bytes pybytes | Hash_Int int

text \<open>\<open>n.to_bytes(w, "big")\<close> for a value in range, also for a negative one (two's complement).\<close>

definition be_bytes :: "nat \<Rightarrow> int \<Rightarrow> pybytes" where
  "be_bytes w n = map (\<lambda>j. word_of_int (n div 256 ^ (w - 1 - j))) [0..<w]"

definition to_bytes_signed8 :: "int \<Rightarrow> pybytes result" where
  "to_bytes_signed8 n = (if - (2 ^ 63) \<le> n \<and> n < 2 ^ 63 then Inr (be_bytes 8 n) else Inl OverflowError)"

definition pack_u32 :: "int list \<Rightarrow> pybytes result" where
  "pack_u32 toks = (if \<forall>t\<in>set toks. 0 \<le> t \<and> t < 2 ^ 32 then Inr (concat (map (be_bytes 4) toks)) else Inl StructError)"

definition hash_to_bytes :: "hash_value \<Rightarrow> pybytes result" where
  "hash_to_bytes h = (case h of Hash_Bytes b \<Rightarrow> Inr b | Hash_Int n \<Rightarrow> to_bytes_signed8 n)"

definition blake3_hash :: "(pybytes \<Rightarrow> pybytes) \<Rightarrow> hash_value \<Rightarrow> int list \<Rightarrow> hash_value result" where
  "blake3_hash blake3 prefix toks =
     (case (case prefix of Hash_Bytes b \<Rightarrow> Inr b | Hash_Int n \<Rightarrow> to_bytes_signed8 n) of
        Inl err \<Rightarrow> Inl err
      | Inr p \<Rightarrow> (case pack_u32 toks of Inl err \<Rightarrow> Inl err | Inr t \<Rightarrow> Inr (Hash_Bytes (blake3 (p @ t)))))"

section \<open>The hasher\<close>

record token_hasher =
  th_chunk_size :: int
  hash_func :: "hash_value \<Rightarrow> int list \<Rightarrow> hash_value result"
  none_hash :: hash_value

text \<open>\<open>__init__\<close>: \<open>vllm_none\<close> is the \<open>NONE_HASH\<close> of vLLM when it can be loaded.\<close>

definition new_token_hasher ::
  "int \<Rightarrow> (hash_value \<Rightarrow> int list \<Rightarrow> hash_value result) \<Rightarrow> hash_value option \<Rightarrow> token_hasher result" where
  "new_token_hasher chunk_size hf vllm_none =
     (case vllm_none of
        Some h \<Rightarrow> Inr \<lparr>th_chunk_size = chunk_size, hash_func = hf, none_hash = h\<rparr>
      | None \<Rightarrow>
          (case hf (Hash_Int 0) [0] of
             Inl err \<Rightarrow> Inl err
           | Inr h \<Rightarrow> Inr \<lparr>th_chunk_size = chunk_size, hash_func = hf, none_hash = h\<rparr>))"

definition hash_tokens :: "token_hasher \<Rightarrow> int list \<Rightarrow> hash_value option \<Rightarrow> hash_value result" where
  "hash_tokens th toks prefix =
     hash_func th (case prefix of None \<Rightarrow> none_hash th | Some h \<Rightarrow> h) toks"

text \<open>\<open>xs[st:en]\<close>: a negative index counts from the end, and both are clamped to the list.\<close>

definition slice_index :: "int \<Rightarrow> nat \<Rightarrow> nat" where
  "slice_index i n = (if i < 0 then nat (i + int n) else min (nat i) n)"

definition py_slice :: "int \<Rightarrow> int \<Rightarrow> 'a list \<Rightarrow> 'a list" where
  "py_slice st en xs =
     (let a = slice_index st (length xs); b = slice_index en (length xs) in take (b - a) (drop a xs))"

fun chunk_loop :: "token_hasher \<Rightarrow> int list \<Rightarrow> int \<Rightarrow> int list \<Rightarrow> hash_value \<Rightarrow> pybytes list result" where
  "chunk_loop th toks start [] prefix = Inr []"
| "chunk_loop th toks start (i # is) prefix =
     (case hash_tokens th (py_slice i (i + th_chunk_size th) toks) (Some prefix) of
        Inl err \<Rightarrow> Inl err
      | Inr h \<Rightarrow>
          if i \<ge> start
          then (case hash_to_bytes h of
                  Inl err \<Rightarrow> Inl err
                | Inr b \<Rightarrow>
                    (case chunk_loop th toks start is h of Inl err \<Rightarrow> Inl err | Inr bs \<Rightarrow> Inr (b # bs)))
          else chunk_loop th toks start is h)"

text \<open>\<open>range(0, n, step)\<close> for a non-zero step.\<close>

definition py_range :: "int \<Rightarrow> int \<Rightarrow> int list" where
  "py_range n step =
     (if step > 0 then map (\<lambda>j. int j * step) [0..<nat ((n + step - 1) div step)]
      else map (\<lambda>j. int j * step) [0..<nat ((n + step + 1) div step)])"

definition compute_chunk_hashes ::
  "token_hasher \<Rightarrow> int list \<Rightarrow> hash_value option \<Rightarrow> int \<Rightarrow> int option \<Rightarrow> pybytes list result" where
  "compute_chunk_hashes th toks prefix start stop =
     (let prefix_hash = (case prefix of None \<Rightarrow> none_hash th | Some h \<Rightarrow> h);
          effective_len = (case stop of None \<Rightarrow> int (length toks) | Some e \<Rightarrow> min (int (length toks)) e)
      in if th_chunk_size th = 0 then Inl ZeroDivisionError
         else
           let num_complete = effective_len - effective_len mod th_chunk_size th
           in chunk_loop th toks start (py_range num_complete (th_chunk_size th)) prefix_hash)"

section \<open>Key resolution\<close>

definition MAX_TOKEN_IDS :: int where
  "MAX_TOKEN_IDS = 1000000"

definition resolve_object_keys ::
  "token_hasher \<Rightarrow> string \<Rightarrow> int \<Rightarrow> int list \<Rightarrow> string \<Rightarrow> (object_key list \<times> nat) result" where
  "resolve_object_keys th model world toks salt =
     (if int (length toks) > MAX_TOKEN_IDS then Inl ValueError
      else
        (case new_ipc_key model world None salt of
           Inl err \<Rightarrow> Inl err
         | Inr k \<Rightarrow>
             (case compute_chunk_hashes th toks None 0 None of
                Inl err \<Rightarrow> Inl err
              | Inr hs \<Rightarrow>
                  if hs = [] then Inr ([], 0)
                  else
                    (case ipc_key_to_object_keys k hs [0] of
                       Inl err \<Rightarrow> Inl err
                     | Inr groups \<Rightarrow> Inr (groups ! 0, length hs)))))"

section \<open>Chains\<close>

text \<open>The complete chunks of a sequence, and the hashes of a list of chunks.\<close>

definition full_chunks :: "nat \<Rightarrow> 'a list \<Rightarrow> 'a list list" where
  "full_chunks n xs = map (\<lambda>j. take n (drop (j * n) xs)) [0..<length xs div n]"

fun chain :: "token_hasher \<Rightarrow> hash_value \<Rightarrow> int list list \<Rightarrow> hash_value list result" where
  "chain th h [] = Inr []"
| "chain th h (c # cs) =
     (case hash_func th h c of
        Inl err \<Rightarrow> Inl err
      | Inr h' \<Rightarrow> (case chain th h' cs of Inl err \<Rightarrow> Inl err | Inr hs \<Rightarrow> Inr (h' # hs)))"

lemma chain_Inr_Cons:
  "chain th h (c # cs) = Inr hs \<longleftrightarrow> (\<exists>h' hs'. hash_func th h c = Inr h' \<and> chain th h' cs = Inr hs' \<and> hs = h' # hs')"
  by (auto split: sum.splits)

lemma chain_length: "chain th h cs = Inr hs \<Longrightarrow> length hs = length cs"
  by (induction cs arbitrary: h hs) (auto simp: chain_Inr_Cons simp del: chain.simps(2))

lemma chain_append:
  "chain th h (cs @ ds) = Inr hs \<longleftrightarrow>
     (\<exists>hs1 hs2. chain th h cs = Inr hs1 \<and> chain th (if hs1 = [] then h else last hs1) ds = Inr hs2 \<and> hs = hs1 @ hs2)"
proof (induction cs arbitrary: h hs)
  case (Cons c cs)
  show ?case
    unfolding append_Cons chain_Inr_Cons Cons.IH
    by (fastforce split: if_splits)
qed simp

lemma chain_prefix: "chain th h cs = Inr hs \<Longrightarrow> chain th h (take k cs) = Inr (take k hs)"
proof (induction cs arbitrary: h hs k)
  case (Cons c cs)
  obtain h' hs' where h': "hash_func th h c = Inr h'" "chain th h' cs = Inr hs'" "hs = h' # hs'"
    using Cons.prems(1) unfolding chain_Inr_Cons by blast
  with Cons.IH [OF h'(2)] show ?case by (cases k) simp_all
qed simp

lemma full_chunks_Suc:
  assumes "0 < n" and "n \<le> length xs"
  shows "full_chunks n xs = take n xs # full_chunks n (drop n xs)"
proof -
  have "length xs div n = Suc (length (drop n xs) div n)" using assms by (simp add: le_div_geq)
  then have "[0..<length xs div n] = 0 # map Suc [0..<length (drop n xs) div n]"
    by (simp add: upt_conv_Cons map_Suc_upt del: upt_Suc)
  then show ?thesis by (simp add: full_chunks_def comp_def add.commute)
qed

lemma full_chunks_length [simp]: "length (full_chunks n xs) = length xs div n"
  by (simp add: full_chunks_def)

lemma full_chunks_short: "length xs < n \<Longrightarrow> full_chunks n xs = []"
  by (simp add: full_chunks_def)

lemma full_chunks_take:
  assumes "0 < n"
  shows "take k (full_chunks n xs) = full_chunks n (take (k * n) xs)"
proof (induction k arbitrary: xs)
  case 0
  show ?case using assms by (simp add: full_chunks_short)
next
  case (Suc k)
  show ?case
  proof (cases "n \<le> length xs")
    case True
    then show ?thesis
      using assms Suc [of "drop n xs"] by (simp add: full_chunks_Suc min_def drop_take)
  next
    case False
    then show ?thesis using assms by (simp add: full_chunks_short)
  qed
qed

lemma concat_full_chunks:
  assumes "0 < n"
  shows "concat (full_chunks n xs) = take (length xs div n * n) xs"
proof (induction xs rule: length_induct)
  case (1 xs)
  show ?case
  proof (cases "n \<le> length xs")
    case True
    then have "length xs div n = Suc (length (drop n xs) div n)" using assms by (simp add: le_div_geq)
    moreover have "concat (full_chunks n (drop n xs)) = take (length (drop n xs) div n * n) (drop n xs)"
      using 1 assms True by (simp add: less_imp_le diff_less)
    ultimately show ?thesis using assms True by (simp add: full_chunks_Suc take_add)
  qed (simp add: full_chunks_short)
qed

lemma slice_nat: "py_slice (int a) (int a + int n) xs = take n (drop a xs)"
proof -
  have "slice_index (int m) (length xs) = min m (length xs)" for m by (simp add: slice_index_def)
  from this [of a] this [of "a + n"] show ?thesis by (cases "a \<le> length xs") (simp_all add: py_slice_def Let_def min_def)
qed

lemma slice_chunk: "py_slice (int j * int n) (int j * int n + int n) xs = take n (drop (j * n) xs)"
  using slice_nat [of "j * n" n xs] by simp

lemma py_range_chunks:
  assumes "0 < n"
  shows "py_range (int len - int len mod int n) (int n) = map (\<lambda>j. int j * int n) [0..<len div n]"
proof -
  have "int len - int len mod int n = int (len div n) * int n"
    by (simp add: minus_mod_eq_div_mult of_nat_div)
  moreover have "(int q * int n + int n - 1) div int n = int q" for q
  proof -
    have "(int n - 1 + int q * int n) div int n = int q + (int n - 1) div int n" using assms by simp
    then show ?thesis using assms by (simp add: algebra_simps)
  qed
  ultimately show ?thesis using assms by (simp add: py_range_def)
qed

section \<open>The loop is the chain\<close>

lemma chunk_loop_chain:
  assumes "\<forall>i\<in>set is. start \<le> i"
  shows "chunk_loop th toks start is h = Inr bs \<longleftrightarrow>
    (\<exists>hs. chain th h (map (\<lambda>i. py_slice i (i + th_chunk_size th) toks) is) = Inr hs \<and> map hash_to_bytes hs = map Inr bs)"
  using assms
proof (induction "is" arbitrary: h bs)
  case (Cons i "is")
  show ?case
  proof (cases "hash_func th h (py_slice i (i + th_chunk_size th) toks)")
    case (Inr h')
    have "chunk_loop th toks start (i # is) h = Inr bs \<longleftrightarrow>
        (\<exists>b bs'. hash_to_bytes h' = Inr b \<and> chunk_loop th toks start is h' = Inr bs' \<and> bs = b # bs')"
      using Cons.prems by (auto simp: hash_tokens_def Inr split: sum.splits)
    also have "\<dots> \<longleftrightarrow> (\<exists>hs'. chain th h' (map (\<lambda>i. py_slice i (i + th_chunk_size th) toks) is) = Inr hs' \<and>
        map hash_to_bytes (h' # hs') = map Inr bs)"
      using Cons by (auto simp: Cons_eq_map_conv)
    finally show ?thesis by (simp add: Inr split: sum.split)
  qed (simp add: hash_tokens_def)
qed auto

lemma chunk_loop_from:
  assumes "chain th h (map (\<lambda>i. py_slice i (i + th_chunk_size th) toks) is) = Inr hs" and "map hash_to_bytes hs = map Inr bs"
  shows "chunk_loop th toks start is h = Inr (map snd (filter (\<lambda>(i, b). start \<le> i) (zip is bs)))"
  using assms
proof (induction "is" arbitrary: h hs bs)
  case (Cons i "is")
  obtain h' hs' where h': "hash_func th h (py_slice i (i + th_chunk_size th) toks) = Inr h'" "hs = h' # hs'"
    "chain th h' (map (\<lambda>i. py_slice i (i + th_chunk_size th) toks) is) = Inr hs'"
    using Cons.prems(1) unfolding list.map chain_Inr_Cons by blast
  obtain b bs' where b: "bs = b # bs'" "hash_to_bytes h' = Inr b" "map hash_to_bytes hs' = map Inr bs'"
    using Cons.prems(2) h'(2) by (cases bs) auto
  show ?case using Cons.IH [OF h'(3) b(3)] by (simp add: hash_tokens_def h' b)
qed simp

definition start_hash :: "token_hasher \<Rightarrow> hash_value option \<Rightarrow> hash_value" where
  "start_hash th prefix = (case prefix of None \<Rightarrow> none_hash th | Some h \<Rightarrow> h)"

lemma compute_chunk_hashes_chain:
  assumes "th_chunk_size th = int n" and "0 < n"
  shows "compute_chunk_hashes th toks prefix 0 None = Inr bs \<longleftrightarrow>
    (\<exists>hs. chain th (start_hash th prefix) (full_chunks n toks) = Inr hs \<and> map hash_to_bytes hs = map Inr bs)"
proof -
  have "map (\<lambda>i. py_slice i (i + int n) toks) (map (\<lambda>j. int j * int n) [0..<length toks div n]) = full_chunks n toks"
    by (simp add: full_chunks_def slice_chunk)
  then show ?thesis
    using assms chunk_loop_chain [of "map (\<lambda>j. int j * int n) [0..<length toks div n]" 0 th toks "start_hash th prefix" bs]
    by (simp add: compute_chunk_hashes_def Let_def py_range_chunks start_hash_def comp_def)
qed

lemma filter_zip_drop:
  assumes "0 < n" and "length bs = m"
  shows "map snd (filter (\<lambda>(i, b). int a * int n \<le> i) (zip (map (\<lambda>j. int j * int n) [0..<m]) bs)) = drop a bs"
  using assms(2)
proof (induction bs arbitrary: m rule: rev_induct)
  case (snoc b bs)
  have "int a * int n \<le> int (length bs) * int n \<longleftrightarrow> a \<le> length bs" using assms(1) by simp
  then show ?case using snoc.IH [of "length bs"] snoc.prems by auto
qed simp

lemma compute_chunk_hashes_range:
  assumes n: "th_chunk_size th = int n" "0 < n" and bs: "compute_chunk_hashes th toks prefix 0 None = Inr bs"
  shows "compute_chunk_hashes th toks prefix (int a * int n) (Some (int b * int n)) = Inr (drop a (take b bs))"
proof -
  obtain hs where hs: "chain th (start_hash th prefix) (full_chunks n toks) = Inr hs" "map hash_to_bytes hs = map Inr bs"
    using bs unfolding compute_chunk_hashes_chain [OF n] by blast
  let ?m = "min (length toks) (b * n) div n"
  have "full_chunks n toks = take b (full_chunks n toks) @ drop b (full_chunks n toks)" by simp
  with hs(1) obtain hs1 hs2 where c: "chain th (start_hash th prefix) (full_chunks n (take (b * n) toks)) = Inr hs1" "hs = hs1 @ hs2"
    unfolding full_chunks_take [OF n(2), symmetric] by (metis chain_append)
  have len: "length hs1 = ?m" using chain_length [OF c(1)] by simp
  have "length hs = length toks div n" using chain_length [OF hs(1)] by simp
  moreover have "?m = min b (length toks div n)"
    using arg_cong [OF full_chunks_take [OF n(2), of b toks], of length] by (simp add: min.commute)
  ultimately have hs1: "hs1 = take b hs" using c(2) len by (simp add: min_def split: if_splits)
  have mb: "map hash_to_bytes hs1 = map Inr (take b bs)" using hs(2) unfolding hs1 by (metis take_map)
  have "map (\<lambda>i. py_slice i (i + int n) toks) (map (\<lambda>j. int j * int n) [0..<?m]) = full_chunks n (take (b * n) toks)"
    unfolding full_chunks_take [OF n(2), symmetric]
    by (cases "b \<le> length toks div n") (simp_all add: full_chunks_def slice_chunk take_map \<open>?m = _\<close> comp_def)
  then have "chunk_loop th toks (int a * int n) (map (\<lambda>j. int j * int n) [0..<?m]) (start_hash th prefix) =
      Inr (map snd (filter (\<lambda>(i, b). int a * int n \<le> i) (zip (map (\<lambda>j. int j * int n) [0..<?m]) (take b bs))))"
    using chunk_loop_from [of th "start_hash th prefix" toks "map (\<lambda>j. int j * int n) [0..<?m]" hs1 "take b bs"] c(1) mb n(1) by simp
  moreover have "length (take b bs) = ?m" using arg_cong [OF mb, of length] len by simp
  ultimately have "chunk_loop th toks (int a * int n) (map (\<lambda>j. int j * int n) [0..<?m]) (start_hash th prefix) = Inr (drop a (take b bs))"
    by (simp only: filter_zip_drop [OF n(2)])
  moreover have "min (int (length toks)) (int b * int n) = int (min (length toks) (b * n))"
    by (metis of_nat_min of_nat_mult)
  ultimately show ?thesis
    using n py_range_chunks [OF n(2), of "min (length toks) (b * n)"]
    by (simp add: compute_chunk_hashes_def Let_def start_hash_def del: of_nat_min)
qed

section \<open>Keys and prefixes\<close>

text \<open>
  The inputs that the hash function gets for a list of chunks. \<open>collision_free\<close> is what the code
  relies on of the hash function, for the inputs at hand: different inputs have different
  digests, and none of them has the digest that stands for the empty prefix.
\<close>

definition chain_inputs :: "token_hasher \<Rightarrow> hash_value \<Rightarrow> int list list \<Rightarrow> (hash_value \<times> int list) set" where
  "chain_inputs th h cs = (case chain th h cs of Inl _ \<Rightarrow> {} | Inr hs \<Rightarrow> set (zip (h # hs) cs))"

definition input_digest :: "token_hasher \<Rightarrow> hash_value \<times> int list \<Rightarrow> pybytes result" where
  "input_digest th x = (case hash_func th (fst x) (snd x) of Inl err \<Rightarrow> Inl err | Inr h \<Rightarrow> hash_to_bytes h)"

definition collision_free :: "token_hasher \<Rightarrow> (hash_value \<times> int list) set \<Rightarrow> bool" where
  "collision_free th X \<longleftrightarrow>
     (\<forall>x\<in>X. \<forall>y\<in>X. case input_digest th x of Inl _ \<Rightarrow> True | Inr b \<Rightarrow> input_digest th y = Inr b \<longrightarrow> x = y) \<and>
     (\<forall>x\<in>X. hash_func th (fst x) (snd x) \<noteq> Inr (none_hash th))"

lemma collision_freeD:
  assumes "collision_free th X" and "(p, c) \<in> X"
  shows "(q, d) \<in> X \<Longrightarrow> hash_func th p c = Inr hp \<Longrightarrow> hash_func th q d = Inr hq \<Longrightarrow>
      hash_to_bytes hp = Inr b \<Longrightarrow> hash_to_bytes hq = Inr b \<Longrightarrow> (p, c) = (q, d)"
    and "hash_func th p c \<noteq> Inr (none_hash th)"
proof -
  show "(p, c) = (q, d)" if "(q, d) \<in> X" "hash_func th p c = Inr hp" "hash_func th q d = Inr hq"
      "hash_to_bytes hp = Inr b" "hash_to_bytes hq = Inr b"
  proof -
    have "input_digest th (p, c) = Inr b" "input_digest th (q, d) = Inr b" using that by (simp_all add: input_digest_def)
    moreover have "case input_digest th (p, c) of Inl _ \<Rightarrow> True | Inr b \<Rightarrow> input_digest th (q, d) = Inr b \<longrightarrow> (p, c) = (q, d)"
      using assms that(1) unfolding collision_free_def by blast
    ultimately show ?thesis by simp
  qed
  have "hash_func th (fst (p, c)) (snd (p, c)) \<noteq> Inr (none_hash th)" using assms unfolding collision_free_def by blast
  then show "hash_func th p c \<noteq> Inr (none_hash th)" by simp
qed

lemma chain_nth:
  "chain th h cs = Inr hs \<Longrightarrow> j < length cs \<Longrightarrow> hash_func th ((h # hs) ! j) (cs ! j) = Inr (hs ! j)"
proof (induction cs arbitrary: h hs j)
  case (Cons c cs)
  obtain h' hs' where h': "hash_func th h c = Inr h'" "chain th h' cs = Inr hs'" "hs = h' # hs'"
    using Cons.prems(1) unfolding chain_Inr_Cons by blast
  then show ?case using Cons.IH [OF h'(2)] Cons.prems(2) by (cases j) auto
qed simp

lemma chain_input_mem:
  assumes "chain th h cs = Inr hs" and "j < length cs"
  shows "((h # hs) ! j, cs ! j) \<in> chain_inputs th h cs"
  using assms chain_length [OF assms(1)] by (auto simp: chain_inputs_def in_set_zip)

lemma chain_injective:
  assumes hs: "chain th (none_hash th) cs = Inr hs" "map hash_to_bytes hs = map Inr bs"
    and ks: "chain th (none_hash th) ds = Inr ks" "map hash_to_bytes ks = map Inr es"
    and free: "collision_free th (chain_inputs th (none_hash th) cs \<union> chain_inputs th (none_hash th) ds)"
    and eq: "bs ! j = es ! i" and j: "j < length bs" and i: "i < length es"
  shows "j = i \<and> take (Suc j) cs = take (Suc i) ds"
proof -
  let ?n = "none_hash th" and ?X = "chain_inputs th (none_hash th) cs \<union> chain_inputs th (none_hash th) ds"
  have len: "length hs = length cs" "length ks = length ds" "length bs = length cs" "length es = length ds"
    using chain_length [OF hs(1)] chain_length [OF ks(1)] arg_cong [OF hs(2), of length] arg_cong [OF ks(2), of length] by simp_all
  have bytes: "hash_to_bytes (hs ! j) = Inr (bs ! j)" if "j < length cs" for j
    using arg_cong [OF hs(2), of "\<lambda>xs. xs ! j"] that len by simp
  have bytes': "hash_to_bytes (ks ! i) = Inr (es ! i)" if "i < length ds" for i
    using arg_cong [OF ks(2), of "\<lambda>xs. xs ! i"] that len by simp
  have out: "hs ! j \<noteq> ?n" if "j < length cs" for j
    using collision_freeD(2) [OF free UnI1 [OF chain_input_mem [OF hs(1) that]]] chain_nth [OF hs(1) that] by simp
  have out': "ks ! i \<noteq> ?n" if "i < length ds" for i
    using collision_freeD(2) [OF free UnI2 [OF chain_input_mem [OF ks(1) that]]] chain_nth [OF ks(1) that] by simp
  have step: "(?n # hs) ! j = (?n # ks) ! i \<and> cs ! j = ds ! i" if "bs ! j = es ! i" "j < length cs" "i < length ds" for i j
  proof -
    have "((?n # hs) ! j, cs ! j) = ((?n # ks) ! i, ds ! i)"
      by (rule collision_freeD(1) [OF free UnI1 [OF chain_input_mem [OF hs(1) that(2)]] UnI2 [OF chain_input_mem [OF ks(1) that(3)]]
            chain_nth [OF hs(1) that(2)] chain_nth [OF ks(1) that(3)] bytes [OF that(2)]])
        (simp add: bytes' [OF that(3)] that(1))
    then show ?thesis by simp
  qed
  have "j = i \<and> take (Suc j) cs = take (Suc i) ds" if "bs ! j = es ! i" "j < length cs" "i < length ds" for i j
    using that
  proof (induction j arbitrary: i)
    case 0
    with step [OF 0] out' [of "i - 1"] show ?case by (cases i) (auto simp: take_Suc_conv_app_nth)
  next
    case (Suc j)
    note eq = step [OF Suc.prems]
    obtain i' where i: "i = Suc i'" using eq out [of j] Suc.prems(2) by (cases i) auto
    then have "bs ! j = es ! i'" using eq bytes [of j] bytes' [of i'] Suc.prems by simp
    with Suc.IH [of i'] Suc.prems eq show ?case by (auto simp: i take_Suc_conv_app_nth)
  qed
  with eq j i len show ?thesis by simp
qed

lemma images_of_results:
  assumes "map f xs = map Inr ys" and "\<And>x y. f x = Inr y \<Longrightarrow> y = g x"
  shows "ys = map g xs"
  using assms(1)
proof (induction xs arbitrary: ys)
  case (Cons x xs)
  then obtain y zs where "ys = y # zs" "f x = Inr y" "map f xs = map Inr zs" by (cases ys) auto
  with Cons.IH [of zs] assms(2) show ?case by simp
qed simp

lemma ipc_keys_result:
  assumes "ipc_key_to_object_keys k hs [0] = Inr groups"
  shows "groups ! 0 = map (ipc_object_key k 0) (List.product hs (ipc_kv_ranks k))"
proof -
  let ?f = "\<lambda>p. new_object_key (fst p) (ipc_model_name k) (snd p) 0 (ipc_cache_salt k)"
  obtain ks where ks: "ipc_group_keys k hs 0 = Inr ks" "groups = [ks]"
    using assms by (auto simp: ipc_key_to_object_keys_def split: sum.splits)
  have "concat (map (\<lambda>h. map (\<lambda>rank. new_object_key h (ipc_model_name k) rank 0 (ipc_cache_salt k)) rs) hs) =
      map ?f (List.product hs rs)" for rs
    by (induction hs) (simp_all add: comp_def)
  with ks(1) have "map ?f (List.product hs (ipc_kv_ranks k)) = map Inr ks"
    by (simp add: ipc_group_keys_def sequence_results_Inr)
  moreover have "y = ipc_object_key k 0 p" if "?f p = Inr y" for p y
    using that by (auto simp: new_object_key_def ipc_object_key_def split: if_splits)
  ultimately have "ks = map (ipc_object_key k 0) (List.product hs (ipc_kv_ranks k))" by (rule images_of_results)
  then show ?thesis by (simp add: ks(2))
qed

lemma resolved_keys_ok:
  assumes "resolve_object_keys th model world toks salt = Inr (keys, cnt)"
  shows "\<forall>key\<in>set keys. key_ok key"
proof
  fix key assume key: "key \<in> set keys"
  obtain k hs groups where k: "ipc_key_to_object_keys k hs [0] = Inr groups" "keys = groups ! 0"
    using assms key by (auto simp: resolve_object_keys_def split: if_splits sum.splits)
  obtain ks where ks: "ipc_group_keys k hs 0 = Inr ks" "groups = [ks]"
    using k(1) by (auto simp: ipc_key_to_object_keys_def split: sum.splits)
  have "Inr key \<in> set (map Inr ks :: object_key result list)" using key k(2) ks(2) by auto
  also have "map Inr ks = concat (map (\<lambda>h. map (\<lambda>r. new_object_key h (ipc_model_name k) r 0 (ipc_cache_salt k)) (ipc_kv_ranks k)) hs)"
    using ks(1) by (simp add: ipc_group_keys_def sequence_results_Inr)
  finally show "key_ok key" by (auto dest: new_object_key_ok [OF sym])
qed

text \<open>A resolved request: the digests of its chunks, and its keys, rank by rank for each chunk.\<close>

definition request_key :: "string \<Rightarrow> string \<Rightarrow> pybytes \<times> int \<Rightarrow> object_key" where
  "request_key model salt hr =
     \<lparr>chunk_hash = fst hr, model_name = model, kv_rank = snd hr, object_group_id = 0, cache_salt = salt\<rparr>"

definition world_ranks :: "int \<Rightarrow> int list" where
  "world_ranks world = map (\<lambda>w. ComputeKVRank world (int w) world (int w)) [0..<nat world]"

lemma resolve_object_keys_Inr:
  assumes n: "th_chunk_size th = int n" "0 < n" and r: "resolve_object_keys th model world toks salt = Inr (keys, cnt)"
  obtains hs bs where "chain th (none_hash th) (full_chunks n toks) = Inr hs" and "map hash_to_bytes hs = map Inr bs"
    and "length bs = length toks div n" and "cnt = length bs" and "keys = map (request_key model salt) (List.product bs (world_ranks world))"
proof -
  obtain k bs where k: "new_ipc_key model world None salt = Inr k" and bs: "compute_chunk_hashes th toks None 0 None = Inr bs"
    and kb: "keys = map (request_key model salt) (List.product bs (world_ranks world)) \<and> cnt = length bs"
  proof -
    obtain k where k: "new_ipc_key model world None salt = Inr k"
      using r by (auto simp: resolve_object_keys_def split: if_splits sum.splits)
    have ipc: "ipc_object_key k 0 = request_key model salt" "ipc_kv_ranks k = world_ranks world"
      using k by (auto simp: new_ipc_key_def ipc_object_key_def request_key_def ipc_kv_ranks_def world_ranks_def fun_eq_iff split: if_splits)
    obtain bs where bs: "compute_chunk_hashes th toks None 0 None = Inr bs"
      using r by (auto simp: resolve_object_keys_def k split: if_splits sum.splits)
    show thesis
    proof (rule that [OF k bs])
      show "keys = map (request_key model salt) (List.product bs (world_ranks world)) \<and> cnt = length bs"
        using r ipc_keys_result [of k bs] unfolding ipc
        by (auto simp: resolve_object_keys_def k bs split: if_splits sum.splits)
    qed
  qed
  obtain hs where hs: "chain th (none_hash th) (full_chunks n toks) = Inr hs" "map hash_to_bytes hs = map Inr bs"
    using bs unfolding compute_chunk_hashes_chain [OF n] by (auto simp: start_hash_def)
  moreover have "length bs = length toks div n"
    using chain_length [OF hs(1)] arg_cong [OF hs(2), of length] by simp
  ultimately show thesis using kb by (intro that) auto
qed

lemma chunk_keys:
  "j < length bs \<Longrightarrow> take (length rs) (drop (j * length rs) (map (request_key m s) (List.product bs rs))) =
     map (\<lambda>r. request_key m s (bs ! j, r)) rs"
proof (induction bs arbitrary: j)
  case (Cons b bs)
  then show ?case by (cases j) (simp_all add: comp_def)
qed simp

lemma world_ranks_disjoint:
  assumes "r \<in> set (world_ranks a)" "r \<in> set (world_ranks b)" "a < 256" "b < 256"
  shows "a = b"
proof -
  have "\<exists>w. 0 \<le> w \<and> w < c \<and> r = ((c * 256 + w) * 256 + c) * 256 + w" if c: "r \<in> set (world_ranks c)" "c < 256" for c
  proof -
    obtain w where w: "w < nat c" "r = ComputeKVRank c (int w) c (int w)" using c(1) by (auto simp: world_ranks_def)
    then show ?thesis using c(2) kv_rank_sum [of "int w" c "int w" c] by (intro exI [of _ "int w"]) auto
  qed
  from this [OF assms(1,3)] this [OF assms(2,4)] assms(3,4) show ?thesis by auto
qed

text \<open>
  C14. Resolved keys identify token prefixes. Take two requests that resolve, of the same world
  size or of world sizes below 256, the first with at least \<open>j + 1\<close> chunks, on a hash function without
  collisions on their chunks. Each of the keys of chunk \<open>j\<close> of the first request is a key of the
  second exactly when both have the same world size, name the same model and salt, and the second
  token sequence starts with the first \<open>j + 1\<close> chunks of the first. Neither a common suffix nor a
  common chunk at another position is ever shared, and a shared prefix always is.
\<close>

theorem resolved_keys_identify_prefix:
  assumes n: "th_chunk_size th = int n" "0 < n"
    and r1: "resolve_object_keys th model world xs salt = Inr (keys, cnt)"
    and r2: "resolve_object_keys th model' world' ys salt' = Inr (keys', cnt')"
    and worlds: "world = world' \<or> world < 256 \<and> world' < 256"
    and free: "collision_free th (chain_inputs th (none_hash th) (full_chunks n xs) \<union> chain_inputs th (none_hash th) (full_chunks n ys))"
    and j: "(j + 1) * n \<le> length xs" and key: "key \<in> set (take (nat world) (drop (j * nat world) keys))"
  shows "key \<in> set keys' \<longleftrightarrow> world = world' \<and> model = model' \<and> salt = salt' \<and>
    (j + 1) * n \<le> length ys \<and> take ((j + 1) * n) xs = take ((j + 1) * n) ys"
proof -
  obtain hs bs where x: "chain th (none_hash th) (full_chunks n xs) = Inr hs" "map hash_to_bytes hs = map Inr bs"
    "length bs = length xs div n" "cnt = length bs" "keys = map (request_key model salt) (List.product bs (world_ranks world))"
    by (rule resolve_object_keys_Inr [OF n r1])
  obtain ks es where y: "chain th (none_hash th) (full_chunks n ys) = Inr ks" "map hash_to_bytes ks = map Inr es"
    "length es = length ys div n" "cnt' = length es" "keys' = map (request_key model' salt') (List.product es (world_ranks world'))"
    by (rule resolve_object_keys_Inr [OF n r2])
  have jb: "j < length bs" using j n(2) by (simp add: x(3) less_eq_div_iff_mult_less_eq Suc_le_eq [symmetric])
  obtain r where r: "r \<in> set (world_ranks world)" "key = request_key model salt (bs ! j, r)"
    using key chunk_keys [OF jb, of "world_ranks world" model salt] by (auto simp: x(5) world_ranks_def)
  have chunks: "take (j + 1) (full_chunks n zs) = full_chunks n (take ((j + 1) * n) zs)" for zs :: "int list"
    by (rule full_chunks_take [OF n(2)])
  have "r \<in> set (world_ranks world') \<longleftrightarrow> world = world'" using r(1) worlds world_ranks_disjoint by blast
  then have "key \<in> set keys' \<longleftrightarrow> world = world' \<and> model = model' \<and> salt = salt' \<and> bs ! j \<in> set es"
    by (auto simp: y(5) r(2) request_key_def image_iff)
  moreover have "bs ! j \<in> set es \<longleftrightarrow> (j + 1) * n \<le> length ys \<and> take ((j + 1) * n) xs = take ((j + 1) * n) ys"
  proof
    assume "bs ! j \<in> set es"
    then obtain i where i: "i < length es" "bs ! j = es ! i" by (auto simp: in_set_conv_nth)
    have "j = i \<and> take (Suc j) (full_chunks n xs) = take (Suc i) (full_chunks n ys)"
      by (rule chain_injective [OF x(1,2) y(1,2) free i(2) jb i(1)])
    then have ij: "j < length ys div n" and eq: "full_chunks n (take ((j + 1) * n) xs) = full_chunks n (take ((j + 1) * n) ys)"
      using i(1) y(3) chunks by auto
    have jy: "(j + 1) * n \<le> length ys" using ij n(2) by (simp add: less_eq_div_iff_mult_less_eq Suc_le_eq [symmetric])
    have whole: "concat (full_chunks n (take ((j + 1) * n) zs)) = take ((j + 1) * n) zs" if "(j + 1) * n \<le> length zs" for zs :: "int list"
      using that n(2) by (simp add: concat_full_chunks min_absorb2)
    have "take ((j + 1) * n) xs = take ((j + 1) * n) ys" by (metis whole [OF j] whole [OF jy] eq)
    with jy show "(j + 1) * n \<le> length ys \<and> take ((j + 1) * n) xs = take ((j + 1) * n) ys" by blast
  next
    assume *: "(j + 1) * n \<le> length ys \<and> take ((j + 1) * n) xs = take ((j + 1) * n) ys"
    then have je: "j < length es" using n(2) by (simp add: y(3) less_eq_div_iff_mult_less_eq Suc_le_eq [symmetric])
    have "take (j + 1) (full_chunks n xs) = take (j + 1) (full_chunks n ys)" unfolding chunks using * by simp
    then have "take (j + 1) hs = take (j + 1) ks"
      using chain_prefix [OF x(1), of "j + 1"] chain_prefix [OF y(1), of "j + 1"] by simp
    moreover have "map Inr (take (j + 1) bs) = map hash_to_bytes (take (j + 1) hs)" "map Inr (take (j + 1) es) = map hash_to_bytes (take (j + 1) ks)"
      unfolding take_map [symmetric] x(2) y(2) by (rule HOL.refl)+
    ultimately have "map (Inr :: pybytes \<Rightarrow> pybytes result) (take (j + 1) bs) = map Inr (take (j + 1) es)" by simp
    then have "take (j + 1) bs = take (j + 1) es" by (simp add: inj_map_eq_map)
    then have "bs ! j = es ! j" by (metis less_add_one nth_take)
    with je show "bs ! j \<in> set es" by simp
  qed
  ultimately show ?thesis by blast
qed

text \<open>A hasher whose digest is the hashed string itself.\<close>

definition demo_hasher :: token_hasher where
  "demo_hasher = \<lparr>th_chunk_size = 1, hash_func = blake3_hash (\<lambda>x. x), none_hash = Hash_Bytes (replicate 12 0)\<rparr>"

lemma demo_hasher_new: "new_token_hasher 1 (blake3_hash (\<lambda>x. x)) None = Inr demo_hasher"
  by (simp add: new_token_hasher_def blake3_hash_def to_bytes_signed8_def pack_u32_def be_bytes_def demo_hasher_def numeral_eq_Suc)

theorem resolved_keys_identify_prefix_witness:
  "\<exists>keys keys' keys2 key. resolve_object_keys demo_hasher ''m'' 1 [7, 8] ''u'' = Inr (keys, 2) \<and>
     resolve_object_keys demo_hasher ''m'' 1 [7, 9] ''u'' = Inr (keys', 2) \<and>
     resolve_object_keys demo_hasher ''m'' 2 [7, 9] ''u'' = Inr (keys2, 2) \<and>
     key \<in> set keys \<and> key \<in> set keys' \<and> key \<notin> set keys2"
proof -
  let ?r1 = "resolve_object_keys demo_hasher ''m'' 1 [7, 8] ''u''" and ?r2 = "resolve_object_keys demo_hasher ''m'' 1 [7, 9] ''u''"
    and ?r3 = "resolve_object_keys demo_hasher ''m'' 2 [7, 9] ''u''"
  have ok: "(case ?r1 of Inl _ \<Rightarrow> False | Inr (ks, n) \<Rightarrow> n = 2 \<and> take 1 ks \<noteq> [])" "(case ?r2 of Inl _ \<Rightarrow> False | Inr (ks, n) \<Rightarrow> n = 2)"
    "(case ?r3 of Inl _ \<Rightarrow> False | Inr (ks, n) \<Rightarrow> n = 2)"
    by code_simp+
  then obtain keys keys' keys2 where r: "?r1 = Inr (keys, 2)" "?r2 = Inr (keys', 2)" "?r3 = Inr (keys2, 2)" and k: "take 1 keys \<noteq> []"
    by (auto split: sum.splits)
  have free: "collision_free demo_hasher (chain_inputs demo_hasher (none_hash demo_hasher) (full_chunks 1 [7, 8]) \<union>
      chain_inputs demo_hasher (none_hash demo_hasher) (full_chunks 1 [7, 9]))" by code_simp
  have size: "th_chunk_size demo_hasher = int 1" by (simp add: demo_hasher_def)
  have hd: "hd keys \<in> set (take (nat 1) (drop (0 * nat 1) keys))" "hd keys \<in> set keys" using k by (cases keys; simp)+
  from resolved_keys_identify_prefix [OF size _ r(1,2) _ free _ hd(1)] have "hd keys \<in> set keys'" by simp
  moreover from resolved_keys_identify_prefix [OF size _ r(1,3) _ free _ hd(1)] have "hd keys \<notin> set keys2" by simp
  ultimately show ?thesis using r hd(2) by blast
qed

end
