(* ===== verification/Cache_Event.thy ===== *)
theory Cache_Event
  imports Object_Key
begin

text \<open>
  The cache-event vocabulary of the MP coordinator.
  \<^verbatim>\<open>lmcache/v1/mp_coordinator/api.py\<close>: \<open>CacheEventType\<close>, \<open>CacheEventEntry\<close> and \<open>CacheEventBatch\<close>
  with the checks of their constructors; \<^verbatim>\<open>lmcache/v1/mp_coordinator/schemas.py\<close>: the validator
  of \<open>POST /events\<close>; \<^verbatim>\<open>lmcache/v1/distributed/api.py\<close>: \<open>Tier\<close>.

  Entries and batches are polymorphic in the key. On the wire an entry has an encoded key; the
  validator converts every key and rejects the whole request when one does not convert, so the
  consumers, which repeat the same conversion, receive batches over object keys.
\<close>

section \<open>Tiers and event types\<close>

datatype tier = L1 | L2 | ALL_TIERS

datatype cache_event_type = STORE | DELETE | ACCESS | CONFIG

text \<open>The string values of \<open>Tier\<close>, which a capture writes and \<open>Tier(value)\<close> reads back.\<close>

primrec tier_value :: "tier \<Rightarrow> string" where
  "tier_value L1 = ''l1''"
| "tier_value L2 = ''l2''"
| "tier_value ALL_TIERS = ''all''"

definition tier_of_value :: "string \<Rightarrow> tier result" where
  "tier_of_value v =
     (if v = ''l1'' then Inr L1 else if v = ''l2'' then Inr L2 else if v = ''all'' then Inr ALL_TIERS else Inl ValueError)"

lemma tier_of_value_inverse [simp]: "tier_of_value (tier_value t) = Inr t"
  by (cases t) (simp_all add: tier_of_value_def)

section \<open>Entries and batches\<close>

definition UNKNOWN_TOKEN_OFFSET :: int where
  "UNKNOWN_TOKEN_OFFSET = -1"

record 'k cache_event_entry =
  ee_key :: 'k
  size_bytes :: int
  token_ids :: "int list"
  token_offset :: int

definition new_cache_event_entry :: "'k \<Rightarrow> int \<Rightarrow> int list \<Rightarrow> int \<Rightarrow> 'k cache_event_entry result" where
  "new_cache_event_entry key sz toks off =
     (if sz < 0 then Inl ValueError
      else if off < 0 \<and> off \<noteq> UNKNOWN_TOKEN_OFFSET then Inl ValueError
      else Inr \<lparr>ee_key = key, size_bytes = sz, token_ids = toks, token_offset = off\<rparr>)"

record 'k cache_event_batch =
  instance_id :: string
  incarnation :: int
  seq :: int
  event_type :: cache_event_type
  batch_tier :: tier
  backend :: string
  entries :: "'k cache_event_entry list"
  shared :: bool
  ts :: pyfloat
  capacity_bytes :: int
  capacity_revision :: int

text \<open>\<open>__post_init__\<close> of a batch.\<close>

definition check_batch :: "'k cache_event_batch \<Rightarrow> 'k cache_event_batch result" where
  "check_batch b =
     (if instance_id b = [] then Inl ValueError
      else if backend b = [] \<and> event_type b \<noteq> ACCESS then Inl ValueError
      else if event_type b = CONFIG \<and> entries b \<noteq> [] then Inl ValueError
      else if capacity_bytes b < 0 then Inl ValueError
      else if capacity_revision b < 0 then Inl ValueError
      else if incarnation b < 0 then Inl ValueError
      else if seq b < 1 then Inl ValueError
      else if batch_tier b \<noteq> L1 \<and> batch_tier b \<noteq> L2 then Inl ValueError
      else if ts b < 0 then Inl ValueError
      else Inr b)"

type_synonym wire_batch = "encoded_object_key cache_event_batch"
type_synonym event_batch = "object_key cache_event_batch"
type_synonym event_entry = "object_key cache_event_entry"

definition convert_entry :: "encoded_object_key cache_event_entry \<Rightarrow> event_entry result" where
  "convert_entry e =
     (case to_object_key (ee_key e) of
        Inl err \<Rightarrow> Inl err
      | Inr key \<Rightarrow> Inr \<lparr>ee_key = key, size_bytes = size_bytes e, token_ids = token_ids e, token_offset = token_offset e\<rparr>)"

definition convert_batch :: "wire_batch \<Rightarrow> event_batch result" where
  "convert_batch b =
     (case sequence_results (map convert_entry (entries b)) of
        Inl err \<Rightarrow> Inl err
      | Inr es \<Rightarrow>
          Inr \<lparr>instance_id = instance_id b, incarnation = incarnation b, seq = seq b, event_type = event_type b,
               batch_tier = batch_tier b, backend = backend b, entries = es, shared = shared b, ts = ts b,
               capacity_bytes = capacity_bytes b, capacity_revision = capacity_revision b\<rparr>)"

definition validate_batches :: "wire_batch list \<Rightarrow> event_batch list result" where
  "validate_batches bs = sequence_results (map convert_batch bs)"

section \<open>What the consumers may rely on\<close>

definition event_entry_ok :: "event_entry \<Rightarrow> bool" where
  "event_entry_ok e \<longleftrightarrow> key_ok (ee_key e) \<and> 0 \<le> size_bytes e \<and> UNKNOWN_TOKEN_OFFSET \<le> token_offset e"

definition batch_ok :: "event_batch \<Rightarrow> bool" where
  "batch_ok b \<longleftrightarrow> check_batch b = Inr b \<and> (\<forall>e\<in>set (entries b). event_entry_ok e)"

lemma check_batch_Inr:
  "check_batch b = Inr c \<longleftrightarrow> c = b \<and> instance_id b \<noteq> [] \<and> (backend b = [] \<longrightarrow> event_type b = ACCESS) \<and>
     (event_type b = CONFIG \<longrightarrow> entries b = []) \<and> 0 \<le> capacity_bytes b \<and> 0 \<le> capacity_revision b \<and>
     0 \<le> incarnation b \<and> 1 \<le> seq b \<and> batch_tier b \<in> {L1, L2} \<and> 0 \<le> ts b"
  by (auto simp: check_batch_def)

lemma batch_okD:
  assumes "batch_ok b"
  shows "instance_id b \<noteq> []" and "1 \<le> seq b" and "0 \<le> incarnation b" and "batch_tier b = L1 \<or> batch_tier b = L2"
    and "0 \<le> ts b" and "\<forall>e\<in>set (entries b). event_entry_ok e" and "event_type b = CONFIG \<Longrightarrow> entries b = []"
    and "0 \<le> capacity_revision b" and "event_type b \<noteq> ACCESS \<Longrightarrow> backend b \<noteq> []"
  using assms by (auto simp: batch_ok_def check_batch_Inr)

lemma new_cache_event_entry_Inr:
  "new_cache_event_entry key sz toks off = Inr e \<longleftrightarrow> 0 \<le> sz \<and> UNKNOWN_TOKEN_OFFSET \<le> off \<and>
     e = \<lparr>ee_key = key, size_bytes = sz, token_ids = toks, token_offset = off\<rparr>"
  by (auto simp: new_cache_event_entry_def UNKNOWN_TOKEN_OFFSET_def)

lemma convert_entry_ok:
  assumes "convert_entry e = Inr f" and "0 \<le> size_bytes e" and "UNKNOWN_TOKEN_OFFSET \<le> token_offset e"
  shows "event_entry_ok f"
proof -
  obtain h where "new_object_key h (ek_model_name (ee_key e)) (ek_kv_rank (ee_key e))
      (ek_object_group_id (ee_key e)) (ek_cache_salt (ee_key e)) = Inr (ee_key f)"
    using assms(1) by (auto simp: convert_entry_def to_object_key_def split: sum.splits)
  from new_object_key_ok [OF this] show ?thesis
    using assms by (auto simp: convert_entry_def event_entry_ok_def split: sum.splits)
qed

end
