(* ===== verification/Event_Gate.thy ===== *)
theory Event_Gate
  imports Cache_Event
begin

text \<open>
  The ingest layer of the MP coordinator. \<^verbatim>\<open>lmcache/v1/mp_coordinator/ingest/event_gate.py\<close>:
  \<open>EventGate\<close>, which fences restarts, drops duplicates and detects gaps per emitter;
  \<^verbatim>\<open>lmcache/v1/mp_coordinator/ingest/event_broadcaster.py\<close>: \<open>CacheEventBroadcaster\<close>;
  \<^verbatim>\<open>lmcache/v1/mp_coordinator/http_apis/events_api.py\<close>: the \<open>POST /events\<close> handler.

  A consumer is a pair of state transformers. All consumers of a broadcaster act on one state
  type (for the coordinator: the record of its views and controllers), in registration order.
  The gate holds its lock across a whole call, so a call is one step. The locales
  \<open>event_consumer\<close> and \<open>stamped_consumer\<close> are what the gate expects of a consumer, and what it
  gives in return.
\<close>

section \<open>Fan-out\<close>

record 's consumer =
  on_consume :: "event_batch \<Rightarrow> 's \<Rightarrow> 's"
  on_fence :: "string \<Rightarrow> 's \<Rightarrow> 's"

definition broadcast :: "'s consumer list \<Rightarrow> event_batch \<Rightarrow> 's \<Rightarrow> 's" where
  "broadcast cs b s = foldl (\<lambda>s c. on_consume c b s) s cs"

definition broadcast_fence :: "'s consumer list \<Rightarrow> string \<Rightarrow> 's \<Rightarrow> 's" where
  "broadcast_fence cs i s = foldl (\<lambda>s c. on_fence c i s) s cs"

section \<open>Admission\<close>

datatype ingest_result = ADMITTED | DUPLICATE | STALE_INCARNATION

record stream_cursor =
  cu_incarnation :: int
  last_seq :: int
  gap_detected :: bool

type_synonym gate = "(string, stream_cursor) pydict"

definition fresh_cursor :: "int \<Rightarrow> stream_cursor" where
  "fresh_cursor n = \<lparr>cu_incarnation = n, last_seq = 0, gap_detected = False\<rparr>"

definition advance_cursor :: "event_batch \<Rightarrow> stream_cursor \<Rightarrow> stream_cursor" where
  "advance_cursor b c =
     \<lparr>cu_incarnation = cu_incarnation c, last_seq = seq b,
      gap_detected = (gap_detected c \<or> seq b > last_seq c + 1)\<rparr>"

definition ingest :: "'s consumer list \<Rightarrow> event_batch \<Rightarrow> gate \<times> 's \<Rightarrow> (gate \<times> 's) \<times> ingest_result" where
  "ingest cs b gs =
     (let (g, s) = gs; i = instance_id b
      in case dict_get g i of
           None \<Rightarrow>
             ((dict_set i (advance_cursor b (fresh_cursor (incarnation b))) g, broadcast cs b s), ADMITTED)
         | Some c \<Rightarrow>
             if incarnation b < cu_incarnation c then (gs, STALE_INCARNATION)
             else if incarnation b > cu_incarnation c then
               ((dict_set i (advance_cursor b (fresh_cursor (incarnation b))) g,
                 broadcast cs b (broadcast_fence cs i s)), ADMITTED)
             else if seq b \<le> last_seq c then (gs, DUPLICATE)
             else ((dict_set i (advance_cursor b c) g, broadcast cs b s), ADMITTED))"

definition drop_instance :: "'s consumer list \<Rightarrow> string \<Rightarrow> gate \<times> 's \<Rightarrow> gate \<times> 's" where
  "drop_instance cs i gs = (let (g, s) = gs in (dict_del i g, broadcast_fence cs i s))"

definition gate_capture :: "gate \<Rightarrow> (string, int \<times> int \<times> bool) pydict" where
  "gate_capture g = map (\<lambda>(i, c). (i, (cu_incarnation c, last_seq c, gap_detected c))) g"

definition gate_restore :: "(string, int \<times> int \<times> bool) pydict \<Rightarrow> gate \<Rightarrow> gate result" where
  "gate_restore st g =
     (if g \<noteq> [] then Inl ValueError
      else Inr (foldl (\<lambda>g (i, n, q, gap).
             dict_set i \<lparr>cu_incarnation = n, last_seq = q, gap_detected = gap\<rparr> g) g st))"

definition gate_stats :: "gate \<Rightarrow> (string, stream_cursor) pydict" where
  "gate_stats g = map (\<lambda>(i, c). (i, \<lparr>cu_incarnation = cu_incarnation c, last_seq = last_seq c, gap_detected = gap_detected c\<rparr>)) g"

record events_response =
  applied :: nat
  duplicates :: nat
  stale :: nat

definition report_cache_events ::
  "'s consumer list \<Rightarrow> event_batch list \<Rightarrow> gate \<times> 's \<Rightarrow> (gate \<times> 's) \<times> events_response" where
  "report_cache_events cs bs gs =
     foldl (\<lambda>(gs, resp) b.
        let (gs', r) = ingest cs b gs
        in (gs', case r of
                   ADMITTED \<Rightarrow> resp\<lparr>applied := applied resp + 1\<rparr>
                 | DUPLICATE \<Rightarrow> resp\<lparr>duplicates := duplicates resp + 1\<rparr>
                 | STALE_INCARNATION \<Rightarrow> resp\<lparr>stale := stale resp + 1\<rparr>))
      (gs, \<lparr>applied = 0, duplicates = 0, stale = 0\<rparr>) bs"

section \<open>Runs of the gate\<close>

datatype gate_call = Ingest event_batch | Drop string

primrec gate_step :: "'s consumer list \<Rightarrow> gate \<times> 's \<Rightarrow> gate_call \<Rightarrow> gate \<times> 's" where
  "gate_step cs gs (Ingest b) = fst (ingest cs b gs)"
| "gate_step cs gs (Drop i) = drop_instance cs i gs"

definition gate_run :: "'s consumer list \<Rightarrow> gate_call list \<Rightarrow> gate \<times> 's \<Rightarrow> gate \<times> 's" where
  "gate_run cs calls gs = foldl (gate_step cs) gs calls"

primrec call_ok :: "gate_call \<Rightarrow> bool" where
  "call_ok (Ingest b) = batch_ok b"
| "call_ok (Drop i) = True"

text \<open>What a consumer sees, and a consumer that only writes it down.\<close>

datatype delivery = Consumed event_batch | Fenced string

primrec deliver :: "'s consumer list \<Rightarrow> 's \<Rightarrow> delivery \<Rightarrow> 's" where
  "deliver cs s (Consumed b) = broadcast cs b s"
| "deliver cs s (Fenced i) = broadcast_fence cs i s"

definition recorder :: "delivery list consumer" where
  "recorder = \<lparr>on_consume = (\<lambda>b l. l @ [Consumed b]), on_fence = (\<lambda>i l. l @ [Fenced i])\<rparr>"

lemma recorder_simps [simp]:
  "broadcast [recorder] b l = l @ [Consumed b]"
  "broadcast_fence [recorder] i l = l @ [Fenced i]"
  by (simp_all add: recorder_def broadcast_def broadcast_fence_def)

lemma ingest_cases:
  obtains "fst (ingest cs b (g, s)) = (g, s)" and "snd (ingest cs b (g, s)) \<noteq> ADMITTED"
    "\<exists>c. map_of g (instance_id b) = Some c \<and>
      (incarnation b < cu_incarnation c \<or> incarnation b = cu_incarnation c \<and> seq b \<le> last_seq c)"
  | (new) "map_of g (instance_id b) = None"
    "ingest cs b (g, s) = ((dict_set (instance_id b) (advance_cursor b (fresh_cursor (incarnation b))) g, broadcast cs b s), ADMITTED)"
  | (restart) c where "map_of g (instance_id b) = Some c" "cu_incarnation c < incarnation b"
    "ingest cs b (g, s) = ((dict_set (instance_id b) (advance_cursor b (fresh_cursor (incarnation b))) g,
       broadcast cs b (broadcast_fence cs (instance_id b) s)), ADMITTED)"
  | (advance) c where "map_of g (instance_id b) = Some c" "incarnation b = cu_incarnation c" "last_seq c < seq b"
    "ingest cs b (g, s) = ((dict_set (instance_id b) (advance_cursor b c) g, broadcast cs b s), ADMITTED)"
proof (cases "map_of g (instance_id b)")
  case None
  then show ?thesis by (intro new) (simp_all add: ingest_def Let_def)
next
  case (Some c)
  consider "incarnation b < cu_incarnation c \<or> incarnation b = cu_incarnation c \<and> seq b \<le> last_seq c"
    | "cu_incarnation c < incarnation b" | "incarnation b = cu_incarnation c" "last_seq c < seq b" by linarith
  then show ?thesis
  proof cases
    case 1
    with Some show ?thesis by (intro that(1)) (auto simp: ingest_def)
  next
    case 2
    with Some show ?thesis by (intro restart [of c]) (simp_all add: ingest_def Let_def)
  next
    case 3
    with Some show ?thesis by (intro advance [of c]) (simp_all add: ingest_def Let_def)
  qed
qed

text \<open>The cursors do not depend on the consumers, and the state is the replay of the deliveries.\<close>

definition gate_log :: "gate_call list \<Rightarrow> delivery list" where
  "gate_log calls = snd (gate_run [recorder] calls ([], []))"

definition gate_cursors :: "gate_call list \<Rightarrow> gate" where
  "gate_cursors calls = fst (gate_run [recorder] calls ([], []))"

lemma gate_step_replay:
  assumes "gate_step [recorder] (g, lg) call = (g', lg')"
  shows "gate_step cs (g, foldl (deliver cs) s lg) call = (g', foldl (deliver cs) s lg')"
proof (cases call)
  case (Ingest b)
  show ?thesis
    using assms unfolding Ingest
    by (auto simp: ingest_def Let_def split: option.splits if_splits)
qed (use assms in \<open>auto simp: drop_instance_def\<close>)

lemma gate_run_replay:
  "gate_run cs calls ([], s) = (gate_cursors calls, foldl (deliver cs) s (gate_log calls))"
proof (induction calls rule: rev_induct)
  case (snoc c calls)
  obtain g' lg' where st: "gate_step [recorder] (gate_cursors calls, gate_log calls) c = (g', lg')" by fastforce
  have run: "gate_run [recorder] calls ([], []) = (gate_cursors calls, gate_log calls)"
    by (simp add: gate_cursors_def gate_log_def)
  have "gate_cursors (calls @ [c]) = g'" and "gate_log (calls @ [c]) = lg'"
    using st run by (simp_all add: gate_cursors_def gate_log_def gate_run_def)
  moreover have "gate_run cs (calls @ [c]) ([], s) = gate_step cs (gate_run cs calls ([], s)) c"
    by (simp add: gate_run_def)
  ultimately show ?case using snoc gate_step_replay [OF st] by simp
qed (simp add: gate_run_def gate_cursors_def gate_log_def)


section \<open>Epochs\<close>

text \<open>The batches of one emitter that were delivered since it was last fenced.\<close>

definition epoch_step :: "string \<Rightarrow> event_batch list \<Rightarrow> delivery \<Rightarrow> event_batch list" where
  "epoch_step i acc d =
     (case d of
        Consumed b \<Rightarrow> if instance_id b = i then acc @ [b] else acc
      | Fenced j \<Rightarrow> if j = i then [] else acc)"

definition epoch :: "string \<Rightarrow> delivery list \<Rightarrow> event_batch list" where
  "epoch i lg = foldl (epoch_step i) [] lg"

lemma epoch_simps [simp]:
  "epoch i [] = []"
  "epoch i (lg @ [Consumed b]) = (if instance_id b = i then epoch i lg @ [b] else epoch i lg)"
  "epoch i (lg @ [Fenced j]) = (if j = i then [] else epoch i lg)"
  by (simp_all add: epoch_def epoch_step_def)

text \<open>An epoch is one incarnation with strictly increasing sequence numbers.\<close>

definition epoch_ok :: "event_batch list \<Rightarrow> bool" where
  "epoch_ok bs \<longleftrightarrow> sorted_wrt (\<lambda>b b'. incarnation b = incarnation b' \<and> seq b < seq b') bs"

definition cursor_ok :: "event_batch list \<Rightarrow> stream_cursor \<Rightarrow> bool" where
  "cursor_ok bs c \<longleftrightarrow> bs \<noteq> [] \<and> (\<forall>b\<in>set bs. incarnation b = cu_incarnation c) \<and> seq (last bs) = last_seq c \<and>
     (\<not> gap_detected c \<longleftrightarrow> map seq bs = [1..last_seq c])"

definition gate_inv :: "gate \<Rightarrow> delivery list \<Rightarrow> bool" where
  "gate_inv g lg \<longleftrightarrow> dict_wf g \<and> (\<forall>n i. epoch_ok (epoch i (take n lg))) \<and>
     (\<forall>i. case map_of g i of None \<Rightarrow> epoch i lg = [] | Some c \<Rightarrow> cursor_ok (epoch i lg) c)"

lemma epoch_ok_last:
  assumes "epoch_ok bs" and "b \<in> set bs"
  shows "seq b \<le> seq (last bs) \<and> incarnation b = incarnation (last bs)"
  using assms by (cases bs rule: rev_cases) (auto simp: epoch_ok_def sorted_wrt_append)

lemma epoch_ok_snoc:
  assumes "epoch_ok bs" and "bs \<noteq> [] \<Longrightarrow> incarnation (last bs) = incarnation b \<and> seq (last bs) < seq b"
  shows "epoch_ok (bs @ [b])"
proof -
  have "incarnation x = incarnation b \<and> seq x < seq b" if "x \<in> set bs" for x
    using epoch_ok_last [OF assms(1) that] assms(2) that by fastforce
  then show ?thesis using assms(1) by (auto simp: epoch_ok_def sorted_wrt_append)
qed

lemma epochs_take_snoc:
  assumes "\<forall>n i. epoch_ok (epoch i (take n lg))" and "\<forall>i. epoch_ok (epoch i (lg @ [d]))"
  shows "\<forall>n i. epoch_ok (epoch i (take n (lg @ [d])))"
proof (intro allI)
  fix n i
  show "epoch_ok (epoch i (take n (lg @ [d])))"
    using assms by (cases "n \<le> length lg") simp_all
qed

lemma gate_inv_epoch: "gate_inv g lg \<Longrightarrow> map_of g i = None \<Longrightarrow> epoch i lg = []"
  "gate_inv g lg \<Longrightarrow> map_of g i = Some c \<Longrightarrow> cursor_ok (epoch i lg) c"
  "gate_inv g lg \<Longrightarrow> epoch_ok (epoch i lg)"
  by (auto simp: gate_inv_def split: option.splits dest: spec [of _ i] spec [of _ "length lg"])

lemma fence_keeps_gate_inv:
  assumes "gate_inv g lg"
  shows "gate_inv (dict_del i g) (lg @ [Fenced i])"
proof -
  have "\<forall>j. epoch_ok (epoch j (lg @ [Fenced i]))"
    using assms by (auto simp: gate_inv_def epoch_ok_def dest: spec [of _ "length lg"])
  moreover have "case map_of (dict_del i g) j of None \<Rightarrow> epoch j (lg @ [Fenced i]) = []
      | Some c \<Rightarrow> cursor_ok (epoch j (lg @ [Fenced i])) c" for j
    by (cases "j = i"; cases "map_of g j") (simp_all add: gate_inv_epoch [OF assms])
  ultimately show ?thesis using assms epochs_take_snoc by (auto simp: gate_inv_def)
qed

lemma cursor_ok_advance:
  assumes "cursor_ok bs c" and "incarnation b = cu_incarnation c" and "last_seq c < seq b"
  shows "cursor_ok (bs @ [b]) (advance_cursor b c)"
proof -
  have bs: "bs \<noteq> []" and last: "seq (last bs) = last_seq c" using assms(1) by (auto simp: cursor_ok_def)
  have gap: "\<not> gap_detected c \<longleftrightarrow> map seq bs = [1..last_seq c]" using assms(1) by (simp add: cursor_ok_def)
  have "map seq bs @ [seq b] = [1..seq b] \<longleftrightarrow> map seq bs = [1..last_seq c] \<and> seq b = last_seq c + 1"
  proof
    assume eq: "map seq bs @ [seq b] = [1..seq b]"
    then have "1 \<le> seq b" by (metis upto_empty append_is_Nil_conv not_Cons_self2 not_less)
    with eq have init: "map seq bs = [1..seq b - 1]" by (simp add: upto_rec2)
    then have "[1..seq b - 1] \<noteq> []" using bs by auto
    then have "1 \<le> seq b - 1" by (metis upto_empty not_less)
    then have "last [1..seq b - 1] = seq b - 1" by (simp add: upto_rec2)
    moreover have "last (map seq bs) = last_seq c" using bs last by (simp add: last_map)
    ultimately have "last_seq c = seq b - 1" using init by simp
    with init show "map seq bs = [1..last_seq c] \<and> seq b = last_seq c + 1" by simp
  next
    assume *: "map seq bs = [1..last_seq c] \<and> seq b = last_seq c + 1"
    then have "1 \<le> last_seq c" using bs by (metis list.map_disc_iff not_less upto_empty)
    with * show "map seq bs @ [seq b] = [1..seq b]" by (simp add: upto_rec2 [of 1 "last_seq c + 1"])
  qed
  then show ?thesis using assms gap by (auto simp: cursor_ok_def advance_cursor_def)
qed

lemma cursor_ok_fresh:
  assumes "1 \<le> seq b"
  shows "cursor_ok [b] (advance_cursor b (fresh_cursor (incarnation b)))"
proof -
  have "[seq b] = [1..seq b] \<longleftrightarrow> seq b = 1"
  proof
    assume "[seq b] = [1..seq b]"
    with assms have "hd [1..seq b] = seq b" and "hd [1..seq b] = 1" by (metis list.sel(1), simp add: upto_rec1)
    then show "seq b = 1" by simp
  qed simp
  then show ?thesis using assms by (auto simp: cursor_ok_def advance_cursor_def fresh_cursor_def)
qed

lemma deliver_keeps_gate_inv:
  assumes "gate_inv g lg" and "cursor_ok (epoch (instance_id b) lg @ [b]) c"
    and "epoch_ok (epoch (instance_id b) lg @ [b])"
  shows "gate_inv (dict_set (instance_id b) c g) (lg @ [Consumed b])"
proof -
  have "\<forall>j. epoch_ok (epoch j (lg @ [Consumed b]))"
    using assms(1,3) by (auto simp: gate_inv_def dest: spec [of _ "length lg"])
  moreover have "case map_of (dict_set (instance_id b) c g) j of None \<Rightarrow> epoch j (lg @ [Consumed b]) = []
      | Some c \<Rightarrow> cursor_ok (epoch j (lg @ [Consumed b])) c" for j
    using assms(2) by (cases "j = instance_id b"; cases "map_of g j") (simp_all add: gate_inv_epoch [OF assms(1)])
  ultimately show ?thesis using assms(1) epochs_take_snoc by (auto simp: gate_inv_def)
qed

lemma ingest_keeps_gate_inv:
  assumes inv: "gate_inv g lg" and ok: "batch_ok b" and st: "fst (ingest [recorder] b (g, lg)) = (g', lg')"
  shows "gate_inv g' lg'"
proof -
  let ?i = "instance_id b"
  have seq1: "1 \<le> seq b" using ok by (rule batch_okD)
  show ?thesis
  proof (cases rule: ingest_cases [of "[recorder]" b g lg])
    case 1
    with st inv show ?thesis by simp
  next
    case new
    then have "epoch ?i lg = []" using inv gate_inv_epoch(1) by blast
    with new st show ?thesis
      using deliver_keeps_gate_inv [OF inv, of b] cursor_ok_fresh [OF seq1] by (auto simp: epoch_ok_def)
  next
    case (restart c)
    have "gate_inv (dict_set ?i (advance_cursor b (fresh_cursor (incarnation b))) (dict_del ?i g)) (lg @ [Fenced ?i] @ [Consumed b])"
      using deliver_keeps_gate_inv [OF fence_keeps_gate_inv [OF inv, of ?i], of b] cursor_ok_fresh [OF seq1]
      by (simp add: epoch_ok_def)
    moreover have "map_of (dict_set ?i x (dict_del ?i g)) = map_of (dict_set ?i x g)" for x by (rule ext) simp
    ultimately show ?thesis using restart st inv by (auto simp: gate_inv_def)
  next
    case (advance c)
    have c: "cursor_ok (epoch ?i lg) c" using inv advance(1) by (rule gate_inv_epoch)
    then have "epoch_ok (epoch ?i lg @ [b])"
      using advance gate_inv_epoch(3) [OF inv] by (intro epoch_ok_snoc) (auto simp: cursor_ok_def)
    with advance st show ?thesis
      using deliver_keeps_gate_inv [OF inv cursor_ok_advance [OF c]] by auto
  qed
qed

lemma gate_run_inv:
  assumes "\<forall>c\<in>set calls. call_ok c"
  shows "gate_inv (gate_cursors calls) (gate_log calls)"
  using assms
proof (induction calls rule: rev_induct)
  case Nil
  then show ?case by (simp add: gate_inv_def gate_cursors_def gate_log_def gate_run_def epoch_ok_def)
next
  case (snoc c calls)
  have run: "gate_run [recorder] calls ([], []) = (gate_cursors calls, gate_log calls)"
    by (simp add: gate_cursors_def gate_log_def)
  obtain g' lg' where st: "gate_step [recorder] (gate_cursors calls, gate_log calls) c = (g', lg')" by fastforce
  have eqs: "gate_cursors (calls @ [c]) = g'" "gate_log (calls @ [c]) = lg'"
    using st run by (simp_all add: gate_cursors_def gate_log_def gate_run_def)
  have inv: "gate_inv (gate_cursors calls) (gate_log calls)" and ok: "call_ok c" using snoc by auto
  have "gate_inv g' lg'"
  proof (cases c)
    case (Ingest b)
    with inv ok st show ?thesis by (auto intro: ingest_keeps_gate_inv)
  next
    case (Drop i)
    with inv st fence_keeps_gate_inv show ?thesis by (auto simp: drop_instance_def)
  qed
  then show ?case by (simp add: eqs)
qed


lemma epoch_pair:
  assumes "Fenced (instance_id b) \<notin> set ys"
  shows "\<exists>us vs. epoch (instance_id b) (xs @ Consumed b # ys) = us @ b # vs"
  using assms
proof (induction ys rule: rev_induct)
  case Nil
  show ?case using epoch_simps(2) [of "instance_id b" xs b] by auto
next
  case (snoc d ys)
  then obtain us vs where IH: "epoch (instance_id b) (xs @ Consumed b # ys) = us @ b # vs" by auto
  show ?case
  proof (cases d)
    case (Consumed c)
    then show ?thesis
    proof (cases "instance_id c = instance_id b")
      case True
      then have "epoch (instance_id b) (xs @ Consumed b # ys @ [d]) = us @ b # (vs @ [c])"
        using epoch_simps(2) [of "instance_id b" "xs @ Consumed b # ys" c] by (simp add: IH Consumed)
      then show ?thesis by blast
    next
      case False
      then show ?thesis
        using epoch_simps(2) [of "instance_id b" "xs @ Consumed b # ys" c] IH by (auto simp: Consumed)
    qed
  next
    case (Fenced j)
    with snoc.prems have "j \<noteq> instance_id b" by auto
    then show ?thesis
      using epoch_simps(3) [of "instance_id b" "xs @ Consumed b # ys" j] IH by (auto simp: Fenced)
  qed
qed

section \<open>What the gate expects of a consumer\<close>

text \<open>
  \<open>l1_stamps\<close> reads from a consumer's state the pairs (instance, incarnation) whose L1 facts it
  holds. Consuming a batch may add the stamp of the batch, fencing removes the stamps of the
  instance. Then no L1 fact of an old incarnation is ever visible. A consumer that does not
  keep incarnations satisfies the weaker contract on owners.
\<close>

locale event_consumer =
  fixes cs :: "'s consumer list" and inv :: "'s \<Rightarrow> bool" and l1_owners :: "'s \<Rightarrow> string set"
  assumes consume_inv: "inv s \<Longrightarrow> batch_ok b \<Longrightarrow> inv (broadcast cs b s)"
    and fence_inv: "inv s \<Longrightarrow> inv (broadcast_fence cs i s)"
    and consume_owners: "inv s \<Longrightarrow> batch_ok b \<Longrightarrow> l1_owners (broadcast cs b s) \<subseteq> insert (instance_id b) (l1_owners s)"
    and fence_owners: "inv s \<Longrightarrow> l1_owners (broadcast_fence cs i s) \<subseteq> l1_owners s - {i}"
begin

definition tracked :: "gate \<times> 's \<Rightarrow> bool" where
  "tracked gs \<longleftrightarrow> inv (snd gs) \<and> l1_owners (snd gs) \<subseteq> dict_dom (fst gs)"

lemma step_tracked:
  assumes "tracked gs" and "call_ok c"
  shows "tracked (gate_step cs gs c)"
proof (cases c)
  case (Ingest b)
  obtain g s where gs: "gs = (g, s)" by fastforce
  have inv: "inv s" and ow: "l1_owners s \<subseteq> dict_dom g" and ok: "batch_ok b"
    using assms by (auto simp: tracked_def gs Ingest)
  show ?thesis
  proof (cases rule: ingest_cases [of cs b g s])
    case 1
    then show ?thesis using assms by (simp add: Ingest gs)
  next
    case new
    then show ?thesis using consume_inv [OF inv ok] consume_owners [OF inv ok] ow by (auto simp: Ingest gs tracked_def)
  next
    case (restart c)
    then show ?thesis
      using consume_inv [OF fence_inv [OF inv] ok, of "instance_id b"] fence_owners [OF inv, of "instance_id b"]
        consume_owners [OF fence_inv [OF inv] ok, of "instance_id b"] ow
      by (auto simp: Ingest gs tracked_def)
  next
    case (advance c)
    then show ?thesis using consume_inv [OF inv ok] consume_owners [OF inv ok] ow by (auto simp: Ingest gs tracked_def)
  qed
next
  case (Drop i)
  then show ?thesis
    using assms fence_inv [of "snd gs" i] fence_owners [of "snd gs" i]
    by (fastforce simp: tracked_def drop_instance_def split: prod.splits)
qed

lemma run_tracked: "tracked gs \<Longrightarrow> \<forall>c\<in>set calls. call_ok c \<Longrightarrow> tracked (gate_run cs calls gs)"
  unfolding gate_run_def by (rule foldl_inv) (auto intro: step_tracked)

end

locale stamped_consumer =
  fixes cs :: "'s consumer list" and inv :: "'s \<Rightarrow> bool" and l1_stamps :: "'s \<Rightarrow> (string \<times> int) set"
  assumes consume_keeps: "inv s \<Longrightarrow> batch_ok b \<Longrightarrow> inv (broadcast cs b s)"
    and fence_keeps: "inv s \<Longrightarrow> inv (broadcast_fence cs i s)"
    and consume_stamps: "inv s \<Longrightarrow> batch_ok b \<Longrightarrow>
      l1_stamps (broadcast cs b s) \<subseteq> insert (instance_id b, incarnation b) (l1_stamps s)"
    and fence_stamps: "inv s \<Longrightarrow> l1_stamps (broadcast_fence cs i s) \<subseteq> {x \<in> l1_stamps s. fst x \<noteq> i}"

sublocale stamped_consumer \<subseteq> owned: event_consumer cs inv "\<lambda>s. fst ` l1_stamps s"
proof unfold_locales
  show "inv s \<Longrightarrow> batch_ok b \<Longrightarrow> inv (broadcast cs b s)" for s b by (rule consume_keeps)
  show "inv s \<Longrightarrow> inv (broadcast_fence cs i s)" for s i by (rule fence_keeps)
  show "inv s \<Longrightarrow> batch_ok b \<Longrightarrow> fst ` l1_stamps (broadcast cs b s) \<subseteq> insert (instance_id b) (fst ` l1_stamps s)" for s b
    using consume_stamps [of s b] by (force simp: image_iff)
  show "inv s \<Longrightarrow> fst ` l1_stamps (broadcast_fence cs i s) \<subseteq> fst ` l1_stamps s - {i}" for s i
    using fence_stamps [of s i] by (force simp: image_iff)
qed

context stamped_consumer
begin

definition current :: "gate \<times> 's \<Rightarrow> bool" where
  "current gs \<longleftrightarrow> inv (snd gs) \<and>
     (\<forall>(i, n)\<in>l1_stamps (snd gs). \<exists>c. map_of (fst gs) i = Some c \<and> cu_incarnation c = n)"

lemma currentI:
  assumes "inv s'" and "l1_stamps s' \<subseteq> insert (i, n) S" and "cu_incarnation c = n"
    and "\<And>j m. (j, m) \<in> S \<Longrightarrow> j \<noteq> i \<or> m = n" and "\<And>j m. (j, m) \<in> S \<Longrightarrow> \<exists>c. map_of g j = Some c \<and> cu_incarnation c = m"
  shows "current (dict_set i c g, s')"
proof -
  have "\<exists>c'. map_of (dict_set i c g) j = Some c' \<and> cu_incarnation c' = m" if "(j, m) \<in> l1_stamps s'" for j m
  proof (cases "j = i")
    case True
    then have "m = n" using assms(2,4) that by auto
    with True show ?thesis using assms(3) by simp
  next
    case False
    then have "(j, m) \<in> S" using assms(2) that by auto
    with False show ?thesis using assms(5) [of j m] by simp
  qed
  then show ?thesis using assms(1) by (auto simp: current_def)
qed

lemma step_current:
  assumes "current gs" and "call_ok c"
  shows "current (gate_step cs gs c)"
proof (cases c)
  case (Ingest b)
  obtain g s where gs: "gs = (g, s)" by fastforce
  let ?i = "instance_id b"
  have inv: "inv s" and ok: "batch_ok b" using assms by (auto simp: current_def gs Ingest)
  have cur: "\<exists>c. map_of g i = Some c \<and> cu_incarnation c = n" if "(i, n) \<in> l1_stamps s" for i n
    using assms(1) that by (auto simp: current_def gs)
  show ?thesis
  proof (cases rule: ingest_cases [of cs b g s])
    case 1
    then show ?thesis using assms by (simp add: Ingest gs)
  next
    case new
    have "j \<noteq> ?i" if "(j, m) \<in> l1_stamps s" for j m using cur [OF that] new(1) by auto
    then have "current (dict_set ?i (advance_cursor b (fresh_cursor (incarnation b))) g, broadcast cs b s)"
      using currentI [OF consume_keeps [OF inv ok] consume_stamps [OF inv ok]] cur
      by (simp add: advance_cursor_def fresh_cursor_def)
    then show ?thesis by (simp add: Ingest gs new)
  next
    case (restart c)
    let ?s = "broadcast_fence cs ?i s"
    have "j \<noteq> ?i" and "\<exists>c. map_of g j = Some c \<and> cu_incarnation c = m" if "(j, m) \<in> l1_stamps ?s" for j m
      using that fence_stamps [OF inv, of ?i] cur [of j m] by auto
    then have "current (dict_set ?i (advance_cursor b (fresh_cursor (incarnation b))) g, broadcast cs b ?s)"
      using currentI [OF consume_keeps [OF fence_keeps [OF inv] ok] consume_stamps [OF fence_keeps [OF inv] ok]]
      by (simp add: advance_cursor_def fresh_cursor_def)
    then show ?thesis by (simp add: Ingest gs restart)
  next
    case (advance c)
    have "j \<noteq> ?i \<or> m = incarnation b" if "(j, m) \<in> l1_stamps s" for j m
      using cur [OF that] advance(1,2) by auto
    then have "current (dict_set ?i (advance_cursor b c) g, broadcast cs b s)"
      using currentI [OF consume_keeps [OF inv ok] consume_stamps [OF inv ok]] cur advance(2)
      by (simp add: advance_cursor_def)
    then show ?thesis by (simp add: Ingest gs advance)
  qed
next
  case (Drop i)
  obtain g s where gs: "gs = (g, s)" by fastforce
  have inv: "inv s" using assms by (simp add: current_def gs)
  have "\<exists>c. map_of (dict_del i g) j = Some c \<and> cu_incarnation c = m" if "(j, m) \<in> l1_stamps (broadcast_fence cs i s)" for j m
    using that fence_stamps [OF inv, of i] assms(1) by (auto simp: current_def gs)
  then show ?thesis using fence_keeps [OF inv] by (auto simp: Drop gs current_def drop_instance_def)
qed

lemma run_current: "current gs \<Longrightarrow> \<forall>c\<in>set calls. call_ok c \<Longrightarrow> current (gate_run cs calls gs)"
  unfolding gate_run_def by (rule foldl_inv) (auto intro: step_current)

end

section \<open>Retransmission\<close>

definition seen :: "gate \<Rightarrow> event_batch \<Rightarrow> bool" where
  "seen g b \<longleftrightarrow> (case map_of g (instance_id b) of None \<Rightarrow> False
     | Some c \<Rightarrow> incarnation b < cu_incarnation c \<or> incarnation b = cu_incarnation c \<and> seq b \<le> last_seq c)"

lemma ingest_seen: "seen (fst (fst (ingest cs b gs))) b"
  by (cases gs) (auto simp: seen_def ingest_def Let_def advance_cursor_def fresh_cursor_def split: option.splits)

lemma ingest_keeps_seen: "seen (fst gs) b \<Longrightarrow> seen (fst (fst (ingest cs b' gs))) b"
  by (cases gs) (auto simp: seen_def ingest_def Let_def advance_cursor_def fresh_cursor_def split: option.splits if_splits)

lemma ingest_of_seen: "seen (fst gs) b \<Longrightarrow> fst (ingest cs b gs) = gs \<and> snd (ingest cs b gs) \<noteq> ADMITTED"
  by (cases gs) (auto simp: seen_def ingest_def Let_def split: option.splits if_splits)

lemma report_cache_events_snoc:
  "fst (report_cache_events cs (bs @ [b]) gs) = fst (ingest cs b (fst (report_cache_events cs bs gs)))"
  "applied (snd (report_cache_events cs (bs @ [b]) gs)) = applied (snd (report_cache_events cs bs gs)) +
     (if snd (ingest cs b (fst (report_cache_events cs bs gs))) = ADMITTED then 1 else 0)"
  "applied (snd (report_cache_events cs (bs @ [b]) gs)) + duplicates (snd (report_cache_events cs (bs @ [b]) gs)) +
     stale (snd (report_cache_events cs (bs @ [b]) gs)) =
   applied (snd (report_cache_events cs bs gs)) + duplicates (snd (report_cache_events cs bs gs)) +
     stale (snd (report_cache_events cs bs gs)) + 1"
  by (auto simp: report_cache_events_def split: prod.splits ingest_result.splits)

lemma report_cache_events_run: "fst (report_cache_events cs bs gs) = gate_run cs (map Ingest bs) gs"
proof (induction bs rule: rev_induct)
  case (snoc b bs)
  then show ?case by (simp add: report_cache_events_snoc gate_run_def)
qed (simp add: report_cache_events_def gate_run_def)

lemma report_counts:
  "applied (snd (report_cache_events cs bs gs)) + duplicates (snd (report_cache_events cs bs gs)) +
     stale (snd (report_cache_events cs bs gs)) = length bs"
proof (induction bs rule: rev_induct)
  case (snoc b bs)
  then show ?case using report_cache_events_snoc(3) [of cs bs b gs] by simp
qed (simp add: report_cache_events_def)

lemma report_sees: "b \<in> set bs \<or> seen (fst gs) b \<Longrightarrow> seen (fst (fst (report_cache_events cs bs gs))) b"
proof (induction bs rule: rev_induct)
  case (snoc b' bs)
  then show ?case by (auto simp: report_cache_events_snoc ingest_seen ingest_keeps_seen)
qed (simp add: report_cache_events_def)

lemma report_of_seen:
  "\<forall>b\<in>set bs. seen (fst gs) b \<Longrightarrow> fst (report_cache_events cs bs gs) = gs \<and> applied (snd (report_cache_events cs bs gs)) = 0"
proof (induction bs rule: rev_induct)
  case (snoc b bs)
  then show ?case using ingest_of_seen [of gs b cs] by (simp add: report_cache_events_snoc)
qed (simp add: report_cache_events_def)

section \<open>Restart of the coordinator\<close>

lemma cursor_eta: "\<lparr>cu_incarnation = cu_incarnation c, last_seq = last_seq c, gap_detected = gap_detected c\<rparr> = c"
  by (cases c) simp

lemma gate_restore_capture: "dict_wf g \<Longrightarrow> gate_restore (gate_capture g) [] = Inr g"
proof -
  assume "dict_wf g"
  have "foldl (\<lambda>g (i, n, q, gap). dict_set i \<lparr>cu_incarnation = n, last_seq = q, gap_detected = gap\<rparr> g) d (gate_capture g) =
      foldl (\<lambda>d (k, v). dict_set k v d) d g" for d
    by (induction g arbitrary: d) (auto simp: gate_capture_def cursor_eta)
  then show ?thesis using foldl_dict_set [of g "[]"] \<open>dict_wf g\<close> by (simp add: gate_restore_def dict_wf_def)
qed

lemma gate_cursors_wf: "dict_wf (gate_cursors calls)"
proof -
  have "dict_wf (fst (gate_step cs gs c))" if "dict_wf (fst gs)" for cs :: "delivery list consumer list" and gs c
    using that by (cases gs; cases c) (auto simp: ingest_def drop_instance_def Let_def split: option.splits)
  then have "dict_wf (fst (gate_run [recorder] calls ([], [])))"
    unfolding gate_run_def by (intro foldl_inv [where P = "\<lambda>gs. dict_wf (fst gs)"]) simp_all
  then show ?thesis by (simp add: gate_cursors_def)
qed


lemma log_ok:
  assumes "\<forall>c\<in>set calls. call_ok c"
  shows "\<forall>b. Consumed b \<in> set (gate_log calls) \<longrightarrow> batch_ok b"
  using assms
proof (induction calls rule: rev_induct)
  case (snoc c calls)
  have "\<forall>b. Consumed b \<in> set (gate_log calls) \<longrightarrow> batch_ok b" and c: "call_ok c" using snoc by auto
  moreover have "gate_log (calls @ [c]) = snd (gate_step [recorder] (gate_cursors calls, gate_log calls) c)"
    by (simp add: gate_log_def gate_cursors_def gate_run_def)
  ultimately show ?case
    by (cases c) (auto simp: ingest_def drop_instance_def Let_def split: option.splits if_splits)
qed (simp add: gate_log_def gate_run_def)

section \<open>Properties\<close>

definition demo_batch :: "string \<Rightarrow> int \<Rightarrow> int \<Rightarrow> cache_event_type \<Rightarrow> tier \<Rightarrow> object_key list \<Rightarrow> event_batch" where
  "demo_batch i n q ty t ks =
     \<lparr>instance_id = i, incarnation = n, seq = q, event_type = ty, batch_tier = t, backend = ''dram'',
      entries = map (\<lambda>k. \<lparr>ee_key = k, size_bytes = 4, token_ids = [7, 8], token_offset = 0\<rparr>) ks, shared = False, ts = 1,
      capacity_bytes = 0, capacity_revision = 0\<rparr>"

lemma demo_key_ok: "key_ok demo_key"
  by (simp add: key_ok_def demo_key_def salt_ok_def SALT_FORBIDDEN_CHARS_def SALT_MAX_LEN_def)

lemma demo_batch_sel [simp]:
  "instance_id (demo_batch i n q ty t ks) = i" "incarnation (demo_batch i n q ty t ks) = n"
  "seq (demo_batch i n q ty t ks) = q" "event_type (demo_batch i n q ty t ks) = ty"
  "batch_tier (demo_batch i n q ty t ks) = t" "shared (demo_batch i n q ty t ks) = False"
  "backend (demo_batch i n q ty t ks) = ''dram''" "ts (demo_batch i n q ty t ks) = 1"
  "entries (demo_batch i n q ty t ks) =
     map (\<lambda>k. \<lparr>ee_key = k, size_bytes = 4, token_ids = [7, 8], token_offset = 0\<rparr>) ks"
  by (simp_all add: demo_batch_def)

lemma demo_batch_ok:
  "i \<noteq> [] \<Longrightarrow> 0 \<le> n \<Longrightarrow> 1 \<le> q \<Longrightarrow> t \<noteq> ALL_TIERS \<Longrightarrow> ty \<noteq> CONFIG \<Longrightarrow> \<forall>k\<in>set ks. key_ok k \<Longrightarrow> batch_ok (demo_batch i n q ty t ks)"
  by (cases t) (auto simp: batch_ok_def check_batch_Inr demo_batch_def event_entry_ok_def UNKNOWN_TOKEN_OFFSET_def)

definition demo_calls :: "gate_call list" where
  "demo_calls =
     [Ingest (demo_batch ''a'' 1 1 STORE L1 [demo_key]), Ingest (demo_batch ''a'' 1 1 STORE L1 [demo_key]),
      Ingest (demo_batch ''a'' 1 3 STORE L2 [demo_key]), Ingest (demo_batch ''a'' 2 1 STORE L2 []),
      Ingest (demo_batch ''a'' 1 4 DELETE L2 [demo_key])]"

lemma demo_calls_ok: "\<forall>c\<in>set demo_calls. call_ok c"
  by (simp add: demo_calls_def demo_batch_ok demo_key_ok)

lemmas gate_eval = gate_log_def gate_cursors_def gate_run_def ingest_def drop_instance_def
  advance_cursor_def fresh_cursor_def Let_def

lemma demo_log:
  "gate_log demo_calls =
     [] @ Consumed (demo_batch ''a'' 1 1 STORE L1 [demo_key]) # [] @ Consumed (demo_batch ''a'' 1 3 STORE L2 [demo_key]) #
     [Fenced ''a'', Consumed (demo_batch ''a'' 2 1 STORE L2 [])]"
  by (simp add: gate_eval demo_calls_def)

text \<open>
  C5. In-order delivery between fences. The consumers see the deliveries of a log that does not
  depend on them. In that log two batches of one instance with no fence of the instance between
  them belong to the same incarnation, and the later one has the larger sequence number: as long
  as an instance is not fenced, a consumer sees no batch of it twice, no reordering and no second
  incarnation. A fence, by a new incarnation or by \<open>drop_instance\<close>, starts over: after it the
  numbers of the instance may repeat.
\<close>

theorem gate_delivers_in_order:
  assumes "\<forall>c\<in>set calls. call_ok c"
    and "gate_log calls = xs @ Consumed b # ys @ Consumed b' # zs"
    and "instance_id b' = instance_id b" and "Fenced (instance_id b) \<notin> set ys"
  shows "incarnation b' = incarnation b \<and> seq b < seq b' \<and>
    gate_run cs calls ([], s) = (gate_cursors calls, foldl (deliver cs) s (gate_log calls))"
proof -
  let ?p = "xs @ Consumed b # ys"
  obtain us vs where e: "epoch (instance_id b) ?p = us @ b # vs" using epoch_pair [OF assms(4)] by blast
  have "take (length ?p + 1) (gate_log calls) = ?p @ [Consumed b']" by (simp add: assms(2))
  then have "epoch_ok (epoch (instance_id b) (?p @ [Consumed b']))"
    using gate_run_inv [OF assms(1)] by (metis gate_inv_def)
  then have "epoch_ok (us @ b # vs @ [b'])"
    unfolding epoch_simps using assms(3) e by simp
  then show ?thesis by (simp add: epoch_ok_def sorted_wrt_append gate_run_replay)
qed

theorem gate_delivers_in_order_witness:
  "\<exists>b b'. gate_log demo_calls = [Consumed b, Consumed b', Fenced ''a'', Consumed (demo_batch ''a'' 2 1 STORE L2 [])] \<and>
     seq b < seq b' \<and> incarnation b' = incarnation b \<and>
     gate_run [recorder] demo_calls ([], []) =
       (gate_cursors demo_calls, [Consumed b, Consumed b', Fenced ''a'', Consumed (demo_batch ''a'' 2 1 STORE L2 [])])"
proof -
  let ?b = "demo_batch ''a'' 1 1 STORE L1 [demo_key]" and ?b' = "demo_batch ''a'' 1 3 STORE L2 [demo_key]"
  have "incarnation ?b' = incarnation ?b \<and> seq ?b < seq ?b' \<and>
      gate_run [recorder] demo_calls ([], []) = (gate_cursors demo_calls, foldl (deliver [recorder]) [] (gate_log demo_calls))"
    by (rule gate_delivers_in_order [OF demo_calls_ok demo_log]) simp_all
  moreover have "gate_run [recorder] demo_calls ([], []) = (gate_cursors demo_calls, gate_log demo_calls)"
    by (simp add: gate_log_def gate_cursors_def)
  ultimately show ?thesis using demo_log by (intro exI [of _ ?b] exI [of _ ?b']) simp
qed

text \<open>
  The cursor of an instance is an exact summary of what was delivered since its last fence:
  one incarnation, the last sequence number, and \<open>gap_detected\<close> is unset exactly when the
  delivered sequence numbers are 1, 2, ... up to the last one with none missing.
\<close>

theorem gate_gap_exact:
  assumes "\<forall>c\<in>set calls. call_ok c" and "map_of (gate_cursors calls) i = Some c"
  shows "epoch i (gate_log calls) \<noteq> [] \<and>
    (\<forall>b\<in>set (epoch i (gate_log calls)). incarnation b = cu_incarnation c) \<and>
    seq (last (epoch i (gate_log calls))) = last_seq c \<and>
    (\<not> gap_detected c \<longleftrightarrow> map seq (epoch i (gate_log calls)) = [1..last_seq c])"
  using gate_inv_epoch(2) [OF gate_run_inv [OF assms(1)] assms(2)] by (simp add: cursor_ok_def)

text \<open>
  Retransmission. Every batch of a \<open>POST /events\<close> request is counted once, and sending
  the whole request again applies nothing and leaves the gate and the consumers as they are.
\<close>

theorem report_cache_events_idempotent:
  "(let (gs1, r1) = report_cache_events cs bs gs; (gs2, r2) = report_cache_events cs bs gs1
    in gs1 = gate_run cs (map Ingest bs) gs \<and> gs2 = gs1 \<and> applied r2 = 0 \<and>
       applied r1 + duplicates r1 + stale r1 = length bs)"
proof -
  have "\<forall>b\<in>set bs. seen (fst (fst (report_cache_events cs bs gs))) b" by (simp add: report_sees)
  from report_of_seen [OF this, of cs] show ?thesis
    using report_counts [of cs bs gs] report_cache_events_run [of cs bs gs] by (simp add: case_prod_beta Let_def)
qed

text \<open>
  A coordinator restart is invisible to the stream: the captured cursors restore into an
  empty gate as they were, so the calls after the restart have the outcomes they would have
  had without it; a gate that already admitted something refuses the restore.
\<close>

lemma gate_restart_transparent:
  "(\<exists>g. gate_restore (gate_capture (gate_cursors calls)) [] = Inr g \<and>
      gate_run cs later (g, snd (gate_run cs calls ([], s))) = gate_run cs (calls @ later) ([], s)) \<and>
   (g' \<noteq> [] \<longrightarrow> gate_restore st g' = Inl ValueError)"
proof -
  have "gate_run cs (calls @ later) ([], s) = gate_run cs later (gate_run cs calls ([], s))"
    by (simp add: gate_run_def)
  moreover have "gate_restore st g' = Inl ValueError" if "g' \<noteq> []" using that by (simp add: gate_restore_def)
  ultimately show ?thesis by (simp add: gate_restore_capture [OF gate_cursors_wf] gate_run_replay)
qed

end
