(* ===== verification/Blend_Index.thy ===== *)
theory Blend_Index
  imports Object_Key
begin

text \<open>
  \<^verbatim>\<open>lmcache/v1/mp_coordinator/blend_index.py\<close>: \<open>BlendIndex\<close>, the content index behind fragment
  lookups; \<^verbatim>\<open>lmcache/v1/multiprocess/token_hasher.py\<close>: the compiled window hashes it uses.

  A NumPy array is a list of machine words: \<open>uint32\<close> for token contents, \<open>uint64\<close> for queries and
  fingerprints, whose arithmetic wraps at \<open>2 ^ 64\<close>; the occupancy filter is a list of Booleans. The
  window functions read \<open>k\<close> elements from each start; the callers have checked the length.
\<close>

unbundle bit_operations_syntax

type_synonym uint64 = "64 word"
type_synonym uint32 = "32 word"

section \<open>Window hashes\<close>

definition window_hash :: "uint64 list \<Rightarrow> uint64 \<Rightarrow> nat \<Rightarrow> nat \<Rightarrow> uint64" where
  "window_hash arr base st k = foldl (\<lambda>h i. h * base + arr ! i) 0 [st..<st + k]"

fun roll_loop :: "uint64 list \<Rightarrow> nat \<Rightarrow> uint64 \<Rightarrow> uint64 \<Rightarrow> nat list \<Rightarrow> uint64 \<Rightarrow> uint64 list" where
  "roll_loop arr k base pow [] h = []"
| "roll_loop arr k base pow (i # is) h =
     (let old = arr ! (i - k);
          new = arr ! i;
          h1 = h - old * pow;
          h2 = h1 * base + new
      in h2 # roll_loop arr k base pow is h2)"

definition rolling_hash_windows :: "uint64 list \<Rightarrow> nat \<Rightarrow> uint64 \<Rightarrow> uint64 list" where
  "rolling_hash_windows arr k base =
     (let pow = foldl (\<lambda>p _. p * base) 1 [0..<k - 1];
          h = window_hash arr base 0 k
      in h # roll_loop arr k base pow [k..<length arr] h)"

definition chunk_hash_windows :: "uint64 list \<Rightarrow> nat \<Rightarrow> uint64 \<Rightarrow> uint64 list" where
  "chunk_hash_windows arr k base = map (\<lambda>w. window_hash arr base (w * k) k) [0..<length arr div k]"

definition update_table_id :: "uint64 list \<Rightarrow> int list \<Rightarrow> int list \<Rightarrow> int list" where
  "update_table_id hashes table vals =
     foldl (\<lambda>t i. t[unat (hashes ! i AND (of_nat (length table) - 1)) := vals ! i]) table [0..<length hashes]"

section \<open>The index\<close>

definition POLY_BASE :: uint64 where
  "POLY_BASE = 0x9E3779B97F4A7C15"

definition TABLE_GROWTH :: nat where
  "TABLE_GROWTH = 16"

definition MIN_TABLE_SIZE :: nat where
  "MIN_TABLE_SIZE = 2 ^ 10"

record fingerprint_entry =
  fe_token_ids :: "uint32 list"
  occupants :: "(pybytes \<times> int) list"

record blend_index =
  bi_chunk_size :: nat
  bi_probe_stride :: nat
  fingerprint_table :: "(uint64, fingerprint_entry) pydict"
  slots :: "bool list"
  slot_mask :: uint64
  bits_set :: nat

record blend_match =
  bm_chunk_hash :: pybytes
  old_st :: int
  cur_st :: nat

definition empty_blend_index :: "nat \<Rightarrow> nat \<Rightarrow> blend_index" where
  "empty_blend_index chunk_size probe_stride =
     \<lparr>bi_chunk_size = chunk_size, bi_probe_stride = probe_stride, fingerprint_table = [],
      slots = replicate MIN_TABLE_SIZE False, slot_mask = of_nat (MIN_TABLE_SIZE - 1), bits_set = 0\<rparr>"

definition new_blend_index :: "int \<Rightarrow> int \<Rightarrow> blend_index result" where
  "new_blend_index chunk_size probe_stride =
     (if chunk_size < 1 then Inl ValueError
      else if probe_stride < 1 then Inl ValueError
      else Inr (empty_blend_index (nat chunk_size) (nat probe_stride)))"

definition fingerprint :: "nat \<Rightarrow> uint32 list \<Rightarrow> uint64" where
  "fingerprint k token_ids = chunk_hash_windows (map ucast token_ids) k POLY_BASE ! 0"

text \<open>The doubling loop of \<open>_rebuild_table\<close>; the size it starts from is positive.\<close>

function grow_size :: "nat \<Rightarrow> nat \<Rightarrow> nat" where
  "grow_size target sz = (if 0 < sz \<and> sz < target then grow_size target (2 * sz) else sz)"
  by pat_completeness auto
termination by (relation "measure (\<lambda>(target, sz). target - sz)") auto

declare grow_size.simps [simp del]

definition set_slots :: "uint64 \<Rightarrow> uint64 list \<Rightarrow> bool list \<Rightarrow> bool list" where
  "set_slots msk polys sl = foldl (\<lambda>sl p. sl[unat (p AND msk) := True]) sl polys"

definition rebuild_table :: "blend_index \<Rightarrow> blend_index" where
  "rebuild_table bi =
     (let sz = grow_size (TABLE_GROWTH * length (fingerprint_table bi)) MIN_TABLE_SIZE;
          msk = of_nat (sz - 1);
          sl = set_slots msk (map fst (fingerprint_table bi)) (replicate sz False)
      in bi\<lparr>slots := sl, slot_mask := msk, bits_set := length (filter (\<lambda>b. b) sl)\<rparr>)"

fun attach :: "pybytes \<Rightarrow> int \<Rightarrow> (pybytes \<times> int) list \<Rightarrow> (pybytes \<times> int) list" where
  "attach h off [] = [(h, off)]"
| "attach h off ((held, o1) # os) = (if held = h then (h, off) # os else (held, o1) # attach h off os)"

definition bi_add :: "uint32 list \<Rightarrow> pybytes \<Rightarrow> int \<Rightarrow> blend_index \<Rightarrow> blend_index" where
  "bi_add token_ids h off bi =
     (if length token_ids \<noteq> bi_chunk_size bi then bi
      else
        let poly = fingerprint (bi_chunk_size bi) token_ids in
        (case dict_get (fingerprint_table bi) poly of
           None \<Rightarrow>
             (let bi1 = bi\<lparr>fingerprint_table := dict_set poly \<lparr>fe_token_ids = token_ids, occupants = [(h, off)]\<rparr> (fingerprint_table bi)\<rparr>;
                  slot = unat (poly AND slot_mask bi1);
                  bi2 = (if \<not> slots bi1 ! slot then bi1\<lparr>slots := (slots bi1)[slot := True], bits_set := bits_set bi1 + 1\<rparr> else bi1)
              in if TABLE_GROWTH * length (fingerprint_table bi2) > length (slots bi2) then rebuild_table bi2 else bi2)
         | Some e \<Rightarrow>
             bi\<lparr>fingerprint_table := dict_set poly (e\<lparr>occupants := attach h off (occupants e)\<rparr>) (fingerprint_table bi)\<rparr>))"

definition bi_remove :: "uint32 list \<Rightarrow> pybytes \<Rightarrow> blend_index \<Rightarrow> blend_index" where
  "bi_remove token_ids h bi =
     (if length token_ids \<noteq> bi_chunk_size bi then bi
      else
        let poly = fingerprint (bi_chunk_size bi) token_ids in
        (case dict_get (fingerprint_table bi) poly of
           None \<Rightarrow> bi
         | Some e \<Rightarrow>
             (let occ = filter (\<lambda>x. fst x \<noteq> h) (occupants e) in
              if occ \<noteq> []
              then bi\<lparr>fingerprint_table := dict_set poly (e\<lparr>occupants := occ\<rparr>) (fingerprint_table bi)\<rparr>
              else
                let bi1 = bi\<lparr>fingerprint_table := dict_del poly (fingerprint_table bi)\<rparr>
                in if bits_set bi1 > 2 * length (fingerprint_table bi1) then rebuild_table bi1 else bi1)))"

fun match_loop :: "blend_index \<Rightarrow> uint64 list \<Rightarrow> uint64 list \<Rightarrow> nat list \<Rightarrow> pybytes list \<Rightarrow> blend_match list" where
  "match_loop bi query probe [] seen = []"
| "match_loop bi query probe (position # positions) seen =
     (case dict_get (fingerprint_table bi) (probe ! position) of
        None \<Rightarrow> match_loop bi query probe positions seen
      | Some e \<Rightarrow>
          let st = position * bi_probe_stride bi in
          if take (bi_chunk_size bi) (drop st query) \<noteq> map ucast (fe_token_ids e)
          then match_loop bi query probe positions seen
          else
            (case find (\<lambda>x. fst x \<notin> set seen) (occupants e) of
               None \<Rightarrow> match_loop bi query probe positions seen
             | Some (h, off) \<Rightarrow>
                 \<lparr>bm_chunk_hash = h, old_st = off, cur_st = st\<rparr> # match_loop bi query probe positions (h # seen)))"

definition bi_match :: "uint64 list \<Rightarrow> blend_index \<Rightarrow> blend_match list" where
  "bi_match query bi =
     (if length query < bi_chunk_size bi then []
      else
        let rolling = rolling_hash_windows query (bi_chunk_size bi) POLY_BASE;
            probe = map (\<lambda>j. rolling ! (j * bi_probe_stride bi))
                      [0..<(length rolling + bi_probe_stride bi - 1) div bi_probe_stride bi];
            occupied = filter (\<lambda>j. slots bi ! unat (probe ! j AND slot_mask bi)) [0..<length probe]
        in match_loop bi query probe occupied [])"

record blend_stats =
  num_contents :: nat
  num_chunks :: nat
  table_size :: nat

definition bi_stats :: "blend_index \<Rightarrow> blend_stats" where
  "bi_stats bi =
     \<lparr>num_contents = length (fingerprint_table bi),
      num_chunks = sum_list (map (\<lambda>(p, e). length (occupants e)) (fingerprint_table bi)), table_size = length (slots bi)\<rparr>"

section \<open>Rolling hashes\<close>

definition poly_hash :: "uint64 \<Rightarrow> uint64 list \<Rightarrow> uint64" where
  "poly_hash base xs = foldl (\<lambda>h x. h * base + x) 0 xs"

lemma poly_hash_fold: "foldl (\<lambda>h x. h * base + x) a xs = a * base ^ length xs + poly_hash base xs"
proof (induction xs arbitrary: a)
  case (Cons x xs)
  show ?case using Cons [of "a * base + x"] Cons [of x] by (simp add: poly_hash_def algebra_simps)
qed (simp add: poly_hash_def)

lemma poly_hash_Cons: "poly_hash base (x # xs) = x * base ^ length xs + poly_hash base xs"
  using poly_hash_fold [of base x xs] by (simp add: poly_hash_def)

lemma poly_hash_snoc: "poly_hash base (xs @ [y]) = poly_hash base xs * base + y"
  by (simp add: poly_hash_def)

lemma window_hash_poly:
  assumes "st + k \<le> length arr"
  shows "window_hash arr base st k = poly_hash base (take k (drop st arr))"
proof -
  have "take k (drop st arr) = map ((!) arr) [st..<st + k]"
    using assms by (intro nth_equalityI) auto
  then show ?thesis by (simp add: window_hash_def poly_hash_def foldl_map)
qed

lemma power_loop: "foldl (\<lambda>p _. p * base) (1 :: uint64) [0..<m] = base ^ m"
  by (induction m) (simp_all add: mult.commute)

lemma roll_step:
  assumes "1 \<le> k" and "j + k < length arr"
  shows "(poly_hash base (take k (drop j arr)) - arr ! j * base ^ (k - 1)) * base + arr ! (j + k) =
    poly_hash base (take k (drop (Suc j) arr))"
proof -
  let ?mid = "take (k - 1) (drop (Suc j) arr)"
  have "take k (drop j arr) = arr ! j # ?mid"
    using assms by (cases k) (simp_all add: Cons_nth_drop_Suc [symmetric])
  moreover have "take k (drop (Suc j) arr) = ?mid @ [arr ! (j + k)]"
    using assms by (cases k) (simp_all add: take_Suc_conv_app_nth)
  moreover have "length ?mid = k - 1" using assms by simp
  ultimately show ?thesis by (simp add: poly_hash_Cons poly_hash_snoc)
qed

lemma roll_loop_poly:
  assumes "1 \<le> k" and "k \<le> i" and "i \<le> length arr" and "h = poly_hash base (take k (drop (i - k) arr))"
  shows "roll_loop arr k base (base ^ (k - 1)) [i..<length arr] h =
    map (\<lambda>j. poly_hash base (take k (drop j arr))) [Suc (i - k)..<Suc (length arr - k)]"
  using assms(2-)
proof (induction "length arr - i" arbitrary: i h)
  case (Suc d)
  then have i: "i < length arr" by simp
  have "(h - arr ! (i - k) * base ^ (k - 1)) * base + arr ! i = poly_hash base (take k (drop (Suc (i - k)) arr))"
    using roll_step [OF assms(1), of "i - k" arr base] Suc.prems i by simp
  moreover have "roll_loop arr k base (base ^ (k - 1)) [Suc i..<length arr] (poly_hash base (take k (drop (Suc (i - k)) arr))) =
      map (\<lambda>j. poly_hash base (take k (drop j arr))) [Suc (Suc i - k)..<Suc (length arr - k)]"
    using Suc.prems Suc.hyps(2) i by (intro Suc.hyps(1)) (simp_all add: Suc_diff_le)
  moreover have "[Suc (i - k)..<Suc (length arr - k)] = Suc (i - k) # [Suc (Suc i - k)..<Suc (length arr - k)]"
    using Suc.prems i by (subst upt_conv_Cons) (simp_all add: Suc_diff_le)
  ultimately show ?case using i by (simp add: upt_conv_Cons Let_def del: upt_Suc)
qed simp

lemma rolling_is_poly:
  assumes "1 \<le> k" and "k \<le> length arr"
  shows "rolling_hash_windows arr k base = map (\<lambda>j. poly_hash base (take k (drop j arr))) [0..<length arr - k + 1]"
proof -
  have "roll_loop arr k base (base ^ (k - 1)) [k..<length arr] (poly_hash base (take k arr)) =
      map (\<lambda>j. poly_hash base (take k (drop j arr))) [Suc 0..<Suc (length arr - k)]"
    using roll_loop_poly [OF assms(1) order_refl assms(2), of "poly_hash base (take k arr)" base] by simp
  moreover have "[0..<length arr - k + 1] = 0 # [Suc 0..<Suc (length arr - k)]" by (simp add: upt_conv_Cons del: upt_Suc)
  ultimately show ?thesis
    using window_hash_poly [of 0 k arr base] assms by (simp add: rolling_hash_windows_def Let_def power_loop del: upt_Suc)
qed

lemma fingerprint_poly:
  assumes "length toks = k" and "1 \<le> k"
  shows "fingerprint k toks = poly_hash POLY_BASE (map ucast toks)"
  using assms window_hash_poly [of 0 k "map ucast toks" POLY_BASE]
  by (simp add: fingerprint_def chunk_hash_windows_def)

section \<open>The filter\<close>

lemma unat_and_mask: "unat (p AND (of_nat (2 ^ m - 1) :: uint64)) < 2 ^ m"
proof -
  have "(of_nat (2 ^ m - 1) :: uint64) = mask m" by (simp add: mask_eq_exp_minus_1 of_nat_diff)
  then have "unat (p AND of_nat (2 ^ m - 1)) = take_bit m (unat p)"
    by (simp add: unsigned_take_bit_eq flip: take_bit_eq_mask)
  then show ?thesis by simp
qed

lemma grow_size_pow:
  assumes "sz = 2 ^ a" and "a \<le> b" and "target \<le> 2 ^ b"
  shows "\<exists>m\<ge>a. m \<le> b \<and> grow_size target sz = 2 ^ m \<and> target \<le> 2 ^ m"
  using assms
proof (induction target sz arbitrary: a rule: grow_size.induct)
  case (1 target sz)
  show ?case
  proof (cases "sz < target")
    case True
    then have "(2 :: nat) ^ a < 2 ^ b" using 1 by linarith
    then have "Suc a \<le> b" by (simp add: Suc_le_eq)
    moreover have "0 < sz" using 1 by simp
    ultimately obtain m where "Suc a \<le> m" "m \<le> b" "grow_size target (2 * sz) = 2 ^ m" "target \<le> 2 ^ m"
      using 1 True by (metis power_Suc)
    with True \<open>0 < sz\<close> show ?thesis by (subst grow_size.simps) (auto intro: exI [of _ m])
  next
    case False
    with 1 show ?thesis by (subst grow_size.simps) auto
  qed
qed

lemma set_slots_length [simp]: "length (set_slots msk ps sl) = length sl"
  unfolding set_slots_def by (induction ps arbitrary: sl) auto

lemma set_slots_keeps: "sl ! i \<Longrightarrow> i < length sl \<Longrightarrow> set_slots msk ps sl ! i"
proof (induction ps arbitrary: sl)
  case (Cons p ps)
  have "sl[unat (p AND msk) := True] ! i" using Cons.prems by (cases "unat (p AND msk) = i") simp_all
  with Cons show ?case by (simp add: set_slots_def)
qed (simp add: set_slots_def)

lemma set_slots_sets: "p \<in> set ps \<Longrightarrow> unat (p AND msk) < length sl \<Longrightarrow> set_slots msk ps sl ! unat (p AND msk)"
proof (induction ps arbitrary: sl)
  case (Cons q ps)
  let ?sl = "sl[unat (q AND msk) := True]"
  have step: "set_slots msk (q # ps) sl = set_slots msk ps ?sl" by (simp add: set_slots_def)
  show ?case
  proof (cases "p = q")
    case True
    then show ?thesis unfolding step using Cons.prems(2) by (intro set_slots_keeps) auto
  next
    case False
    then show ?thesis unfolding step using Cons by simp
  qed
qed simp

definition slots_ok :: "blend_index \<Rightarrow> bool" where
  "slots_ok bi \<longleftrightarrow> (\<exists>m. length (slots bi) = 2 ^ m \<and> slot_mask bi = of_nat (2 ^ m - 1)) \<and>
     (\<forall>p\<in>dict_dom (fingerprint_table bi). slots bi ! unat (p AND slot_mask bi))"

definition entry_ok :: "nat \<Rightarrow> uint64 \<Rightarrow> fingerprint_entry \<Rightarrow> bool" where
  "entry_ok k p e \<longleftrightarrow> length (fe_token_ids e) = k \<and> p = fingerprint k (fe_token_ids e) \<and> occupants e \<noteq> [] \<and> distinct (map fst (occupants e))"

definition bi_inv :: "blend_index \<Rightarrow> bool" where
  "bi_inv bi \<longleftrightarrow> 1 \<le> bi_chunk_size bi \<and> 1 \<le> bi_probe_stride bi \<and> dict_wf (fingerprint_table bi) \<and> slots_ok bi \<and>
     TABLE_GROWTH * length (fingerprint_table bi) \<le> length (slots bi) \<and>
     (\<forall>p e. map_of (fingerprint_table bi) p = Some e \<longrightarrow> entry_ok (bi_chunk_size bi) p e)"

lemma rebuild_slots:
  assumes "length (fingerprint_table bi) \<le> 2 ^ 59"
  shows "slots_ok (rebuild_table bi)" and "TABLE_GROWTH * length (fingerprint_table bi) \<le> length (slots (rebuild_table bi))"
    and "fingerprint_table (rebuild_table bi) = fingerprint_table bi" and "bi_chunk_size (rebuild_table bi) = bi_chunk_size bi"
    and "bi_probe_stride (rebuild_table bi) = bi_probe_stride bi"
proof -
  have "TABLE_GROWTH * length (fingerprint_table bi) \<le> 2 ^ 63" using assms by (simp add: TABLE_GROWTH_def)
  then obtain m where m: "grow_size (TABLE_GROWTH * length (fingerprint_table bi)) MIN_TABLE_SIZE = 2 ^ m"
    "TABLE_GROWTH * length (fingerprint_table bi) \<le> 2 ^ m"
    using grow_size_pow [of MIN_TABLE_SIZE 10 63 "TABLE_GROWTH * length (fingerprint_table bi)"] by (auto simp: MIN_TABLE_SIZE_def)
  show "TABLE_GROWTH * length (fingerprint_table bi) \<le> length (slots (rebuild_table bi))"
    using m by (simp add: rebuild_table_def Let_def)
  show "slots_ok (rebuild_table bi)"
    unfolding slots_ok_def
  proof (intro conjI exI ballI)
    show "length (slots (rebuild_table bi)) = 2 ^ m" "slot_mask (rebuild_table bi) = of_nat (2 ^ m - 1)"
      using m by (simp_all add: rebuild_table_def Let_def)
    fix p assume "p \<in> dict_dom (fingerprint_table (rebuild_table bi))"
    then have "p \<in> set (map fst (fingerprint_table bi))" by (simp add: rebuild_table_def Let_def dict_dom_def)
    from set_slots_sets [OF this, of "of_nat (2 ^ m - 1)" "replicate (2 ^ m) False"] unat_and_mask [of p m]
    show "slots (rebuild_table bi) ! unat (p AND slot_mask (rebuild_table bi))"
      using m by (simp add: rebuild_table_def Let_def)
  qed
qed (simp_all add: rebuild_table_def Let_def)

section \<open>Operations keep the invariant\<close>

lemma attach_set: "distinct (map fst os) \<Longrightarrow> set (attach h off os) = insert (h, off) {x \<in> set os. fst x \<noteq> h}"
  by (induction h off os rule: attach.induct) force+

lemma attach_distinct: "distinct (map fst os) \<Longrightarrow> distinct (map fst (attach h off os))"
proof (induction h off os rule: attach.induct)
  case (2 h off held o1 os)
  then show ?case using attach_set [of os h off] by force
qed simp

lemma attach_nonempty [simp]: "attach h off os \<noteq> []"
  by (cases "(h, off, os)" rule: attach.cases) auto

lemma slots_ok_known:
  assumes "slots_ok bi" and "dict_dom tbl \<subseteq> dict_dom (fingerprint_table bi)"
  shows "slots_ok (bi\<lparr>fingerprint_table := tbl\<rparr>)"
  using assms by (auto simp: slots_ok_def)

lemma dict_set_length: "length (dict_set k v d) = (if k \<in> dict_dom d then length d else Suc (length d))"
  by (induction d) (auto simp: dict_dom_def)

lemma dict_del_length: "length (dict_del k d) \<le> length d"
  by (induction d) auto

lemma bi_add_inv:
  assumes inv: "bi_inv bi" and len: "length (fingerprint_table bi) < 2 ^ 59"
  shows "bi_inv (bi_add toks h off bi)" and "length (fingerprint_table (bi_add toks h off bi)) \<le> Suc (length (fingerprint_table bi))"
    and "bi_chunk_size (bi_add toks h off bi) = bi_chunk_size bi" and "bi_probe_stride (bi_add toks h off bi) = bi_probe_stride bi"
    and "length toks = bi_chunk_size bi \<Longrightarrow> map_of (fingerprint_table (bi_add toks h off bi)) =
      (map_of (fingerprint_table bi))(fingerprint (bi_chunk_size bi) toks \<mapsto>
        (case map_of (fingerprint_table bi) (fingerprint (bi_chunk_size bi) toks) of
           None \<Rightarrow> \<lparr>fe_token_ids = toks, occupants = [(h, off)]\<rparr>
         | Some e \<Rightarrow> e\<lparr>occupants := attach h off (occupants e)\<rparr>))"
    and "length toks \<noteq> bi_chunk_size bi \<Longrightarrow> bi_add toks h off bi = bi"
proof -
  let ?k = "bi_chunk_size bi" and ?p = "fingerprint (bi_chunk_size bi) toks" and ?bi = "bi_add toks h off bi"
  have "bi_inv ?bi \<and> length (fingerprint_table ?bi) \<le> Suc (length (fingerprint_table bi)) \<and> bi_chunk_size ?bi = ?k \<and>
      bi_probe_stride ?bi = bi_probe_stride bi \<and> (length toks = ?k \<longrightarrow> map_of (fingerprint_table ?bi) =
      (map_of (fingerprint_table bi))(?p \<mapsto>
        (case map_of (fingerprint_table bi) ?p of
           None \<Rightarrow> \<lparr>fe_token_ids = toks, occupants = [(h, off)]\<rparr>
         | Some e \<Rightarrow> e\<lparr>occupants := attach h off (occupants e)\<rparr>)))"
  proof (cases "length toks = ?k")
    case True
    show ?thesis
    proof (cases "map_of (fingerprint_table bi) ?p")
      case None
      let ?t = "dict_set ?p \<lparr>fe_token_ids = toks, occupants = [(h, off)]\<rparr> (fingerprint_table bi)"
      let ?slot = "unat (?p AND slot_mask bi)"
      let ?b2 = "if \<not> slots bi ! ?slot then bi\<lparr>fingerprint_table := ?t, slots := (slots bi)[?slot := True], bits_set := bits_set bi + 1\<rparr>
         else bi\<lparr>fingerprint_table := ?t\<rparr>"
      have lt: "length ?t \<le> 2 ^ 59" using len by (simp add: dict_set_length)
      have entries: "\<forall>p e. map_of ?t p = Some e \<longrightarrow> entry_ok ?k p e"
        using inv True by (auto simp: bi_inv_def entry_ok_def)
      obtain m where m: "length (slots bi) = 2 ^ m" "slot_mask bi = of_nat (2 ^ m - 1)" using inv by (auto simp: bi_inv_def slots_ok_def)
      have room: "unat (p AND slot_mask bi) < length (slots bi)" for p using unat_and_mask [of p m] by (simp add: m)
      have b2: "slots_ok ?b2" using inv m room by (auto simp: bi_inv_def slots_ok_def nth_list_update)
      have t2: "fingerprint_table ?b2 = ?t" "bi_chunk_size ?b2 = ?k" "bi_probe_stride ?b2 = bi_probe_stride bi" by simp_all
      have bi: "?bi = (if TABLE_GROWTH * length ?t > length (slots ?b2) then rebuild_table ?b2 else ?b2)"
        using True None by (simp add: bi_add_def Let_def)
      have "slots_ok ?bi \<and> TABLE_GROWTH * length ?t \<le> length (slots ?bi) \<and> fingerprint_table ?bi = ?t \<and>
          bi_chunk_size ?bi = ?k \<and> bi_probe_stride ?bi = bi_probe_stride bi"
        using rebuild_slots [of ?b2] lt b2 t2 unfolding bi by (simp split: if_split_asm)
      then show ?thesis using inv entries None by (simp add: bi_inv_def dict_set_length fun_eq_iff)
    next
      case (Some e)
      let ?t = "dict_set ?p (e\<lparr>occupants := attach h off (occupants e)\<rparr>) (fingerprint_table bi)"
      have bi: "?bi = bi\<lparr>fingerprint_table := ?t\<rparr>" using True Some by (simp add: bi_add_def Let_def)
      have mem: "?p \<in> dict_dom (fingerprint_table bi)" using Some by (simp add: dict_dom_iff)
      have "entry_ok ?k ?p (e\<lparr>occupants := attach h off (occupants e)\<rparr>)"
        using inv Some by (simp add: bi_inv_def entry_ok_def attach_distinct)
      moreover have "slots_ok ?bi" unfolding bi using inv mem by (intro slots_ok_known) (auto simp: bi_inv_def insert_absorb)
      ultimately show ?thesis using inv Some mem by (simp add: bi bi_inv_def dict_set_length fun_eq_iff)
    qed
  qed (use inv in \<open>simp add: bi_add_def\<close>)
  then show "bi_inv ?bi" "length (fingerprint_table ?bi) \<le> Suc (length (fingerprint_table bi))" "bi_chunk_size ?bi = ?k"
    "bi_probe_stride ?bi = bi_probe_stride bi"
    "length toks = ?k \<Longrightarrow> map_of (fingerprint_table ?bi) = (map_of (fingerprint_table bi))(?p \<mapsto>
        (case map_of (fingerprint_table bi) ?p of
           None \<Rightarrow> \<lparr>fe_token_ids = toks, occupants = [(h, off)]\<rparr>
         | Some e \<Rightarrow> e\<lparr>occupants := attach h off (occupants e)\<rparr>))" by blast+
  show "length toks \<noteq> ?k \<Longrightarrow> ?bi = bi" by (simp add: bi_add_def)
qed

lemma bi_remove_inv:
  assumes inv: "bi_inv bi" and len: "length (fingerprint_table bi) \<le> 2 ^ 59"
  shows "bi_inv (bi_remove toks h bi)" and "length (fingerprint_table (bi_remove toks h bi)) \<le> length (fingerprint_table bi)"
    and "bi_chunk_size (bi_remove toks h bi) = bi_chunk_size bi" and "bi_probe_stride (bi_remove toks h bi) = bi_probe_stride bi"
    and "length toks = bi_chunk_size bi \<Longrightarrow> map_of (fingerprint_table (bi_remove toks h bi)) =
      (map_of (fingerprint_table bi))(fingerprint (bi_chunk_size bi) toks :=
        (case map_of (fingerprint_table bi) (fingerprint (bi_chunk_size bi) toks) of
           None \<Rightarrow> None
         | Some e \<Rightarrow> let occ = filter (\<lambda>x. fst x \<noteq> h) (occupants e) in if occ \<noteq> [] then Some (e\<lparr>occupants := occ\<rparr>) else None))"
    and "length toks \<noteq> bi_chunk_size bi \<Longrightarrow> bi_remove toks h bi = bi"
proof -
  let ?k = "bi_chunk_size bi" and ?p = "fingerprint (bi_chunk_size bi) toks" and ?bi = "bi_remove toks h bi"
  have "bi_inv ?bi \<and> length (fingerprint_table ?bi) \<le> length (fingerprint_table bi) \<and> bi_chunk_size ?bi = ?k \<and>
      bi_probe_stride ?bi = bi_probe_stride bi \<and> (length toks = ?k \<longrightarrow> map_of (fingerprint_table ?bi) =
      (map_of (fingerprint_table bi))(?p := (case map_of (fingerprint_table bi) ?p of
           None \<Rightarrow> None
         | Some e \<Rightarrow> let occ = filter (\<lambda>x. fst x \<noteq> h) (occupants e) in if occ \<noteq> [] then Some (e\<lparr>occupants := occ\<rparr>) else None)))"
  proof (cases "length toks = ?k")
    case True
    show ?thesis
    proof (cases "map_of (fingerprint_table bi) ?p")
      case None
      then show ?thesis using True inv by (simp add: bi_remove_def Let_def fun_eq_iff)
    next
      case (Some e)
      let ?occ = "filter (\<lambda>x. fst x \<noteq> h) (occupants e)"
      have mem: "?p \<in> dict_dom (fingerprint_table bi)" using Some by (simp add: dict_dom_iff)
      show ?thesis
      proof (cases "?occ = []")
        case False
        let ?t = "dict_set ?p (e\<lparr>occupants := ?occ\<rparr>) (fingerprint_table bi)"
        have bi: "?bi = bi\<lparr>fingerprint_table := ?t\<rparr>" using True Some False by (simp add: bi_remove_def Let_def)
        have "entry_ok ?k ?p (e\<lparr>occupants := ?occ\<rparr>)"
          using inv Some False by (simp add: bi_inv_def entry_ok_def distinct_map_filter)
        moreover have "slots_ok ?bi" unfolding bi using inv mem by (intro slots_ok_known) (auto simp: bi_inv_def insert_absorb)
        ultimately show ?thesis using inv Some mem False by (simp add: bi bi_inv_def dict_set_length fun_eq_iff)
      next
        case empty: True
        let ?t = "dict_del ?p (fingerprint_table bi)" and ?b1 = "bi\<lparr>fingerprint_table := dict_del ?p (fingerprint_table bi)\<rparr>"
        have bi: "?bi = (if bits_set bi > 2 * length ?t then rebuild_table ?b1 else ?b1)"
          using True Some empty by (simp add: bi_remove_def Let_def)
        have lt: "length ?t \<le> length (fingerprint_table bi)" by (rule dict_del_length)
        have "slots_ok ?b1" using inv by (intro slots_ok_known) (auto simp: bi_inv_def)
        moreover have "TABLE_GROWTH * length ?t \<le> length (slots bi)"
          using inv lt by (simp add: bi_inv_def) (metis le_trans mult_le_mono2)
        ultimately have "slots_ok ?bi \<and> TABLE_GROWTH * length ?t \<le> length (slots ?bi) \<and> fingerprint_table ?bi = ?t \<and>
            bi_chunk_size ?bi = ?k \<and> bi_probe_stride ?bi = bi_probe_stride bi"
          using rebuild_slots [of ?b1] lt len unfolding bi by simp
        then show ?thesis using inv Some empty lt by (simp add: bi_inv_def fun_eq_iff)
      qed
    qed
  qed (use inv in \<open>simp add: bi_remove_def\<close>)
  then show "bi_inv ?bi" "length (fingerprint_table ?bi) \<le> length (fingerprint_table bi)" "bi_chunk_size ?bi = ?k"
    "bi_probe_stride ?bi = bi_probe_stride bi"
    "length toks = ?k \<Longrightarrow> map_of (fingerprint_table ?bi) = (map_of (fingerprint_table bi))(?p := (case map_of (fingerprint_table bi) ?p of
           None \<Rightarrow> None
         | Some e \<Rightarrow> let occ = filter (\<lambda>x. fst x \<noteq> h) (occupants e) in if occ \<noteq> [] then Some (e\<lparr>occupants := occ\<rparr>) else None))" by blast+
  show "length toks \<noteq> ?k \<Longrightarrow> ?bi = bi" by (simp add: bi_remove_def)
qed

section \<open>Matching is exact\<close>

text \<open>The same scan with neither the filter nor the rolling hash: each window is compared with every content.\<close>

fun scan :: "fingerprint_entry list \<Rightarrow> nat \<Rightarrow> uint64 list \<Rightarrow> nat list \<Rightarrow> pybytes list \<Rightarrow> blend_match list" where
  "scan es k query [] seen = []"
| "scan es k query (st # sts) seen =
     (case find (\<lambda>e. map ucast (fe_token_ids e) = take k (drop st query)) es of
        None \<Rightarrow> scan es k query sts seen
      | Some e \<Rightarrow>
          (case find (\<lambda>x. fst x \<notin> set seen) (occupants e) of
             None \<Rightarrow> scan es k query sts seen
           | Some (h, off) \<Rightarrow> \<lparr>bm_chunk_hash = h, old_st = off, cur_st = st\<rparr> # scan es k query sts (h # seen)))"

definition probe_starts :: "nat \<Rightarrow> nat \<Rightarrow> nat \<Rightarrow> nat list" where
  "probe_starts len k stride = map (\<lambda>j. j * stride) [0..<(len - k + stride) div stride]"

lemma probe_starts_sorted: "0 < s \<Longrightarrow> sorted_wrt (<) (probe_starts len k s)"
proof -
  assume "0 < s"
  then have "sorted_wrt (<) (map (\<lambda>j. j * s) [0..<m])" for m :: nat
    by (induction m) (auto simp: sorted_wrt_append)
  then show ?thesis by (simp only: probe_starts_def)
qed

lemma probe_starts_mem:
  assumes "0 < s" and "k \<le> len"
  shows "st \<in> set (probe_starts len k s) \<longleftrightarrow> st mod s = 0 \<and> st + k \<le> len"
proof -
  have "(d + s) div s = Suc (d div s)" for d using assms(1) by simp
  from this [of "len - k"] have count: "j < (len - k + s) div s \<longleftrightarrow> j * s + k \<le> len" for j
    using assms by (simp only: less_Suc_eq_le less_eq_div_iff_mult_less_eq) linarith
  have "set (probe_starts len k s) = (\<lambda>j. j * s) ` {j. j < (len - k + s) div s}"
    unfolding probe_starts_def set_map set_upt by (simp add: lessThan_def atLeast0LessThan)
  then have "st \<in> set (probe_starts len k s) \<longleftrightarrow> (\<exists>j. st = j * s \<and> j * s + k \<le> len)"
    unfolding count by auto
  also have "\<dots> \<longleftrightarrow> st mod s = 0 \<and> st + k \<le> len" by (auto simp: mod_eq_0_iff_dvd elim: dvdE intro: exI [of _ "st div s"])
  finally show ?thesis .
qed

lemma find_member: "find P xs = Some x \<Longrightarrow> x \<in> set xs \<and> P x"
  by (induction xs) (auto split: if_splits)

lemma find_entry:
  assumes inv: "bi_inv bi" and w: "length w = bi_chunk_size bi"
  shows "find (\<lambda>e. map ucast (fe_token_ids e) = w) (map snd (fingerprint_table bi)) =
    (case map_of (fingerprint_table bi) (poly_hash POLY_BASE w) of
       None \<Rightarrow> None
     | Some e \<Rightarrow> if map ucast (fe_token_ids e) = w then Some e else None)"
proof -
  let ?t = "fingerprint_table bi" and ?P = "\<lambda>e. map ucast (fe_token_ids e) = w"
  have key: "p = poly_hash POLY_BASE w" if "map_of ?t p = Some e" "?P e" for p e
    using inv that fingerprint_poly [of "fe_token_ids e" "bi_chunk_size bi"] by (auto simp: bi_inv_def entry_ok_def)
  have mem: "e \<in> set (map snd ?t) \<longleftrightarrow> (\<exists>p. map_of ?t p = Some e)" for e
    using inv by (force simp: bi_inv_def dict_wf_map_of_eq)
  show ?thesis
  proof (cases "find ?P (map snd ?t)")
    case None
    then have "\<not> ?P e" if "map_of ?t p = Some e" for p e
    proof -
      have "e \<in> set (map snd ?t)" using mem that by blast
      with None show ?thesis unfolding find_None_iff by blast
    qed
    with None show ?thesis by (auto split: option.splits)
  next
    case (Some e)
    from find_member [OF Some] have e: "e \<in> set (map snd ?t)" "map ucast (fe_token_ids e) = w" by blast+
    from e(1) obtain p where p: "map_of ?t p = Some e" unfolding mem by blast
    have hit: "map_of ?t (poly_hash POLY_BASE w) = Some e" unfolding key [OF p e(2), symmetric] by (rule p)
    show ?thesis unfolding Some hit using e(2) by simp
  qed
qed

lemma div_ceiling_less: "0 < s \<Longrightarrow> j < (len + s - 1) div s \<Longrightarrow> j * s < (len :: nat)"
proof -
  assume s: "0 < s" and j: "j < (len + s - 1) div s"
  then have "Suc j * s \<le> len + s - 1" by (metis Suc_leI div_times_less_eq_dividend le_trans mult_le_mono1)
  then show ?thesis using s by simp
qed

lemma match_scan:
  assumes inv: "bi_inv bi" and q: "bi_chunk_size bi \<le> length query"
  shows "bi_match query bi =
    scan (map snd (fingerprint_table bi)) (bi_chunk_size bi) query (probe_starts (length query) (bi_chunk_size bi) (bi_probe_stride bi)) []"
proof -
  let ?k = "bi_chunk_size bi" and ?s = "bi_probe_stride bi" and ?t = "fingerprint_table bi"
  let ?L = "length query - bi_chunk_size bi + 1"
  let ?m = "(?L + ?s - 1) div ?s"
  have k: "1 \<le> ?k" and s: "0 < ?s" using inv by (auto simp: bi_inv_def)
  define probe where "probe = map (\<lambda>j. rolling_hash_windows query ?k POLY_BASE ! (j * ?s)) [0..<?m]"
  let ?occ = "\<lambda>j. slots bi ! unat (probe ! j AND slot_mask bi)"
  have window: "length (take ?k (drop (j * ?s) query)) = ?k" and probe: "probe ! j = poly_hash POLY_BASE (take ?k (drop (j * ?s) query))"
    if "j < ?m" for j
  proof -
    have "j * ?s < ?L" using div_ceiling_less [OF s that] .
    then show "length (take ?k (drop (j * ?s) query)) = ?k" using q by simp
    show "probe ! j = poly_hash POLY_BASE (take ?k (drop (j * ?s) query))"
      using that \<open>j * ?s < ?L\<close> by (simp add: probe_def rolling_is_poly [OF k q] del: upt_Suc)
  qed
  have occupied: "?occ j" if "map_of ?t (probe ! j) = Some e" for j e
    using inv that unfolding bi_inv_def slots_ok_def by (metis dict_dom_iff option.distinct(1))
  have "match_loop bi query probe (filter ?occ js) seen = scan (map snd ?t) ?k query (map (\<lambda>j. j * ?s) js) seen"
    if "\<forall>j\<in>set js. j < ?m" for js seen
    using that
  proof (induction js arbitrary: seen)
    case (Cons j js)
    have j: "j < ?m" using Cons.prems by simp
    note found = find_entry [OF inv window [OF j], folded probe [OF j]]
    show ?case
    proof (cases "map_of ?t (probe ! j)")
      case None
      then show ?thesis using Cons found by simp
    next
      case (Some e)
      then show ?thesis using Cons found occupied [OF Some] by (auto simp: Let_def split: option.split)
    qed
  qed simp
  from this [of "[0..<?m]" "[]"] show ?thesis
    using q s by (simp add: bi_match_def Let_def rolling_is_poly [OF k q] probe_def [symmetric] probe_starts_def del: upt_Suc)
      (simp add: probe_def rolling_is_poly [OF k q] del: upt_Suc)
qed

lemma scan_cases:
  obtains (skip) "scan es k query (st # sts) seen = scan es k query sts seen"
  | (hit) e h off where "e \<in> set es" "map ucast (fe_token_ids e) = take k (drop st query)" "(h, off) \<in> set (occupants e)" "h \<notin> set seen"
    "scan es k query (st # sts) seen = \<lparr>bm_chunk_hash = h, old_st = off, cur_st = st\<rparr> # scan es k query sts (h # seen)"
proof (cases "find (\<lambda>e. map ucast (fe_token_ids e) = take k (drop st query)) es")
  case None
  then show thesis by (intro skip) simp
next
  case e: (Some e)
  show thesis
  proof (cases "find (\<lambda>x. fst x \<notin> set seen) (occupants e)")
    case None
    with e show thesis by (intro skip) simp
  next
    case (Some x)
    obtain h off where x: "x = (h, off)" by fastforce
    show thesis
      using find_member [OF e] find_member [OF Some] by (intro hit [of e h off]) (simp_all add: e Some x)
  qed
qed

lemma scan_seen: "m \<in> set (scan es k query sts seen) \<Longrightarrow> bm_chunk_hash m \<notin> set seen"
proof (induction sts arbitrary: seen)
  case (Cons st sts)
  show ?case by (cases rule: scan_cases [of es k query st sts seen]) (use Cons in fastforce)+
qed simp

lemma scan_sound:
  "m \<in> set (scan es k query sts seen) \<Longrightarrow> cur_st m \<in> set sts \<and>
     (\<exists>e\<in>set es. map ucast (fe_token_ids e) = take k (drop (cur_st m) query) \<and> (bm_chunk_hash m, old_st m) \<in> set (occupants e))"
proof (induction sts arbitrary: seen)
  case (Cons st sts)
  show ?case
  proof (cases rule: scan_cases [of es k query st sts seen])
    case skip
    with Cons show ?thesis by auto
  next
    case (hit e h off)
    then have "m = \<lparr>bm_chunk_hash = h, old_st = off, cur_st = st\<rparr> \<or> m \<in> set (scan es k query sts (h # seen))"
      using Cons.prems by auto
    then show ?thesis using Cons.IH [of "h # seen"] hit by auto
  qed
qed simp

lemma scan_distinct:
  "sorted_wrt (<) sts \<Longrightarrow> distinct (map bm_chunk_hash (scan es k query sts seen)) \<and> sorted_wrt (<) (map cur_st (scan es k query sts seen))"
proof (induction sts arbitrary: seen)
  case (Cons st sts)
  show ?case
  proof (cases rule: scan_cases [of es k query st sts seen])
    case skip
    then show ?thesis using Cons by simp
  next
    case (hit e h off)
    note step = hit(5)
    have "st < cur_st m" if "m \<in> set (scan es k query sts (h # seen))" for m
      using scan_sound [OF that] Cons.prems by auto
    moreover have "bm_chunk_hash m \<noteq> h" if "m \<in> set (scan es k query sts (h # seen))" for m
      using scan_seen [OF that] by simp
    ultimately show ?thesis unfolding step using Cons by auto
  qed
qed simp

lemma scan_complete:
  assumes "st \<in> set sts" and "sorted_wrt (<) sts" and "find (\<lambda>e. map ucast (fe_token_ids e) = take k (drop st query)) es = Some e"
    and "occupants e \<noteq> []"
  shows "\<exists>h\<in>fst ` set (occupants e). h \<in> set seen \<or> (\<exists>m\<in>set (scan es k query sts seen). bm_chunk_hash m = h \<and> cur_st m \<le> st)"
  using assms
proof (induction sts arbitrary: seen)
  case (Cons st' sts)
  show ?case
  proof (cases "st = st'")
    case True
    show ?thesis
    proof (cases "find (\<lambda>x. fst x \<notin> set seen) (occupants e)")
      case None
      have "hd (occupants e) \<in> set (occupants e)" using Cons.prems(4) by simp
      with None show ?thesis unfolding find_None_iff by blast
    next
      case (Some x)
      then have x: "fst x \<in> fst ` set (occupants e)" using find_member by force
      have "\<exists>m\<in>set (scan es k query (st' # sts) seen). bm_chunk_hash m = fst x \<and> cur_st m \<le> st"
        using Some True Cons.prems(3) by (cases x) simp
      with x show ?thesis by blast
    qed
  next
    case False
    then have st: "st \<in> set sts" "st' < st" "sorted_wrt (<) sts" using Cons.prems by auto
    show ?thesis
    proof (cases rule: scan_cases [of es k query st' sts seen])
      case skip
      then show ?thesis using Cons.IH [OF st(1,3) Cons.prems(3,4), of seen] by simp
    next
      case (hit e' h off)
      obtain h' where h': "h' \<in> fst ` set (occupants e)"
        "h' \<in> set (h # seen) \<or> (\<exists>m\<in>set (scan es k query sts (h # seen)). bm_chunk_hash m = h' \<and> cur_st m \<le> st)"
        using Cons.IH [OF st(1,3) Cons.prems(3,4), of "h # seen"] by blast
      then have "h' \<in> set seen \<or> (\<exists>m\<in>set (scan es k query (st' # sts) seen). bm_chunk_hash m = h' \<and> cur_st m \<le> st)"
        unfolding hit(5) using st(2) by auto
      with h'(1) show ?thesis by blast
    qed
  qed
qed simp

section \<open>What the index holds\<close>

datatype index_op = Add "uint32 list" pybytes int | Remove "uint32 list" pybytes

primrec index_step :: "blend_index \<Rightarrow> index_op \<Rightarrow> blend_index" where
  "index_step bi (Add toks h off) = bi_add toks h off bi"
| "index_step bi (Remove toks h) = bi_remove toks h bi"

primrec op_content :: "index_op \<Rightarrow> uint32 list" where
  "op_content (Add toks h off) = toks"
| "op_content (Remove toks h) = toks"

text \<open>The contents, chunks and offsets that are indexed, as the operations say.\<close>

type_synonym indexed = "(uint32 list \<times> pybytes \<times> int) set"

definition drop_chunk :: "uint32 list \<Rightarrow> pybytes \<Rightarrow> indexed \<Rightarrow> indexed" where
  "drop_chunk toks h A = {(c, g, off). (c, g, off) \<in> A \<and> \<not> (c = toks \<and> g = h)}"

primrec abs_index_step :: "nat \<Rightarrow> indexed \<Rightarrow> index_op \<Rightarrow> indexed" where
  "abs_index_step k A (Add toks h off) = (if length toks = k then insert (toks, h, off) (drop_chunk toks h A) else A)"
| "abs_index_step k A (Remove toks h) = (if length toks = k then drop_chunk toks h A else A)"

definition bi_facts :: "blend_index \<Rightarrow> indexed" where
  "bi_facts bi = {(c, h, off). \<exists>p e. map_of (fingerprint_table bi) p = Some e \<and> fe_token_ids e = c \<and> (h, off) \<in> set (occupants e)}"

definition contents :: "blend_index \<Rightarrow> uint32 list set" where
  "contents bi = {fe_token_ids e |p e. map_of (fingerprint_table bi) p = Some e}"

lemma factsI: "map_of (fingerprint_table bi) p = Some e \<Longrightarrow> (h, off) \<in> set (occupants e) \<Longrightarrow> (fe_token_ids e, h, off) \<in> bi_facts bi"
  by (auto simp: bi_facts_def)

lemma facts_at:
  assumes inv: "bi_inv bi" and inj: "inj_on (fingerprint (bi_chunk_size bi)) (insert c (contents bi))"
  shows "(c, h, off) \<in> bi_facts bi \<longleftrightarrow>
    (case map_of (fingerprint_table bi) (fingerprint (bi_chunk_size bi) c) of
       None \<Rightarrow> False | Some e \<Rightarrow> (h, off) \<in> set (occupants e))"
    and "map_of (fingerprint_table bi) (fingerprint (bi_chunk_size bi) c) = Some e \<Longrightarrow> fe_token_ids e = c"
proof -
  let ?k = "bi_chunk_size bi" and ?t = "fingerprint_table bi"
  have ok: "map_of ?t p = Some e \<Longrightarrow> p = fingerprint ?k (fe_token_ids e)" for p e
    using inv by (auto simp: bi_inv_def entry_ok_def)
  have content: "fe_token_ids e = c" if "map_of ?t (fingerprint ?k c) = Some e" for e
  proof -
    have "fe_token_ids e \<in> contents bi" using that by (auto simp: contents_def)
    moreover have "fingerprint ?k c = fingerprint ?k (fe_token_ids e)" using ok [OF that] .
    ultimately show ?thesis using inj by (auto simp: inj_on_def)
  qed
  then show "map_of ?t (fingerprint ?k c) = Some e \<Longrightarrow> fe_token_ids e = c" .
  show "(c, h, off) \<in> bi_facts bi \<longleftrightarrow> (case map_of ?t (fingerprint ?k c) of None \<Rightarrow> False | Some e \<Rightarrow> (h, off) \<in> set (occupants e))"
    using content ok by (fastforce simp: bi_facts_def split: option.splits)
qed

lemma facts_update:
  assumes m: "map_of (fingerprint_table bi') = (map_of (fingerprint_table bi))(p := v)"
    and old: "\<And>e. map_of (fingerprint_table bi) p = Some e \<Longrightarrow> fe_token_ids e = toks"
    and new: "\<And>e. v = Some e \<Longrightarrow> fe_token_ids e = toks"
    and only: "\<And>q e. q \<noteq> p \<Longrightarrow> map_of (fingerprint_table bi) q = Some e \<Longrightarrow> fe_token_ids e \<noteq> toks"
  shows "(c, g, po) \<in> bi_facts bi' \<longleftrightarrow>
    (if c = toks then (case v of None \<Rightarrow> False | Some e \<Rightarrow> (g, po) \<in> set (occupants e)) else (c, g, po) \<in> bi_facts bi)"
    and "contents bi' \<subseteq> insert toks (contents bi)"
proof -
  show "contents bi' \<subseteq> insert toks (contents bi)" using m new by (auto simp: contents_def split: if_splits)
  show "(c, g, po) \<in> bi_facts bi' \<longleftrightarrow>
    (if c = toks then (case v of None \<Rightarrow> False | Some e \<Rightarrow> (g, po) \<in> set (occupants e)) else (c, g, po) \<in> bi_facts bi)"
  proof (cases "c = toks")
    case True
    have "(toks, g, po) \<in> bi_facts bi' \<longleftrightarrow> (\<exists>e. v = Some e \<and> (g, po) \<in> set (occupants e))"
    proof
      assume "(toks, g, po) \<in> bi_facts bi'"
      then obtain q e where q: "((map_of (fingerprint_table bi))(p := v)) q = Some e" "fe_token_ids e = toks" "(g, po) \<in> set (occupants e)"
        unfolding bi_facts_def m by blast
      with only [of q e] show "\<exists>e. v = Some e \<and> (g, po) \<in> set (occupants e)" by (cases "q = p") auto
    next
      assume "\<exists>e. v = Some e \<and> (g, po) \<in> set (occupants e)"
      then obtain e where e: "v = Some e" "(g, po) \<in> set (occupants e)" by blast
      then have "map_of (fingerprint_table bi') p = Some e" by (simp add: m)
      from factsI [OF this e(2)] new [OF e(1)] show "(toks, g, po) \<in> bi_facts bi'" by simp
    qed
    with True show ?thesis by (simp split: option.split)
  next
    case False
    have "map_of (fingerprint_table bi') q = Some e \<longleftrightarrow> map_of (fingerprint_table bi) q = Some e" if "fe_token_ids e = c" for q e
      unfolding m using that False old new by (cases "q = p") auto
    then have "(c, g, po) \<in> bi_facts bi' \<longleftrightarrow> (c, g, po) \<in> bi_facts bi" unfolding bi_facts_def by blast
    with False show ?thesis by simp
  qed
qed

lemma bi_add_facts:
  assumes inv: "bi_inv bi" and len: "length (fingerprint_table bi) < 2 ^ 59"
    and inj: "inj_on (fingerprint (bi_chunk_size bi)) (insert toks (contents bi))"
  shows "bi_facts (bi_add toks h off bi) = abs_index_step (bi_chunk_size bi) (bi_facts bi) (Add toks h off)"
    and "contents (bi_add toks h off bi) \<subseteq> insert toks (contents bi)"
proof -
  let ?k = "bi_chunk_size bi" and ?p = "fingerprint (bi_chunk_size bi) toks" and ?t = "fingerprint_table bi"
  note add = bi_add_inv [OF inv len, of toks h off]
  have "bi_facts (bi_add toks h off bi) = abs_index_step ?k (bi_facts bi) (Add toks h off) \<and> contents (bi_add toks h off bi) \<subseteq> insert toks (contents bi)"
  proof (cases "length toks = ?k")
    case True
    define e' where "e' = (case map_of ?t ?p of None \<Rightarrow> \<lparr>fe_token_ids = toks, occupants = [(h, off)]\<rparr>
         | Some e \<Rightarrow> e\<lparr>occupants := attach h off (occupants e)\<rparr>)"
    have m: "map_of (fingerprint_table (bi_add toks h off bi)) = (map_of ?t)(?p := Some e')" using add(5) [OF True] by (simp add: e'_def)
    have occ: "set (occupants e') = insert (h, off) {x. (case map_of ?t ?p of None \<Rightarrow> False | Some e \<Rightarrow> x \<in> set (occupants e)) \<and> fst x \<noteq> h}"
      using inv by (cases "map_of ?t ?p") (auto simp: e'_def attach_set bi_inv_def entry_ok_def)
    have c': "fe_token_ids e' = toks" using facts_at(2) [OF inv inj] by (cases "map_of ?t ?p") (simp_all add: e'_def)
    have only: "fe_token_ids e \<noteq> toks" if "q \<noteq> ?p" "map_of ?t q = Some e" for q e
      using inv that by (auto simp: bi_inv_def entry_ok_def)
    note upd = facts_update [OF m facts_at(2) [OF inv inj] _ only]
    have "(c, g, po) \<in> bi_facts (bi_add toks h off bi) \<longleftrightarrow> (c, g, po) \<in> insert (toks, h, off) (drop_chunk toks h (bi_facts bi))" for c g po
      using upd(1) [where c = c and g = g and po = po] c' facts_at(1) [OF inv inj, of g po] by (cases "c = toks") (auto simp: occ drop_chunk_def)
    then show ?thesis using True upd(2) c' by auto
  qed (use add(6) in auto)
  then show "bi_facts (bi_add toks h off bi) = abs_index_step ?k (bi_facts bi) (Add toks h off)"
    "contents (bi_add toks h off bi) \<subseteq> insert toks (contents bi)" by blast+
qed

lemma bi_remove_facts:
  assumes inv: "bi_inv bi" and len: "length (fingerprint_table bi) \<le> 2 ^ 59"
    and inj: "inj_on (fingerprint (bi_chunk_size bi)) (insert toks (contents bi))"
  shows "bi_facts (bi_remove toks h bi) = abs_index_step (bi_chunk_size bi) (bi_facts bi) (Remove toks h)"
    and "contents (bi_remove toks h bi) \<subseteq> insert toks (contents bi)"
proof -
  let ?k = "bi_chunk_size bi" and ?p = "fingerprint (bi_chunk_size bi) toks" and ?t = "fingerprint_table bi"
  note rem = bi_remove_inv [OF inv len, of toks h]
  have "bi_facts (bi_remove toks h bi) = abs_index_step ?k (bi_facts bi) (Remove toks h) \<and> contents (bi_remove toks h bi) \<subseteq> insert toks (contents bi)"
  proof (cases "length toks = ?k")
    case True
    define v where "v = (case map_of ?t ?p of None \<Rightarrow> None | Some e \<Rightarrow> let occ = filter (\<lambda>x. fst x \<noteq> h) (occupants e) in
         if occ \<noteq> [] then Some (e\<lparr>occupants := occ\<rparr>) else None)"
    have m: "map_of (fingerprint_table (bi_remove toks h bi)) = (map_of ?t)(?p := v)" using rem(5) [OF True] by (simp add: v_def)
    have v: "(case v of None \<Rightarrow> False | Some e \<Rightarrow> x \<in> set (occupants e)) \<longleftrightarrow>
        (case map_of ?t ?p of None \<Rightarrow> False | Some e \<Rightarrow> x \<in> set (occupants e)) \<and> fst x \<noteq> h" for x
      by (cases "map_of ?t ?p") (auto simp: v_def Let_def filter_empty_conv split: if_splits)
    have c': "fe_token_ids e = toks" if "v = Some e" for e
      using that facts_at(2) [OF inv inj] by (auto simp: v_def Let_def split: option.splits if_splits)
    have only: "fe_token_ids e \<noteq> toks" if "q \<noteq> ?p" "map_of ?t q = Some e" for q e
      using inv that by (auto simp: bi_inv_def entry_ok_def)
    note upd = facts_update [OF m facts_at(2) [OF inv inj] c' only]
    have "(c, g, po) \<in> bi_facts (bi_remove toks h bi) \<longleftrightarrow> (c, g, po) \<in> drop_chunk toks h (bi_facts bi)" for c g po
      using upd(1) [where c = c and g = g and po = po] facts_at(1) [OF inv inj, of g po] v [of "(g, po)"] by (cases "c = toks") (auto simp: drop_chunk_def)
    then show ?thesis using True upd(2) by auto
  qed (use rem(6) in auto)
  then show "bi_facts (bi_remove toks h bi) = abs_index_step ?k (bi_facts bi) (Remove toks h)"
    "contents (bi_remove toks h bi) \<subseteq> insert toks (contents bi)" by blast+
qed

definition index_run :: "index_op list \<Rightarrow> blend_index \<Rightarrow> blend_index" where
  "index_run ops bi = foldl index_step bi ops"

lemma new_index_ok:
  assumes new: "new_blend_index cs ps = Inr bi"
  shows "bi_inv bi" and "bi_chunk_size bi = nat cs" and "bi_probe_stride bi = nat ps" and "fingerprint_table bi = []"
proof -
  have "1 \<le> cs" "1 \<le> ps" and bi: "bi = \<lparr>bi_chunk_size = nat cs, bi_probe_stride = nat ps, fingerprint_table = [],
      slots = replicate MIN_TABLE_SIZE False, slot_mask = of_nat (MIN_TABLE_SIZE - 1), bits_set = 0\<rparr>"
    using new by (auto simp: new_blend_index_def empty_blend_index_def split: if_splits)
  then show "bi_chunk_size bi = nat cs" "bi_probe_stride bi = nat ps" "fingerprint_table bi = []" by simp_all
  show "bi_inv bi" using \<open>1 \<le> cs\<close> \<open>1 \<le> ps\<close>
    by (auto simp: bi bi_inv_def slots_ok_def MIN_TABLE_SIZE_def le_nat_iff intro: exI [of _ 10])
qed

lemma index_step_ok:
  assumes inv: "bi_inv bi" and k: "bi_chunk_size bi = k" and lt: "length (fingerprint_table bi) < 2 ^ 59"
    and inj: "inj_on (fingerprint k) C" and sub: "contents bi \<subseteq> C" and x: "length (op_content x) = k \<Longrightarrow> op_content x \<in> C"
  shows "bi_inv (index_step bi x)" and "bi_chunk_size (index_step bi x) = k"
    and "bi_probe_stride (index_step bi x) = bi_probe_stride bi"
    and "length (fingerprint_table (index_step bi x)) \<le> Suc (length (fingerprint_table bi))"
    and "contents (index_step bi x) \<subseteq> C" and "bi_facts (index_step bi x) = abs_index_step k (bi_facts bi) x"
proof -
  let ?b = "index_step bi x"
  have frame: "bi_inv ?b \<and> bi_chunk_size ?b = k \<and> bi_probe_stride ?b = bi_probe_stride bi \<and>
      length (fingerprint_table ?b) \<le> Suc (length (fingerprint_table bi))"
    using bi_add_inv(1-4) [OF inv lt] bi_remove_inv(1-4) [OF inv less_imp_le [OF lt]] k
    by (cases x) (auto intro: le_SucI)
  have "contents ?b \<subseteq> C \<and> bi_facts ?b = abs_index_step k (bi_facts bi) x"
  proof (cases "length (op_content x) = k")
    case True
    then have in_C: "insert (op_content x) (contents bi) \<subseteq> C" using sub x by simp
    have inj': "inj_on (fingerprint (bi_chunk_size bi)) (insert (op_content x) (contents bi))"
      unfolding k by (rule inj_on_subset [OF inj in_C])
    have "contents ?b \<subseteq> insert (op_content x) (contents bi)" and "bi_facts ?b = abs_index_step k (bi_facts bi) x"
      using bi_add_facts [OF inv lt] bi_remove_facts [OF inv less_imp_le [OF lt]] inj' k
      by (cases x; simp del: inj_on_insert abs_index_step.simps)+
    with in_C show ?thesis by blast
  next
    case False
    then have "?b = bi" and "abs_index_step k (bi_facts bi) x = bi_facts bi"
      using k by (cases x; simp add: bi_add_def bi_remove_def)+
    then show ?thesis using sub by simp
  qed
  with frame show "bi_inv ?b" "bi_chunk_size ?b = k" "bi_probe_stride ?b = bi_probe_stride bi"
    "length (fingerprint_table ?b) \<le> Suc (length (fingerprint_table bi))"
    "contents ?b \<subseteq> C" "bi_facts ?b = abs_index_step k (bi_facts bi) x" by blast+
qed

lemma index_run_ok:
  assumes new: "new_blend_index cs ps = Inr bi" and len: "length ops \<le> 2 ^ 59"
    and inj: "inj_on (fingerprint (nat cs)) {c \<in> op_content ` set ops. length c = nat cs}"
  shows "bi_inv (index_run ops bi) \<and> bi_chunk_size (index_run ops bi) = nat cs \<and> bi_probe_stride (index_run ops bi) = nat ps \<and>
    bi_facts (index_run ops bi) = foldl (abs_index_step (nat cs)) {} ops"
proof -
  note init = new_index_ok [OF new]
  have "bi_inv (index_run ops bi) \<and> bi_chunk_size (index_run ops bi) = nat cs \<and> bi_probe_stride (index_run ops bi) = nat ps \<and>
      length (fingerprint_table (index_run ops bi)) \<le> length ops \<and> contents (index_run ops bi) \<subseteq> {c \<in> op_content ` set ops. length c = nat cs} \<and>
      bi_facts (index_run ops bi) = foldl (abs_index_step (nat cs)) {} ops"
    using len inj
  proof (induction ops rule: rev_induct)
    case Nil
    show ?case using init by (simp add: index_run_def bi_facts_def contents_def)
  next
    case (snoc x ops)
    let ?b = "index_run ops bi" and ?S = "{c \<in> op_content ` set (ops @ [x]). length c = nat cs}"
    have sub: "inj_on (fingerprint (nat cs)) {c \<in> op_content ` set ops. length c = nat cs}"
      using snoc.prems(2) by (rule inj_on_subset) auto
    have IH: "bi_inv ?b" "bi_chunk_size ?b = nat cs" "bi_probe_stride ?b = nat ps" "length (fingerprint_table ?b) \<le> length ops"
      "contents ?b \<subseteq> ?S" "bi_facts ?b = foldl (abs_index_step (nat cs)) {} ops"
      using snoc.IH sub snoc.prems(1) by auto
    have lt: "length (fingerprint_table ?b) < 2 ^ 59" using IH(4) snoc.prems(1) by simp
    have step: "index_run (ops @ [x]) bi = index_step ?b x" by (simp add: index_run_def)
    have "length (op_content x) = nat cs \<Longrightarrow> op_content x \<in> ?S" by simp
    note x = index_step_ok [OF IH(1,2) lt snoc.prems(2) IH(5) this]
    show ?case using x IH(3,4,6) unfolding step by simp
  qed
  then show ?thesis by blast
qed

lemma bi_match_facts:
  fixes query :: "uint64 list"
  assumes inv: "bi_inv bi"
  defines "k \<equiv> bi_chunk_size bi" and "s \<equiv> bi_probe_stride bi" and "A \<equiv> bi_facts bi" and "ms \<equiv> bi_match query bi"
  shows "m \<in> set ms \<Longrightarrow> cur_st m mod s = 0 \<and> cur_st m + k \<le> length query \<and>
      (\<exists>c. (c, bm_chunk_hash m, old_st m) \<in> A \<and> map ucast c = take k (drop (cur_st m) query))"
    and "distinct (map bm_chunk_hash ms)" and "sorted_wrt (<) (map cur_st ms)"
    and "(c, h, off) \<in> A \<Longrightarrow> st mod s = 0 \<Longrightarrow> st + k \<le> length query \<Longrightarrow> map ucast c = take k (drop st query) \<Longrightarrow>
      \<exists>m\<in>set ms. cur_st m \<le> st \<and> (\<exists>off'. (c, bm_chunk_hash m, off') \<in> A)"
proof -
  have k: "1 \<le> k" and s: "0 < s" using inv by (auto simp: bi_inv_def k_def s_def)
  let ?es = "map snd (fingerprint_table bi)" and ?sts = "probe_starts (length query) k s"
  have short: "ms = []" if "\<not> k \<le> length query" using that by (simp add: ms_def bi_match_def k_def)
  have ms: "ms = scan ?es k query ?sts []" if "k \<le> length query" using match_scan [OF inv] that by (simp add: ms_def k_def s_def)
  have sts: "st \<in> set ?sts \<longleftrightarrow> st mod s = 0 \<and> st + k \<le> length query" if "k \<le> length query" for st
    by (rule probe_starts_mem [OF s that])
  have sorted: "sorted_wrt (<) ?sts" by (rule probe_starts_sorted [OF s])
  show "distinct (map bm_chunk_hash ms)" "sorted_wrt (<) (map cur_st ms)"
    using short ms scan_distinct [OF sorted] by (cases "k \<le> length query"; simp)+
  have mem: "e \<in> set ?es \<longleftrightarrow> (\<exists>p. map_of (fingerprint_table bi) p = Some e)" for e
    using inv by (force simp: bi_inv_def dict_wf_map_of_eq)
  show "cur_st m mod s = 0 \<and> cur_st m + k \<le> length query \<and>
      (\<exists>c. (c, bm_chunk_hash m, old_st m) \<in> A \<and> map ucast c = take k (drop (cur_st m) query))" if m: "m \<in> set ms"
  proof -
    have len: "k \<le> length query" using m short by force
    obtain e where e: "e \<in> set ?es" "map ucast (fe_token_ids e) = take k (drop (cur_st m) query)"
      "(bm_chunk_hash m, old_st m) \<in> set (occupants e)" and st: "cur_st m \<in> set ?sts"
      using scan_sound [OF m [unfolded ms [OF len]]] by blast
    obtain p where p: "map_of (fingerprint_table bi) p = Some e" using e(1) unfolding mem by blast
    have "(fe_token_ids e, bm_chunk_hash m, old_st m) \<in> A" using factsI [OF p e(3)] by (simp add: A_def)
    with e(2) st show ?thesis unfolding sts [OF len] by blast
  qed
  show "\<exists>m\<in>set ms. cur_st m \<le> st \<and> (\<exists>off'. (c, bm_chunk_hash m, off') \<in> A)"
    if c: "(c, h, off) \<in> A" and st: "st mod s = 0" "st + k \<le> length query" and w: "map ucast c = take k (drop st query)"
  proof -
    have len: "k \<le> length query" using st(2) by simp
    obtain p e where e: "map_of (fingerprint_table bi) p = Some e" "fe_token_ids e = c"
      using c by (auto simp: A_def bi_facts_def)
    have ok: "entry_ok k p e" using inv e(1) by (simp add: bi_inv_def k_def)
    have "p = poly_hash POLY_BASE (map ucast c)" using ok fingerprint_poly [OF _ k, of c] e(2) by (simp add: entry_ok_def)
    then have "find (\<lambda>e. map ucast (fe_token_ids e) = take k (drop st query)) ?es = Some e"
      using find_entry [OF inv, of "take k (drop st query)"] e st(2) w by (simp add: k_def)
    from scan_complete [OF _ sorted this, of "[]"] ok st obtain m where
      m: "m \<in> set ms" "cur_st m \<le> st" "bm_chunk_hash m \<in> fst ` set (occupants e)"
      unfolding ms [OF len] sts [OF len] entry_ok_def by auto
    then obtain off' where "(bm_chunk_hash m, off') \<in> set (occupants e)" by auto
    from factsI [OF e(1) this] m(1,2) show ?thesis by (auto simp: e(2) A_def)
  qed
qed

section \<open>Properties\<close>

text \<open>
  C35. The rolling window hash, which updates one hash along the array in 64-bit wrap-around
  arithmetic, computes for every window the polynomial hash that evaluates the window from
  scratch, and at the window starts of the non-overlapping chunks it agrees with the chunk hash
  that the index stores.
\<close>

theorem rolling_hash_equals_direct:
  assumes "1 \<le> k" and "k \<le> length arr"
  shows "rolling_hash_windows arr k base = map (\<lambda>j. poly_hash base (take k (drop j arr))) [0..<length arr - k + 1] \<and>
    (\<forall>w < length arr div k. chunk_hash_windows arr k base ! w = rolling_hash_windows arr k base ! (w * k))"
proof -
  have "chunk_hash_windows arr k base ! w = rolling_hash_windows arr k base ! (w * k)" if "w < length arr div k" for w
  proof -
    have "w * k + k \<le> length arr"
      using that assms(1) by (metis Suc_leI add.commute div_times_less_eq_dividend le_trans mult_Suc mult_le_mono1)
    moreover from this have "w * k < length arr - k + 1" by linarith
    ultimately show ?thesis
      using that window_hash_poly [of "w * k" k arr base] by (simp add: chunk_hash_windows_def rolling_is_poly [OF assms] nth_upt del: upt_Suc)
  qed
  then show ?thesis using rolling_is_poly [OF assms, of base] by blast
qed

theorem rolling_hash_equals_direct_witness:
  "rolling_hash_windows [5, 6, 7] 2 3 = [5 * 3 + 6, 6 * 3 + 7]"
  using rolling_hash_equals_direct [of 2 "[5, 6, 7]" 3] by (simp add: poly_hash_def upt_rec)

text \<open>
  C13. Fragment lookup is sound and complete. After any sequence of \<open>add\<close> and \<open>remove\<close> calls on a new
  index whose contents have different fingerprints, every match names a chunk that is indexed
  with the content of that window of the query and at the offset it was indexed with; no chunk is
  matched twice and the positions increase; and a window at a probed position whose content is
  indexed has a chunk of that content matched at that position or before. The filter, its
  rebuilds and the stale bits never hide a chunk.
\<close>

theorem blend_match_exact:
  fixes query :: "uint64 list"
  assumes new: "new_blend_index cs ps = Inr bi" and len: "length ops \<le> 2 ^ 59"
    and inj: "inj_on (fingerprint (nat cs)) {c \<in> op_content ` set ops. length c = nat cs}"
  defines "A \<equiv> foldl (abs_index_step (nat cs)) {} ops" and "ms \<equiv> bi_match query (index_run ops bi)"
  shows "(\<forall>m\<in>set ms. cur_st m mod nat ps = 0 \<and> cur_st m + nat cs \<le> length query \<and>
      (\<exists>c. (c, bm_chunk_hash m, old_st m) \<in> A \<and> map ucast c = take (nat cs) (drop (cur_st m) query))) \<and>
    distinct (map bm_chunk_hash ms) \<and> sorted_wrt (<) (map cur_st ms) \<and>
    (\<forall>c h off st. (c, h, off) \<in> A \<and> st mod nat ps = 0 \<and> st + nat cs \<le> length query \<and> map ucast c = take (nat cs) (drop st query) \<longrightarrow>
      (\<exists>m\<in>set ms. cur_st m \<le> st \<and> (\<exists>off'. (c, bm_chunk_hash m, off') \<in> A)))"
proof -
  let ?b = "index_run ops bi"
  have run: "bi_inv ?b" "bi_chunk_size ?b = nat cs" "bi_probe_stride ?b = nat ps" "bi_facts ?b = A"
    using index_run_ok [OF new len inj] by (auto simp: A_def)
  note match = bi_match_facts [OF run(1), where query = query, folded ms_def, unfolded run(2-4)]
  show ?thesis by (intro conjI ballI allI impI match; (elim conjE)?) (use match in auto)
qed

definition demo_ops :: "index_op list" where
  "demo_ops = [Add [1, 2] [10] 0, Add [3, 4] [11] 2, Remove [3, 4] [11]]"

theorem blend_match_exact_witness:
  "\<exists>bi m. new_blend_index 2 1 = Inr bi \<and> m \<in> set (bi_match [9, 1, 2] (index_run demo_ops bi)) \<and> bm_chunk_hash m = [10] \<and> cur_st m \<le> 1"
proof -
  obtain bi where bi: "new_blend_index 2 1 = Inr bi" by (simp add: new_blend_index_def)
  have prints: "fingerprint 2 [1, 2] = POLY_BASE + 2" "fingerprint 2 [3, 4] = 3 * POLY_BASE + 4"
    by (simp_all add: fingerprint_poly poly_hash_def)
  have contents: "{c \<in> op_content ` set demo_ops. length c = nat 2} = {[1, 2], [3, 4]}" by (auto simp: demo_ops_def)
  have inj: "inj_on (fingerprint (nat 2)) {c \<in> op_content ` set demo_ops. length c = nat 2}"
    unfolding contents by (simp add: prints POLY_BASE_def)
  have A: "foldl (abs_index_step (nat 2)) {} demo_ops = {([1, 2], [10], 0)}"
    by (auto simp: demo_ops_def drop_chunk_def)
  have len: "length demo_ops \<le> 2 ^ 59" by (simp add: demo_ops_def)
  note complete = conjunct2 [OF conjunct2 [OF conjunct2 [OF blend_match_exact [OF bi len inj, of "[9, 1, 2]"]]]]
  have "\<exists>m\<in>set (bi_match [9, 1, 2] (index_run demo_ops bi)). cur_st m \<le> 1 \<and>
      (\<exists>off'. ([1, 2], bm_chunk_hash m, off') \<in> foldl (abs_index_step (nat 2)) {} demo_ops)"
    by (rule complete [rule_format, of "[1, 2]" "[10]" 0 1]) (simp add: A [simplified])
  with bi show ?thesis unfolding A by auto
qed

section \<open>Colliding contents\<close>

text \<open>
  The fingerprint is a fixed polynomial, and short contents with one fingerprint are easy to
  compute. \<open>add\<close> attaches a chunk to the entry of its fingerprint without comparing the contents,
  so that a query window which holds the content of the first chunk is answered with a chunk of
  another content.
\<close>

definition other_content :: "uint32 list" where
  "other_content = [559805, 1966853, 1137922]"

lemma other_length: "length other_content = 3"
  by (simp add: other_content_def)

lemma fingerprints_collide: "fingerprint 3 other_content = fingerprint 3 [0, 0, 0]"
  by (simp add: fingerprint_poly other_content_def poly_hash_def POLY_BASE_def)

lemma wrong_content_matched:
  assumes "new_blend_index 3 1 = Inr bi"
  shows "bi_match [0, 0, 0] (index_run [Add [0, 0, 0] [1] 0, Add other_content [2] 0, Remove [0, 0, 0] [1]] bi) =
    [\<lparr>bm_chunk_hash = [2], old_st = 0, cur_st = 0\<rparr>]"
proof -
  let ?p = "fingerprint 3 [0, 0, 0]"
  note init = new_index_ok [OF assms]
  have small: "n < 3 \<Longrightarrow> n < (2 :: nat) ^ 59" for n by (rule less_le_trans [of n 3]) simp_all
  let ?b1 = "bi_add [0, 0, 0] [1] 0 bi"
  have l0: "length (fingerprint_table bi) < 2 ^ 59" by (rule small) (simp add: init(4))
  note b1 = bi_add_inv [OF init(1) l0, of "[0, 0, 0]" "[1]" 0]
  let ?b2 = "bi_add other_content [2] 0 ?b1"
  have l1: "length (fingerprint_table ?b1) < 2 ^ 59" by (rule small) (use b1(2) in \<open>simp add: init(4)\<close>)
  note b2 = bi_add_inv [OF b1(1) l1, of other_content "[2]" 0]
  let ?b3 = "bi_remove [0, 0, 0] [1] ?b2"
  have l2: "length (fingerprint_table ?b2) < 2 ^ 59" by (rule small) (use b1(2) b2(2) in \<open>simp add: init(4)\<close>)
  note b3 = bi_remove_inv [OF b2(1) less_imp_le [OF l2], of "[0, 0, 0]" "[1]"]
  have k: "bi_chunk_size bi = 3" "bi_probe_stride bi = 1" using init by simp_all
  have "map_of (fingerprint_table ?b1) ?p = Some \<lparr>fe_token_ids = [0, 0, 0], occupants = [([1], 0)]\<rparr>"
    using b1(5) by (simp add: k init(4))
  then have "map_of (fingerprint_table ?b2) ?p = Some \<lparr>fe_token_ids = [0, 0, 0], occupants = [([1], 0), ([2], 0)]\<rparr>"
    using b2(5) b1(3) by (simp add: k fingerprints_collide other_length)
  then have t: "map_of (fingerprint_table ?b3) ?p = Some \<lparr>fe_token_ids = [0, 0, 0], occupants = [([2], 0)]\<rparr>"
    using b3(5) b2(3) b1(3) by (simp add: k Let_def)
  have size: "bi_chunk_size ?b3 = 3" "bi_probe_stride ?b3 = 1" using b3(3,4) b2(3,4) b1(3,4) k by simp_all
  have "find (\<lambda>e. map ucast (fe_token_ids e) = [0, 0, 0 :: uint64]) (map snd (fingerprint_table ?b3)) =
      Some \<lparr>fe_token_ids = [0, 0, 0], occupants = [([2], 0)]\<rparr>"
    using find_entry [OF b3(1), of "[0, 0, 0]"] t fingerprint_poly [of "[0, 0, 0]" 3] by (simp add: size)
  then have "bi_match [0, 0, 0] ?b3 = [\<lparr>bm_chunk_hash = [2], old_st = 0, cur_st = 0\<rparr>]"
    using match_scan [OF b3(1), of "[0, 0, 0]"] by (simp add: size probe_starts_def)
  then show ?thesis by (simp add: index_run_def)
qed

end
