(* ===== verification/Key_Directory.thy ===== *)
theory Key_Directory
  imports Event_Gate Blend_Index "HOL-Library.List_Lexorder" "HOL-Library.Char_ord" "HOL-Library.Product_Lexorder"
begin

text \<open>
  \<^verbatim>\<open>lmcache/v1/mp_coordinator/views/key_directory.py\<close>: the fleet-wide \<open>KeyDirectory\<close>, a consumer
  of the gate, with the blend index that it keeps in step with the token bindings.

  A Python \<open>set\<close> of keys is a list without duplicates, iterated in list order; what the
  operations compute does not depend on that order (the properties say what it is without
  it). NumPy is a parameter: \<open>np.asarray(_, uint32)\<close>, which may raise, and the little-endian
  bytes of an array.
\<close>

section \<open>NumPy\<close>

record numpy_ops =
  as_uint32 :: "int list \<Rightarrow> uint32 list option"
  to_le_bytes :: "uint32 list \<Rightarrow> pybytes"
  from_le_bytes :: "pybytes \<Rightarrow> uint32 list"

text \<open>
  An array that \<open>asarray\<close> built is read back from its bytes, and so is the empty array.
\<close>

definition numpy_spec :: "numpy_ops \<Rightarrow> bool" where
  "numpy_spec np \<longleftrightarrow> from_le_bytes np (to_le_bytes np []) = [] \<and>
     (\<forall>xs ys. as_uint32 np xs = Some ys \<longrightarrow> from_le_bytes np (to_le_bytes np ys) = ys)"

section \<open>State\<close>

record placement =
  pl_instance_id :: string
  pl_incarnation :: int
  pl_tier :: tier
  pl_backend :: string
  pl_size_bytes :: int
  pl_shared :: bool

record key_record =
  placements :: "placement list"
  last_access :: pyfloat

record token_binding =
  tb_token_ids :: "uint32 list"
  tb_token_offset :: int
  tb_keys :: "object_key list"

record key_directory =
  directory :: "(object_key, key_record) pydict"
  l1_keys_by_instance :: "(string, object_key list) pydict"
  token_bindings :: "(pybytes, token_binding) pydict"
  kd_blend_index :: blend_index
  blend_lookup_enabled :: bool

definition kd_init :: key_directory where
  "kd_init =
     \<lparr>directory = [], l1_keys_by_instance = [], token_bindings = [],
      kd_blend_index = empty_blend_index 256 1, blend_lookup_enabled = False\<rparr>"

definition enable_blend_lookup :: "int \<Rightarrow> int \<Rightarrow> key_directory \<Rightarrow> key_directory result" where
  "enable_blend_lookup chunk_size probe_stride d =
     (case new_blend_index chunk_size probe_stride of
        Inl err \<Rightarrow> Inl err
      | Inr bi \<Rightarrow> Inr (d\<lparr>kd_blend_index := bi, blend_lookup_enabled := True\<rparr>))"

text \<open>The part of the configuration that the directory reads: chunk size and probe stride, if blend lookup is enabled.\<close>

type_synonym blend_config = "(int \<times> int) option"

definition kd_from_config :: "blend_config \<Rightarrow> key_directory result" where
  "kd_from_config cfg = (case cfg of None \<Rightarrow> Inr kd_init | Some (chunk_size, probe_stride) \<Rightarrow> enable_blend_lookup chunk_size probe_stride kd_init)"

definition blend_add :: "uint32 list \<Rightarrow> pybytes \<Rightarrow> int \<Rightarrow> key_directory \<Rightarrow> key_directory" where
  "blend_add toks h off d = d\<lparr>kd_blend_index := bi_add toks h off (kd_blend_index d)\<rparr>"

definition blend_remove :: "uint32 list \<Rightarrow> pybytes \<Rightarrow> key_directory \<Rightarrow> key_directory" where
  "blend_remove toks h d = d\<lparr>kd_blend_index := bi_remove toks h (kd_blend_index d)\<rparr>"

section \<open>Token bindings\<close>

definition add_token_binding :: "object_key \<Rightarrow> key_directory \<Rightarrow> key_directory" where
  "add_token_binding key d =
     (let h = chunk_hash key
      in case dict_get (token_bindings d) h of
           None \<Rightarrow>
             d\<lparr>token_bindings := dict_set h \<lparr>tb_token_ids = [], tb_token_offset = UNKNOWN_TOKEN_OFFSET, tb_keys = [key]\<rparr>
                 (token_bindings d)\<rparr>
         | Some tb \<Rightarrow> d\<lparr>token_bindings := dict_set h (tb\<lparr>tb_keys := List.insert key (tb_keys tb)\<rparr>) (token_bindings d)\<rparr>)"

definition remove_token_binding :: "object_key \<Rightarrow> key_directory \<Rightarrow> key_directory" where
  "remove_token_binding key d =
     (let h = chunk_hash key
      in case dict_get (token_bindings d) h of
           None \<Rightarrow> d
         | Some tb \<Rightarrow>
             let keys = removeAll key (tb_keys tb)
             in if keys = []
                then let d1 = d\<lparr>token_bindings := dict_del h (token_bindings d)\<rparr>
                     in if blend_lookup_enabled d \<and> tb_token_ids tb \<noteq> [] then blend_remove (tb_token_ids tb) h d1 else d1
                else d\<lparr>token_bindings := dict_set h (tb\<lparr>tb_keys := keys\<rparr>) (token_bindings d)\<rparr>)"

text \<open>
  \<open>_create_token_binding\<close> reads \<open>_token_bindings[chunk_hash]\<close>, which the caller has just made
  sure is there; the branch for a missing binding is not reached (lemma \<open>stored_binding\<close>).
\<close>

definition create_token_binding :: "numpy_ops \<Rightarrow> pybytes \<Rightarrow> event_entry \<Rightarrow> key_directory \<Rightarrow> key_directory" where
  "create_token_binding np h e d =
     (case as_uint32 np (token_ids e) of
        None \<Rightarrow> d
      | Some ids \<Rightarrow>
          (case dict_get (token_bindings d) h of
             None \<Rightarrow> d
           | Some tb \<Rightarrow>
               let d1 = (if blend_lookup_enabled d \<and> tb_token_ids tb \<noteq> [] \<and> tb_token_ids tb \<noteq> ids
                         then blend_remove (tb_token_ids tb) h d else d);
                   d2 = d1\<lparr>token_bindings := dict_set h (tb\<lparr>tb_token_ids := ids, tb_token_offset := token_offset e\<rparr>) (token_bindings d1)\<rparr>
               in if \<not> blend_lookup_enabled d then d2
                  else if token_offset e = UNKNOWN_TOKEN_OFFSET then d2
                  else blend_add ids h (token_offset e) d2))"

section \<open>Placements\<close>

definition same_placement :: "event_batch \<Rightarrow> placement \<Rightarrow> bool" where
  "same_placement b p \<longleftrightarrow> pl_shared p = shared b \<and> (shared b \<or> pl_instance_id p = instance_id b) \<and>
     pl_tier p = batch_tier b \<and> pl_backend p = backend b"

fun find_placement :: "placement list \<Rightarrow> event_batch \<Rightarrow> nat option" where
  "find_placement [] b = None"
| "find_placement (p # ps) b = (if same_placement b p then Some 0 else map_option Suc (find_placement ps b))"

definition new_placement :: "event_batch \<Rightarrow> event_entry \<Rightarrow> placement" where
  "new_placement b e =
     \<lparr>pl_instance_id = instance_id b, pl_incarnation = incarnation b, pl_tier = batch_tier b,
      pl_backend = backend b, pl_size_bytes = size_bytes e, pl_shared = shared b\<rparr>"

definition list_pop :: "nat \<Rightarrow> 'a list \<Rightarrow> 'a list" where
  "list_pop n xs = take n xs @ drop (Suc n) xs"

definition l1_keys_add :: "string \<Rightarrow> object_key \<Rightarrow> key_directory \<Rightarrow> key_directory" where
  "l1_keys_add i key d =
     d\<lparr>l1_keys_by_instance := dict_set i (List.insert key (dict_get_default (l1_keys_by_instance d) i [])) (l1_keys_by_instance d)\<rparr>"

definition l1_keys_discard :: "string \<Rightarrow> object_key \<Rightarrow> key_directory \<Rightarrow> key_directory" where
  "l1_keys_discard i key d =
     d\<lparr>l1_keys_by_instance := dict_set i (removeAll key (dict_get_default (l1_keys_by_instance d) i [])) (l1_keys_by_instance d)\<rparr>"

definition apply_store :: "numpy_ops \<Rightarrow> event_batch \<Rightarrow> event_entry \<Rightarrow> key_directory \<Rightarrow> key_directory" where
  "apply_store np b e d =
     (let key = ee_key e;
          d1 = (if dict_get (directory d) key = None
                then add_token_binding key (d\<lparr>directory := dict_set key \<lparr>placements = [], last_access = 0\<rparr> (directory d)\<rparr>)
                else d);
          r = (case dict_get (directory d1) key of None \<Rightarrow> \<lparr>placements = [], last_access = 0\<rparr> | Some r \<Rightarrow> r);
          p = new_placement b e;
          ps = (case find_placement (placements r) b of None \<Rightarrow> placements r @ [p] | Some n \<Rightarrow> (placements r)[n := p]);
          d2 = (if token_ids e \<noteq> [] then create_token_binding np (chunk_hash key) e d1 else d1);
          d3 = d2\<lparr>directory := dict_set key \<lparr>placements = ps, last_access = max (last_access r) (ts b)\<rparr> (directory d2)\<rparr>
      in if batch_tier b = L1 then l1_keys_add (instance_id b) key d3 else d3)"

definition apply_delete :: "event_batch \<Rightarrow> event_entry \<Rightarrow> key_directory \<Rightarrow> key_directory" where
  "apply_delete b e d =
     (let key = ee_key e
      in case dict_get (directory d) key of
           None \<Rightarrow> d
         | Some r \<Rightarrow>
             let ps = (case find_placement (placements r) b of None \<Rightarrow> placements r | Some n \<Rightarrow> list_pop n (placements r));
                 d1 = (if ps = [] then remove_token_binding key (d\<lparr>directory := dict_del key (directory d)\<rparr>)
                       else d\<lparr>directory := dict_set key (r\<lparr>placements := ps\<rparr>) (directory d)\<rparr>)
             in if batch_tier b = L1 \<and> \<not> list_ex (\<lambda>p. pl_tier p = L1 \<and> pl_instance_id p = instance_id b) ps
                then l1_keys_discard (instance_id b) key d1 else d1)"

definition apply_access :: "event_batch \<Rightarrow> event_entry \<Rightarrow> key_directory \<Rightarrow> key_directory" where
  "apply_access b e d =
     (case dict_get (directory d) (ee_key e) of
        None \<Rightarrow> d
      | Some r \<Rightarrow> d\<lparr>directory := dict_set (ee_key e) (r\<lparr>last_access := max (last_access r) (ts b)\<rparr>) (directory d)\<rparr>)"

definition apply_entry :: "numpy_ops \<Rightarrow> event_batch \<Rightarrow> key_directory \<Rightarrow> event_entry \<Rightarrow> key_directory" where
  "apply_entry np b d e =
     (case event_type b of
        STORE \<Rightarrow> apply_store np b e d
      | DELETE \<Rightarrow> apply_delete b e d
      | ACCESS \<Rightarrow> apply_access b e d
      | CONFIG \<Rightarrow> d)"

definition kd_consume :: "numpy_ops \<Rightarrow> event_batch \<Rightarrow> key_directory \<Rightarrow> key_directory" where
  "kd_consume np b d =
     (let i = instance_id b;
          d1 = (case dict_get (l1_keys_by_instance d) i of
                  None \<Rightarrow> d\<lparr>l1_keys_by_instance := dict_set i [] (l1_keys_by_instance d)\<rparr>
                | Some _ \<Rightarrow> d)
      in foldl (apply_entry np b) d1 (entries b))"

section \<open>Fencing\<close>

definition drop_key_l1 :: "string \<Rightarrow> key_directory \<times> nat \<Rightarrow> object_key \<Rightarrow> key_directory \<times> nat" where
  "drop_key_l1 i dn key =
     (let (d, removed) = dn
      in case dict_get (directory d) key of
           None \<Rightarrow> dn
         | Some r \<Rightarrow>
             let kept = filter (\<lambda>p. pl_tier p \<noteq> L1 \<or> pl_instance_id p \<noteq> i) (placements r)
             in (if kept \<noteq> [] then d\<lparr>directory := dict_set key (r\<lparr>placements := kept\<rparr>) (directory d)\<rparr>
                 else remove_token_binding key (d\<lparr>directory := dict_del key (directory d)\<rparr>),
                 removed + (length (placements r) - length kept)))"

definition drop_l1_placements :: "string \<Rightarrow> key_directory \<Rightarrow> key_directory \<times> nat" where
  "drop_l1_placements i d =
     (case dict_get (l1_keys_by_instance d) i of
        None \<Rightarrow> (d, 0)
      | Some l1_keys \<Rightarrow>
          let (d', removed) = foldl (drop_key_l1 i) (d, 0) l1_keys
          in (d'\<lparr>l1_keys_by_instance := dict_set i [] (l1_keys_by_instance d')\<rparr>, removed))"

definition kd_fence :: "string \<Rightarrow> key_directory \<Rightarrow> key_directory" where
  "kd_fence i d =
     (let (d', removed) = drop_l1_placements i d
      in d'\<lparr>l1_keys_by_instance := dict_del i (l1_keys_by_instance d')\<rparr>)"

definition kd_consumer :: "numpy_ops \<Rightarrow> key_directory consumer" where
  "kd_consumer np = \<lparr>on_consume = kd_consume np, on_fence = kd_fence\<rparr>"

section \<open>Reads\<close>

definition lookup :: "object_key list \<Rightarrow> key_directory \<Rightarrow> placement list list" where
  "lookup keys d =
     map (\<lambda>key. case dict_get (directory d) key of
            None \<Rightarrow> []
          | Some r \<Rightarrow> sort_key (\<lambda>p. (pl_instance_id p, tier_value (pl_tier p), pl_backend p)) (placements r)) keys"

definition get_token_ids :: "pybytes list \<Rightarrow> key_directory \<Rightarrow> int list list" where
  "get_token_ids hs d =
     map (\<lambda>h. case dict_get (token_bindings d) h of Some tb \<Rightarrow> map uint (tb_token_ids tb) | None \<Rightarrow> []) hs"

definition kd_blend_match :: "uint64 list \<Rightarrow> key_directory \<Rightarrow> blend_match list" where
  "kd_blend_match query d = (if \<not> blend_lookup_enabled d then [] else bi_match query (kd_blend_index d))"

definition kd_blend_stats :: "key_directory \<Rightarrow> blend_stats" where
  "kd_blend_stats d = bi_stats (kd_blend_index d)"

definition matching :: "tier \<Rightarrow> string \<Rightarrow> string \<Rightarrow> key_record \<Rightarrow> placement list" where
  "matching t i be r =
     filter (\<lambda>p. (t = ALL_TIERS \<or> pl_tier p = t) \<and> (i = [] \<or> pl_instance_id p = i) \<and> (be = [] \<or> pl_backend p = be))
       (placements r)"

text \<open>The loop of \<open>list_keys\<close>: the number of matching keys so far and the page so far.\<close>

fun list_keys_step ::
  "tier \<Rightarrow> string \<Rightarrow> string \<Rightarrow> int \<Rightarrow> int \<Rightarrow> nat \<times> (object_key, placement list) pydict \<Rightarrow> object_key \<times> key_record \<Rightarrow>
   nat \<times> (object_key, placement list) pydict" where
  "list_keys_step t i be offset limit (tot, page) (key, r) =
     (let ps = matching t i be r
      in if ps = [] then (tot, page)
         else (tot + 1, if int tot \<ge> offset \<and> int (length page) < limit then dict_set key ps page else page))"

definition list_keys ::
  "tier \<Rightarrow> string \<Rightarrow> string \<Rightarrow> int \<Rightarrow> int \<Rightarrow> key_directory \<Rightarrow> (nat \<times> (object_key, placement list) pydict) result" where
  "list_keys t i be offset limit d =
     (if offset < 0 then Inl ValueError
      else if limit < 0 then Inl ValueError
      else Inr (foldl (list_keys_step t i be offset limit) (0, []) (directory d)))"

record directory_stats =
  num_keys :: nat
  num_placements :: nat
  l1_key_counts :: "(string, nat) pydict"
  blend_counts :: blend_stats

definition kd_stats :: "key_directory \<Rightarrow> directory_stats" where
  "kd_stats d =
     \<lparr>num_keys = length (directory d),
      num_placements = sum_list (map (\<lambda>(k, r). length (placements r)) (directory d)),
      l1_key_counts = map (\<lambda>(i, ks). (i, length ks)) (l1_keys_by_instance d),
      blend_counts = bi_stats (kd_blend_index d)\<rparr>"

section \<open>Checkpoints\<close>

type_synonym encoded_placement = "string \<times> int \<times> string \<times> string \<times> int \<times> bool"

definition encode_placement :: "placement \<Rightarrow> encoded_placement" where
  "encode_placement p =
     (pl_instance_id p, pl_incarnation p, tier_value (pl_tier p), pl_backend p, pl_size_bytes p, pl_shared p)"

definition decode_placement :: "encoded_placement \<Rightarrow> placement result" where
  "decode_placement x =
     (case x of (i, n, tv, be, sz, sh) \<Rightarrow>
        (case tier_of_value tv of
           Inl err \<Rightarrow> Inl err
         | Inr t \<Rightarrow> Inr \<lparr>pl_instance_id = i, pl_incarnation = n, pl_tier = t, pl_backend = be, pl_size_bytes = sz, pl_shared = sh\<rparr>))"

record kd_state =
  ks_keys :: "(encoded_key \<times> pyfloat \<times> encoded_placement list) list"
  ks_bindings :: "(pybytes \<times> int \<times> pybytes) list"
  ks_l1 :: "(string, int list) pydict"

text \<open>\<open>positions\<close>: the index of each key in the directory.\<close>

definition positions :: "(object_key, key_record) pydict \<Rightarrow> (object_key, int) pydict" where
  "positions ds = map (\<lambda>n. (fst (ds ! n), int n)) [0..<length ds]"

definition kd_capture :: "numpy_ops \<Rightarrow> key_directory \<Rightarrow> kd_state" where
  "kd_capture np d =
     \<lparr>ks_keys = map (\<lambda>(key, r). (encode_key key, last_access r, map encode_placement (placements r))) (directory d),
      ks_bindings = map (\<lambda>(h, tb). (h, tb_token_offset tb, to_le_bytes np (tb_token_ids tb))) (token_bindings d),
      ks_l1 = map (\<lambda>(i, ks). (i, List.map_filter (map_of (positions (directory d))) ks)) (l1_keys_by_instance d)\<rparr>"

fun restore_keys ::
  "(encoded_key \<times> pyfloat \<times> encoded_placement list) list \<Rightarrow> key_directory \<times> object_key list \<Rightarrow> (key_directory \<times> object_key list) result" where
  "restore_keys [] dt = Inr dt"
| "restore_keys ((ek, la, eps) # xs) (d, table) =
     (case decode_key ek of
        Inl err \<Rightarrow> Inl err
      | Inr key \<Rightarrow>
          (case sequence_results (map decode_placement eps) of
             Inl err \<Rightarrow> Inl err
           | Inr ps \<Rightarrow>
               restore_keys xs
                 (add_token_binding key (d\<lparr>directory := dict_set key \<lparr>placements = ps, last_access = la\<rparr> (directory d)\<rparr>),
                  table @ [key])))"

definition restore_binding :: "numpy_ops \<Rightarrow> key_directory \<Rightarrow> pybytes \<times> int \<times> pybytes \<Rightarrow> key_directory" where
  "restore_binding np d x =
     (case x of (h, off, raw) \<Rightarrow>
        (case dict_get (token_bindings d) h of
           None \<Rightarrow> d
         | Some tb \<Rightarrow>
             let ids = from_le_bytes np raw;
                 d1 = d\<lparr>token_bindings := dict_set h (tb\<lparr>tb_token_ids := ids, tb_token_offset := off\<rparr>) (token_bindings d)\<rparr>
             in if blend_lookup_enabled d \<and> off \<noteq> UNKNOWN_TOKEN_OFFSET then blend_add ids h off d1 else d1))"

fun restore_l1 :: "object_key list \<Rightarrow> (string, int list) pydict \<Rightarrow> key_directory \<Rightarrow> key_directory result" where
  "restore_l1 table [] d = Inr d"
| "restore_l1 table ((i, ns) # xs) d =
     (if \<exists>n\<in>set ns. \<not> (0 \<le> n \<and> n < int (length table)) then Inl ValueError
      else restore_l1 table xs
             (d\<lparr>l1_keys_by_instance := dict_set i (remdups (map (\<lambda>n. table ! nat n) ns)) (l1_keys_by_instance d)\<rparr>))"

definition kd_restore :: "numpy_ops \<Rightarrow> kd_state \<Rightarrow> key_directory \<Rightarrow> key_directory result" where
  "kd_restore np st d =
     (if directory d \<noteq> [] \<or> l1_keys_by_instance d \<noteq> [] then Inl ValueError
      else case restore_keys (ks_keys st) (d, []) of
             Inl err \<Rightarrow> Inl err
           | Inr (d1, table) \<Rightarrow> restore_l1 table (ks_l1 st) (foldl (restore_binding np) d1 (ks_bindings st)))"


section \<open>Placement identities\<close>

definition ident :: "placement \<Rightarrow> bool \<times> string \<times> tier \<times> string" where
  "ident p = (pl_shared p, if pl_shared p then [] else pl_instance_id p, pl_tier p, pl_backend p)"

definition batch_ident :: "event_batch \<Rightarrow> bool \<times> string \<times> tier \<times> string" where
  "batch_ident b = (shared b, if shared b then [] else instance_id b, batch_tier b, backend b)"

lemma same_placement_ident: "same_placement b p \<longleftrightarrow> ident p = batch_ident b"
  by (auto simp: same_placement_def ident_def batch_ident_def)

lemma ident_new [simp]: "ident (new_placement b e) = batch_ident b"
  by (simp add: ident_def batch_ident_def new_placement_def)

definition upsert :: "event_batch \<Rightarrow> placement \<Rightarrow> placement list \<Rightarrow> placement list" where
  "upsert b p ps = (case find_placement ps b of None \<Rightarrow> ps @ [p] | Some n \<Rightarrow> ps[n := p])"

definition pop_placement :: "event_batch \<Rightarrow> placement list \<Rightarrow> placement list" where
  "pop_placement b ps = (case find_placement ps b of None \<Rightarrow> ps | Some n \<Rightarrow> list_pop n ps)"

lemma upsert_Cons [simp]: "upsert b p [] = [p]"
  "upsert b p (q # ps) = (if ident q = batch_ident b then p # ps else q # upsert b p ps)"
  by (auto simp: upsert_def same_placement_ident split: option.splits)

lemma pop_Cons [simp]: "pop_placement b [] = []"
  "pop_placement b (q # ps) = (if ident q = batch_ident b then ps else q # pop_placement b ps)"
  by (auto simp: pop_placement_def list_pop_def same_placement_ident split: option.splits)

lemma upsert_idents:
  "ident p = batch_ident b \<Longrightarrow> map ident (upsert b p ps) =
     (if batch_ident b \<in> ident ` set ps then map ident ps else map ident ps @ [batch_ident b])"
  by (induction ps) auto

lemma upsert_set:
  "distinct (map ident ps) \<Longrightarrow> set (upsert b p ps) = insert p {q \<in> set ps. ident q \<noteq> batch_ident b}"
  by (induction ps) (auto simp: image_iff)

lemma upsert_not_Nil [simp]: "upsert b p ps \<noteq> []"
  by (cases ps) auto

lemma pop_filter:
  "distinct (map ident ps) \<Longrightarrow> pop_placement b ps = filter (\<lambda>q. ident q \<noteq> batch_ident b) ps"
proof (induction ps)
  case (Cons q ps)
  have "filter (\<lambda>q. ident q \<noteq> batch_ident b) ps = ps" if "ident q = batch_ident b"
    using Cons.prems that by (auto simp: filter_id_conv image_iff)
  then show ?case using Cons by auto
qed simp

lemma find_placement_cases [simp]:
  "(case find_placement ps b of None \<Rightarrow> ps @ [p] | Some n \<Rightarrow> ps[n := p]) = upsert b p ps"
  "(case find_placement ps b of None \<Rightarrow> ps | Some n \<Rightarrow> list_pop n ps) = pop_placement b ps"
  by (simp_all add: upsert_def pop_placement_def)

section \<open>The fields after an operation\<close>

lemma blend_ops_frame [simp]:
  "directory (blend_add toks h off d) = directory d" "directory (blend_remove toks h d) = directory d"
  "l1_keys_by_instance (blend_add toks h off d) = l1_keys_by_instance d" "l1_keys_by_instance (blend_remove toks h d) = l1_keys_by_instance d"
  "token_bindings (blend_add toks h off d) = token_bindings d" "token_bindings (blend_remove toks h d) = token_bindings d"
  "blend_lookup_enabled (blend_add toks h off d) = blend_lookup_enabled d"
  "blend_lookup_enabled (blend_remove toks h d) = blend_lookup_enabled d"
  "kd_blend_index (blend_add toks h off d) = bi_add toks h off (kd_blend_index d)"
  "kd_blend_index (blend_remove toks h d) = bi_remove toks h (kd_blend_index d)"
  by (simp_all add: blend_add_def blend_remove_def)

lemma binding_ops_frame [simp]:
  "directory (add_token_binding k d) = directory d" "l1_keys_by_instance (add_token_binding k d) = l1_keys_by_instance d"
  "directory (remove_token_binding k d) = directory d" "l1_keys_by_instance (remove_token_binding k d) = l1_keys_by_instance d"
  "directory (create_token_binding np h e d) = directory d"
  "l1_keys_by_instance (create_token_binding np h e d) = l1_keys_by_instance d"
  "blend_lookup_enabled (add_token_binding k d) = blend_lookup_enabled d"
  "blend_lookup_enabled (remove_token_binding k d) = blend_lookup_enabled d"
  "blend_lookup_enabled (create_token_binding np h e d) = blend_lookup_enabled d"
  "kd_blend_index (add_token_binding k d) = kd_blend_index d"
  by (auto simp: add_token_binding_def remove_token_binding_def create_token_binding_def Let_def split: option.splits)

lemma create_binding_bindings:
  "token_bindings (create_token_binding np h e d) =
     (case (as_uint32 np (token_ids e), map_of (token_bindings d) h) of
        (Some ids, Some tb) \<Rightarrow> dict_set h (tb\<lparr>tb_token_ids := ids, tb_token_offset := token_offset e\<rparr>) (token_bindings d)
      | _ \<Rightarrow> token_bindings d)"
  by (auto simp: create_token_binding_def Let_def split: option.splits)

lemma remove_binding_bindings:
  "token_bindings (remove_token_binding k d) =
     (case map_of (token_bindings d) (chunk_hash k) of
        None \<Rightarrow> token_bindings d
      | Some tb \<Rightarrow>
          if removeAll k (tb_keys tb) = [] then dict_del (chunk_hash k) (token_bindings d)
          else dict_set (chunk_hash k) (tb\<lparr>tb_keys := removeAll k (tb_keys tb)\<rparr>) (token_bindings d))"
  by (auto simp: remove_token_binding_def Let_def split: option.splits)

lemma l1_ops_frame [simp]:
  "directory (l1_keys_add i k d) = directory d" "token_bindings (l1_keys_add i k d) = token_bindings d"
  "directory (l1_keys_discard i k d) = directory d" "token_bindings (l1_keys_discard i k d) = token_bindings d"
  by (simp_all add: l1_keys_add_def l1_keys_discard_def)

definition store_record :: "event_batch \<Rightarrow> event_entry \<Rightarrow> key_record option \<Rightarrow> key_record" where
  "store_record b e ro =
     (let r = (case ro of None \<Rightarrow> \<lparr>placements = [], last_access = 0\<rparr> | Some r \<Rightarrow> r)
      in \<lparr>placements = upsert b (new_placement b e) (placements r), last_access = max (last_access r) (ts b)\<rparr>)"

lemma apply_store_fields:
  "directory (apply_store np b e d) = dict_set (ee_key e) (store_record b e (map_of (directory d) (ee_key e))) (directory d)"
  "l1_keys_by_instance (apply_store np b e d) =
     (if batch_tier b = L1
      then dict_set (instance_id b) (List.insert (ee_key e) (dict_get_default (l1_keys_by_instance d) (instance_id b) [])) (l1_keys_by_instance d)
      else l1_keys_by_instance d)"
  by (auto simp: apply_store_def Let_def store_record_def l1_keys_add_def split: option.splits)

lemma apply_delete_fields:
  "map_of (directory d) (ee_key e) = Some r \<Longrightarrow> directory (apply_delete b e d) =
     (if pop_placement b (placements r) = [] then dict_del (ee_key e) (directory d)
      else dict_set (ee_key e) (r\<lparr>placements := pop_placement b (placements r)\<rparr>) (directory d))"
  "map_of (directory d) (ee_key e) = Some r \<Longrightarrow> l1_keys_by_instance (apply_delete b e d) =
     (if batch_tier b = L1 \<and> (\<forall>p\<in>set (pop_placement b (placements r)). pl_tier p = L1 \<longrightarrow> pl_instance_id p \<noteq> instance_id b)
      then dict_set (instance_id b) (removeAll (ee_key e) (dict_get_default (l1_keys_by_instance d) (instance_id b) [])) (l1_keys_by_instance d)
      else l1_keys_by_instance d)"
  "map_of (directory d) (ee_key e) = None \<Longrightarrow> apply_delete b e d = d"
  by (auto simp: apply_delete_def Let_def l1_keys_discard_def list_ex_iff)

lemma apply_access_fields [simp]:
  "l1_keys_by_instance (apply_access b e d) = l1_keys_by_instance d"
  "token_bindings (apply_access b e d) = token_bindings d"
  by (auto simp: apply_access_def split: option.splits)

section \<open>The invariant\<close>

definition rec_ok :: "key_record \<Rightarrow> bool" where
  "rec_ok r \<longleftrightarrow> placements r \<noteq> [] \<and> distinct (map ident (placements r)) \<and> (\<forall>p\<in>set (placements r). pl_tier p \<noteq> ALL_TIERS)"

definition dir_ok :: "(object_key, key_record) pydict \<Rightarrow> bool" where
  "dir_ok ds \<longleftrightarrow> dict_wf ds \<and> (\<forall>k r. map_of ds k = Some r \<longrightarrow> key_ok k \<and> rec_ok r)"

definition rev_ok :: "(object_key, key_record) pydict \<Rightarrow> (string, object_key list) pydict \<Rightarrow> bool" where
  "rev_ok ds l1 \<longleftrightarrow> dict_wf l1 \<and> (\<forall>i ks. map_of l1 i = Some ks \<longrightarrow> distinct ks) \<and>
     (\<forall>k r p. map_of ds k = Some r \<longrightarrow> p \<in> set (placements r) \<longrightarrow> pl_tier p = L1 \<longrightarrow>
        k \<in> set (dict_get_default l1 (pl_instance_id p) []))"

definition bind_ok :: "object_key set \<Rightarrow> (pybytes, token_binding) pydict \<Rightarrow> bool" where
  "bind_ok K tbs \<longleftrightarrow> dict_wf tbs \<and> (\<forall>k\<in>K. map_of tbs (chunk_hash k) \<noteq> None) \<and>
     (\<forall>h tb. map_of tbs h = Some tb \<longrightarrow> tb_keys tb \<noteq> [] \<and> set (tb_keys tb) = {k \<in> K. chunk_hash k = h})"

definition kd_inv :: "key_directory \<Rightarrow> bool" where
  "kd_inv d \<longleftrightarrow> dir_ok (directory d) \<and> rev_ok (directory d) (l1_keys_by_instance d) \<and>
     bind_ok (dict_dom (directory d)) (token_bindings d)"

definition kd_empty :: "key_directory \<Rightarrow> bool" where
  "kd_empty d \<longleftrightarrow> directory d = [] \<and> l1_keys_by_instance d = [] \<and> token_bindings d = []"

lemma kd_from_config_empty: "kd_from_config cfg = Inr d \<Longrightarrow> kd_empty d"
  by (auto simp: kd_from_config_def enable_blend_lookup_def kd_empty_def kd_init_def split: option.splits sum.splits)

lemma kd_inv_empty: "kd_empty d \<Longrightarrow> kd_inv d"
  by (simp add: kd_empty_def kd_inv_def dir_ok_def rev_ok_def bind_ok_def)

lemma bind_ok_keys:
  "bind_ok K tbs \<Longrightarrow> map_option (\<lambda>tb. set (tb_keys tb)) (map_of tbs h) =
     (if \<exists>k\<in>K. chunk_hash k = h then Some {k \<in> K. chunk_hash k = h} else None)"
proof (cases "map_of tbs h")
  case (Some tb)
  assume "bind_ok K tbs"
  with Some have "tb_keys tb \<noteq> []" and ks: "set (tb_keys tb) = {k \<in> K. chunk_hash k = h}" by (auto simp: bind_ok_def)
  then have "{k \<in> K. chunk_hash k = h} \<noteq> {}" by (metis set_empty)
  with Some ks show ?thesis by auto
qed (auto simp: bind_ok_def)

lemma add_binding_ok: "bind_ok K (token_bindings d) \<Longrightarrow> bind_ok (insert k K) (token_bindings (add_token_binding k d))"
  by (cases "map_of (token_bindings d) (chunk_hash k)")
    (auto simp: bind_ok_def add_token_binding_def Let_def List.insert_def split: if_splits)

lemma remove_binding_ok:
  assumes "bind_ok K (token_bindings d)"
  shows "bind_ok (K - {k}) (token_bindings (remove_token_binding k d))"
proof (cases "map_of (token_bindings d) (chunk_hash k)")
  case None
  then have "k \<notin> K" using assms by (auto simp: bind_ok_def)
  then show ?thesis using assms None by (simp add: remove_token_binding_def)
next
  case (Some tb)
  then have ks: "set (tb_keys tb) = {x \<in> K. chunk_hash x = chunk_hash k}" using assms by (auto simp: bind_ok_def)
  show ?thesis
  proof (cases "removeAll k (tb_keys tb) = []")
    case True
    then have "{x \<in> K. chunk_hash x = chunk_hash k} \<subseteq> {k}" by (metis Diff_eq_empty_iff empty_set ks set_removeAll)
    with True Some assms show ?thesis by (auto simp: bind_ok_def remove_binding_bindings)
  next
    case False
    with Some assms ks show ?thesis by (auto simp: bind_ok_def remove_binding_bindings split: if_splits)
  qed
qed

lemma create_binding_ok:
  "bind_ok K (token_bindings d) \<Longrightarrow> bind_ok K (token_bindings (create_token_binding np h e d))"
  by (auto simp: bind_ok_def create_binding_bindings split: option.splits if_splits)


text \<open>\<open>dir_facts\<close>: what the directory says, as a set of pairs of a key and a placement.\<close>

definition dir_facts :: "key_directory \<Rightarrow> (object_key \<times> placement) set" where
  "dir_facts d = {(k, p). \<exists>r. map_of (directory d) k = Some r \<and> p \<in> set (placements r)}"

lemma rev_ok_facts:
  "rev_ok (directory d) l1 \<longleftrightarrow> dict_wf l1 \<and> (\<forall>i ks. map_of l1 i = Some ks \<longrightarrow> distinct ks) \<and>
     (\<forall>(k, p)\<in>dir_facts d. pl_tier p = L1 \<longrightarrow> k \<in> set (dict_get_default l1 (pl_instance_id p) []))"
  by (auto simp: rev_ok_def dir_facts_def)

lemma rev_ok_distinct: "rev_ok ds l1 \<Longrightarrow> distinct (dict_get_default l1 i [])"
  by (auto simp: rev_ok_def dict_get_default_def split: option.splits)

lemma rec_ok_store:
  assumes "\<And>r. ro = Some r \<Longrightarrow> rec_ok r" and "batch_ok b"
  shows "rec_ok (store_record b e ro)"
    and "set (placements (store_record b e ro)) = insert (new_placement b e)
      {q. \<exists>r. ro = Some r \<and> q \<in> set (placements r) \<and> ident q \<noteq> batch_ident b}"
proof -
  let ?ps = "case ro of None \<Rightarrow> [] | Some r \<Rightarrow> placements r"
  have ps: "placements (store_record b e ro) = upsert b (new_placement b e) ?ps"
    by (simp add: store_record_def split: option.splits)
  have d: "distinct (map ident ?ps)" and t: "\<forall>p\<in>set ?ps. pl_tier p \<noteq> ALL_TIERS"
    using assms(1) by (auto simp: rec_ok_def split: option.splits)
  show "set (placements (store_record b e ro)) = insert (new_placement b e)
      {q. \<exists>r. ro = Some r \<and> q \<in> set (placements r) \<and> ident q \<noteq> batch_ident b}"
    unfolding ps upsert_set [OF d] by (auto split: option.splits)
  have "pl_tier (new_placement b e) \<noteq> ALL_TIERS" using batch_okD(4) [OF assms(2)] by (auto simp: new_placement_def)
  then show "rec_ok (store_record b e ro)"
    using d t unfolding rec_ok_def ps upsert_set [OF d] by (auto simp: upsert_idents)
qed

lemma apply_store_bind:
  assumes "bind_ok (dict_dom (directory d)) (token_bindings d)"
  shows "bind_ok (insert (ee_key e) (dict_dom (directory d))) (token_bindings (apply_store np b e d))"
proof -
  let ?d1 = "if map_of (directory d) (ee_key e) = None
    then add_token_binding (ee_key e) (d\<lparr>directory := dict_set (ee_key e) \<lparr>placements = [], last_access = 0\<rparr> (directory d)\<rparr>) else d"
  have "bind_ok (insert (ee_key e) (dict_dom (directory d))) (token_bindings ?d1)"
  proof (cases "map_of (directory d) (ee_key e) = None")
    case True
    then show ?thesis using add_binding_ok [of "dict_dom (directory d)"
          "d\<lparr>directory := dict_set (ee_key e) \<lparr>placements = [], last_access = 0\<rparr> (directory d)\<rparr>" "ee_key e"] assms by simp
  next
    case False
    then have "ee_key e \<in> dict_dom (directory d)" by (simp add: dict_dom_iff)
    with False assms show ?thesis by (auto simp: insert_absorb)
  qed
  then have "bind_ok (insert (ee_key e) (dict_dom (directory d)))
      (token_bindings (if token_ids e \<noteq> [] then create_token_binding np (chunk_hash (ee_key e)) e ?d1 else ?d1))"
    using create_binding_ok by auto
  then show ?thesis by (simp add: apply_store_def Let_def)
qed

lemma stored_binding:
  assumes "kd_inv d"
  shows "map_of (token_bindings (add_token_binding k d)) (chunk_hash k) \<noteq> None"
    and "map_of (directory d) k \<noteq> None \<Longrightarrow> map_of (token_bindings d) (chunk_hash k) \<noteq> None"
proof -
  have "bind_ok (dict_dom (directory d)) (token_bindings d)" using assms by (simp add: kd_inv_def)
  then show "map_of (token_bindings (add_token_binding k d)) (chunk_hash k) \<noteq> None"
    and "map_of (directory d) k \<noteq> None \<Longrightarrow> map_of (token_bindings d) (chunk_hash k) \<noteq> None"
    by (auto simp: add_token_binding_def Let_def bind_ok_def dict_dom_iff split: option.splits)
qed

text \<open>One entry: the invariant, and the change of the facts.\<close>

definition abs_entry :: "event_batch \<Rightarrow> (object_key \<times> placement) set \<Rightarrow> event_entry \<Rightarrow> (object_key \<times> placement) set" where
  "abs_entry b S e =
     (let others = {(k, p). (k, p) \<in> S \<and> \<not> (k = ee_key e \<and> ident p = batch_ident b)}
      in case event_type b of
           STORE \<Rightarrow> insert (ee_key e, new_placement b e) others
         | DELETE \<Rightarrow> others
         | _ \<Rightarrow> S)"

lemma apply_store_inv:
  assumes inv: "kd_inv d" and b: "batch_ok b" and e: "event_entry_ok e"
  shows "kd_inv (apply_store np b e d)"
    and "event_type b = STORE \<Longrightarrow> dir_facts (apply_store np b e d) = abs_entry b (dir_facts d) e"
proof -
  let ?key = "ee_key e" and ?d = "apply_store np b e d"
  let ?r = "store_record b e (map_of (directory d) ?key)"
  have ok: "\<And>r. map_of (directory d) ?key = Some r \<Longrightarrow> rec_ok r" using inv by (simp add: kd_inv_def dir_ok_def)
  note r = rec_ok_store [of "map_of (directory d) ?key", OF ok b, where e = e]
  have facts: "dir_facts ?d = insert (?key, new_placement b e) {(k, p). (k, p) \<in> dir_facts d \<and> \<not> (k = ?key \<and> ident p = batch_ident b)}"
    by (auto simp: dir_facts_def apply_store_fields r(2) split: if_splits)
  then show "event_type b = STORE \<Longrightarrow> dir_facts ?d = abs_entry b (dir_facts d) e"
    by (simp add: abs_entry_def)
  have "dir_ok (directory ?d)"
    using inv r(1) e by (auto simp: apply_store_fields kd_inv_def dir_ok_def event_entry_ok_def)
  moreover have "rev_ok (directory ?d) (l1_keys_by_instance ?d)"
    using inv rev_ok_distinct [of "directory d" "l1_keys_by_instance d"]
    unfolding rev_ok_facts facts kd_inv_def
    by (auto simp: apply_store_fields new_placement_def distinct_insert split: if_splits)
  moreover have "bind_ok (dict_dom (directory ?d)) (token_bindings ?d)"
    using apply_store_bind inv by (simp add: apply_store_fields kd_inv_def)
  ultimately show "kd_inv ?d" by (simp add: kd_inv_def)
qed

lemma rec_ok_filter: "rec_ok r \<Longrightarrow> filter P (placements r) \<noteq> [] \<Longrightarrow> rec_ok (r\<lparr>placements := filter P (placements r)\<rparr>)"
  by (auto simp: rec_ok_def distinct_map_filter)

text \<open>Dropping some placements of one key, with the key when none is left.\<close>

definition keep_placements :: "object_key \<Rightarrow> key_record \<Rightarrow> (placement \<Rightarrow> bool) \<Rightarrow> key_directory \<Rightarrow> key_directory" where
  "keep_placements key r P d =
     (if filter P (placements r) = [] then remove_token_binding key (d\<lparr>directory := dict_del key (directory d)\<rparr>)
      else d\<lparr>directory := dict_set key (r\<lparr>placements := filter P (placements r)\<rparr>) (directory d)\<rparr>)"

lemma keep_placements_facts:
  assumes "map_of (directory d) key = Some r"
  shows "dir_facts (keep_placements key r P d) = {(k, p). (k, p) \<in> dir_facts d \<and> (k = key \<longrightarrow> P p)}"
  using assms by (auto simp: keep_placements_def dir_facts_def filter_empty_conv split: if_splits)

lemma keep_placements_l1 [simp]: "l1_keys_by_instance (keep_placements key r P d) = l1_keys_by_instance d"
  by (simp add: keep_placements_def)

lemma keep_placements_inv:
  assumes r: "map_of (directory d) key = Some r" and inv: "kd_inv d"
  shows "kd_inv (keep_placements key r P d)"
proof -
  let ?d = "keep_placements key r P d"
  have rok: "key_ok key" "rec_ok r" using inv r by (auto simp: kd_inv_def dir_ok_def)
  have mem: "insert key (dict_dom (directory d)) = dict_dom (directory d)"
    using r by (auto simp: dict_dom_iff)
  have "dir_ok (directory ?d)"
    using inv rok rec_ok_filter [OF rok(2), of P] by (auto simp: keep_placements_def kd_inv_def dir_ok_def split: if_splits)
  moreover have "rev_ok (directory ?d) (l1_keys_by_instance ?d)"
    using inv unfolding rev_ok_facts keep_placements_facts [OF r] kd_inv_def by auto
  moreover have "bind_ok (dict_dom (directory ?d)) (token_bindings ?d)"
    using inv remove_binding_ok [of "dict_dom (directory d)" "d\<lparr>directory := dict_del key (directory d)\<rparr>" key] mem
    by (auto simp: keep_placements_def kd_inv_def)
  ultimately show ?thesis by (simp add: kd_inv_def)
qed

lemma apply_delete_keep:
  assumes "map_of (directory d) (ee_key e) = Some r" and "kd_inv d"
  shows "directory (apply_delete b e d) = directory (keep_placements (ee_key e) r (\<lambda>q. ident q \<noteq> batch_ident b) d)"
    and "token_bindings (apply_delete b e d) = token_bindings (keep_placements (ee_key e) r (\<lambda>q. ident q \<noteq> batch_ident b) d)"
proof -
  have "pop_placement b (placements r) = filter (\<lambda>q. ident q \<noteq> batch_ident b) (placements r)"
    using assms by (intro pop_filter) (auto simp: kd_inv_def dir_ok_def rec_ok_def)
  then show "directory (apply_delete b e d) = directory (keep_placements (ee_key e) r (\<lambda>q. ident q \<noteq> batch_ident b) d)"
    and "token_bindings (apply_delete b e d) = token_bindings (keep_placements (ee_key e) r (\<lambda>q. ident q \<noteq> batch_ident b) d)"
    using assms(1) by (simp_all add: apply_delete_def keep_placements_def Let_def)
qed

lemma dir_facts_directory: "directory d = directory d' \<Longrightarrow> dir_facts d = dir_facts d'"
  by (simp add: dir_facts_def)

lemma apply_delete_inv:
  assumes inv: "kd_inv d"
  shows "kd_inv (apply_delete b e d)"
    and "event_type b = DELETE \<Longrightarrow> dir_facts (apply_delete b e d) = abs_entry b (dir_facts d) e"
proof -
  have "kd_inv (apply_delete b e d) \<and> (event_type b = DELETE \<longrightarrow> dir_facts (apply_delete b e d) = abs_entry b (dir_facts d) e)"
  proof (cases "map_of (directory d) (ee_key e)")
    case None
    moreover from None have "(ee_key e, p) \<notin> dir_facts d" for p by (simp add: dir_facts_def)
    ultimately show ?thesis using inv by (auto simp: apply_delete_fields abs_entry_def)
  next
    case (Some r)
    let ?P = "\<lambda>q. ident q \<noteq> batch_ident b"
    let ?k = "keep_placements (ee_key e) r ?P d" and ?d = "apply_delete b e d"
    note eqs = apply_delete_keep [OF Some inv, of b]
    have k: "kd_inv ?k" using Some inv by (rule keep_placements_inv)
    have facts: "dir_facts ?d = {(k, p). (k, p) \<in> dir_facts d \<and> (k = ee_key e \<longrightarrow> ?P p)}"
      using keep_placements_facts [OF Some, of ?P] dir_facts_directory [OF eqs(1)] by simp
    have pop: "pop_placement b (placements r) = filter ?P (placements r)"
      using Some inv by (intro pop_filter) (auto simp: kd_inv_def dir_ok_def rec_ok_def)
    have "rev_ok (directory ?d) (l1_keys_by_instance ?d)"
    proof (cases "batch_tier b = L1 \<and> (\<forall>p\<in>set (filter ?P (placements r)). pl_tier p = L1 \<longrightarrow> pl_instance_id p \<noteq> instance_id b)")
      case True
      have none: "k \<noteq> ee_key e" if "(k, p) \<in> dir_facts ?d" "pl_tier p = L1" "pl_instance_id p = instance_id b" for k p
        using that True Some unfolding facts by (auto simp: dir_facts_def)
      have l1: "l1_keys_by_instance ?d = dict_set (instance_id b)
          (removeAll (ee_key e) (dict_get_default (l1_keys_by_instance d) (instance_id b) [])) (l1_keys_by_instance d)"
        using True by (simp add: apply_delete_fields(2) [OF Some] pop)
      have "rev_ok (directory ?k) (l1_keys_by_instance d)" using k by (simp add: kd_inv_def)
      then show ?thesis
        using none rev_ok_distinct [of "directory ?k" "l1_keys_by_instance d" "instance_id b"]
        unfolding rev_ok_facts l1 dir_facts_directory [OF eqs(1), symmetric]
        by (auto simp: distinct_removeAll split: if_splits)
    next
      case False
      then have "l1_keys_by_instance ?d = l1_keys_by_instance d"
        unfolding apply_delete_fields(2) [OF Some] pop by (simp only: if_False)
      then show ?thesis using k by (simp add: kd_inv_def eqs)
    qed
    then have "kd_inv ?d" using k by (simp add: kd_inv_def eqs)
    then show ?thesis by (auto simp: facts abs_entry_def)
  qed
  then show "kd_inv (apply_delete b e d)"
    and "event_type b = DELETE \<Longrightarrow> dir_facts (apply_delete b e d) = abs_entry b (dir_facts d) e" by auto
qed

lemma apply_access_inv:
  assumes "kd_inv d"
  shows "kd_inv (apply_access b e d)" and "dir_facts (apply_access b e d) = dir_facts d"
proof -
  have f: "dir_facts (apply_access b e d) = dir_facts d"
    by (auto simp: apply_access_def dir_facts_def split: option.splits if_splits)
  then show "dir_facts (apply_access b e d) = dir_facts d" .
  have dom: "dict_dom (directory (apply_access b e d)) = dict_dom (directory d)"
    by (auto simp: apply_access_def dict_dom_iff split: option.splits)
  have "dir_ok (directory (apply_access b e d))"
    using assms by (auto simp: kd_inv_def dir_ok_def rec_ok_def apply_access_def split: option.splits)
  moreover have "rev_ok (directory (apply_access b e d)) (l1_keys_by_instance (apply_access b e d))"
    using assms unfolding rev_ok_facts f kd_inv_def by simp
  ultimately show "kd_inv (apply_access b e d)" using assms by (simp add: kd_inv_def dom)
qed

lemma apply_entry_inv:
  assumes "kd_inv d" and "batch_ok b" and "event_entry_ok e"
  shows "kd_inv (apply_entry np b d e) \<and> dir_facts (apply_entry np b d e) = abs_entry b (dir_facts d) e"
  using apply_store_inv [OF assms] apply_delete_inv [OF assms(1)] apply_access_inv [OF assms(1)] assms(1)
  by (cases "event_type b") (simp_all add: apply_entry_def abs_entry_def)

lemma kd_consume_inv:
  assumes inv: "kd_inv d" and b: "batch_ok b"
  shows "kd_inv (kd_consume np b d) \<and> dir_facts (kd_consume np b d) = foldl (abs_entry b) (dir_facts d) (entries b)"
proof -
  have fold: "kd_inv d \<Longrightarrow> \<forall>e\<in>set es. event_entry_ok e \<Longrightarrow>
      kd_inv (foldl (apply_entry np b) d es) \<and> dir_facts (foldl (apply_entry np b) d es) = foldl (abs_entry b) (dir_facts d) es" for d es
    by (induction es arbitrary: d) (simp_all add: apply_entry_inv [OF _ b])
  let ?d = "case map_of (l1_keys_by_instance d) (instance_id b) of
      None \<Rightarrow> d\<lparr>l1_keys_by_instance := dict_set (instance_id b) [] (l1_keys_by_instance d)\<rparr> | Some _ \<Rightarrow> d"
  have f: "dir_facts ?d = dir_facts d" by (simp add: dir_facts_def split: option.splits)
  have "kd_inv ?d"
  proof (cases "map_of (l1_keys_by_instance d) (instance_id b)")
    case None
    then have "dict_get_default (dict_set (instance_id b) [] (l1_keys_by_instance d)) j [] =
        dict_get_default (l1_keys_by_instance d) j []" for j by (simp add: dict_get_default_def)
    with None inv show ?thesis by (simp add: kd_inv_def rev_ok_def del: dict_get_default_set)
  qed (use inv in simp)
  with fold [of ?d "entries b"] f batch_okD(6) [OF b] show ?thesis by (simp add: kd_consume_def Let_def)
qed


section \<open>Fencing drops exactly the L1 placements of the instance\<close>

definition void :: "string \<Rightarrow> placement \<Rightarrow> bool" where
  "void i p \<longleftrightarrow> pl_tier p = L1 \<and> pl_instance_id p = i"

lemma drop_key_l1_eq:
  "fst (drop_key_l1 i (d, n) key) =
     (case map_of (directory d) key of None \<Rightarrow> d | Some r \<Rightarrow> keep_placements key r (\<lambda>p. \<not> void i p) d)"
  by (simp add: drop_key_l1_def keep_placements_def void_def Let_def split: option.splits)

lemma drop_key_l1_step:
  assumes "kd_inv (fst dn)"
  shows "kd_inv (fst (drop_key_l1 i dn key)) \<and>
    l1_keys_by_instance (fst (drop_key_l1 i dn key)) = l1_keys_by_instance (fst dn) \<and>
    dir_facts (fst (drop_key_l1 i dn key)) = {(k, p). (k, p) \<in> dir_facts (fst dn) \<and> (k = key \<longrightarrow> \<not> void i p)}"
proof -
  obtain d n where dn: "dn = (d, n)" by fastforce
  show ?thesis
  proof (cases "map_of (directory d) key")
    case None
    then have "(key, p) \<notin> dir_facts d" for p by (simp add: dir_facts_def)
    with None assms show ?thesis by (auto simp: dn drop_key_l1_eq)
  next
    case (Some r)
    with assms show ?thesis
      by (simp add: dn drop_key_l1_eq keep_placements_inv [OF Some] keep_placements_facts [OF Some])
  qed
qed

lemma drop_keys_l1:
  "kd_inv (fst dn) \<Longrightarrow> kd_inv (fst (foldl (drop_key_l1 i) dn keys)) \<and>
    l1_keys_by_instance (fst (foldl (drop_key_l1 i) dn keys)) = l1_keys_by_instance (fst dn) \<and>
    dir_facts (fst (foldl (drop_key_l1 i) dn keys)) =
      {(k, p). (k, p) \<in> dir_facts (fst dn) \<and> (k \<in> set keys \<longrightarrow> \<not> void i p)}"
proof (induction keys arbitrary: dn)
  case (Cons key keys)
  note st = drop_key_l1_step [OF Cons.prems, of i key]
  show ?case using Cons.IH [of "drop_key_l1 i dn key"] st by auto
qed simp

lemma kd_fence_inv:
  assumes inv: "kd_inv d"
  shows "kd_inv (kd_fence i d)"
    and "dir_facts (kd_fence i d) = {(k, p). (k, p) \<in> dir_facts d \<and> \<not> void i p}"
proof -
  define keys where "keys = dict_get_default (l1_keys_by_instance d) i []"
  define d' where "d' = fst (foldl (drop_key_l1 i) (d, 0) keys)"
  have d': "kd_inv d'" "l1_keys_by_instance d' = l1_keys_by_instance d"
    "dir_facts d' = {(k, p). (k, p) \<in> dir_facts d \<and> (k \<in> set keys \<longrightarrow> \<not> void i p)}"
    unfolding d'_def using drop_keys_l1 [of "(d, 0)" i keys] inv by simp_all
  have all: "k \<in> set keys" if "(k, p) \<in> dir_facts d" "void i p" for k p
    using inv that unfolding kd_inv_def rev_ok_facts void_def keys_def by auto
  then have facts: "dir_facts d' = {(k, p). (k, p) \<in> dir_facts d \<and> \<not> void i p}" using d'(3) by auto
  have eq: "kd_fence i d = d'\<lparr>l1_keys_by_instance := dict_del i (l1_keys_by_instance d)\<rparr>"
  proof (cases "map_of (l1_keys_by_instance d) i")
    case None
    then show ?thesis by (simp add: kd_fence_def drop_l1_placements_def d'_def keys_def dict_get_default_def)
  next
    case (Some ks)
    then have "keys = ks" by (simp add: keys_def dict_get_default_def)
    then have "fst (drop_l1_placements i d) = d'\<lparr>l1_keys_by_instance := dict_set i [] (l1_keys_by_instance d)\<rparr>"
      using Some d'(2) by (simp add: drop_l1_placements_def d'_def case_prod_beta)
    then show ?thesis by (simp add: kd_fence_def case_prod_beta delete_update_same)
  qed
  show "dir_facts (kd_fence i d) = {(k, p). (k, p) \<in> dir_facts d \<and> \<not> void i p}"
    using facts by (simp add: eq dir_facts_def)
  have "rev_ok (directory d') (dict_del i (l1_keys_by_instance d))"
    using d'(1,2) unfolding kd_inv_def rev_ok_facts facts by (auto simp: void_def)
  then show "kd_inv (kd_fence i d)" using d'(1) by (simp add: eq kd_inv_def)
qed


section \<open>The directory as a consumer of the gate\<close>

primrec abs_deliver :: "(object_key \<times> placement) set \<Rightarrow> delivery \<Rightarrow> (object_key \<times> placement) set" where
  "abs_deliver S (Consumed b) = foldl (abs_entry b) S (entries b)"
| "abs_deliver S (Fenced i) = {(k, p). (k, p) \<in> S \<and> \<not> void i p}"

definition kd_stamps :: "key_directory \<Rightarrow> (string \<times> int) set" where
  "kd_stamps d = {(pl_instance_id p, pl_incarnation p) | k p. (k, p) \<in> dir_facts d \<and> pl_tier p = L1}"

lemma kd_broadcast [simp]:
  "broadcast [kd_consumer np] b d = kd_consume np b d" "broadcast_fence [kd_consumer np] i d = kd_fence i d"
  by (simp_all add: broadcast_def broadcast_fence_def kd_consumer_def)

lemma abs_entries_subset:
  "foldl (abs_entry b) S es \<subseteq> S \<union> (\<lambda>e. (ee_key e, new_placement b e)) ` set es"
proof (induction es arbitrary: S)
  case (Cons e es)
  have "abs_entry b S e \<subseteq> insert (ee_key e, new_placement b e) S"
    by (cases "event_type b") (auto simp: abs_entry_def)
  with Cons.IH [of "abs_entry b S e"] show ?case by auto
qed simp

interpretation kd: stamped_consumer "[kd_consumer np]" kd_inv kd_stamps for np
proof unfold_locales
  fix s b assume inv: "kd_inv s" and b: "batch_ok b"
  note c = kd_consume_inv [OF inv b, of np]
  show "kd_inv (broadcast [kd_consumer np] b s)" using c by simp
  show "kd_stamps (broadcast [kd_consumer np] b s) \<subseteq> insert (instance_id b, incarnation b) (kd_stamps s)"
    using c abs_entries_subset [of b "dir_facts s" "entries b"]
    by (fastforce simp: kd_stamps_def new_placement_def)
next
  fix s i assume inv: "kd_inv s"
  show "kd_inv (broadcast_fence [kd_consumer np] i s)" using kd_fence_inv [OF inv] by simp
  show "kd_stamps (broadcast_fence [kd_consumer np] i s) \<subseteq> {x \<in> kd_stamps s. fst x \<noteq> i}"
    using kd_fence_inv(2) [OF inv, of i] by (auto simp: kd_stamps_def void_def)
qed

definition kd_run :: "numpy_ops \<Rightarrow> key_directory \<Rightarrow> gate_call list \<Rightarrow> key_directory" where
  "kd_run np d0 calls = snd (gate_run [kd_consumer np] calls ([], d0))"

lemma kd_replay:
  assumes fresh: "kd_empty d0" and "\<forall>b. Consumed b \<in> set lg \<longrightarrow> batch_ok b"
  shows "kd_inv (foldl (deliver [kd_consumer np]) d0 lg) \<and>
    dir_facts (foldl (deliver [kd_consumer np]) d0 lg) = foldl abs_deliver {} lg"
  using assms(2)
proof (induction lg rule: rev_induct)
  case Nil
  then show ?case using fresh kd_inv_empty by (simp add: dir_facts_def kd_empty_def)
next
  case (snoc x lg)
  let ?d = "foldl (deliver [kd_consumer np]) d0 lg"
  have inv: "kd_inv ?d" and f: "dir_facts ?d = foldl abs_deliver {} lg" using snoc by auto
  show ?case
  proof (cases x)
    case (Consumed b)
    then have "batch_ok b" using snoc.prems by simp
    then show ?thesis using kd_consume_inv [OF inv] f by (simp add: Consumed)
  next
    case (Fenced i)
    then show ?thesis using kd_fence_inv [OF inv] f by simp
  qed
qed

lemma kd_run_inv:
  assumes "kd_empty d0" and "\<forall>c\<in>set calls. call_ok c"
  shows "kd_inv (kd_run np d0 calls)" and "dir_facts (kd_run np d0 calls) = foldl abs_deliver {} (gate_log calls)"
  using kd_replay [OF assms(1) log_ok [OF assms(2)], of np] by (simp_all add: kd_run_def gate_run_replay)

section \<open>Reads\<close>

lemma lookup_facts:
  assumes "kd_inv d" and "n < length keys"
  shows "set (lookup keys d ! n) = {p. (keys ! n, p) \<in> dir_facts d} \<and> distinct (map ident (lookup keys d ! n)) \<and>
    sorted (map (\<lambda>p. (pl_instance_id p, tier_value (pl_tier p), pl_backend p)) (lookup keys d ! n))"
proof (cases "map_of (directory d) (keys ! n)")
  case None
  with assms(2) show ?thesis by (auto simp: lookup_def dir_facts_def)
next
  case (Some r)
  let ?f = "\<lambda>p. (pl_instance_id p, tier_value (pl_tier p), pl_backend p)"
  have "distinct (map ident (placements r))" using assms(1) Some by (auto simp: kd_inv_def dir_ok_def rec_ok_def)
  then have "distinct (map ident (sort_key ?f (placements r)))"
    by (subst mset_eq_imp_distinct_iff [of _ "map ident (placements r)"]) simp_all
  with Some assms(2) show ?thesis by (simp add: lookup_def dir_facts_def)
qed

definition all_matches :: "tier \<Rightarrow> string \<Rightarrow> string \<Rightarrow> (object_key, key_record) pydict \<Rightarrow> (object_key, placement list) pydict" where
  "all_matches t i be ds = filter (\<lambda>(k, ps). ps \<noteq> []) (map (\<lambda>(k, r). (k, matching t i be r)) ds)"

lemma list_keys_loop:
  assumes "dict_wf ds" and "0 \<le> offset" and "0 \<le> limit"
  shows "foldl (list_keys_step t i be offset limit) (0, []) ds =
    (length (all_matches t i be ds), take (nat limit) (drop (nat offset) (all_matches t i be ds)))"
  using assms(1)
proof (induction ds rule: rev_induct)
  case (snoc x ds)
  obtain k r where x: "x = (k, r)" by fastforce
  let ?M = "all_matches t i be ds" and ?ps = "matching t i be r"
  let ?page = "take (nat limit) (drop (nat offset) ?M)"
  have new: "k \<notin> fst ` set ?page"
  proof
    assume "k \<in> fst ` set ?page"
    then have "k \<in> fst ` set ?M" by (auto dest!: in_set_takeD in_set_dropD)
    then show False using snoc.prems by (force simp: all_matches_def dict_wf_def x)
  qed
  have M: "all_matches t i be (ds @ [x]) = (if ?ps = [] then ?M else ?M @ [(k, ?ps)])"
    by (simp add: all_matches_def x)
  have "dict_wf ds" using snoc.prems by (simp add: dict_wf_def)
  note IH = snoc.IH [OF this]
  have "(if offset \<le> int (length ?M) \<and> int (length ?page) < limit then dict_set k ?ps ?page else ?page) =
      take (nat limit) (drop (nat offset) (?M @ [(k, ?ps)]))"
  proof (cases "offset \<le> int (length ?M) \<and> int (length ?page) < limit")
    case True
    then have "nat offset \<le> length ?M" and "length (drop (nat offset) ?M) < nat limit" using assms by auto
    with True show ?thesis using new by (simp add: dict_set_new)
  next
    case False
    then have "length ?M < nat offset \<or> nat limit \<le> length (drop (nat offset) ?M)" using assms by auto
    with False show ?thesis by auto
  qed
  then show ?case using IH by (simp add: M [unfolded x] x Let_def)
qed (simp add: all_matches_def)

lemma list_keys_pages:
  assumes "kd_inv d"
  shows "list_keys t i be offset limit d =
    (if offset < 0 \<or> limit < 0 then Inl ValueError
     else Inr (length (all_matches t i be (directory d)),
               take (nat limit) (drop (nat offset) (all_matches t i be (directory d)))))"
  using list_keys_loop [of "directory d" offset limit t i be] assms
  by (auto simp: list_keys_def kd_inv_def dir_ok_def)


section \<open>Checkpoint and restart\<close>

definition np_ok :: "numpy_ops \<Rightarrow> key_directory \<Rightarrow> bool" where
  "np_ok np d \<longleftrightarrow> (\<forall>h tb. map_of (token_bindings d) h = Some tb \<longrightarrow>
     from_le_bytes np (to_le_bytes np (tb_token_ids tb)) = tb_token_ids tb)"

lemma np_ok_bindings:
  assumes "numpy_spec np" and "np_ok np d"
  shows "np_ok np (add_token_binding k d)" and "np_ok np (remove_token_binding k d)"
    and "np_ok np (create_token_binding np h e d)"
  using assms
  by (auto simp: np_ok_def numpy_spec_def add_token_binding_def remove_token_binding_def create_token_binding_def Let_def
      split: option.splits if_splits)

lemma np_ok_fields [simp]:
  "np_ok np (d\<lparr>directory := ds\<rparr>) = np_ok np d" "np_ok np (d\<lparr>l1_keys_by_instance := l1\<rparr>) = np_ok np d"
  "np_ok np (l1_keys_add i k d) = np_ok np d" "np_ok np (l1_keys_discard i k d) = np_ok np d"
  by (simp_all add: np_ok_def)

lemma np_ok_entry:
  assumes "numpy_spec np" and "np_ok np d"
  shows "np_ok np (apply_entry np b d e)"
  using assms np_ok_bindings [OF assms(1)]
  by (simp add: apply_entry_def apply_store_def apply_delete_def apply_access_def Let_def
      split: cache_event_type.splits option.splits)

lemma np_ok_deliver:
  assumes "numpy_spec np" and "np_ok np d"
  shows "np_ok np (deliver [kd_consumer np] d x)"
proof (cases x)
  case (Consumed b)
  have "np_ok np (foldl (apply_entry np b) d' es)" if "np_ok np d'" for d' es
    by (rule foldl_inv) (use assms(1) that np_ok_entry in auto)
  with assms(2) show ?thesis by (simp add: Consumed kd_consume_def Let_def split: option.splits)
next
  case (Fenced i)
  have step: "np_ok np (fst (drop_key_l1 i dn k))" if "np_ok np (fst dn)" for dn k
    using that np_ok_bindings(2) [OF assms(1)]
    by (cases dn) (simp add: drop_key_l1_eq keep_placements_def split: option.splits)
  have "np_ok np (fst (foldl (drop_key_l1 i) (d, 0) ks))" for ks
    by (rule foldl_inv [where P = "\<lambda>dn. np_ok np (fst dn)"]) (use assms(2) step in auto)
  then show ?thesis using assms(2)
    by (simp add: Fenced kd_fence_def drop_l1_placements_def case_prod_beta split: option.splits)
qed

lemma kd_run_np:
  assumes "numpy_spec np" and "kd_empty d0"
  shows "np_ok np (kd_run np d0 calls)"
proof -
  have "np_ok np (foldl (deliver [kd_consumer np]) d0 (gate_log calls))"
    by (rule foldl_inv) (use assms in \<open>auto simp: np_ok_deliver\<close>, use assms(2) in \<open>simp add: np_ok_def kd_empty_def\<close>)
  then show ?thesis by (simp add: kd_run_def gate_run_replay)
qed

lemma decode_placement_encode [simp]: "decode_placement (encode_placement p) = Inr p"
  by (cases p) (simp add: decode_placement_def encode_placement_def)

lemma restore_keys_capture:
  assumes "distinct (map fst xs)" and "fst ` set xs \<inter> fst ` set (directory d) = {}" and "\<forall>(k, r)\<in>set xs. key_ok k"
  shows "restore_keys (map (\<lambda>(key, r). (encode_key key, last_access r, map encode_placement (placements r))) xs) (d, tbl) =
    Inr (foldl (\<lambda>d (k, r). add_token_binding k (d\<lparr>directory := directory d @ [(k, r)]\<rparr>)) d xs, tbl @ map fst xs)"
  using assms
proof (induction xs arbitrary: d tbl)
  case (Cons x xs)
  obtain k r where x: "x = (k, r)" by fastforce
  have eta: "\<lparr>placements = placements r, last_access = last_access r\<rparr> = r" by (cases r) simp
  have "sequence_results (map (decode_placement \<circ> encode_placement) (placements r)) = Inr (map id (placements r))"
    by (intro sequence_results_all) simp
  moreover have "dict_set k r (directory d) = directory d @ [(k, r)]"
    using Cons.prems by (intro dict_set_new) (auto simp: x)
  moreover have "decode_key (encode_key k) = Inr k" using Cons.prems by (intro decode_encode) (auto simp: x)
  ultimately show ?case
    using Cons.prems Cons.IH [of "add_token_binding k (d\<lparr>directory := directory d @ [(k, r)]\<rparr>)" "tbl @ [k]"]
    by (auto simp: x eta)
qed simp

definition rebuilt :: "key_directory \<Rightarrow> (object_key, key_record) pydict \<Rightarrow> key_directory" where
  "rebuilt d0 ds = foldl (\<lambda>d (k, r). add_token_binding k (d\<lparr>directory := directory d @ [(k, r)]\<rparr>)) d0 ds"

lemma rebuilt_fields:
  assumes "kd_empty d0"
  shows "directory (rebuilt d0 ds) = ds \<and> l1_keys_by_instance (rebuilt d0 ds) = [] \<and> bind_ok (dict_dom ds) (token_bindings (rebuilt d0 ds))"
proof (induction ds rule: rev_induct)
  case Nil
  show ?case using assms by (simp add: rebuilt_def kd_empty_def bind_ok_def)
next
  case (snoc x ds)
  obtain k r where x: "x = (k, r)" by fastforce
  have "rebuilt d0 (ds @ [x]) = add_token_binding k (rebuilt d0 ds\<lparr>directory := ds @ [(k, r)]\<rparr>)"
    using snoc by (simp add: rebuilt_def x)
  then show ?case
    using snoc add_binding_ok [of "dict_dom ds" "rebuilt d0 ds\<lparr>directory := ds @ [(k, r)]\<rparr>" k]
    by (simp add: x dict_dom_def)
qed

lemma restore_binding_bindings:
  "token_bindings (restore_binding np d (h, off, raw)) =
     (case map_of (token_bindings d) h of
        None \<Rightarrow> token_bindings d
      | Some tb \<Rightarrow> dict_set h (tb\<lparr>tb_token_ids := from_le_bytes np raw, tb_token_offset := off\<rparr>) (token_bindings d))"
  "directory (restore_binding np d x) = directory d" "l1_keys_by_instance (restore_binding np d x) = l1_keys_by_instance d"
  "blend_lookup_enabled (restore_binding np d x) = blend_lookup_enabled d"
  by (auto simp: restore_binding_def Let_def split: option.splits prod.splits)

lemma restore_bindings:
  assumes "distinct (map fst bs)"
  shows "map_of (token_bindings (foldl (restore_binding np) d (map (\<lambda>(h, tb). (h, tb_token_offset tb, to_le_bytes np (tb_token_ids tb))) bs))) h =
    map_option (\<lambda>tb. case map_of bs h of None \<Rightarrow> tb | Some tb' \<Rightarrow>
        tb\<lparr>tb_token_ids := from_le_bytes np (to_le_bytes np (tb_token_ids tb')), tb_token_offset := tb_token_offset tb'\<rparr>)
      (map_of (token_bindings d) h)"
  using assms
proof (induction bs arbitrary: d)
  case (Cons x bs)
  obtain h' tb' where x: "x = (h', tb')" by fastforce
  have "map_of bs h' = None" using Cons.prems by (simp add: x map_of_eq_None_iff)
  then show ?case using Cons
    by (cases "map_of (token_bindings d) h'") (auto simp: x restore_binding_bindings option.map_ident split: option.splits)
qed (simp add: option.map_ident)

lemma restore_binding_frame:
  "directory (foldl (restore_binding np) d bs) = directory d \<and>
   l1_keys_by_instance (foldl (restore_binding np) d bs) = l1_keys_by_instance d \<and>
   (dict_wf (token_bindings d) \<longrightarrow> dict_wf (token_bindings (foldl (restore_binding np) d bs)))"
  by (induction bs arbitrary: d) (auto simp: restore_binding_bindings split: option.splits prod.splits)

lemma positions_keys: "map fst (positions ds) = map fst ds"
  by (rule nth_equalityI) (simp_all add: positions_def)

lemma positions_map_of:
  assumes "dict_wf ds"
  shows "map_of (positions ds) k = Some n \<longleftrightarrow> 0 \<le> n \<and> nat n < length ds \<and> fst (ds ! nat n) = k"
proof -
  have "map_of (positions ds) k = Some n \<longleftrightarrow> (k, n) \<in> set (positions ds)"
    using assms positions_keys [of ds] by (simp add: dict_wf_def)
  also have "\<dots> \<longleftrightarrow> (\<exists>m<length ds. k = fst (ds ! m) \<and> n = int m)" by (auto simp: positions_def)
  also have "\<dots> \<longleftrightarrow> 0 \<le> n \<and> nat n < length ds \<and> fst (ds ! nat n) = k"
    by (metis nat_int nat_0_le of_nat_0_le_iff)
  finally show ?thesis .
qed

lemma positions_nth:
  assumes "dict_wf ds"
  shows "map (\<lambda>n. map fst ds ! nat n) (List.map_filter (map_of (positions ds)) ks) = filter (\<lambda>k. k \<in> dict_dom ds) ks"
    and "\<forall>n\<in>set (List.map_filter (map_of (positions ds)) ks). 0 \<le> n \<and> n < int (length ds)"
proof -
  have dom: "map_of (positions ds) k = None \<longleftrightarrow> k \<notin> dict_dom ds" for k
    using positions_keys [of ds] by (metis dict_dom_def map_of_eq_None_iff set_map)
  show "map (\<lambda>n. map fst ds ! nat n) (List.map_filter (map_of (positions ds)) ks) = filter (\<lambda>k. k \<in> dict_dom ds) ks"
  proof (induction ks)
    case (Cons k ks)
    show ?case
    proof (cases "map_of (positions ds) k")
      case None
      then show ?thesis using Cons dom [of k] by (simp add: List.map_filter_def)
    next
      case (Some n)
      then show ?thesis using Cons dom [of k] positions_map_of [OF assms, of k n] by (simp add: List.map_filter_def)
    qed
  qed (simp add: List.map_filter_def)
  show "\<forall>n\<in>set (List.map_filter (map_of (positions ds)) ks). 0 \<le> n \<and> n < int (length ds)"
  proof
    fix n assume "n \<in> set (List.map_filter (map_of (positions ds)) ks)"
    then obtain k where "map_of (positions ds) k = Some n" by (auto simp: List.map_filter_def)
    then show "0 \<le> n \<and> n < int (length ds)" by (auto simp: positions_map_of [OF assms])
  qed
qed


lemma restore_l1_capture:
  assumes "dict_wf ds" and "distinct (map fst xs)" and "fst ` set xs \<inter> fst ` set (l1_keys_by_instance d) = {}"
    and "\<forall>(i, ks)\<in>set xs. distinct ks"
  shows "restore_l1 (map fst ds) (map (\<lambda>(i, ks). (i, List.map_filter (map_of (positions ds)) ks)) xs) d =
    Inr (d\<lparr>l1_keys_by_instance := l1_keys_by_instance d @ map (\<lambda>(i, ks). (i, filter (\<lambda>k. k \<in> dict_dom ds) ks)) xs\<rparr>)"
  using assms(2-4)
proof (induction xs arbitrary: d)
  case (Cons x xs)
  obtain i ks where x: "x = (i, ks)" by fastforce
  let ?ks = "filter (\<lambda>k. k \<in> dict_dom ds) ks"
  have "remdups (map (\<lambda>n. map fst ds ! nat n) (List.map_filter (map_of (positions ds)) ks)) = ?ks"
    using Cons.prems by (simp add: positions_nth(1) [OF assms(1)] distinct_remdups_id x)
  moreover have "dict_set i ?ks (l1_keys_by_instance d) = l1_keys_by_instance d @ [(i, ?ks)]"
    using Cons.prems by (intro dict_set_new) (auto simp: x)
  moreover have "\<not> (\<exists>n\<in>set (List.map_filter (map_of (positions ds)) ks). \<not> (0 \<le> n \<and> n < int (length (map fst ds))))"
    using positions_nth(2) [OF assms(1), of ks] by auto
  ultimately show ?case
    using Cons.prems Cons.IH [of "d\<lparr>l1_keys_by_instance := l1_keys_by_instance d @ [(i, ?ks)]\<rparr>"]
    by (auto simp: x simp del: bex_simps ball_simps)
qed simp

lemma kd_restore_capture:
  assumes inv: "kd_inv d" and np: "np_ok np d" and fresh: "kd_empty d0"
  obtains d' where "kd_restore np (kd_capture np d) d0 = Inr d'" and "kd_inv d'" and "directory d' = directory d"
    and "l1_keys_by_instance d' = map (\<lambda>(i, ks). (i, filter (\<lambda>k. k \<in> dict_dom (directory d)) ks)) (l1_keys_by_instance d)"
    and "\<And>h. map_option (\<lambda>tb. (tb_token_ids tb, tb_token_offset tb, set (tb_keys tb))) (map_of (token_bindings d') h) =
      map_option (\<lambda>tb. (tb_token_ids tb, tb_token_offset tb, set (tb_keys tb))) (map_of (token_bindings d) h)"
proof -
  let ?ds = "directory d" and ?l1 = "l1_keys_by_instance d" and ?tbs = "token_bindings d"
  have wf: "dict_wf ?ds" "dict_wf ?l1" "dict_wf ?tbs" and dok: "dir_ok ?ds" and bok: "bind_ok (dict_dom ?ds) ?tbs"
    using inv by (auto simp: kd_inv_def dir_ok_def rev_ok_def bind_ok_def)
  note dwf = wf [unfolded dict_wf_def]
  define d1 where "d1 = foldl (restore_binding np) (rebuilt d0 ?ds) (map (\<lambda>(h, tb). (h, tb_token_offset tb, to_le_bytes np (tb_token_ids tb))) ?tbs)"
  define d' where "d' = d1\<lparr>l1_keys_by_instance := map (\<lambda>(i, ks). (i, filter (\<lambda>k. k \<in> dict_dom ?ds) ks)) ?l1\<rparr>"
  have d1: "directory d1 = ?ds" "l1_keys_by_instance d1 = []"
    using restore_binding_frame rebuilt_fields [OF fresh] by (auto simp: d1_def)
  have rb: "bind_ok (dict_dom ?ds) (token_bindings (rebuilt d0 ?ds))" using rebuilt_fields [OF fresh] by simp
  have wf1: "dict_wf (token_bindings d1)"
    using rb restore_binding_frame by (auto simp: d1_def bind_ok_def)
  have map1: "map_of (token_bindings d1) h = map_option (\<lambda>tb. case map_of ?tbs h of None \<Rightarrow> tb | Some tb' \<Rightarrow>
        tb\<lparr>tb_token_ids := tb_token_ids tb', tb_token_offset := tb_token_offset tb'\<rparr>) (map_of (token_bindings (rebuilt d0 ?ds)) h)" for h
    using np unfolding d1_def restore_bindings [OF dwf(3)] np_ok_def
    by (auto intro!: option.map_cong0 split: option.splits)
  have keys1: "map_option (\<lambda>tb. set (tb_keys tb)) (map_of (token_bindings (rebuilt d0 ?ds)) h) =
      map_option (\<lambda>tb. set (tb_keys tb)) (map_of ?tbs h)" for h
    using bind_ok_keys [OF rb, of h] bind_ok_keys [OF bok, of h] by simp
  have same: "map_option (\<lambda>tb. (tb_token_ids tb, tb_token_offset tb, set (tb_keys tb))) (map_of (token_bindings d1) h) =
      map_option (\<lambda>tb. (tb_token_ids tb, tb_token_offset tb, set (tb_keys tb))) (map_of ?tbs h)" for h
    using keys1 [of h] unfolding map1
    by (cases "map_of (token_bindings (rebuilt d0 ?ds)) h"; cases "map_of ?tbs h") simp_all
  have "bind_ok (dict_dom ?ds) (token_bindings d1)"
    using rb wf1 unfolding bind_ok_def map1 by (auto split: option.splits)
  moreover have "rev_ok ?ds (l1_keys_by_instance d')"
  proof -
    have "map_of (l1_keys_by_instance d') i = map_option (filter (\<lambda>k. k \<in> dict_dom ?ds)) (map_of ?l1 i)" for i
      by (simp add: d'_def map_of_map)
    moreover have "map fst (l1_keys_by_instance d') = map fst ?l1" by (simp add: d'_def case_prod_beta)
    ultimately show ?thesis
      using inv by (auto simp: kd_inv_def rev_ok_def dict_get_default_def dict_wf_def dict_dom_iff split: option.splits)
  qed
  ultimately have "kd_inv d'" using dok by (simp add: kd_inv_def d'_def d1)
  moreover have "kd_restore np (kd_capture np d) d0 = Inr d'"
  proof -
    have "restore_keys (ks_keys (kd_capture np d)) (d0, []) = Inr (rebuilt d0 ?ds, map fst ?ds)"
      using restore_keys_capture [of ?ds d0 "[]"] dwf(1) dok fresh
      by (auto simp: kd_capture_def rebuilt_def kd_empty_def dir_ok_def map_of_is_SomeI)
    moreover have "\<forall>(i, ks)\<in>set ?l1. distinct ks"
      using inv wf(2) by (auto simp: kd_inv_def rev_ok_def dict_wf_map_of_eq)
    ultimately show ?thesis
      using restore_l1_capture [OF wf(1) dwf(2), of d1] d1 fresh
      by (simp add: kd_restore_def kd_empty_def kd_capture_def d1_def [symmetric] d'_def)
  qed
  ultimately show thesis using that [of d'] same by (simp add: d'_def d1)
qed


section \<open>A NumPy for the witnesses\<close>

fun words_of_bytes :: "pybytes \<Rightarrow> uint32 list" where
  "words_of_bytes (a # b # c # d # bs) =
     word_of_int (uint a + 256 * uint b + 65536 * uint c + 16777216 * uint d) # words_of_bytes bs"
| "words_of_bytes bs = []"

definition word_bytes :: "int \<Rightarrow> pybytes" where
  "word_bytes x = [word_of_int x, word_of_int (x div 256), word_of_int (x div 65536), word_of_int (x div 16777216)]"

definition list_np :: numpy_ops where
  "list_np =
     \<lparr>as_uint32 = (\<lambda>xs. if \<forall>x\<in>set xs. 0 \<le> x \<and> x < 2 ^ 32 then Some (map word_of_int xs) else None),
      to_le_bytes = (\<lambda>xs. concat (map (word_bytes \<circ> uint) xs)), from_le_bytes = words_of_bytes\<rparr>"

lemma words_of_word_bytes:
  assumes "0 \<le> x" and "x < 2 ^ 32"
  shows "words_of_bytes (word_bytes x @ bs) = word_of_int x # words_of_bytes bs"
proof -
  have "x div 16777216 mod 256 = x div 16777216" using assms by simp
  moreover have "x div 65536 = 256 * (x div 16777216) + x div 65536 mod 256"
    using zdiv_zmult2_eq [of 256 x 65536] by simp
  moreover have "x div 256 = 256 * (x div 65536) + x div 256 mod 256"
    using zdiv_zmult2_eq [of 256 x 256] by simp
  moreover have "x = 256 * (x div 256) + x mod 256" by simp
  ultimately have "x mod 256 + 256 * (x div 256 mod 256) + 65536 * (x div 65536 mod 256) + 16777216 * (x div 16777216 mod 256) = x"
    by linarith
  moreover have "uint (word_of_int k :: 8 word) = k mod 256" for k by (simp add: uint_word_of_int)
  ultimately show ?thesis by (simp only: word_bytes_def append.simps words_of_bytes.simps)
qed

lemma list_np_spec: "numpy_spec list_np"
proof -
  have "uint (x :: uint32) < 2 ^ 32" for x using uint_lt2p [of x] by simp
  then have "words_of_bytes (concat (map (word_bytes \<circ> uint) xs)) = xs" for xs
    by (induction xs) (simp_all add: words_of_word_bytes)
  then show ?thesis by (simp add: numpy_spec_def list_np_def)
qed

section \<open>Properties\<close>

text \<open>
  C6. The directory is what the delivered events say. After any calls of the gate, a lookup
  returns for each key exactly the placements of the abstract event replay, in which a store
  replaces the placement of the same identity, a delete removes it, and a fence removes the L1
  placements of the instance; no identity is listed twice and the list is in the documented
  order.
\<close>

theorem directory_refines_log:
  assumes cfg: "kd_from_config cfg = Inr d0" and calls: "\<forall>c\<in>set calls. call_ok c" and n: "n < length keys"
  shows "set (lookup keys (kd_run np d0 calls) ! n) = {p. (keys ! n, p) \<in> foldl abs_deliver {} (gate_log calls)} \<and>
    distinct (map ident (lookup keys (kd_run np d0 calls) ! n)) \<and>
    sorted (map (\<lambda>p. (pl_instance_id p, tier_value (pl_tier p), pl_backend p)) (lookup keys (kd_run np d0 calls) ! n))"
  using lookup_facts [OF kd_run_inv(1) n, of d0 calls np] kd_run_inv(2) [of d0 calls np] kd_from_config_empty [OF cfg] calls by simp

theorem directory_refines_log_witness:
  "set (lookup [demo_key] (kd_run list_np kd_init demo_calls) ! 0) = {p. (demo_key, p) \<in> foldl abs_deliver {} (gate_log demo_calls)}"
  using directory_refines_log [of None kd_init, OF _ demo_calls_ok, of 0 "[demo_key]" list_np] by (simp add: kd_from_config_def)

text \<open>
  A checkpoint of the directory restores into an empty one: the same placements and
  recency of every key, the same token ids for every chunk, and the invariant that fencing and
  further events rely on; a directory that already holds something refuses.
\<close>

lemma directory_checkpoint:
  assumes "numpy_spec np" and d0: "kd_empty d0" and "\<forall>c\<in>set calls. call_ok c" and d1: "kd_empty d1"
  shows "(\<exists>d. kd_restore np (kd_capture np (kd_run np d0 calls)) d1 = Inr d \<and> kd_inv d \<and>
      directory d = directory (kd_run np d0 calls) \<and>
      (\<forall>hs. get_token_ids hs d = get_token_ids hs (kd_run np d0 calls))) \<and>
    (directory d' \<noteq> [] \<longrightarrow> kd_restore np st d' = Inl ValueError)"
proof -
  let ?r = "kd_run np d0 calls"
  have "directory d' \<noteq> [] \<longrightarrow> kd_restore np st d' = Inl ValueError" by (simp add: kd_restore_def)
  moreover obtain d where d: "kd_restore np (kd_capture np ?r) d1 = Inr d" "kd_inv d" "directory d = directory ?r"
      "l1_keys_by_instance d = map (\<lambda>(i, ks). (i, filter (\<lambda>k. k \<in> dict_dom (directory ?r)) ks)) (l1_keys_by_instance ?r)"
    and tb: "\<And>h. map_option (\<lambda>tb. (tb_token_ids tb, tb_token_offset tb, set (tb_keys tb))) (map_of (token_bindings d) h) =
      map_option (\<lambda>tb. (tb_token_ids tb, tb_token_offset tb, set (tb_keys tb))) (map_of (token_bindings ?r) h)"
    by (rule kd_restore_capture [OF kd_run_inv(1) [OF d0 assms(3)] kd_run_np [OF assms(1) d0] d1]) (rule that)
  have "get_token_ids hs d = get_token_ids hs ?r" for hs
  proof -
    have "(case map_of (token_bindings d) h of Some tb \<Rightarrow> map uint (tb_token_ids tb) | None \<Rightarrow> []) =
        (case map_of (token_bindings ?r) h of Some tb \<Rightarrow> map uint (tb_token_ids tb) | None \<Rightarrow> [])" for h
      using tb [of h] by (cases "map_of (token_bindings d) h"; cases "map_of (token_bindings ?r) h") simp_all
    then show ?thesis by (simp add: get_token_ids_def)
  qed
  ultimately show ?thesis using d(1-3) by blast
qed

end
