(* ===== verification/Server_Config.thy ===== *)
theory Server_Config
  imports Event_Gate
begin

text \<open>
  \<^verbatim>\<open>lmcache/v1/mp_coordinator/views/server_config.py\<close>: \<open>ServerConfigRegistry\<close>, the capacities that
  the servers declare with \<open>config\<close> events; \<^verbatim>\<open>lmcache/v1/distributed/api.py\<close>:
  \<open>ModuleMemoryCapacity\<close>.
\<close>

record module_capacity =
  mc_tier :: tier
  mc_backend :: string
  mc_capacity_bytes :: int
  mc_shared :: bool

record server_config =
  by_instance :: "(string, (tier \<times> string, module_capacity) pydict) pydict"
  stamps :: "(string, int \<times> int) pydict"

definition sc_init :: server_config where
  "sc_init = \<lparr>by_instance = [], stamps = []\<rparr>"

text \<open>Python's order on pairs.\<close>

definition stamp_less :: "int \<times> int \<Rightarrow> int \<times> int \<Rightarrow> bool" where
  "stamp_less x y \<longleftrightarrow> fst x < fst y \<or> fst x = fst y \<and> snd x < snd y"

text \<open>
  The last line of \<open>consume\<close> indexes \<open>_by_instance\<close>; the entry is there, since stamps and
  declarations have the same instances (\<open>sc_inv\<close>) and a first stamp is newer than \<open>(-1, -1)\<close>.
\<close>

definition sc_consume :: "event_batch \<Rightarrow> server_config \<Rightarrow> server_config" where
  "sc_consume b sc =
     (if event_type b \<noteq> CONFIG then sc
      else
        let module = \<lparr>mc_tier = batch_tier b, mc_backend = backend b, mc_capacity_bytes = capacity_bytes b, mc_shared = shared b\<rparr>;
            stamp = (incarnation b, capacity_revision b);
            i = instance_id b;
            stored = dict_get_default (stamps sc) i (-1, -1)
        in if stamp_less stamp stored then sc
           else
             let sc1 = (if stamp_less stored stamp
                        then sc\<lparr>by_instance := dict_set i [] (by_instance sc), stamps := dict_set i stamp (stamps sc)\<rparr>
                        else sc)
             in sc1\<lparr>by_instance := dict_set i (dict_set (mc_tier module, mc_backend module) module
                      (dict_get_default (by_instance sc1) i [])) (by_instance sc1)\<rparr>)"

definition sc_fence :: "string \<Rightarrow> server_config \<Rightarrow> server_config" where
  "sc_fence i sc = sc"

definition sc_consumer :: "server_config consumer" where
  "sc_consumer = \<lparr>on_consume = sc_consume, on_fence = sc_fence\<rparr>"

definition sc_get :: "string \<Rightarrow> server_config \<Rightarrow> module_capacity list" where
  "sc_get i sc = dict_values (dict_get_default (by_instance sc) i [])"

definition sc_get_all :: "server_config \<Rightarrow> (string, module_capacity list) pydict" where
  "sc_get_all sc = map (\<lambda>(i, modules). (i, dict_values modules)) (by_instance sc)"

definition forget :: "string \<Rightarrow> server_config \<Rightarrow> server_config" where
  "forget i sc = sc\<lparr>by_instance := dict_del i (by_instance sc), stamps := dict_del i (stamps sc)\<rparr>"

type_synonym sc_state = "(string \<times> int \<times> int \<times> (string \<times> string \<times> int \<times> bool) list) list"

definition sc_capture :: "server_config \<Rightarrow> sc_state" where
  "sc_capture sc =
     map (\<lambda>(i, n, rv). (i, n, rv,
        map (\<lambda>m. (tier_value (mc_tier m), mc_backend m, mc_capacity_bytes m, mc_shared m))
          (dict_values (dict_get_default (by_instance sc) i [])))) (stamps sc)"

fun restore_modules ::
  "(string \<times> string \<times> int \<times> bool) list \<Rightarrow> (tier \<times> string, module_capacity) pydict \<Rightarrow> (tier \<times> string, module_capacity) pydict result" where
  "restore_modules [] acc = Inr acc"
| "restore_modules ((tv, be, cap, sh) # ms) acc =
     (case tier_of_value tv of
        Inl err \<Rightarrow> Inl err
      | Inr t \<Rightarrow> restore_modules ms
          (dict_set (t, be) \<lparr>mc_tier = t, mc_backend = be, mc_capacity_bytes = cap, mc_shared = sh\<rparr> acc))"

fun sc_restore_loop :: "sc_state \<Rightarrow> server_config \<Rightarrow> server_config result" where
  "sc_restore_loop [] sc = Inr sc"
| "sc_restore_loop ((i, n, rv, ms) # xs) sc =
     (case restore_modules ms [] of
        Inl err \<Rightarrow> Inl err
      | Inr modules \<Rightarrow>
          sc_restore_loop xs (sc\<lparr>stamps := dict_set i (n, rv) (stamps sc), by_instance := dict_set i modules (by_instance sc)\<rparr>))"

definition sc_restore :: "sc_state \<Rightarrow> server_config \<Rightarrow> server_config result" where
  "sc_restore st sc = (if by_instance sc \<noteq> [] \<or> stamps sc \<noteq> [] then Inl ValueError else sc_restore_loop st sc)"

section \<open>Declarations\<close>

definition sc_inv :: "server_config \<Rightarrow> bool" where
  "sc_inv sc \<longleftrightarrow> dict_wf (stamps sc) \<and> dict_dom (stamps sc) = dict_dom (by_instance sc) \<and>
     (\<forall>i x. map_of (stamps sc) i = Some x \<longrightarrow> 0 \<le> fst x \<and> 0 \<le> snd x)"

lemma sc_init_inv: "sc_inv sc_init"
  by (simp add: sc_inv_def sc_init_def)

lemma stamp_trichotomy: "stamp_less x y \<or> x = y \<or> stamp_less y x"
  by (auto simp: stamp_less_def prod_eq_iff)

lemma sc_consume_inv:
  assumes "sc_inv sc" and "batch_ok b"
  shows "sc_inv (sc_consume b sc)"
proof -
  have fresh: "stamp_less (-1, -1) (incarnation b, capacity_revision b)"
    using batch_okD(3,8) [OF assms(2)] by (simp add: stamp_less_def)
  then have "\<not> stamp_less (incarnation b, capacity_revision b) (-1, -1)" "(incarnation b, capacity_revision b) \<noteq> (-1, -1)"
    using batch_okD(3,8) [OF assms(2)] by (auto simp: stamp_less_def)
  then show ?thesis
    using assms(1) fresh batch_okD(3,8) [OF assms(2)]
    by (cases "map_of (stamps sc) (instance_id b)")
      (auto simp: sc_consume_def sc_inv_def Let_def dict_get_default_def insert_absorb dict_dom_iff)
qed

lemma forget_inv: "sc_inv sc \<Longrightarrow> sc_inv (forget i sc)"
  by (auto simp: sc_inv_def forget_def split: if_splits)

text \<open>A newer declaration replaces the older one, an older one is dropped.\<close>

lemma sc_consume_cases:
  assumes "event_type b = CONFIG"
  shows "stamp_less (incarnation b, capacity_revision b) (dict_get_default (stamps sc) (instance_id b) (-1, -1)) \<Longrightarrow>
      sc_consume b sc = sc"
    and "stamp_less (dict_get_default (stamps sc) (instance_id b) (-1, -1)) (incarnation b, capacity_revision b) \<Longrightarrow>
      sc_get (instance_id b) (sc_consume b sc) =
        [\<lparr>mc_tier = batch_tier b, mc_backend = backend b, mc_capacity_bytes = capacity_bytes b, mc_shared = shared b\<rparr>]"
proof -
  show "sc_consume b sc = sc"
    if "stamp_less (incarnation b, capacity_revision b) (dict_get_default (stamps sc) (instance_id b) (-1, -1))"
    using that assms by (simp add: sc_consume_def Let_def)
  show "sc_get (instance_id b) (sc_consume b sc) =
        [\<lparr>mc_tier = batch_tier b, mc_backend = backend b, mc_capacity_bytes = capacity_bytes b, mc_shared = shared b\<rparr>]"
    if "stamp_less (dict_get_default (stamps sc) (instance_id b) (-1, -1)) (incarnation b, capacity_revision b)"
  proof -
    have "\<not> stamp_less (incarnation b, capacity_revision b) (dict_get_default (stamps sc) (instance_id b) (-1, -1))"
      using that by (auto simp: stamp_less_def)
    with that assms show ?thesis by (simp add: sc_consume_def sc_get_def Let_def)
  qed
qed

lemma restore_modules_captured:
  "\<exists>modules. restore_modules (map (\<lambda>m. (tier_value (mc_tier m), mc_backend m, mc_capacity_bytes m, mc_shared m)) ms) acc = Inr modules"
  by (induction ms arbitrary: acc) simp_all

lemma sc_restore_captured:
  assumes "sc_inv sc"
  obtains sc' where "sc_restore (sc_capture sc) sc_init = Inr sc'" and "sc_inv sc'"
proof -
  have nonneg: "0 \<le> n \<and> 0 \<le> rv" if "(i, n, rv) \<in> set (stamps sc)" for i n rv
    using assms that by (fastforce simp: sc_inv_def dict_wf_map_of_eq)
  have "\<exists>sc'. sc_restore_loop (map (\<lambda>(i, n, rv). (i, n, rv,
        map (\<lambda>m. (tier_value (mc_tier m), mc_backend m, mc_capacity_bytes m, mc_shared m)) (ms i))) xs) sc0 = Inr sc' \<and> sc_inv sc'"
    if "sc_inv sc0" "\<forall>(i, n, rv)\<in>set xs. 0 \<le> n \<and> 0 \<le> rv" for sc0 xs ms
    using that
  proof (induction xs arbitrary: sc0)
    case (Cons x xs)
    obtain i n rv where x: "x = (i, n, rv)" by (cases x)
    obtain modules where m: "restore_modules (map (\<lambda>m. (tier_value (mc_tier m), mc_backend m, mc_capacity_bytes m, mc_shared m)) (ms i)) [] = Inr modules"
      using restore_modules_captured by blast
    let ?sc = "sc0\<lparr>stamps := dict_set i (n, rv) (stamps sc0), by_instance := dict_set i modules (by_instance sc0)\<rparr>"
    have "sc_inv ?sc" using Cons.prems by (auto simp: sc_inv_def x)
    with Cons.IH [of ?sc] Cons.prems show ?case by (simp add: x m)
  qed simp
  from this [OF sc_init_inv, of "stamps sc" "\<lambda>i. dict_values (dict_get_default (by_instance sc) i [])"] nonneg that
  show thesis by (auto simp: sc_restore_def sc_init_def sc_capture_def)
qed

end
