(* ===== verification/Usage_Manager.thy ===== *)
theory Usage_Manager
  imports Event_Gate
begin

text \<open>
  \<^verbatim>\<open>lmcache/v1/mp_coordinator/views/usage_manager.py\<close>: \<open>CacheUsageManager\<close>, the fleet's byte
  accounting, a consumer of the gate. Every rollup is kept incrementally; the lemmas show that
  each is at all times the sum over the placements, and that no placement is counted for an
  instance after its fence.
\<close>

section \<open>State\<close>

type_synonym placement_id = "tier \<times> object_key \<times> string \<times> string"

record usage_manager =
  placement_sizes :: "(placement_id, int) pydict"
  key_bytes :: "(tier \<times> object_key, int) pydict"
  salt_bytes :: "(tier \<times> string, int) pydict"
  instance_bytes :: "(tier \<times> string \<times> string, int) pydict"
  l1_by_instance :: "(string, placement_id list) pydict"

definition um_init :: usage_manager where
  "um_init = \<lparr>placement_sizes = [], key_bytes = [], salt_bytes = [], instance_bytes = [], l1_by_instance = []\<rparr>"

section \<open>Accounting\<close>

definition bump :: "'k \<Rightarrow> int \<Rightarrow> ('k, int) pydict \<Rightarrow> ('k, int) pydict" where
  "bump k delta d =
     (let tot = dict_get_default d k 0 + delta
      in if tot > 0 then dict_set k tot d else dict_del k d)"

fun key_id :: "placement_id \<Rightarrow> tier \<times> object_key" where
  "key_id (t, key, owner, be) = (t, key)"

fun salt_id :: "placement_id \<Rightarrow> tier \<times> string" where
  "salt_id (t, key, owner, be) = (t, cache_salt key)"

fun node_id :: "placement_id \<Rightarrow> tier \<times> string \<times> string" where
  "node_id (t, key, owner, be) = (t, owner, be)"

definition adjust :: "placement_id \<Rightarrow> int \<Rightarrow> usage_manager \<Rightarrow> usage_manager" where
  "adjust pid delta u =
     (if delta = 0 then u
      else u\<lparr>key_bytes := bump (key_id pid) delta (key_bytes u),
             salt_bytes := bump (salt_id pid) delta (salt_bytes u),
             instance_bytes := bump (node_id pid) delta (instance_bytes u)\<rparr>)"

text \<open>\<open>_remove\<close>: first the reverse index, then the placement and its bytes.\<close>

fun unindex :: "placement_id \<Rightarrow> usage_manager \<Rightarrow> usage_manager" where
  "unindex (t, key, owner, be) u =
     (if t = L1
      then case dict_get (l1_by_instance u) owner of
             None \<Rightarrow> u
           | Some owned \<Rightarrow>
               (let owned' = removeAll (t, key, owner, be) owned
                in if owned' = [] then u\<lparr>l1_by_instance := dict_del owner (l1_by_instance u)\<rparr>
                   else u\<lparr>l1_by_instance := dict_set owner owned' (l1_by_instance u)\<rparr>)
      else u)"

definition remove_placement :: "placement_id \<Rightarrow> usage_manager \<Rightarrow> usage_manager" where
  "remove_placement pid u =
     (let u1 = unindex pid u;
          sz = dict_get_default (placement_sizes u1) pid 0
      in adjust pid (- sz) (u1\<lparr>placement_sizes := dict_del pid (placement_sizes u1)\<rparr>))"

fun track_placement :: "placement_id \<Rightarrow> int \<Rightarrow> usage_manager \<Rightarrow> usage_manager" where
  "track_placement (t, key, owner, be) sz u =
     (let pid = (t, key, owner, be);
          u1 = u\<lparr>placement_sizes := dict_set pid sz (placement_sizes u)\<rparr>
      in if t = L1 \<and> owner \<noteq> []
         then u1\<lparr>l1_by_instance := dict_set owner (List.insert pid (dict_get_default (l1_by_instance u1) owner [])) (l1_by_instance u1)\<rparr>
         else u1)"

definition batch_owner :: "event_batch \<Rightarrow> string" where
  "batch_owner b = (if shared b then [] else instance_id b)"

definition um_entry :: "event_batch \<Rightarrow> usage_manager \<Rightarrow> event_entry \<Rightarrow> usage_manager" where
  "um_entry b u e =
     (let pid = (batch_tier b, ee_key e, batch_owner b, backend b)
      in if event_type b = STORE
         then let old = dict_get_default (placement_sizes u) pid 0
              in adjust pid (size_bytes e - old) (track_placement pid (size_bytes e) u)
         else if event_type b = DELETE then remove_placement pid u
         else u)"

definition um_consume :: "event_batch \<Rightarrow> usage_manager \<Rightarrow> usage_manager" where
  "um_consume b u = (if event_type b = ACCESS then u else foldl (um_entry b) u (entries b))"

definition um_fence :: "string \<Rightarrow> usage_manager \<Rightarrow> usage_manager" where
  "um_fence i u =
     foldl (\<lambda>u pid. remove_placement pid u) (u\<lparr>l1_by_instance := dict_del i (l1_by_instance u)\<rparr>)
       (dict_get_default (l1_by_instance u) i [])"

definition um_consumer :: "usage_manager consumer" where
  "um_consumer = \<lparr>on_consume = um_consume, on_fence = um_fence\<rparr>"

section \<open>Reads\<close>

definition get_salt_bytes :: "tier \<Rightarrow> string \<Rightarrow> usage_manager \<Rightarrow> int" where
  "get_salt_bytes t s u = dict_get_default (salt_bytes u) (t, s) 0"

definition get_bytes_by_salt :: "tier \<Rightarrow> usage_manager \<Rightarrow> (string, int) pydict" where
  "get_bytes_by_salt t u = map (\<lambda>((t', s), n). (s, n)) (filter (\<lambda>((t', s), n). t' = t) (salt_bytes u))"

definition get_bytes_by_instance :: "tier \<Rightarrow> usage_manager \<Rightarrow> (string, (string, int) pydict) pydict" where
  "get_bytes_by_instance t u =
     foldl (\<lambda>acc ((t', i, be), n).
        if t' = t then dict_set i (dict_set be n (dict_get_default acc i [])) acc else acc) [] (instance_bytes u)"

definition get_key_bytes :: "tier \<Rightarrow> object_key \<Rightarrow> usage_manager \<Rightarrow> int" where
  "get_key_bytes t key u = dict_get_default (key_bytes u) (t, key) 0"

definition get_total_bytes :: "tier \<Rightarrow> usage_manager \<Rightarrow> int" where
  "get_total_bytes t u = sum_list (map snd (filter (\<lambda>((t', s), n). t' = t) (salt_bytes u)))"

section \<open>Checkpoints\<close>

type_synonym um_state = "(string \<times> encoded_key \<times> string \<times> string \<times> int) list"

definition um_capture :: "usage_manager \<Rightarrow> um_state" where
  "um_capture u = map (\<lambda>((t, key, owner, be), sz). (tier_value t, encode_key key, owner, be, sz)) (placement_sizes u)"

fun um_restore_loop :: "um_state \<Rightarrow> usage_manager \<Rightarrow> usage_manager result" where
  "um_restore_loop [] u = Inr u"
| "um_restore_loop ((tv, ek, owner, be, sz) # xs) u =
     (case tier_of_value tv of
        Inl err \<Rightarrow> Inl err
      | Inr t \<Rightarrow>
          (case decode_key ek of
             Inl err \<Rightarrow> Inl err
           | Inr key \<Rightarrow>
               (let pid = (t, key, owner, be)
                in um_restore_loop xs (adjust pid sz (track_placement pid sz u)))))"

definition um_restore :: "um_state \<Rightarrow> usage_manager \<Rightarrow> usage_manager result" where
  "um_restore st u = (if placement_sizes u \<noteq> [] then Inl ValueError else um_restore_loop st u)"

section \<open>Rollups\<close>

definition roll :: "('p \<Rightarrow> 'k) \<Rightarrow> ('p, int) pydict \<Rightarrow> 'k \<Rightarrow> int" where
  "roll f ps k = sum_list (map snd (filter (\<lambda>x. f (fst x) = k) ps))"

definition rollup_ok :: "('p \<Rightarrow> 'k) \<Rightarrow> ('p, int) pydict \<Rightarrow> ('k, int) pydict \<Rightarrow> bool" where
  "rollup_ok f ps d \<longleftrightarrow> dict_wf d \<and> (\<forall>k v. map_of d k = Some v \<longrightarrow> 0 < v) \<and> (\<forall>k. dict_get_default d k 0 = roll f ps k)"

definition sizes_ok :: "('p, int) pydict \<Rightarrow> bool" where
  "sizes_ok ps \<longleftrightarrow> dict_wf ps \<and> (\<forall>p v. map_of ps p = Some v \<longrightarrow> 0 \<le> v)"

lemma roll_Nil [simp]: "roll f [] k = 0"
  by (simp add: roll_def)

lemma roll_Cons [simp]: "roll f (x # ps) k = (if f (fst x) = k then snd x else 0) + roll f ps k"
  by (simp add: roll_def)

lemma roll_set:
  "dict_wf ps \<Longrightarrow> roll f (dict_set p v ps) k = roll f ps k + (if k = f p then v - dict_get_default ps p 0 else 0)"
proof (induction ps)
  case (Cons x ps)
  then show ?case by (cases x) (auto simp: dict_wf_def dict_get_default_def)
qed simp

lemma roll_del:
  "dict_wf ps \<Longrightarrow> roll f (dict_del p ps) k = roll f ps k + (if k = f p then - dict_get_default ps p 0 else 0)"
proof (induction ps)
  case (Cons x ps)
  obtain q v where x: "x = (q, v)" by fastforce
  have "q = p \<Longrightarrow> dict_get_default ps p 0 = 0" and "q = p \<Longrightarrow> dict_del p ps = ps"
    using Cons.prems by (force simp: x dict_wf_def dict_get_default_def delete_id split: option.splits)+
  with Cons show ?case by (auto simp: x dict_wf_def dict_get_default_def)
qed simp

lemma roll_nonneg:
  assumes "sizes_ok ps"
  shows "0 \<le> roll f ps k"
proof -
  have "\<forall>x\<in>set ps. 0 \<le> snd x" using assms by (auto simp: sizes_ok_def dict_wf_map_of_eq)
  then show ?thesis by (induction ps) auto
qed

lemma bump_rollup:
  assumes "rollup_ok f ps d" and "\<And>k. roll f ps' k = roll f ps k + (if k = key then delta else 0)" and "sizes_ok ps'"
  shows "rollup_ok f ps' (bump key delta d)"
proof -
  have "0 \<le> roll f ps key + delta" using roll_nonneg [OF assms(3), of f key] assms(2) [of key] by simp
  moreover have "dict_get_default d k 0 = roll f ps k" for k using assms(1) by (simp add: rollup_ok_def)
  ultimately show ?thesis using assms(1,2) by (auto simp: rollup_ok_def bump_def Let_def)
qed


section \<open>The invariant\<close>

fun owns :: "string \<Rightarrow> placement_id \<Rightarrow> bool" where
  "owns i (t, key, owner, be) \<longleftrightarrow> t = L1 \<and> owner = i \<and> i \<noteq> []"

definition rolls_ok :: "usage_manager \<Rightarrow> bool" where
  "rolls_ok u \<longleftrightarrow> sizes_ok (placement_sizes u) \<and> (\<forall>(t, key, owner, be)\<in>dict_dom (placement_sizes u). key_ok key) \<and>
     rollup_ok key_id (placement_sizes u) (key_bytes u) \<and> rollup_ok salt_id (placement_sizes u) (salt_bytes u) \<and>
     rollup_ok node_id (placement_sizes u) (instance_bytes u)"

definition l1_ok :: "string set \<Rightarrow> usage_manager \<Rightarrow> bool" where
  "l1_ok X u \<longleftrightarrow> (\<forall>i. i \<notin> X \<longrightarrow> distinct (dict_get_default (l1_by_instance u) i []) \<and>
     set (dict_get_default (l1_by_instance u) i []) = {pid \<in> dict_dom (placement_sizes u). owns i pid})"

definition um_inv :: "usage_manager \<Rightarrow> bool" where
  "um_inv u \<longleftrightarrow> rolls_ok u \<and> l1_ok {} u"

lemma adjust_frame [simp]:
  "placement_sizes (adjust pid delta u) = placement_sizes u" "l1_by_instance (adjust pid delta u) = l1_by_instance u"
  by (simp_all add: adjust_def)

lemma adjust_rolls:
  assumes "rolls_ok u" and sizes: "placement_sizes u' = ps'" and same: "key_bytes u' = key_bytes u" "salt_bytes u' = salt_bytes u"
    "instance_bytes u' = instance_bytes u"
    and ok: "sizes_ok ps'" and keys: "\<forall>(t, key, owner, be)\<in>dict_dom ps'. key_ok key"
    and roll: "\<And>k. roll key_id ps' k = roll key_id (placement_sizes u) k + (if k = key_id pid then delta else 0)"
      "\<And>k. roll salt_id ps' k = roll salt_id (placement_sizes u) k + (if k = salt_id pid then delta else 0)"
      "\<And>k. roll node_id ps' k = roll node_id (placement_sizes u) k + (if k = node_id pid then delta else 0)"
  shows "rolls_ok (adjust pid delta u')"
proof (cases "delta = 0")
  case True
  then have "roll key_id ps' = roll key_id (placement_sizes u)" "roll salt_id ps' = roll salt_id (placement_sizes u)"
    "roll node_id ps' = roll node_id (placement_sizes u)"
    by (intro ext, simp add: roll)+
  with True assms(1) ok keys show ?thesis by (simp add: adjust_def rolls_ok_def sizes same rollup_ok_def)
next
  case False
  have "rollup_ok key_id ps' (bump (key_id pid) delta (key_bytes u))"
    "rollup_ok salt_id ps' (bump (salt_id pid) delta (salt_bytes u))"
    "rollup_ok node_id ps' (bump (node_id pid) delta (instance_bytes u))"
    by (rule bump_rollup [of _ "placement_sizes u"]; use assms(1) ok roll in \<open>simp add: rolls_ok_def\<close>)+
  with False ok keys show ?thesis by (simp add: adjust_def rolls_ok_def sizes same)
qed

lemma track_frame [simp]:
  "placement_sizes (track_placement pid sz u) = dict_set pid sz (placement_sizes u)"
  "key_bytes (track_placement pid sz u) = key_bytes u" "salt_bytes (track_placement pid sz u) = salt_bytes u"
  "instance_bytes (track_placement pid sz u) = instance_bytes u"
  by (cases pid; simp add: Let_def)+

lemma sizes_ok_set: "sizes_ok ps \<Longrightarrow> 0 \<le> v \<Longrightarrow> sizes_ok (dict_set p v ps)"
  by (auto simp: sizes_ok_def)

lemma sizes_ok_del: "sizes_ok ps \<Longrightarrow> sizes_ok (dict_del p ps)"
  by (auto simp: sizes_ok_def split: if_splits)

fun pid_key :: "placement_id \<Rightarrow> object_key" where
  "pid_key (t, key, owner, be) = key"

lemma track_rolls:
  assumes "rolls_ok u" and "0 \<le> sz" and "key_ok (pid_key pid)"
  shows "rolls_ok (adjust pid (sz - dict_get_default (placement_sizes u) pid 0) (track_placement pid sz u))"
proof (rule adjust_rolls [OF assms(1) track_frame(1)])
  show "sizes_ok (dict_set pid sz (placement_sizes u))" using assms by (intro sizes_ok_set) (simp_all add: rolls_ok_def)
  have "dict_wf (placement_sizes u)" using assms(1) by (simp add: rolls_ok_def sizes_ok_def)
  note eq = roll_set [OF this, of _ pid sz]
  show "roll key_id (dict_set pid sz (placement_sizes u)) k = roll key_id (placement_sizes u) k +
       (if k = key_id pid then sz - dict_get_default (placement_sizes u) pid 0 else 0)" for k by (rule eq)
  show "roll salt_id (dict_set pid sz (placement_sizes u)) k = roll salt_id (placement_sizes u) k +
       (if k = salt_id pid then sz - dict_get_default (placement_sizes u) pid 0 else 0)" for k by (rule eq)
  show "roll node_id (dict_set pid sz (placement_sizes u)) k = roll node_id (placement_sizes u) k +
       (if k = node_id pid then sz - dict_get_default (placement_sizes u) pid 0 else 0)" for k by (rule eq)
  show "\<forall>(t, key, owner, be)\<in>dict_dom (dict_set pid sz (placement_sizes u)). key_ok key"
    using assms by (cases pid) (auto simp: rolls_ok_def)
qed simp_all

lemma track_l1:
  assumes "l1_ok X u"
  shows "l1_ok X (adjust pid delta (track_placement pid sz u))"
  using assms
  by (cases pid) (auto simp: l1_ok_def Let_def distinct_insert)

lemma unindex_frame [simp]:
  "placement_sizes (unindex pid u) = placement_sizes u" "key_bytes (unindex pid u) = key_bytes u"
  "salt_bytes (unindex pid u) = salt_bytes u" "instance_bytes (unindex pid u) = instance_bytes u"
  by (cases pid; simp add: Let_def split: option.splits)+

lemma unindex_l1:
  "dict_get_default (l1_by_instance (unindex pid u)) i [] =
     (if \<exists>key be. pid = (L1, key, i, be) then removeAll pid (dict_get_default (l1_by_instance u) i [])
      else dict_get_default (l1_by_instance u) i [])"
  by (cases pid) (auto simp: Let_def dict_get_default_def split: option.splits)

lemma remove_fields [simp]:
  "placement_sizes (remove_placement pid u) = dict_del pid (placement_sizes u)"
  "l1_by_instance (remove_placement pid u) = l1_by_instance (unindex pid u)"
  by (simp_all add: remove_placement_def)

lemma remove_rolls:
  assumes "rolls_ok u"
  shows "rolls_ok (remove_placement pid u)"
proof -
  let ?ps = "placement_sizes u" and ?u1 = "(unindex pid u)\<lparr>placement_sizes := dict_del pid (placement_sizes u)\<rparr>"
  have "rolls_ok (adjust pid (- dict_get_default ?ps pid 0) ?u1)"
  proof (rule adjust_rolls [OF assms])
    show "sizes_ok (dict_del pid ?ps)" using assms by (intro sizes_ok_del) (simp add: rolls_ok_def)
    have "dict_wf ?ps" using assms by (simp add: rolls_ok_def sizes_ok_def)
    note eq = roll_del [OF this, of _ pid]
    show "roll key_id (dict_del pid ?ps) k = roll key_id ?ps k + (if k = key_id pid then - dict_get_default ?ps pid 0 else 0)" for k
      by (rule eq)
    show "roll salt_id (dict_del pid ?ps) k = roll salt_id ?ps k + (if k = salt_id pid then - dict_get_default ?ps pid 0 else 0)" for k
      by (rule eq)
    show "roll node_id (dict_del pid ?ps) k = roll node_id ?ps k + (if k = node_id pid then - dict_get_default ?ps pid 0 else 0)" for k
      by (rule eq)
    show "\<forall>(t, key, owner, be)\<in>dict_dom (dict_del pid ?ps). key_ok key" using assms by (auto simp: rolls_ok_def)
  qed simp_all
  then show ?thesis by (simp add: remove_placement_def Let_def)
qed

lemma remove_l1:
  assumes "l1_ok X u"
  shows "l1_ok X (remove_placement pid u)"
  using assms unfolding l1_ok_def remove_fields unindex_l1
  by (cases pid) (auto simp: distinct_removeAll)

declare track_placement.simps [simp del] and unindex.simps [simp del]

lemma um_entry_inv:
  assumes "um_inv u" and "event_entry_ok e"
  shows "um_inv (um_entry b u e)"
  using assms track_rolls [of u "size_bytes e" "(batch_tier b, ee_key e, batch_owner b, backend b)"]
  by (auto simp: um_inv_def um_entry_def Let_def event_entry_ok_def remove_rolls remove_l1 track_l1)

lemma um_consume_inv:
  assumes "um_inv u" and "batch_ok b"
  shows "um_inv (um_consume b u)"
proof -
  have "um_inv (foldl (um_entry b) u (entries b))"
    by (rule foldl_inv) (use assms batch_okD(6) [OF assms(2)] um_entry_inv in auto)
  with assms show ?thesis by (simp add: um_consume_def)
qed

lemma um_fence_fold:
  "rolls_ok u \<Longrightarrow> l1_ok X u \<Longrightarrow>
     rolls_ok (foldl (\<lambda>u pid. remove_placement pid u) u pids) \<and> l1_ok X (foldl (\<lambda>u pid. remove_placement pid u) u pids) \<and>
     map_of (placement_sizes (foldl (\<lambda>u pid. remove_placement pid u) u pids)) =
       (\<lambda>p. if p \<in> set pids then None else map_of (placement_sizes u) p)"
  by (induction pids arbitrary: u) (auto simp: remove_rolls remove_l1)

lemma um_fence_fold_l1:
  "map_of (l1_by_instance u) i = None \<Longrightarrow> map_of (l1_by_instance (foldl (\<lambda>u pid. remove_placement pid u) u pids)) i = None"
proof (induction pids arbitrary: u)
  case (Cons pid pids)
  have "map_of (l1_by_instance (unindex pid u)) i = None"
    using Cons.prems by (cases pid) (auto simp: unindex.simps Let_def split: option.splits)
  with Cons show ?case by simp
qed simp

lemma um_fence_inv:
  assumes inv: "um_inv u"
  shows "um_inv (um_fence i u)"
    and "map_of (placement_sizes (um_fence i u)) = (\<lambda>p. if owns i p then None else map_of (placement_sizes u) p)"
proof -
  let ?u = "u\<lparr>l1_by_instance := dict_del i (l1_by_instance u)\<rparr>"
  let ?pids = "dict_get_default (l1_by_instance u) i []"
  have "rolls_ok ?u" and l1: "l1_ok {i} ?u" using inv by (auto simp: um_inv_def rolls_ok_def l1_ok_def)
  note f = um_fence_fold [OF this, of ?pids, folded um_fence_def]
  have pids: "set ?pids = {pid \<in> dict_dom (placement_sizes u). owns i pid}" using inv by (simp add: um_inv_def l1_ok_def)
  have sizes: "map_of (placement_sizes (um_fence i u)) p = (if owns i p then None else map_of (placement_sizes u) p)" for p
    using f pids by (auto simp: dict_dom_iff)
  then show "map_of (placement_sizes (um_fence i u)) = (\<lambda>p. if owns i p then None else map_of (placement_sizes u) p)" by (rule ext)
  have "dict_get_default (l1_by_instance (um_fence i u)) i [] = []"
    using um_fence_fold_l1 [of ?u i ?pids] by (simp add: um_fence_def dict_get_default_def)
  moreover have "{pid \<in> dict_dom (placement_sizes (um_fence i u)). owns i pid} = {}" using sizes by (auto simp: dict_dom_iff)
  ultimately have own: "distinct (dict_get_default (l1_by_instance (um_fence i u)) i []) \<and>
      set (dict_get_default (l1_by_instance (um_fence i u)) i []) = {pid \<in> dict_dom (placement_sizes (um_fence i u)). owns i pid}"
    by simp
  have "l1_ok {} (um_fence i u)"
    unfolding l1_ok_def
  proof (intro allI impI)
    fix j
    show "distinct (dict_get_default (l1_by_instance (um_fence i u)) j []) \<and>
        set (dict_get_default (l1_by_instance (um_fence i u)) j []) = {pid \<in> dict_dom (placement_sizes (um_fence i u)). owns j pid}"
      using own f by (cases "j = i") (simp_all add: l1_ok_def)
  qed
  with f show "um_inv (um_fence i u)" by (simp add: um_inv_def)
qed


section \<open>The view as a consumer of the gate\<close>

type_synonym sizes = "placement_id \<rightharpoonup> int"

definition abs_um_entry :: "event_batch \<Rightarrow> sizes \<Rightarrow> event_entry \<Rightarrow> sizes" where
  "abs_um_entry b m e =
     (let pid = (batch_tier b, ee_key e, batch_owner b, backend b)
      in case event_type b of
           STORE \<Rightarrow> m(pid \<mapsto> size_bytes e)
         | DELETE \<Rightarrow> m(pid := None)
         | _ \<Rightarrow> m)"

primrec abs_um_deliver :: "sizes \<Rightarrow> delivery \<Rightarrow> sizes" where
  "abs_um_deliver m (Consumed b) = foldl (abs_um_entry b) m (entries b)"
| "abs_um_deliver m (Fenced i) = (\<lambda>pid. if owns i pid then None else m pid)"

lemma um_entry_abs: "map_of (placement_sizes (um_entry b u e)) = abs_um_entry b (map_of (placement_sizes u)) e"
  by (rule ext) (cases "event_type b"; simp add: um_entry_def abs_um_entry_def Let_def)

lemma um_consume_abs: "map_of (placement_sizes (um_consume b u)) = foldl (abs_um_entry b) (map_of (placement_sizes u)) (entries b)"
proof (cases "event_type b = ACCESS")
  case True
  have "foldl (abs_um_entry b) m es = m" for m es
    by (induction es arbitrary: m) (simp_all add: abs_um_entry_def True)
  with True show ?thesis by (simp add: um_consume_def)
next
  case False
  have "map_of (placement_sizes (foldl (um_entry b) u es)) = foldl (abs_um_entry b) (map_of (placement_sizes u)) es" for u es
    by (induction es arbitrary: u) (simp_all add: um_entry_abs)
  with False show ?thesis by (simp add: um_consume_def)
qed

definition um_owners :: "usage_manager \<Rightarrow> string set" where
  "um_owners u = {i. \<exists>pid\<in>dict_dom (placement_sizes u). owns i pid}"

lemma um_broadcast [simp]:
  "broadcast [um_consumer] b u = um_consume b u" "broadcast_fence [um_consumer] i u = um_fence i u"
  by (simp_all add: broadcast_def broadcast_fence_def um_consumer_def)

lemma abs_um_entries_dom:
  "dom (foldl (abs_um_entry b) m es) \<subseteq> dom m \<union> {pid. \<exists>key. pid = (batch_tier b, key, batch_owner b, backend b)}"
proof (induction es arbitrary: m)
  case (Cons e es)
  have "dom (abs_um_entry b m e) \<subseteq> dom m \<union> {pid. \<exists>key. pid = (batch_tier b, key, batch_owner b, backend b)}"
    by (cases "event_type b") (auto simp: abs_um_entry_def split: if_splits)
  with Cons.IH [of "abs_um_entry b m e"] show ?case by auto
qed simp

lemma dict_dom_map_of: "dict_dom d = dom (map_of d)"
  by (auto simp: dict_dom_iff)

interpretation um: event_consumer "[um_consumer]" um_inv um_owners
proof unfold_locales
  fix s b assume inv: "um_inv s" and b: "batch_ok b"
  show "um_inv (broadcast [um_consumer] b s)" using um_consume_inv [OF inv b] by simp
  show "um_owners (broadcast [um_consumer] b s) \<subseteq> insert (instance_id b) (um_owners s)"
  proof
    fix i assume "i \<in> um_owners (broadcast [um_consumer] b s)"
    then obtain pid where "pid \<in> dict_dom (placement_sizes (um_consume b s))" and "owns i pid"
      by (auto simp: um_owners_def)
    then have "pid \<in> dom (foldl (abs_um_entry b) (map_of (placement_sizes s)) (entries b))" "owns i pid"
      by (simp_all add: dict_dom_map_of um_consume_abs)
    then consider "pid \<in> dom (map_of (placement_sizes s))" | key where "pid = (batch_tier b, key, batch_owner b, backend b)"
      using abs_um_entries_dom [of b "map_of (placement_sizes s)" "entries b"] by blast
    then show "i \<in> insert (instance_id b) (um_owners s)"
    proof cases
      case 1
      with \<open>owns i pid\<close> show ?thesis by (auto simp: um_owners_def dict_dom_map_of)
    next
      case 2
      with \<open>owns i pid\<close> show ?thesis by (auto simp: batch_owner_def split: if_splits)
    qed
  qed
next
  fix s i assume inv: "um_inv s"
  show "um_inv (broadcast_fence [um_consumer] i s)" using um_fence_inv [OF inv] by simp
  show "um_owners (broadcast_fence [um_consumer] i s) \<subseteq> um_owners s - {i}"
    using um_fence_inv(2) [OF inv, of i] by (auto simp: um_owners_def dict_dom_map_of split: if_splits)
qed

lemma um_inv_init: "um_inv um_init"
  by (simp add: um_inv_def um_init_def rolls_ok_def l1_ok_def sizes_ok_def rollup_ok_def)

definition um_run :: "gate_call list \<Rightarrow> usage_manager" where
  "um_run calls = snd (gate_run [um_consumer] calls ([], um_init))"

lemma um_run_inv:
  assumes "\<forall>c\<in>set calls. call_ok c"
  shows "um_inv (um_run calls)" and "um_owners (um_run calls) \<subseteq> dict_dom (gate_cursors calls)"
proof -
  have "um.tracked (gate_run [um_consumer] calls ([], um_init))"
    using assms by (intro um.run_tracked) (auto simp: um.tracked_def um_inv_init, simp add: um_owners_def um_init_def)
  then show "um_inv (um_run calls)" and "um_owners (um_run calls) \<subseteq> dict_dom (gate_cursors calls)"
    by (simp_all add: um.tracked_def um_run_def gate_run_replay)
qed

lemma um_deliver_abs:
  "um_inv u \<Longrightarrow> map_of (placement_sizes (deliver [um_consumer] u x)) = abs_um_deliver (map_of (placement_sizes u)) x"
  by (cases x) (simp_all add: um_consume_abs um_fence_inv(2))


section \<open>Rollups as sums\<close>

lemma roll_sum:
  "dict_wf ps \<Longrightarrow> roll f ps k = (\<Sum>p\<in>{p \<in> dom (map_of ps). f p = k}. the (map_of ps p))"
proof (induction ps)
  case (Cons x ps)
  obtain q v where x: "x = (q, v)" by fastforce
  have wf: "dict_wf ps" and q: "map_of ps q = None" using Cons.prems by (auto simp: x dict_wf_def map_of_eq_None_iff)
  let ?A = "{p \<in> dom (map_of ps). f p = k}"
  have fin: "finite ?A" by (simp add: finite_dom_map_of)
  have "q \<notin> ?A" using q by auto
  have cong: "(\<Sum>p\<in>?A. the (map_of (x # ps) p)) = (\<Sum>p\<in>?A. the (map_of ps p))"
    using q by (intro sum.cong) (auto simp: x)
  show ?case
  proof (cases "f q = k")
    case True
    then have dom: "{p \<in> dom (map_of (x # ps)). f p = k} = insert q ?A" by (auto simp: x)
    have "(\<Sum>p\<in>insert q ?A. the (map_of (x # ps) p)) = v + (\<Sum>p\<in>?A. the (map_of ps p))"
      unfolding sum.insert [OF fin \<open>q \<notin> ?A\<close>] cong by (simp add: x)
    with Cons.IH [OF wf] True show ?thesis unfolding dom by (simp add: x)
  next
    case False
    then have dom: "{p \<in> dom (map_of (x # ps)). f p = k} = ?A" by (auto simp: x)
    show ?thesis unfolding dom cong using Cons.IH [OF wf] False by (simp add: x)
  qed
qed simp

text \<open>A rollup of a rollup is the rollup by the composed key.\<close>

lemma roll_roll:
  assumes r: "rollup_ok f ps d" and ok: "sizes_ok ps"
  shows "roll g d k = roll (\<lambda>p. g (f p)) ps k"
proof -
  have wf: "dict_wf ps" "dict_wf d" using r ok by (auto simp: rollup_ok_def sizes_ok_def)
  let ?P = "{p \<in> dom (map_of ps). g (f p) = k}" and ?C = "{c \<in> dom (map_of d). g c = k}"
  have fin: "finite ?P" "finite (f ` ?P)" by (simp_all add: finite_dom_map_of)
  have eq: "dict_get_default d c 0 = (\<Sum>p\<in>{p \<in> dom (map_of ps). f p = c}. the (map_of ps p))" for c
    using r roll_sum [OF wf(1), of f c] by (simp add: rollup_ok_def)
  have sub: "?C \<subseteq> f ` ?P"
  proof
    fix c assume c: "c \<in> ?C"
    then obtain v where "map_of d c = Some v" "0 < v" using r by (auto simp: rollup_ok_def)
    then have "dict_get_default d c 0 \<noteq> 0" by (simp add: dict_get_default_def)
    then have "{p \<in> dom (map_of ps). f p = c} \<noteq> {}" unfolding eq by (metis sum.empty)
    with c show "c \<in> f ` ?P" by auto
  qed
  have "roll g d k = (\<Sum>c\<in>?C. dict_get_default d c 0)"
    unfolding roll_sum [OF wf(2)] by (intro sum.cong) (auto simp: dict_get_default_def)
  also have "\<dots> = (\<Sum>c\<in>f ` ?P. dict_get_default d c 0)"
    using fin sub by (intro sum.mono_neutral_left) (auto simp: dict_get_default_def split: option.splits)
  also have "\<dots> = (\<Sum>c\<in>f ` ?P. \<Sum>p\<in>{p \<in> ?P. f p = c}. the (map_of ps p))"
    unfolding eq by (intro sum.cong) (auto intro!: sum.cong)
  also have "\<dots> = (\<Sum>p\<in>?P. the (map_of ps p))" using fin by (intro sum.group) auto
  also have "\<dots> = roll (\<lambda>p. g (f p)) ps k" by (simp add: roll_sum [OF wf(1)])
  finally show ?thesis .
qed

definition bytes_of :: "sizes \<Rightarrow> (placement_id \<Rightarrow> bool) \<Rightarrow> int" where
  "bytes_of m P = (\<Sum>pid\<in>{pid \<in> dom m. P pid}. the (m pid))"

lemma reads_sum:
  assumes inv: "um_inv u"
  shows "get_salt_bytes t s u = bytes_of (map_of (placement_sizes u)) (\<lambda>pid. salt_id pid = (t, s))"
    and "get_key_bytes t k u = bytes_of (map_of (placement_sizes u)) (\<lambda>pid. key_id pid = (t, k))"
    and "get_total_bytes t u = bytes_of (map_of (placement_sizes u)) (\<lambda>pid. fst pid = t)"
    and "dict_get_default (instance_bytes u) (t, i, be) 0 = bytes_of (map_of (placement_sizes u)) (\<lambda>pid. node_id pid = (t, i, be))"
proof -
  have ok: "sizes_ok (placement_sizes u)" "dict_wf (placement_sizes u)" using inv by (auto simp: um_inv_def rolls_ok_def sizes_ok_def)
  have r: "rollup_ok key_id (placement_sizes u) (key_bytes u)" "rollup_ok salt_id (placement_sizes u) (salt_bytes u)"
    "rollup_ok node_id (placement_sizes u) (instance_bytes u)" using inv by (auto simp: um_inv_def rolls_ok_def)
  show "get_salt_bytes t s u = bytes_of (map_of (placement_sizes u)) (\<lambda>pid. salt_id pid = (t, s))"
    and "get_key_bytes t k u = bytes_of (map_of (placement_sizes u)) (\<lambda>pid. key_id pid = (t, k))"
    and "dict_get_default (instance_bytes u) (t, i, be) 0 = bytes_of (map_of (placement_sizes u)) (\<lambda>pid. node_id pid = (t, i, be))"
    using r roll_sum [OF ok(2)] by (simp_all add: rollup_ok_def get_salt_bytes_def get_key_bytes_def bytes_of_def)
  have tier: "fst (salt_id pid) = fst pid" for pid by (cases pid) simp
  have "get_total_bytes t u = roll fst (salt_bytes u) t"
    unfolding get_total_bytes_def roll_def
    by (rule arg_cong [where f = "\<lambda>P. sum_list (map snd (filter P (salt_bytes u)))"]) auto
  also have "\<dots> = roll (\<lambda>pid. fst (salt_id pid)) (placement_sizes u) t" by (rule roll_roll [OF r(2) ok(1)])
  also have "\<dots> = bytes_of (map_of (placement_sizes u)) (\<lambda>pid. fst pid = t)"
    by (simp add: roll_sum [OF ok(2)] tier bytes_of_def)
  finally show "get_total_bytes t u = bytes_of (map_of (placement_sizes u)) (\<lambda>pid. fst pid = t)" .
qed

lemma by_instance_read:
  assumes "dict_wf ds"
  shows "dict_get_default (dict_get_default (foldl (\<lambda>acc ((t', i, be), n).
        if t' = t then dict_set i (dict_set be n (dict_get_default acc i [])) acc else acc) [] ds) i []) be 0 =
    dict_get_default ds (t, i, be) 0"
  using assms
proof (induction ds rule: rev_induct)
  case (snoc x ds)
  obtain t' i' be' n where x: "x = ((t', i', be'), n)" by (metis prod.exhaust)
  have wf: "dict_wf ds" and "map_of ds (t', i', be') = None" using snoc.prems by (auto simp: x dict_wf_def map_of_eq_None_iff)
  then have "dict_get_default (ds @ [x]) (t, i, be) 0 = (if (t', i', be') = (t, i, be) then n else dict_get_default ds (t, i, be) 0)"
    by (auto simp: x dict_get_default_def map_add_def split: option.splits)
  then show ?case using snoc.IH [OF wf] by (auto simp: x)
qed simp

lemma get_bytes_by_instance_read:
  "um_inv u \<Longrightarrow> dict_get_default (dict_get_default (get_bytes_by_instance t u) i []) be 0 =
     bytes_of (map_of (placement_sizes u)) (\<lambda>pid. node_id pid = (t, i, be))"
  using by_instance_read [of "instance_bytes u" t i be] reads_sum(4) [of u t i be]
  by (simp add: get_bytes_by_instance_def um_inv_def rolls_ok_def rollup_ok_def)

lemma um_run_abs: "map_of (placement_sizes (um_run calls)) = foldl abs_um_deliver Map.empty (gate_log calls)"
  if "\<forall>c\<in>set calls. call_ok c"
proof -
  have "map_of (placement_sizes (foldl (deliver [um_consumer]) um_init lg)) = foldl abs_um_deliver Map.empty lg \<and>
      um_inv (foldl (deliver [um_consumer]) um_init lg)" if "\<forall>b. Consumed b \<in> set lg \<longrightarrow> batch_ok b" for lg
    using that
  proof (induction lg rule: rev_induct)
    case (snoc x lg)
    then have IH: "map_of (placement_sizes (foldl (deliver [um_consumer]) um_init lg)) = foldl abs_um_deliver Map.empty lg"
      "um_inv (foldl (deliver [um_consumer]) um_init lg)" by auto
    have "um_inv (deliver [um_consumer] (foldl (deliver [um_consumer]) um_init lg) x)"
      using IH(2) snoc.prems by (cases x) (simp_all add: um_consume_inv um_fence_inv(1))
    with IH show ?case by (simp add: um_deliver_abs)
  qed (simp add: um_init_def [THEN arg_cong [where f = placement_sizes]] um_inv_init)
  with log_ok [OF that] show ?thesis by (simp add: um_run_def gate_run_replay)
qed

section \<open>Restart\<close>

lemma sizes_ok_tl:
  assumes "sizes_ok (x # xs)"
  shows "sizes_ok xs"
proof -
  have "map_of (x # xs) p = Some v" if "map_of xs p = Some v" for p v
  proof -
    have "p \<in> fst ` set xs" using that by (metis map_of_isSome_keys)
    moreover have "fst x \<notin> fst ` set xs" using assms by (simp add: sizes_ok_def dict_wf_def)
    ultimately have "p \<noteq> fst x" by metis
    with that show ?thesis by (cases x) simp
  qed
  then show ?thesis using assms unfolding sizes_ok_def dict_wf_def by (metis distinct.simps(2) list.simps(9))
qed

lemma um_restore_loop_capture:
  assumes "rolls_ok u" and "l1_ok {} u" and "sizes_ok xs" and "dict_dom (placement_sizes u) \<inter> dict_dom xs = {}"
    and "\<forall>(t, key, owner, be)\<in>dict_dom xs. key_ok key"
  shows "\<exists>u'. um_restore_loop (map (\<lambda>((t, key, owner, be), sz). (tier_value t, encode_key key, owner, be, sz)) xs) u = Inr u' \<and>
    um_inv u' \<and> placement_sizes u' = placement_sizes u @ xs"
  using assms
proof (induction xs arbitrary: u)
  case Nil
  then show ?case by (simp add: um_inv_def)
next
  case (Cons x xs)
  obtain t key owner be sz where x: "x = ((t, key, owner, be), sz)" by (metis prod.exhaust)
  let ?pid = "(t, key, owner, be)" and ?u = "adjust (t, key, owner, be) sz (track_placement (t, key, owner, be) sz u)"
  have old: "map_of (placement_sizes u) ?pid = None" using Cons.prems(4) by (auto simp: x dict_dom_def map_of_eq_None_iff)
  have "map_of (x # xs) ?pid = Some sz" by (simp add: x)
  then have key: "key_ok key" and sz: "0 \<le> sz"
    using Cons.prems(3,5) unfolding sizes_ok_def by (auto simp: x dict_dom_def simp del: map_of.simps)
  have "rolls_ok ?u" using track_rolls [OF Cons.prems(1) sz, of ?pid] old key by (simp add: dict_get_default_def)
  moreover have "l1_ok {} ?u" using Cons.prems(2) by (rule track_l1)
  moreover have ps: "placement_sizes ?u = placement_sizes u @ [x]"
    using old by (simp add: x dict_set_new map_of_eq_None_iff)
  moreover have "sizes_ok xs" using Cons.prems(3) by (rule sizes_ok_tl)
  moreover have "dict_dom (placement_sizes ?u) \<inter> dict_dom xs = {}"
    using Cons.prems(3,4) unfolding ps by (auto simp: x sizes_ok_def dict_wf_def dict_dom_def)
  moreover have "\<forall>(t, key, owner, be)\<in>dict_dom xs. key_ok key" using Cons.prems(5) by (auto simp: dict_dom_def)
  ultimately obtain u' where
    "um_restore_loop (map (\<lambda>((t, key, owner, be), sz). (tier_value t, encode_key key, owner, be, sz)) xs) ?u = Inr u'"
    "um_inv u'" "placement_sizes u' = placement_sizes ?u @ xs"
    using Cons.IH [of ?u] by blast
  then show ?case using ps by (simp add: x decode_encode [OF key])
qed


lemma um_restore_capture:
  assumes "um_inv u"
  obtains u' where "um_restore (um_capture u) um_init = Inr u'" and "um_inv u'" and "placement_sizes u' = placement_sizes u"
proof -
  have "rolls_ok um_init" "l1_ok {} um_init" using um_inv_init by (auto simp: um_inv_def)
  moreover have "sizes_ok (placement_sizes u)" "\<forall>(t, key, owner, be)\<in>dict_dom (placement_sizes u). key_ok key"
    using assms by (auto simp: um_inv_def rolls_ok_def)
  moreover have "placement_sizes um_init = []" by (simp add: um_init_def)
  ultimately obtain u' where "um_restore_loop (um_capture u) um_init = Inr u'" "um_inv u'" "placement_sizes u' = placement_sizes u"
    using um_restore_loop_capture [of um_init "placement_sizes u"] by (auto simp: um_capture_def)
  with that \<open>placement_sizes um_init = []\<close> show ?thesis by (simp add: um_restore_def)
qed

section \<open>Properties\<close>

text \<open>
  C7. Byte accounting is exact. After any calls of the gate, every total the view reports (per
  salt, per key, per tier, per instance and backend) is the sum of the sizes of the placements
  that the delivered events left: last store of each placement, minus the deleted ones, minus
  the private L1 placements of fenced instances. The incremental rollups never drift, and an
  instance that still has L1 bytes has a cursor, so that its restart will be fenced.
\<close>

theorem usage_refines_log:
  assumes "\<forall>c\<in>set calls. call_ok c"
  defines "m \<equiv> foldl abs_um_deliver Map.empty (gate_log calls)"
  shows "get_salt_bytes t s (um_run calls) = bytes_of m (\<lambda>pid. salt_id pid = (t, s)) \<and>
    get_key_bytes t k (um_run calls) = bytes_of m (\<lambda>pid. key_id pid = (t, k)) \<and>
    get_total_bytes t (um_run calls) = bytes_of m (\<lambda>pid. fst pid = t) \<and>
    dict_get_default (dict_get_default (get_bytes_by_instance t (um_run calls)) i []) be 0 =
      bytes_of m (\<lambda>pid. node_id pid = (t, i, be)) \<and>
    (\<forall>pid\<in>dom m. owns i pid \<longrightarrow> i \<in> dict_dom (gate_cursors calls))"
proof -
  note inv = um_run_inv [OF assms(1)] and m = um_run_abs [OF assms(1), folded m_def]
  have "\<forall>pid\<in>dom m. owns i pid \<longrightarrow> i \<in> dict_dom (gate_cursors calls)"
    using inv(2) unfolding um_owners_def dict_dom_map_of [of "placement_sizes (um_run calls)"] m by blast
  then show ?thesis
    using reads_sum [OF inv(1), of t] get_bytes_by_instance_read [OF inv(1), of t i be] by (simp add: m)
qed

theorem usage_refines_log_witness:
  "get_total_bytes L2 (um_run demo_calls) =
     bytes_of (foldl abs_um_deliver Map.empty (gate_log demo_calls)) (\<lambda>pid. fst pid = L2)"
  using usage_refines_log [OF demo_calls_ok] by simp

text \<open>
  A checkpoint of the usage view holds only the placements; restoring it into an empty view
  rebuilds every rollup to the same value, and a view that already accounts bytes refuses.
\<close>

lemma usage_checkpoint:
  assumes "\<forall>c\<in>set calls. call_ok c"
  shows "(\<exists>u. um_restore (um_capture (um_run calls)) um_init = Inr u \<and>
      placement_sizes u = placement_sizes (um_run calls) \<and>
      (\<forall>t s. get_salt_bytes t s u = get_salt_bytes t s (um_run calls)) \<and>
      (\<forall>t k. get_key_bytes t k u = get_key_bytes t k (um_run calls)) \<and>
      (\<forall>t. get_total_bytes t u = get_total_bytes t (um_run calls)) \<and>
      (\<forall>i. map_of (placement_sizes (um_fence i u)) = map_of (placement_sizes (um_fence i (um_run calls))))) \<and>
    (placement_sizes u' \<noteq> [] \<longrightarrow> um_restore st u' = Inl ValueError)"
proof -
  note inv = um_run_inv(1) [OF assms]
  obtain u where u: "um_restore (um_capture (um_run calls)) um_init = Inr u" "um_inv u"
    "placement_sizes u = placement_sizes (um_run calls)" by (rule um_restore_capture [OF inv])
  have "\<forall>t s. get_salt_bytes t s u = get_salt_bytes t s (um_run calls)" "\<forall>t k. get_key_bytes t k u = get_key_bytes t k (um_run calls)"
    "\<forall>t. get_total_bytes t u = get_total_bytes t (um_run calls)"
    by (simp_all add: reads_sum [OF inv] reads_sum [OF u(2)] u(3))
  moreover have "\<forall>i. map_of (placement_sizes (um_fence i u)) = map_of (placement_sizes (um_fence i (um_run calls)))"
    unfolding um_fence_inv(2) [OF inv] um_fence_inv(2) [OF u(2)] u(3) by simp
  ultimately show ?thesis using u by (auto simp: um_restore_def)
qed

end
