(* ===== verification/Instance_Registry.thy ===== *)
theory Instance_Registry
  imports Prelude
begin

text \<open>
  \<^verbatim>\<open>lmcache/v1/mp_coordinator/registry.py\<close>: \<open>InstanceRegistry\<close>, fleet membership, and
  \<open>evict_stale\<close> of \<^verbatim>\<open>lmcache/v1/mp_coordinator/app.py\<close>. The clock is an argument of the operations
  that read it, and \<open>random.choice\<close> is an argument that picks an element of a list.
\<close>

record mp_instance =
  mi_instance_id :: string
  mi_ip :: string
  mi_http_port :: int
  registration_time :: pyfloat
  last_heartbeat_time :: pyfloat
  metadata :: "(string, string) pydict"
  p2p_advertised_url :: string
  mq_port :: int

type_synonym registry = "(string, mp_instance) pydict"

definition register :: "mp_instance \<Rightarrow> registry \<Rightarrow> registry \<times> bool" where
  "register inst r =
     (let existed = (dict_get r (mi_instance_id inst) \<noteq> None)
      in (dict_set (mi_instance_id inst) inst r, existed))"

definition deregister :: "string \<Rightarrow> registry \<Rightarrow> registry \<times> mp_instance option" where
  "deregister i r = (dict_del i r, dict_get r i)"

definition reg_get :: "string \<Rightarrow> registry \<Rightarrow> mp_instance option" where
  "reg_get i r = dict_get r i"

definition reg_contains :: "string \<Rightarrow> registry \<Rightarrow> bool" where
  "reg_contains i r = (dict_get r i \<noteq> None)"

definition all_instances :: "registry \<Rightarrow> mp_instance list" where
  "all_instances r = dict_values r"

definition random_instance :: "(mp_instance list \<Rightarrow> mp_instance) \<Rightarrow> registry \<Rightarrow> mp_instance option" where
  "random_instance choice r = (if dict_values r = [] then None else Some (choice (dict_values r)))"

definition update_heartbeat :: "string \<Rightarrow> pyfloat \<Rightarrow> registry \<Rightarrow> registry \<times> bool" where
  "update_heartbeat i timestamp r =
     (case dict_get r i of
        None \<Rightarrow> (r, False)
      | Some inst \<Rightarrow> (dict_set i (inst\<lparr>last_heartbeat_time := timestamp\<rparr>) r, True))"

definition reg_stale :: "(rat \<Rightarrow> rat) \<Rightarrow> pyfloat \<Rightarrow> pyfloat \<Rightarrow> registry \<Rightarrow> string list" where
  "reg_stale rnd now timeout r = map fst (filter (\<lambda>(i, inst). rnd (now - last_heartbeat_time inst) > timeout) r)"

definition evict_stale :: "(rat \<Rightarrow> rat) \<Rightarrow> pyfloat \<Rightarrow> pyfloat \<Rightarrow> registry \<Rightarrow> registry \<times> string list" where
  "evict_stale rnd now timeout r =
     foldl (\<lambda>(r, evicted) i.
        case deregister i r of (r', removed) \<Rightarrow> if removed \<noteq> None then (r', evicted @ [i]) else (r', evicted))
      (r, []) (reg_stale rnd now timeout r)"

section \<open>A sweep removes exactly the stale instances\<close>

lemma evict_loop:
  "distinct is \<Longrightarrow> set is \<subseteq> dict_dom r \<Longrightarrow>
     foldl (\<lambda>(r, evicted) i.
        case deregister i r of (r', removed) \<Rightarrow> if removed \<noteq> None then (r', evicted @ [i]) else (r', evicted)) (r, ev) is =
     (filter (\<lambda>x. fst x \<notin> set is) r, ev @ is)"
proof (induction "is" arbitrary: r ev)
  case (Cons i "is")
  have "map_of r i \<noteq> None" using Cons.prems(2) by (simp add: dict_dom_iff)
  moreover have "set is \<subseteq> dict_dom (dict_del i r)" using Cons.prems by auto
  moreover have "dict_del i r = filter (\<lambda>x. fst x \<noteq> i) r" by (induction r) auto
  ultimately show ?case
    using Cons.IH [of "dict_del i r" "ev @ [i]"] Cons.prems(1) by (auto simp: deregister_def intro!: filter_cong)
qed simp

lemma evict_stale_spec:
  assumes "dict_wf r"
  shows "evict_stale rnd now timeout r =
    (filter (\<lambda>x. \<not> rnd (now - last_heartbeat_time (snd x)) > timeout) r, reg_stale rnd now timeout r)"
proof -
  let ?is = "reg_stale rnd now timeout r"
  have d: "distinct ?is" using assms by (simp add: reg_stale_def dict_wf_def distinct_map_filter)
  have s: "set ?is \<subseteq> dict_dom r" by (auto simp: reg_stale_def dict_dom_def)
  have "filter (\<lambda>x. fst x \<notin> set ?is) r = filter (\<lambda>x. \<not> rnd (now - last_heartbeat_time (snd x)) > timeout) r"
  proof (rule filter_cong)
    fix x assume x: "x \<in> set r"
    have "y = x" if "y \<in> set r" "fst y = fst x" for y
      using assms x that unfolding dict_wf_def by (metis eq_key_imp_eq_value prod.collapse)
    moreover have "fst x \<in> set ?is \<longleftrightarrow> (\<exists>y\<in>set r. fst y = fst x \<and> rnd (now - last_heartbeat_time (snd y)) > timeout)"
      by (auto simp: reg_stale_def image_iff Bex_def)
    ultimately show "fst x \<notin> set ?is \<longleftrightarrow> \<not> rnd (now - last_heartbeat_time (snd x)) > timeout"
      using x by metis
  qed simp
  with evict_loop [OF d s, of "[]"] show ?thesis by (simp add: evict_stale_def)
qed

end
