(* ===== verification/Address_Manager.thy ===== *)
theory Address_Manager
  imports Prelude
begin

unbundle bit_operations_syntax

text \<open>
  \<^verbatim>\<open>lmcache/v1/memory_management.py\<close>: \<open>FreeBlock\<close> and \<open>AddressManager\<close>, the first-fit allocator
  over an explicit free list that backs every pinned-memory tier.

  The free list is a \<open>SortedList\<close> keyed on the start address. \<open>SortedList\<close> comes from the
  package \<^verbatim>\<open>sortedcontainers\<close>, which is not part of the repository: its operations are the
  parameter \<open>sl\<close> of the definitions, and \<open>sorted_list_spec\<close> states the documented
  behaviour that the allocator relies on. A list object is represented by the sequence of
  its values in iteration order.
\<close>

section \<open>Data\<close>

record free_block =
  fb_start :: int
  fb_size :: int

record sorted_list_ops =
  sl_add :: "free_block \<Rightarrow> free_block list \<Rightarrow> free_block list"
  sl_remove :: "free_block \<Rightarrow> free_block list \<Rightarrow> free_block list"
  sl_bisect_left :: "free_block \<Rightarrow> free_block list \<Rightarrow> nat"

record address_manager =
  am_size :: int
  am_align :: int
  am_list :: "free_block list"
  am_total :: int  \<comment> \<open>\<open>total_allocated_size\<close>\<close>

definition sorted_list_spec :: "sorted_list_ops \<Rightarrow> bool" where
  "sorted_list_spec sl \<longleftrightarrow>
     (\<forall>x xs. sorted (map fb_start xs) \<longrightarrow>
        sorted (map fb_start (sl_add sl x xs)) \<and> mset (sl_add sl x xs) = add_mset x (mset xs)) \<and>
     (\<forall>x xs. sorted (map fb_start xs) \<longrightarrow> x \<in> set xs \<longrightarrow>
        sorted (map fb_start (sl_remove sl x xs)) \<and> mset (sl_remove sl x xs) = mset xs - {#x#}) \<and>
     (\<forall>x xs. sorted (map fb_start xs) \<longrightarrow>
        sl_bisect_left sl x xs \<le> length xs \<and>
        (\<forall>i < sl_bisect_left sl x xs. fb_start (xs ! i) < fb_start x) \<and>
        (\<forall>i < length xs. sl_bisect_left sl x xs \<le> i \<longrightarrow> fb_start x \<le> fb_start (xs ! i)))"

section \<open>Operations\<close>

definition can_be_coalesced :: "free_block \<Rightarrow> free_block \<Rightarrow> bool" where
  "can_be_coalesced b succ \<longleftrightarrow> fb_start b + fb_size b = fb_start succ"

definition ALIGN_BYTES :: int where
  "ALIGN_BYTES = 4096"

definition am_init :: "sorted_list_ops \<Rightarrow> int \<Rightarrow> int \<Rightarrow> address_manager" where
  "am_init sl sz align =
     \<lparr>am_size = sz, am_align = align,
      am_list = sl_add sl \<lparr>fb_start = 0, fb_size = sz\<rparr> [], am_total = 0\<rparr>"

definition compute_aligned_size :: "address_manager \<Rightarrow> int \<Rightarrow> int" where
  "compute_aligned_size m raw_size = (raw_size + am_align m - 1) AND NOT (am_align m - 1)"

definition can_merge_with_prev :: "free_block \<Rightarrow> free_block \<Rightarrow> bool" where
  "can_merge_with_prev blk prev = can_be_coalesced prev blk"

definition can_merge_with_succ :: "free_block \<Rightarrow> free_block \<Rightarrow> bool" where
  "can_merge_with_succ blk succ = can_be_coalesced blk succ"

text \<open>
  \<open>_coalesce\<close> mutates the neighbouring block objects in place. The previous block is named
  by its index, so that growing it is an update of the list at that index (its key, the
  start, does not change); the successor is removed and, when only it is merged, re-added
  with its new start.
\<close>

definition coalesce ::
  "sorted_list_ops \<Rightarrow> free_block list \<Rightarrow> free_block \<Rightarrow> nat option \<Rightarrow> free_block option
     \<Rightarrow> bool \<times> free_block list" where
  "coalesce sl xs blk prev succ =
     (let merge_prev = (case prev of None \<Rightarrow> False | Some i \<Rightarrow> can_merge_with_prev blk (xs ! i));
          merge_succ = (case succ of None \<Rightarrow> False | Some s \<Rightarrow> can_merge_with_succ blk s)
      in case (merge_prev, merge_succ) of
           (True, True) \<Rightarrow>
             (let i = the prev; s = the succ; p = xs ! i;
                  p' = p\<lparr>fb_size := fb_size p + (fb_size blk + fb_size s)\<rparr>
              in (True, sl_remove sl s (xs[i := p'])))
         | (True, False) \<Rightarrow>
             (let i = the prev; p = xs ! i
              in (True, xs[i := p\<lparr>fb_size := fb_size p + fb_size blk\<rparr>]))
         | (False, True) \<Rightarrow>
             (let s = the succ;
                  s' = s\<lparr>fb_start := fb_start s - fb_size blk, fb_size := fb_size s + fb_size blk\<rparr>
              in (True, sl_add sl s' (sl_remove sl s xs)))
         | (False, False) \<Rightarrow> (False, xs))"

definition am_allocate ::
  "sorted_list_ops \<Rightarrow> address_manager \<Rightarrow> int \<Rightarrow> ((int \<times> int) \<times> address_manager) result" where
  "am_allocate sl m sz =
     (let n = compute_aligned_size m sz
      in case List.find (\<lambda>b. fb_size b \<ge> n) (am_list m) of
           None \<Rightarrow> Inl RuntimeError
         | Some b \<Rightarrow>
             (let xs = sl_remove sl b (am_list m);
                  xs' = (if fb_size b > n
                         then sl_add sl \<lparr>fb_start = fb_start b + n, fb_size = fb_size b - n\<rparr> xs
                         else xs)
              in Inr ((fb_start b, n), m\<lparr>am_list := xs', am_total := am_total m + n\<rparr>)))"

text \<open>
  The loop of \<open>batched_allocate\<close> over the free list, with its four locals: the remaining
  count, the results, the blocks to remove and the blocks to add. A zero aligned size
  divides by zero, as \<open>block.size // aligned_size\<close> does.
\<close>

record batch_state =
  bs_remaining :: int
  bs_result :: "(int \<times> int) list"
  bs_remove :: "free_block list"
  bs_add :: "free_block list"

fun batch_loop :: "int \<Rightarrow> free_block list \<Rightarrow> batch_state \<Rightarrow> batch_state result" where
  "batch_loop n [] st = Inr st"
| "batch_loop n (b # bs) st =
     (if bs_remaining st \<le> 0 then Inr st
      else if fb_size b < n then batch_loop n bs st
      else if n = 0 then Inl ZeroDivisionError
      else (let num = min (bs_remaining st) (fb_size b div n);
                used = num * n
            in batch_loop n bs
                 \<lparr>bs_remaining = bs_remaining st - num,
                  bs_result = bs_result st @ map (\<lambda>i. (fb_start b + i * n, n)) [0..num - 1],
                  bs_remove = bs_remove st @ [b],
                  bs_add = (if fb_size b > used
                            then bs_add st @ [\<lparr>fb_start = fb_start b + used, fb_size = fb_size b - used\<rparr>]
                            else bs_add st)\<rparr>))"

definition am_batched_allocate ::
  "sorted_list_ops \<Rightarrow> address_manager \<Rightarrow> int \<Rightarrow> int
     \<Rightarrow> ((int \<times> int) list \<times> address_manager) result" where
  "am_batched_allocate sl m sz batch_size =
     (let n = compute_aligned_size m sz
      in case batch_loop n (am_list m)
                \<lparr>bs_remaining = batch_size, bs_result = [], bs_remove = [], bs_add = []\<rparr> of
           Inl e \<Rightarrow> Inl e
         | Inr st \<Rightarrow>
             if bs_remaining st > 0 then Inl RuntimeError
             else if int (length (bs_result st)) \<noteq> batch_size then Inl RuntimeError
             else Inr (bs_result st,
                    m\<lparr>am_list := fold (sl_add sl) (bs_add st)
                                   (fold (sl_remove sl) (bs_remove st) (am_list m)),
                      am_total := am_total m + n * batch_size\<rparr>))"

definition am_free :: "sorted_list_ops \<Rightarrow> address_manager \<Rightarrow> int \<Rightarrow> int \<Rightarrow> address_manager" where
  "am_free sl m address sz =
     (let xs = am_list m;
          new_free_block = \<lparr>fb_start = address, fb_size = sz\<rparr>;
          index = sl_bisect_left sl new_free_block xs;
          prev = (if index > 0 then Some (index - 1) else None);
          succ = (if index < length xs then Some (xs ! index) else None);
          (coalesced, xs') = coalesce sl xs new_free_block prev succ;
          xs'' = (if \<not> coalesced then sl_add sl new_free_block xs' else xs')
      in m\<lparr>am_list := xs'', am_total := am_total m - sz\<rparr>)"

definition am_sbrk :: "sorted_list_ops \<Rightarrow> address_manager \<Rightarrow> int \<Rightarrow> address_manager" where
  "am_sbrk sl m sz0 =
     (let sz = compute_aligned_size m sz0;
          xs = am_list m;
          new_block = \<lparr>fb_start = am_size m, fb_size = sz\<rparr>;
          prev = (if length xs > 0 then Some (length xs - 1) else None);
          (coalesced, xs') = coalesce sl xs new_block prev None;
          xs'' = (if \<not> coalesced then sl_add sl new_block xs' else xs')
      in m\<lparr>am_list := xs'', am_size := am_size m + sz\<rparr>)"

definition get_heap_size :: "address_manager \<Rightarrow> int" where
  "get_heap_size m = am_size m"

definition get_free_size :: "address_manager \<Rightarrow> int" where
  "get_free_size m = am_size m - am_total m"

fun has_mergeable :: "free_block list \<Rightarrow> bool" where
  "has_mergeable (a # b # bs) = (can_be_coalesced a b \<or> has_mergeable (b # bs))"
| "has_mergeable _ = False"

definition check_consistency :: "address_manager \<Rightarrow> bool" where
  "check_consistency m \<longleftrightarrow>
     \<not> has_mergeable (am_list m) \<and>
     sum_list (map fb_size (am_list m)) + am_total m = am_size m"


section \<open>Free lists and byte ownership\<close>

text \<open>
  \<open>owners rs x\<close> counts the ranges of a list that hold the byte at address \<open>x\<close>. Every
  conservation law of the allocator is an equation between such counts: no byte is ever
  lost, and none is handed out twice.
\<close>

abbreviation fb_end :: "free_block \<Rightarrow> int" where
  "fb_end b \<equiv> fb_start b + fb_size b"

definition owners :: "(int \<times> int) list \<Rightarrow> int \<Rightarrow> nat" where
  "owners rs x = length (filter (\<lambda>(a, n). a \<le> x \<and> x < a + n) rs)"

definition block_ranges :: "free_block list \<Rightarrow> (int \<times> int) list" where
  "block_ranges xs = map (\<lambda>b. (fb_start b, fb_size b)) xs"

definition free_ranges :: "address_manager \<Rightarrow> (int \<times> int) list" where
  "free_ranges m = block_ranges (am_list m)"

definition blocks_wf :: "int \<Rightarrow> free_block list \<Rightarrow> bool" where
  "blocks_wf hi xs \<longleftrightarrow>
     sorted_wrt (\<lambda>a b. fb_end a < fb_start b) xs \<and>
     (\<forall>b\<in>set xs. 0 \<le> fb_start b \<and> 0 < fb_size b \<and> fb_end b \<le> hi)"

definition am_inv :: "address_manager \<Rightarrow> bool" where
  "am_inv m \<longleftrightarrow>
     (\<exists>k::nat. am_align m = 2 ^ k) \<and> 0 \<le> am_size m \<and>
     blocks_wf (am_size m) (am_list m) \<and>
     sum_list (map fb_size (am_list m)) + am_total m = am_size m"

lemma owners_Nil [simp]: "owners [] x = 0"
  by (simp add: owners_def)

lemma owners_Cons [simp]:
  "owners ((a, n) # rs) x = (if a \<le> x \<and> x < a + n then Suc (owners rs x) else owners rs x)"
  by (simp add: owners_def)

lemma owners_append [simp]: "owners (rs @ ss) x = owners rs x + owners ss x"
  by (simp add: owners_def)

lemma owners_remove1: "r \<in> set rs \<Longrightarrow> owners (remove1 r rs) x + owners [r] x = owners rs x"
  by (induction rs) auto

lemma owners_0_iff: "owners rs x = 0 \<longleftrightarrow> (\<forall>(a, n)\<in>set rs. \<not> (a \<le> x \<and> x < a + n))"
  by (auto simp: owners_def filter_empty_conv)

lemma block_ranges_simps [simp]:
  "block_ranges [] = []"
  "block_ranges (b # xs) = (fb_start b, fb_size b) # block_ranges xs"
  "block_ranges (xs @ ys) = block_ranges xs @ block_ranges ys"
  by (simp_all add: block_ranges_def)

lemma blocks_wf_Nil [simp]: "blocks_wf hi []"
  by (simp add: blocks_wf_def)

lemma blocks_wf_Cons:
  "blocks_wf hi (b # xs) \<longleftrightarrow>
     0 \<le> fb_start b \<and> 0 < fb_size b \<and> fb_end b \<le> hi \<and>
     (\<forall>c\<in>set xs. fb_end b < fb_start c) \<and> blocks_wf hi xs"
  by (auto simp: blocks_wf_def)

lemma blocks_wf_append:
  "blocks_wf hi (xs @ ys) \<longleftrightarrow>
     blocks_wf hi xs \<and> blocks_wf hi ys \<and> (\<forall>a\<in>set xs. \<forall>b\<in>set ys. fb_end a < fb_start b)"
  by (auto simp: blocks_wf_def sorted_wrt_append)

lemmas blocks_wf_simps = blocks_wf_Cons blocks_wf_append

lemma blocks_wf_strict:
  assumes "blocks_wf hi xs"
  shows "sorted_wrt (\<lambda>a b. fb_start a < fb_start b) xs"
  using assms by (induction xs) (force simp: blocks_wf_Cons)+

lemma blocks_wf_sorted: "blocks_wf hi xs \<Longrightarrow> sorted (map fb_start xs)"
  by (induction xs) (force simp: blocks_wf_Cons)+

lemma blocks_wf_no_merge: "blocks_wf hi xs \<Longrightarrow> \<not> has_mergeable xs"
  by (induction xs rule: has_mergeable.induct) (auto simp: blocks_wf_Cons can_be_coalesced_def)

lemma blocks_wf_mono: "blocks_wf hi xs \<Longrightarrow> hi \<le> hi' \<Longrightarrow> blocks_wf hi' xs"
  by (auto simp: blocks_wf_def)

section \<open>Using the sorted list\<close>

lemma sorted_blocks_unique:
  assumes "sorted (map fb_start xs)" and "mset xs = mset ys" and "blocks_wf hi ys"
  shows "xs = ys"
proof -
  have ys: "sorted_wrt (\<lambda>a b. fb_start a < fb_start b) ys"
    using assms(3) by (rule blocks_wf_strict)
  then have "distinct (map fb_start ys)"
    by (induction ys) auto
  then have "distinct (map fb_start xs)"
    using assms(2) by (metis mset_map mset_eq_imp_distinct_iff)
  with assms(1) have "sorted_wrt (\<lambda>a b. fb_start a < fb_start b) xs"
    by (rule sorted_distinct_key_strict)
  then show ?thesis
    using ys assms(2) by (intro strict_sorted_key_unique) (auto dest: mset_eq_setD)
qed

lemma sl_add_at:
  assumes "sorted_list_spec sl" and "blocks_wf hi (ys @ zs)" and "blocks_wf hi' (ys @ x # zs)"
  shows "sl_add sl x (ys @ zs) = ys @ x # zs"
  using assms
  by (intro sorted_blocks_unique [OF _ _ assms(3)])
    (auto simp: sorted_list_spec_def dest: blocks_wf_sorted)

lemma sl_remove_at:
  assumes "sorted_list_spec sl" and "blocks_wf hi (ys @ x # zs)"
  shows "sl_remove sl x (ys @ x # zs) = ys @ zs"
proof (rule sorted_blocks_unique)
  have "sorted (map fb_start (ys @ x # zs))" using assms(2) by (rule blocks_wf_sorted)
  then show "sorted (map fb_start (sl_remove sl x (ys @ x # zs)))"
    and "mset (sl_remove sl x (ys @ x # zs)) = mset (ys @ zs)"
    using assms(1) by (auto simp: sorted_list_spec_def)
  show "blocks_wf hi (ys @ zs)" using assms(2) by (auto simp: blocks_wf_simps)
qed

lemma sl_bisect_split:
  assumes "sorted_list_spec sl" and "sorted (map fb_start xs)"
    and "i = sl_bisect_left sl x xs"
  shows "i \<le> length xs" and "\<forall>y\<in>set (take i xs). fb_start y < fb_start x"
    and "\<forall>z\<in>set (drop i xs). fb_start x \<le> fb_start z"
  using assms by (auto simp: sorted_list_spec_def in_set_conv_nth)

section \<open>Alignment\<close>

lemma and_not_pow2: "(x::int) AND NOT (2 ^ k - 1) = x - x mod 2 ^ k"
proof -
  have a: "x mod 2 ^ k = x AND mask k" by (simp add: take_bit_eq_mask flip: take_bit_eq_mod)
  have b: "NOT x AND (x AND mask k) = 0" by (simp add: bit_eq_iff bit_simps)
  have "x - (x AND mask k) = x AND NOT (x AND mask k)"
    by (rule disjunctive_diff_eq_and_not [OF b])
  also have "\<dots> = x AND NOT (mask k)" by (auto simp: bit_eq_iff bit_simps)
  finally show ?thesis by (simp add: a mask_eq_exp_minus_1)
qed

lemma compute_aligned_size_pow2:
  assumes "am_align m = 2 ^ k"
  shows "am_align m dvd compute_aligned_size m r" and "r \<le> compute_aligned_size m r"
    and "compute_aligned_size m r < r + am_align m"
proof -
  let ?a = "(2::int) ^ k"
  have eq: "compute_aligned_size m r = (r + ?a - 1) - (r + ?a - 1) mod ?a"
    by (simp add: compute_aligned_size_def assms and_not_pow2)
  have pos: "0 < ?a" by simp
  have "0 \<le> (r + ?a - 1) mod ?a" "(r + ?a - 1) mod ?a < ?a" by simp_all
  then show "r \<le> compute_aligned_size m r" "compute_aligned_size m r < r + am_align m"
    using eq assms by linarith+
  show "am_align m dvd compute_aligned_size m r"
    by (simp add: eq assms dvd_minus_mod)
qed

lemma am_inv_aligned_size:
  assumes "am_inv m"
  shows "am_align m dvd compute_aligned_size m r" and "r \<le> compute_aligned_size m r"
  using assms compute_aligned_size_pow2 by (auto simp: am_inv_def)

section \<open>Laws of the operations\<close>

lemma am_init_inv:
  assumes "sorted_list_spec sl" and "0 < sz"
  shows "am_inv (am_init sl sz (2 ^ k))"
    and "owners (free_ranges (am_init sl sz (2 ^ k))) x = (if 0 \<le> x \<and> x < sz then 1 else 0)"
proof -
  have "sl_add sl \<lparr>fb_start = 0, fb_size = sz\<rparr> ([] @ []) = [] @ \<lparr>fb_start = 0, fb_size = sz\<rparr> # []"
    by (rule sl_add_at [OF assms(1), where hi = sz and hi' = sz])
      (use assms(2) in \<open>auto simp: blocks_wf_simps\<close>)
  then show "am_inv (am_init sl sz (2 ^ k))"
    and "owners (free_ranges (am_init sl sz (2 ^ k))) x = (if 0 \<le> x \<and> x < sz then 1 else 0)"
    using assms(2) by (auto simp: am_init_def am_inv_def free_ranges_def blocks_wf_simps)
qed

text \<open>A successful allocation takes the front of the first block that fits.\<close>

lemma am_allocate_split:
  assumes "sorted_list_spec sl" and "am_inv m" and "0 < sz"
    and "am_allocate sl m sz = Inr ((a, n), m')"
  obtains ys b zs where
    "am_list m = ys @ b # zs" "\<forall>y\<in>set ys. fb_size y < n" "n \<le> fb_size b" "a = fb_start b"
    "n = compute_aligned_size m sz" "0 < n"
    "m' = m\<lparr>am_list := ys @ (if fb_size b > n
              then [\<lparr>fb_start = a + n, fb_size = fb_size b - n\<rparr>] else []) @ zs,
            am_total := am_total m + n\<rparr>"
proof -
  let ?n = "compute_aligned_size m sz"
  have pos: "0 < ?n" using am_inv_aligned_size(2) [OF assms(2), of sz] assms(3) by simp
  from assms(4) obtain b where f: "List.find (\<lambda>b. fb_size b \<ge> ?n) (am_list m) = Some b"
    by (auto simp: am_allocate_def Let_def split: option.splits)
  from find_split [OF f] obtain ys zs where
    sp: "am_list m = ys @ b # zs" "?n \<le> fb_size b" "\<forall>y\<in>set ys. fb_size y < ?n"
    by (metis not_le)
  have wf: "blocks_wf (am_size m) (ys @ b # zs)" using assms(2) sp by (simp add: am_inv_def)
  then have rm: "sl_remove sl b (ys @ b # zs) = ys @ zs"
    by (rule sl_remove_at [OF assms(1)])
  have ad: "sl_add sl \<lparr>fb_start = fb_start b + ?n, fb_size = fb_size b - ?n\<rparr> (ys @ zs) =
      ys @ \<lparr>fb_start = fb_start b + ?n, fb_size = fb_size b - ?n\<rparr> # zs" if "?n < fb_size b"
    by (rule sl_add_at [OF assms(1), where hi = "am_size m" and hi' = "am_size m"])
      (use wf pos that in \<open>force simp: blocks_wf_simps\<close>)+
  from assms(4) f have "a = fb_start b" "n = ?n" 
    by (auto simp: am_allocate_def Let_def)
  moreover from assms(4) f have "m' = m\<lparr>am_list := ys @ (if fb_size b > n
              then [\<lparr>fb_start = a + n, fb_size = fb_size b - n\<rparr>] else []) @ zs,
            am_total := am_total m + n\<rparr>"
    using sp rm ad by (auto simp: am_allocate_def Let_def)
  ultimately show ?thesis using that sp pos by simp
qed

lemma am_allocate_law:
  assumes "sorted_list_spec sl" and "am_inv m" and "0 < sz"
    and "am_allocate sl m sz = Inr ((a, n), m')"
  shows "am_inv m'" and "sz \<le> n" and "am_size m' = am_size m" and "am_total m' = am_total m + n"
    and "owners (free_ranges m') x + owners [(a, n)] x = owners (free_ranges m) x"
proof -
  from am_allocate_split [OF assms] obtain ys b zs where
    sp: "am_list m = ys @ b # zs" "n \<le> fb_size b" "a = fb_start b"
      "n = compute_aligned_size m sz" "0 < n" and
    m': "m' = m\<lparr>am_list := ys @ (if fb_size b > n
              then [\<lparr>fb_start = a + n, fb_size = fb_size b - n\<rparr>] else []) @ zs,
            am_total := am_total m + n\<rparr>" by blast
  from assms(2) sp have wf: "blocks_wf (am_size m) (ys @ b # zs)" by (simp add: am_inv_def)
  with sp have "blocks_wf (am_size m) (am_list m')"
    unfolding m' by (force simp: blocks_wf_simps)
  with assms(2) sp m' show "am_inv m'" by (auto simp: am_inv_def)
  show "sz \<le> n" using am_inv_aligned_size(2) [OF assms(2)] sp by simp
  show "am_size m' = am_size m" "am_total m' = am_total m + n" using m' by simp_all
  show "owners (free_ranges m') x + owners [(a, n)] x = owners (free_ranges m) x"
    using sp m' by (auto simp: free_ranges_def)
qed

text \<open>
  \<open>_coalesce\<close> around an insertion point: the list is split into the blocks before and after
  the new one, and the result is the list with the new block merged into its neighbours.
\<close>

definition merge_in :: "free_block list \<Rightarrow> free_block \<Rightarrow> free_block list \<Rightarrow> free_block list" where
  "merge_in ys c zs =
     (let mp = (ys \<noteq> [] \<and> fb_end (last ys) = fb_start c);
          ms = (zs \<noteq> [] \<and> fb_end c = fb_start (hd zs))
      in (if mp then butlast ys else ys)
         @ [\<lparr>fb_start = (if mp then fb_start (last ys) else fb_start c),
             fb_size = (if mp then fb_size (last ys) else 0) + fb_size c
                       + (if ms then fb_size (hd zs) else 0)\<rparr>]
         @ (if ms then tl zs else zs))"

lemma coalesce_insert:
  assumes sl: "sorted_list_spec sl" and wf: "blocks_wf hi (ys @ zs)"
    and c: "0 < fb_size c" "\<forall>y\<in>set ys. fb_end y \<le> fb_start c" "\<forall>z\<in>set zs. fb_end c \<le> fb_start z"
      "0 \<le> fb_start c" "fb_end c \<le> hi"
    and co: "coalesce sl (ys @ zs) c
        (if length ys > 0 then Some (length ys - 1) else None)
        (if zs \<noteq> [] then Some (hd zs) else None) = (coal, xs')"
  shows "(if \<not> coal then sl_add sl c xs' else xs') = merge_in ys c zs"
    and "blocks_wf hi (merge_in ys c zs)"
proof -
  show wf': "blocks_wf hi (merge_in ys c zs)"
    using wf c
    by (cases ys rule: rev_cases; cases zs)
      (fastforce simp: merge_in_def Let_def blocks_wf_simps)+
  note defs = coalesce_def Let_def can_merge_with_prev_def can_merge_with_succ_def can_be_coalesced_def
  consider (both) ys' p s zs' where "ys = ys' @ [p]" "zs = s # zs'" "fb_end p = fb_start c" "fb_end c = fb_start s"
    | (prev) ys' p where "ys = ys' @ [p]" "fb_end p = fb_start c" "\<forall>s zs'. zs = s # zs' \<longrightarrow> fb_end c \<noteq> fb_start s"
    | (suc) s zs' where "zs = s # zs'" "fb_end c = fb_start s" "\<forall>p ys'. ys = ys' @ [p] \<longrightarrow> fb_end p \<noteq> fb_start c"
    | (none) "\<forall>p ys'. ys = ys' @ [p] \<longrightarrow> fb_end p \<noteq> fb_start c" "\<forall>s zs'. zs = s # zs' \<longrightarrow> fb_end c \<noteq> fb_start s"
    by (cases ys rule: rev_cases; cases zs) auto
  then show "(if \<not> coal then sl_add sl c xs' else xs') = merge_in ys c zs"
  proof cases
    case both
    let ?p = "p\<lparr>fb_size := fb_size p + (fb_size c + fb_size s)\<rparr>"
    have "sl_remove sl s ((ys' @ [?p]) @ s # zs') = (ys' @ [?p]) @ zs'"
    proof (rule sorted_blocks_unique)
      have "map fb_start ((ys' @ [?p]) @ s # zs') = map fb_start (ys @ zs)"
        using both by simp
      then have "sorted (map fb_start ((ys' @ [?p]) @ s # zs'))"
        using blocks_wf_sorted [OF wf] by simp
      then show "sorted (map fb_start (sl_remove sl s ((ys' @ [?p]) @ s # zs')))"
        and "mset (sl_remove sl s ((ys' @ [?p]) @ s # zs')) = mset ((ys' @ [?p]) @ zs')"
        using sl by (auto simp: sorted_list_spec_def)
      have "merge_in ys c zs = (ys' @ [?p]) @ zs'" using both by (simp add: merge_in_def)
      with wf' show "blocks_wf hi ((ys' @ [?p]) @ zs')" by simp
    qed
    with both co show ?thesis by (auto simp: defs merge_in_def nth_append)
  next
    case prev
    then have "zs = [] \<or> fb_end c \<noteq> fb_start (hd zs)" by (cases zs) auto
    with prev co show ?thesis
      by (auto simp: defs merge_in_def nth_append split: if_splits)
  next
    case suc
    let ?s = "s\<lparr>fb_start := fb_start s - fb_size c, fb_size := fb_size s + fb_size c\<rparr>"
    have np: "ys = [] \<or> fb_end (last ys) \<noteq> fb_start c" using suc by (cases ys rule: rev_cases) auto
    have rm: "sl_remove sl s (ys @ s # zs') = ys @ zs'"
      using sl_remove_at [OF sl] wf suc by blast
    have "merge_in ys c zs = ys @ ?s # zs'"
      using np suc by (auto simp: merge_in_def)
    moreover have "sl_add sl ?s (ys @ zs') = ys @ ?s # zs'"
      using wf wf' calculation suc by (intro sl_add_at [OF sl]) (auto simp: blocks_wf_simps)
    ultimately show ?thesis using suc co rm np
      by (auto simp: defs nth_append last_conv_nth split: if_splits)
  next
    case none
    have m: "merge_in ys c zs = ys @ c # zs"
      using none by (cases ys rule: rev_cases; cases zs) (auto simp: merge_in_def)
    moreover have "sl_add sl c (ys @ zs) = ys @ c # zs"
      using wf wf' m by (intro sl_add_at [OF sl]) auto
    moreover have "coal = False" "xs' = ys @ zs"
      using none co by (cases ys rule: rev_cases; cases zs; auto simp: defs nth_append)+
    ultimately show ?thesis by simp
  qed
qed

lemma merge_in_owners:
  assumes "\<forall>y\<in>set ys. 0 < fb_size y" "\<forall>z\<in>set zs. 0 < fb_size z" "0 < fb_size c"
  shows "owners (block_ranges (merge_in ys c zs)) x =
    owners (block_ranges (ys @ zs)) x + owners [(fb_start c, fb_size c)] x"
  using assms by (cases ys rule: rev_cases; cases zs) (auto simp: merge_in_def Let_def)

lemma merge_in_size:
  "sum_list (map fb_size (merge_in ys c zs)) = sum_list (map fb_size (ys @ zs)) + fb_size c"
  by (cases ys rule: rev_cases; cases zs) (auto simp: merge_in_def Let_def)

text \<open>
  The range being freed must lie inside the address space and hold no free byte: that is
  what \<open>free\<close> documents as \<open>previously allocated\<close>.
\<close>

definition freeable :: "address_manager \<Rightarrow> int \<Rightarrow> int \<Rightarrow> bool" where
  "freeable m a n \<longleftrightarrow> 0 < n \<and> 0 \<le> a \<and> a + n \<le> am_size m \<and>
     (\<forall>b\<in>set (am_list m). fb_end b \<le> a \<or> a + n \<le> fb_start b)"

lemma am_free_split:
  assumes sl: "sorted_list_spec sl" and inv: "am_inv m" and fr: "freeable m a n"
  obtains ys zs where "am_list m = ys @ zs"
    "\<forall>y\<in>set ys. fb_end y \<le> a" "\<forall>z\<in>set zs. a + n \<le> fb_start z"
    "am_free sl m a n = m\<lparr>am_list := merge_in ys \<lparr>fb_start = a, fb_size = n\<rparr> zs,
                           am_total := am_total m - n\<rparr>"
    "blocks_wf (am_size m) (merge_in ys \<lparr>fb_start = a, fb_size = n\<rparr> zs)"
proof -
  let ?c = "\<lparr>fb_start = a, fb_size = n\<rparr>"
  let ?i = "sl_bisect_left sl ?c (am_list m)"
  let ?ys = "take ?i (am_list m)" and ?zs = "drop ?i (am_list m)"
  have wf: "blocks_wf (am_size m) (am_list m)" using inv by (simp add: am_inv_def)
  note bi = sl_bisect_split [OF sl blocks_wf_sorted [OF wf] refl, of ?c]
  have pos: "\<forall>b\<in>set (am_list m). 0 < fb_size b" using wf by (simp add: blocks_wf_def)
  have y: "\<forall>y\<in>set ?ys. fb_end y \<le> a"
    using bi(2) fr by (fastforce simp: freeable_def dest: in_set_takeD)
  have z: "\<forall>z\<in>set ?zs. a + n \<le> fb_start z"
    using bi(3) fr pos by (fastforce simp: freeable_def dest: in_set_dropD)
  obtain coal xs' where co: "coalesce sl (?ys @ ?zs) ?c
        (if length ?ys > 0 then Some (length ?ys - 1) else None)
        (if ?zs \<noteq> [] then Some (hd ?zs) else None) = (coal, xs')" by fastforce
  have nz: "n > 0" "0 \<le> a" "a + n \<le> am_size m" using fr by (auto simp: freeable_def)
  note ci = coalesce_insert [OF sl _ _ _ _ _ _ co, of "am_size m"]
  have "(if \<not> coal then sl_add sl ?c xs' else xs') = merge_in ?ys ?c ?zs"
    and "blocks_wf (am_size m) (merge_in ?ys ?c ?zs)"
    by (rule ci; use wf y z nz in simp)+
  moreover have "coalesce sl (am_list m) ?c (if ?i > 0 then Some (?i - 1) else None)
        (if ?i < length (am_list m) then Some (am_list m ! ?i) else None) = (coal, xs')"
  proof -
    have len: "length ?ys = ?i" using bi(1) by simp
    have ne: "?zs \<noteq> [] \<longleftrightarrow> ?i < length (am_list m)" by auto
    have "(if ?zs \<noteq> [] then Some (hd ?zs) else None) =
        (if ?i < length (am_list m) then Some (am_list m ! ?i) else None)"
      by (simp add: hd_drop_conv_nth)
    with co show ?thesis unfolding len append_take_drop_id by simp
  qed
  ultimately have "am_free sl m a n = m\<lparr>am_list := merge_in ?ys ?c ?zs, am_total := am_total m - n\<rparr>"
    by (simp add: am_free_def Let_def)
  with that [of ?ys ?zs] y z \<open>blocks_wf (am_size m) (merge_in ?ys ?c ?zs)\<close> show ?thesis by simp
qed

lemma am_free_law:
  assumes sl: "sorted_list_spec sl" and inv: "am_inv m" and fr: "freeable m a n"
  shows "am_inv (am_free sl m a n)" and "am_size (am_free sl m a n) = am_size m"
    and "am_total (am_free sl m a n) = am_total m - n"
    and "owners (free_ranges (am_free sl m a n)) x = owners (free_ranges m) x + owners [(a, n)] x"
proof -
  obtain ys zs where
    sp: "am_list m = ys @ zs" and
    "\<forall>y\<in>set ys. fb_end y \<le> a" and "\<forall>z\<in>set zs. a + n \<le> fb_start z" and
    eq: "am_free sl m a n = m\<lparr>am_list := merge_in ys \<lparr>fb_start = a, fb_size = n\<rparr> zs,
                           am_total := am_total m - n\<rparr>" and
    wf: "blocks_wf (am_size m) (merge_in ys \<lparr>fb_start = a, fb_size = n\<rparr> zs)"
    by (rule am_free_split [OF sl inv fr])
  show "am_inv (am_free sl m a n)"
    using inv sp eq wf by (simp add: am_inv_def merge_in_size)
  show "am_size (am_free sl m a n) = am_size m" "am_total (am_free sl m a n) = am_total m - n"
    using eq by simp_all
  have "\<forall>b\<in>set (am_list m). 0 < fb_size b" "0 < n"
    using inv fr by (auto simp: am_inv_def blocks_wf_def freeable_def)
  with sp eq show "owners (free_ranges (am_free sl m a n)) x = owners (free_ranges m) x + owners [(a, n)] x"
    by (simp add: free_ranges_def merge_in_owners)
qed

lemma am_sbrk_eq:
  assumes sl: "sorted_list_spec sl" and inv: "am_inv m" and sz: "0 < sz"
  defines "c \<equiv> \<lparr>fb_start = am_size m, fb_size = compute_aligned_size m sz\<rparr>"
  shows "am_sbrk sl m sz = m\<lparr>am_list := merge_in (am_list m) c [], am_size := am_size m + fb_size c\<rparr>"
    and "blocks_wf (am_size m + fb_size c) (merge_in (am_list m) c [])" and "0 < fb_size c"
proof -
  show n: "0 < fb_size c" using am_inv_aligned_size(2) [OF inv, of sz] sz by (simp add: c_def)
  have wf: "blocks_wf (am_size m) (am_list m)" and s0: "0 \<le> am_size m"
    using inv by (simp_all add: am_inv_def)
  obtain coal xs' where co: "coalesce sl (am_list m @ []) c
        (if length (am_list m) > 0 then Some (length (am_list m) - 1) else None)
        (if [] \<noteq> ([] :: free_block list) then Some (hd []) else None) = (coal, xs')" by fastforce
  note ci = coalesce_insert [OF sl _ _ _ _ _ _ co, of "am_size m + fb_size c"]
  have eq: "(if \<not> coal then sl_add sl c xs' else xs') = merge_in (am_list m) c []"
    by (rule ci; use wf n s0 in \<open>auto simp: blocks_wf_def c_def\<close>)
  show "blocks_wf (am_size m + fb_size c) (merge_in (am_list m) c [])"
    by (rule ci; use wf n s0 in \<open>auto simp: blocks_wf_def c_def\<close>)
  show "am_sbrk sl m sz = m\<lparr>am_list := merge_in (am_list m) c [], am_size := am_size m + fb_size c\<rparr>"
    using co eq by (auto simp: am_sbrk_def Let_def c_def)
qed

lemma am_sbrk_law:
  assumes sl: "sorted_list_spec sl" and inv: "am_inv m" and sz: "0 < sz"
  shows "am_inv (am_sbrk sl m sz)" and "am_size (am_sbrk sl m sz) = am_size m + compute_aligned_size m sz"
    and "owners (free_ranges (am_sbrk sl m sz)) x =
           owners (free_ranges m) x + owners [(am_size m, compute_aligned_size m sz)] x"
proof -
  note sb = am_sbrk_eq [OF assms]
  show "am_inv (am_sbrk sl m sz)" using inv sb by (simp add: am_inv_def merge_in_size)
  show "am_size (am_sbrk sl m sz) = am_size m + compute_aligned_size m sz" using sb by simp
  have "\<forall>b\<in>set (am_list m). 0 < fb_size b" using inv by (simp add: am_inv_def blocks_wf_def)
  with sb show "owners (free_ranges (am_sbrk sl m sz)) x =
           owners (free_ranges m) x + owners [(am_size m, compute_aligned_size m sz)] x"
    by (simp add: free_ranges_def merge_in_owners)
qed

text \<open>
  The free list that \<open>batched_allocate\<close> leaves behind, written as one pass over the old list:
  blocks that are too small stay, every other block is cut at the front until the batch is
  complete. \<open>batch_loop_carve\<close> shows that removing and adding blocks through the sorted
  list gives this list.
\<close>

fun carve :: "int \<Rightarrow> int \<Rightarrow> free_block list \<Rightarrow> free_block list" where
  "carve n r [] = []"
| "carve n r (b # bs) =
     (if r \<le> 0 then b # bs
      else if fb_size b < n then b # carve n r bs
      else (let num = min r (fb_size b div n); used = num * n
            in (if fb_size b > used
                then [\<lparr>fb_start = fb_start b + used, fb_size = fb_size b - used\<rparr>] else [])
               @ carve n (r - num) bs))"

lemma piece_owners:
  assumes "0 < n"
  shows "owners (map (\<lambda>i. (s + i * n, n)) [0..int k - 1]) x = (if s \<le> x \<and> x < s + int k * n then 1 else 0)"
proof (induction k)
  case 0
  then show ?case by simp
next
  case (Suc k)
  define e where "e = s + int k * n"
  have up: "[0..int (Suc k) - 1] = [0..int k - 1] @ [int k]"
    using upto_rec2 [of 0 "int k"] by simp
  have "s \<le> e" "s + int (Suc k) * n = e + n" using assms by (simp_all add: e_def algebra_simps)
  then show ?case using Suc assms unfolding up by (auto simp: e_def [symmetric])
qed

lemma pieces_owners:
  assumes "0 < n" and "0 \<le> num"
  shows "owners (map (\<lambda>i. (s + i * n, n)) [0..num - 1]) x = (if s \<le> x \<and> x < s + num * n then 1 else 0)"
  using piece_owners [OF assms(1), of s "nat num" x] assms(2) by simp

lemma num_bounds:
  assumes "0 < n" and "n \<le> (sz::int)" and "0 < r"
  shows "1 \<le> min r (sz div n)" and "min r (sz div n) * n \<le> sz"
proof -
  have "1 \<le> sz div n" using assms by (simp add: pos_imp_zdiv_pos_iff int_one_le_iff_zero_less)
  then show "1 \<le> min r (sz div n)" using assms by simp
  have "min r (sz div n) * n \<le> (sz div n) * n" using assms by (intro mult_right_mono) auto
  also have "\<dots> \<le> sz" using div_mult_mod_eq [of sz n] pos_mod_sign [of n sz] assms by linarith
  finally show "min r (sz div n) * n \<le> sz" .
qed

lemma carve_mem:
  assumes "0 < n" and "b' \<in> set (carve n r bs)"
  shows "\<exists>b\<in>set bs. fb_start b \<le> fb_start b' \<and> fb_end b' = fb_end b \<and>
           (b' = b \<or> fb_start b' < fb_end b')"
  using assms
proof (induction n r bs rule: carve.induct)
  case (1 n r)
  then show ?case by simp
next
  case (2 n r b bs)
  show ?case
  proof (cases "r \<le> 0 \<or> fb_size b < n")
    case True
    with 2 show ?thesis by (auto split: if_splits)
  next
    case False
    note nb = num_bounds [of n "fb_size b" r]
    from False 2(3) nb 2(4) 2(2) [OF _ _ refl refl] show ?thesis
      by (auto simp: Let_def split: if_splits)
  qed
qed

lemma carve_wf:
  assumes "0 < n" and "blocks_wf hi bs"
  shows "blocks_wf hi (carve n r bs)"
  using assms
proof (induction n r bs rule: carve.induct)
  case (1 n r)
  then show ?case by simp
next
  case (2 n r b bs)
  have later: "\<forall>c\<in>set (carve n r' bs). fb_end b < fb_start c" for r'
    using 2(3,4) carve_mem [of n _ r' bs] by (fastforce simp: blocks_wf_Cons)
  show ?case
  proof (cases "r \<le> 0 \<or> fb_size b < n")
    case True
    with 2 later show ?thesis by (auto simp: blocks_wf_Cons)
  next
    case False
    note nb = num_bounds [of n "fb_size b" r]
    have pos: "0 < min r (fb_size b div n) * n" using nb(1) False 2(3) by simp
    have IH: "blocks_wf hi (carve n (r - min r (fb_size b div n)) bs)"
      using False 2 by (auto simp: blocks_wf_Cons)
    show ?thesis using False nb(2) 2(3,4) IH later pos
      by (auto simp: Let_def blocks_wf_simps)
  qed
qed

text \<open>What the loop collects: the ranges handed out, and the blocks it removes and adds.\<close>

fun batch_res :: "int \<Rightarrow> int \<Rightarrow> free_block list \<Rightarrow> (int \<times> int) list" where
  "batch_res n r [] = []"
| "batch_res n r (b # bs) =
     (if r \<le> 0 then [] else if fb_size b < n then batch_res n r bs
      else (let num = min r (fb_size b div n)
            in map (\<lambda>i. (fb_start b + i * n, n)) [0..num - 1] @ batch_res n (r - num) bs))"

fun batch_rm :: "int \<Rightarrow> int \<Rightarrow> free_block list \<Rightarrow> free_block list" where
  "batch_rm n r [] = []"
| "batch_rm n r (b # bs) =
     (if r \<le> 0 then [] else if fb_size b < n then batch_rm n r bs
      else b # batch_rm n (r - min r (fb_size b div n)) bs)"

fun batch_ad :: "int \<Rightarrow> int \<Rightarrow> free_block list \<Rightarrow> free_block list" where
  "batch_ad n r [] = []"
| "batch_ad n r (b # bs) =
     (if r \<le> 0 then [] else if fb_size b < n then batch_ad n r bs
      else (let num = min r (fb_size b div n); used = num * n
            in (if fb_size b > used
                then [\<lparr>fb_start = fb_start b + used, fb_size = fb_size b - used\<rparr>] else [])
               @ batch_ad n (r - num) bs))"

lemma batch_loop_eq:
  assumes "0 < n"
  shows "batch_loop n bs st = Inr
    \<lparr>bs_remaining = bs_remaining st - int (length (batch_res n (bs_remaining st) bs)),
     bs_result = bs_result st @ batch_res n (bs_remaining st) bs,
     bs_remove = bs_remove st @ batch_rm n (bs_remaining st) bs,
     bs_add = bs_add st @ batch_ad n (bs_remaining st) bs\<rparr>"
  using assms
proof (induction n bs st rule: batch_loop.induct)
  case (1 n st)
  then show ?case by simp
next
  case (2 n b bs st)
  note nb = num_bounds [of n "fb_size b" "bs_remaining st"]
  consider "bs_remaining st \<le> 0" | "0 < bs_remaining st" "fb_size b < n"
    | "0 < bs_remaining st" "n \<le> fb_size b" by linarith
  then show ?case
  proof cases
    case 1
    then show ?thesis by simp
  next
    case 2
    then show ?thesis using "2.IH"(1) "2.prems" by simp
  next
    case 3
    with "2.prems" nb have "1 \<le> min (bs_remaining st) (fb_size b div n)" by simp
    with 3 "2.IH"(2) "2.prems" show ?thesis by (simp add: Let_def)
  qed
qed

lemma batch_mset:
  "mset (carve n r bs) + mset (batch_rm n r bs) = mset bs + mset (batch_ad n r bs)"
  by (induction n r bs rule: carve.induct) (auto simp: Let_def)

lemma batch_rm_subset: "mset (batch_rm n r bs) \<subseteq># mset bs"
  by (induction n r bs rule: batch_rm.induct)
    (auto simp: Let_def intro: subset_mset.order_trans)

lemma batch_res_size: "r' \<in> set (batch_res n r bs) \<Longrightarrow> snd r' = n"
  by (induction n r bs rule: batch_res.induct) (auto simp: Let_def split: if_splits)

lemma batch_owners:
  assumes "0 < n"
  shows "owners (block_ranges (carve n r bs)) x + owners (batch_res n r bs) x = owners (block_ranges bs) x"
  using assms
proof (induction n r bs rule: carve.induct)
  case (2 n r b bs)
  show ?case
  proof (cases "r \<le> 0 \<or> fb_size b < n")
    case False
    let ?num = "min r (fb_size b div n)"
    have nb: "1 \<le> ?num" "?num * n \<le> fb_size b" using num_bounds [of n "fb_size b" r] 2(3) False by auto
    then have pos: "0 < ?num * n" using 2(3) by simp
    have IH: "owners (block_ranges (carve n (r - ?num) bs)) x + owners (batch_res n (r - ?num) bs) x
        = owners (block_ranges bs) x" using 2 False by auto
    have pc: "owners (map (\<lambda>i. (fb_start b + i * n, n)) [0..?num - 1]) x =
        (if fb_start b \<le> x \<and> x < fb_start b + ?num * n then 1 else 0)"
      using nb 2(3) by (intro pieces_owners) auto
    show ?thesis using False IH nb pos
      by (simp add: Let_def pc)
  qed (use 2 in auto)
qed simp

lemma batch_sizes:
  assumes "0 < n"
  shows "sum_list (map fb_size (carve n r bs)) + n * int (length (batch_res n r bs)) =
      sum_list (map fb_size bs)"
  using assms
proof (induction n r bs rule: carve.induct)
  case (2 n r b bs)
  show ?case
  proof (cases "r \<le> 0 \<or> fb_size b < n")
    case False
    let ?num = "min r (fb_size b div n)"
    have nb: "1 \<le> ?num" "?num * n \<le> fb_size b" using num_bounds [of n "fb_size b" r] 2(3) False by auto
    have IH: "sum_list (map fb_size (carve n (r - ?num) bs)) + n * int (length (batch_res n (r - ?num) bs)) =
      sum_list (map fb_size bs)" using 2 False by auto
    show ?thesis using False IH nb by (simp add: Let_def algebra_simps)
  qed (use 2 in auto)
qed simp

lemma fold_sl_remove:
  assumes "sorted_list_spec sl" and "sorted (map fb_start xs)" and "mset rm \<subseteq># mset xs"
  shows "sorted (map fb_start (fold (sl_remove sl) rm xs)) \<and>
    mset (fold (sl_remove sl) rm xs) = mset xs - mset rm"
  using assms(2,3)
proof (induction rm arbitrary: xs)
  case (Cons r rm)
  have r: "r \<in> set xs" using Cons.prems(2) by (auto dest: mset_subset_eqD)
  then have "sorted (map fb_start (sl_remove sl r xs))" "mset (sl_remove sl r xs) = mset xs - {#r#}"
    using assms(1) Cons.prems(1) by (auto simp: sorted_list_spec_def)
  moreover have "mset rm \<subseteq># mset xs - {#r#}"
    using Cons.prems(2) by (simp add: insert_subset_eq_iff)
  ultimately show ?case using Cons.IH [of "sl_remove sl r xs"] by simp
qed simp

lemma fold_sl_add:
  assumes "sorted_list_spec sl" and "sorted (map fb_start xs)"
  shows "sorted (map fb_start (fold (sl_add sl) ad xs)) \<and>
    mset (fold (sl_add sl) ad xs) = mset xs + mset ad"
  using assms(2)
proof (induction ad arbitrary: xs)
  case (Cons a ad)
  then have "sorted (map fb_start (sl_add sl a xs))" "mset (sl_add sl a xs) = add_mset a (mset xs)"
    using assms(1) by (auto simp: sorted_list_spec_def)
  then show ?case using Cons.IH [of "sl_add sl a xs"] by simp
qed simp

lemma batch_list_carve:
  assumes "sorted_list_spec sl" and "0 < n" and "blocks_wf hi xs"
  shows "fold (sl_add sl) (batch_ad n r xs) (fold (sl_remove sl) (batch_rm n r xs) xs) = carve n r xs"
proof (rule sorted_blocks_unique [OF _ _ carve_wf [OF assms(2,3)]])
  let ?ys = "fold (sl_remove sl) (batch_rm n r xs) xs"
  have rm: "sorted (map fb_start ?ys)" "mset ?ys = mset xs - mset (batch_rm n r xs)"
    using fold_sl_remove [OF assms(1) blocks_wf_sorted [OF assms(3)] batch_rm_subset] by auto
  note ad = fold_sl_add [OF assms(1) rm(1), of "batch_ad n r xs"]
  show "sorted (map fb_start (fold (sl_add sl) (batch_ad n r xs) ?ys))" using ad by blast
  show "mset (fold (sl_add sl) (batch_ad n r xs) ?ys) = mset (carve n r xs)"
    using ad rm batch_rm_subset [of n r xs] batch_mset [of n r xs]
    by (metis add_diff_cancel_right' subset_mset.add_diff_assoc2 )
qed

lemma am_batched_allocate_eq:
  assumes "sorted_list_spec sl" and "am_inv m" and "0 < sz"
  shows "am_batched_allocate sl m sz k =
    (let n = compute_aligned_size m sz; res = batch_res n k (am_list m)
     in if int (length res) = k
        then Inr (res, m\<lparr>am_list := carve n k (am_list m), am_total := am_total m + n * k\<rparr>)
        else Inl RuntimeError)"
proof -
  let ?n = "compute_aligned_size m sz"
  have n: "0 < ?n" using am_inv_aligned_size(2) [OF assms(2), of sz] assms(3) by simp
  have wf: "blocks_wf (am_size m) (am_list m)" using assms(2) by (simp add: am_inv_def)
  show ?thesis
    by (simp add: am_batched_allocate_def Let_def batch_loop_eq [OF n]
        batch_list_carve [OF assms(1) n wf])
qed

lemma am_batched_allocate_law:
  assumes "sorted_list_spec sl" and "am_inv m" and "0 < sz"
    and "am_batched_allocate sl m sz k = Inr (res, m')"
  shows "am_inv m'" and "int (length res) = k" and "am_size m' = am_size m"
    and "am_total m' = am_total m + compute_aligned_size m sz * k"
    and "\<forall>r\<in>set res. snd r = compute_aligned_size m sz"
    and "owners (free_ranges m') x + owners res x = owners (free_ranges m) x"
proof -
  let ?n = "compute_aligned_size m sz"
  have n: "0 < ?n" using am_inv_aligned_size(2) [OF assms(2), of sz] assms(3) by simp
  have res: "res = batch_res ?n k (am_list m)" "int (length res) = k"
    and m': "m' = m\<lparr>am_list := carve ?n k (am_list m), am_total := am_total m + ?n * k\<rparr>"
    using assms(4) by (auto simp: am_batched_allocate_eq [OF assms(1-3)] Let_def split: if_splits)
  show "int (length res) = k" "am_size m' = am_size m" "am_total m' = am_total m + ?n * k"
    using res m' by simp_all
  show "\<forall>r\<in>set res. snd r = ?n" using res batch_res_size by blast
  show "owners (free_ranges m') x + owners res x = owners (free_ranges m) x"
    using batch_owners [OF n] by (simp add: res(1) m' free_ranges_def)
  show "am_inv m'"
    using assms(2) carve_wf [OF n] batch_sizes [OF n, of k "am_list m"] res
    by (auto simp: am_inv_def m')
qed

section \<open>The allocator contract\<close>

text \<open>
  What a client of the allocator relies on. A client keeps the list of ranges it holds,
  \<open>live\<close>; the ledger says that every byte of the address space is owned exactly once,
  by the free list or by one live range.
\<close>

locale byte_allocator =
  fixes invar :: "'m \<Rightarrow> bool"
    and alloc :: "'m \<Rightarrow> int \<Rightarrow> ((int \<times> int) \<times> 'm) result"
    and balloc :: "'m \<Rightarrow> int \<Rightarrow> int \<Rightarrow> ((int \<times> int) list \<times> 'm) result"
    and release :: "'m \<Rightarrow> int \<Rightarrow> int \<Rightarrow> 'm"
    and free_of :: "'m \<Rightarrow> (int \<times> int) list"
    and limit :: "'m \<Rightarrow> int"
    and total :: "'m \<Rightarrow> int"
  assumes alloc_law:
      "invar m \<Longrightarrow> 0 < sz \<Longrightarrow> alloc m sz = Inr ((a, n), m') \<Longrightarrow>
         invar m' \<and> sz \<le> n \<and> limit m' = limit m \<and> total m' = total m + n \<and>
         (\<forall>x. owners (free_of m') x + owners [(a, n)] x = owners (free_of m) x)"
    and balloc_law:
      "invar m \<Longrightarrow> 0 < sz \<Longrightarrow> balloc m sz k = Inr (res, m') \<Longrightarrow>
         invar m' \<and> int (length res) = k \<and> limit m' = limit m \<and>
         total m' = total m + sum_list (map snd res) \<and> (\<forall>r\<in>set res. sz \<le> snd r) \<and>
         (\<forall>x. owners (free_of m') x + owners res x = owners (free_of m) x)"
    and release_law:
      "invar m \<Longrightarrow> 0 < n \<Longrightarrow>
         (\<forall>x. owners (free_of m) x + owners [(a, n)] x \<le> (if 0 \<le> x \<and> x < limit m then 1 else 0)) \<Longrightarrow>
         invar (release m a n) \<and> limit (release m a n) = limit m \<and>
         total (release m a n) = total m - n \<and>
         (\<forall>x. owners (free_of (release m a n)) x = owners (free_of m) x + owners [(a, n)] x)"
begin

definition ledger :: "'m \<Rightarrow> (int \<times> int) list \<Rightarrow> bool" where
  "ledger m live \<longleftrightarrow> invar m \<and> (\<forall>r\<in>set live. 0 < snd r) \<and>
     total m = sum_list (map snd live) \<and>
     (\<forall>x. owners (free_of m) x + owners live x = (if 0 \<le> x \<and> x < limit m then 1 else 0))"

lemma ledger_perm:
  assumes "ledger m live" and "mset live' = mset live"
  shows "ledger m live'"
proof -
  have "owners live' x = owners live x" for x
    using arg_cong [OF assms(2), of "\<lambda>M. size (filter_mset (\<lambda>(a, n). a \<le> x \<and> x < a + n) M)"]
    by (simp add: owners_def flip: mset_filter)
  moreover have "sum_list (map snd live') = sum_list (map snd live)"
    using arg_cong [OF assms(2), of "\<lambda>M. sum_mset (image_mset snd M)"]
    by (simp add: sum_mset_sum_list flip: mset_map)
  moreover have "set live' = set live" using assms(2) by (rule mset_eq_setD)
  ultimately show ?thesis using assms(1) by (simp add: ledger_def)
qed

lemma ledger_alloc:
  assumes "ledger m live" and "0 < sz" and "alloc m sz = Inr (r, m')"
  shows "ledger m' (r # live)" and "sz \<le> snd r"
proof -
  obtain a n where r: "r = (a, n)" by fastforce
  from assms r have l: "invar m' \<and> sz \<le> n \<and> limit m' = limit m \<and> total m' = total m + n \<and>
         (\<forall>x. owners (free_of m') x + owners [(a, n)] x = owners (free_of m) x)"
    by (intro alloc_law) (auto simp: ledger_def)
  then show "sz \<le> snd r" by (simp add: r)
  have "owners (free_of m') x + owners (r # live) x = owners (free_of m) x + owners live x" for x
    using l [THEN conjunct2, THEN conjunct2, THEN conjunct2, THEN conjunct2, THEN spec [of _ x]]
    by (simp add: r split: if_splits)
  with assms l r show "ledger m' (r # live)" by (auto simp: ledger_def simp del: owners_Cons)
qed

lemma ledger_balloc:
  assumes "ledger m live" and "0 < sz" and "balloc m sz k = Inr (res, m')"
  shows "ledger m' (res @ live)" and "int (length res) = k" and "\<forall>r\<in>set res. sz \<le> snd r"
proof -
  from assms have l: "invar m' \<and> int (length res) = k \<and> limit m' = limit m \<and>
         total m' = total m + sum_list (map snd res) \<and> (\<forall>r\<in>set res. sz \<le> snd r) \<and>
         (\<forall>x. owners (free_of m') x + owners res x = owners (free_of m) x)"
    by (intro balloc_law) (auto simp: ledger_def)
  then show "int (length res) = k" "\<forall>r\<in>set res. sz \<le> snd r" by auto
  have "owners (free_of m') x + owners (res @ live) x = owners (free_of m) x + owners live x" for x
    using l by simp
  with assms l show "ledger m' (res @ live)" by (force simp: ledger_def simp del: owners_append)
qed

text \<open>Releasing one range that covers exactly the bytes of a group of live ranges.\<close>

lemma ledger_release_group:
  assumes "ledger m (rs @ live)" and "0 < n" and "n = sum_list (map snd rs)"
    and "\<And>x. owners rs x = owners [(a, n)] x"
  shows "ledger (release m a n) live"
proof -
  have o: "owners (free_of m) x + (owners [(a, n)] x + owners live x) =
      (if 0 \<le> x \<and> x < limit m then 1 else 0)" for x
    using assms(1,4) by (simp add: ledger_def)
  have "owners (free_of m) x + owners [(a, n)] x \<le> (if 0 \<le> x \<and> x < limit m then 1 else 0)" for x
    using o [of x] by linarith
  then have l: "invar (release m a n) \<and> limit (release m a n) = limit m \<and>
         total (release m a n) = total m - n \<and>
         (\<forall>x. owners (free_of (release m a n)) x = owners (free_of m) x + owners [(a, n)] x)"
    using assms(1,2) by (intro release_law) (auto simp: ledger_def simp del: owners_Cons)
  with o have "owners (free_of (release m a n)) x + owners live x =
      (if 0 \<le> x \<and> x < limit (release m a n) then 1 else 0)" for x
    by (simp add: add.assoc)
  with l assms(1,3) show ?thesis by (auto simp: ledger_def)
qed

lemma ledger_release:
  assumes "ledger m live" and "(a, n) \<in> set live"
  shows "ledger (release m a n) (remove1 (a, n) live)"
proof -
  have "ledger m ([(a, n)] @ remove1 (a, n) live)"
    by (rule ledger_perm [OF assms(1)]) (use assms(2) in simp)
  moreover have "0 < n" using assms by (auto simp: ledger_def)
  ultimately show ?thesis by (rule ledger_release_group) auto
qed

lemma ledger_disjoint:
  assumes "ledger m live" and "i < j" and "j < length live"
    and "fst (live ! i) \<le> x" "x < fst (live ! i) + snd (live ! i)"
    and "fst (live ! j) \<le> x" "x < fst (live ! j) + snd (live ! j)"
  shows False
proof -
  have split: "live = take i live @ live ! i # drop (Suc i) live"
    using assms(2,3) by (simp add: id_take_nth_drop)
  have "live ! j \<in> set (drop (Suc i) live)"
    using assms(2,3) by (auto simp: in_set_conv_nth intro!: exI [of _ "j - Suc i"])
  then have "1 \<le> owners (drop (Suc i) live) x"
    using assms(6,7) by (metis (mono_tags, lifting) One_nat_def Suc_leI case_prodI2 fst_conv
        gr0I owners_0_iff case_prodD prod.collapse)
  moreover have "1 \<le> owners [live ! i] x" using assms(4,5) by (cases "live ! i") auto
  ultimately have "2 \<le> owners live x"
    by (subst split) (auto simp: owners_def split: if_splits prod.splits)
  moreover have "owners live x \<le> 1" using assms(1) by (auto simp: ledger_def dest: spec [of _ x] split: if_splits)
  ultimately show False by simp
qed

lemma ledger_within:
  assumes "ledger m live" and "(a, n) \<in> set live"
  shows "0 \<le> a" and "a + n \<le> limit m"
proof -
  have n: "0 < n" using assms by (auto simp: ledger_def)
  have pos: "owners live x \<noteq> 0" if "a \<le> x" "x < a + n" for x
    using assms(2) that by (auto simp: owners_0_iff)
  have "0 \<le> x \<and> x < limit m" if "a \<le> x" "x < a + n" for x
  proof (rule ccontr)
    assume "\<not> (0 \<le> x \<and> x < limit m)"
    then have "owners (free_of m) x + owners live x = 0" using assms(1) unfolding ledger_def by metis
    with pos [OF that] show False by simp
  qed
  from this [of a] this [of "a + n - 1"] n show "0 \<le> a" "a + n \<le> limit m" by auto
qed

end

lemma freeable_of_owners:
  assumes "am_inv m" and "0 < n"
    and "\<forall>x. owners (free_ranges m) x + owners [(a, n)] x \<le> (if 0 \<le> x \<and> x < am_size m then 1 else 0)"
  shows "freeable m a n"
proof -
  have in1: "0 \<le> x \<and> x < am_size m \<and> owners (free_ranges m) x = 0" if "a \<le> x" "x < a + n" for x
    using assms(3) [THEN spec, of x] that by (auto split: if_splits)
  have "fb_end b \<le> a \<or> a + n \<le> fb_start b" if b: "b \<in> set (am_list m)" for b
  proof (rule ccontr)
    assume c: "\<not> (fb_end b \<le> a \<or> a + n \<le> fb_start b)"
    let ?x = "max a (fb_start b)"
    have "0 < fb_size b" using assms(1) b by (auto simp: am_inv_def blocks_wf_def)
    with c assms(2) have "owners (free_ranges m) ?x = 0" by (intro in1 [THEN conjunct2, THEN conjunct2]) auto
    then have "\<not> (fb_start b \<le> ?x \<and> ?x < fb_end b)"
      using b by (fastforce simp: owners_0_iff free_ranges_def block_ranges_def)
    with c \<open>0 < fb_size b\<close> show False by auto
  qed
  with in1 [of a] in1 [of "a + n - 1"] assms(2) show ?thesis by (auto simp: freeable_def)
qed

interpretation am: byte_allocator "\<lambda>m. sorted_list_spec sl \<and> am_inv m" "am_allocate sl"
    "am_batched_allocate sl" "am_free sl" free_ranges am_size am_total for sl
proof unfold_locales
  show "(sorted_list_spec sl \<and> am_inv m') \<and> sz \<le> n \<and> am_size m' = am_size m \<and>
      am_total m' = am_total m + n \<and>
      (\<forall>x. owners (free_ranges m') x + owners [(a, n)] x = owners (free_ranges m) x)"
    if "sorted_list_spec sl \<and> am_inv m" "0 < sz" "am_allocate sl m sz = Inr ((a, n), m')"
    for m sz a n m'
    using that am_allocate_law [of sl m sz a n m'] by blast
next
  show "(sorted_list_spec sl \<and> am_inv m') \<and> int (length res) = k \<and> am_size m' = am_size m \<and>
      am_total m' = am_total m + sum_list (map snd res) \<and> (\<forall>r\<in>set res. sz \<le> snd r) \<and>
      (\<forall>x. owners (free_ranges m') x + owners res x = owners (free_ranges m) x)"
    if "sorted_list_spec sl \<and> am_inv m" "0 < sz" "am_batched_allocate sl m sz k = Inr (res, m')"
    for m sz k res m'
  proof -
    note l = am_batched_allocate_law [OF that(1) [THEN conjunct1] that(1) [THEN conjunct2] that(2,3)]
    have "map snd res = map (\<lambda>_. compute_aligned_size m sz) res" using l(5) by simp
    then have "sum_list (map snd res) = compute_aligned_size m sz * k"
      using l(2) by (simp add: sum_list_triv mult.commute del: map_eq_conv)
    with l that(1) am_inv_aligned_size(2) [of m sz] show ?thesis by simp
  qed
next
  show "(sorted_list_spec sl \<and> am_inv (am_free sl m a n)) \<and> am_size (am_free sl m a n) = am_size m \<and>
      am_total (am_free sl m a n) = am_total m - n \<and>
      (\<forall>x. owners (free_ranges (am_free sl m a n)) x = owners (free_ranges m) x + owners [(a, n)] x)"
    if "sorted_list_spec sl \<and> am_inv m" "0 < n"
      "\<forall>x. owners (free_ranges m) x + owners [(a, n)] x \<le> (if 0 \<le> x \<and> x < am_size m then 1 else 0)"
    for m a n
    using that am_free_law [of sl m a n] freeable_of_owners [of m n a] by blast
qed

section \<open>The free list is canonical\<close>

lemma owners_blocks_mem:
  "owners (block_ranges xs) x \<noteq> 0 \<longleftrightarrow> (\<exists>b\<in>set xs. fb_start b \<le> x \<and> x < fb_end b)"
  by (auto simp: owners_0_iff block_ranges_def)

lemma blocks_wf_head_le:
  assumes "blocks_wf hi (b # xs)" and "owners (block_ranges (b # xs)) x \<noteq> 0"
  shows "fb_start b \<le> x"
  using assms unfolding owners_blocks_mem by (fastforce simp: blocks_wf_Cons)

lemma blocks_wf_head_end:
  assumes "blocks_wf hi (b # xs)"
  shows "owners (block_ranges (b # xs)) (fb_end b) = 0"
proof (rule ccontr)
  assume "owners (block_ranges (b # xs)) (fb_end b) \<noteq> 0"
  with assms show False unfolding owners_blocks_mem by (fastforce simp: blocks_wf_Cons)
qed

text \<open>
  Coalescing makes the free list a normal form: two well-formed lists that describe the
  same free bytes are the same list.
\<close>

lemma blocks_wf_canonical:
  assumes "blocks_wf hi xs" and "blocks_wf hi' ys"
    and "\<And>x. owners (block_ranges xs) x = owners (block_ranges ys) x"
  shows "xs = ys"
  using assms
proof (induction xs arbitrary: ys)
  case Nil
  show ?case
  proof (cases ys)
    case (Cons c cs)
    with Nil(2) have "owners (block_ranges ys) (fb_start c) \<noteq> 0" by (simp add: blocks_wf_Cons)
    with Nil(3) show ?thesis by simp
  qed simp
next
  case (Cons b xs)
  have pb: "0 < fb_size b" using Cons.prems(1) by (simp add: blocks_wf_Cons)
  have "owners (block_ranges ys) (fb_start b) \<noteq> 0"
    using Cons.prems(3) [of "fb_start b"] pb by simp
  then obtain c cs where ys: "ys = c # cs" by (cases ys) auto
  have pc: "0 < fb_size c" using Cons.prems(2) ys by (simp add: blocks_wf_Cons)
  note bl = blocks_wf_head_le [OF Cons.prems(1)] and cl = blocks_wf_head_le [OF Cons.prems(2) [unfolded ys]]
  have st: "fb_start b = fb_start c"
  proof (rule antisym)
    show "fb_start b \<le> fb_start c" by (rule bl) (use Cons.prems(3) [of "fb_start c"] ys pc in simp)
    show "fb_start c \<le> fb_start b" by (rule cl) (use Cons.prems(3) [of "fb_start b"] ys pb in simp)
  qed
  have eb: "owners (block_ranges (b # xs)) (fb_end b) = 0" by (rule blocks_wf_head_end [OF Cons.prems(1)])
  have ec: "owners (block_ranges (c # cs)) (fb_end c) = 0" by (rule blocks_wf_head_end [OF Cons.prems(2) [unfolded ys]])
  have "fb_size b = fb_size c"
  proof (rule antisym)
    show "fb_size b \<le> fb_size c"
    proof (rule ccontr)
      assume "\<not> fb_size b \<le> fb_size c"
      then have "owners (block_ranges (b # xs)) (fb_end c) \<noteq> 0" using st pc by simp
      with ec Cons.prems(3) [of "fb_end c"] ys show False by simp
    qed
    show "fb_size c \<le> fb_size b"
    proof (rule ccontr)
      assume "\<not> fb_size c \<le> fb_size b"
      then have "owners (block_ranges (c # cs)) (fb_end b) \<noteq> 0" using st pb by simp
      with eb Cons.prems(3) [of "fb_end b"] ys show False by simp
    qed
  qed
  with st have bc: "b = c" by simp
  have "xs = cs"
  proof (rule Cons.IH)
    show "blocks_wf hi xs" "blocks_wf hi' cs" using Cons.prems ys by (auto simp: blocks_wf_Cons)
    show "owners (block_ranges xs) x = owners (block_ranges cs) x" for x
      using Cons.prems(3) [of x] ys bc by (simp split: if_splits)
  qed
  with bc ys show ?case by simp
qed

lemma am_eq_of_owners:
  assumes "am_inv m" and "am_inv m'" and "am_size m = am_size m'" "am_align m = am_align m'"
    and "am_total m = am_total m'"
    and "\<And>x. owners (free_ranges m) x = owners (free_ranges m') x"
  shows "m = m'"
proof -
  have "am_list m = am_list m'"
    using assms by (intro blocks_wf_canonical) (auto simp: am_inv_def free_ranges_def)
  with assms show ?thesis by simp
qed

lemma am_free_align [simp]: "am_align (am_free sl m a n) = am_align m"
  by (simp add: am_free_def Let_def split: prod.splits)

lemma am_allocate_align: "am_allocate sl m sz = Inr (r, m') \<Longrightarrow> am_align m' = am_align m"
  by (auto simp: am_allocate_def Let_def split: option.splits)

text \<open>The ledger of the contract, at this allocator.\<close>

definition am_ledger :: "sorted_list_ops \<Rightarrow> address_manager \<Rightarrow> (int \<times> int) list \<Rightarrow> bool" where
  "am_ledger sl m live \<longleftrightarrow> sorted_list_spec sl \<and> am_inv m \<and> (\<forall>r\<in>set live. 0 < snd r) \<and>
     am_total m = sum_list (map snd live) \<and>
     (\<forall>x. owners (free_ranges m) x + owners live x = (if 0 \<le> x \<and> x < am_size m then 1 else 0))"

lemma am_ledger_eq: "am.ledger sl m live = am_ledger sl m live"
  unfolding am.ledger_def am_ledger_def by blast

lemmas am_ledger_alloc = am.ledger_alloc [unfolded am_ledger_eq]
  and am_ledger_balloc = am.ledger_balloc [unfolded am_ledger_eq]
  and am_ledger_release_group = am.ledger_release_group [unfolded am_ledger_eq]
  and am_ledger_release = am.ledger_release [unfolded am_ledger_eq]
  and am_ledger_disjoint = am.ledger_disjoint [unfolded am_ledger_eq]
  and am_ledger_within = am.ledger_within [unfolded am_ledger_eq]
  and am_ledger_perm = am.ledger_perm [unfolded am_ledger_eq]

section \<open>Runs of the allocator\<close>

text \<open>
  A run of one \<open>AddressManager\<close>: it is created with \<open>sz0\<close> bytes and alignment \<open>2 ^ k\<close>,
  clients allocate, allocate batches, free ranges they hold and grow the space. The last
  argument lists the ranges that are live.
\<close>

inductive am_reach ::
  "sorted_list_ops \<Rightarrow> int \<Rightarrow> nat \<Rightarrow> address_manager \<Rightarrow> (int \<times> int) list \<Rightarrow> bool"
  for sl :: sorted_list_ops and sz0 :: int and k :: nat where
  init: "0 < sz0 \<Longrightarrow> am_reach sl sz0 k (am_init sl sz0 (2 ^ k)) []"
| alloc: "am_reach sl sz0 k m live \<Longrightarrow> 0 < s \<Longrightarrow> am_allocate sl m s = Inr (r, m') \<Longrightarrow>
    am_reach sl sz0 k m' (r # live)"
| batch: "am_reach sl sz0 k m live \<Longrightarrow> 0 < s \<Longrightarrow> am_batched_allocate sl m s c = Inr (rs, m') \<Longrightarrow>
    am_reach sl sz0 k m' (rs @ live)"
| free: "am_reach sl sz0 k m live \<Longrightarrow> (a, n) \<in> set live \<Longrightarrow>
    am_reach sl sz0 k (am_free sl m a n) (remove1 (a, n) live)"
| sbrk: "am_reach sl sz0 k m live \<Longrightarrow> 0 < s \<Longrightarrow> am_reach sl sz0 k (am_sbrk sl m s) live"

lemma am_sbrk_total [simp]: "am_total (am_sbrk sl m s) = am_total m"
  by (simp add: am_sbrk_def Let_def split: prod.splits)

lemma am_reach_ledger:
  assumes "am_reach sl sz0 k m live" and "sorted_list_spec sl"
  shows "am_ledger sl m live"
  using assms
proof (induction rule: am_reach.induct)
  case init
  note i = am_init_inv [OF init(2,1), of k]
  have "am_size (am_init sl sz0 (2 ^ k)) = sz0" "am_total (am_init sl sz0 (2 ^ k)) = 0"
    by (simp_all add: am_init_def)
  with i init show ?case unfolding am_ledger_def by simp
next
  case (alloc m live s r m')
  then show ?case by (blast intro: am_ledger_alloc)
next
  case (batch m live s c rs m')
  then show ?case by (blast intro: am_ledger_balloc)
next
  case (free m live a n)
  then show ?case by (blast intro: am_ledger_release)
next
  case (sbrk m live s)
  then have l: "am_ledger sl m live" and inv: "am_inv m" by (auto simp: am_ledger_def)
  note sb = am_sbrk_law [OF sbrk(4) inv sbrk(2)]
  have n: "0 < compute_aligned_size m s" using am_inv_aligned_size(2) [OF inv, of s] sbrk(2) by simp
  have s0: "0 \<le> am_size m" using inv by (simp add: am_inv_def)
  have "owners (free_ranges (am_sbrk sl m s)) x + owners live x =
      (if 0 \<le> x \<and> x < am_size (am_sbrk sl m s) then 1 else 0)" for x
  proof -
    have "owners (free_ranges m) x + owners live x = (if 0 \<le> x \<and> x < am_size m then 1 else 0)"
      using l by (simp add: am_ledger_def)
    then show ?thesis unfolding sb(2,3) using n s0 by (cases "0 \<le> x \<and> x < am_size m") auto
  qed
  with l sb(1) sbrk(4) show ?case by (simp add: am_ledger_def)
qed

subsection \<open>A reference sorted list\<close>

text \<open>The parameter can be instantiated: lists kept sorted by insertion.\<close>

definition list_sl :: sorted_list_ops where
  "list_sl = \<lparr>sl_add = insort_key fb_start, sl_remove = remove1,
     sl_bisect_left = (\<lambda>x xs. length (takeWhile (\<lambda>b. fb_start b < fb_start x) xs))\<rparr>"

lemma sorted_drop_takeWhile:
  fixes xs :: "free_block list"
  assumes "sorted (map fb_start xs)" "length (takeWhile (\<lambda>b. fb_start b < v) xs) \<le> i" "i < length xs"
  shows "v \<le> fb_start (xs ! i)"
proof -
  let ?n = "length (takeWhile (\<lambda>b. fb_start b < v) xs)"
  have "\<not> fb_start (xs ! ?n) < v" using assms by (intro nth_length_takeWhile) simp
  moreover have "fb_start (xs ! ?n) \<le> fb_start (xs ! i)"
    using sorted_nth_mono [OF assms(1,2)] assms(2,3) by simp
  ultimately show ?thesis by simp
qed

lemma takeWhile_lt: "i < length (takeWhile P xs) \<Longrightarrow> P (xs ! i)"
  by (metis nth_mem set_takeWhileD takeWhile_nth)

lemma list_sl_spec: "sorted_list_spec list_sl"
  unfolding sorted_list_spec_def list_sl_def
  by (auto simp: sorted_insort_key sorted_map_remove1 length_takeWhile_le
      dest: takeWhile_lt intro: sorted_drop_takeWhile)

section \<open>Alignment of the handed-out ranges\<close>

definition am_aligned :: "address_manager \<Rightarrow> bool" where
  "am_aligned m \<longleftrightarrow> am_align m dvd am_size m \<and>
     (\<forall>b\<in>set (am_list m). am_align m dvd fb_start b \<and> am_align m dvd fb_size b)"

lemma carve_aligned:
  assumes "\<forall>b\<in>set bs. a dvd fb_start b \<and> a dvd fb_size b" and "a dvd n"
  shows "\<forall>b\<in>set (carve n r bs). a dvd fb_start b \<and> a dvd fb_size b"
  using assms by (induction n r bs rule: carve.induct) (auto simp: Let_def split: if_splits)

lemma batch_res_aligned:
  assumes "\<forall>b\<in>set bs. a dvd fb_start b" and "a dvd n"
  shows "\<forall>x\<in>set (batch_res n r bs). a dvd fst x \<and> a dvd snd x"
  using assms by (induction n r bs rule: batch_res.induct) (auto simp: Let_def split: if_splits)

lemma merge_in_aligned:
  assumes "\<forall>b\<in>set (ys @ zs). a dvd fb_start b \<and> a dvd fb_size b" and "a dvd fb_start c" "a dvd fb_size c"
  shows "\<forall>b\<in>set (merge_in ys c zs). a dvd fb_start b \<and> a dvd fb_size b"
  using assms by (cases ys rule: rev_cases; cases zs) (auto simp: merge_in_def Let_def)

lemma am_reach_aligned:
  assumes "am_reach sl sz0 k m live" and "sorted_list_spec sl" and "2 ^ k dvd sz0"
  shows "am_align m = 2 ^ k \<and> am_aligned m \<and> (\<forall>r\<in>set live. 2 ^ k dvd fst r \<and> 2 ^ k dvd snd r)"
  using assms
proof (induction rule: am_reach.induct)
  case init
  have "sl_add sl \<lparr>fb_start = 0, fb_size = sz0\<rparr> ([] @ []) = [] @ \<lparr>fb_start = 0, fb_size = sz0\<rparr> # []"
    by (rule sl_add_at [OF init(2), where hi = sz0 and hi' = sz0])
      (use init in \<open>auto simp: blocks_wf_simps\<close>)
  with init show ?case by (simp add: am_aligned_def am_init_def)
next
  case (alloc m live s r m')
  then have inv: "am_inv m" using am_reach_ledger by (auto simp: am_ledger_def)
  obtain a n where r: "r = (a, n)" by fastforce
  obtain ys b zs where
    sp: "am_list m = ys @ b # zs" and "\<forall>y\<in>set ys. fb_size y < n" "n \<le> fb_size b"
      and a: "a = fb_start b" and n: "n = compute_aligned_size m s" and "0 < n" and
    m': "m' = m\<lparr>am_list := ys @ (if fb_size b > n
              then [\<lparr>fb_start = a + n, fb_size = fb_size b - n\<rparr>] else []) @ zs,
            am_total := am_total m + n\<rparr>"
    by (rule am_allocate_split [OF alloc(5) inv alloc(2) alloc(3) [unfolded r]])
  have "am_align m dvd n" using am_inv_aligned_size(1) [OF inv] n by simp
  with alloc sp m' a r show ?case by (auto simp: am_aligned_def)
next
  case (batch m live s c rs m')
  then have inv: "am_inv m" using am_reach_ledger by (auto simp: am_ledger_def)
  let ?n = "compute_aligned_size m s"
  have d: "am_align m dvd ?n" using am_inv_aligned_size(1) [OF inv] by simp
  have "rs = batch_res ?n c (am_list m)" "am_list m' = carve ?n c (am_list m)"
    "am_align m' = am_align m" "am_size m' = am_size m"
    using batch(3) by (auto simp: am_batched_allocate_eq [OF batch(5) inv batch(2)] Let_def split: if_splits)
  moreover have al: "am_align m = 2 ^ k" "am_aligned m" "\<forall>r\<in>set live. 2 ^ k dvd fst r \<and> 2 ^ k dvd snd r"
    using batch by blast+
  moreover have "\<forall>b\<in>set (carve ?n c (am_list m)). 2 ^ k dvd fb_start b \<and> 2 ^ k dvd fb_size b"
    by (rule carve_aligned) (use al d in \<open>auto simp: am_aligned_def\<close>)
  moreover have "\<forall>r\<in>set (batch_res ?n c (am_list m)). 2 ^ k dvd fst r \<and> 2 ^ k dvd snd r"
    by (rule batch_res_aligned) (use al d in \<open>auto simp: am_aligned_def\<close>)
  ultimately show ?case by (simp add: am_aligned_def ball_Un)
next
  case (free m live a n)
  then have led: "am_ledger sl m live" using am_reach_ledger by auto
  have inv: "am_inv m" and n: "0 < n" using led free(2) by (auto simp: am_ledger_def)
  have "owners (free_ranges m) x + owners [(a, n)] x \<le> (if 0 \<le> x \<and> x < am_size m then 1 else 0)" for x
  proof -
    have "owners [(a, n)] x \<le> owners live x" using owners_remove1 [OF free(2), of x] by linarith
    moreover have "owners (free_ranges m) x + owners live x = (if 0 \<le> x \<and> x < am_size m then 1 else 0)"
      using led by (simp add: am_ledger_def)
    ultimately show ?thesis by linarith
  qed
  then have fr: "freeable m a n" by (intro freeable_of_owners [OF inv n]) blast
  obtain ys zs where sp: "am_list m = ys @ zs"
    and "\<forall>y\<in>set ys. fb_end y \<le> a" "\<forall>z\<in>set zs. a + n \<le> fb_start z"
    and eq: "am_free sl m a n = m\<lparr>am_list := merge_in ys \<lparr>fb_start = a, fb_size = n\<rparr> zs,
                           am_total := am_total m - n\<rparr>"
    and "blocks_wf (am_size m) (merge_in ys \<lparr>fb_start = a, fb_size = n\<rparr> zs)"
    by (rule am_free_split [OF free(4) inv fr])
  have "2 ^ k dvd a" "2 ^ k dvd n" using free by auto
  with free sp have "\<forall>b\<in>set (merge_in ys \<lparr>fb_start = a, fb_size = n\<rparr> zs). 2 ^ k dvd fb_start b \<and> 2 ^ k dvd fb_size b"
    by (intro merge_in_aligned) (auto simp: am_aligned_def)
  with free eq show ?case by (auto simp: am_aligned_def dest: in_set_remove1 [THEN iffD1, rotated] set_remove1_subset [THEN subsetD])
next
  case (sbrk m live s)
  then have inv: "am_inv m" using am_reach_ledger by (auto simp: am_ledger_def)
  let ?c = "\<lparr>fb_start = am_size m, fb_size = compute_aligned_size m s\<rparr>"
  have sb: "am_sbrk sl m s = m\<lparr>am_list := merge_in (am_list m) ?c [], am_size := am_size m + fb_size ?c\<rparr>"
    by (rule am_sbrk_eq [OF sbrk(4) inv sbrk(2)])
  have d: "am_align m dvd fb_size ?c" using am_inv_aligned_size(1) [OF inv] by simp
  with sbrk have "\<forall>b\<in>set (merge_in (am_list m) ?c []). 2 ^ k dvd fb_start b \<and> 2 ^ k dvd fb_size b"
    by (intro merge_in_aligned) (auto simp: am_aligned_def)
  with sb sbrk d show ?case by (auto simp: am_aligned_def)
qed

section \<open>A concrete run, for the witnesses\<close>

definition demo_am1 :: address_manager where
  "demo_am1 = \<lparr>am_size = 16384, am_align = 4096,
     am_list = [\<lparr>fb_start = 8192, fb_size = 8192\<rparr>], am_total = 8192\<rparr>"

definition demo_am2 :: address_manager where
  "demo_am2 = \<lparr>am_size = 16384, am_align = 4096,
     am_list = [\<lparr>fb_start = 12288, fb_size = 4096\<rparr>], am_total = 12288\<rparr>"

lemmas am_eval = am_init_def am_allocate_def am_batched_allocate_def am_free_def am_sbrk_def
  compute_aligned_size_def list_sl_def coalesce_def can_merge_with_prev_def
  can_merge_with_succ_def can_be_coalesced_def demo_am1_def demo_am2_def Let_def

lemma demo_alloc1: "am_allocate list_sl (am_init list_sl 16384 (2 ^ 12)) 5000 = Inr ((0, 8192), demo_am1)"
  by (simp add: am_eval)

lemma demo_alloc2: "am_allocate list_sl demo_am1 4000 = Inr ((8192, 4096), demo_am2)"
  by (simp add: am_eval)

lemma batch_res_length:
  assumes "0 < n" and "0 \<le> k" and "\<forall>b\<in>set bs. 0 \<le> fb_size b"
  shows "int (length (batch_res n k bs)) = min k (sum_list (map (\<lambda>b. fb_size b div n) bs))"
  using assms
proof (induction n k bs rule: batch_res.induct)
  case (2 n r b bs)
  have nn: "0 \<le> sum_list (map (\<lambda>b. fb_size b div n) bs)"
    using 2(3,5) by (intro sum_list_nonneg) (auto simp: pos_imp_zdiv_nonneg_iff)
  have d: "0 \<le> fb_size b div n" using 2(3,5) by (simp add: pos_imp_zdiv_nonneg_iff)
  consider "r = 0" | "0 < r" "fb_size b < n" | "0 < r" "n \<le> fb_size b" using 2(4) by linarith
  then show ?case
  proof cases
    case 1
    with nn d show ?thesis by simp
  next
    case 2
    with "2.prems" have "fb_size b div n = 0" by (simp add: div_pos_pos_trivial)
    with 2 "2.IH"(1) "2.prems" show ?thesis by simp
  next
    case 3
    let ?num = "min r (fb_size b div n)"
    have "int (length (batch_res n (r - ?num) bs)) = min (r - ?num) (sum_list (map (\<lambda>b. fb_size b div n) bs))"
      using "2.IH"(2) 3 "2.prems" by auto
    with 3 nn d show ?thesis by (simp add: Let_def min_def)
  qed
qed simp

lemma demo_reach1: "am_reach list_sl 16384 12 demo_am1 [(0, 8192)]"
  by (rule am_reach.alloc [OF am_reach.init _ demo_alloc1]) simp_all

lemma demo_reach2: "am_reach list_sl 16384 12 demo_am2 [(8192, 4096), (0, 8192)]"
  by (rule am_reach.alloc [OF demo_reach1 _ demo_alloc2]) simp

lemma am_reach_inv: "am_reach sl sz0 k m live \<Longrightarrow> sorted_list_spec sl \<Longrightarrow> am_inv m"
  using am_reach_ledger by (auto simp: am_ledger_def)

lemma am_reach_size: "am_reach sl sz0 k m live \<Longrightarrow> sorted_list_spec sl \<Longrightarrow> 0 < am_size m"
proof (induction rule: am_reach.induct)
  case init
  then show ?case by (simp add: am_init_def)
next
  case (alloc m live s r m')
  then show ?case by (auto simp: am_allocate_def Let_def split: option.splits)
next
  case (batch m live s c rs m')
  then show ?case by (auto simp: am_batched_allocate_def Let_def split: sum.splits if_splits)
next
  case (free m live a n)
  then show ?case by (simp add: am_free_def Let_def split: prod.splits)
next
  case (sbrk m live s)
  then have "am_inv m" by (intro am_reach_inv)
  then have "s \<le> compute_aligned_size m s" by (rule am_inv_aligned_size(2))
  with sbrk show ?case by (simp add: am_sbrk_def Let_def split: prod.splits)
qed

section \<open>Correctness of the address manager\<close>

text \<open>
  C3. Memory is never handed out twice. In every run of an \<open>AddressManager\<close> whose requests are
  positive and which frees only ranges that are live, every live range lies inside the address
  space, and two live ranges share no byte.
\<close>

theorem am_live_ranges_disjoint:
  assumes "sorted_list_spec sl" and "am_reach sl sz0 k m live"
  shows "(\<forall>r \<in> set live. 0 \<le> fst r \<and> fst r + snd r \<le> get_heap_size m) \<and>
    (\<forall>i j. i < j \<and> j < length live \<longrightarrow>
       {fst (live ! i)..<fst (live ! i) + snd (live ! i)} \<inter> {fst (live ! j)..<fst (live ! j) + snd (live ! j)} = {})"
proof (intro conjI ballI allI impI)
  have led: "am_ledger sl m live" using assms by (intro am_reach_ledger)
  show "0 \<le> fst r" "fst r + snd r \<le> get_heap_size m" if "r \<in> set live" for r
    using am_ledger_within [OF led, of "fst r" "snd r"] that by (simp_all add: get_heap_size_def)
  show "{fst (live ! i)..<fst (live ! i) + snd (live ! i)} \<inter> {fst (live ! j)..<fst (live ! j) + snd (live ! j)} = {}"
    if ij: "i < j \<and> j < length live" for i j
  proof -
    have "x \<notin> {fst (live ! j)..<fst (live ! j) + snd (live ! j)}"
      if "x \<in> {fst (live ! i)..<fst (live ! i) + snd (live ! i)}" for x
      using am_ledger_disjoint [OF led conjunct1 [OF ij] conjunct2 [OF ij], of x] that by auto
    then show ?thesis by blast
  qed
qed

theorem am_live_ranges_disjoint_witness:
  "{8192..<12288} \<inter> {0..<8192} = ({} :: int set) \<and> (12288 :: int) \<le> get_heap_size demo_am2 \<and>
   (8192 :: int) \<le> get_heap_size demo_am2"
proof -
  note w = am_live_ranges_disjoint [OF list_sl_spec demo_reach2]
  show ?thesis using w [THEN conjunct1] w [THEN conjunct2, rule_format, of 0 1] by simp
qed

text \<open>
  C26. The allocator's own self-check always succeeds: in every run \<open>check_consistency\<close> returns
  true, the reported free size is the sum of the free blocks, and the allocated total is the
  sum of the live ranges.
\<close>

theorem am_always_consistent:
  assumes "sorted_list_spec sl" and "am_reach sl sz0 k m live"
  shows "check_consistency m \<and> get_free_size m = sum_list (map fb_size (am_list m)) \<and>
    am_total m = sum_list (map snd live)"
proof -
  have "am_ledger sl m live" using assms by (intro am_reach_ledger)
  then have inv: "am_inv m" and t: "am_total m = sum_list (map snd live)" by (auto simp: am_ledger_def)
  then show ?thesis
    using blocks_wf_no_merge by (auto simp: check_consistency_def get_free_size_def am_inv_def)
qed

theorem am_always_consistent_witness:
  "check_consistency demo_am2 \<and> get_free_size demo_am2 = 4096"
  using am_always_consistent [OF list_sl_spec demo_reach2] by (simp add: demo_am2_def)

text \<open>
  C37. No fragmentation survives: when every live range has been freed, in any order and
  after any growth, the free list is one block that covers the whole address space.
\<close>

theorem am_all_freed_single_block:
  assumes "sorted_list_spec sl" and "am_reach sl sz0 k m []"
  shows "am_list m = [\<lparr>fb_start = 0, fb_size = get_heap_size m\<rparr>]"
proof -
  have "am_ledger sl m []" using assms by (intro am_reach_ledger)
  then have inv: "am_inv m"
    and o: "\<And>x. owners (free_ranges m) x = (if 0 \<le> x \<and> x < am_size m then 1 else 0)"
    by (auto simp: am_ledger_def)
  have "am_list m = [\<lparr>fb_start = 0, fb_size = am_size m\<rparr>]"
    using inv o am_reach_size [OF assms(2,1)]
    by (intro blocks_wf_canonical [where hi = "am_size m" and hi' = "am_size m"])
      (auto simp: am_inv_def blocks_wf_Cons free_ranges_def)
  then show ?thesis by (simp add: get_heap_size_def)
qed

theorem am_all_freed_single_block_witness:
  "am_list (am_free list_sl demo_am1 0 8192) = [\<lparr>fb_start = 0, fb_size = 16384\<rparr>]"
proof -
  have "am_reach list_sl 16384 12 (am_free list_sl demo_am1 0 8192) (remove1 (0, 8192) [(0, 8192)])"
    by (rule am_reach.free [OF demo_reach1]) simp
  then have "am_reach list_sl 16384 12 (am_free list_sl demo_am1 0 8192) []" by simp
  from am_all_freed_single_block [OF list_sl_spec this] show ?thesis
    by (simp add: get_heap_size_def am_eval)
qed

text \<open>
  \<open>allocate\<close> is first fit: it raises \<open>RuntimeError\<close> exactly when no free block holds the
  aligned size, and otherwise returns the lowest free block that fits, rounded up to the
  alignment.
\<close>

theorem am_allocate_first_fit:
  assumes "sorted_list_spec sl" and "am_inv m" and "0 < sz"
  shows "(am_allocate sl m sz = Inl RuntimeError \<and>
            (\<forall>b\<in>set (am_list m). fb_size b < compute_aligned_size m sz)) \<or>
         (\<exists>a n m'. am_allocate sl m sz = Inr ((a, n), m') \<and> sz \<le> n \<and> n < sz + am_align m \<and>
            am_align m dvd n \<and>
            (\<exists>b\<in>set (am_list m). fb_start b = a \<and> n \<le> fb_size b \<and>
               (\<forall>c\<in>set (am_list m). n \<le> fb_size c \<longrightarrow> a \<le> fb_start c)))"
proof (cases "am_allocate sl m sz")
  case (Inl e)
  then show ?thesis
    by (auto simp: am_allocate_def Let_def find_None_iff not_le split: option.splits)
next
  case (Inr p)
  obtain a n m' where p: "p = ((a, n), m')" by (metis prod.exhaust)
  obtain ys b zs where sp: "am_list m = ys @ b # zs" "\<forall>y\<in>set ys. fb_size y < n" "n \<le> fb_size b"
    "a = fb_start b" "n = compute_aligned_size m sz" "0 < n"
    by (rule am_allocate_split [OF assms Inr [unfolded p]]) blast
  obtain k where k: "am_align m = 2 ^ k" using assms(2) by (auto simp: am_inv_def)
  have "blocks_wf (am_size m) (ys @ b # zs)" using assms(2) sp by (simp add: am_inv_def)
  then have later: "\<forall>z\<in>set zs. a \<le> fb_start z" using sp by (force simp: blocks_wf_simps)
  have "n \<le> fb_size c \<longrightarrow> a \<le> fb_start c" if "c \<in> set (am_list m)" for c
    using that sp later by auto
  then have "\<exists>b\<in>set (am_list m). fb_start b = a \<and> n \<le> fb_size b \<and>
               (\<forall>c\<in>set (am_list m). n \<le> fb_size c \<longrightarrow> a \<le> fb_start c)"
    using sp by (intro bexI [of _ b]) auto
  moreover have "sz \<le> n" "n < sz + am_align m" "am_align m dvd n"
    using compute_aligned_size_pow2 [OF k, of sz] sp by auto
  ultimately show ?thesis using Inr p by blast
qed

text \<open>
  \<open>batched_allocate\<close> is all or nothing and complete: it succeeds exactly when the free
  blocks together have room for the batch, returning as many ranges as were asked for, all of
  the aligned size; otherwise it raises \<open>RuntimeError\<close>.
\<close>

theorem am_batched_allocate_complete:
  assumes "sorted_list_spec sl" and "am_inv m" and "0 < sz" and "0 \<le> k"
  shows "if k \<le> sum_list (map (\<lambda>b. fb_size b div compute_aligned_size m sz) (am_list m))
    then \<exists>res m'. am_batched_allocate sl m sz k = Inr (res, m') \<and> int (length res) = k \<and>
           (\<forall>r\<in>set res. snd r = compute_aligned_size m sz)
    else am_batched_allocate sl m sz k = Inl RuntimeError"
proof -
  let ?n = "compute_aligned_size m sz"
  have n: "0 < ?n" using am_inv_aligned_size(2) [OF assms(2), of sz] assms(3) by simp
  have "\<forall>b\<in>set (am_list m). 0 \<le> fb_size b" using assms(2) by (auto simp: am_inv_def blocks_wf_def)
  note len = batch_res_length [OF n assms(4) this]
  show ?thesis
    using len batch_res_size [of _ ?n k "am_list m"]
    by (auto simp: am_batched_allocate_eq [OF assms(1-3)] Let_def min_def)
qed

text \<open>
  Freeing what was just allocated restores the allocator exactly, free list included.
\<close>

lemma am_allocate_free_roundtrip:
  assumes "sorted_list_spec sl" and "am_inv m" and "0 < sz"
    and "am_allocate sl m sz = Inr ((a, n), m')"
  shows "am_free sl m' a n = m"
proof -
  note al = am_allocate_law [OF assms]
  have n: "0 < n" using al(2) assms(3) by simp
  have o: "owners (free_ranges m') x + owners [(a, n)] x = owners (free_ranges m) x" for x
    by (rule al(5))
  obtain ys b zs where "am_list m = ys @ b # zs" "\<forall>y\<in>set ys. fb_size y < n" "n \<le> fb_size b"
    "a = fb_start b" "n = compute_aligned_size m sz" "0 < n" and
    m': "m' = m\<lparr>am_list := ys @ (if fb_size b > n
              then [\<lparr>fb_start = a + n, fb_size = fb_size b - n\<rparr>] else []) @ zs,
            am_total := am_total m + n\<rparr>"
    by (rule am_allocate_split [OF assms])
  then have "blocks_wf (am_size m) (ys @ b # zs)" using assms(2) by (simp add: am_inv_def)
  with m' \<open>a = fb_start b\<close> \<open>n \<le> fb_size b\<close> n have fr: "freeable m' a n"
    by (fastforce simp: freeable_def blocks_wf_simps)
  show ?thesis
    by (rule am_eq_of_owners)
      (use am_free_law [OF assms(1) al(1) fr] al o assms(2) am_allocate_align [OF assms(4)] in auto)
qed

text \<open>
  With a heap that is a multiple of the alignment, every live range starts at an aligned
  address and has an aligned size, after any sequence of operations.
\<close>

theorem am_live_ranges_aligned:
  assumes "sorted_list_spec sl" and "am_reach sl sz0 k m live" and "2 ^ k dvd sz0"
    and "r \<in> set live"
  shows "am_align m = 2 ^ k \<and> am_align m dvd fst r \<and> am_align m dvd snd r"
  using am_reach_aligned [OF assms(2,1,3)] assms(4) by auto

end
