(* ===== verification/Tensor_Allocator.thy ===== *)
theory Tensor_Allocator
  imports Address_Manager
begin

text \<open>
  \<^verbatim>\<open>lmcache/v1/memory_management.py\<close>: \<open>MemoryFormat\<close>, \<open>MemoryObjMetadata\<close> and
  \<open>TensorMemoryObj\<close>; \<^verbatim>\<open>lmcache/v1/memory_allocators/tensor_memory_allocator.py\<close>:
  \<open>TensorMemoryAllocator\<close>; \<^verbatim>\<open>lmcache/v1/pin_monitor.py\<close>: \<open>PinMonitor\<close>.

  A \<open>TensorMemoryObj\<close> is shared by reference between the allocator, the cache managers and
  the readers, so objects live in a heap: the allocator state holds the list of every object
  it has created, and a reference is an index into that list. A \<open>torch.dtype\<close> is represented
  by its \<open>itemsize\<close> and a \<open>torch.Size\<close> by the list of its dimensions, which is what the code
  reads of them; the bytes of a tensor are not modelled, a slice of the flat buffer is its
  start and length. The statistics monitors are not modelled.
\<close>

section \<open>Data\<close>

datatype memory_format =
  UNDEFINED | KV_2LTD | KV_T2D | KV_2TD | BINARY | BINARY_BUFFER | KV_MLA_FMT | EC_TD | HS_TD

datatype torch_dtype = Dtype (itemsize: int)

type_synonym torch_size = "int list"

record memory_layout =
  ml_shapes :: "torch_size list"
  ml_dtypes :: "torch_dtype list"

record mem_obj =
  mo_address :: int
  mo_phy_size :: int
  mo_ref_count :: int
  mo_pin_count :: int
  mo_fmt :: memory_format
  mo_shapes :: "torch_size list"
  mo_dtypes :: "torch_dtype list"
  mo_valid :: bool
  mo_raw_data :: "int \<times> int"  \<comment> \<open>start and length of the buffer slice\<close>
  mo_used_size_override :: "int option"
  mo_group_prefix_sum :: "int list"

record tensor_allocator =
  ta_am :: address_manager
  ta_num_active :: int
  ta_heap :: "mem_obj list"

section \<open>Operations\<close>

definition token_dim :: "memory_format \<Rightarrow> nat" where
  "token_dim f = (case f of KV_2LTD \<Rightarrow> 2 | KV_T2D \<Rightarrow> 1 | KV_2TD \<Rightarrow> 0 | BINARY \<Rightarrow> 0
     | BINARY_BUFFER \<Rightarrow> 0 | KV_MLA_FMT \<Rightarrow> 2 | EC_TD \<Rightarrow> 0 | HS_TD \<Rightarrow> 0 | UNDEFINED \<Rightarrow> 0)"

definition numel :: "torch_size \<Rightarrow> int" where
  "numel shape = prod_list shape"

definition get_size_bytes :: "torch_size list \<Rightarrow> torch_dtype list \<Rightarrow> int result" where
  "get_size_bytes shapes dtypes =
     (if length shapes \<noteq> length dtypes then Inl AssertionError
      else Inr (sum_list (map2 (\<lambda>s d. numel s * itemsize d) shapes dtypes)))"

text \<open>The constructor's prefix sums: \<open>[0, size_of_group_1, size_of_group_1 + size_of_group_2, ...]\<close>.\<close>

fun prefix_sums :: "int \<Rightarrow> torch_size list \<Rightarrow> torch_dtype list \<Rightarrow> int list" where
  "prefix_sums acc (s # ss) (d # ds) =
     (let n = acc + numel s * itemsize d in n # prefix_sums n ss ds)"
| "prefix_sums acc _ _ = []"

definition new_mem_obj ::
  "int \<Rightarrow> int \<Rightarrow> memory_format \<Rightarrow> torch_size list \<Rightarrow> torch_dtype list \<Rightarrow> int \<times> int \<Rightarrow> mem_obj" where
  "new_mem_obj address phy_size fmt shapes dtypes raw =
     \<lparr>mo_address = address, mo_phy_size = phy_size, mo_ref_count = 1, mo_pin_count = 0,
      mo_fmt = fmt, mo_shapes = shapes, mo_dtypes = dtypes, mo_valid = True,
      mo_raw_data = raw, mo_used_size_override = None,
      mo_group_prefix_sum = 0 # prefix_sums 0 shapes dtypes\<rparr>"

definition get_size :: "mem_obj \<Rightarrow> int" where
  "get_size obj = (case mo_used_size_override obj of
     Some n \<Rightarrow> n | None \<Rightarrow> last (mo_group_prefix_sum obj))"

definition set_used_size :: "int \<Rightarrow> mem_obj \<Rightarrow> mem_obj result" where
  "set_used_size n obj =
     (if n < 0 \<or> n > mo_phy_size obj then Inl ValueError
      else Inr (obj\<lparr>mo_used_size_override := Some n\<rparr>))"

definition invalidate :: "mem_obj \<Rightarrow> mem_obj" where
  "invalidate obj = obj\<lparr>mo_valid := False\<rparr>"

definition is_pinned :: "mem_obj \<Rightarrow> bool" where
  "is_pinned obj \<longleftrightarrow> mo_pin_count obj > 0"

definition can_evict :: "mem_obj \<Rightarrow> bool" where
  "can_evict obj \<longleftrightarrow> \<not> is_pinned obj \<and> mo_ref_count obj = 1"

subsection \<open>The allocator\<close>

definition ta_init :: "sorted_list_ops \<Rightarrow> int \<Rightarrow> int \<Rightarrow> int option \<Rightarrow> tensor_allocator" where
  "ta_init sl buffer_numel align_bytes init_address_space =
     \<lparr>ta_am = am_init sl (case init_address_space of None \<Rightarrow> buffer_numel | Some n \<Rightarrow> n) align_bytes,
      ta_num_active = 0, ta_heap = []\<rparr>"

text \<open>
  \<open>allocate\<close> returns the new reference, \<open>None\<close> when no block is free, or the exception. An
  empty list of shapes is read at index 0 only after the block has been taken.
\<close>

definition ta_allocate ::
  "sorted_list_ops \<Rightarrow> tensor_allocator \<Rightarrow> torch_size list \<Rightarrow> torch_dtype list \<Rightarrow> memory_format
     \<Rightarrow> tensor_allocator \<times> nat option result" where
  "ta_allocate sl ta shapes dtypes fmt =
     (case get_size_bytes shapes dtypes of
        Inl e \<Rightarrow> (ta, Inl e)
      | Inr raw_size \<Rightarrow>
          (case am_allocate sl (ta_am ta) raw_size of
             Inl e \<Rightarrow> (ta, if e = RuntimeError then Inr None else Inl e)
           | Inr ((block_start, aligned_size), am') \<Rightarrow>
               (let ta' = ta\<lparr>ta_am := am', ta_num_active := ta_num_active ta + 1\<rparr>
                in if shapes = [] then (ta', Inl IndexError)
                   else (ta'\<lparr>ta_heap := ta_heap ta' @
                           [new_mem_obj block_start aligned_size fmt shapes dtypes
                              (block_start, raw_size)]\<rparr>,
                         Inr (Some (length (ta_heap ta')))))))"

definition ta_batched_allocate ::
  "sorted_list_ops \<Rightarrow> tensor_allocator \<Rightarrow> torch_size list \<Rightarrow> torch_dtype list \<Rightarrow> int \<Rightarrow> memory_format
     \<Rightarrow> tensor_allocator \<times> nat list option result" where
  "ta_batched_allocate sl ta shapes dtypes batch_size fmt =
     (case get_size_bytes shapes dtypes of
        Inl e \<Rightarrow> (ta, Inl e)
      | Inr unit_raw_size \<Rightarrow>
          (let unit_aligned_size = compute_aligned_size (ta_am ta) unit_raw_size
           in case am_batched_allocate sl (ta_am ta) unit_aligned_size batch_size of
             Inl e \<Rightarrow> (ta, if e = RuntimeError then Inr None else Inl e)
           | Inr (alloc_results, am') \<Rightarrow>
               (let ta' = ta\<lparr>ta_am := am', ta_num_active := ta_num_active ta + batch_size\<rparr>
                in if shapes = [] \<and> alloc_results \<noteq> [] then (ta', Inl IndexError)
                   else (ta'\<lparr>ta_heap := ta_heap ta' @
                           map (\<lambda>(addr, _). new_mem_obj addr unit_aligned_size fmt shapes dtypes
                                  (addr, unit_aligned_size)) alloc_results\<rparr>,
                         Inr (Some [length (ta_heap ta')..<length (ta_heap ta') + length alloc_results])))))"

definition ta_free :: "sorted_list_ops \<Rightarrow> tensor_allocator \<Rightarrow> nat \<Rightarrow> tensor_allocator" where
  "ta_free sl ta i =
     (let obj = ta_heap ta ! i
      in if \<not> mo_valid obj then ta
         else ta\<lparr>ta_am := am_free sl (ta_am ta) (mo_address obj) (mo_phy_size obj),
                 ta_heap := (ta_heap ta)[i := invalidate obj],
                 ta_num_active := ta_num_active ta - 1\<rparr>)"

text \<open>
  \<open>batched_free\<close> sorts the objects by address and merges neighbours: the locals are the block
  being grown, as (start, size, count), and the finished blocks.
\<close>

type_synonym coalesce_acc = "(int \<times> int \<times> int) option \<times> (int \<times> int \<times> int) list"

fun coalesce_step :: "coalesce_acc \<Rightarrow> mem_obj \<Rightarrow> coalesce_acc" where
  "coalesce_step (None, blocks) obj = (Some (mo_address obj, mo_phy_size obj, 1), blocks)"
| "coalesce_step (Some (start, sz, cnt), blocks) obj =
     (if start + sz = mo_address obj
      then (Some (start, sz + mo_phy_size obj, cnt + 1), blocks)
      else (Some (mo_address obj, mo_phy_size obj, 1), blocks @ [(start, sz, cnt)]))"

fun batched_free_loop :: "nat list \<Rightarrow> mem_obj list \<Rightarrow> coalesce_acc \<Rightarrow> mem_obj list \<times> coalesce_acc" where
  "batched_free_loop [] heap acc = (heap, acc)"
| "batched_free_loop (i # is) heap acc =
     (if \<not> mo_valid (heap ! i) then batched_free_loop is heap acc
      else batched_free_loop is (heap[i := invalidate (heap ! i)]) (coalesce_step acc (heap ! i)))"

fun coalesced_blocks :: "coalesce_acc \<Rightarrow> (int \<times> int \<times> int) list" where
  "coalesced_blocks (None, blocks) = blocks"
| "coalesced_blocks (Some b, blocks) = blocks @ [b]"

definition ta_batched_free :: "sorted_list_ops \<Rightarrow> tensor_allocator \<Rightarrow> nat list \<Rightarrow> tensor_allocator" where
  "ta_batched_free sl ta memory_objs =
     (if memory_objs = [] then ta
      else let sorted_objs = sort_key (\<lambda>i. mo_address (ta_heap ta ! i)) memory_objs;
               (heap', acc) = batched_free_loop sorted_objs (ta_heap ta) (None, []);
               blocks = coalesced_blocks acc
           in ta\<lparr>ta_am := fold (\<lambda>(address, sz, cnt) am. am_free sl am address sz) blocks (ta_am ta),
                 ta_heap := heap',
                 ta_num_active := ta_num_active ta - sum_list (map (\<lambda>(_, _, cnt). cnt) blocks)\<rparr>)"

definition ta_memcheck :: "tensor_allocator \<Rightarrow> bool" where
  "ta_memcheck ta \<longleftrightarrow>
     get_free_size (ta_am ta) + am_total (ta_am ta) = get_heap_size (ta_am ta) \<and>
     check_consistency (ta_am ta)"

subsection \<open>Reference counts and pins\<close>

text \<open>
  \<open>PinMonitor\<close> keeps the time of the last pin of every pinned object. \<open>parent_allocator\<close> is
  never \<open>None\<close> for the objects of an allocator.
\<close>

record pin_monitor =
  pm_pinned_objects :: "(nat, pyfloat) pydict"
  pm_pin_timeout_sec :: pyfloat

definition on_pin :: "pyfloat \<Rightarrow> nat \<Rightarrow> pin_monitor \<Rightarrow> pin_monitor" where
  "on_pin current_time i pm =
     pm\<lparr>pm_pinned_objects := dict_set i current_time (pm_pinned_objects pm)\<rparr>"

definition on_unpin :: "nat \<Rightarrow> pin_monitor \<Rightarrow> pin_monitor" where
  "on_unpin i pm = pm\<lparr>pm_pinned_objects := dict_del i (pm_pinned_objects pm)\<rparr>"

definition upd_obj :: "nat \<Rightarrow> (mem_obj \<Rightarrow> mem_obj) \<Rightarrow> tensor_allocator \<Rightarrow> tensor_allocator" where
  "upd_obj i f ta = ta\<lparr>ta_heap := (ta_heap ta)[i := f (ta_heap ta ! i)]\<rparr>"

definition ref_count_up :: "nat \<Rightarrow> tensor_allocator \<Rightarrow> tensor_allocator" where
  "ref_count_up i ta = upd_obj i (\<lambda>obj. obj\<lparr>mo_ref_count := mo_ref_count obj + 1\<rparr>) ta"

definition ref_count_down :: "sorted_list_ops \<Rightarrow> nat \<Rightarrow> tensor_allocator \<Rightarrow> tensor_allocator" where
  "ref_count_down sl i ta =
     (let rc = mo_ref_count (ta_heap ta ! i) - 1;
          rc' = (if rc < 0 then 0 else rc);
          ta' = upd_obj i (\<lambda>obj. obj\<lparr>mo_ref_count := rc'\<rparr>) ta
      in if rc' = 0 \<and> mo_pin_count (ta_heap ta ! i) = 0 then ta_free sl ta' i else ta')"

definition pin_obj :: "pyfloat \<Rightarrow> nat \<Rightarrow> tensor_allocator \<times> pin_monitor \<Rightarrow> tensor_allocator \<times> pin_monitor" where
  "pin_obj current_time i s = (case s of (ta, pm) \<Rightarrow>
     (upd_obj i (\<lambda>obj. obj\<lparr>mo_pin_count := mo_pin_count obj + 1\<rparr>) ta, on_pin current_time i pm))"

definition unpin_obj :: "sorted_list_ops \<Rightarrow> nat \<Rightarrow> tensor_allocator \<times> pin_monitor \<Rightarrow> tensor_allocator \<times> pin_monitor" where
  "unpin_obj sl i s = (case s of (ta, pm) \<Rightarrow>
     (let pc = mo_pin_count (ta_heap ta ! i) - 1;
          ta1 = upd_obj i (\<lambda>obj. obj\<lparr>mo_pin_count := pc\<rparr>) ta;
          pm1 = (if pc = 0 then on_unpin i pm else pm);
          ta2 = (if pc \<le> 0 \<and> mo_ref_count (ta_heap ta ! i) \<le> 0 then ta_free sl ta1 i else ta1);
          ta3 = (if pc < 0 then upd_obj i (\<lambda>obj. obj\<lparr>mo_pin_count := 0\<rparr>) ta2 else ta2)
      in (ta3, pm1)))"

text \<open>
  \<open>_force_unpin_timeout_object\<close> calls \<open>unpin\<close> while the pin count is positive: the count is
  the number of rounds.
\<close>

definition force_unpin :: "sorted_list_ops \<Rightarrow> nat \<Rightarrow> tensor_allocator \<times> pin_monitor \<Rightarrow> tensor_allocator \<times> pin_monitor" where
  "force_unpin sl i s = (unpin_obj sl i ^^ nat (mo_pin_count (ta_heap (fst s) ! i))) s"

definition timeout_objects :: "(rat \<Rightarrow> rat) \<Rightarrow> pyfloat \<Rightarrow> tensor_allocator \<times> pin_monitor \<Rightarrow> nat list" where
  "timeout_objects rnd current_time s = (case s of (ta, pm) \<Rightarrow>
     map fst (filter (\<lambda>(i, register_time).
       mo_pin_count (ta_heap ta ! i) > 0 \<and> rnd (current_time - register_time) > pm_pin_timeout_sec pm)
       (pm_pinned_objects pm)))"

definition check_timeouts ::
  "sorted_list_ops \<Rightarrow> (rat \<Rightarrow> rat) \<Rightarrow> pyfloat \<Rightarrow> tensor_allocator \<times> pin_monitor
     \<Rightarrow> (tensor_allocator \<times> pin_monitor) \<times> nat \<times> nat \<times> nat" where
  "check_timeouts sl rnd current_time s =
     (let objs = timeout_objects rnd current_time s
      in (fold (force_unpin sl) objs s,
          length (pm_pinned_objects (snd s)), length objs, length objs))"

section \<open>The allocator invariant\<close>

text \<open>
  The valid objects of the heap are exactly the live ranges of the address manager, and the
  active count is their number.
\<close>

definition obj_range :: "mem_obj \<Rightarrow> int \<times> int" where
  "obj_range obj = (mo_address obj, mo_phy_size obj)"

definition live_ranges :: "mem_obj list \<Rightarrow> (int \<times> int) list" where
  "live_ranges heap = map obj_range (filter mo_valid heap)"

definition ta_inv :: "sorted_list_ops \<Rightarrow> tensor_allocator \<Rightarrow> bool" where
  "ta_inv sl ta \<longleftrightarrow>
     am_ledger sl (ta_am ta) (live_ranges (ta_heap ta)) \<and>
     ta_num_active ta = int (length (live_ranges (ta_heap ta)))"

lemma live_ranges_append [simp]: "live_ranges (h @ h') = live_ranges h @ live_ranges h'"
  by (simp add: live_ranges_def)

lemma live_ranges_Nil [simp]: "live_ranges [] = []"
  by (simp add: live_ranges_def)

lemma live_ranges_Cons [simp]:
  "live_ranges (x # xs) = (if mo_valid x then obj_range x # live_ranges xs else live_ranges xs)"
  by (simp add: live_ranges_def)

lemma live_ranges_invalidate:
  assumes "i < length h" and "mo_valid (h ! i)"
  shows "mset (live_ranges h) = add_mset (obj_range (h ! i)) (mset (live_ranges (h[i := invalidate (h ! i)])))"
proof -
  have h: "h = take i h @ h ! i # drop (Suc i) h" using assms(1) by (simp add: id_take_nth_drop)
  have u: "h[i := invalidate (h ! i)] = take i h @ invalidate (h ! i) # drop (Suc i) h"
    using assms(1) by (simp add: upd_conv_take_nth_drop)
  have "live_ranges h = live_ranges (take i h) @ obj_range (h ! i) # live_ranges (drop (Suc i) h)"
    using assms(2) by (subst h) (simp add: live_ranges_def del: take_Suc_conv_app_nth)
  moreover have "live_ranges (h[i := invalidate (h ! i)]) = live_ranges (take i h) @ live_ranges (drop (Suc i) h)"
    unfolding u by (simp add: live_ranges_def invalidate_def)
  ultimately show ?thesis by simp
qed

lemma live_ranges_upd:
  assumes "mo_valid (f (h ! i)) = mo_valid (h ! i)" and "obj_range (f (h ! i)) = obj_range (h ! i)"
  shows "live_ranges (h[i := f (h ! i)]) = live_ranges h"
proof (cases "i < length h")
  case True
  then have "h = take i h @ h ! i # drop (Suc i) h" by (rule id_take_nth_drop)
  then have "live_ranges h = live_ranges (take i h @ h ! i # drop (Suc i) h)" by (rule arg_cong)
  with True assms show ?thesis by (simp add: upd_conv_take_nth_drop)
qed (simp add: list_update_beyond)

lemma live_ranges_new [simp]:
  "live_ranges (map (\<lambda>(addr, _). new_mem_obj addr n fmt shapes dtypes (addr, n)) rs) =
     map (\<lambda>r. (fst r, n)) rs"
  by (induction rs) (auto simp: live_ranges_def new_mem_obj_def obj_range_def)

lemma ta_inv_pos: "ta_inv sl ta \<Longrightarrow> obj \<in> set (ta_heap ta) \<Longrightarrow> mo_valid obj \<Longrightarrow> 0 < mo_phy_size obj"
  by (force simp: ta_inv_def am_ledger_def live_ranges_def obj_range_def)

lemma ta_inv_upd_obj:
  assumes "ta_inv sl ta" and "\<And>obj. mo_valid (f obj) = mo_valid obj"
    and "\<And>obj. obj_range (f obj) = obj_range obj"
  shows "ta_inv sl (upd_obj i f ta)"
  using assms by (simp add: ta_inv_def upd_obj_def live_ranges_upd)

lemma ta_init_inv:
  assumes "sorted_list_spec sl" and "0 < sz"
  shows "ta_inv sl (ta_init sl sz (2 ^ k) None)"
  using am_reach_ledger [OF am_reach.init assms(1)] assms(2)
  by (simp add: ta_inv_def ta_init_def)

lemma ta_allocate_inv:
  assumes "ta_inv sl ta" and "get_size_bytes shapes dtypes = Inr raw" and "0 < raw"
  shows "ta_inv sl (fst (ta_allocate sl ta shapes dtypes fmt))"
proof (cases "am_allocate sl (ta_am ta) raw")
  case (Inl e)
  then show ?thesis using assms by (simp add: ta_allocate_def)
next
  case (Inr p)
  obtain a n am' where p: "p = ((a, n), am')" by (metis prod.exhaust)
  have ne: "shapes \<noteq> []" using assms(2,3) by (auto simp: get_size_bytes_def split: if_splits)
  have led: "am_ledger sl (ta_am ta) (live_ranges (ta_heap ta))" using assms(1) by (simp add: ta_inv_def)
  have "am_ledger sl am' ((a, n) # live_ranges (ta_heap ta))"
    by (rule am_ledger_alloc [OF led assms(3) Inr [unfolded p]])
  then have "am_ledger sl am' (live_ranges (ta_heap ta) @ [(a, n)])"
    by (rule am_ledger_perm) simp
  then show ?thesis using assms Inr p ne
    by (auto simp: ta_allocate_def ta_inv_def live_ranges_def new_mem_obj_def obj_range_def)
qed

lemma compute_aligned_idem:
  assumes "am_inv m"
  shows "compute_aligned_size m (compute_aligned_size m r) = compute_aligned_size m r"
proof -
  obtain k where k: "am_align m = 2 ^ k" using assms by (auto simp: am_inv_def)
  let ?n = "compute_aligned_size m r" and ?a = "(2::int) ^ k"
  have "?a dvd ?n" using compute_aligned_size_pow2(1) [OF k] k by simp
  moreover have "?a dvd compute_aligned_size m ?n" using compute_aligned_size_pow2(1) [OF k] k by simp
  ultimately have "?a dvd (compute_aligned_size m ?n - ?n)" by simp
  moreover have "0 \<le> compute_aligned_size m ?n - ?n" "compute_aligned_size m ?n - ?n < ?a"
    using compute_aligned_size_pow2(2,3) [OF k, of ?n] k by simp_all
  ultimately have "compute_aligned_size m ?n - ?n = 0"
    using zdvd_imp_le [of ?a "compute_aligned_size m ?n - ?n"] by linarith
  then show ?thesis by simp
qed

lemma ta_batched_allocate_inv:
  assumes "ta_inv sl ta" and "get_size_bytes shapes dtypes = Inr raw" and "0 < raw"
  shows "ta_inv sl (fst (ta_batched_allocate sl ta shapes dtypes c fmt))"
proof -
  let ?n = "compute_aligned_size (ta_am ta) raw"
  have led: "am_ledger sl (ta_am ta) (live_ranges (ta_heap ta))" using assms(1) by (simp add: ta_inv_def)
  then have inv: "am_inv (ta_am ta)" and sl: "sorted_list_spec sl" by (auto simp: am_ledger_def)
  have n: "0 < ?n" using am_inv_aligned_size(2) [OF inv, of raw] assms(3) by simp
  show ?thesis
  proof (cases "am_batched_allocate sl (ta_am ta) ?n c")
    case (Inl e)
    then show ?thesis using assms by (simp add: ta_batched_allocate_def)
  next
    case (Inr p)
    obtain rs am' where p: "p = (rs, am')" by fastforce
    have ne: "shapes \<noteq> []" using assms(2,3) by (auto simp: get_size_bytes_def split: if_splits)
    note b = am_ledger_balloc [OF led n Inr [unfolded p]]
    have "snd r = ?n" if "r \<in> set rs" for r
      using am_batched_allocate_law(5) [OF sl inv n Inr [unfolded p]] that
      by (simp add: compute_aligned_idem [OF inv])
    then have rs: "map (\<lambda>r. (fst r, ?n)) rs = rs" by (intro map_idI) (simp add: prod_eq_iff)
    have "am_ledger sl am' (live_ranges (ta_heap ta) @ rs)"
      by (rule am_ledger_perm [OF b(1)]) simp
    then show ?thesis using assms Inr p ne b(2) rs
      by (simp add: ta_batched_allocate_def Let_def ta_inv_def)
  qed
qed

lemma ta_free_inv:
  assumes "ta_inv sl ta" and "i < length (ta_heap ta)"
  shows "ta_inv sl (ta_free sl ta i)"
proof (cases "mo_valid (ta_heap ta ! i)")
  case True
  let ?o = "ta_heap ta ! i" and ?h' = "(ta_heap ta)[i := invalidate (ta_heap ta ! i)]"
  have led: "am_ledger sl (ta_am ta) (live_ranges (ta_heap ta))" using assms(1) by (simp add: ta_inv_def)
  note ms = live_ranges_invalidate [OF assms(2) True]
  have "am_ledger sl (ta_am ta) ([obj_range ?o] @ live_ranges ?h')"
    by (rule am_ledger_perm [OF led]) (simp add: ms)
  then have "am_ledger sl (am_free sl (ta_am ta) (mo_address ?o) (mo_phy_size ?o)) (live_ranges ?h')"
    using ta_inv_pos [OF assms(1) nth_mem [OF assms(2)] True]
    by (intro am_ledger_release_group [where rs = "[obj_range ?o]"]) (auto simp: obj_range_def)
  moreover have "length (live_ranges (ta_heap ta)) = Suc (length (live_ranges ?h'))"
    using arg_cong [OF ms, of size] by simp
  ultimately show ?thesis using assms(1) True by (simp add: ta_free_def Let_def ta_inv_def)
qed (use assms in \<open>simp add: ta_free_def Let_def\<close>)

subsection \<open>Coalesced batches\<close>

text \<open>
  A coalesced block stands for the group of objects merged into it: same bytes, same total
  size, and the count is the size of the group.
\<close>

fun covers :: "int \<times> int \<times> int \<Rightarrow> (int \<times> int) list \<Rightarrow> bool" where
  "covers (a, s, c) rs \<longleftrightarrow> s = sum_list (map snd rs) \<and> c = int (length rs) \<and> 0 < s \<and>
     (\<forall>x. owners rs x = owners [(a, s)] x)"

lemma covers_single [simp]: "covers (a, s, 1) [(a, s)] \<longleftrightarrow> 0 < s"
  by simp

lemma covers_extend:
  assumes "covers (a, s, c) rs" and "0 < n"
  shows "covers (a, s + n, c + 1) (rs @ [(a + s, n)])"
  using assms by auto

declare covers.simps [simp del]

lemma coalesce_step_covers:
  assumes "list_all2 covers (coalesced_blocks acc) gs" and "0 < mo_phy_size obj"
  obtains gs' where "list_all2 covers (coalesced_blocks (coalesce_step acc obj)) gs'"
    and "mset (concat gs') = add_mset (obj_range obj) (mset (concat gs))"
proof -
  have new: "list_all2 covers (coalesced_blocks acc @ [(mo_address obj, mo_phy_size obj, 1)]) (gs @ [[obj_range obj]])"
    using assms by (intro list_all2_appendI) (simp_all add: obj_range_def)
  show thesis
  proof (cases "\<exists>st sz cnt blocks. acc = (Some (st, sz, cnt), blocks) \<and> st + sz = mo_address obj")
    case True
    then obtain st sz cnt blocks where acc: "acc = (Some (st, sz, cnt), blocks)" and adj: "st + sz = mo_address obj"
      by blast
    obtain g1 g where gs: "gs = g1 @ [g]" "list_all2 covers blocks g1" "covers (st, sz, cnt) g"
      using assms(1) unfolding acc by (auto simp: list_all2_append1 list_all2_Cons1)
    have "covers (st, sz + mo_phy_size obj, cnt + 1) (g @ [obj_range obj])"
      using covers_extend [OF gs(3) assms(2)] by (simp add: adj obj_range_def)
    with gs(2) have "list_all2 covers (coalesced_blocks (coalesce_step acc obj)) (g1 @ [g @ [obj_range obj]])"
      by (simp add: acc adj list_all2_appendI)
    then show thesis by (rule that) (simp add: gs(1))
  next
    case False
    then have "coalesced_blocks (coalesce_step acc obj) = coalesced_blocks acc @ [(mo_address obj, mo_phy_size obj, 1)]"
      by (cases "(acc, obj)" rule: coalesce_step.cases) auto
    with new have "list_all2 covers (coalesced_blocks (coalesce_step acc obj)) (gs @ [[obj_range obj]])" by simp
    then show thesis by (rule that) simp
  qed
qed

lemma batched_free_loop_covers:
  assumes "batched_free_loop is h acc = (h', acc')"
    and "list_all2 covers (coalesced_blocks acc) gs"
    and "\<forall>i\<in>set is. i < length h" and "\<forall>obj\<in>set h. mo_valid obj \<longrightarrow> 0 < mo_phy_size obj"
  shows "\<exists>gs'. list_all2 covers (coalesced_blocks acc') gs' \<and>
    mset (concat gs') + mset (live_ranges h') = mset (concat gs) + mset (live_ranges h)"
  using assms
proof (induction "is" h acc arbitrary: gs rule: batched_free_loop.induct)
  case (1 heap acc)
  then show ?case by auto
next
  case (2 i "is" heap acc)
  show ?case
  proof (cases "mo_valid (heap ! i)")
    case False
    with 2 show ?thesis by auto
  next
    case True
    let ?h = "heap[i := invalidate (heap ! i)]"
    have i: "i < length heap" using 2 by simp
    then have pos: "0 < mo_phy_size (heap ! i)" using 2(5,6) True by auto
    obtain gs1 where g1: "list_all2 covers (coalesced_blocks (coalesce_step acc (heap ! i))) gs1"
        "mset (concat gs1) = add_mset (obj_range (heap ! i)) (mset (concat gs))"
      by (rule coalesce_step_covers [OF 2(4) pos])
    have v: "\<forall>obj\<in>set ?h. mo_valid obj \<longrightarrow> 0 < mo_phy_size obj"
      using 2(6) by (auto simp: invalidate_def dest!: set_update_subset_insert [THEN subsetD])
    obtain gs' where "list_all2 covers (coalesced_blocks acc') gs'"
        "mset (concat gs') + mset (live_ranges h') = mset (concat gs1) + mset (live_ranges ?h)"
      using 2(2) [OF _ _ g1(1) _ v] 2(3,5) True by auto
    moreover have "mset (concat gs1) + mset (live_ranges ?h) = mset (concat gs) + mset (live_ranges heap)"
      using g1(2) live_ranges_invalidate [OF i True] by simp
    ultimately show ?thesis by auto
  qed
qed

lemma fold_free_covers:
  assumes "list_all2 covers blocks gs" and "am_ledger sl m (concat gs @ live)"
  shows "am_ledger sl (fold (\<lambda>(address, sz, cnt) am. am_free sl am address sz) blocks m) live \<and>
    sum_list (map (\<lambda>(_, _, cnt). cnt) blocks) = int (length (concat gs))"
  using assms
proof (induction arbitrary: m rule: list_all2_induct)
  case (Cons b bs g gs)
  obtain a s c where b: "b = (a, s, c)" by (cases b)
  have "am_ledger sl (am_free sl m a s) (concat gs @ live)"
    by (rule am_ledger_release_group [where rs = g]) (use Cons b in \<open>auto simp: covers.simps\<close>)
  with Cons b show ?case by (auto simp: covers.simps)
qed simp

lemma ta_batched_free_inv:
  assumes "ta_inv sl ta" and "\<forall>i\<in>set is. i < length (ta_heap ta)"
  shows "ta_inv sl (ta_batched_free sl ta is)"
proof (cases "is = []")
  case True
  with assms show ?thesis by (simp add: ta_batched_free_def)
next
  case False
  let ?s = "sort_key (\<lambda>i. mo_address (ta_heap ta ! i)) is"
  obtain h' acc where l: "batched_free_loop ?s (ta_heap ta) (None, []) = (h', acc)"
    by (cases "batched_free_loop ?s (ta_heap ta) (None, [])") blast
  have "\<exists>gs'. list_all2 covers (coalesced_blocks acc) gs' \<and>
      mset (concat gs') + mset (live_ranges h') = mset (concat []) + mset (live_ranges (ta_heap ta))"
    by (rule batched_free_loop_covers [OF l]) (use assms ta_inv_pos in auto)
  then obtain gs where g: "list_all2 covers (coalesced_blocks acc) gs"
      "mset (concat gs) + mset (live_ranges h') = mset (live_ranges (ta_heap ta))"
    by auto
  have "am_ledger sl (ta_am ta) (concat gs @ live_ranges h')"
    by (rule am_ledger_perm [of _ _ "live_ranges (ta_heap ta)"]) (use assms(1) g(2) in \<open>auto simp: ta_inv_def\<close>)
  note f = fold_free_covers [OF g(1) this]
  have "length (live_ranges (ta_heap ta)) = length (concat gs) + length (live_ranges h')"
    using arg_cong [OF g(2), of size] by simp
  with f assms(1) False l show ?thesis
    by (simp add: ta_batched_free_def ta_inv_def Let_def)
qed

section \<open>Runs of the allocator\<close>

lemma ref_count_up_inv: "ta_inv sl ta \<Longrightarrow> ta_inv sl (ref_count_up i ta)"
  unfolding ref_count_up_def by (rule ta_inv_upd_obj) (simp_all add: obj_range_def)

lemma length_upd_obj [simp]: "length (ta_heap (upd_obj i f ta)) = length (ta_heap ta)"
  by (simp add: upd_obj_def)

lemma length_ta_free [simp]: "length (ta_heap (ta_free sl ta i)) = length (ta_heap ta)"
  by (simp add: ta_free_def Let_def)

lemma length_ref_count_down [simp]: "length (ta_heap (ref_count_down sl i ta)) = length (ta_heap ta)"
  by (simp add: ref_count_down_def Let_def)

lemma ref_count_down_inv:
  assumes "ta_inv sl ta" and "i < length (ta_heap ta)"
  shows "ta_inv sl (ref_count_down sl i ta)"
proof -
  have "ta_inv sl (upd_obj i (\<lambda>obj. obj\<lparr>mo_ref_count := n\<rparr>) ta)" for n
    by (rule ta_inv_upd_obj [OF assms(1)]) (simp_all add: obj_range_def)
  then show ?thesis using assms(2) by (simp add: ref_count_down_def Let_def ta_free_inv)
qed

lemma unpin_obj_inv:
  assumes "ta_inv sl (fst s)" and "i < length (ta_heap (fst s))"
  shows "ta_inv sl (fst (unpin_obj sl i s)) \<and>
    length (ta_heap (fst (unpin_obj sl i s))) = length (ta_heap (fst s))"
proof -
  have u: "ta_inv sl ta \<Longrightarrow> ta_inv sl (upd_obj i (\<lambda>obj. obj\<lparr>mo_pin_count := n\<rparr>) ta)" for n ta
    by (rule ta_inv_upd_obj) (simp_all add: obj_range_def)
  show ?thesis using assms by (cases s) (simp add: unpin_obj_def Let_def ta_free_inv u)
qed

lemma pin_obj_inv:
  assumes "ta_inv sl (fst s)"
  shows "ta_inv sl (fst (pin_obj t i s)) \<and> length (ta_heap (fst (pin_obj t i s))) = length (ta_heap (fst s))"
proof -
  have "ta_inv sl (upd_obj i (\<lambda>obj. obj\<lparr>mo_pin_count := mo_pin_count obj + 1\<rparr>) (fst s))"
    by (rule ta_inv_upd_obj [OF assms]) (simp_all add: obj_range_def)
  then show ?thesis by (cases s) (simp add: pin_obj_def)
qed

lemma force_unpin_inv:
  assumes "ta_inv sl (fst s)" and "i < length (ta_heap (fst s))"
  shows "ta_inv sl (fst (force_unpin sl i s)) \<and>
    length (ta_heap (fst (force_unpin sl i s))) = length (ta_heap (fst s))"
proof -
  have "ta_inv sl (fst ((unpin_obj sl i ^^ k) s)) \<and>
    length (ta_heap (fst ((unpin_obj sl i ^^ k) s))) = length (ta_heap (fst s))" for k
    using assms by (induction k) (auto simp: unpin_obj_inv)
  then show ?thesis by (simp add: force_unpin_def)
qed

lemma fold_force_unpin_inv:
  assumes "ta_inv sl (fst s)" and "\<forall>i\<in>set is. i < length (ta_heap (fst s))"
  shows "ta_inv sl (fst (fold (force_unpin sl) is s)) \<and>
    length (ta_heap (fst (fold (force_unpin sl) is s))) = length (ta_heap (fst s))"
  using assms
proof (induction "is" arbitrary: s)
  case (Cons i "is")
  have f: "ta_inv sl (fst (force_unpin sl i s)) \<and> length (ta_heap (fst (force_unpin sl i s))) = length (ta_heap (fst s))"
    using Cons.prems by (intro force_unpin_inv) auto
  with Cons.IH [of "force_unpin sl i s"] Cons.prems show ?case by simp
qed simp

text \<open>
  A run of one \<open>TensorMemoryAllocator\<close> and the \<open>PinMonitor\<close>. With \<open>direct = False\<close> clients
  follow the reference protocol: they give objects back through \<open>ref_count_down\<close> and \<open>unpin\<close>
  only, and take references and pins on objects that are still valid. With \<open>direct = True\<close>
  they may also call \<open>free\<close> and \<open>batched_free\<close> on any objects, freed ones and duplicates included.
\<close>

type_synonym ta_state = "tensor_allocator \<times> pin_monitor"

inductive ta_reach ::
  "sorted_list_ops \<Rightarrow> (rat \<Rightarrow> rat) \<Rightarrow> int \<Rightarrow> nat \<Rightarrow> bool \<Rightarrow> ta_state \<Rightarrow> bool"
  for sl :: sorted_list_ops and rnd :: "rat \<Rightarrow> rat" and sz0 :: int and k :: nat and direct :: bool where
  init: "0 < sz0 \<Longrightarrow>
    ta_reach sl rnd sz0 k direct (ta_init sl sz0 (2 ^ k) None, \<lparr>pm_pinned_objects = [], pm_pin_timeout_sec = t0\<rparr>)"
| allocate: "ta_reach sl rnd sz0 k direct (ta, pm) \<Longrightarrow> get_size_bytes shapes dtypes = Inr raw \<Longrightarrow> 0 < raw \<Longrightarrow>
    ta_reach sl rnd sz0 k direct (fst (ta_allocate sl ta shapes dtypes fmt), pm)"
| batched_allocate: "ta_reach sl rnd sz0 k direct (ta, pm) \<Longrightarrow> get_size_bytes shapes dtypes = Inr raw \<Longrightarrow> 0 < raw \<Longrightarrow>
    ta_reach sl rnd sz0 k direct (fst (ta_batched_allocate sl ta shapes dtypes c fmt), pm)"
| free: "ta_reach sl rnd sz0 k direct (ta, pm) \<Longrightarrow> direct \<Longrightarrow> i < length (ta_heap ta) \<Longrightarrow>
    ta_reach sl rnd sz0 k direct (ta_free sl ta i, pm)"
| batched_free: "ta_reach sl rnd sz0 k direct (ta, pm) \<Longrightarrow> direct \<Longrightarrow> \<forall>i\<in>set is. i < length (ta_heap ta) \<Longrightarrow>
    ta_reach sl rnd sz0 k direct (ta_batched_free sl ta is, pm)"
| ref_up: "ta_reach sl rnd sz0 k direct (ta, pm) \<Longrightarrow> i < length (ta_heap ta) \<Longrightarrow> direct \<or> mo_valid (ta_heap ta ! i) \<Longrightarrow>
    ta_reach sl rnd sz0 k direct (ref_count_up i ta, pm)"
| ref_down: "ta_reach sl rnd sz0 k direct (ta, pm) \<Longrightarrow> i < length (ta_heap ta) \<Longrightarrow>
    ta_reach sl rnd sz0 k direct (ref_count_down sl i ta, pm)"
| pin: "ta_reach sl rnd sz0 k direct s \<Longrightarrow> i < length (ta_heap (fst s)) \<Longrightarrow> direct \<or> mo_valid (ta_heap (fst s) ! i) \<Longrightarrow>
    ta_reach sl rnd sz0 k direct (pin_obj t i s)"
| unpin: "ta_reach sl rnd sz0 k direct s \<Longrightarrow> i < length (ta_heap (fst s)) \<Longrightarrow>
    ta_reach sl rnd sz0 k direct (unpin_obj sl i s)"
| timeouts: "ta_reach sl rnd sz0 k direct s \<Longrightarrow>
    ta_reach sl rnd sz0 k direct (fst (check_timeouts sl rnd t s))"

definition pins_in_heap :: "ta_state \<Rightarrow> bool" where
  "pins_in_heap s \<longleftrightarrow> fst ` set (pm_pinned_objects (snd s)) \<subseteq> {..<length (ta_heap (fst s))}"

lemma length_ta_batched_free [simp]: "length (ta_heap (ta_batched_free sl ta is)) = length (ta_heap ta)"
proof -
  have "length (fst (batched_free_loop js h acc)) = length h" for js h acc
    by (induction js h acc rule: batched_free_loop.induct) auto
  then have "batched_free_loop js h acc = (h', acc') \<Longrightarrow> length h' = length h" for js h acc h' acc'
    by (metis fst_conv)
  then show ?thesis by (auto simp: ta_batched_free_def Let_def split: prod.splits)
qed

lemma ta_allocate_heap_grows: "length (ta_heap ta) \<le> length (ta_heap (fst (ta_allocate sl ta shapes dtypes fmt)))"
  by (simp add: ta_allocate_def Let_def split: sum.splits prod.splits)

lemma ta_batched_allocate_heap_grows:
  "length (ta_heap ta) \<le> length (ta_heap (fst (ta_batched_allocate sl ta shapes dtypes c fmt)))"
  by (simp add: ta_batched_allocate_def Let_def split: sum.splits prod.splits)

lemma pins_of_unpin: "fst ` set (pm_pinned_objects (snd (unpin_obj sl i s))) \<subseteq> fst ` set (pm_pinned_objects (snd s))"
  by (cases s) (auto simp: unpin_obj_def Let_def on_unpin_def)

definition pins :: "ta_state \<Rightarrow> nat set" where
  "pins s = fst ` set (pm_pinned_objects (snd s))"

lemma pins_of_force: "pins (fold (force_unpin sl) is s) \<subseteq> pins s"
proof -
  have u: "pins (unpin_obj sl i s) \<subseteq> pins s" for i s
    unfolding pins_def by (rule pins_of_unpin)
  have n: "pins ((unpin_obj sl i ^^ n) s) \<subseteq> pins s" for i n s
  proof (induction n)
    case (Suc n)
    have "pins ((unpin_obj sl i ^^ Suc n) s) \<subseteq> pins ((unpin_obj sl i ^^ n) s)" by (simp add: u)
    with Suc show ?case by (rule order_trans [rotated])
  qed simp
  have f: "pins (force_unpin sl i s) \<subseteq> pins s" for i s
    unfolding force_unpin_def by (rule n)
  show ?thesis
  proof (induction "is" arbitrary: s)
    case (Cons i "is")
    show ?case using order_trans [OF Cons [of "force_unpin sl i s"] f] by simp
  qed simp
qed

lemma timeout_objects_pinned: "set (timeout_objects rnd t s) \<subseteq> fst ` set (pm_pinned_objects (snd s))"
  by (cases s) (auto simp: timeout_objects_def)

lemma ta_reach_inv:
  assumes "ta_reach sl rnd sz0 k direct s" and "sorted_list_spec sl"
  shows "ta_inv sl (fst s) \<and> pins_in_heap s"
  using assms
proof (induction rule: ta_reach.induct)
  case (init t0)
  then show ?case by (simp add: ta_init_inv pins_in_heap_def)
next
  case (allocate ta pm shapes dtypes raw fmt)
  then show ?case using ta_allocate_inv ta_allocate_heap_grows [of ta sl shapes dtypes fmt]
    by (force simp: pins_in_heap_def)
next
  case (batched_allocate ta pm shapes dtypes raw c fmt)
  then show ?case using ta_batched_allocate_inv ta_batched_allocate_heap_grows [of ta sl shapes dtypes c fmt]
    by (force simp: pins_in_heap_def)
next
  case (free ta pm i)
  then show ?case by (simp add: ta_free_inv pins_in_heap_def)
next
  case (batched_free ta pm "is")
  then show ?case by (simp add: ta_batched_free_inv pins_in_heap_def)
next
  case (ref_up ta pm i)
  then show ?case by (simp add: ref_count_up_inv pins_in_heap_def) (simp add: ref_count_up_def)
next
  case (ref_down ta pm i)
  then show ?case by (simp add: ref_count_down_inv pins_in_heap_def)
next
  case (pin s i t)
  then have "fst ` set (pm_pinned_objects (snd (pin_obj t i s))) = insert i (fst ` set (pm_pinned_objects (snd s)))"
    by (cases s) (simp add: pin_obj_def on_pin_def)
  with pin pin_obj_inv [of sl s t i] show ?case by (auto simp: pins_in_heap_def)
next
  case (unpin s i)
  then show ?case using pins_of_unpin [of sl i s] unpin_obj_inv [of sl s i] by (auto simp: pins_in_heap_def)
next
  case (timeouts s t)
  have "\<forall>i\<in>set (timeout_objects rnd t s). i < length (ta_heap (fst s))"
    using timeouts timeout_objects_pinned [of rnd t s] by (auto simp: pins_in_heap_def)
  with timeouts have "ta_inv sl (fst (fold (force_unpin sl) (timeout_objects rnd t s) s)) \<and>
      length (ta_heap (fst (fold (force_unpin sl) (timeout_objects rnd t s) s))) = length (ta_heap (fst s))"
    by (intro fold_force_unpin_inv) auto
  with timeouts pins_of_force [of sl "timeout_objects rnd t s" s] show ?case
    by (auto simp: check_timeouts_def Let_def pins_in_heap_def pins_def)
qed

subsection \<open>The reference protocol\<close>

definition rc_ok :: "mem_obj \<Rightarrow> bool" where
  "rc_ok obj \<longleftrightarrow> 0 \<le> mo_ref_count obj \<and> 0 \<le> mo_pin_count obj \<and>
     (mo_valid obj \<longleftrightarrow> 0 < mo_ref_count obj \<or> 0 < mo_pin_count obj)"

definition rc_inv :: "mem_obj list \<Rightarrow> bool" where
  "rc_inv heap \<longleftrightarrow> (\<forall>obj\<in>set heap. rc_ok obj)"

lemma rc_inv_nth: "rc_inv heap \<Longrightarrow> i < length heap \<Longrightarrow> rc_ok (heap ! i)"
  by (simp add: rc_inv_def)

lemma rc_inv_update: "rc_inv heap \<Longrightarrow> rc_ok obj \<Longrightarrow> rc_inv (heap[i := obj])"
  by (auto simp: rc_inv_def dest!: set_update_subset_insert [THEN subsetD])

lemma rc_inv_append: "rc_inv (xs @ ys) \<longleftrightarrow> rc_inv xs \<and> rc_inv ys"
  by (auto simp: rc_inv_def)

lemma rc_inv_new: "rc_ok (new_mem_obj a n fmt shapes dtypes r)"
  by (simp add: rc_ok_def new_mem_obj_def)

lemma ta_allocate_rc: "rc_inv (ta_heap ta) \<Longrightarrow> rc_inv (ta_heap (fst (ta_allocate sl ta shapes dtypes fmt)))"
  using rc_inv_new by (simp add: ta_allocate_def Let_def rc_inv_def split: sum.splits prod.splits)

lemma ta_batched_allocate_rc:
  "rc_inv (ta_heap ta) \<Longrightarrow> rc_inv (ta_heap (fst (ta_batched_allocate sl ta shapes dtypes c fmt)))"
  using rc_inv_new by (auto simp: ta_batched_allocate_def Let_def rc_inv_def split: sum.splits prod.splits)

lemma ref_count_up_rc:
  assumes "rc_inv (ta_heap ta)" and "i < length (ta_heap ta)" and "mo_valid (ta_heap ta ! i)"
  shows "rc_inv (ta_heap (ref_count_up i ta))"
  using rc_inv_nth [OF assms(1,2)] assms
  by (simp add: ref_count_up_def upd_obj_def rc_inv_update rc_ok_def)

text \<open>What one call of \<open>ref_count_down\<close> or \<open>unpin\<close> does to the heap.\<close>

definition dropped :: "int \<Rightarrow> int \<Rightarrow> mem_obj \<Rightarrow> mem_obj" where
  "dropped rc pc obj = obj\<lparr>mo_ref_count := rc, mo_pin_count := pc, mo_valid := mo_valid obj \<and> (0 < rc \<or> 0 < pc)\<rparr>"

lemma dropped_rc_ok: "rc_ok obj \<Longrightarrow> 0 \<le> rc \<Longrightarrow> 0 \<le> pc \<Longrightarrow> rc \<le> mo_ref_count obj \<Longrightarrow> pc \<le> mo_pin_count obj \<Longrightarrow> rc_ok (dropped rc pc obj)"
  by (auto simp: rc_ok_def dropped_def)

lemma ref_count_down_heap:
  assumes "i < length (ta_heap ta)" and "rc_ok (ta_heap ta ! i)"
  shows "ta_heap (ref_count_down sl i ta) =
    (ta_heap ta)[i := dropped (max 0 (mo_ref_count (ta_heap ta ! i) - 1)) (mo_pin_count (ta_heap ta ! i)) (ta_heap ta ! i)]"
proof -
  let ?o = "ta_heap ta ! i"
  have "mo_ref_count ?o > 1 \<or> mo_ref_count ?o = 1 \<or> mo_ref_count ?o = 0" using assms(2) by (auto simp: rc_ok_def)
  then show ?thesis using assms
    by (elim disjE) (auto simp: ref_count_down_def upd_obj_def dropped_def ta_free_def Let_def invalidate_def rc_ok_def
        intro!: arg_cong [of _ _ "list_update (ta_heap ta) i"])
qed

lemma unpin_obj_heap:
  assumes "i < length (ta_heap ta)" and "rc_ok (ta_heap ta ! i)"
  shows "ta_heap (fst (unpin_obj sl i (ta, pm))) =
    (ta_heap ta)[i := dropped (mo_ref_count (ta_heap ta ! i)) (max 0 (mo_pin_count (ta_heap ta ! i) - 1)) (ta_heap ta ! i)]"
proof -
  let ?o = "ta_heap ta ! i"
  have "mo_pin_count ?o > 1 \<or> mo_pin_count ?o = 1 \<or> mo_pin_count ?o = 0" using assms(2) by (auto simp: rc_ok_def)
  then show ?thesis using assms
    by (elim disjE; cases "mo_ref_count ?o = 0")
      (auto simp: unpin_obj_def upd_obj_def dropped_def ta_free_def Let_def invalidate_def rc_ok_def
        intro!: arg_cong [of _ _ "list_update (ta_heap ta) i"])
qed

lemma ref_count_down_rc:
  assumes "rc_inv (ta_heap ta)" and "i < length (ta_heap ta)"
  shows "rc_inv (ta_heap (ref_count_down sl i ta))"
  using rc_inv_nth [OF assms] assms
  by (auto simp: ref_count_down_heap rc_ok_def intro!: rc_inv_update dropped_rc_ok)

lemma unpin_obj_rc:
  assumes "rc_inv (ta_heap (fst s))" and "i < length (ta_heap (fst s))"
  shows "rc_inv (ta_heap (fst (unpin_obj sl i s)))"
  using rc_inv_nth [OF assms] assms
  by (cases s) (auto simp: unpin_obj_heap rc_ok_def intro!: rc_inv_update dropped_rc_ok)

lemma length_unpin_obj [simp]: "length (ta_heap (fst (unpin_obj sl i s))) = length (ta_heap (fst s))"
  by (cases s) (simp add: unpin_obj_def Let_def)

lemma force_unpin_rc:
  assumes "rc_inv (ta_heap (fst s))" and "i < length (ta_heap (fst s))"
  shows "rc_inv (ta_heap (fst (force_unpin sl i s))) \<and> length (ta_heap (fst (force_unpin sl i s))) = length (ta_heap (fst s))"
proof -
  have "rc_inv (ta_heap (fst ((unpin_obj sl i ^^ n) s))) \<and> length (ta_heap (fst ((unpin_obj sl i ^^ n) s))) = length (ta_heap (fst s))" for n
    using assms by (induction n) (auto simp: unpin_obj_rc)
  then show ?thesis by (simp add: force_unpin_def)
qed

lemma fold_force_unpin_rc:
  assumes "rc_inv (ta_heap (fst s))" and "\<forall>i\<in>set is. i < length (ta_heap (fst s))"
  shows "rc_inv (ta_heap (fst (fold (force_unpin sl) is s)))"
  using assms
proof (induction "is" arbitrary: s)
  case (Cons i "is")
  have "rc_inv (ta_heap (fst (force_unpin sl i s))) \<and> length (ta_heap (fst (force_unpin sl i s))) = length (ta_heap (fst s))"
    using Cons.prems by (intro force_unpin_rc) auto
  with Cons.IH [of "force_unpin sl i s"] Cons.prems show ?case by simp
qed simp

lemma ta_reach_rc:
  assumes "ta_reach sl rnd sz0 k direct s" and "sorted_list_spec sl" and "\<not> direct"
  shows "rc_inv (ta_heap (fst s))"
  using assms
proof (induction rule: ta_reach.induct)
  case (init t0)
  then show ?case by (simp add: ta_init_def rc_inv_def)
next
  case (pin s i t)
  then show ?case using rc_inv_nth [of "ta_heap (fst s)" i]
    by (cases s) (auto simp: pin_obj_def upd_obj_def rc_ok_def intro!: rc_inv_update)
next
  case (timeouts s t)
  have "\<forall>i\<in>set (timeout_objects rnd t s). i < length (ta_heap (fst s))"
    using ta_reach_inv [OF timeouts(1,3)] timeout_objects_pinned [of rnd t s] by (auto simp: pins_in_heap_def)
  with timeouts show ?case by (simp add: check_timeouts_def Let_def fold_force_unpin_rc)
qed (simp_all add: ta_allocate_rc ta_batched_allocate_rc ref_count_up_rc ref_count_down_rc unpin_obj_rc)

lemma live_range_mem:
  "i < length h \<Longrightarrow> mo_valid (h ! i) \<Longrightarrow> obj_range (h ! i) \<in> set (live_ranges h)"
  by (auto simp: live_ranges_def)

lemma live_ranges_two:
  assumes "i < j" and "j < length h" and "mo_valid (h ! i)" and "mo_valid (h ! j)"
  shows "\<exists>i' j'. i' < j' \<and> j' < length (live_ranges h) \<and>
    live_ranges h ! i' = obj_range (h ! i) \<and> live_ranges h ! j' = obj_range (h ! j)"
proof -
  have ih: "i < length h" using assms by simp
  let ?l = "live_ranges (take i h)" and ?r = "live_ranges (drop (Suc i) h)"
  have "h = take i h @ h ! i # drop (Suc i) h" by (rule id_take_nth_drop [OF ih])
  then have "live_ranges h = live_ranges (take i h @ h ! i # drop (Suc i) h)" by (rule arg_cong)
  then have s: "live_ranges h = ?l @ obj_range (h ! i) # ?r" using assms(3) by simp
  have "drop (Suc i) h ! (j - Suc i) = h ! j" using assms by simp
  then have "obj_range (h ! j) \<in> set ?r"
    using live_range_mem [of "j - Suc i" "drop (Suc i) h"] assms by simp
  then obtain n where n: "n < length ?r" "?r ! n = obj_range (h ! j)" by (auto simp: in_set_conv_nth)
  show ?thesis unfolding s
    by (rule exI [of _ "length ?l"], rule exI [of _ "Suc (length ?l + n)"]) (use n in \<open>simp add: nth_append\<close>)
qed

subsection \<open>Timed-out pins\<close>

definition pin_of :: "ta_state \<Rightarrow> nat \<Rightarrow> int" where
  "pin_of s j = mo_pin_count (ta_heap (fst s) ! j)"

lemma unpin_obj_pin:
  assumes "rc_inv (ta_heap (fst s))" and "i < length (ta_heap (fst s))" and "0 < pin_of s i"
  shows "pin_of (unpin_obj sl i s) j = (if j = i then pin_of s i - 1 else pin_of s j)"
  using rc_inv_nth [OF assms(1,2)] assms
  by (cases s) (auto simp: pin_of_def unpin_obj_heap dropped_def nth_list_update)

lemma unpin_rounds:
  assumes "rc_inv (ta_heap (fst s))" and "i < length (ta_heap (fst s))" and "int n \<le> pin_of s i"
  shows "rc_inv (ta_heap (fst ((unpin_obj sl i ^^ n) s))) \<and>
    length (ta_heap (fst ((unpin_obj sl i ^^ n) s))) = length (ta_heap (fst s)) \<and>
    (\<forall>j. pin_of ((unpin_obj sl i ^^ n) s) j = (if j = i then pin_of s i - int n else pin_of s j))"
  using assms by (induction n) (auto simp: unpin_obj_pin unpin_obj_rc)

lemma force_unpin_pin:
  assumes "rc_inv (ta_heap (fst s))" and "i < length (ta_heap (fst s))"
  shows "pin_of (force_unpin sl i s) j = (if j = i then 0 else pin_of s j)"
proof -
  have "0 \<le> pin_of s i" using rc_inv_nth [OF assms] by (simp add: pin_of_def rc_ok_def)
  then have "pin_of ((unpin_obj sl i ^^ nat (pin_of s i)) s) j = (if j = i then pin_of s i - int (nat (pin_of s i)) else pin_of s j)"
    by (intro unpin_rounds [OF assms, THEN conjunct2, THEN conjunct2, THEN spec]) simp
  with \<open>0 \<le> pin_of s i\<close> show ?thesis by (simp add: force_unpin_def pin_of_def)
qed

lemma fold_force_unpin_pin:
  assumes "rc_inv (ta_heap (fst s))" and "\<forall>i\<in>set is. i < length (ta_heap (fst s))"
  shows "pin_of (fold (force_unpin sl) is s) j = (if j \<in> set is then 0 else pin_of s j)"
  using assms
proof (induction "is" arbitrary: s)
  case (Cons i "is")
  have r: "rc_inv (ta_heap (fst (force_unpin sl i s))) \<and> length (ta_heap (fst (force_unpin sl i s))) = length (ta_heap (fst s))"
    using Cons.prems by (intro force_unpin_rc) auto
  have "pin_of (force_unpin sl i s) j = (if j = i then 0 else pin_of s j)"
    using Cons.prems by (intro force_unpin_pin) auto
  with Cons.IH [of "force_unpin sl i s"] Cons.prems r show ?case by auto
qed simp

definition pin_entries :: "ta_state \<Rightarrow> (nat \<times> pyfloat) set" where
  "pin_entries s = set (pm_pinned_objects (snd s))"

lemma pin_entries_unpin: "pin_entries (unpin_obj sl i s) \<subseteq> pin_entries s"
  by (cases s) (auto simp: pin_entries_def unpin_obj_def Let_def on_unpin_def AList.delete_eq)

lemma timeout_sec_unpin: "pm_pin_timeout_sec (snd (unpin_obj sl i s)) = pm_pin_timeout_sec (snd s)"
  by (cases s) (auto simp: unpin_obj_def Let_def on_unpin_def)

lemma fold_force_entries:
  "pin_entries (fold (force_unpin sl) is s) \<subseteq> pin_entries s \<and>
   pm_pin_timeout_sec (snd (fold (force_unpin sl) is s)) = pm_pin_timeout_sec (snd s)"
proof -
  have n: "pin_entries ((unpin_obj sl i ^^ n) s) \<subseteq> pin_entries s \<and>
      pm_pin_timeout_sec (snd ((unpin_obj sl i ^^ n) s)) = pm_pin_timeout_sec (snd s)" for i n s
  proof (induction n)
    case (Suc n)
    then show ?case using pin_entries_unpin [of sl i "(unpin_obj sl i ^^ n) s"] timeout_sec_unpin
      by (metis comp_apply funpow.simps(2) order_trans)
  qed simp
  show ?thesis
  proof (induction "is" arbitrary: s)
    case (Cons i "is")
    have "pin_entries (force_unpin sl i s) \<subseteq> pin_entries s \<and>
        pm_pin_timeout_sec (snd (force_unpin sl i s)) = pm_pin_timeout_sec (snd s)"
      unfolding force_unpin_def by (rule n)
    with Cons [of "force_unpin sl i s"] show ?case by (simp, metis order_trans)
  qed simp
qed

lemma timeout_objects_mem:
  "i \<in> set (timeout_objects rnd t s) \<longleftrightarrow>
     0 < pin_of s i \<and> (\<exists>rt. (i, rt) \<in> pin_entries s \<and> rnd (t - rt) > pm_pin_timeout_sec (snd s))"
  by (cases s) (force simp: timeout_objects_def pin_of_def pin_entries_def)

text \<open>
  A run under the reference protocol that also remembers, in \<open>L\<close>, the time of the last call of
  \<open>pin\<close> on each object. Nothing in the code keeps \<open>L\<close>; the monitor has its own register of times.
\<close>

inductive ta_call :: "sorted_list_ops \<Rightarrow> (rat \<Rightarrow> rat) \<Rightarrow> ta_state \<Rightarrow> ta_state \<Rightarrow> bool"
  for sl :: sorted_list_ops and rnd :: "rat \<Rightarrow> rat" where
  allocate: "get_size_bytes shapes dtypes = Inr raw \<Longrightarrow> 0 < raw \<Longrightarrow>
    ta_call sl rnd (ta, pm) (fst (ta_allocate sl ta shapes dtypes fmt), pm)"
| batched_allocate: "get_size_bytes shapes dtypes = Inr raw \<Longrightarrow> 0 < raw \<Longrightarrow>
    ta_call sl rnd (ta, pm) (fst (ta_batched_allocate sl ta shapes dtypes c fmt), pm)"
| ref_up: "i < length (ta_heap ta) \<Longrightarrow> mo_valid (ta_heap ta ! i) \<Longrightarrow> ta_call sl rnd (ta, pm) (ref_count_up i ta, pm)"
| ref_down: "i < length (ta_heap ta) \<Longrightarrow> ta_call sl rnd (ta, pm) (ref_count_down sl i ta, pm)"
| unpin: "i < length (ta_heap (fst s)) \<Longrightarrow> ta_call sl rnd s (unpin_obj sl i s)"
| timeouts: "ta_call sl rnd s (fst (check_timeouts sl rnd t s))"

inductive pin_run :: "sorted_list_ops \<Rightarrow> (rat \<Rightarrow> rat) \<Rightarrow> int \<Rightarrow> nat \<Rightarrow> ta_state \<Rightarrow> (nat \<rightharpoonup> pyfloat) \<Rightarrow> bool"
  for sl :: sorted_list_ops and rnd :: "rat \<Rightarrow> rat" and sz0 :: int and k :: nat where
  init: "0 < sz0 \<Longrightarrow>
    pin_run sl rnd sz0 k (ta_init sl sz0 (2 ^ k) None, \<lparr>pm_pinned_objects = [], pm_pin_timeout_sec = t0\<rparr>) Map.empty"
| call: "pin_run sl rnd sz0 k s L \<Longrightarrow> ta_call sl rnd s s' \<Longrightarrow> pin_run sl rnd sz0 k s' L"
| pin: "pin_run sl rnd sz0 k s L \<Longrightarrow> i < length (ta_heap (fst s)) \<Longrightarrow> mo_valid (ta_heap (fst s) ! i) \<Longrightarrow>
    pin_run sl rnd sz0 k (pin_obj t i s) (L(i \<mapsto> t))"

lemma ta_call_reach:
  assumes "ta_call sl rnd s s'" "ta_reach sl rnd sz0 k False s"
  shows "ta_reach sl rnd sz0 k False s'"
  using assms by cases (auto intro: ta_reach.intros)

lemma pin_run_reach: "pin_run sl rnd sz0 k s L \<Longrightarrow> ta_reach sl rnd sz0 k False s"
  by (induction rule: pin_run.induct) (auto intro: ta_reach.intros ta_call_reach)

text \<open>Every pinned object is registered with the time of its last pin.\<close>

definition pins_known :: "ta_state \<Rightarrow> (nat \<rightharpoonup> pyfloat) \<Rightarrow> bool" where
  "pins_known s L \<longleftrightarrow> dict_wf (pm_pinned_objects (snd s)) \<and>
     (\<forall>i < length (ta_heap (fst s)). 0 < pin_of s i \<longrightarrow> L i \<noteq> None \<and> map_of (pm_pinned_objects (snd s)) i = L i)"

lemma unpin_known:
  assumes "rc_inv (ta_heap (fst s))" and "i < length (ta_heap (fst s))" and "pins_known s L"
  shows "pins_known (unpin_obj sl i s) L"
proof -
  have pins: "pin_of (unpin_obj sl i s) j = (if j = i then max 0 (pin_of s i - 1) else pin_of s j)" for j
    using rc_inv_nth [OF assms(1,2)] assms(2)
    by (cases s) (auto simp: pin_of_def unpin_obj_heap dropped_def nth_list_update)
  have "pm_pinned_objects (snd (unpin_obj sl i s)) = (if pin_of s i = 1 then dict_del i (pm_pinned_objects (snd s)) else pm_pinned_objects (snd s))"
    by (cases s) (auto simp: unpin_obj_def Let_def on_unpin_def pin_of_def)
  then show ?thesis using assms(3) by (auto simp: pins_known_def pins split: if_splits)
qed

lemma fold_force_known:
  assumes "rc_inv (ta_heap (fst s))" and "\<forall>i\<in>set is. i < length (ta_heap (fst s))" and "pins_known s L"
  shows "pins_known (fold (force_unpin sl) is s) L"
  using assms
proof (induction "is" arbitrary: s)
  case (Cons i "is")
  have "rc_inv (ta_heap (fst ((unpin_obj sl i ^^ n) s))) \<and> length (ta_heap (fst ((unpin_obj sl i ^^ n) s))) = length (ta_heap (fst s)) \<and>
      pins_known ((unpin_obj sl i ^^ n) s) L" for n
    using Cons.prems by (induction n) (auto simp: unpin_obj_rc unpin_known)
  then show ?case using Cons.IH [of "force_unpin sl i s"] Cons.prems by (simp add: force_unpin_def)
qed simp

text \<open>Objects that are new have no pins, and the other calls leave pins alone.\<close>

lemma pins_known_heap:
  assumes "pins_known (ta, pm) L"
    and "\<And>i. i < length (ta_heap ta') \<Longrightarrow> 0 < mo_pin_count (ta_heap ta' ! i) \<Longrightarrow>
      i < length (ta_heap ta) \<and> 0 < mo_pin_count (ta_heap ta ! i)"
  shows "pins_known (ta', pm) L"
  using assms by (auto simp: pins_known_def pin_of_def)

lemma pins_known_grow:
  assumes "pins_known (ta, pm) L" and "ta_heap ta' = ta_heap ta @ new" and "\<forall>obj\<in>set new. mo_pin_count obj = 0"
  shows "pins_known (ta', pm) L"
proof (rule pins_known_heap [OF assms(1)])
  fix i assume i: "i < length (ta_heap ta')" "0 < mo_pin_count (ta_heap ta' ! i)"
  show "i < length (ta_heap ta) \<and> 0 < mo_pin_count (ta_heap ta ! i)"
  proof (cases "i < length (ta_heap ta)")
    case False
    then have "ta_heap ta' ! i \<in> set new" using i(1) by (simp add: assms(2) nth_append)
    then show ?thesis using assms(3) i(2) by auto
  qed (use i(2) in \<open>simp add: assms(2) nth_append\<close>)
qed

lemma allocate_grows:
  "\<exists>new. ta_heap (fst (ta_allocate sl ta shapes dtypes fmt)) = ta_heap ta @ new \<and> (\<forall>obj\<in>set new. mo_pin_count obj = 0)"
  by (auto simp: ta_allocate_def Let_def new_mem_obj_def split: sum.splits prod.splits)

lemma batched_allocate_grows:
  "\<exists>new. ta_heap (fst (ta_batched_allocate sl ta shapes dtypes c fmt)) = ta_heap ta @ new \<and> (\<forall>obj\<in>set new. mo_pin_count obj = 0)"
  by (auto simp: ta_batched_allocate_def Let_def new_mem_obj_def split: sum.splits prod.splits)

lemma ta_call_known:
  assumes "ta_call sl rnd s s'" and "ta_reach sl rnd sz0 k False s" and "sorted_list_spec sl" and "pins_known s L"
  shows "pins_known s' L"
proof -
  have rc: "rc_inv (ta_heap (fst s))" and heap: "pins_in_heap s"
    using ta_reach_rc [OF assms(2,3)] ta_reach_inv [OF assms(2,3)] by simp_all
  show ?thesis using assms(1)
  proof cases
    case (allocate shapes dtypes raw ta pm fmt)
    then show ?thesis using allocate_grows [of sl ta shapes dtypes fmt] pins_known_grow assms(4) by blast
  next
    case (batched_allocate shapes dtypes raw ta pm c fmt)
    then show ?thesis using batched_allocate_grows [of sl ta shapes dtypes c fmt] pins_known_grow assms(4) by blast
  next
    case (ref_up i ta pm)
    have "pins_known (ta, pm) L" using assms(4) ref_up(1) by simp
    then show ?thesis unfolding ref_up(2)
      by (rule pins_known_heap) (use ref_up(3) in \<open>auto simp: ref_count_up_def upd_obj_def nth_list_update split: if_splits\<close>)
  next
    case (ref_down i ta pm)
    then have ok: "rc_ok (ta_heap ta ! i)" using rc_inv_nth [OF rc] by simp
    have "pins_known (ta, pm) L" using assms(4) ref_down(1) by simp
    then show ?thesis unfolding ref_down(2)
      by (rule pins_known_heap) (use ok ref_down(3) in \<open>auto simp: ref_count_down_heap dropped_def nth_list_update split: if_splits\<close>)
  next
    case (unpin i)
    then show ?thesis using unpin_known [OF rc _ assms(4)] by simp
  next
    case (timeouts t)
    have "\<forall>i\<in>set (timeout_objects rnd t s). i < length (ta_heap (fst s))"
      using heap timeout_objects_pinned [of rnd t s] unfolding pins_in_heap_def by blast
    then show ?thesis using fold_force_known [OF rc _ assms(4)] timeouts by (simp add: check_timeouts_def Let_def)
  qed
qed

lemma pin_run_known:
  assumes "pin_run sl rnd sz0 k s L" and "sorted_list_spec sl"
  shows "pins_known s L"
  using assms
proof (induction rule: pin_run.induct)
  case (init t0)
  then show ?case by (simp add: pins_known_def ta_init_def dict_wf_def)
next
  case (call s L s')
  then show ?case using ta_call_known pin_run_reach by blast
next
  case (pin s L i t)
  then show ?case
    by (cases s) (auto simp: pins_known_def pin_obj_def on_pin_def upd_obj_def pin_of_def nth_list_update)
qed

lemma timeout_objects_run:
  assumes "pins_known s L" and "pins_in_heap s"
  shows "i \<in> set (timeout_objects rnd t s) \<longleftrightarrow> i < length (ta_heap (fst s)) \<and> 0 < pin_of s i \<and>
    rnd (t - the (L i)) > pm_pin_timeout_sec (snd s)"
proof -
  have wf: "dict_wf (pm_pinned_objects (snd s))" using assms(1) by (simp add: pins_known_def)
  have "i < length (ta_heap (fst s))" if "(i, rt) \<in> pin_entries s" for rt
    using that assms(2) by (force simp: pins_in_heap_def pin_entries_def)
  then show ?thesis using assms(1) unfolding timeout_objects_mem pin_entries_def dict_wf_map_of_eq [OF wf, symmetric]
    by (auto simp: pins_known_def)
qed

lemma ta_inv_disjoint:
  assumes inv: "ta_inv sl ta"
    and "i < length (ta_heap ta)" and "j < length (ta_heap ta)" and "i \<noteq> j"
    and "mo_valid (ta_heap ta ! i)" and "mo_valid (ta_heap ta ! j)"
  defines "oi \<equiv> ta_heap ta ! i" and "oj \<equiv> ta_heap ta ! j"
  shows "(mo_address oi + mo_phy_size oi \<le> mo_address oj \<or> mo_address oj + mo_phy_size oj \<le> mo_address oi) \<and>
    0 \<le> mo_address oi \<and> mo_address oi + mo_phy_size oi \<le> get_heap_size (ta_am ta)"
proof -
  let ?h = "ta_heap ta"
  have led: "am_ledger sl (ta_am ta) (live_ranges ?h)" using inv by (simp add: ta_inv_def)
  have pos: "0 < mo_phy_size oi" "0 < mo_phy_size oj"
    using ta_inv_pos [OF inv nth_mem] assms(2-6) by (auto simp: oi_def oj_def)
  have no: False if xy: "a < b" "b < length ?h" "mo_valid (?h ! a)" "mo_valid (?h ! b)"
      "mo_address (?h ! a) \<le> x" "x < mo_address (?h ! a) + mo_phy_size (?h ! a)"
      "mo_address (?h ! b) \<le> x" "x < mo_address (?h ! b) + mo_phy_size (?h ! b)" for a b x
  proof -
    obtain a' b' where ab: "a' < b'" "b' < length (live_ranges ?h)"
        "live_ranges ?h ! a' = obj_range (?h ! a)" "live_ranges ?h ! b' = obj_range (?h ! b)"
      using live_ranges_two [OF xy(1-4)] by blast
    show False
      by (rule am_ledger_disjoint [OF led ab(1,2), of x]) (use ab xy in \<open>auto simp: obj_range_def\<close>)
  qed
  have "mo_address oi + mo_phy_size oi \<le> mo_address oj \<or> mo_address oj + mo_phy_size oj \<le> mo_address oi"
  proof (rule ccontr)
    assume "\<not> ?thesis"
    with no [of i j "max (mo_address oi) (mo_address oj)"] no [of j i "max (mo_address oi) (mo_address oj)"]
      assms(2-6) pos show False by (cases "i < j") (auto simp: oi_def oj_def)
  qed
  moreover have "0 \<le> mo_address oi \<and> mo_address oi + mo_phy_size oi \<le> am_size (ta_am ta)"
    using am_ledger_within [OF led live_range_mem [OF assms(2,5), unfolded obj_range_def]] by (simp add: oi_def)
  ultimately show ?thesis by (simp add: get_heap_size_def)
qed

lemma ta_inv_memcheck: "ta_inv sl ta \<Longrightarrow> ta_memcheck ta"
  using blocks_wf_no_merge
  by (auto simp: ta_inv_def am_ledger_def ta_memcheck_def check_consistency_def get_free_size_def get_heap_size_def am_inv_def)

lemma ta_inv_total:
  "ta_inv sl ta \<Longrightarrow> am_total (ta_am ta) = sum_list (map mo_phy_size (filter mo_valid (ta_heap ta)))"
  by (simp add: ta_inv_def am_ledger_def live_ranges_def obj_range_def comp_def)

section \<open>Properties\<close>

text \<open>A concrete run, for the witnesses: two objects of 4000 bytes.\<close>

definition demo_ta :: tensor_allocator where
  "demo_ta =
     fst (ta_allocate list_sl (fst (ta_allocate list_sl (ta_init list_sl 16384 (2 ^ 12) None)
       [[2, 1000]] [Dtype 2] KV_2LTD)) [[2, 1000]] [Dtype 2] KV_2LTD)"

definition demo_pm :: pin_monitor where
  "demo_pm = \<lparr>pm_pinned_objects = [], pm_pin_timeout_sec = 300\<rparr>"

lemma demo_ta_reach: "ta_reach list_sl (\<lambda>x. x) 16384 12 direct (demo_ta, demo_pm)"
  unfolding demo_ta_def demo_pm_def
  by (intro ta_reach.allocate [where raw = 4000] ta_reach.init) (simp_all add: get_size_bytes_def numel_def)

lemmas ta_eval = am_eval ta_init_def ta_allocate_def get_size_bytes_def numel_def new_mem_obj_def

lemma demo_ta_heap:
  "ta_heap demo_ta = [new_mem_obj 0 4096 KV_2LTD [[2, 1000]] [Dtype 2] (0, 4000),
     new_mem_obj 4096 4096 KV_2LTD [[2, 1000]] [Dtype 2] (4096, 4000)]"
  by (simp add: demo_ta_def ta_eval)

text \<open>
  C27. Two objects of a \<open>TensorMemoryAllocator\<close> that are valid at the same time never share a
  byte of the buffer, and every valid object lies inside the heap. This holds in every run,
  with clients that free twice or pass duplicates to \<open>batched_free\<close> included.
\<close>

theorem ta_objects_disjoint:
  assumes "ta_reach sl rnd sz0 k direct (ta, pm)" and "sorted_list_spec sl"
    and "i < length (ta_heap ta)" and "j < length (ta_heap ta)" and "i \<noteq> j"
    and "mo_valid (ta_heap ta ! i)" and "mo_valid (ta_heap ta ! j)"
  defines "oi \<equiv> ta_heap ta ! i" and "oj \<equiv> ta_heap ta ! j"
  shows "(mo_address oi + mo_phy_size oi \<le> mo_address oj \<or> mo_address oj + mo_phy_size oj \<le> mo_address oi) \<and>
    0 \<le> mo_address oi \<and> mo_address oi + mo_phy_size oi \<le> get_heap_size (ta_am ta)"
  unfolding oi_def oj_def using ta_reach_inv [OF assms(1,2)] assms(3-7) by (intro ta_inv_disjoint) auto

theorem ta_objects_disjoint_witness:
  "mo_address (ta_heap demo_ta ! 0) + 4096 \<le> mo_address (ta_heap demo_ta ! 1) \<or>
   mo_address (ta_heap demo_ta ! 1) + 4096 \<le> mo_address (ta_heap demo_ta ! 0)"
  using ta_objects_disjoint [OF demo_ta_reach [of True] list_sl_spec, of 0 1]
  by (simp add: demo_ta_heap new_mem_obj_def)

text \<open>
  \<open>memcheck\<close> returns \<open>True\<close> in every run, \<open>num_active_allocations\<close> is the number of
  valid objects, and \<open>total_allocated_size\<close> is the sum of their sizes.
\<close>

theorem ta_memcheck_always:
  assumes "ta_reach sl rnd sz0 k direct (ta, pm)" and "sorted_list_spec sl"
  shows "ta_memcheck ta \<and>
    ta_num_active ta = int (length (filter mo_valid (ta_heap ta))) \<and>
    am_total (ta_am ta) = sum_list (map mo_phy_size (filter mo_valid (ta_heap ta)))"
proof -
  have inv: "ta_inv sl ta" using ta_reach_inv [OF assms] by simp
  then show ?thesis using ta_inv_memcheck ta_inv_total by (auto simp: ta_inv_def live_ranges_def)
qed

text \<open>
  C9. Under the reference protocol an object is valid exactly while it is referenced or
  pinned: memory is returned at the moment the last reference or pin goes (no leak), and never
  before (no use after free); counts are never negative.
\<close>

theorem ta_valid_iff_referenced:
  assumes "ta_reach sl rnd sz0 k False (ta, pm)" and "sorted_list_spec sl" and "obj \<in> set (ta_heap ta)"
  shows "0 \<le> mo_ref_count obj \<and> 0 \<le> mo_pin_count obj \<and>
    (mo_valid obj \<longleftrightarrow> 0 < mo_ref_count obj \<or> 0 < mo_pin_count obj)"
  using ta_reach_rc [OF assms(1,2)] assms(3) by (simp add: rc_inv_def rc_ok_def)

theorem ta_valid_iff_referenced_witness:
  "\<not> mo_valid (ta_heap (ref_count_down list_sl 0 demo_ta) ! 0)"
  using ta_valid_iff_referenced [OF ta_reach.ref_down [OF demo_ta_reach, of 0] list_sl_spec,
      of "ta_heap (ref_count_down list_sl 0 demo_ta) ! 0"]
  by (simp add: demo_ta_heap ref_count_down_heap rc_ok_def new_mem_obj_def dropped_def)

text \<open>
  C39. The pin monitor releases exactly the pins that timed out. In every run under the reference
  protocol an object that is pinned was pinned, at the time \<open>L i\<close> of the last call of \<open>pin\<close> on it,
  and after a pass of the monitor at time \<open>t\<close> its pin count is zero when more than the timeout has
  passed since then, whatever the count was, and is what it was when not; objects that are not
  pinned stay so.
\<close>

theorem pin_monitor_clears_timeouts:
  fixes t :: pyfloat
  assumes "pin_run sl rnd sz0 k (ta, pm) L" and "sorted_list_spec sl" and "i < length (ta_heap ta)"
  defines "ta' \<equiv> fst (fst (check_timeouts sl rnd t (ta, pm)))"
  shows "(0 < mo_pin_count (ta_heap ta ! i) \<longrightarrow> L i \<noteq> None) \<and>
    mo_pin_count (ta_heap ta' ! i) =
      (if 0 < mo_pin_count (ta_heap ta ! i) \<and> rnd (t - the (L i)) > pm_pin_timeout_sec pm then 0
       else mo_pin_count (ta_heap ta ! i))"
proof -
  let ?s = "(ta, pm)"
  have r: "ta_reach sl rnd sz0 k False ?s" by (rule pin_run_reach [OF assms(1)])
  have rc: "rc_inv (ta_heap (fst ?s))" and heap: "pins_in_heap ?s"
    using ta_reach_rc [OF r assms(2)] ta_reach_inv [OF r assms(2)] by simp_all
  have known: "pins_known ?s L" by (rule pin_run_known [OF assms(1,2)])
  note out = timeout_objects_run [OF known heap, of _ rnd t]
  have "pin_of (fold (force_unpin sl) (timeout_objects rnd t ?s) ?s) i =
      (if i \<in> set (timeout_objects rnd t ?s) then 0 else pin_of ?s i)"
    using out by (intro fold_force_unpin_pin [OF rc]) auto
  then show ?thesis using known assms(3) out
    by (auto simp: ta'_def check_timeouts_def Let_def pin_of_def pins_known_def)
qed

definition demo_pinned :: ta_state where
  "demo_pinned = pin_obj 200 0 (pin_obj 1 1 (pin_obj 0 1 (demo_ta, demo_pm)))"

lemma demo_pin_run: "pin_run list_sl (\<lambda>x. x) 16384 12 demo_pinned [1 \<mapsto> 1, 0 \<mapsto> 200]"
proof -
  have "pin_run list_sl (\<lambda>x. x) 16384 12 (demo_ta, demo_pm) Map.empty"
    unfolding demo_ta_def demo_pm_def
    by (intro pin_run.call [OF _ ta_call.allocate [where raw = 4000]] pin_run.init) (simp_all add: get_size_bytes_def numel_def)
  from pin_run.pin [OF pin_run.pin [OF pin_run.pin [OF this, of 1 0], of 1 1], of 0 200] show ?thesis
    by (simp add: demo_pinned_def demo_ta_heap pin_obj_def upd_obj_def new_mem_obj_def)
qed

text \<open>At 302 the object 1, pinned twice and last at 1, loses both pins; the object 0, pinned at 200, keeps its own.\<close>

theorem pin_monitor_clears_timeouts_witness:
  "map mo_pin_count (ta_heap (fst demo_pinned)) = [1, 2] \<and>
   (let ta' = fst (fst (check_timeouts list_sl (\<lambda>x. x) 302 demo_pinned))
    in mo_pin_count (ta_heap ta' ! 0) = 1 \<and> mo_pin_count (ta_heap ta' ! 1) = 0)"
proof -
  have r: "pin_run list_sl (\<lambda>x. x) 16384 12 (fst demo_pinned, snd demo_pinned) [1 \<mapsto> 1, 0 \<mapsto> 200]" using demo_pin_run by simp
  have c: "map mo_pin_count (ta_heap (fst demo_pinned)) = [1, 2]" "pm_pin_timeout_sec (snd demo_pinned) = 300"
    by (simp_all add: demo_pinned_def demo_ta_heap pin_obj_def upd_obj_def new_mem_obj_def on_pin_def demo_pm_def)
  then have p: "length (ta_heap (fst demo_pinned)) = 2" "mo_pin_count (ta_heap (fst demo_pinned) ! 0) = 1"
      "mo_pin_count (ta_heap (fst demo_pinned) ! 1) = 2"
    by (auto simp: map_eq_Cons_conv)
  note t = pin_monitor_clears_timeouts [OF r list_sl_spec, where t = 302]
  show ?thesis using t [of 0] t [of 1] c p by (simp add: Let_def)
qed

end
