(* ===== verification/L1_Manager.thy ===== *)
theory L1_Manager
  imports Tensor_Allocator
begin

text \<open>
  \<^verbatim>\<open>lmcache/v1/distributed/l1_manager.py\<close>: \<open>L1Manager\<close>, with its lock
  (\<^verbatim>\<open>csrc/lmcache_native/ttl_lock.cpp\<close>), its error codes
  (\<^verbatim>\<open>lmcache/v1/distributed/error.py\<close>), its memory manager on the CPU tier
  (\<^verbatim>\<open>lmcache/v1/distributed/memory_manager/l1_memory_manager.py\<close>, which calls the
  \<open>TensorMemoryAllocator\<close> through \<open>MixedMemoryAllocator\<close> with format \<open>KV_2LTD\<close>) and its
  listener interface (\<^verbatim>\<open>lmcache/v1/distributed/internal_api.py\<close>).

  Every operation holds the manager's lock, so it is one atomic step of the state. The steady
  clock is an argument: an operation runs at the time \<open>now\<close>, in milliseconds. A listener is the
  sequence of the calls it has received; the event bus is the sequence of the published events.
  A key is an element of an arbitrary type, because the manager only uses it as a dictionary key.
  The GDS and Device-DAX tiers and the gauges are not modelled.
\<close>

section \<open>The lock with a time to live\<close>

record ttl_lock =
  tl_counter :: int
  tl_expiration_ms :: int
  tl_ttl_ms :: int

definition ttl_lock_new :: "int \<Rightarrow> ttl_lock" where
  "ttl_lock_new ttl_sec = \<lparr>tl_counter = 0, tl_expiration_ms = 0, tl_ttl_ms = ttl_sec * 1000\<rparr>"

definition lock :: "int \<Rightarrow> ttl_lock \<Rightarrow> ttl_lock" where
  "lock now l =
     (if now \<ge> tl_expiration_ms l
      then l\<lparr>tl_expiration_ms := now + tl_ttl_ms l, tl_counter := 1\<rparr>
      else l\<lparr>tl_counter := tl_counter l + 1, tl_expiration_ms := now + tl_ttl_ms l\<rparr>)"

definition unlock :: "ttl_lock \<Rightarrow> ttl_lock" where
  "unlock l = (if tl_counter l \<le> 0 then l else l\<lparr>tl_counter := tl_counter l - 1\<rparr>)"

definition is_locked :: "int \<Rightarrow> ttl_lock \<Rightarrow> bool" where
  "is_locked now l \<longleftrightarrow> tl_counter l > 0 \<and> now < tl_expiration_ms l"

definition reset_lock :: "ttl_lock \<Rightarrow> ttl_lock" where
  "reset_lock l = l\<lparr>tl_counter := 0, tl_expiration_ms := 0\<rparr>"

section \<open>State\<close>

datatype l1_error =
    SUCCESS
  | KEY_NOT_EXIST
  | KEY_NOT_READABLE
  | KEY_NOT_WRITABLE
  | KEY_IN_WRONG_STATE
  | KEY_IS_LOCKED
  | OUT_OF_MEMORY

datatype l1_backend_type = DRAM | DEVDAX | GDS

datatype write_mode = Mode_New | Mode_Update | Mode_All

record l1_object_meta =
  om_size_bytes :: int
  om_backend :: l1_backend_type

record l1_object_state =
  os_memory_obj :: nat
  os_write_lock :: ttl_lock
  os_read_lock :: ttl_lock
  os_is_temporary :: bool

datatype 'k l1_note =
    Keys_Reserved_Read "'k list"
  | Keys_Read_Finished "'k list"
  | Keys_Reserved_Write "'k list"
  | Keys_Write_Finished "'k list"
  | Keys_Finish_Write_And_Reserve_Read "'k list"
  | Keys_Deleted_By_Manager "'k list"
  | Keys_Accessed "'k list"

datatype 'k l1_event =
    L1_READ_RESERVED "'k list"
  | L1_READ_FINISHED "'k list"
  | L1_WRITE_RESERVED "'k list"
  | L1_WRITE_FINISHED "'k list" "l1_object_meta list"
  | L1_WRITE_FINISHED_AND_READ_RESERVED "'k list" "l1_object_meta list"
  | L1_KEYS_EVICTED "'k list" "l1_object_meta list"
  | L1_KEYS_ACCESSED "'k list"

type_synonym 'k l1_objects = "('k, l1_object_state) pydict"
type_synonym op_result = "l1_error \<times> nat option"

record 'k l1_manager =
  l1_objects :: "'k l1_objects"
  l1_memory :: tensor_allocator
  l1_write_ttl_seconds :: int
  l1_read_ttl_seconds :: int
  l1_configured_capacity :: int
  l1_listeners :: "'k l1_note list list"
  l1_events :: "'k l1_event list"
  l1_accessed_subscribed :: bool

definition available_for_read :: "int \<Rightarrow> l1_object_state \<Rightarrow> bool" where
  "available_for_read now e \<longleftrightarrow> \<not> is_locked now (os_write_lock e)"

definition available_for_write :: "int \<Rightarrow> l1_object_state \<Rightarrow> bool" where
  "available_for_write now e \<longleftrightarrow>
     \<not> is_locked now (os_write_lock e) \<and> \<not> is_locked now (os_read_lock e) \<and> \<not> os_is_temporary e"

definition MAX_READ_LOCK_COUNT :: int where
  "MAX_READ_LOCK_COUNT = 128"

definition validate_read_locks :: "int \<Rightarrow> int" where
  "validate_read_locks read_locks =
     (if read_locks < 1 then 1
      else if read_locks > MAX_READ_LOCK_COUNT then MAX_READ_LOCK_COUNT
      else read_locks)"

section \<open>The memory manager\<close>

definition mm_allocate ::
  "sorted_list_ops \<Rightarrow> tensor_allocator \<Rightarrow> memory_layout \<Rightarrow> int
     \<Rightarrow> tensor_allocator \<times> (l1_error \<times> nat list) result" where
  "mm_allocate sl ta layout_desc cnt =
     (case ta_batched_allocate sl ta (ml_shapes layout_desc) (ml_dtypes layout_desc) cnt KV_2LTD of
        (ta', Inl e) \<Rightarrow> (ta', Inl e)
      | (ta', Inr None) \<Rightarrow> (ta', Inr (OUT_OF_MEMORY, []))
      | (ta', Inr (Some objs)) \<Rightarrow> (ta', Inr (SUCCESS, objs)))"

definition mm_free :: "sorted_list_ops \<Rightarrow> nat list \<Rightarrow> tensor_allocator \<Rightarrow> tensor_allocator \<times> l1_error" where
  "mm_free sl mem_objs ta = (ta_batched_free sl ta mem_objs, SUCCESS)"

definition mm_get_memory_usage :: "tensor_allocator \<Rightarrow> int \<times> int" where
  "mm_get_memory_usage ta =
     (let free_size = get_free_size (ta_am ta); total_size = get_heap_size (ta_am ta)
      in (total_size - free_size, total_size))"

definition get_backend_type :: "nat \<Rightarrow> l1_backend_type" where
  "get_backend_type memory_obj = DRAM"

definition object_meta :: "tensor_allocator \<Rightarrow> nat \<Rightarrow> l1_object_meta" where
  "object_meta ta memory_obj =
     \<lparr>om_size_bytes = get_size (ta_heap ta ! memory_obj), om_backend = get_backend_type memory_obj\<rparr>"

section \<open>Operations\<close>

definition l1_init :: "sorted_list_ops \<Rightarrow> int \<Rightarrow> int \<Rightarrow> int \<Rightarrow> int \<Rightarrow> 'k l1_manager" where
  "l1_init sl size_in_bytes align_bytes write_ttl read_ttl =
     \<lparr>l1_objects = [], l1_memory = ta_init sl size_in_bytes align_bytes None,
      l1_write_ttl_seconds = write_ttl, l1_read_ttl_seconds = read_ttl,
      l1_configured_capacity = (if size_in_bytes > 0 then size_in_bytes else 0),
      l1_listeners = [], l1_events = [], l1_accessed_subscribed = False\<rparr>"

definition notify :: "'k l1_note list \<Rightarrow> 'k l1_manager \<Rightarrow> 'k l1_manager" where
  "notify ns s = s\<lparr>l1_listeners := map (\<lambda>inbox. inbox @ ns) (l1_listeners s)\<rparr>"

definition publish :: "'k l1_event \<Rightarrow> 'k l1_manager \<Rightarrow> 'k l1_manager" where
  "publish ev s = s\<lparr>l1_events := l1_events s @ [ev]\<rparr>"

definition register_listener :: "'k l1_manager \<Rightarrow> 'k l1_manager" where
  "register_listener s = s\<lparr>l1_listeners := l1_listeners s @ [[]]\<rparr>"

subsection \<open>Reading\<close>

fun reserve_read_step ::
  "int \<Rightarrow> nat \<Rightarrow> 'k l1_objects \<times> ('k, op_result) pydict \<times> 'k list \<Rightarrow> 'k
     \<Rightarrow> 'k l1_objects \<times> ('k, op_result) pydict \<times> 'k list" where
  "reserve_read_step now tot (objs, ret, ok) key =
     (case dict_get objs key of
        None \<Rightarrow> (objs, dict_set key (KEY_NOT_EXIST, None) ret, ok)
      | Some e \<Rightarrow>
          if \<not> available_for_read now e then (objs, dict_set key (KEY_NOT_READABLE, None) ret, ok)
          else (dict_set key (e\<lparr>os_read_lock := (lock now ^^ tot) (os_read_lock e)\<rparr>) objs,
                dict_set key (SUCCESS, Some (os_memory_obj e)) ret, ok @ [key]))"

definition reserve_read ::
  "int \<Rightarrow> 'k list \<Rightarrow> int \<Rightarrow> 'k l1_manager \<Rightarrow> 'k l1_manager \<times> ('k, op_result) pydict" where
  "reserve_read now keys read_locks s =
     (let tot = nat (validate_read_locks read_locks);
          (objs, ret, successful_keys) = foldl (reserve_read_step now tot) (l1_objects s, [], []) keys
      in (publish (L1_READ_RESERVED successful_keys)
            (notify [Keys_Reserved_Read successful_keys] (s\<lparr>l1_objects := objs\<rparr>)), ret))"

fun unsafe_read_step ::
  "int \<Rightarrow> 'k l1_objects \<Rightarrow> ('k, op_result) pydict \<Rightarrow> 'k \<Rightarrow> ('k, op_result) pydict" where
  "unsafe_read_step now objs ret key =
     (case dict_get objs key of
        None \<Rightarrow> dict_set key (KEY_NOT_EXIST, None) ret
      | Some e \<Rightarrow>
          if \<not> is_locked now (os_read_lock e) then dict_set key (KEY_NOT_READABLE, None) ret
          else dict_set key (SUCCESS, Some (os_memory_obj e)) ret)"

definition unsafe_read :: "int \<Rightarrow> 'k list \<Rightarrow> 'k l1_manager \<Rightarrow> ('k, op_result) pydict" where
  "unsafe_read now keys s = foldl (unsafe_read_step now (l1_objects s)) [] keys"

text \<open>The loop state of \<open>finish_read\<close>: objects, results, successes, objects to free and their keys.\<close>

record 'k finish_read_acc =
  fr_objs :: "'k l1_objects"
  fr_ret :: "('k, l1_error) pydict"
  fr_ok :: "'k list"
  fr_free :: "nat list"
  fr_free_keys :: "'k list"

definition finish_read_step :: "int \<Rightarrow> nat \<Rightarrow> 'k finish_read_acc \<Rightarrow> 'k \<Rightarrow> 'k finish_read_acc" where
  "finish_read_step now tot a key =
     (case dict_get (fr_objs a) key of
        None \<Rightarrow> a\<lparr>fr_ret := dict_set key KEY_NOT_EXIST (fr_ret a)\<rparr>
      | Some e \<Rightarrow>
          if is_locked now (os_write_lock e) then a\<lparr>fr_ret := dict_set key KEY_IN_WRONG_STATE (fr_ret a)\<rparr>
          else if \<not> is_locked now (os_read_lock e) then a\<lparr>fr_ret := dict_set key KEY_IN_WRONG_STATE (fr_ret a)\<rparr>
          else
            let rl = (unlock ^^ tot) (os_read_lock e);
                a' = (if os_is_temporary e \<and> \<not> is_locked now rl
                      then a\<lparr>fr_free := fr_free a @ [os_memory_obj e],
                             fr_free_keys := fr_free_keys a @ [key],
                             fr_objs := dict_del key (fr_objs a)\<rparr>
                      else a\<lparr>fr_objs := dict_set key (e\<lparr>os_read_lock := rl\<rparr>) (fr_objs a)\<rparr>)
            in a'\<lparr>fr_ret := dict_set key SUCCESS (fr_ret a'), fr_ok := fr_ok a' @ [key]\<rparr>)"

definition finish_read ::
  "sorted_list_ops \<Rightarrow> int \<Rightarrow> 'k list \<Rightarrow> int \<Rightarrow> 'k l1_manager \<Rightarrow> 'k l1_manager \<times> ('k, l1_error) pydict" where
  "finish_read sl now keys read_locks s =
     (let tot = nat (validate_read_locks read_locks);
          a = foldl (finish_read_step now tot)
                \<lparr>fr_objs = l1_objects s, fr_ret = [], fr_ok = [], fr_free = [], fr_free_keys = []\<rparr> keys;
          freed_meta = map (object_meta (l1_memory s)) (fr_free a);
          s' = s\<lparr>l1_objects := fr_objs a, l1_memory := fst (mm_free sl (fr_free a) (l1_memory s))\<rparr>
      in (publish (L1_KEYS_EVICTED (fr_free_keys a) freed_meta)
            (publish (L1_READ_FINISHED (fr_ok a))
              (notify [Keys_Read_Finished (fr_ok a), Keys_Deleted_By_Manager (fr_free_keys a)] s')),
          fr_ret a))"

subsection \<open>Writing\<close>

record 'k reserve_write_acc =
  rw_objs :: "'k l1_objects"
  rw_need :: "('k \<times> bool) list"
  rw_ret :: "('k, op_result) pydict"
  rw_ok :: "'k list"

definition reserve_write_step :: "int \<Rightarrow> write_mode \<Rightarrow> 'k reserve_write_acc \<Rightarrow> 'k \<times> bool \<Rightarrow> 'k reserve_write_acc" where
  "reserve_write_step now mode a kt = (case kt of (key, is_temp) \<Rightarrow>
     (case dict_get (rw_objs a) key of
        None \<Rightarrow> a\<lparr>rw_need := rw_need a @ [(key, is_temp)]\<rparr>
      | Some e \<Rightarrow>
          if mode = Mode_New then a\<lparr>rw_ret := dict_set key (KEY_NOT_WRITABLE, None) (rw_ret a)\<rparr>
          else if \<not> available_for_write now e
          then a\<lparr>rw_ret := dict_set key (KEY_NOT_WRITABLE, None) (rw_ret a)\<rparr>
          else a\<lparr>rw_objs := dict_set key (e\<lparr>os_write_lock := lock now (os_write_lock e)\<rparr>) (rw_objs a),
                 rw_ret := dict_set key (SUCCESS, Some (os_memory_obj e)) (rw_ret a),
                 rw_ok := rw_ok a @ [key]\<rparr>))"

definition new_object_state :: "int \<Rightarrow> int \<Rightarrow> int \<Rightarrow> nat \<Rightarrow> bool \<Rightarrow> l1_object_state" where
  "new_object_state now write_ttl read_ttl mem_obj is_temp =
     \<lparr>os_memory_obj = mem_obj, os_write_lock = lock now (ttl_lock_new write_ttl),
      os_read_lock = ttl_lock_new read_ttl, os_is_temporary = is_temp\<rparr>"

definition reserve_write_new ::
  "int \<Rightarrow> int \<Rightarrow> int \<Rightarrow> 'k reserve_write_acc \<Rightarrow> ('k \<times> bool) \<times> nat \<Rightarrow> 'k reserve_write_acc" where
  "reserve_write_new now write_ttl read_ttl a p = (case p of ((key, is_temp), mem_obj) \<Rightarrow>
     a\<lparr>rw_objs := dict_set key (new_object_state now write_ttl read_ttl mem_obj is_temp) (rw_objs a),
       rw_ret := dict_set key (SUCCESS, Some mem_obj) (rw_ret a),
       rw_ok := rw_ok a @ [key]\<rparr>)"

definition fail_all :: "l1_error \<Rightarrow> ('k \<times> bool) list \<Rightarrow> ('k, op_result) pydict \<Rightarrow> ('k, op_result) pydict" where
  "fail_all err need ret = foldl (\<lambda>r (key, _). dict_set key (err, None) r) ret need"

text \<open>
  The two early returns skip the notification of the listeners, as in the code. An exception
  of the allocator leaves the write locks of the existing keys taken.
\<close>

definition reserve_write ::
  "sorted_list_ops \<Rightarrow> int \<Rightarrow> 'k list \<Rightarrow> bool list \<Rightarrow> memory_layout \<Rightarrow> write_mode \<Rightarrow> 'k l1_manager
     \<Rightarrow> 'k l1_manager \<times> ('k, op_result) pydict result" where
  "reserve_write sl now keys is_temporary layout_desc mode s =
     (let a = foldl (reserve_write_step now mode)
                \<lparr>rw_objs = l1_objects s, rw_need = [], rw_ret = [], rw_ok = []\<rparr> (zip keys is_temporary);
          s1 = s\<lparr>l1_objects := rw_objs a\<rparr>
      in if rw_need a = [] then (s1, Inr (rw_ret a))
         else if mode = Mode_Update then (s1, Inr (fail_all KEY_NOT_WRITABLE (rw_need a) (rw_ret a)))
         else case mm_allocate sl (l1_memory s1) layout_desc (int (length (rw_need a))) of
           (ta, Inl e) \<Rightarrow> (s1\<lparr>l1_memory := ta\<rparr>, Inl e)
         | (ta, Inr (err, objs)) \<Rightarrow>
             let (ta', a') =
                   (if err \<noteq> SUCCESS
                    then (if objs \<noteq> [] then fst (mm_free sl objs ta) else ta,
                          a\<lparr>rw_ret := fail_all OUT_OF_MEMORY (rw_need a) (rw_ret a)\<rparr>)
                    else (ta, foldl (reserve_write_new now (l1_write_ttl_seconds s) (l1_read_ttl_seconds s))
                                a (zip (rw_need a) objs)));
                 s2 = s1\<lparr>l1_objects := rw_objs a', l1_memory := ta'\<rparr>
             in (publish (L1_WRITE_RESERVED (rw_ok a')) (notify [Keys_Reserved_Write (rw_ok a')] s2),
                 Inr (rw_ret a')))"

fun finish_write_step ::
  "int \<Rightarrow> 'k l1_objects \<times> ('k, l1_error) pydict \<times> 'k list \<times> nat list \<Rightarrow> 'k
     \<Rightarrow> 'k l1_objects \<times> ('k, l1_error) pydict \<times> 'k list \<times> nat list" where
  "finish_write_step now (objs, ret, ok, oks) key =
     (case dict_get objs key of
        None \<Rightarrow> (objs, dict_set key KEY_NOT_EXIST ret, ok, oks)
      | Some e \<Rightarrow>
          if \<not> is_locked now (os_write_lock e) then (objs, dict_set key KEY_IN_WRONG_STATE ret, ok, oks)
          else if is_locked now (os_read_lock e) then (objs, dict_set key KEY_IN_WRONG_STATE ret, ok, oks)
          else (dict_set key (e\<lparr>os_write_lock := unlock (os_write_lock e)\<rparr>) objs,
                dict_set key SUCCESS ret, ok @ [key], oks @ [os_memory_obj e]))"

definition finish_write :: "int \<Rightarrow> 'k list \<Rightarrow> 'k l1_manager \<Rightarrow> 'k l1_manager \<times> ('k, l1_error) pydict" where
  "finish_write now keys s =
     (let (objs, ret, ok, oks) = foldl (finish_write_step now) (l1_objects s, [], [], []) keys
      in (publish (L1_WRITE_FINISHED ok (map (object_meta (l1_memory s)) oks))
            (notify [Keys_Write_Finished ok] (s\<lparr>l1_objects := objs\<rparr>)), ret))"

fun finish_write_and_reserve_read_step ::
  "int \<Rightarrow> nat \<Rightarrow> 'k l1_objects \<times> ('k, op_result) pydict \<times> 'k list \<times> nat list \<Rightarrow> 'k
     \<Rightarrow> 'k l1_objects \<times> ('k, op_result) pydict \<times> 'k list \<times> nat list" where
  "finish_write_and_reserve_read_step now tot (objs, ret, ok, oks) key =
     (case dict_get objs key of
        None \<Rightarrow> (objs, dict_set key (KEY_NOT_EXIST, None) ret, ok, oks)
      | Some e \<Rightarrow>
          if \<not> is_locked now (os_write_lock e) then (objs, dict_set key (KEY_IN_WRONG_STATE, None) ret, ok, oks)
          else if is_locked now (os_read_lock e) then (objs, dict_set key (KEY_IN_WRONG_STATE, None) ret, ok, oks)
          else (dict_set key (e\<lparr>os_write_lock := unlock (os_write_lock e),
                                 os_read_lock := (lock now ^^ tot) (os_read_lock e)\<rparr>) objs,
                dict_set key (SUCCESS, Some (os_memory_obj e)) ret, ok @ [key], oks @ [os_memory_obj e]))"

definition finish_write_and_reserve_read ::
  "int \<Rightarrow> 'k list \<Rightarrow> int \<Rightarrow> 'k l1_manager \<Rightarrow> 'k l1_manager \<times> ('k, op_result) pydict" where
  "finish_write_and_reserve_read now keys read_locks s =
     (let tot = nat (validate_read_locks read_locks);
          (objs, ret, ok, oks) =
            foldl (finish_write_and_reserve_read_step now tot) (l1_objects s, [], [], []) keys
      in (publish (L1_WRITE_FINISHED_AND_READ_RESERVED ok (map (object_meta (l1_memory s)) oks))
            (notify [Keys_Finish_Write_And_Reserve_Read ok] (s\<lparr>l1_objects := objs\<rparr>)), ret))"

subsection \<open>Deleting\<close>

fun delete_step ::
  "int \<Rightarrow> bool \<Rightarrow> 'k l1_objects \<times> ('k, l1_error) pydict \<times> 'k list \<times> nat list \<Rightarrow> 'k
     \<Rightarrow> 'k l1_objects \<times> ('k, l1_error) pydict \<times> 'k list \<times> nat list" where
  "delete_step now force (objs, ret, ok, need_to_free) key =
     (case dict_get objs key of
        None \<Rightarrow> (objs, dict_set key KEY_NOT_EXIST ret, ok, need_to_free)
      | Some e \<Rightarrow>
          let locked = is_locked now (os_read_lock e) \<or> is_locked now (os_write_lock e)
          in if locked \<and> \<not> force then (objs, dict_set key KEY_IS_LOCKED ret, ok, need_to_free)
             else (dict_del key objs, dict_set key SUCCESS ret, ok @ [key], need_to_free @ [os_memory_obj e]))"

definition delete_keys ::
  "sorted_list_ops \<Rightarrow> int \<Rightarrow> 'k list \<Rightarrow> bool \<Rightarrow> 'k l1_manager \<Rightarrow> 'k l1_manager \<times> ('k, l1_error) pydict" where
  "delete_keys sl now keys force s =
     (let (objs, ret, ok, need_to_free) = foldl (delete_step now force) (l1_objects s, [], [], []) keys;
          freed_meta = map (object_meta (l1_memory s)) need_to_free
      in (publish (L1_KEYS_EVICTED ok freed_meta)
            (notify [Keys_Deleted_By_Manager ok]
              (s\<lparr>l1_objects := objs, l1_memory := fst (mm_free sl need_to_free (l1_memory s))\<rparr>)), ret))"

definition touch_keys :: "'k list \<Rightarrow> 'k l1_manager \<Rightarrow> 'k l1_manager" where
  "touch_keys keys s =
     (let s' = notify [Keys_Accessed keys] s
      in if l1_accessed_subscribed s then publish (L1_KEYS_ACCESSED keys) s' else s')"

definition entry_locked :: "int \<Rightarrow> l1_object_state \<Rightarrow> bool" where
  "entry_locked now e \<longleftrightarrow> is_locked now (os_write_lock e) \<or> is_locked now (os_read_lock e)"

definition clear_keys :: "sorted_list_ops \<Rightarrow> int \<Rightarrow> bool \<Rightarrow> 'k l1_manager \<Rightarrow> 'k l1_manager" where
  "clear_keys sl now force s =
     (if force then
        let all_keys = dict_keys (l1_objects s);
            all_memory_objs = map os_memory_obj (dict_values (l1_objects s));
            all_meta = map (object_meta (l1_memory s)) all_memory_objs
        in publish (L1_KEYS_EVICTED all_keys all_meta)
             (notify [Keys_Deleted_By_Manager all_keys]
               (s\<lparr>l1_memory := fst (mm_free sl all_memory_objs (l1_memory s)), l1_objects := []\<rparr>))
      else
        let unlocked = filter (\<lambda>(key, e). \<not> entry_locked now e) (l1_objects s);
            keys_to_clear = map fst unlocked;
            objs_to_free = map (os_memory_obj \<circ> snd) unlocked;
            cleared_meta = map (object_meta (l1_memory s)) objs_to_free;
            s' = s\<lparr>l1_objects := foldl (\<lambda>d key. dict_del key d) (l1_objects s) keys_to_clear,
                   l1_memory := fst (mm_free sl objs_to_free (l1_memory s))\<rparr>
        in if keys_to_clear = [] then s'
           else publish (L1_KEYS_EVICTED keys_to_clear cleared_meta)
                  (notify [Keys_Deleted_By_Manager keys_to_clear] s'))"

definition is_key_evictable :: "int \<Rightarrow> 'k l1_manager \<Rightarrow> 'k \<Rightarrow> bool" where
  "is_key_evictable now s key =
     (case dict_get (l1_objects s) key of
        None \<Rightarrow> False
      | Some e \<Rightarrow> \<not> is_locked now (os_read_lock e) \<and> \<not> is_locked now (os_write_lock e))"

definition close_manager :: "sorted_list_ops \<Rightarrow> 'k l1_manager \<Rightarrow> 'k l1_manager" where
  "close_manager sl s =
     s\<lparr>l1_memory := fst (mm_free sl (map os_memory_obj (dict_values (l1_objects s))) (l1_memory s)),
       l1_objects := []\<rparr>"

definition get_memory_usage :: "'k l1_manager \<Rightarrow> int \<times> int" where
  "get_memory_usage s = mm_get_memory_usage (l1_memory s)"

definition l1_usage_ratio_or_zero :: "(rat \<Rightarrow> rat) \<Rightarrow> 'k l1_manager option \<Rightarrow> pyfloat" where
  "l1_usage_ratio_or_zero rnd target =
     (case target of None \<Rightarrow> 0
      | Some s \<Rightarrow> (case get_memory_usage s of (used, tot) \<Rightarrow>
          if tot \<le> 0 then 0 else rnd (of_int used / of_int tot)))"

record l1_status =
  st_is_healthy :: bool
  st_total_object_count :: nat
  st_write_locked_count :: nat
  st_read_locked_count :: nat
  st_temporary_count :: nat
  st_memory_used_bytes :: int
  st_memory_total_bytes :: int
  st_memory_configured_bytes :: int
  st_memory_usage_ratio :: pyfloat

definition report_status :: "(rat \<Rightarrow> rat) \<Rightarrow> int \<Rightarrow> 'k l1_manager \<Rightarrow> l1_status" where
  "report_status rnd now s =
     (let (used, tot) = get_memory_usage s; es = dict_values (l1_objects s)
      in \<lparr>st_is_healthy = ta_memcheck (l1_memory s),
          st_total_object_count = length (l1_objects s),
          st_write_locked_count = length (filter (\<lambda>e. is_locked now (os_write_lock e)) es),
          st_read_locked_count = length (filter (\<lambda>e. is_locked now (os_read_lock e)) es),
          st_temporary_count = length (filter os_is_temporary es),
          st_memory_used_bytes = used, st_memory_total_bytes = tot,
          st_memory_configured_bytes = l1_configured_capacity s,
          st_memory_usage_ratio = (if tot > 0 then rnd (of_int used / of_int tot) else 0)\<rparr>)"

definition get_object_state :: "'k l1_manager \<Rightarrow> 'k \<Rightarrow> l1_object_state option" where
  "get_object_state s key = dict_get (l1_objects s) key"

definition l1_memcheck :: "'k l1_manager \<Rightarrow> bool" where
  "l1_memcheck s = ta_memcheck (l1_memory s)"

section \<open>Entries\<close>

text \<open>
  The states of one entry at time \<open>T\<close>: a write lock is never held twice, and from \<open>T\<close> on a
  writer excludes readers.
\<close>

definition entry_ok :: "int \<Rightarrow> l1_object_state \<Rightarrow> bool" where
  "entry_ok T e \<longleftrightarrow> tl_counter (os_write_lock e) \<in> {0, 1} \<and> 0 \<le> tl_counter (os_read_lock e) \<and>
     (\<forall>t \<ge> T. \<not> (is_locked t (os_write_lock e) \<and> is_locked t (os_read_lock e)))"

inductive entry_trans :: "int \<Rightarrow> l1_object_state \<Rightarrow> l1_object_state \<Rightarrow> bool" for now :: int where
  read_lock: "available_for_read now e \<Longrightarrow>
    entry_trans now e (e\<lparr>os_read_lock := (lock now ^^ n) (os_read_lock e)\<rparr>)"
| read_unlock: "entry_trans now e (e\<lparr>os_read_lock := (unlock ^^ n) (os_read_lock e)\<rparr>)"
| write_lock: "available_for_write now e \<Longrightarrow>
    entry_trans now e (e\<lparr>os_write_lock := lock now (os_write_lock e)\<rparr>)"
| write_unlock: "entry_trans now e (e\<lparr>os_write_lock := unlock (os_write_lock e)\<rparr>)"
| write_to_read: "is_locked now (os_write_lock e) \<Longrightarrow>
    entry_trans now e (e\<lparr>os_write_lock := unlock (os_write_lock e),
                         os_read_lock := (lock now ^^ n) (os_read_lock e)\<rparr>)"

lemma entry_trans_keeps:
  "entry_trans now e e' \<Longrightarrow> os_memory_obj e' = os_memory_obj e \<and> os_is_temporary e' = os_is_temporary e"
  by (induction rule: entry_trans.induct) simp_all

lemma not_locked_later: "\<not> is_locked t l \<Longrightarrow> t \<le> t' \<Longrightarrow> \<not> is_locked t' l"
  by (auto simp: is_locked_def)

lemma lock_pow_counter: "0 \<le> tl_counter l \<Longrightarrow> 0 \<le> tl_counter ((lock now ^^ n) l)"
  by (induction n) (auto simp: lock_def)

lemma unlock_pow:
  assumes "0 \<le> tl_counter l"
  shows "(unlock ^^ n) l = l\<lparr>tl_counter := max 0 (tl_counter l - int n)\<rparr>"
  using assms by (induction n) (auto simp: unlock_def)

lemma lock_pow:
  assumes "0 < tl_ttl_ms l"
  shows "(lock now ^^ Suc n) l =
    l\<lparr>tl_counter := (if now \<ge> tl_expiration_ms l then 0 else tl_counter l) + int (Suc n),
      tl_expiration_ms := now + tl_ttl_ms l\<rparr>"
  using assms by (induction n) (auto simp: lock_def)

lemma unlock_not_locked: "\<not> is_locked t l \<Longrightarrow> \<not> is_locked t (unlock l)"
  by (auto simp: is_locked_def unlock_def)

lemma unlock_pow_not_locked: "\<not> is_locked t l \<Longrightarrow> \<not> is_locked t ((unlock ^^ n) l)"
  by (induction n) (auto simp: unlock_not_locked)

lemma unlock_pow_counter: "0 \<le> tl_counter l \<Longrightarrow> 0 \<le> tl_counter ((unlock ^^ n) l)"
  by (simp add: unlock_pow)

lemma write_unlocked: "tl_counter l \<in> {0, 1} \<Longrightarrow> tl_counter (unlock l) = 0"
  by (auto simp: unlock_def)

lemma zero_not_locked: "tl_counter l = 0 \<Longrightarrow> \<not> is_locked t l"
  by (simp add: is_locked_def)

lemma entry_ok_later: "entry_ok T e \<Longrightarrow> T \<le> T' \<Longrightarrow> entry_ok T' e"
  by (auto simp: entry_ok_def)

lemma entry_trans_ok:
  assumes "entry_trans now e e'" and "entry_ok now e"
  shows "entry_ok now e'"
  using assms
proof (induction rule: entry_trans.induct)
  case (read_lock e n)
  then have "\<forall>t \<ge> now. \<not> is_locked t (os_write_lock e)"
    using not_locked_later by (auto simp: available_for_read_def)
  with read_lock show ?case by (auto simp: entry_ok_def lock_pow_counter)
next
  case (read_unlock e n)
  then show ?case using unlock_pow_not_locked by (force simp: entry_ok_def unlock_pow_counter)
next
  case (write_lock e)
  then have "\<forall>t \<ge> now. \<not> is_locked t (os_read_lock e)"
    using not_locked_later by (auto simp: available_for_write_def)
  moreover have "tl_counter (lock now (os_write_lock e)) = 1"
    using write_lock by (auto simp: lock_def available_for_write_def is_locked_def entry_ok_def)
  ultimately show ?case using write_lock by (auto simp: entry_ok_def)
next
  case (write_unlock e)
  then have "tl_counter (unlock (os_write_lock e)) = 0" by (simp add: write_unlocked entry_ok_def)
  with write_unlock show ?case by (simp add: entry_ok_def zero_not_locked)
next
  case (write_to_read e n)
  then have "tl_counter (unlock (os_write_lock e)) = 0" by (simp add: write_unlocked entry_ok_def)
  with write_to_read show ?case by (simp add: entry_ok_def zero_not_locked lock_pow_counter)
qed

lemma new_object_state_ok: "entry_ok now (new_object_state now w r m t)"
  by (simp add: entry_ok_def new_object_state_def lock_def ttl_lock_new_def is_locked_def)

section \<open>Loops over the keys\<close>

text \<open>
  What a loop over keys does to the dictionary: entries make transitions, entries that meet
  \<open>D\<close> are deleted and their objects collected.
\<close>

inductive objs_run ::
  "(l1_object_state \<Rightarrow> bool) \<Rightarrow> int \<Rightarrow> 'k l1_objects \<Rightarrow> 'k l1_objects \<Rightarrow> nat list \<Rightarrow> bool"
  for D :: "l1_object_state \<Rightarrow> bool" and now :: int and o1 :: "'k l1_objects" where
  refl: "objs_run D now o1 o1 []"
| upd: "objs_run D now o1 o2 fs \<Longrightarrow> map_of o2 k = Some e \<Longrightarrow> entry_trans now e e' \<Longrightarrow>
    objs_run D now o1 (AList.update k e' o2) fs"
| del: "objs_run D now o1 o2 fs \<Longrightarrow> map_of o2 k = Some e \<Longrightarrow> D e \<Longrightarrow>
    objs_run D now o1 (AList.delete k o2) (fs @ [os_memory_obj e])"

definition objs_mem :: "'k l1_objects \<Rightarrow> nat list" where
  "objs_mem objs = map (os_memory_obj \<circ> snd) objs"

definition objs_ok :: "int \<Rightarrow> 'k l1_objects \<Rightarrow> bool" where
  "objs_ok T objs \<longleftrightarrow> (\<forall>k e. map_of objs k = Some e \<longrightarrow> entry_ok T e)"

lemma objs_mem_upd:
  assumes "map_of objs k = Some e" and "os_memory_obj e' = os_memory_obj e"
  shows "objs_mem (AList.update k e' objs) = objs_mem objs"
  using assms by (induction objs) (auto simp: objs_mem_def)

lemma objs_mem_new:
  "map_of objs k = None \<Longrightarrow> objs_mem (AList.update k e objs) = objs_mem objs @ [os_memory_obj e]"
  by (induction objs) (auto simp: objs_mem_def split: if_splits)

lemma objs_mem_del:
  assumes "dict_wf objs" and "map_of objs k = Some e"
  shows "mset (objs_mem objs) = add_mset (os_memory_obj e) (mset (objs_mem (AList.delete k objs)))"
  using assms
proof (induction objs)
  case (Cons p objs)
  show ?case
  proof (cases "fst p = k")
    case True
    with Cons.prems(1) have "k \<notin> fst ` set objs" by (auto simp: dict_wf_def)
    then have "AList.delete k objs = objs" by (rule delete_id)
    with True Cons.prems show ?thesis by (cases p) (auto simp: objs_mem_def)
  next
    case False
    with Cons show ?thesis by (cases p) (auto simp: objs_mem_def dict_wf_def)
  qed
qed simp

lemma objs_run_inv:
  assumes "objs_run D now o1 o2 fs" and "dict_wf o1" and "objs_ok now o1"
  shows "dict_wf o2 \<and> objs_ok now o2 \<and> mset (objs_mem o2) + mset fs = mset (objs_mem o1)"
  using assms
proof (induction rule: objs_run.induct)
  case (upd o2 fs k e e')
  then have "entry_ok now e'" using entry_trans_ok by (auto simp: objs_ok_def)
  with upd entry_trans_keeps [OF upd(3)] show ?case by (auto simp: objs_ok_def objs_mem_upd)
next
  case (del o2 fs k e)
  then show ?case using objs_mem_del [of o2 k e] by (auto simp: objs_ok_def)
qed auto

lemma objs_run_keys: "objs_run D now o1 o2 fs \<Longrightarrow> fst ` set o2 \<subseteq> fst ` set o1"
proof (induction rule: objs_run.induct)
  case (upd o2 fs k e e')
  then have "k \<in> fst ` set o2" using map_of_isSome_keys by fastforce
  with upd show ?case by auto
qed auto

text \<open>An entry that keeps failing \<open>D\<close> survives with its memory object.\<close>

lemma objs_run_survives:
  assumes "objs_run D now o1 o2 fs" and "map_of o1 k = Some e"
    and "\<And>e'. os_memory_obj e' = os_memory_obj e \<Longrightarrow> os_is_temporary e' = os_is_temporary e \<Longrightarrow> \<not> D e'"
  shows "\<exists>e'. map_of o2 k = Some e' \<and> os_memory_obj e' = os_memory_obj e \<and> os_is_temporary e' = os_is_temporary e"
  using assms
proof (induction rule: objs_run.induct)
  case (upd o2 fs k' e1 e1')
  then show ?case using entry_trans_keeps [OF upd(3)] by auto
next
  case (del o2 fs k' e1)
  then show ?case by fastforce
qed auto

lemma reserve_read_run:
  assumes "foldl (reserve_read_step now n) (o1, [], []) keys = (objs, ret, ok)"
  shows "objs_run D now o1 objs []"
  using foldl_inv [of "\<lambda>a. objs_run D now o1 (fst a) []" "(o1, [], [])" keys "reserve_read_step now n"] assms
  by (force simp: objs_run.refl split: option.splits intro: objs_run.upd entry_trans.read_lock)

lemma finish_read_run:
  "objs_run os_is_temporary now o1 (fr_objs a) (fr_free a) \<Longrightarrow>
     objs_run os_is_temporary now o1 (fr_objs (foldl (finish_read_step now n) a keys))
       (fr_free (foldl (finish_read_step now n) a keys))"
  by (rule foldl_inv [of "\<lambda>a. objs_run os_is_temporary now o1 (fr_objs a) (fr_free a)"])
    (auto simp: finish_read_step_def Let_def split: option.splits
      intro: objs_run.upd objs_run.del entry_trans.read_unlock)

lemma reserve_write_run:
  "objs_run D now o1 (rw_objs a) fs \<Longrightarrow>
     objs_run D now o1 (rw_objs (foldl (reserve_write_step now mode) a kts)) fs"
  by (rule foldl_inv [of "\<lambda>a. objs_run D now o1 (rw_objs a) fs"])
    (auto simp: reserve_write_step_def split: option.splits prod.splits
      intro: objs_run.upd entry_trans.write_lock)

lemma finish_write_run:
  assumes "foldl (finish_write_step now) (o1, [], [], []) keys = (objs, ret, ok, oks)"
  shows "objs_run D now o1 objs []"
  using foldl_inv [of "\<lambda>a. objs_run D now o1 (fst a) []" "(o1, [], [], [])" keys "finish_write_step now"] assms
  by (force simp: objs_run.refl split: option.splits intro: objs_run.upd entry_trans.write_unlock)

lemma finish_write_and_reserve_read_run:
  assumes "foldl (finish_write_and_reserve_read_step now n) (o1, [], [], []) keys = (objs, ret, ok, oks)"
  shows "objs_run D now o1 objs []"
  using foldl_inv [of "\<lambda>a. objs_run D now o1 (fst a) []" "(o1, [], [], [])" keys
      "finish_write_and_reserve_read_step now n"] assms
  by (force simp: objs_run.refl split: option.splits intro: objs_run.upd entry_trans.write_to_read)

lemma delete_run:
  assumes "foldl (delete_step now force) (o1, [], [], []) keys = (objs, ret, ok, fs)"
  shows "objs_run (\<lambda>e. force \<or> \<not> entry_locked now e) now o1 objs fs"
  using foldl_inv [of "\<lambda>a. objs_run (\<lambda>e. force \<or> \<not> entry_locked now e) now o1 (fst a) (snd (snd (snd a)))"
      "(o1, [], [], [])" keys "delete_step now force"] assms
  by (force simp: objs_run.refl Let_def entry_locked_def split: option.splits intro: objs_run.del)

section \<open>The manager and its allocator\<close>

definition valid_ids :: "mem_obj list \<Rightarrow> nat list" where
  "valid_ids heap = filter (\<lambda>i. mo_valid (heap ! i)) [0..<length heap]"

text \<open>
  The invariant of the manager at time \<open>T\<close>: the valid objects of the allocator are exactly the
  objects of the resident keys, one each.
\<close>

definition l1_inv :: "sorted_list_ops \<Rightarrow> int \<Rightarrow> 'k l1_manager \<Rightarrow> bool" where
  "l1_inv sl T s \<longleftrightarrow> dict_wf (l1_objects s) \<and> objs_ok T (l1_objects s) \<and> ta_inv sl (l1_memory s) \<and>
     mset (objs_mem (l1_objects s)) = mset (valid_ids (ta_heap (l1_memory s)))"

lemma set_valid_ids: "set (valid_ids heap) = {i. i < length heap \<and> mo_valid (heap ! i)}"
  by (auto simp: valid_ids_def)

lemma distinct_valid_ids [simp]: "distinct (valid_ids heap)"
  by (simp add: valid_ids_def)

lemma batched_free_loop_valid:
  assumes "batched_free_loop is h acc = (h', acc')" and "\<forall>i\<in>set is. i < length h"
  shows "length h' = length h \<and> (\<forall>j < length h. mo_valid (h' ! j) \<longleftrightarrow> mo_valid (h ! j) \<and> j \<notin> set is)"
  using assms
proof (induction "is" h acc rule: batched_free_loop.induct)
  case (2 i "is" heap acc)
  show ?case
  proof (cases "mo_valid (heap ! i)")
    case True
    with 2(2) [OF _ _ ] 2(3,4) show ?thesis
      by (auto simp: nth_list_update invalidate_def split: if_splits)
  qed (use 2 in auto)
qed auto

lemma ta_batched_free_valid:
  assumes "\<forall>i\<in>set is. i < length (ta_heap ta)"
  shows "valid_ids (ta_heap (ta_batched_free sl ta is)) =
    filter (\<lambda>i. i \<notin> set is) (valid_ids (ta_heap ta))"
proof (cases "is = []")
  case True
  then show ?thesis by (simp add: ta_batched_free_def)
next
  case False
  let ?s = "sort_key (\<lambda>i. mo_address (ta_heap ta ! i)) is"
  obtain h' acc where l: "batched_free_loop ?s (ta_heap ta) (None, []) = (h', acc)"
    by (cases "batched_free_loop ?s (ta_heap ta) (None, [])") blast
  have "length h' = length (ta_heap ta) \<and>
      (\<forall>j < length (ta_heap ta). mo_valid (h' ! j) \<longleftrightarrow> mo_valid (ta_heap ta ! j) \<and> j \<notin> set is)"
    using batched_free_loop_valid [OF l] assms by simp
  with l False show ?thesis
    by (auto simp: ta_batched_free_def Let_def valid_ids_def intro!: filter_cong)
qed

lemma mset_valid_free:
  assumes "mset os + mset fs = mset (valid_ids h)"
  shows "mset os = mset (filter (\<lambda>i. i \<notin> set fs) (valid_ids h))"
proof -
  have "distinct (os @ fs)"
    using assms distinct_valid_ids [of h] by (metis mset_append mset_eq_imp_distinct_iff)
  then have d: "distinct os" "set os \<inter> set fs = {}" by auto
  have "set os \<union> set fs = set (valid_ids h)" using assms by (metis mset_append set_append set_mset_mset)
  with d have "set os = set (filter (\<lambda>i. i \<notin> set fs) (valid_ids h))" by auto
  with d(1) show ?thesis by (intro set_eq_iff_mset_eq_distinct [THEN iffD1]) simp_all
qed

text \<open>Freeing the objects of the entries that have left the dictionary keeps the invariant.\<close>

lemma l1_inv_free:
  assumes "l1_inv sl now s" and "dict_wf objs" and "objs_ok now objs"
    and "mset (objs_mem objs) + mset fs = mset (objs_mem (l1_objects s))"
    and "l1_objects s' = objs" and "l1_memory s' = ta_batched_free sl (l1_memory s) fs"
  shows "l1_inv sl now s'"
proof -
  have m: "mset (objs_mem objs) + mset fs = mset (valid_ids (ta_heap (l1_memory s)))"
    using assms(1,4) by (simp add: l1_inv_def)
  have "set fs \<subseteq> set (valid_ids (ta_heap (l1_memory s)))"
    using m by (metis mset_append set_append set_mset_mset Un_upper2)
  then have "\<forall>i\<in>set fs. i < length (ta_heap (l1_memory s))" by (auto simp: set_valid_ids)
  with assms mset_valid_free [OF m] show ?thesis
    by (simp add: l1_inv_def ta_batched_free_inv ta_batched_free_valid)
qed

lemma l1_inv_run:
  assumes "l1_inv sl now s" and "objs_run D now (l1_objects s) objs fs"
    and "l1_objects s' = objs" and "l1_memory s' = ta_batched_free sl (l1_memory s) fs"
  shows "l1_inv sl now s'"
  using objs_run_inv [OF assms(2)] assms by (intro l1_inv_free [OF assms(1)]) (auto simp: l1_inv_def)

lemma ta_batched_free_Nil [simp]: "ta_batched_free sl ta [] = ta"
  by (simp add: ta_batched_free_def)

lemma l1_inv_later: "l1_inv sl T s \<Longrightarrow> T \<le> T' \<Longrightarrow> l1_inv sl T' s"
  by (auto simp: l1_inv_def objs_ok_def intro: entry_ok_later)

lemma l1_frame [simp]:
  "l1_objects (publish ev s) = l1_objects s" "l1_memory (publish ev s) = l1_memory s"
  "l1_objects (notify ns s) = l1_objects s" "l1_memory (notify ns s) = l1_memory s"
  "l1_listeners (publish ev s) = l1_listeners s" "l1_events (notify ns s) = l1_events s"
  "l1_listeners (notify ns s) = map (\<lambda>i. i @ ns) (l1_listeners s)"
  "l1_events (publish ev s) = l1_events s @ [ev]"
  by (simp_all add: publish_def notify_def)

lemma l1_inv_frame:
  "l1_inv sl T s \<Longrightarrow> l1_objects s' = l1_objects s \<Longrightarrow> l1_memory s' = l1_memory s \<Longrightarrow> l1_inv sl T s'"
  by (simp add: l1_inv_def)

lemma l1_inv_run0:
  assumes "l1_inv sl now s" and "objs_run D now (l1_objects s) objs []"
    and "l1_objects s' = objs" and "l1_memory s' = l1_memory s"
  shows "l1_inv sl now s'"
  by (rule l1_inv_run [OF assms(1,2,3)]) (simp add: assms(4))

lemma reserve_read_inv:
  assumes "l1_inv sl now s" shows "l1_inv sl now (fst (reserve_read now keys n s))"
proof -
  let ?f = "foldl (reserve_read_step now (nat (validate_read_locks n))) (l1_objects s, [], []) keys"
  obtain objs ret ok where f: "?f = (objs, ret, ok)" by (cases ?f) blast
  show ?thesis
    by (rule l1_inv_run0 [OF assms reserve_read_run [OF f]]) (simp_all add: reserve_read_def f)
qed

lemma finish_write_inv:
  assumes "l1_inv sl now s" shows "l1_inv sl now (fst (finish_write now keys s))"
proof -
  let ?f = "foldl (finish_write_step now) (l1_objects s, [], [], []) keys"
  obtain objs ret ok oks where f: "?f = (objs, ret, ok, oks)" by (cases ?f) blast
  show ?thesis
    by (rule l1_inv_run0 [OF assms finish_write_run [OF f]]) (simp_all add: finish_write_def f)
qed

lemma finish_write_and_reserve_read_inv:
  assumes "l1_inv sl now s" shows "l1_inv sl now (fst (finish_write_and_reserve_read now keys n s))"
proof -
  let ?f = "foldl (finish_write_and_reserve_read_step now (nat (validate_read_locks n))) (l1_objects s, [], [], []) keys"
  obtain objs ret ok oks where f: "?f = (objs, ret, ok, oks)" by (cases ?f) blast
  show ?thesis
    by (rule l1_inv_run0 [OF assms finish_write_and_reserve_read_run [OF f]])
      (simp_all add: finish_write_and_reserve_read_def f)
qed

lemma delete_keys_inv:
  assumes "l1_inv sl now s" shows "l1_inv sl now (fst (delete_keys sl now keys force s))"
proof -
  let ?f = "foldl (delete_step now force) (l1_objects s, [], [], []) keys"
  obtain objs ret ok fs where f: "?f = (objs, ret, ok, fs)" by (cases ?f) blast
  show ?thesis
    by (rule l1_inv_run [OF assms delete_run [OF f]]) (simp_all add: delete_keys_def f mm_free_def)
qed

lemma finish_read_inv:
  assumes "l1_inv sl now s" shows "l1_inv sl now (fst (finish_read sl now keys n s))"
proof -
  let ?a = "\<lparr>fr_objs = l1_objects s, fr_ret = [], fr_ok = [], fr_free = [], fr_free_keys = []\<rparr>"
  have "objs_run os_is_temporary now (l1_objects s) (fr_objs ?a) (fr_free ?a)" by (simp add: objs_run.refl)
  from l1_inv_run [OF assms finish_read_run [OF this, of "nat (validate_read_locks n)" keys]] show ?thesis
    by (simp add: finish_read_def Let_def mm_free_def)
qed

lemma foldl_dict_del: "foldl (\<lambda>d k. AList.delete k d) d ks = filter (\<lambda>p. fst p \<notin> set ks) d"
proof (induction ks arbitrary: d)
  case (Cons k ks)
  then have "foldl (\<lambda>d k. AList.delete k d) d (k # ks) = filter (\<lambda>p. fst p \<notin> set ks) (AList.delete k d)"
    by simp
  also have "\<dots> = filter (\<lambda>p. fst p \<notin> set (k # ks)) d"
    unfolding AList.delete_eq by (auto intro!: filter_cong)
  finally show ?case .
qed simp

lemma clear_filter:
  assumes "dict_wf d"
  shows "filter (\<lambda>p. fst p \<notin> set (map fst (filter Q d))) d = filter (\<lambda>p. \<not> Q p) d"
proof (rule filter_cong)
  fix p assume p: "p \<in> set d"
  have "inj_on fst (set d)" using assms by (simp add: dict_wf_def distinct_map)
  then have "fst p \<in> fst ` set (filter Q d) \<longleftrightarrow> p \<in> set (filter Q d)"
    using p by (intro inj_on_image_mem_iff) auto
  then show "(fst p \<notin> set (map fst (filter Q d))) = (\<not> Q p)" using p by simp
qed simp

lemma clear_keys_unlocked:
  assumes "dict_wf (l1_objects s)" and "\<not> force"
  shows "l1_objects (clear_keys sl now force s) = filter (\<lambda>p. entry_locked now (snd p)) (l1_objects s)"
    and "l1_memory (clear_keys sl now force s) =
      ta_batched_free sl (l1_memory s) (objs_mem (filter (\<lambda>p. \<not> entry_locked now (snd p)) (l1_objects s)))"
  using assms clear_filter [OF assms(1), of "\<lambda>p. \<not> entry_locked now (snd p)"]
    filter_id_conv [of "\<lambda>p. entry_locked now (snd p)" "l1_objects s"]
  by (auto simp: filter_empty_conv clear_keys_def Let_def foldl_dict_del mm_free_def objs_mem_def case_prod_unfold)

lemma objs_ok_filter: "dict_wf objs \<Longrightarrow> objs_ok T objs \<Longrightarrow> objs_ok T (filter P objs)"
  by (auto simp: objs_ok_def map_of_filter_wf split: option.splits if_splits)

lemma objs_mem_filter: "mset (objs_mem (filter P objs)) + mset (objs_mem (filter (\<lambda>p. \<not> P p) objs)) = mset (objs_mem objs)"
  by (induction objs) (auto simp: objs_mem_def)

lemma clear_keys_inv:
  assumes "l1_inv sl now s" shows "l1_inv sl now (clear_keys sl now force s)"
proof (cases force)
  case True
  then show ?thesis
    by (intro l1_inv_free [OF assms, where objs = "[]" and fs = "objs_mem (l1_objects s)"])
      (auto simp: clear_keys_def Let_def mm_free_def objs_ok_def objs_mem_def comp_def)
next
  case False
  have wf: "dict_wf (l1_objects s)" and ok: "objs_ok now (l1_objects s)" using assms by (auto simp: l1_inv_def)
  show ?thesis
    by (rule l1_inv_free [OF assms _ _ objs_mem_filter clear_keys_unlocked(1) [OF wf False]
          clear_keys_unlocked(2) [OF wf False]]) (use wf ok in \<open>auto intro: objs_ok_filter\<close>)
qed

lemma close_manager_inv:
  assumes "l1_inv sl now s" shows "l1_inv sl now (close_manager sl s)"
  by (rule l1_inv_free [OF assms, where objs = "[]" and fs = "objs_mem (l1_objects s)"])
    (auto simp: close_manager_def mm_free_def objs_ok_def objs_mem_def comp_def)

subsection \<open>Reserving new keys\<close>

definition layout_ok :: "memory_layout \<Rightarrow> bool" where
  "layout_ok l \<longleftrightarrow> (\<exists>raw. get_size_bytes (ml_shapes l) (ml_dtypes l) = Inr raw \<and> 0 < raw)"

lemma valid_ids_append:
  assumes "\<forall>obj\<in>set new. mo_valid obj"
  shows "valid_ids (h @ new) = valid_ids h @ [length h..<length h + length new]"
proof -
  have "filter (\<lambda>i. mo_valid ((h @ new) ! i)) [length h..<length h + length new] = [length h..<length h + length new]"
    using assms by (intro filter_True) (auto simp: nth_append)
  moreover have "filter (\<lambda>i. mo_valid ((h @ new) ! i)) [0..<length h] = valid_ids h"
    unfolding valid_ids_def by (intro filter_cong) (auto simp: nth_append)
  moreover have "[0..<length h + length new] = [0..<length h] @ [length h..<length h + length new]"
    by (rule upt_add_eq_append) simp
  ultimately show ?thesis by (simp only: valid_ids_def length_append filter_append)
qed

lemma mm_allocate_cases:
  assumes "ta_inv sl ta" and "layout_ok l" and "mm_allocate sl ta l (int n) = (ta', r)"
  obtains (raised) e where "r = Inl e" and "ta' = ta"
  | (no_memory) "r = Inr (OUT_OF_MEMORY, [])" and "ta' = ta"
  | (allocated) ids where "r = Inr (SUCCESS, ids)" and "length ids = n" and "ta_inv sl ta'"
      and "valid_ids (ta_heap ta') = valid_ids (ta_heap ta) @ ids"
proof -
  obtain raw where raw: "get_size_bytes (ml_shapes l) (ml_dtypes l) = Inr raw" "0 < raw"
    using assms(2) by (auto simp: layout_ok_def)
  let ?b = "ta_batched_allocate sl ta (ml_shapes l) (ml_dtypes l) (int n) KV_2LTD"
  let ?u = "compute_aligned_size (ta_am ta) raw"
  have inv': "ta_inv sl (fst ?b)" by (rule ta_batched_allocate_inv [OF assms(1) raw])
  have ne: "ml_shapes l \<noteq> []" using raw by (auto simp: get_size_bytes_def split: if_splits)
  have led: "am_ledger sl (ta_am ta) (live_ranges (ta_heap ta))" using assms(1) by (simp add: ta_inv_def)
  have "am_inv (ta_am ta)" using led by (simp add: am_ledger_def)
  then have u: "0 < ?u" using am_inv_aligned_size(2) [of "ta_am ta" raw] raw(2) by simp
  show thesis
  proof (cases "am_batched_allocate sl (ta_am ta) ?u (int n)")
    case (Inl e)
    then show thesis using assms(3) raw raised no_memory
      by (auto simp: mm_allocate_def ta_batched_allocate_def Let_def split: if_splits)
  next
    case (Inr p)
    obtain rs am' where p: "p = (rs, am')" by (cases p)
    have len: "length rs = n" using am_ledger_balloc(2) [OF led u Inr [unfolded p]] by simp
    let ?new = "map (\<lambda>(addr, _). new_mem_obj addr ?u KV_2LTD (ml_shapes l) (ml_dtypes l) (addr, ?u)) rs"
    have b: "ta_heap (fst ?b) = ta_heap ta @ ?new"
      "snd ?b = Inr (Some [length (ta_heap ta)..<length (ta_heap ta) + n])"
      using raw Inr p ne len by (auto simp: ta_batched_allocate_def Let_def)
    have v: "valid_ids (ta_heap (fst ?b)) = valid_ids (ta_heap ta) @ [length (ta_heap ta)..<length (ta_heap ta) + n]"
    proof -
      have "\<forall>obj\<in>set ?new. mo_valid obj" by (auto simp: new_mem_obj_def)
      from valid_ids_append [OF this, of "ta_heap ta"] show ?thesis by (simp add: b(1) len)
    qed
    have "r = Inr (SUCCESS, [length (ta_heap ta)..<length (ta_heap ta) + n])" "ta' = fst ?b"
      using assms(3) b(2) by (auto simp: mm_allocate_def split: prod.splits)
    with v inv' show thesis by (intro allocated) auto
  qed
qed

lemma reserve_write_need:
  fixes now :: int and mode :: write_mode
  assumes "distinct (map fst (rw_need a) @ map fst kts)"
    and "\<forall>k\<in>set (map fst (rw_need a)). map_of (rw_objs a) k = None"
  defines "a' \<equiv> foldl (reserve_write_step now mode) a kts"
  shows "distinct (map fst (rw_need a')) \<and> (\<forall>k\<in>set (map fst (rw_need a')). map_of (rw_objs a') k = None)"
  unfolding a'_def using assms(1,2)
proof (induction kts arbitrary: a)
  case (Cons kt kts)
  obtain k t where kt: "kt = (k, t)" by (cases kt)
  let ?a = "reserve_write_step now mode a kt"
  have "distinct (map fst (rw_need ?a) @ map fst kts) \<and> (\<forall>k\<in>set (map fst (rw_need ?a)). map_of (rw_objs ?a) k = None)"
    using Cons.prems by (auto simp: reserve_write_step_def kt split: option.splits)
  then show ?case using Cons.IH [of ?a] by simp
qed simp

lemma reserve_write_new_run:
  fixes now w r :: int
  assumes "distinct (map (fst \<circ> fst) ps)" and "\<forall>k\<in>set (map (fst \<circ> fst) ps). map_of (rw_objs a) k = None"
    and "dict_wf (rw_objs a)" and "objs_ok now (rw_objs a)"
  defines "a' \<equiv> foldl (reserve_write_new now w r) a ps"
  shows "dict_wf (rw_objs a') \<and> objs_ok now (rw_objs a') \<and> objs_mem (rw_objs a') = objs_mem (rw_objs a) @ map snd ps"
  unfolding a'_def using assms(1-4)
proof (induction ps arbitrary: a)
  case (Cons p ps)
  obtain k t m where p: "p = ((k, t), m)" by (metis surj_pair)
  let ?a = "reserve_write_new now w r a p"
  have "dict_wf (rw_objs ?a) \<and> objs_ok now (rw_objs ?a) \<and> objs_mem (rw_objs ?a) = objs_mem (rw_objs a) @ [m]"
    using Cons.prems by (auto simp: reserve_write_new_def p objs_ok_def new_object_state_ok objs_mem_new)
      (simp add: new_object_state_def)
  moreover have "\<forall>k\<in>set (map (fst \<circ> fst) ps). map_of (rw_objs ?a) k = None"
    using Cons.prems by (auto simp: reserve_write_new_def p)
  ultimately show ?case using Cons.IH [of ?a] Cons.prems p by simp
qed simp

lemma reserve_write_inv:
  assumes "l1_inv sl now s" and "distinct keys" and "layout_ok l"
  shows "l1_inv sl now (fst (reserve_write sl now keys temps l mode s))"
proof -
  let ?a0 = "\<lparr>rw_objs = l1_objects s, rw_need = [], rw_ret = [], rw_ok = []\<rparr>"
  define a where "a = foldl (reserve_write_step now mode) ?a0 (zip keys temps)"
  let ?s1 = "s\<lparr>l1_objects := rw_objs a\<rparr>"
  have run: "objs_run (\<lambda>_. False) now (l1_objects s) (rw_objs a) []"
    unfolding a_def by (rule reserve_write_run) (simp add: objs_run.refl)
  have i1: "l1_inv sl now (?s1)" by (rule l1_inv_run0 [OF assms(1) run]) simp_all
  have dz: "distinct (map fst (zip keys temps))"
    using assms(2) by (simp add: map_fst_zip_take)
  have need: "distinct (map fst (rw_need a)) \<and> (\<forall>k\<in>set (map fst (rw_need a)). map_of (rw_objs a) k = None)"
    unfolding a_def by (rule reserve_write_need) (use dz in auto)
  obtain ta' r where m: "mm_allocate sl (l1_memory s) l (int (length (rw_need a))) = (ta', r)" by fastforce
  have ta: "ta_inv sl (l1_memory s)" using assms(1) by (simp add: l1_inv_def)
  note rw = reserve_write_def Let_def a_def [symmetric]
  from ta assms(3) m have "l1_inv sl now (fst (reserve_write sl now keys temps l mode s))"
    if "rw_need a \<noteq> []" "mode \<noteq> Mode_Update"
  proof (cases rule: mm_allocate_cases)
    case (raised e)
    then show ?thesis using i1 that m by (auto simp: rw elim!: l1_inv_frame)
  next
    case no_memory
    then show ?thesis using i1 that m by (auto simp: rw elim!: l1_inv_frame)
  next
    case (allocated ids)
    let ?a' = "foldl (reserve_write_new now (l1_write_ttl_seconds s) (l1_read_ttl_seconds s)) a (zip (rw_need a) ids)"
    have z: "map (fst \<circ> fst) (zip (rw_need a) ids) = map fst (rw_need a)" "map snd (zip (rw_need a) ids) = ids"
      using allocated(2) by (simp_all add: map_fst_zip flip: map_map)
    have "dict_wf (rw_objs ?a') \<and> objs_ok now (rw_objs ?a') \<and>
        objs_mem (rw_objs ?a') = objs_mem (rw_objs a) @ map snd (zip (rw_need a) ids)"
      by (rule reserve_write_new_run) (use need i1 in \<open>auto simp: z l1_inv_def\<close>)
    with allocated z i1 that m show ?thesis by (simp add: rw l1_inv_def)
  qed
  then show ?thesis using i1 by (cases "rw_need a = [] \<or> mode = Mode_Update") (auto simp: rw)
qed

section \<open>Runs of the manager\<close>

datatype 'k l1_op =
    Reserve_Read "'k list" int
  | Unsafe_Read "'k list"
  | Finish_Read "'k list" int
  | Reserve_Write "'k list" "bool list" memory_layout write_mode
  | Finish_Write "'k list"
  | Finish_Write_And_Reserve_Read "'k list" int
  | Delete "'k list" bool
  | Touch "'k list"
  | Clear bool
  | Register_Listener
  | Close

primrec l1_exec :: "sorted_list_ops \<Rightarrow> int \<Rightarrow> 'k l1_op \<Rightarrow> 'k l1_manager \<Rightarrow> 'k l1_manager" where
  "l1_exec sl now (Reserve_Read keys n) s = fst (reserve_read now keys n s)"
| "l1_exec sl now (Unsafe_Read keys) s = s"
| "l1_exec sl now (Finish_Read keys n) s = fst (finish_read sl now keys n s)"
| "l1_exec sl now (Reserve_Write keys temps l mode) s = fst (reserve_write sl now keys temps l mode s)"
| "l1_exec sl now (Finish_Write keys) s = fst (finish_write now keys s)"
| "l1_exec sl now (Finish_Write_And_Reserve_Read keys n) s = fst (finish_write_and_reserve_read now keys n s)"
| "l1_exec sl now (Delete keys force) s = fst (delete_keys sl now keys force s)"
| "l1_exec sl now (Touch keys) s = touch_keys keys s"
| "l1_exec sl now (Clear force) s = clear_keys sl now force s"
| "l1_exec sl now Register_Listener s = register_listener s"
| "l1_exec sl now Close s = close_manager sl s"

text \<open>
  The calls a client may make: keys to write are distinct and their layout has a positive size.
\<close>

primrec op_ok :: "'k l1_op \<Rightarrow> bool" where
  "op_ok (Reserve_Write keys temps l mode) = (distinct keys \<and> layout_ok l)"
| "op_ok (Reserve_Read keys n) = True"
| "op_ok (Unsafe_Read keys) = True"
| "op_ok (Finish_Read keys n) = True"
| "op_ok (Finish_Write keys) = True"
| "op_ok (Finish_Write_And_Reserve_Read keys n) = True"
| "op_ok (Delete keys force) = True"
| "op_ok (Touch keys) = True"
| "op_ok (Clear force) = True"
| "op_ok Register_Listener = True"
| "op_ok Close = True"

primrec forced :: "'k l1_op \<Rightarrow> bool" where
  "forced (Delete keys force) = force"
| "forced (Clear force) = force"
| "forced Close = True"
| "forced (Reserve_Write keys temps l mode) = False"
| "forced (Reserve_Read keys n) = False"
| "forced (Unsafe_Read keys) = False"
| "forced (Finish_Read keys n) = False"
| "forced (Finish_Write keys) = False"
| "forced (Finish_Write_And_Reserve_Read keys n) = False"
| "forced (Touch keys) = False"
| "forced Register_Listener = False"

inductive l1_reach ::
  "sorted_list_ops \<Rightarrow> int \<Rightarrow> nat \<Rightarrow> int \<Rightarrow> int \<Rightarrow> int \<Rightarrow> 'k l1_manager \<Rightarrow> bool"
  for sl :: sorted_list_ops and sz :: int and k :: nat and wttl rttl :: int where
  init: "0 < sz \<Longrightarrow> l1_reach sl sz k wttl rttl 0 (l1_init sl sz (2 ^ k) wttl rttl)"
| step: "l1_reach sl sz k wttl rttl T s \<Longrightarrow> T \<le> now \<Longrightarrow> op_ok op \<Longrightarrow>
    l1_reach sl sz k wttl rttl now (l1_exec sl now op s)"

lemma l1_exec_inv:
  assumes "l1_inv sl now s" and "op_ok op"
  shows "l1_inv sl now (l1_exec sl now op s)"
  using assms
  by (cases op) (simp_all add: reserve_read_inv finish_read_inv reserve_write_inv finish_write_inv
      finish_write_and_reserve_read_inv delete_keys_inv clear_keys_inv close_manager_inv,
      auto simp: touch_keys_def register_listener_def Let_def elim!: l1_inv_frame)

lemma l1_reach_inv:
  assumes "l1_reach sl sz k wttl rttl T s" and "sorted_list_spec sl"
  shows "l1_inv sl T s"
  using assms
proof (induction rule: l1_reach.induct)
  case init
  then show ?case
    by (simp add: l1_inv_def l1_init_def objs_ok_def objs_mem_def ta_init_inv)
      (simp add: ta_init_def valid_ids_def)
next
  case (step T s now op)
  then show ?case by (intro l1_exec_inv l1_inv_later [OF _ step(2)])
qed

lemma l1_inv_mem:
  assumes "l1_inv sl T s" and "map_of (l1_objects s) k = Some e"
  shows "os_memory_obj e < length (ta_heap (l1_memory s)) \<and> mo_valid (ta_heap (l1_memory s) ! os_memory_obj e)"
proof -
  have "(k, e) \<in> set (l1_objects s)" using assms by (simp add: map_of_SomeD)
  then have "os_memory_obj e \<in> set (objs_mem (l1_objects s))" by (force simp: objs_mem_def)
  also have "\<dots> = set (valid_ids (ta_heap (l1_memory s)))"
    using assms(1) unfolding l1_inv_def by (metis mset_eq_setD)
  finally show ?thesis by (simp add: set_valid_ids)
qed

lemma l1_inv_mem_inj:
  assumes "l1_inv sl T s" and "map_of (l1_objects s) k = Some e" and "map_of (l1_objects s) k' = Some e'"
    and "k \<noteq> k'"
  shows "os_memory_obj e \<noteq> os_memory_obj e'"
proof
  assume eq: "os_memory_obj e = os_memory_obj e'"
  have "distinct (objs_mem (l1_objects s))"
    using assms(1) distinct_valid_ids unfolding l1_inv_def by (metis mset_eq_imp_distinct_iff)
  then have inj: "inj_on (os_memory_obj \<circ> snd) (set (l1_objects s))" by (simp add: objs_mem_def distinct_map)
  have "(k, e) \<in> set (l1_objects s)" "(k', e') \<in> set (l1_objects s)" using assms by (simp_all add: map_of_SomeD)
  with inj_onD [OF inj, of "(k, e)" "(k', e')"] eq assms(4) show False by simp
qed

text \<open>Which entries survive an operation.\<close>

lemma delete_keeps_locked:
  assumes "map_of objs k = Some e" and "entry_locked now e"
    and "foldl (delete_step now False) (objs, [], [], []) keys = (objs', ret, ok, fs)"
  shows "map_of objs' k = Some e"
  using foldl_inv [of "\<lambda>a. map_of (fst a) k = Some e" "(objs, [], [], [])" keys "delete_step now False"] assms
  by (force simp: Let_def entry_locked_def split: option.splits)

lemma reserve_write_keeps:
  assumes "map_of (l1_objects s) k = Some e" and "distinct keys" and "layout_ok l" and "l1_inv sl now s"
  shows "\<exists>e'. map_of (l1_objects (fst (reserve_write sl now keys temps l mode s))) k = Some e' \<and>
    os_memory_obj e' = os_memory_obj e"
proof -
  let ?a0 = "\<lparr>rw_objs = l1_objects s, rw_need = [], rw_ret = [], rw_ok = []\<rparr>"
  define a where "a = foldl (reserve_write_step now mode) ?a0 (zip keys temps)"
  have "objs_run (\<lambda>_. False) now (l1_objects s) (rw_objs a) []"
    unfolding a_def by (rule reserve_write_run) (simp add: objs_run.refl)
  then obtain e' where e': "map_of (rw_objs a) k = Some e'" "os_memory_obj e' = os_memory_obj e"
    using objs_run_survives [OF _ assms(1)] by blast
  have "distinct (map fst (zip keys temps))" using assms(2) by (simp add: map_fst_zip_take)
  then have need: "\<forall>k\<in>set (map fst (rw_need a)). map_of (rw_objs a) k = None"
    using reserve_write_need [of ?a0 "zip keys temps" now mode] by (auto simp: a_def)
  have new: "map_of (rw_objs (foldl (reserve_write_new now w r) b ps)) k = Some e'"
    if "k \<notin> set (map (fst \<circ> fst) ps)" "map_of (rw_objs b) k = Some e'" for w r ps b
    using that by (induction ps arbitrary: b) (auto simp: reserve_write_new_def split: prod.splits)
  have k: "k \<notin> set (map (fst \<circ> fst) (zip (rw_need a) ids))" for ids
    using need e'(1) by (auto dest!: set_zip_leftD)
  show ?thesis using e' new [OF k]
    by (auto simp: reserve_write_def Let_def a_def [symmetric] split: sum.splits prod.splits)
qed

lemma l1_exec_survives:
  assumes "l1_inv sl now s" and "op_ok op" and "\<not> forced op"
    and "map_of (l1_objects s) k = Some e" and "entry_locked now e" and "\<not> os_is_temporary e"
  shows "\<exists>e'. map_of (l1_objects (l1_exec sl now op s)) k = Some e' \<and> os_memory_obj e' = os_memory_obj e"
proof (cases op)
  case (Reserve_Read keys n)
  let ?f = "foldl (reserve_read_step now (nat (validate_read_locks n))) (l1_objects s, [], []) keys"
  obtain objs ret ok where f: "?f = (objs, ret, ok)" by (cases ?f) blast
  show ?thesis using objs_run_survives [OF reserve_read_run [OF f, of "\<lambda>_. False"] assms(4)]
    by (auto simp: Reserve_Read reserve_read_def f)
next
  case (Finish_Read keys n)
  let ?a = "\<lparr>fr_objs = l1_objects s, fr_ret = [], fr_ok = [], fr_free = [], fr_free_keys = []\<rparr>"
  have "objs_run os_is_temporary now (l1_objects s) (fr_objs ?a) (fr_free ?a)" by (simp add: objs_run.refl)
  from objs_run_survives [OF finish_read_run [OF this, of "nat (validate_read_locks n)" keys] assms(4)] assms(6)
  show ?thesis by (auto simp: Finish_Read finish_read_def Let_def)
next
  case (Reserve_Write keys temps l mode)
  then show ?thesis using reserve_write_keeps [OF assms(4) _ _ assms(1)] assms(2) by simp
next
  case (Finish_Write keys)
  let ?f = "foldl (finish_write_step now) (l1_objects s, [], [], []) keys"
  obtain objs ret ok oks where f: "?f = (objs, ret, ok, oks)" by (cases ?f) blast
  show ?thesis using objs_run_survives [OF finish_write_run [OF f, of "\<lambda>_. False"] assms(4)]
    by (auto simp: Finish_Write finish_write_def f)
next
  case (Finish_Write_And_Reserve_Read keys n)
  let ?f = "foldl (finish_write_and_reserve_read_step now (nat (validate_read_locks n))) (l1_objects s, [], [], []) keys"
  obtain objs ret ok oks where f: "?f = (objs, ret, ok, oks)" by (cases ?f) blast
  show ?thesis using objs_run_survives [OF finish_write_and_reserve_read_run [OF f, of "\<lambda>_. False"] assms(4)]
    by (auto simp: Finish_Write_And_Reserve_Read finish_write_and_reserve_read_def f)
next
  case (Delete keys force)
  let ?f = "foldl (delete_step now False) (l1_objects s, [], [], []) keys"
  obtain objs ret ok fs where f: "?f = (objs, ret, ok, fs)" by (cases ?f) blast
  show ?thesis using delete_keeps_locked [OF assms(4,5) f] assms(3) Delete f by (simp add: delete_keys_def)
next
  case (Clear force)
  have "dict_wf (l1_objects s)" using assms(1) by (simp add: l1_inv_def)
  with Clear assms show ?thesis by (simp add: clear_keys_unlocked(1) map_of_filter_wf)
qed (use assms in \<open>auto simp: touch_keys_def register_listener_def Let_def\<close>)

lemma l1_inv_usage:
  assumes "l1_inv sl T s"
  shows "fst (get_memory_usage s) =
    sum_list (map (\<lambda>p. mo_phy_size (ta_heap (l1_memory s) ! os_memory_obj (snd p))) (l1_objects s))"
proof -
  let ?h = "ta_heap (l1_memory s)"
  have ta: "ta_inv sl (l1_memory s)" and ms: "mset (objs_mem (l1_objects s)) = mset (valid_ids ?h)"
    using assms by (auto simp: l1_inv_def)
  have "filter mo_valid ?h = filter mo_valid (map (nth ?h) [0..<length ?h])" by (simp only: map_nth)
  then have "filter mo_valid ?h = map (nth ?h) (valid_ids ?h)" by (simp only: filter_map valid_ids_def comp_def)
  then have "am_total (ta_am (l1_memory s)) = sum_list (map (\<lambda>i. mo_phy_size (?h ! i)) (valid_ids ?h))"
    using ta_inv_total [OF ta] by (simp add: comp_def)
  also have "\<dots> = sum_list (map (\<lambda>i. mo_phy_size (?h ! i)) (objs_mem (l1_objects s)))"
    using arg_cong [OF ms, of "\<lambda>M. sum_mset (image_mset (\<lambda>i. mo_phy_size (?h ! i)) M)"]
    by (simp add: sum_mset_sum_list flip: mset_map)
  finally show ?thesis
    by (simp add: get_memory_usage_def mm_get_memory_usage_def Let_def get_free_size_def get_heap_size_def
        objs_mem_def comp_def)
qed

section \<open>Properties\<close>

text \<open>A concrete run, for the witnesses: key 7 is written at time 0 and finished at time 5.\<close>

definition demo_layout :: memory_layout where
  "demo_layout = \<lparr>ml_shapes = [[2, 1000]], ml_dtypes = [Dtype 2]\<rparr>"

definition demo_l1_0 :: "nat l1_manager" where
  "demo_l1_0 = l1_exec list_sl 0 Register_Listener (l1_init list_sl 16384 (2 ^ 12) 600 300)"

definition demo_l1_w :: "nat l1_manager" where
  "demo_l1_w = l1_exec list_sl 0 (Reserve_Write [7, 8] [False, True] demo_layout Mode_All) demo_l1_0"

definition demo_l1 :: "nat l1_manager" where
  "demo_l1 = l1_exec list_sl 5 (Finish_Write_And_Reserve_Read [7, 8] 2) demo_l1_w"

lemma demo_layout_ok: "layout_ok demo_layout"
  by (simp add: layout_ok_def demo_layout_def get_size_bytes_def numel_def)

lemma demo_l1_0_reach: "l1_reach list_sl 16384 12 600 300 0 demo_l1_0"
  unfolding demo_l1_0_def by (rule l1_reach.step [OF l1_reach.init]) simp_all

lemma demo_l1_w_reach: "l1_reach list_sl 16384 12 600 300 0 demo_l1_w"
  unfolding demo_l1_w_def by (rule l1_reach.step [OF demo_l1_0_reach]) (simp_all add: demo_layout_ok)

lemma demo_l1_reach: "l1_reach list_sl 16384 12 600 300 5 demo_l1"
  unfolding demo_l1_def by (rule l1_reach.step [OF demo_l1_w_reach]) simp_all

lemmas l1_eval = reserve_write_def reserve_write_step_def reserve_write_new_def new_object_state_def
  mm_allocate_def ta_batched_allocate_def Let_def lock_def unlock_def is_locked_def ttl_lock_new_def
  finish_write_and_reserve_read_def validate_read_locks_def MAX_READ_LOCK_COUNT_def
  publish_def notify_def register_listener_def l1_init_def available_for_read_def

lemma demo_l1_w_objects:
  "l1_objects demo_l1_w =
     [(7, new_object_state 0 600 300 0 False), (8, new_object_state 0 600 300 1 True)]"
  by (simp add: demo_l1_w_def demo_l1_0_def demo_layout_def l1_eval ta_eval numeral_2_eq_2)

lemma demo_l1_objects:
  "l1_objects demo_l1 =
     [(7, \<lparr>os_memory_obj = 0,
           os_write_lock = \<lparr>tl_counter = 0, tl_expiration_ms = 600000, tl_ttl_ms = 600000\<rparr>,
           os_read_lock = \<lparr>tl_counter = 2, tl_expiration_ms = 300005, tl_ttl_ms = 300000\<rparr>,
           os_is_temporary = False\<rparr>),
      (8, \<lparr>os_memory_obj = 1,
           os_write_lock = \<lparr>tl_counter = 0, tl_expiration_ms = 600000, tl_ttl_ms = 600000\<rparr>,
           os_read_lock = \<lparr>tl_counter = 2, tl_expiration_ms = 300005, tl_ttl_ms = 300000\<rparr>,
           os_is_temporary = True\<rparr>)]"
  by (simp add: demo_l1_def demo_l1_w_objects l1_eval eval_nat_numeral)

text \<open>
  The premise \<open>distinct keys\<close> of the runs is needed: a new key that a request names twice is
  allocated twice, the second entry replaces the first, and the first object is never freed.
\<close>

lemma duplicate_new_keys_leak:
  "let s = fst (reserve_write list_sl 0 [7, 7] [False, False] demo_layout Mode_All demo_l1_0)
   in map fst (l1_objects s) = [7] \<and> fst (get_memory_usage s) = 8192 \<and> mo_phy_size (ta_heap (l1_memory s) ! 1) = 4096"
  by (simp add: demo_l1_0_def demo_layout_def l1_eval ta_eval numeral_2_eq_2 get_memory_usage_def mm_get_memory_usage_def get_free_size_def
      get_heap_size_def)

text \<open>
  C8. In every run of an \<open>L1Manager\<close> in which each call of \<open>reserve_write\<close> names every key once
  and has a layout of positive size, forced deletions and the closing of the manager included,
  \<open>memcheck\<close> succeeds, the memory in use is exactly the sum of the physical sizes of the resident
  objects (nothing leaks), and the objects of two different keys never overlap in the buffer. A
  request that names a new key twice does leak, see \<open>duplicate_new_keys_leak\<close>.
\<close>

theorem l1_memory_exact:
  assumes "l1_reach sl sz k wttl rttl T s" and "sorted_list_spec sl"
  defines "obj e \<equiv> ta_heap (l1_memory s) ! os_memory_obj e"
  shows "l1_memcheck s \<and>
    fst (get_memory_usage s) = sum_list (map (mo_phy_size \<circ> obj \<circ> snd) (l1_objects s)) \<and>
    (\<forall>a ea b eb. get_object_state s a = Some ea \<and> get_object_state s b = Some eb \<and> a \<noteq> b \<longrightarrow>
       mo_address (obj ea) + mo_phy_size (obj ea) \<le> mo_address (obj eb) \<or>
       mo_address (obj eb) + mo_phy_size (obj eb) \<le> mo_address (obj ea))"
proof (intro conjI allI impI)
  have inv: "l1_inv sl T s" by (rule l1_reach_inv [OF assms(1,2)])
  then have ta: "ta_inv sl (l1_memory s)" by (simp add: l1_inv_def)
  show "l1_memcheck s" using ta_inv_memcheck [OF ta] by (simp add: l1_memcheck_def)
  show "fst (get_memory_usage s) = sum_list (map (mo_phy_size \<circ> obj \<circ> snd) (l1_objects s))"
    using l1_inv_usage [OF inv] by (simp add: obj_def comp_def)
  show "mo_address (obj ea) + mo_phy_size (obj ea) \<le> mo_address (obj eb) \<or>
      mo_address (obj eb) + mo_phy_size (obj eb) \<le> mo_address (obj ea)"
    if "get_object_state s a = Some ea \<and> get_object_state s b = Some eb \<and> a \<noteq> b" for a ea b eb
    unfolding obj_def
    using ta_inv_disjoint [OF ta] l1_inv_mem [OF inv, of a ea] l1_inv_mem [OF inv, of b eb]
      l1_inv_mem_inj [OF inv, of a ea b eb] that by (auto simp: get_object_state_def)
qed

theorem l1_memory_exact_witness:
  "l1_memcheck demo_l1 \<and>
   (let o7 = ta_heap (l1_memory demo_l1) ! 0; o8 = ta_heap (l1_memory demo_l1) ! 1
    in mo_address o7 + mo_phy_size o7 \<le> mo_address o8 \<or> mo_address o8 + mo_phy_size o8 \<le> mo_address o7)"
proof -
  note w = l1_memory_exact [OF demo_l1_reach list_sl_spec]
  show ?thesis
    using w [THEN conjunct1] w [THEN conjunct2, THEN conjunct2, rule_format, of 7 "snd (l1_objects demo_l1 ! 0)" 8 "snd (l1_objects demo_l1 ! 1)"]
    by (simp add: demo_l1_objects get_object_state_def Let_def)
qed

text \<open>
  C2. Readers and writers exclude each other: at no time from the last operation on is a
  resident key both write-locked and read-locked.
\<close>

theorem l1_reader_writer_exclusion:
  assumes "l1_reach sl sz k wttl rttl T s" and "sorted_list_spec sl"
    and "get_object_state s key = Some e" and "T \<le> t"
  shows "\<not> (is_locked t (os_write_lock e) \<and> is_locked t (os_read_lock e))"
  using l1_reach_inv [OF assms(1,2)] assms(3,4)
  by (auto simp: l1_inv_def objs_ok_def entry_ok_def get_object_state_def)

theorem l1_reader_writer_exclusion_witness:
  "is_locked 6 (os_read_lock (snd (l1_objects demo_l1 ! 0))) \<and>
   \<not> is_locked 6 (os_write_lock (snd (l1_objects demo_l1 ! 0)))"
  using l1_reader_writer_exclusion [OF demo_l1_reach list_sl_spec, of 7 "snd (l1_objects demo_l1 ! 0)" 6]
  by (simp add: demo_l1_objects get_object_state_def is_locked_def)

text \<open>
  C4. No operation short of a forced one takes the memory from under a reader or a writer: a
  key that is locked and not temporary is still resident afterwards, with the same memory
  object, and that object is still allocated.
\<close>

theorem l1_locked_objects_survive:
  assumes "l1_reach sl sz k wttl rttl T s" and "sorted_list_spec sl" and "T \<le> now"
    and "op_ok op" and "\<not> forced op"
    and "get_object_state s key = Some e" and "entry_locked now e" and "\<not> os_is_temporary e"
  shows "\<exists>e'. get_object_state (l1_exec sl now op s) key = Some e' \<and> os_memory_obj e' = os_memory_obj e \<and>
    mo_valid (ta_heap (l1_memory (l1_exec sl now op s)) ! os_memory_obj e)"
proof -
  have inv: "l1_inv sl now s" using l1_reach_inv [OF assms(1,2)] l1_inv_later assms(3) by blast
  obtain e' where e': "map_of (l1_objects (l1_exec sl now op s)) key = Some e'" "os_memory_obj e' = os_memory_obj e"
    using l1_exec_survives [OF inv assms(4,5)] assms(6-8) by (auto simp: get_object_state_def)
  with l1_inv_mem [OF l1_exec_inv [OF inv assms(4)] e'(1)] show ?thesis by (auto simp: get_object_state_def)
qed

theorem l1_locked_objects_survive_witness:
  "\<exists>e'. get_object_state (l1_exec list_sl 6 (Delete [7] False) demo_l1) 7 = Some e' \<and> os_memory_obj e' = 0"
  using l1_locked_objects_survive [OF demo_l1_reach list_sl_spec, of 6 "Delete [7] False" 7 "snd (l1_objects demo_l1 ! 0)"]
  by (simp add: demo_l1_objects get_object_state_def entry_locked_def is_locked_def) blast

text \<open>
  The last reader of a temporary object frees it: \<open>finish_read\<close> of a read-locked temporary
  key removes the key and releases its memory when the (clamped) number of released locks
  covers the count, and otherwise only lowers the count.
\<close>

theorem l1_last_reader_frees:
  fixes read_locks :: int
  assumes "l1_reach sl sz k wttl rttl T s" and "sorted_list_spec sl" and "T \<le> now"
    and "get_object_state s key = Some e" and "os_is_temporary e" and "is_locked now (os_read_lock e)"
  defines "n \<equiv> validate_read_locks read_locks" and "s' \<equiv> fst (finish_read sl now [key] read_locks s)"
  shows "snd (finish_read sl now [key] read_locks s) = [(key, SUCCESS)] \<and>
    (if tl_counter (os_read_lock e) \<le> n
     then get_object_state s' key = None \<and> \<not> mo_valid (ta_heap (l1_memory s') ! os_memory_obj e)
     else (\<exists>e'. get_object_state s' key = Some e' \<and> tl_counter (os_read_lock e') = tl_counter (os_read_lock e) - n) \<and>
          l1_memory s' = l1_memory s)"
proof -
  have inv: "l1_inv sl now s" using l1_reach_inv [OF assms(1,2)] l1_inv_later assms(3) by blast
  have e: "map_of (l1_objects s) key = Some e" using assms(4) by (simp add: get_object_state_def)
  have c: "0 \<le> tl_counter (os_read_lock e)" and w: "\<not> is_locked now (os_write_lock e)"
    using inv e assms(6) by (auto simp: l1_inv_def objs_ok_def entry_ok_def)
  have n1: "1 \<le> n" by (simp add: n_def validate_read_locks_def MAX_READ_LOCK_COUNT_def)
  note m = l1_inv_mem [OF inv e]
  have "os_memory_obj e \<notin> set (valid_ids (ta_heap (ta_batched_free sl (l1_memory s) [os_memory_obj e])))"
    using m by (simp add: ta_batched_free_valid)
  then have v: "\<not> mo_valid (ta_heap (ta_batched_free sl (l1_memory s) [os_memory_obj e]) ! os_memory_obj e)"
    using m by (simp add: set_valid_ids)
  show ?thesis using e w assms(5,6) c n1 v
    by (auto simp: s'_def n_def [symmetric] finish_read_def finish_read_step_def Let_def unlock_pow mm_free_def
        get_object_state_def is_locked_def)
qed

lemma reserve_write_single_new:
  assumes "reserve_write sl t [key] [tmp] l mode s = (s1, Inr ret)" and "map_of (l1_objects s) key = None"
    and "map_of ret key = Some (SUCCESS, Some m)"
  shows "l1_objects s1 = AList.update key (new_object_state t (l1_write_ttl_seconds s) (l1_read_ttl_seconds s) m tmp) (l1_objects s)"
proof -
  let ?m = "mm_allocate sl (l1_memory s) l 1"
  have u: "mode \<noteq> Mode_Update"
    using assms by (auto simp: reserve_write_def reserve_write_step_def fail_all_def)
  obtain ta r where mm: "?m = (ta, r)" by (cases ?m)
  obtain err objs where r: "r = Inr (err, objs)" using assms u mm
    by (cases r) (auto simp: reserve_write_def reserve_write_step_def Let_def)
  have "err = SUCCESS" using assms u mm r
    by (auto simp: reserve_write_def reserve_write_step_def Let_def fail_all_def split: if_splits)
  then show ?thesis using assms u mm r
    by (cases objs) (auto simp: reserve_write_def reserve_write_step_def reserve_write_new_def Let_def)
qed

text \<open>
  Write then read: once a new key has been reserved, it is not readable before
  \<open>finish_write\<close>; \<open>finish_write\<close> within the time to live succeeds, and from then on \<open>reserve_read\<close>
  returns the very object that \<open>reserve_write\<close> handed out.
\<close>

theorem l1_write_then_read:
  assumes "get_object_state s key = None" and "reserve_write sl t1 [key] [tmp] l mode s = (s1, Inr ret)"
    and "map_of ret key = Some (SUCCESS, Some m)" and "t1 \<le> t2" and "t2 < t1 + l1_write_ttl_seconds s * 1000"
    and "0 \<le> t1" and "t2 \<le> t3"
  shows "snd (reserve_read t2 [key] n s1) = [(key, (KEY_NOT_READABLE, None))] \<and>
    snd (finish_write t2 [key] s1) = [(key, SUCCESS)] \<and>
    snd (reserve_read t3 [key] n (fst (finish_write t2 [key] s1))) = [(key, (SUCCESS, Some m))]"
proof -
  have o: "map_of (l1_objects s1) key = Some (new_object_state t1 (l1_write_ttl_seconds s) (l1_read_ttl_seconds s) m tmp)"
    using reserve_write_single_new [OF assms(2) _ assms(3)] assms(1) by (simp add: get_object_state_def)
  then show ?thesis
    using assms(4-7) by (simp add: reserve_read_def finish_write_def available_for_read_def new_object_state_def
        lock_def unlock_def ttl_lock_new_def is_locked_def)
qed

end
