(* ===== verification/Eviction_Policy.thy ===== *)
theory Eviction_Policy
  imports L1_Manager Object_Key
begin

text \<open>
  \<^verbatim>\<open>lmcache/v1/distributed/eviction.py\<close> (the policy interface and the bridges to the two
  tiers) and \<^verbatim>\<open>lmcache/v1/distributed/eviction_policy/\<close>: \<open>LRUEvictionPolicy\<close>,
  \<open>IsolatedLRUEvictionPolicy\<close>, \<open>NoOpEvictionPolicy\<close> and the factory.

  An \<open>OrderedDict\<close> whose values are all \<open>None\<close> is the list of its keys, oldest first. A ratio is
  a float: the products are rounded by the parameter \<open>rnd\<close>.
\<close>

section \<open>Actions\<close>

datatype eviction_destination = DISCARD | L2_CACHE

record 'k eviction_action =
  ea_destination :: eviction_destination
  ea_keys :: "'k list"

definition eligible :: "('k \<Rightarrow> bool) option \<Rightarrow> 'k \<Rightarrow> bool" where
  "eligible key_eligible_filter key = (case key_eligible_filter of None \<Rightarrow> True | Some P \<Rightarrow> P key)"

text \<open>The loop that collects victims, with its break.\<close>

fun evict_loop :: "('k \<Rightarrow> bool) \<Rightarrow> nat \<Rightarrow> 'k list \<Rightarrow> 'k list \<Rightarrow> 'k list" where
  "evict_loop P target_count [] keys_to_evict = keys_to_evict"
| "evict_loop P target_count (key # pool) keys_to_evict =
     (if \<not> P key then evict_loop P target_count pool keys_to_evict
      else let acc = keys_to_evict @ [key]
           in if length acc \<ge> target_count then acc else evict_loop P target_count pool acc)"

definition target_count :: "(rat \<Rightarrow> rat) \<Rightarrow> nat \<Rightarrow> pyfloat \<Rightarrow> nat" where
  "target_count rnd n expected_ratio =
     (let r = max 0 (min 1 expected_ratio); t = nat \<lfloor>rnd (of_nat n * r)\<rfloor>
      in if r > 0 \<and> t = 0 \<and> n > 0 then 1 else t)"

section \<open>LRU\<close>

record 'k lru_policy =
  lru_order :: "'k list"
  lru_destinations :: "eviction_destination list"
  lru_default_destination :: eviction_destination

definition lru_init :: "eviction_destination \<Rightarrow> 'k lru_policy" where
  "lru_init d = \<lparr>lru_order = [], lru_destinations = [], lru_default_destination = d\<rparr>"

definition lru_register_destination :: "eviction_destination \<Rightarrow> 'k lru_policy \<Rightarrow> 'k lru_policy" where
  "lru_register_destination d p =
     (if d \<notin> set (lru_destinations p) then p\<lparr>lru_destinations := lru_destinations p @ [d]\<rparr> else p)"

definition order_created :: "'k \<Rightarrow> 'k list \<Rightarrow> 'k list" where
  "order_created key order = (if key \<in> set order then move_to_end key order else order @ [key])"

definition order_touched :: "'k \<Rightarrow> 'k list \<Rightarrow> 'k list" where
  "order_touched key order = (if key \<in> set order then move_to_end key order else order)"

definition order_removed :: "'k \<Rightarrow> 'k list \<Rightarrow> 'k list" where
  "order_removed key order = (if key \<in> set order then remove1 key order else order)"

definition lru_on_keys_created :: "'k list \<Rightarrow> 'k lru_policy \<Rightarrow> 'k lru_policy" where
  "lru_on_keys_created keys p =
     (if keys = [] then p else p\<lparr>lru_order := foldl (\<lambda>order key. order_created key order) (lru_order p) (rev keys)\<rparr>)"

definition lru_on_keys_touched :: "'k list \<Rightarrow> 'k lru_policy \<Rightarrow> 'k lru_policy" where
  "lru_on_keys_touched keys p =
     (if keys = [] then p else p\<lparr>lru_order := foldl (\<lambda>order key. order_touched key order) (lru_order p) (rev keys)\<rparr>)"

definition lru_on_keys_removed :: "'k list \<Rightarrow> 'k lru_policy \<Rightarrow> 'k lru_policy" where
  "lru_on_keys_removed keys p =
     (if keys = [] then p else p\<lparr>lru_order := foldl (\<lambda>order key. order_removed key order) (lru_order p) keys\<rparr>)"

definition select_destination :: "eviction_destination list \<Rightarrow> eviction_destination \<Rightarrow> eviction_destination" where
  "select_destination ds d = (case ds of [] \<Rightarrow> d | d' # _ \<Rightarrow> d')"

definition lru_get_eviction_actions ::
  "(rat \<Rightarrow> rat) \<Rightarrow> pyfloat \<Rightarrow> ('k \<Rightarrow> bool) option \<Rightarrow> string option \<Rightarrow> 'k lru_policy \<Rightarrow> 'k eviction_action list" where
  "lru_get_eviction_actions rnd expected_ratio key_eligible_filter salt p =
     (if lru_order p = [] then []
      else let t = target_count rnd (length (lru_order p)) expected_ratio
           in if t = 0 then []
              else let keys_to_evict = evict_loop (eligible key_eligible_filter) t (lru_order p) []
                   in if keys_to_evict = [] then []
                      else [\<lparr>ea_destination = select_destination (lru_destinations p) (lru_default_destination p),
                             ea_keys = keys_to_evict\<rparr>])"

definition lru_get_num_tracked_keys :: "'k lru_policy \<Rightarrow> nat" where
  "lru_get_num_tracked_keys p = length (lru_order p)"

text \<open>\<open>get_eviction_candidates\<close> tests the bound after appending, so it returns one key for a bound of 0.\<close>

fun candidates_loop :: "int \<Rightarrow> 'k list \<Rightarrow> 'k list \<Rightarrow> 'k list" where
  "candidates_loop cnt [] candidates = candidates"
| "candidates_loop cnt (key # pool) candidates =
     (let acc = candidates @ [key] in if int (length acc) \<ge> cnt then acc else candidates_loop cnt pool acc)"

definition lru_get_eviction_candidates :: "int \<Rightarrow> 'k lru_policy \<Rightarrow> 'k list" where
  "lru_get_eviction_candidates cnt p = candidates_loop cnt (lru_order p) []"

section \<open>IsolatedLRU\<close>

record iso_policy =
  iso_per_salt_order :: "(string, object_key list) pydict"
  iso_destinations :: "eviction_destination list"
  iso_default_destination :: eviction_destination

definition iso_init :: "eviction_destination \<Rightarrow> iso_policy" where
  "iso_init d = \<lparr>iso_per_salt_order = [], iso_destinations = [], iso_default_destination = d\<rparr>"

definition iso_register_destination :: "eviction_destination \<Rightarrow> iso_policy \<Rightarrow> iso_policy" where
  "iso_register_destination d p =
     (if d \<notin> set (iso_destinations p) then p\<lparr>iso_destinations := iso_destinations p @ [d]\<rparr> else p)"

definition iso_created_step ::
  "(string, object_key list) pydict \<Rightarrow> object_key \<Rightarrow> (string, object_key list) pydict" where
  "iso_created_step orders key =
     (case dict_get orders (cache_salt key) of
        None \<Rightarrow> dict_set (cache_salt key) (order_created key []) orders
      | Some order \<Rightarrow> dict_set (cache_salt key) (order_created key order) orders)"

definition iso_touched_step ::
  "(string, object_key list) pydict \<Rightarrow> object_key \<Rightarrow> (string, object_key list) pydict" where
  "iso_touched_step orders key =
     (case dict_get orders (cache_salt key) of
        None \<Rightarrow> orders
      | Some order \<Rightarrow> dict_set (cache_salt key) (order_touched key order) orders)"

definition iso_removed_step ::
  "(string, object_key list) pydict \<Rightarrow> object_key \<Rightarrow> (string, object_key list) pydict" where
  "iso_removed_step orders key =
     (case dict_get orders (cache_salt key) of
        None \<Rightarrow> orders
      | Some order \<Rightarrow>
          let order' = order_removed key order
          in if order' = [] then dict_del (cache_salt key) orders
             else dict_set (cache_salt key) order' orders)"

definition iso_on_keys_created :: "object_key list \<Rightarrow> iso_policy \<Rightarrow> iso_policy" where
  "iso_on_keys_created keys p =
     (if keys = [] then p
      else p\<lparr>iso_per_salt_order := foldl iso_created_step (iso_per_salt_order p) (rev keys)\<rparr>)"

definition iso_on_keys_touched :: "object_key list \<Rightarrow> iso_policy \<Rightarrow> iso_policy" where
  "iso_on_keys_touched keys p =
     (if keys = [] then p
      else p\<lparr>iso_per_salt_order := foldl iso_touched_step (iso_per_salt_order p) (rev keys)\<rparr>)"

definition iso_on_keys_removed :: "object_key list \<Rightarrow> iso_policy \<Rightarrow> iso_policy" where
  "iso_on_keys_removed keys p =
     (if keys = [] then p
      else p\<lparr>iso_per_salt_order := foldl iso_removed_step (iso_per_salt_order p) keys\<rparr>)"

definition iso_get_eviction_actions ::
  "(rat \<Rightarrow> rat) \<Rightarrow> pyfloat \<Rightarrow> (object_key \<Rightarrow> bool) option \<Rightarrow> string option \<Rightarrow> iso_policy
     \<Rightarrow> object_key eviction_action list result" where
  "iso_get_eviction_actions rnd expected_ratio key_eligible_filter salt p =
     (case salt of
        None \<Rightarrow> Inl ValueError
      | Some s \<Rightarrow>
          let pool = (case dict_get (iso_per_salt_order p) s of None \<Rightarrow> [] | Some order \<Rightarrow> order)
          in Inr (if pool = [] then []
             else let t = target_count rnd (length pool) expected_ratio
                  in if t = 0 then []
                     else let keys_to_evict = evict_loop (eligible key_eligible_filter) t pool []
                          in if keys_to_evict = [] then []
                             else [\<lparr>ea_destination = select_destination (iso_destinations p) (iso_default_destination p),
                                    ea_keys = keys_to_evict\<rparr>]))"

definition iso_get_num_tracked_keys :: "string option \<Rightarrow> iso_policy \<Rightarrow> nat" where
  "iso_get_num_tracked_keys salt p =
     (case salt of
        Some s \<Rightarrow> (case dict_get (iso_per_salt_order p) s of Some order \<Rightarrow> length order | None \<Rightarrow> 0)
      | None \<Rightarrow> sum_list (map length (dict_values (iso_per_salt_order p))))"

definition iso_get_tracked_salts :: "iso_policy \<Rightarrow> string list" where
  "iso_get_tracked_salts p = dict_keys (iso_per_salt_order p)"

definition iso_capture :: "iso_policy \<Rightarrow> (string, encoded_key list) pydict" where
  "iso_capture p = map (\<lambda>(s, order). (s, map encode_key order)) (iso_per_salt_order p)"

text \<open>\<open>OrderedDict\<close> of a sequence of pairs keeps the first position of a repeated key.\<close>

definition iso_restore :: "(string, encoded_key list) pydict \<Rightarrow> iso_policy \<Rightarrow> iso_policy result" where
  "iso_restore buckets p =
     (case sequence_results (map (\<lambda>(s, ordered).
          (case sequence_results (map decode_key ordered) of
             Inl e \<Rightarrow> Inl e
           | Inr keys \<Rightarrow> Inr (s, foldl (\<lambda>d key. if key \<in> set d then d else d @ [key]) [] keys))) buckets) of
        Inl e \<Rightarrow> Inl e
      | Inr orders \<Rightarrow> Inr (p\<lparr>iso_per_salt_order := orders\<rparr>))"

section \<open>NoOp, the factory and the bridges\<close>

definition noop_get_eviction_actions ::
  "pyfloat \<Rightarrow> ('k \<Rightarrow> bool) option \<Rightarrow> string option \<Rightarrow> 'k eviction_action list" where
  "noop_get_eviction_actions expected_ratio key_eligible_filter salt = []"

datatype policy = LRU "object_key lru_policy" | IsolatedLRU iso_policy | NoOp

definition CreateEvictionPolicy :: "string \<Rightarrow> policy result" where
  "CreateEvictionPolicy eviction_policy =
     (if eviction_policy = ''LRU'' then Inr (LRU (lru_init DISCARD))
      else if eviction_policy = ''IsolatedLRU'' then Inr (IsolatedLRU (iso_init DISCARD))
      else if eviction_policy = ''noop'' then Inr NoOp
      else Inl ValueError)"

primrec support_isolation :: "policy \<Rightarrow> bool" where
  "support_isolation (LRU p) = False"
| "support_isolation (IsolatedLRU p) = True"
| "support_isolation NoOp = False"

primrec on_keys_created :: "object_key list \<Rightarrow> policy \<Rightarrow> policy" where
  "on_keys_created keys (LRU p) = LRU (lru_on_keys_created keys p)"
| "on_keys_created keys (IsolatedLRU p) = IsolatedLRU (iso_on_keys_created keys p)"
| "on_keys_created keys NoOp = NoOp"

primrec on_keys_touched :: "object_key list \<Rightarrow> policy \<Rightarrow> policy" where
  "on_keys_touched keys (LRU p) = LRU (lru_on_keys_touched keys p)"
| "on_keys_touched keys (IsolatedLRU p) = IsolatedLRU (iso_on_keys_touched keys p)"
| "on_keys_touched keys NoOp = NoOp"

primrec on_keys_removed :: "object_key list \<Rightarrow> policy \<Rightarrow> policy" where
  "on_keys_removed keys (LRU p) = LRU (lru_on_keys_removed keys p)"
| "on_keys_removed keys (IsolatedLRU p) = IsolatedLRU (iso_on_keys_removed keys p)"
| "on_keys_removed keys NoOp = NoOp"

definition get_eviction_actions ::
  "(rat \<Rightarrow> rat) \<Rightarrow> pyfloat \<Rightarrow> (object_key \<Rightarrow> bool) option \<Rightarrow> string option \<Rightarrow> policy
     \<Rightarrow> object_key eviction_action list result" where
  "get_eviction_actions rnd expected_ratio key_eligible_filter salt pol =
     (case pol of
        LRU p \<Rightarrow> Inr (lru_get_eviction_actions rnd expected_ratio key_eligible_filter salt p)
      | IsolatedLRU p \<Rightarrow> iso_get_eviction_actions rnd expected_ratio key_eligible_filter salt p
      | NoOp \<Rightarrow> Inr (noop_get_eviction_actions expected_ratio key_eligible_filter salt))"

text \<open>\<open>L1EvictionPolicy\<close>: which calls of the manager reach the policy.\<close>

fun l1_bridge :: "policy \<Rightarrow> object_key l1_note \<Rightarrow> policy" where
  "l1_bridge p (Keys_Write_Finished keys) = on_keys_created keys p"
| "l1_bridge p (Keys_Finish_Write_And_Reserve_Read keys) = on_keys_created keys p"
| "l1_bridge p (Keys_Deleted_By_Manager keys) = on_keys_removed keys p"
| "l1_bridge p (Keys_Accessed keys) = on_keys_touched keys p"
| "l1_bridge p (Keys_Reserved_Read keys) = p"
| "l1_bridge p (Keys_Read_Finished keys) = p"
| "l1_bridge p (Keys_Reserved_Write keys) = p"

datatype l2_note =
    L2_Keys_Stored "object_key list" "int list"
  | L2_Keys_Accessed "object_key list"
  | L2_Keys_Deleted "object_key list"

fun l2_bridge :: "policy \<Rightarrow> l2_note \<Rightarrow> policy" where
  "l2_bridge p (L2_Keys_Stored keys sizes) = on_keys_created keys p"
| "l2_bridge p (L2_Keys_Accessed keys) = on_keys_touched keys p"
| "l2_bridge p (L2_Keys_Deleted keys) = on_keys_removed keys p"

section \<open>Recency orders\<close>

lemma evict_loop_eq:
  "length acc < t \<Longrightarrow> evict_loop P t pool acc = acc @ take (t - length acc) (filter P pool)"
  by (induction P t pool acc rule: evict_loop.induct) (auto simp: Let_def take_Cons' not_less_eq_eq)

lemma candidates_loop_eq:
  "int (length acc) < cnt \<Longrightarrow> candidates_loop cnt pool acc = acc @ take (nat cnt - length acc) pool"
  by (induction cnt pool acc rule: candidates_loop.induct) (auto simp: Let_def take_Cons' nat_diff_distrib)

lemma order_ops_set [simp]:
  "set (order_created k xs) = insert k (set xs)"
  "set (order_touched k xs) = set xs"
  "distinct xs \<Longrightarrow> set (order_removed k xs) = set xs - {k}"
  by (auto simp: order_created_def order_touched_def order_removed_def)

lemma order_ops_distinct [simp]:
  "distinct xs \<Longrightarrow> distinct (order_created k xs)"
  "distinct xs \<Longrightarrow> distinct (order_touched k xs)"
  "distinct xs \<Longrightarrow> distinct (order_removed k xs)"
  by (auto simp: order_created_def order_touched_def order_removed_def)

lemma created_append:
  assumes "distinct xs" and "k \<notin> set ys"
  shows "order_created k (xs @ ys) = filter (\<lambda>x. x \<noteq> k) xs @ ys @ [k]"
proof (cases "k \<in> set xs")
  case True
  then show ?thesis using assms
    by (simp add: order_created_def move_to_end_def remove1_append distinct_remove1_removeAll removeAll_filter_not_eq)
      (metis)
next
  case False
  then show ?thesis using assms by (simp add: order_created_def) (metis (mono_tags, lifting) filter_True)
qed

lemma foldl_created:
  assumes "distinct xs" and "distinct ks"
  shows "foldl (\<lambda>order key. order_created key order) xs ks = filter (\<lambda>x. x \<notin> set ks) xs @ ks"
  using assms(2)
proof (induction ks rule: rev_induct)
  case (snoc k ks)
  have "foldl (\<lambda>order key. order_created key order) xs (ks @ [k]) = order_created k (filter (\<lambda>x. x \<notin> set ks) xs @ ks)"
    using snoc by simp
  also have "\<dots> = filter (\<lambda>x. x \<noteq> k) (filter (\<lambda>x. x \<notin> set ks) xs) @ ks @ [k]"
    using snoc.prems assms(1) by (intro created_append) auto
  also have "filter (\<lambda>x. x \<noteq> k) (filter (\<lambda>x. x \<notin> set ks) xs) = filter (\<lambda>x. x \<notin> set (ks @ [k])) xs"
    by (auto intro!: filter_cong)
  finally show ?case by simp
qed simp

section \<open>The contract of a policy\<close>

datatype 'k policy_call = Created "'k list" | Touched "'k list" | Removed "'k list"

text \<open>The keys a faithful policy may track after a call.\<close>

primrec call_keys :: "'k set \<Rightarrow> 'k policy_call \<Rightarrow> 'k set" where
  "call_keys R (Created ks) = R \<union> set ks"
| "call_keys R (Touched ks) = R"
| "call_keys R (Removed ks) = R - set ks"

locale policy_contract =
  fixes inv :: "'p \<Rightarrow> bool" and tracked :: "'p \<Rightarrow> 'k set"
    and created :: "'k list \<Rightarrow> 'p \<Rightarrow> 'p" and touched :: "'k list \<Rightarrow> 'p \<Rightarrow> 'p" and removed :: "'k list \<Rightarrow> 'p \<Rightarrow> 'p"
  assumes created_law: "inv p \<Longrightarrow> inv (created ks p) \<and> tracked (created ks p) \<subseteq> tracked p \<union> set ks"
    and touched_law: "inv p \<Longrightarrow> inv (touched ks p) \<and> tracked (touched ks p) \<subseteq> tracked p"
    and removed_law: "inv p \<Longrightarrow> inv (removed ks p) \<and> tracked (removed ks p) \<subseteq> tracked p - set ks"
begin

primrec run_call :: "'p \<Rightarrow> 'k policy_call \<Rightarrow> 'p" where
  "run_call p (Created ks) = created ks p"
| "run_call p (Touched ks) = touched ks p"
| "run_call p (Removed ks) = removed ks p"

lemma run_call_law: "inv p \<Longrightarrow> inv (run_call p c) \<and> tracked (run_call p c) \<subseteq> call_keys (tracked p) c"
  using created_law touched_law removed_law by (cases c) auto

lemma call_keys_mono: "R \<subseteq> R' \<Longrightarrow> call_keys R c \<subseteq> call_keys R' c"
  by (cases c) auto

lemma run_tracked:
  assumes "inv p" and "tracked p \<subseteq> R"
  shows "inv (foldl run_call p cs) \<and> tracked (foldl run_call p cs) \<subseteq> foldl call_keys R cs"
  using assms
proof (induction cs arbitrary: p R)
  case (Cons c cs)
  have "inv (run_call p c)" using run_call_law Cons.prems by blast
  moreover have "tracked (run_call p c) \<subseteq> call_keys R c"
    using run_call_law [OF Cons.prems(1), of c] call_keys_mono [OF Cons.prems(2), of c] by blast
  ultimately show ?case using Cons.IH [of "run_call p c" "call_keys R c"] by simp
qed simp

end

definition lru_inv :: "'k lru_policy \<Rightarrow> bool" where
  "lru_inv p \<longleftrightarrow> distinct (lru_order p)"

lemma foldl_order_created: "distinct xs \<Longrightarrow> distinct (foldl (\<lambda>xs k. order_created k xs) xs ks) \<and>
    set (foldl (\<lambda>xs k. order_created k xs) xs ks) = set xs \<union> set ks"
  by (induction ks arbitrary: xs) auto

lemma foldl_order_touched: "distinct xs \<Longrightarrow> distinct (foldl (\<lambda>xs k. order_touched k xs) xs ks) \<and>
    set (foldl (\<lambda>xs k. order_touched k xs) xs ks) = set xs"
  by (induction ks arbitrary: xs) auto

lemma foldl_order_removed: "distinct xs \<Longrightarrow> distinct (foldl (\<lambda>xs k. order_removed k xs) xs ks) \<and>
    set (foldl (\<lambda>xs k. order_removed k xs) xs ks) = set xs - set ks"
  by (induction ks arbitrary: xs) auto

interpretation lru: policy_contract lru_inv "\<lambda>p. set (lru_order p)"
    lru_on_keys_created lru_on_keys_touched lru_on_keys_removed
  by unfold_locales
    (auto simp: lru_inv_def lru_on_keys_created_def lru_on_keys_touched_def lru_on_keys_removed_def
      foldl_order_created foldl_order_touched foldl_order_removed)

section \<open>Buckets\<close>

definition bucket :: "iso_policy \<Rightarrow> string \<Rightarrow> object_key list" where
  "bucket p s = dict_get_default (iso_per_salt_order p) s []"

definition salt_of :: "string \<Rightarrow> object_key list \<Rightarrow> object_key list" where
  "salt_of s keys = filter (\<lambda>k. cache_salt k = s) keys"

lemma order_removed_Nil [simp]: "order_removed k [] = []" "order_touched k [] = []"
  by (simp_all add: order_removed_def order_touched_def)

lemma iso_steps_bucket:
  "dict_get_default (iso_created_step d k) s [] =
     (if cache_salt k = s then order_created k (dict_get_default d s []) else dict_get_default d s [])"
  "dict_get_default (iso_touched_step d k) s [] =
     (if cache_salt k = s then order_touched k (dict_get_default d s []) else dict_get_default d s [])"
  "dict_get_default (iso_removed_step d k) s [] =
     (if cache_salt k = s then order_removed k (dict_get_default d s []) else dict_get_default d s [])"
  by (auto simp: iso_created_step_def iso_touched_step_def iso_removed_step_def dict_get_default_def Let_def
      split: option.splits)

lemma iso_foldl_bucket:
  "dict_get_default (foldl iso_created_step d ks) s [] =
     foldl (\<lambda>xs k. order_created k xs) (dict_get_default d s []) (salt_of s ks)"
  "dict_get_default (foldl iso_touched_step d ks) s [] =
     foldl (\<lambda>xs k. order_touched k xs) (dict_get_default d s []) (salt_of s ks)"
  "dict_get_default (foldl iso_removed_step d ks) s [] =
     foldl (\<lambda>xs k. order_removed k xs) (dict_get_default d s []) (salt_of s ks)"
  by (induction ks arbitrary: d) (simp_all add: salt_of_def iso_steps_bucket)

lemma salt_of_rev: "salt_of s (rev ks) = rev (salt_of s ks)"
  by (simp add: salt_of_def rev_filter)

lemma iso_bucket_ops:
  "bucket (iso_on_keys_created ks p) s = foldl (\<lambda>xs k. order_created k xs) (bucket p s) (rev (salt_of s ks))"
  "bucket (iso_on_keys_touched ks p) s = foldl (\<lambda>xs k. order_touched k xs) (bucket p s) (rev (salt_of s ks))"
  "bucket (iso_on_keys_removed ks p) s = foldl (\<lambda>xs k. order_removed k xs) (bucket p s) (salt_of s ks)"
  by (simp_all add: bucket_def iso_on_keys_created_def iso_on_keys_touched_def iso_on_keys_removed_def
      iso_foldl_bucket salt_of_rev) (simp_all add: salt_of_def)

definition iso_inv :: "iso_policy \<Rightarrow> bool" where
  "iso_inv p \<longleftrightarrow> (\<forall>s. distinct (bucket p s) \<and> (\<forall>k\<in>set (bucket p s). cache_salt k = s))"

definition iso_tracked :: "iso_policy \<Rightarrow> object_key set" where
  "iso_tracked p = {k. k \<in> set (bucket p (cache_salt k))}"

interpretation iso: policy_contract iso_inv iso_tracked iso_on_keys_created iso_on_keys_touched iso_on_keys_removed
  by unfold_locales
    (auto simp: iso_inv_def iso_tracked_def iso_bucket_ops foldl_order_created foldl_order_touched
      foldl_order_removed salt_of_def)

primrec policy_inv :: "policy \<Rightarrow> bool" where
  "policy_inv (LRU p) = lru_inv p"
| "policy_inv (IsolatedLRU p) = iso_inv p"
| "policy_inv NoOp = True"

primrec policy_tracked :: "policy \<Rightarrow> object_key set" where
  "policy_tracked (LRU p) = set (lru_order p)"
| "policy_tracked (IsolatedLRU p) = iso_tracked p"
| "policy_tracked NoOp = {}"

interpretation pol: policy_contract policy_inv policy_tracked on_keys_created on_keys_touched on_keys_removed
proof unfold_locales
  fix p ks
  assume "policy_inv p"
  then show "policy_inv (on_keys_created ks p) \<and> policy_tracked (on_keys_created ks p) \<subseteq> policy_tracked p \<union> set ks"
    using lru.created_law iso.created_law by (cases p) auto
next
  fix p ks
  assume "policy_inv p"
  then show "policy_inv (on_keys_touched ks p) \<and> policy_tracked (on_keys_touched ks p) \<subseteq> policy_tracked p"
    using lru.touched_law iso.touched_law by (cases p) auto
next
  fix p ks
  assume "policy_inv p"
  then show "policy_inv (on_keys_removed ks p) \<and> policy_tracked (on_keys_removed ks p) \<subseteq> policy_tracked p - set ks"
    using lru.removed_law iso.removed_law by (cases p) auto
qed

section \<open>The policy follows the manager\<close>

primrec note_calls :: "'k l1_note \<Rightarrow> 'k policy_call list" where
  "note_calls (Keys_Write_Finished keys) = [Created keys]"
| "note_calls (Keys_Finish_Write_And_Reserve_Read keys) = [Created keys]"
| "note_calls (Keys_Deleted_By_Manager keys) = [Removed keys]"
| "note_calls (Keys_Accessed keys) = [Touched keys]"
| "note_calls (Keys_Reserved_Read keys) = []"
| "note_calls (Keys_Read_Finished keys) = []"
| "note_calls (Keys_Reserved_Write keys) = []"

definition inbox_calls :: "'k l1_note list \<Rightarrow> 'k policy_call list" where
  "inbox_calls ns = concat (map note_calls ns)"

lemma l1_bridge_calls: "foldl l1_bridge p ns = foldl pol.run_call p (inbox_calls ns)"
proof (induction ns arbitrary: p)
  case (Cons n ns)
  then show ?case by (cases n) (simp_all add: inbox_calls_def)
qed (simp add: inbox_calls_def)

abbreviation resident :: "'k l1_manager \<Rightarrow> 'k set" where
  "resident s \<equiv> dict_dom (l1_objects s)"

text \<open>
  One operation is covered when the calls it makes to the listeners account for every key
  that leaves, and announce only keys that are resident.
\<close>

definition covered :: "'k l1_manager \<Rightarrow> 'k l1_manager \<Rightarrow> bool" where
  "covered s s' \<longleftrightarrow> (\<exists>ns. l1_listeners s' = map (\<lambda>i. i @ ns) (l1_listeners s) \<and>
     foldl call_keys (resident s) (inbox_calls ns) \<subseteq> resident s')"

lemma coveredI:
  "l1_listeners s' = map (\<lambda>i. i @ ns) (l1_listeners s) \<Longrightarrow>
     foldl call_keys (resident s) (inbox_calls ns) \<subseteq> resident s' \<Longrightarrow> covered s s'"
  by (auto simp: covered_def)

lemma objs_run_same_keys:
  "objs_run (\<lambda>_. False) now o1 o2 fs \<Longrightarrow> dict_dom o2 = dict_dom o1"
proof (induction rule: objs_run.induct)
  case (upd o2 fs k e e')
  then have "k \<in> dict_dom o2" unfolding dict_dom_iff by simp
  with upd(4) show ?case by auto
qed auto

lemma reserve_read_covered: "covered s (fst (reserve_read now keys n s))"
proof -
  let ?f = "foldl (reserve_read_step now (nat (validate_read_locks n))) (l1_objects s, [], []) keys"
  obtain objs ret ok where f: "?f = (objs, ret, ok)" by (cases ?f) blast
  show ?thesis using objs_run_same_keys [OF reserve_read_run [OF f]]
    by (intro coveredI [where ns = "[Keys_Reserved_Read ok]"]) (simp_all add: reserve_read_def f inbox_calls_def)
qed

lemma finish_write_covered: "covered s (fst (finish_write now keys s))"
proof -
  let ?f = "foldl (finish_write_step now) (l1_objects s, [], [], []) keys"
  obtain objs ret ok oks where f: "?f = (objs, ret, ok, oks)" by (cases ?f) blast
  have "set (fst (snd (snd ?f))) \<subseteq> dict_dom (fst ?f) \<and> resident s \<subseteq> dict_dom (fst ?f)"
    apply (rule foldl_inv [of "\<lambda>a. set (fst (snd (snd a))) \<subseteq> dict_dom (fst a) \<and> resident s \<subseteq> dict_dom (fst a)"])
    subgoal by simp
    subgoal for a x by (cases a) (auto split: option.splits)
    done
  then show ?thesis
    by (intro coveredI [where ns = "[Keys_Write_Finished ok]"]) (simp_all add: finish_write_def f inbox_calls_def)
qed

lemma finish_write_and_reserve_read_covered: "covered s (fst (finish_write_and_reserve_read now keys n s))"
proof -
  let ?f = "foldl (finish_write_and_reserve_read_step now (nat (validate_read_locks n))) (l1_objects s, [], [], []) keys"
  obtain objs ret ok oks where f: "?f = (objs, ret, ok, oks)" by (cases ?f) blast
  have "set (fst (snd (snd ?f))) \<subseteq> dict_dom (fst ?f) \<and> resident s \<subseteq> dict_dom (fst ?f)"
    apply (rule foldl_inv [of "\<lambda>a. set (fst (snd (snd a))) \<subseteq> dict_dom (fst a) \<and> resident s \<subseteq> dict_dom (fst a)"])
    subgoal by simp
    subgoal for a x by (cases a) (auto split: option.splits)
    done
  then show ?thesis
    by (intro coveredI [where ns = "[Keys_Finish_Write_And_Reserve_Read ok]"])
      (simp_all add: finish_write_and_reserve_read_def f inbox_calls_def)
qed

lemma delete_keys_covered: "covered s (fst (delete_keys sl now keys force s))"
proof -
  let ?f = "foldl (delete_step now force) (l1_objects s, [], [], []) keys"
  obtain objs ret ok fs where f: "?f = (objs, ret, ok, fs)" by (cases ?f) blast
  have "resident s - set (fst (snd (snd ?f))) \<subseteq> dict_dom (fst ?f)"
    apply (rule foldl_inv [of "\<lambda>a. resident s - set (fst (snd (snd a))) \<subseteq> dict_dom (fst a)"])
    subgoal by simp
    subgoal for a x by (cases a) (auto simp: Let_def split: option.splits)
    done
  then show ?thesis
    by (intro coveredI [where ns = "[Keys_Deleted_By_Manager ok]"]) (simp_all add: delete_keys_def f inbox_calls_def)
qed

lemma finish_read_covered: "covered s (fst (finish_read sl now keys n s))"
proof -
  let ?a0 = "\<lparr>fr_objs = l1_objects s, fr_ret = [], fr_ok = [], fr_free = [], fr_free_keys = []\<rparr>"
  define a where "a = foldl (finish_read_step now (nat (validate_read_locks n))) ?a0 keys"
  have "resident s - set (fr_free_keys a) \<subseteq> dict_dom (fr_objs a)"
    unfolding a_def
    by (rule foldl_inv [of "\<lambda>a. resident s - set (fr_free_keys a) \<subseteq> dict_dom (fr_objs a)"])
      (auto simp: finish_read_step_def Let_def split: option.splits)
  then show ?thesis
    by (intro coveredI [where ns = "[Keys_Read_Finished (fr_ok a), Keys_Deleted_By_Manager (fr_free_keys a)]"])
      (simp_all add: finish_read_def Let_def a_def [symmetric] inbox_calls_def)
qed

lemma reserve_write_new_keys: "dict_dom (rw_objs a) \<subseteq> dict_dom (rw_objs (foldl (reserve_write_new now w r) a ps))"
  by (rule foldl_inv [of "\<lambda>b. dict_dom (rw_objs a) \<subseteq> dict_dom (rw_objs b)"])
    (auto simp: reserve_write_new_def split: prod.splits)

lemma reserve_write_covered: "covered s (fst (reserve_write sl now keys temps l mode s))"
proof -
  let ?a0 = "\<lparr>rw_objs = l1_objects s, rw_need = [], rw_ret = [], rw_ok = []\<rparr>"
  define a where "a = foldl (reserve_write_step now mode) ?a0 (zip keys temps)"
  let ?s' = "fst (reserve_write sl now keys temps l mode s)"
  have "objs_run (\<lambda>_. False) now (l1_objects s) (rw_objs a) []"
    unfolding a_def by (rule reserve_write_run) (simp add: objs_run.refl)
  then have k: "dict_dom (rw_objs a) = resident s" by (rule objs_run_same_keys)
  obtain ns where "l1_listeners ?s' = map (\<lambda>i. i @ ns) (l1_listeners s)" "inbox_calls ns = []"
  proof -
    have "(\<exists>ok. l1_listeners ?s' = map (\<lambda>i. i @ [Keys_Reserved_Write ok]) (l1_listeners s)) \<or>
        l1_listeners ?s' = map (\<lambda>i. i @ []) (l1_listeners s)"
      by (auto simp: reserve_write_def Let_def split: sum.splits prod.splits)
    then show thesis by (elim disjE exE) (erule that, simp add: inbox_calls_def)+
  qed
  moreover have "resident s \<subseteq> resident ?s'"
    using k reserve_write_new_keys [of a]
    by (auto simp: reserve_write_def Let_def a_def [symmetric] split: sum.splits prod.splits)
  ultimately show ?thesis by (intro coveredI) auto
qed

lemma clear_keys_covered:
  assumes "dict_wf (l1_objects s)" shows "covered s (clear_keys sl now force s)"
proof (cases force)
  case True
  then show ?thesis
    by (intro coveredI [where ns = "[Keys_Deleted_By_Manager (map fst (l1_objects s))]"])
      (simp_all add: clear_keys_def Let_def inbox_calls_def dict_dom_def)
next
  case False
  let ?u = "map fst (filter (\<lambda>p. \<not> entry_locked now (snd p)) (l1_objects s))"
  have sub: "resident s - set ?u \<subseteq> resident (clear_keys sl now force s)"
    unfolding clear_keys_unlocked(1) [OF assms False] by (auto simp: dict_dom_def)
  show ?thesis
  proof (cases "?u = []")
    case True
    with sub False show ?thesis
      by (intro coveredI [where ns = "[]"]) (auto simp: clear_keys_def Let_def inbox_calls_def case_prod_unfold)
  next
    case False
    with sub \<open>\<not> force\<close> show ?thesis
      by (intro coveredI [where ns = "[Keys_Deleted_By_Manager ?u]"])
        (auto simp: clear_keys_def Let_def inbox_calls_def case_prod_unfold)
  qed
qed

lemma l1_exec_covered:
  assumes "dict_wf (l1_objects s)" and "op \<noteq> Close" and "op \<noteq> Register_Listener"
  shows "covered s (l1_exec sl now op s)"
proof (cases op)
  case (Unsafe_Read keys)
  then show ?thesis by (intro coveredI [where ns = "[]"]) (simp_all add: inbox_calls_def)
next
  case (Touch keys)
  then show ?thesis
    by (intro coveredI [where ns = "[Keys_Accessed keys]"]) (simp_all add: touch_keys_def Let_def inbox_calls_def)
qed (use assms in \<open>simp_all add: reserve_read_covered finish_write_covered finish_write_and_reserve_read_covered
    delete_keys_covered finish_read_covered reserve_write_covered clear_keys_covered\<close>)

definition inbox_keys :: "'k l1_note list \<Rightarrow> 'k set" where
  "inbox_keys inbox = foldl call_keys {} (inbox_calls inbox)"

lemma foldl_call_keys_mono: "R \<subseteq> R' \<Longrightarrow> foldl call_keys R cs \<subseteq> foldl call_keys R' cs"
proof (induction cs arbitrary: R R')
  case (Cons c cs)
  have "call_keys R c \<subseteq> call_keys R' c" using Cons.prems by (cases c) auto
  then show ?case using Cons.IH by simp
qed simp

lemma covered_inboxes:
  assumes "covered s s'" and "\<forall>i\<in>set (l1_listeners s). inbox_keys i \<subseteq> resident s"
  shows "\<forall>i\<in>set (l1_listeners s'). inbox_keys i \<subseteq> resident s'"
proof -
  obtain ns where ns: "l1_listeners s' = map (\<lambda>i. i @ ns) (l1_listeners s)"
    "foldl call_keys (resident s) (inbox_calls ns) \<subseteq> resident s'" using assms(1) by (auto simp: covered_def)
  have "inbox_keys (i @ ns) \<subseteq> resident s'" if "i \<in> set (l1_listeners s)" for i
  proof -
    have "inbox_keys (i @ ns) = foldl call_keys (inbox_keys i) (inbox_calls ns)"
      by (simp add: inbox_keys_def inbox_calls_def)
    with foldl_call_keys_mono [OF assms(2) [rule_format, OF that], of "inbox_calls ns"] ns(2) show ?thesis by simp
  qed
  then show ?thesis by (simp add: ns(1))
qed

text \<open>Runs of a manager that has not been closed.\<close>

inductive l1_open ::
  "sorted_list_ops \<Rightarrow> int \<Rightarrow> nat \<Rightarrow> int \<Rightarrow> int \<Rightarrow> int \<Rightarrow> 'k l1_manager \<Rightarrow> bool"
  for sl :: sorted_list_ops and sz :: int and k :: nat and wttl rttl :: int where
  init: "0 < sz \<Longrightarrow> l1_open sl sz k wttl rttl 0 (l1_init sl sz (2 ^ k) wttl rttl)"
| step: "l1_open sl sz k wttl rttl T s \<Longrightarrow> T \<le> now \<Longrightarrow> op_ok op \<Longrightarrow> op \<noteq> Close \<Longrightarrow>
    l1_open sl sz k wttl rttl now (l1_exec sl now op s)"

lemma l1_open_reach: "l1_open sl sz k wttl rttl T s \<Longrightarrow> l1_reach sl sz k wttl rttl T s"
  by (induction rule: l1_open.induct) (auto intro: l1_reach.intros)

lemma l1_open_inboxes:
  assumes "l1_open sl sz k wttl rttl T s" and "sorted_list_spec sl"
  shows "\<forall>i\<in>set (l1_listeners s). inbox_keys i \<subseteq> resident s"
  using assms
proof (induction rule: l1_open.induct)
  case init
  then show ?case by (simp add: l1_init_def)
next
  case (step T s now op)
  have wf: "dict_wf (l1_objects s)"
    using l1_reach_inv [OF l1_open_reach [OF step(1)] step.prems] by (simp add: l1_inv_def)
  show ?case
  proof (cases "op = Register_Listener")
    case True
    with step show ?thesis by (auto simp: register_listener_def inbox_keys_def inbox_calls_def)
  next
    case False
    from covered_inboxes [OF l1_exec_covered [OF wf step(4) False]] step show ?thesis by blast
  qed
qed

section \<open>Victims\<close>

lemma target_count_bounds:
  assumes "ieee_rounding rnd" and "int n \<le> 2 ^ 53"
  shows "target_count rnd n r \<le> n" and "0 < r \<Longrightarrow> 0 < n \<Longrightarrow> 0 < target_count rnd n r"
proof -
  let ?r = "max 0 (min 1 r)"
  have mono: "x \<le> y \<Longrightarrow> rnd x \<le> rnd y" and ex: "\<bar>m\<bar> \<le> 2 ^ 53 \<Longrightarrow> rnd (of_int m) = of_int m" for x y m
    using assms(1) by (auto simp: ieee_rounding_def)
  have "rnd (of_nat n * ?r) \<le> rnd (of_int (int n))" by (intro mono) (simp add: mult_left_le)
  also have "\<dots> = of_nat n" using ex [of "int n"] assms(2) by simp
  finally have "nat \<lfloor>rnd (of_nat n * ?r)\<rfloor> \<le> n" by (simp add: floor_le_iff nat_le_iff)
  then show "target_count rnd n r \<le> n" by (auto simp: target_count_def Let_def)
  show "0 < target_count rnd n r" if "0 < r" "0 < n" using that by (auto simp: target_count_def Let_def)
qed

lemma lru_victims:
  "concat (map ea_keys (lru_get_eviction_actions rnd r f s p)) =
     (if lru_order p = [] then [] else take (target_count rnd (length (lru_order p)) r) (filter (eligible f) (lru_order p)))"
  by (simp add: lru_get_eviction_actions_def Let_def evict_loop_eq)

lemma lru_actions_destination:
  "\<forall>a\<in>set (lru_get_eviction_actions rnd r f s p).
     ea_destination a = select_destination (lru_destinations p) (lru_default_destination p)"
  by (simp add: lru_get_eviction_actions_def Let_def)

text \<open>One bucket of the isolated policy, as an LRU policy.\<close>

definition iso_lru :: "string \<Rightarrow> iso_policy \<Rightarrow> object_key lru_policy" where
  "iso_lru s p = \<lparr>lru_order = bucket p s, lru_destinations = iso_destinations p,
     lru_default_destination = iso_default_destination p\<rparr>"

lemma iso_frame [simp]:
  "iso_destinations (iso_on_keys_created ks p) = iso_destinations p"
  "iso_default_destination (iso_on_keys_created ks p) = iso_default_destination p"
  "iso_destinations (iso_on_keys_touched ks p) = iso_destinations p"
  "iso_default_destination (iso_on_keys_touched ks p) = iso_default_destination p"
  "iso_destinations (iso_on_keys_removed ks p) = iso_destinations p"
  "iso_default_destination (iso_on_keys_removed ks p) = iso_default_destination p"
  by (simp_all add: iso_on_keys_created_def iso_on_keys_touched_def iso_on_keys_removed_def)

definition iso_wf :: "iso_policy \<Rightarrow> bool" where
  "iso_wf p \<longleftrightarrow> (\<forall>(s, order)\<in>set (iso_per_salt_order p). distinct order \<and> (\<forall>k\<in>set order. key_ok k))"

lemma ordered_dict_distinct:
  assumes "distinct (acc @ ks)"
  shows "foldl (\<lambda>d key. if key \<in> set d then d else d @ [key]) acc ks = acc @ ks"
  using assms by (induction ks arbitrary: acc) auto

definition orders_wf :: "(string, object_key list) pydict \<Rightarrow> bool" where
  "orders_wf d \<longleftrightarrow> (\<forall>(s, order)\<in>set d. distinct order \<and> (\<forall>k\<in>set order. key_ok k))"

lemma orders_wf_set:
  assumes "orders_wf d" and "distinct order" and "\<forall>k\<in>set order. key_ok k"
  shows "orders_wf (AList.update s order d)"
  using assms by (induction d) (auto simp: orders_wf_def)

lemma orders_wf_del: "orders_wf d \<Longrightarrow> orders_wf (AList.delete s d)"
  by (auto simp: orders_wf_def AList.delete_eq)

lemma orders_wf_get: "orders_wf d \<Longrightarrow> map_of d s = Some order \<Longrightarrow> distinct order \<and> (\<forall>k\<in>set order. key_ok k)"
  by (auto simp: orders_wf_def dest: map_of_SomeD)

lemma iso_steps_wf:
  assumes "orders_wf d"
  shows "key_ok k \<Longrightarrow> orders_wf (iso_created_step d k)" and "orders_wf (iso_touched_step d k)"
    and "orders_wf (iso_removed_step d k)"
  using assms orders_wf_get [OF assms]
  by (auto simp: iso_created_step_def iso_touched_step_def iso_removed_step_def Let_def orders_wf_del
      split: option.splits intro!: orders_wf_set)

lemma iso_ops_wf:
  assumes "iso_wf p"
  shows "\<forall>k\<in>set ks. key_ok k \<Longrightarrow> iso_wf (iso_on_keys_created ks p)" and "iso_wf (iso_on_keys_touched ks p)"
    and "iso_wf (iso_on_keys_removed ks p)" and "iso_wf (iso_init d)"
proof -
  have p: "orders_wf (iso_per_salt_order p)" using assms by (simp add: iso_wf_def orders_wf_def)
  note w = iso_wf_def orders_wf_def [symmetric]
  show "iso_wf (iso_on_keys_created ks p)" if "\<forall>k\<in>set ks. key_ok k"
    using that p by (auto simp: w iso_on_keys_created_def intro!: foldl_inv [of orders_wf] iso_steps_wf)
  show "iso_wf (iso_on_keys_touched ks p)"
    using p by (auto simp: w iso_on_keys_touched_def intro!: foldl_inv [of orders_wf] iso_steps_wf)
  show "iso_wf (iso_on_keys_removed ks p)"
    using p by (auto simp: w iso_on_keys_removed_def intro!: foldl_inv [of orders_wf] iso_steps_wf)
  show "iso_wf (iso_init d)" by (simp add: iso_wf_def iso_init_def)
qed

lemma iso_restore_captured:
  assumes "iso_wf p"
  shows "iso_restore (iso_capture p) p0 = Inr (p0\<lparr>iso_per_salt_order := iso_per_salt_order p\<rparr>)"
proof -
  let ?f = "\<lambda>(s, ordered). (case sequence_results (map decode_key ordered) of Inl e \<Rightarrow> Inl e
     | Inr keys \<Rightarrow> Inr (s, foldl (\<lambda>d key. if key \<in> set d then d else d @ [key]) [] keys))"
  have "?f (s, map encode_key order) = Inr (s, order)" if "(s, order) \<in> set (iso_per_salt_order p)" for s order
  proof -
    have o: "distinct order" "\<forall>k\<in>set order. key_ok k" using assms that by (auto simp: iso_wf_def)
    have "sequence_results (map (decode_key \<circ> encode_key) order) = Inr (map (\<lambda>k. k) order)"
      by (rule sequence_results_all) (use o(2) decode_encode in auto)
    with o(1) ordered_dict_distinct [of "[]" order] show ?thesis by simp
  qed
  then have "sequence_results (map (\<lambda>b. ?f ((\<lambda>(s, order). (s, map encode_key order)) b)) (iso_per_salt_order p)) =
      Inr (map (\<lambda>b. b) (iso_per_salt_order p))"
    by (intro sequence_results_all) auto
  then show ?thesis by (simp add: iso_restore_def iso_capture_def comp_def)
qed

section \<open>Properties\<close>

definition demo_keys :: "object_key list" where
  "demo_keys = [demo_key, demo_key\<lparr>kv_rank := 8\<rparr>, demo_key\<lparr>kv_rank := 9\<rparr>]"

definition demo_lru :: "object_key lru_policy" where
  "demo_lru = lru_on_keys_created demo_keys (lru_init DISCARD)"

lemma demo_keys_distinct: "distinct demo_keys"
  by (simp add: demo_keys_def demo_key_def)

text \<open>
  Recency order: after \<open>on_keys_created\<close> the new keys are the most recent ones, in reverse
  request order, so that the tail of a prefix goes before its head; the older keys keep their
  order in front of them.
\<close>

lemma lru_created_order:
  assumes "distinct (lru_order p)" and "distinct keys"
  shows "lru_order (lru_on_keys_created keys p) = filter (\<lambda>k. k \<notin> set keys) (lru_order p) @ rev keys"
  using foldl_created [OF assms(1), of "rev keys"] assms(2)
  by (cases "keys = []") (simp_all add: lru_on_keys_created_def)

text \<open>
  C31. Victims: \<open>get_eviction_actions\<close> returns exactly the oldest eligible keys, up to the target;
  the target never exceeds the number of tracked keys, and is positive for a positive ratio,
  so that an eligible key is always found when there is one.
\<close>

theorem lru_evicts_oldest_eligible:
  fixes r :: pyfloat and f :: "('k \<Rightarrow> bool) option" and s :: "string option"
  assumes "ieee_rounding rnd" and "int (length (lru_order p)) \<le> 2 ^ 53"
  defines "victims \<equiv> concat (map ea_keys (lru_get_eviction_actions rnd r f s p))"
    and "t \<equiv> target_count rnd (length (lru_order p)) r"
  shows "victims = take t (filter (eligible f) (lru_order p)) \<and> t \<le> length (lru_order p) \<and>
    (0 < r \<and> (\<exists>k\<in>set (lru_order p). eligible f k) \<longrightarrow> victims \<noteq> [])"
proof -
  have v: "victims = take t (filter (eligible f) (lru_order p))"
    unfolding victims_def t_def by (simp add: lru_victims)
  moreover have "t \<le> length (lru_order p)" unfolding t_def by (rule target_count_bounds(1) [OF assms(1,2)])
  moreover have "victims \<noteq> []" if "0 < r" "k \<in> set (lru_order p)" "eligible f k" for k
  proof -
    have "0 < t" unfolding t_def using that by (intro target_count_bounds(2) [OF assms(1,2)]) auto
    moreover have "filter (eligible f) (lru_order p) \<noteq> []" using that by (auto simp: filter_empty_conv)
    ultimately show ?thesis by (simp add: v)
  qed
  ultimately show ?thesis by blast
qed

theorem lru_evicts_oldest_eligible_witness:
  "concat (map ea_keys (lru_get_eviction_actions (\<lambda>x. x) (1 / 10) None None demo_lru)) = [demo_key\<lparr>kv_rank := 9\<rparr>]"
proof -
  have o: "lru_order demo_lru = rev demo_keys"
    using foldl_created [of "[]" "rev demo_keys"] demo_keys_distinct
    by (auto simp: demo_lru_def lru_on_keys_created_def lru_init_def)
  have e: "eligible None = (\<lambda>_ :: object_key. True)" by (simp add: eligible_def fun_eq_iff)
  show ?thesis
    using lru_evicts_oldest_eligible [OF ieee_rounding_id, of demo_lru "1 / 10" None None]
    unfolding o e by (simp add: demo_keys_def target_count_def Let_def)
qed

text \<open>
  C30. IsolatedLRU refines one LRU policy per salt: each call acts on the bucket of a salt as the
  LRU policy does on the keys of that salt, and the victims for a salt are the LRU victims of
  its bucket; other salts are not affected.
\<close>

theorem iso_refines_lru:
  "iso_lru s (iso_on_keys_created keys p) = lru_on_keys_created (salt_of s keys) (iso_lru s p) \<and>
   iso_lru s (iso_on_keys_touched keys p) = lru_on_keys_touched (salt_of s keys) (iso_lru s p) \<and>
   iso_lru s (iso_on_keys_removed keys p) = lru_on_keys_removed (salt_of s keys) (iso_lru s p) \<and>
   iso_get_eviction_actions rnd r f (Some s) p = Inr (lru_get_eviction_actions rnd r f None (iso_lru s p))"
proof (intro conjI)
  show "iso_lru s (iso_on_keys_created keys p) = lru_on_keys_created (salt_of s keys) (iso_lru s p)"
    by (simp add: iso_lru_def iso_bucket_ops lru_on_keys_created_def)
  show "iso_lru s (iso_on_keys_touched keys p) = lru_on_keys_touched (salt_of s keys) (iso_lru s p)"
    by (simp add: iso_lru_def iso_bucket_ops lru_on_keys_touched_def)
  show "iso_lru s (iso_on_keys_removed keys p) = lru_on_keys_removed (salt_of s keys) (iso_lru s p)"
    by (simp add: iso_lru_def iso_bucket_ops lru_on_keys_removed_def)
  show "iso_get_eviction_actions rnd r f (Some s) p = Inr (lru_get_eviction_actions rnd r f None (iso_lru s p))"
    by (simp add: iso_lru_def iso_get_eviction_actions_def lru_get_eviction_actions_def bucket_def dict_get_default_def
        Let_def)
qed

text \<open>
  C25. The eviction policy never tracks a dead key: in every run of a manager that has not been
  closed, a policy that was registered as its listener (LRU, IsolatedLRU or NoOp) tracks only
  keys that are resident, so eviction never chases keys that are gone.
\<close>

theorem policy_tracks_only_resident_keys:
  assumes "l1_open sl sz k wttl rttl T s" and "sorted_list_spec sl"
    and "CreateEvictionPolicy name = Inr p0" and "inbox \<in> set (l1_listeners s)"
  shows "policy_tracked (foldl l1_bridge p0 inbox) \<subseteq> dict_dom (l1_objects s)"
proof -
  have p0: "policy_inv p0 \<and> policy_tracked p0 = {}"
    using assms(3) by (auto simp: CreateEvictionPolicy_def lru_init_def iso_init_def lru_inv_def iso_inv_def
        iso_tracked_def bucket_def split: if_splits)
  then have "policy_tracked (foldl pol.run_call p0 (inbox_calls inbox)) \<subseteq> foldl call_keys {} (inbox_calls inbox)"
    using pol.run_tracked [of p0 "{}" "inbox_calls inbox"] by simp
  also have "\<dots> \<subseteq> dict_dom (l1_objects s)"
    using l1_open_inboxes [OF assms(1,2)] assms(4) by (simp add: inbox_keys_def)
  finally show ?thesis by (simp add: l1_bridge_calls)
qed

theorem policy_tracks_only_resident_keys_witness:
  "\<exists>s :: object_key l1_manager. l1_listeners s = [[Keys_Reserved_Write [demo_key], Keys_Write_Finished [demo_key]]] \<and>
     policy_tracked (foldl l1_bridge (LRU (lru_init DISCARD)) (l1_listeners s ! 0)) \<subseteq> dict_dom (l1_objects s)"
proof -
  let ?s0 = "l1_exec list_sl 0 Register_Listener (l1_init list_sl 16384 (2 ^ 12) 600 300) :: object_key l1_manager"
  let ?s1 = "l1_exec list_sl 0 (Reserve_Write [demo_key] [False] demo_layout Mode_All) ?s0"
  let ?s2 = "l1_exec list_sl 1 (Finish_Write [demo_key]) ?s1"
  have o: "l1_open list_sl 16384 12 600 300 1 ?s2"
    by (rule l1_open.step [OF l1_open.step [OF l1_open.step [OF l1_open.init]]]) (simp_all add: demo_layout_ok)
  have l: "l1_listeners ?s2 = [[Keys_Reserved_Write [demo_key], Keys_Write_Finished [demo_key]]]"
    by (simp add: demo_layout_def l1_eval ta_eval finish_write_def)
  have "policy_tracked (foldl l1_bridge (LRU (lru_init DISCARD)) (l1_listeners ?s2 ! 0)) \<subseteq> dict_dom (l1_objects ?s2)"
    by (rule policy_tracks_only_resident_keys [OF o list_sl_spec, of "''LRU''"])
      (simp add: CreateEvictionPolicy_def, simp only: l, simp)
  with l show ?thesis by blast
qed

end
