(* ===== verification/Quota_Manager.thy ===== *)
theory Quota_Manager
  imports Prelude
begin

text \<open>
  \<^verbatim>\<open>lmcache/v1/distributed/quota_manager.py\<close>: \<open>QuotaManager\<close>, the registry of byte limits
  per salt with its two readings of an unregistered salt (allowlist and default quota), and
  its durable form. Each operation holds the registry's lock.
\<close>

record quota_manager =
  qm_limits :: "(string, int) pydict"
  qm_default_limit_bytes :: "int option"

definition qm_init :: quota_manager where
  "qm_init = \<lparr>qm_limits = [], qm_default_limit_bytes = None\<rparr>"

definition set_quota :: "string \<Rightarrow> int \<Rightarrow> quota_manager \<Rightarrow> quota_manager result" where
  "set_quota salt limit_bytes q =
     (if limit_bytes < 0 then Inl ValueError
      else Inr (q\<lparr>qm_limits := dict_set salt limit_bytes (qm_limits q)\<rparr>))"

definition delete_quota :: "string \<Rightarrow> quota_manager \<Rightarrow> quota_manager \<times> bool" where
  "delete_quota salt q =
     (q\<lparr>qm_limits := dict_del salt (qm_limits q)\<rparr>, dict_get (qm_limits q) salt \<noteq> None)"

definition get_limit_bytes :: "string \<Rightarrow> quota_manager \<Rightarrow> int" where
  "get_limit_bytes salt q = dict_get_default (qm_limits q) salt 0"

definition set_default_limit_bytes :: "int option \<Rightarrow> quota_manager \<Rightarrow> quota_manager result" where
  "set_default_limit_bytes limit_bytes q =
     (case limit_bytes of
        None \<Rightarrow> Inr (q\<lparr>qm_default_limit_bytes := None\<rparr>)
      | Some n \<Rightarrow> if n < 0 then Inl ValueError else Inr (q\<lparr>qm_default_limit_bytes := Some n\<rparr>))"

definition get_default_limit_bytes :: "quota_manager \<Rightarrow> int option" where
  "get_default_limit_bytes q = qm_default_limit_bytes q"

definition effective_limit_bytes :: "string \<Rightarrow> quota_manager \<Rightarrow> int option" where
  "effective_limit_bytes salt q =
     (case dict_get (qm_limits q) salt of Some n \<Rightarrow> Some n | None \<Rightarrow> qm_default_limit_bytes q)"

definition has_quota :: "string \<Rightarrow> quota_manager \<Rightarrow> bool" where
  "has_quota salt q \<longleftrightarrow> dict_get (qm_limits q) salt \<noteq> None"

definition qm_capture :: "quota_manager \<Rightarrow> (string, int) pydict \<times> int option" where
  "qm_capture q = (qm_limits q, qm_default_limit_bytes q)"

definition qm_restore :: "(string, int) pydict \<times> int option \<Rightarrow> quota_manager \<Rightarrow> quota_manager" where
  "qm_restore st q = q\<lparr>qm_limits := fst st, qm_default_limit_bytes := snd st\<rparr>"

definition list_quotas :: "quota_manager \<Rightarrow> (string \<times> int) list" where
  "list_quotas q = qm_limits q"

section \<open>Runs of a registry\<close>

datatype quota_op =
    Set_Quota string int
  | Delete_Quota string
  | Set_Default "int option"
  | Restart  \<comment> \<open>a new registry restored from the capture of this one\<close>

text \<open>A call that raises leaves the registry as it was.\<close>

primrec qm_step :: "quota_op \<Rightarrow> quota_manager \<Rightarrow> quota_manager" where
  "qm_step (Set_Quota s n) q = (case set_quota s n q of Inl _ \<Rightarrow> q | Inr q' \<Rightarrow> q')"
| "qm_step (Delete_Quota s) q = fst (delete_quota s q)"
| "qm_step (Set_Default d) q = (case set_default_limit_bytes d q of Inl _ \<Rightarrow> q | Inr q' \<Rightarrow> q')"
| "qm_step Restart q = qm_restore (qm_capture q) qm_init"

abbreviation qm_runs :: "quota_op list \<Rightarrow> quota_manager \<Rightarrow> quota_manager" where
  "qm_runs ops q \<equiv> fold qm_step ops q"

definition qm_inv :: "quota_manager \<Rightarrow> bool" where
  "qm_inv q \<longleftrightarrow> dict_wf (qm_limits q) \<and> (\<forall>s n. map_of (qm_limits q) s = Some n \<longrightarrow> 0 \<le> n) \<and>
     (\<forall>n. qm_default_limit_bytes q = Some n \<longrightarrow> 0 \<le> n)"

lemma qm_init_inv: "qm_inv qm_init"
  by (simp add: qm_inv_def qm_init_def)

lemma qm_step_inv: "qm_inv q \<Longrightarrow> qm_inv (qm_step op q)"
  by (cases op) (auto simp: qm_inv_def set_quota_def delete_quota_def set_default_limit_bytes_def
      qm_restore_def qm_capture_def split: option.splits)

lemma qm_runs_inv: "qm_inv q \<Longrightarrow> qm_inv (qm_runs ops q)"
  by (induction ops arbitrary: q) (simp_all add: qm_step_inv)

lemma qm_restart: "qm_restore (qm_capture q) q0 = q"
  by (simp add: qm_restore_def qm_capture_def)

section \<open>Properties\<close>

text \<open>
  Limits are never negative, whatever is called; an unregistered salt has limit 0 for the
  allowlist reading and the default for the default-quota reading, which is exempt (\<open>None\<close>)
  until a default is set; the two readings agree on registered salts.
\<close>

theorem quota_readings:
  "let q = qm_runs ops qm_init in
     0 \<le> get_limit_bytes s q \<and>
     (\<forall>n. effective_limit_bytes s q = Some n \<longrightarrow> 0 \<le> n) \<and>
     (if has_quota s q then effective_limit_bytes s q = Some (get_limit_bytes s q)
      else get_limit_bytes s q = 0 \<and> effective_limit_bytes s q = get_default_limit_bytes q) \<and>
     get_default_limit_bytes qm_init = None"
proof -
  have "qm_inv (qm_runs ops qm_init)" by (rule qm_runs_inv [OF qm_init_inv])
  then show ?thesis
    by (auto simp: Let_def qm_inv_def get_limit_bytes_def effective_limit_bytes_def has_quota_def
        get_default_limit_bytes_def dict_get_default_def qm_init_def split: option.splits)
qed

end
