(* ===== verification/Eviction_Controller.thy ===== *)
theory Eviction_Controller
  imports Eviction_Policy Quota_Manager
begin

text \<open>
  \<^verbatim>\<open>lmcache/v1/distributed/storage_controllers/eviction_controller.py\<close>: one pass of the
  loops of \<open>L1EvictionController\<close> and \<open>L2EvictionController\<close>, and \<open>AdapterUsage\<close>
  (\<^verbatim>\<open>lmcache/v1/distributed/l2_adapters/base.py\<close>).

  The L1 controller registers its policy as a listener of the manager: the state of the policy
  is what the bridge makes of the calls in its inbox. An L2 adapter is seen through its usage
  report and the \<open>delete\<close> calls it receives, which are the result of a pass. Threads, sleeping
  and logging are not modelled.
\<close>

record eviction_config =
  cfg_eviction_policy :: string
  cfg_trigger_watermark :: pyfloat
  cfg_eviction_ratio :: pyfloat

section \<open>The L1 controller\<close>

record l1_controller =
  lc_config :: eviction_config
  lc_policy0 :: policy
  lc_listener :: nat
  lc_l1 :: "object_key l1_manager"

datatype tick_event = L1_EVICTION_LOOP_TICK (tick_usage: pyfloat) (tick_watermark: pyfloat) (tick_triggered: bool)

definition lc_init :: "object_key l1_manager \<Rightarrow> eviction_config \<Rightarrow> l1_controller result" where
  "lc_init l1 cfg =
     (case CreateEvictionPolicy (cfg_eviction_policy cfg) of
        Inl e \<Rightarrow> Inl e
      | Inr p \<Rightarrow> Inr \<lparr>lc_config = cfg, lc_policy0 = p, lc_listener = length (l1_listeners l1),
                      lc_l1 = register_listener l1\<rparr>)"

definition lc_policy :: "l1_controller \<Rightarrow> policy" where
  "lc_policy lc = foldl l1_bridge (lc_policy0 lc) (l1_listeners (lc_l1 lc) ! lc_listener lc)"

text \<open>Every destination is treated as \<open>DISCARD\<close>.\<close>

definition l1_execute_eviction_action ::
  "sorted_list_ops \<Rightarrow> int \<Rightarrow> object_key l1_manager \<Rightarrow> object_key eviction_action \<Rightarrow> object_key l1_manager" where
  "l1_execute_eviction_action sl now l1 action =
     (if ea_destination action = DISCARD then fst (delete_keys sl now (ea_keys action) False l1)
      else fst (delete_keys sl now (ea_keys action) False l1))"

definition l1_usage :: "(rat \<Rightarrow> rat) \<Rightarrow> object_key l1_manager \<Rightarrow> pyfloat" where
  "l1_usage rnd l1 =
     (case get_memory_usage l1 of (used_bytes, total_bytes) \<Rightarrow>
        if total_bytes = 0 then 0 else rnd (of_int used_bytes / of_int total_bytes))"

definition l1_eviction_tick ::
  "sorted_list_ops \<Rightarrow> (rat \<Rightarrow> rat) \<Rightarrow> int \<Rightarrow> l1_controller \<Rightarrow> l1_controller \<times> tick_event result" where
  "l1_eviction_tick sl rnd now lc =
     (let watermark = cfg_trigger_watermark (lc_config lc);
          usage = l1_usage rnd (lc_l1 lc)
      in if usage < watermark then (lc, Inr (L1_EVICTION_LOOP_TICK usage watermark False))
         else case get_eviction_actions rnd (cfg_eviction_ratio (lc_config lc))
                     (Some (is_key_evictable now (lc_l1 lc))) None (lc_policy lc) of
           Inl e \<Rightarrow> (lc, Inl e)
         | Inr actions \<Rightarrow>
             (lc\<lparr>lc_l1 := foldl (l1_execute_eviction_action sl now) (lc_l1 lc) actions\<rparr>,
              Inr (L1_EVICTION_LOOP_TICK usage watermark True)))"

section \<open>The L2 controller\<close>

record adapter_usage =
  au_total_bytes_used :: int
  au_total_capacity_bytes :: int
  au_bytes_by_cache_salt :: "(string, int) pydict"

definition usage_fraction :: "(rat \<Rightarrow> rat) \<Rightarrow> adapter_usage \<Rightarrow> pyfloat" where
  "usage_fraction rnd u =
     (if au_total_capacity_bytes u \<le> 0 then -1
      else rnd (of_int (au_total_bytes_used u) / of_int (au_total_capacity_bytes u)))"

record l2_state =
  l2_adapter_id :: int
  l2_config :: eviction_config
  l2_policy :: policy
  l2_usage :: adapter_usage

definition add_adapter_state :: "l2_state \<Rightarrow> l2_state list \<Rightarrow> l2_state list" where
  "add_adapter_state st sts = sts @ [st]"

definition remove_adapter_state :: "int \<Rightarrow> l2_state list \<Rightarrow> l2_state list" where
  "remove_adapter_state i sts = filter (\<lambda>st. l2_adapter_id st \<noteq> i) sts"

text \<open>
  \<open>_execute_eviction_action\<close>: one \<open>delete\<close> call of the adapter. The published count per salt is a
  function of the keys of the call.
\<close>

definition l2_execute_eviction_action :: "object_key eviction_action \<Rightarrow> object_key list" where
  "l2_execute_eviction_action action =
     (if ea_destination action = DISCARD then ea_keys action else ea_keys action)"

definition key_count_per_salt :: "object_key list \<Rightarrow> string \<Rightarrow> nat" where
  "key_count_per_salt keys s = length (filter (\<lambda>k. cache_salt k = s) keys)"

definition check_and_evict_global ::
  "(rat \<Rightarrow> rat) \<Rightarrow> l2_state \<Rightarrow> object_key list list result" where
  "check_and_evict_global rnd st =
     (let watermark = cfg_trigger_watermark (l2_config st);
          current_usage = usage_fraction rnd (l2_usage st)
      in if current_usage < 0 \<or> current_usage < watermark then Inr []
         else case get_eviction_actions rnd (cfg_eviction_ratio (l2_config st)) None None (l2_policy st) of
           Inl e \<Rightarrow> Inl e
         | Inr actions \<Rightarrow> Inr (map l2_execute_eviction_action actions))"

type_synonym pending = "(eviction_destination, object_key list) pydict"

definition extend_pending :: "pending \<Rightarrow> object_key eviction_action \<Rightarrow> pending" where
  "extend_pending d a =
     dict_set (ea_destination a) (dict_get_default d (ea_destination a) [] @ ea_keys a) d"

definition over_quota :: "(rat \<Rightarrow> rat) \<Rightarrow> pyfloat \<Rightarrow> quota_manager \<Rightarrow> string \<Rightarrow> int \<Rightarrow> bool" where
  "over_quota rnd watermark q salt user_bytes \<longleftrightarrow>
     \<not> user_bytes \<le> 0 \<and> \<not> of_int user_bytes < rnd (watermark * rnd (of_int (get_limit_bytes salt q)))"

fun salt_loop ::
  "(rat \<Rightarrow> rat) \<Rightarrow> eviction_config \<Rightarrow> policy \<Rightarrow> quota_manager \<Rightarrow> (string \<times> int) list \<Rightarrow> pending \<Rightarrow> pending result" where
  "salt_loop rnd cfg pol q [] pend = Inr pend"
| "salt_loop rnd cfg pol q ((salt, user_bytes) # items) pend =
     (if \<not> over_quota rnd (cfg_trigger_watermark cfg) q salt user_bytes then salt_loop rnd cfg pol q items pend
      else let effective_ratio = (if get_limit_bytes salt q = 0 then 1 else cfg_eviction_ratio cfg)
           in case get_eviction_actions rnd effective_ratio None (Some salt) pol of
             Inl e \<Rightarrow> Inl e
           | Inr actions \<Rightarrow> salt_loop rnd cfg pol q items (foldl extend_pending pend actions))"

definition check_and_evict_by_cache_salt ::
  "(rat \<Rightarrow> rat) \<Rightarrow> quota_manager \<Rightarrow> l2_state \<Rightarrow> object_key list list result" where
  "check_and_evict_by_cache_salt rnd q st =
     (case salt_loop rnd (l2_config st) (l2_policy st) q (au_bytes_by_cache_salt (l2_usage st)) [] of
        Inl e \<Rightarrow> Inl e
      | Inr pend \<Rightarrow>
          Inr (map (\<lambda>(d, keys). l2_execute_eviction_action \<lparr>ea_destination = d, ea_keys = keys\<rparr>) pend))"

definition check_and_evict ::
  "(rat \<Rightarrow> rat) \<Rightarrow> quota_manager option \<Rightarrow> l2_state \<Rightarrow> object_key list list result" where
  "check_and_evict rnd qm st =
     (case qm of
        Some q \<Rightarrow> if support_isolation (l2_policy st) then check_and_evict_by_cache_salt rnd q st
                 else check_and_evict_global rnd st
      | None \<Rightarrow> check_and_evict_global rnd st)"

section \<open>Deleting evictable keys\<close>

lemma delete_evictable_keys:
  assumes "\<forall>k\<in>set keys. \<forall>e. map_of objs k = Some e \<longrightarrow> \<not> entry_locked now e"
    and "foldl (delete_step now False) (objs, ret, ok, fs) keys = (objs', ret', ok', fs')"
  shows "dict_dom objs' = dict_dom objs - set keys"
  using assms
proof (induction keys arbitrary: objs ret ok fs)
  case (Cons k keys)
  show ?case
  proof (cases "map_of objs k")
    case None
    then have "k \<notin> dict_dom objs" by (simp add: dict_dom_iff)
    with Cons None show ?thesis by auto
  next
    case (Some e)
    then have "\<not> entry_locked now e" using Cons.prems(1) by simp
    with Some Cons.prems(2) have f: "foldl (delete_step now False)
        (AList.delete k objs, AList.update k SUCCESS ret, ok @ [k], fs @ [os_memory_obj e]) keys = (objs', ret', ok', fs')"
      by (simp add: entry_locked_def Let_def)
    have "\<forall>k'\<in>set keys. \<forall>e. map_of (AList.delete k objs) k' = Some e \<longrightarrow> \<not> entry_locked now e"
      using Cons.prems(1) by simp
    from Cons.IH [OF this f] show ?thesis by auto
  qed
qed simp

lemma evictable_iff:
  "is_key_evictable now s k \<longleftrightarrow> (\<exists>e. map_of (l1_objects s) k = Some e \<and> \<not> entry_locked now e)"
  by (auto simp: is_key_evictable_def entry_locked_def split: option.splits)

lemma delete_keys_evictable:
  assumes "\<forall>k\<in>set keys. is_key_evictable now s k"
  shows "dict_dom (l1_objects (fst (delete_keys sl now keys False s))) = dict_dom (l1_objects s) - set keys"
proof -
  let ?f = "foldl (delete_step now False) (l1_objects s, [], [], []) keys"
  obtain objs ret ok fs where f: "?f = (objs, ret, ok, fs)" by (cases ?f) blast
  have "\<forall>k\<in>set keys. \<forall>e. map_of (l1_objects s) k = Some e \<longrightarrow> \<not> entry_locked now e"
    using assms by (fastforce simp: evictable_iff)
  from delete_evictable_keys [OF this f] show ?thesis by (simp add: delete_keys_def f)
qed

section \<open>Salts\<close>

lemma iso_actions:
  "iso_get_eviction_actions rnd r None (Some s) p =
     Inr (let ks = take (target_count rnd (length (bucket p s)) r) (bucket p s)
          in if bucket p s = [] \<or> ks = [] then []
             else [\<lparr>ea_destination = select_destination (iso_destinations p) (iso_default_destination p), ea_keys = ks\<rparr>])"
proof -
  have e: "eligible None = (\<lambda>_ :: object_key. True)" by (simp add: eligible_def fun_eq_iff)
  show ?thesis
    by (simp add: iso_get_eviction_actions_def bucket_def dict_get_default_def Let_def e evict_loop_eq)
qed

definition salt_victims :: "(rat \<Rightarrow> rat) \<Rightarrow> eviction_config \<Rightarrow> quota_manager \<Rightarrow> iso_policy \<Rightarrow> string \<times> int \<Rightarrow> object_key list" where
  "salt_victims rnd cfg q p item =
     (if over_quota rnd (cfg_trigger_watermark cfg) q (fst item) (snd item)
      then take (target_count rnd (length (bucket p (fst item)))
             (if get_limit_bytes (fst item) q = 0 then 1 else cfg_eviction_ratio cfg)) (bucket p (fst item))
      else [])"

lemma pending_keys:
  "mset (concat (map snd (extend_pending d a))) = mset (concat (map snd d)) + mset (ea_keys a)"
proof (induction d)
  case (Cons x d)
  then show ?case by (cases x) (auto simp: extend_pending_def dict_get_default_def)
qed (simp add: extend_pending_def)

lemma salt_loop_victims:
  "\<exists>pend'. salt_loop rnd cfg (IsolatedLRU p) q items pend = Inr pend' \<and>
     mset (concat (map snd pend')) = mset (concat (map snd pend)) + mset (concat (map (salt_victims rnd cfg q p) items))"
proof (induction items arbitrary: pend)
  case (Cons item items)
  obtain s b where i: "item = (s, b)" by (cases item)
  show ?case
  proof (cases "over_quota rnd (cfg_trigger_watermark cfg) q s b")
    case False
    with Cons i show ?thesis by (auto simp: salt_victims_def)
  next
    case True
    let ?r = "if get_limit_bytes s q = 0 then 1 else cfg_eviction_ratio cfg"
    obtain acts where a: "iso_get_eviction_actions rnd ?r None (Some s) p = Inr acts" by (simp add: iso_actions Let_def)
    have "mset (concat (map snd (foldl extend_pending pend acts))) =
        mset (concat (map snd pend)) + mset (salt_victims rnd cfg q p item)"
      using a True i by (auto simp: iso_actions Let_def salt_victims_def pending_keys split: if_splits)
    with Cons.IH [of "foldl extend_pending pend acts"] a True i show ?thesis
      by (auto simp: get_eviction_actions_def Let_def)
  qed
qed simp

section \<open>Eviction releases memory\<close>

lemma batched_free_loop_sizes:
  "batched_free_loop is h acc = (h', acc') \<Longrightarrow> map mo_phy_size h' = map mo_phy_size h"
proof (induction "is" h acc rule: batched_free_loop.induct)
  case (2 i "is" heap acc)
  have "mo_phy_size (invalidate (heap ! i)) = mo_phy_size (heap ! i)" by (simp add: invalidate_def)
  then have "map mo_phy_size (heap[i := invalidate (heap ! i)]) = map mo_phy_size heap"
    by (metis list_update_id map_update)
  with 2 show ?case by (auto split: if_splits)
qed simp

lemma ta_batched_free_sizes: "map mo_phy_size (ta_heap (ta_batched_free sl ta is)) = map mo_phy_size (ta_heap ta)"
  using batched_free_loop_sizes by (auto simp: ta_batched_free_def Let_def split: prod.splits)

definition used_by :: "tensor_allocator \<Rightarrow> nat multiset \<Rightarrow> int" where
  "used_by ta M = sum_mset (image_mset (\<lambda>i. mo_phy_size (ta_heap ta ! i)) M)"

lemma l1_usage_mset:
  assumes "l1_inv sl T s"
  shows "fst (get_memory_usage s) = used_by (l1_memory s) (mset (objs_mem (l1_objects s)))"
  using l1_inv_usage [OF assms]
  by (simp add: used_by_def objs_mem_def comp_def sum_mset_sum_list flip: mset_map)

lemma length_dict_dom: "dict_wf d \<Longrightarrow> length d = card (dict_dom d)"
  using distinct_card [of "map fst d"] by (simp add: dict_wf_def dict_dom_def)

lemma delete_keys_releases:
  assumes "l1_inv sl now s" and "\<forall>k\<in>set keys. is_key_evictable now s k" and "keys \<noteq> []"
  defines "s' \<equiv> fst (delete_keys sl now keys False s)"
  shows "fst (get_memory_usage s') < fst (get_memory_usage s)"
proof -
  let ?f = "foldl (delete_step now False) (l1_objects s, [], [], []) keys"
  obtain objs ret ok fs where f: "?f = (objs, ret, ok, fs)" by (cases ?f) blast
  have run: "objs_run (\<lambda>e. False \<or> \<not> entry_locked now e) now (l1_objects s) objs fs" by (rule delete_run [OF f])
  have r: "dict_wf objs \<and> objs_ok now objs \<and> mset (objs_mem objs) + mset fs = mset (objs_mem (l1_objects s))"
    using assms(1) by (intro objs_run_inv [OF run]) (auto simp: l1_inv_def)
  have s': "l1_objects s' = objs" "l1_memory s' = ta_batched_free sl (l1_memory s) fs"
    by (simp_all add: s'_def delete_keys_def f mm_free_def)
  have inv': "l1_inv sl now s'" unfolding s'_def by (rule delete_keys_inv [OF assms(1)])
  have dom: "dict_dom objs = dict_dom (l1_objects s) - set keys"
    using delete_keys_evictable [OF assms(2), of sl] s' by (simp add: s'_def)
  obtain k where k: "k \<in> set keys" using assms(3) by (cases keys) auto
  then have "k \<in> dict_dom (l1_objects s)" using assms(2) by (auto simp: evictable_iff dict_dom_iff)
  with dom k have "card (dict_dom objs) < card (dict_dom (l1_objects s))"
    by (intro psubset_card_mono) (auto simp: dict_dom_def)
  then have "length objs < length (l1_objects s)" using r assms(1) by (simp add: length_dict_dom l1_inv_def)
  then have fs: "fs \<noteq> []" using arg_cong [of _ _ size, OF r [THEN conjunct2, THEN conjunct2]]
    by (auto simp: objs_mem_def)
  have len: "length (ta_heap (l1_memory s')) = length (ta_heap (l1_memory s))" by (simp add: s')
  have sz: "mo_phy_size (ta_heap (l1_memory s') ! i) = mo_phy_size (ta_heap (l1_memory s) ! i)"
    if "i < length (ta_heap (l1_memory s))" for i
    using arg_cong [OF ta_batched_free_sizes, of "\<lambda>xs. xs ! i" sl "l1_memory s" fs] that len s' by simp
  have val: "i < length (ta_heap (l1_memory s)) \<and> mo_valid (ta_heap (l1_memory s) ! i)" if "i \<in># mset (objs_mem objs) + mset fs" for i
  proof -
    have "i \<in> set (valid_ids (ta_heap (l1_memory s)))"
      using that r assms(1) unfolding l1_inv_def by (metis set_mset_mset)
    then show ?thesis by (simp add: set_valid_ids)
  qed
  have "used_by (l1_memory s') (mset (objs_mem objs)) = used_by (l1_memory s) (mset (objs_mem objs))"
    unfolding used_by_def by (intro arg_cong [of _ _ sum_mset] image_mset_cong) (use val sz in auto)
  moreover have "used_by (l1_memory s) (mset (objs_mem (l1_objects s))) =
      used_by (l1_memory s) (mset (objs_mem objs)) + used_by (l1_memory s) (mset fs)"
    unfolding used_by_def by (simp flip: r [THEN conjunct2, THEN conjunct2])
  moreover have "0 < used_by (l1_memory s) (mset fs)"
  proof -
    have ta: "ta_inv sl (l1_memory s)" using assms(1) by (simp add: l1_inv_def)
    have pos: "0 < mo_phy_size (ta_heap (l1_memory s) ! i)" if "i \<in> set fs" for i
      using ta_inv_pos [OF ta nth_mem] val [of i] that by simp
    then have "0 < sum_list (map (\<lambda>i. mo_phy_size (ta_heap (l1_memory s) ! i)) fs)"
      using fs by (intro sum_list_pos_int) auto
    then show ?thesis by (simp add: used_by_def sum_mset_sum_list flip: mset_map)
  qed
  ultimately show ?thesis using l1_usage_mset [OF assms(1)] l1_usage_mset [OF inv'] s'(1) by simp
qed

section \<open>Properties\<close>

lemma is_evictable_eligible: "eligible (Some P) = P"
  by (simp add: eligible_def fun_eq_iff)

lemma l1_bridge_LRU: "\<exists>p'. foldl l1_bridge (LRU p) ns = LRU p'"
proof (induction ns arbitrary: p)
  case (Cons n ns)
  then show ?case by (cases n) auto
qed simp

lemma l1_bridge_Iso: "\<exists>p'. foldl l1_bridge (IsolatedLRU p) ns = IsolatedLRU p'"
proof (induction ns arbitrary: p)
  case (Cons n ns)
  then show ?case by (cases n) auto
qed simp

text \<open>
  C29. One pass of the L1 eviction loop with the LRU policy, on a manager in any state of a run, with
  IEEE rounding and at most \<open>2 ^ 53\<close> tracked keys. When the usage is below the watermark nothing
  changes. When it is at or above the watermark, exactly the oldest unlocked tracked keys leave, up
  to the target count, and every other key stays; when in addition some tracked key is unlocked
  and the ratio is positive, the memory in use goes down. With IsolatedLRU the pass raises instead,
  see \<open>l1_isolated_policy_raises\<close>.
\<close>

theorem l1_eviction_tick_spec:
  assumes "l1_reach sl sz k wttl rttl T (lc_l1 lc)" and "sorted_list_spec sl" and "T \<le> now"
    and "lc_policy lc = LRU p" and "ieee_rounding rnd" and "int (length (lru_order p)) \<le> 2 ^ 53"
  defines "l1 \<equiv> lc_l1 lc" and "ratio \<equiv> cfg_eviction_ratio (lc_config lc)"
    and "victims \<equiv> take (target_count rnd (length (lru_order p)) (cfg_eviction_ratio (lc_config lc)))
           (filter (is_key_evictable now (lc_l1 lc)) (lru_order p))"
    and "l1' \<equiv> lc_l1 (fst (l1_eviction_tick sl rnd now lc))"
  shows "(l1_usage rnd l1 < cfg_trigger_watermark (lc_config lc) \<longrightarrow> fst (l1_eviction_tick sl rnd now lc) = lc) \<and>
    (\<not> l1_usage rnd l1 < cfg_trigger_watermark (lc_config lc) \<longrightarrow>
       dict_dom (l1_objects l1') = dict_dom (l1_objects l1) - set victims \<and>
       (0 < ratio \<and> (\<exists>key\<in>set (lru_order p). is_key_evictable now l1 key) \<longrightarrow>
          fst (get_memory_usage l1') < fst (get_memory_usage l1)))"
proof (intro conjI impI)
  assume "l1_usage rnd l1 < cfg_trigger_watermark (lc_config lc)"
  then show "fst (l1_eviction_tick sl rnd now lc) = lc" by (simp add: l1_eviction_tick_def Let_def l1_def)
next
  assume w: "\<not> l1_usage rnd l1 < cfg_trigger_watermark (lc_config lc)"
  let ?acts = "lru_get_eviction_actions rnd ratio (Some (is_key_evictable now l1)) None p"
  have v: "concat (map ea_keys ?acts) = victims"
    by (simp add: lru_victims victims_def ratio_def l1_def is_evictable_eligible)
  have acts: "?acts = [] \<and> victims = [] \<or> (\<exists>d. ?acts = [\<lparr>ea_destination = d, ea_keys = victims\<rparr>])"
    using v by (auto simp: lru_get_eviction_actions_def Let_def split: if_splits)
  have l1': "l1' = l1 \<and> victims = [] \<or> l1' = fst (delete_keys sl now victims False l1)"
  proof -
    have "get_eviction_actions rnd ratio (Some (is_key_evictable now l1)) None (lc_policy lc) = Inr ?acts"
      by (simp add: get_eviction_actions_def assms(4))
    then have "l1' = foldl (l1_execute_eviction_action sl now) l1 ?acts"
      using w by (simp add: l1'_def l1_eviction_tick_def Let_def l1_def ratio_def)
    with acts show ?thesis by (elim disjE exE) (simp_all add: l1_execute_eviction_action_def)
  qed
  have ev: "\<forall>key\<in>set victims. is_key_evictable now l1 key"
    by (auto simp: victims_def l1_def dest!: in_set_takeD)
  show "dict_dom (l1_objects l1') = dict_dom (l1_objects l1) - set victims"
    using l1' delete_keys_evictable [OF ev, of sl] by (elim disjE conjE) simp_all
  assume r: "0 < ratio \<and> (\<exists>key\<in>set (lru_order p). is_key_evictable now l1 key)"
  have "0 < target_count rnd (length (lru_order p)) ratio"
    using r by (intro target_count_bounds(2) [OF assms(5,6)]) auto
  moreover have "filter (is_key_evictable now l1) (lru_order p) \<noteq> []" using r by (auto simp: filter_empty_conv)
  ultimately have ne: "victims \<noteq> []" by (simp add: victims_def l1_def ratio_def)
  have inv: "l1_inv sl now l1" unfolding l1_def by (rule l1_inv_later [OF l1_reach_inv [OF assms(1,2)] assms(3)])
  show "fst (get_memory_usage l1') < fst (get_memory_usage l1)"
    using delete_keys_releases [OF inv ev ne] l1' ne by (elim disjE conjE) simp_all
qed

text \<open>A concrete controller, for the witness: one key, written and unlocked.\<close>

definition demo_lc :: l1_controller where
  "demo_lc = \<lparr>lc_config = \<lparr>cfg_eviction_policy = ''LRU'', cfg_trigger_watermark = 1 / 10, cfg_eviction_ratio = 1 / 5\<rparr>,
     lc_policy0 = LRU (lru_init DISCARD), lc_listener = 0,
     lc_l1 = l1_exec list_sl 1 (Finish_Write [demo_key])
       (l1_exec list_sl 0 (Reserve_Write [demo_key] [False] demo_layout Mode_All)
         (l1_exec list_sl 0 Register_Listener (l1_init list_sl 16384 (2 ^ 12) 600 300)))\<rparr>"

lemma demo_lc_reach: "l1_reach list_sl 16384 12 600 300 1 (lc_l1 demo_lc)"
  unfolding demo_lc_def l1_controller.simps
  by (rule l1_reach.step [OF l1_reach.step [OF l1_reach.step [OF l1_reach.init]]])
    (simp_all add: demo_layout_ok)

lemma demo_lc_state:
  "lc_policy demo_lc = LRU (lru_on_keys_created [demo_key] (lru_init DISCARD))"
  "is_key_evictable 2 (lc_l1 demo_lc) demo_key"
  "\<not> l1_usage (\<lambda>x. x) (lc_l1 demo_lc) < 1 / 10"
  "dict_dom (l1_objects (lc_l1 demo_lc)) = {demo_key}"
  by (simp_all add: demo_lc_def lc_policy_def demo_layout_def l1_eval ta_eval finish_write_def is_key_evictable_def
      l1_usage_def get_memory_usage_def mm_get_memory_usage_def get_free_size_def get_heap_size_def dict_dom_def)

theorem l1_eviction_tick_spec_witness:
  "dict_dom (l1_objects (lc_l1 (fst (l1_eviction_tick list_sl (\<lambda>x. x) 2 demo_lc)))) = {} \<and>
   fst (get_memory_usage (lc_l1 (fst (l1_eviction_tick list_sl (\<lambda>x. x) 2 demo_lc)))) <
     fst (get_memory_usage (lc_l1 demo_lc))"
proof -
  have o: "lru_order (lru_on_keys_created [demo_key] (lru_init DISCARD)) = [demo_key]"
    by (simp add: lru_on_keys_created_def lru_init_def order_created_def)
  have c: "cfg_trigger_watermark (lc_config demo_lc) = 1 / 10" "cfg_eviction_ratio (lc_config demo_lc) = 1 / 5"
    by (simp_all add: demo_lc_def)
  show ?thesis
    using l1_eviction_tick_spec [OF demo_lc_reach list_sl_spec, of 2, OF _ demo_lc_state(1) ieee_rounding_id]
      demo_lc_state(2-4)
    unfolding o c by (simp add: target_count_def Let_def)
qed

text \<open>
  C36. With the policy \<open>IsolatedLRU\<close>, which the option \<open>--eviction-policy\<close> accepts, the L1 loop passes
  no salt: the first pass at or above the watermark raises \<open>ValueError\<close> and evicts nothing.
\<close>

theorem l1_isolated_policy_raises:
  assumes "cfg_eviction_policy cfg = ''IsolatedLRU''"
  shows "\<exists>lc0. lc_init l1 cfg = Inr lc0 \<and>
    (\<forall>l1'. \<not> l1_usage rnd l1' < cfg_trigger_watermark cfg \<longrightarrow>
       l1_eviction_tick sl rnd now (lc0\<lparr>lc_l1 := l1'\<rparr>) = (lc0\<lparr>lc_l1 := l1'\<rparr>, Inl ValueError))"
proof -
  obtain lc0 where lc0: "lc_init l1 cfg = Inr lc0" "lc_config lc0 = cfg" "lc_policy0 lc0 = IsolatedLRU (iso_init DISCARD)"
    using assms by (simp add: lc_init_def CreateEvictionPolicy_def)
  have "l1_eviction_tick sl rnd now (lc0\<lparr>lc_l1 := l1'\<rparr>) = (lc0\<lparr>lc_l1 := l1'\<rparr>, Inl ValueError)"
    if "\<not> l1_usage rnd l1' < cfg_trigger_watermark cfg" for l1'
  proof -
    obtain p' where "foldl l1_bridge (IsolatedLRU (iso_init DISCARD)) (l1_listeners l1' ! lc_listener lc0) = IsolatedLRU p'"
      using l1_bridge_Iso by blast
    then show ?thesis using that lc0
      by (simp add: l1_eviction_tick_def Let_def lc_policy_def get_eviction_actions_def iso_get_eviction_actions_def)
  qed
  with lc0(1) show ?thesis by blast
qed

theorem l1_isolated_policy_raises_witness:
  "\<exists>lc0. lc_init (l1_init list_sl 16384 (2 ^ 12) 600 300)
      \<lparr>cfg_eviction_policy = ''IsolatedLRU'', cfg_trigger_watermark = 0, cfg_eviction_ratio = 1 / 5\<rparr> = Inr lc0 \<and>
    snd (l1_eviction_tick list_sl (\<lambda>x. x) 0 lc0) = Inl ValueError"
proof -
  let ?cfg = "\<lparr>cfg_eviction_policy = ''IsolatedLRU'', cfg_trigger_watermark = 0, cfg_eviction_ratio = 1 / 5\<rparr>"
  let ?l1 = "l1_init list_sl 16384 (2 ^ 12) 600 300 :: object_key l1_manager"
  obtain lc0 where lc0: "lc_init ?l1 ?cfg = Inr lc0"
    "\<forall>l1'. \<not> l1_usage (\<lambda>x. x) l1' < cfg_trigger_watermark ?cfg \<longrightarrow>
       l1_eviction_tick list_sl (\<lambda>x. x) 0 (lc0\<lparr>lc_l1 := l1'\<rparr>) = (lc0\<lparr>lc_l1 := l1'\<rparr>, Inl ValueError)"
    using l1_isolated_policy_raises [of ?cfg ?l1 "\<lambda>x. x" list_sl 0] by auto
  have "lc_l1 lc0 = register_listener ?l1" using lc0(1) by (auto simp: lc_init_def CreateEvictionPolicy_def)
  then have "\<not> l1_usage (\<lambda>x. x) (lc_l1 lc0) < cfg_trigger_watermark ?cfg"
    by (simp add: l1_usage_def get_memory_usage_def mm_get_memory_usage_def get_free_size_def get_heap_size_def
        register_listener_def l1_init_def ta_init_def am_init_def)
  then have "l1_eviction_tick list_sl (\<lambda>x. x) 0 (lc0\<lparr>lc_l1 := lc_l1 lc0\<rparr>) = (lc0\<lparr>lc_l1 := lc_l1 lc0\<rparr>, Inl ValueError)"
    by (rule lc0(2) [rule_format])
  then have "snd (l1_eviction_tick list_sl (\<lambda>x. x) 0 lc0) = Inl ValueError" by simp
  with lc0(1) show ?thesis by (intro exI [of _ lc0] conjI)
qed

text \<open>
  C28. Quota eviction in L2: a pass deletes exactly the victims of the salts that are over their
  quota, and of no other salt; a salt without a quota that holds bytes loses its whole bucket.
\<close>

theorem l2_salt_eviction:
  assumes "l2_policy st = IsolatedLRU p" and "iso_inv p" and "ieee_rounding rnd"
    and "\<forall>s. int (length (bucket p s)) \<le> 2 ^ 53"
  defines "items \<equiv> au_bytes_by_cache_salt (l2_usage st)" and "wm \<equiv> cfg_trigger_watermark (l2_config st)"
  shows "\<exists>calls. check_and_evict rnd (Some q) st = Inr calls \<and>
    mset (concat calls) = mset (concat (map (salt_victims rnd (l2_config st) q p) items)) \<and>
    (\<forall>key\<in>set (concat calls). \<exists>b. (cache_salt key, b) \<in> set items \<and> over_quota rnd wm q (cache_salt key) b) \<and>
    (\<forall>(s, b)\<in>set items. 0 < b \<and> \<not> has_quota s q \<longrightarrow> set (bucket p s) \<subseteq> set (concat calls))"
proof -
  obtain pend where l: "salt_loop rnd (l2_config st) (IsolatedLRU p) q items [] = Inr pend"
      "mset (concat (map snd pend)) = mset (concat (map (salt_victims rnd (l2_config st) q p) items))"
    using salt_loop_victims [of rnd "l2_config st" p q items "[]"] by auto
  let ?calls = "map snd pend"
  have c: "check_and_evict rnd (Some q) st = Inr ?calls"
    using l(1) assms(1) by (simp add: check_and_evict_def check_and_evict_by_cache_salt_def items_def
        l2_execute_eviction_action_def case_prod_unfold)
  have set_eq: "set (concat ?calls) = (\<Union>i\<in>set items. set (salt_victims rnd (l2_config st) q p i))"
    using arg_cong [OF l(2), of set_mset] by simp
  have own: "\<exists>b. (cache_salt key, b) \<in> set items \<and> over_quota rnd wm q (cache_salt key) b"
    if key: "key \<in> set (concat ?calls)" for key
  proof -
    obtain s b where i: "(s, b) \<in> set items" "key \<in> set (salt_victims rnd (l2_config st) q p (s, b))"
      using key unfolding set_eq by fastforce
    then have o: "over_quota rnd wm q s b" "key \<in> set (bucket p s)"
      by (auto simp: salt_victims_def wm_def split: if_splits dest: in_set_takeD)
    with assms(2) have "cache_salt key = s" by (auto simp: iso_inv_def)
    with i o show ?thesis by auto
  qed
  have wipe: "set (bucket p s) \<subseteq> set (concat ?calls)" if "(s, b) \<in> set items" "0 < b" "\<not> has_quota s q" for s b
  proof -
    have lim: "get_limit_bytes s q = 0" using that(3) by (simp add: has_quota_def get_limit_bytes_def dict_get_default_def)
    have "over_quota rnd wm q s b" using that(2) ieee_zero [OF assms(3)] by (simp add: over_quota_def lim)
    moreover have "target_count rnd (length (bucket p s)) 1 = length (bucket p s)"
      using ieee_nat [OF assms(3), of "length (bucket p s)"] assms(4) by (auto simp: target_count_def Let_def)
    ultimately have "set (salt_victims rnd (l2_config st) q p (s, b)) = set (bucket p s)"
      by (simp add: salt_victims_def wm_def lim)
    with that(1) show ?thesis unfolding set_eq by blast
  qed
  show ?thesis
    by (rule exI [of _ ?calls]) (use c l(2) own wipe in blast)
qed

theorem l2_salt_eviction_witness:
  "\<exists>calls. check_and_evict (\<lambda>x. x) (Some qm_init)
      \<lparr>l2_adapter_id = 0, l2_config = \<lparr>cfg_eviction_policy = ''IsolatedLRU'', cfg_trigger_watermark = 1, cfg_eviction_ratio = 1 / 5\<rparr>,
       l2_policy = IsolatedLRU (iso_on_keys_created demo_keys (iso_init DISCARD)),
       l2_usage = \<lparr>au_total_bytes_used = 100, au_total_capacity_bytes = 0, au_bytes_by_cache_salt = [(''u1'', 100)]\<rparr>\<rparr> = Inr calls \<and>
    set demo_keys \<subseteq> set (concat calls)"
proof -
  let ?p = "iso_on_keys_created demo_keys (iso_init DISCARD)"
  have i: "iso_inv (iso_init DISCARD)" by (simp add: iso_inv_def iso_init_def bucket_def)
  then have inv: "iso_inv ?p" using iso.created_law by blast
  have b: "bucket ?p s = (if s = ''u1'' then rev demo_keys else [])" for s
  proof -
    have e: "bucket (iso_init DISCARD) s = []" by (simp add: bucket_def iso_init_def)
    have "salt_of s demo_keys = (if s = ''u1'' then demo_keys else [])"
      by (auto simp: salt_of_def demo_keys_def demo_key_def)
    then show ?thesis
      using foldl_created [of "[]" "rev demo_keys"] demo_keys_distinct by (simp add: iso_bucket_ops e)
  qed
  have "length demo_keys = 3" by (simp add: demo_keys_def)
  then have "\<forall>s. int (length (bucket ?p s)) \<le> 2 ^ 53" by (simp add: b)
  from l2_salt_eviction [OF _ inv ieee_rounding_id this, of
      "\<lparr>l2_adapter_id = 0, l2_config = \<lparr>cfg_eviction_policy = ''IsolatedLRU'', cfg_trigger_watermark = 1, cfg_eviction_ratio = 1 / 5\<rparr>,
       l2_policy = IsolatedLRU ?p,
       l2_usage = \<lparr>au_total_bytes_used = 100, au_total_capacity_bytes = 0, au_bytes_by_cache_salt = [(''u1'', 100)]\<rparr>\<rparr>" qm_init]
  obtain calls where "check_and_evict (\<lambda>x. x) (Some qm_init)
      \<lparr>l2_adapter_id = 0, l2_config = \<lparr>cfg_eviction_policy = ''IsolatedLRU'', cfg_trigger_watermark = 1, cfg_eviction_ratio = 1 / 5\<rparr>,
       l2_policy = IsolatedLRU ?p,
       l2_usage = \<lparr>au_total_bytes_used = 100, au_total_capacity_bytes = 0, au_bytes_by_cache_salt = [(''u1'', 100)]\<rparr>\<rparr> = Inr calls"
      "set (bucket ?p ''u1'') \<subseteq> set (concat calls)"
    by (auto simp: has_quota_def qm_init_def)
  then show ?thesis by (auto simp: b)
qed

end
