(* ===== verification/Fleet_Eviction.thy ===== *)
theory Fleet_Eviction
  imports Usage_Manager Instance_Registry Eviction_Controller
begin

text \<open>
  \<^verbatim>\<open>lmcache/v1/mp_coordinator/controllers/eviction_controller.py\<close>: \<open>FleetEvictionController\<close>, the
  fleet-wide quota eviction of L2 keys. It reads the usage view, which has consumed a batch
  before the controller does, and owns the quota registry, the recency policy and the pins.
\<close>

section \<open>State and events\<close>

record fleet =
  fl_quota :: quota_manager
  fl_eviction_ratio :: pyfloat
  fl_trigger_watermark :: pyfloat
  fl_policy :: iso_policy
  fl_pin_counts :: "(object_key, int) pydict"

definition fleet_init :: "pyfloat \<Rightarrow> pyfloat \<Rightarrow> fleet" where
  "fleet_init eviction_ratio trigger_watermark =
     \<lparr>fl_quota = qm_init, fl_eviction_ratio = max 0 (min 1 eviction_ratio), fl_trigger_watermark = trigger_watermark,
      fl_policy = iso_init DISCARD, fl_pin_counts = []\<rparr>"

definition on_store :: "object_key \<Rightarrow> fleet \<Rightarrow> fleet" where
  "on_store key f = f\<lparr>fl_policy := iso_on_keys_created [key] (fl_policy f)\<rparr>"

definition on_lookup :: "object_key \<Rightarrow> fleet \<Rightarrow> fleet" where
  "on_lookup key f = f\<lparr>fl_policy := iso_on_keys_touched [key] (fl_policy f)\<rparr>"

definition on_remove :: "object_key \<Rightarrow> fleet \<Rightarrow> fleet" where
  "on_remove key f = f\<lparr>fl_policy := iso_on_keys_removed [key] (fl_policy f)\<rparr>"

definition fleet_entry :: "usage_manager \<Rightarrow> event_batch \<Rightarrow> fleet \<Rightarrow> event_entry \<Rightarrow> fleet" where
  "fleet_entry u b f e =
     (case event_type b of
        STORE \<Rightarrow> on_store (ee_key e) f
      | ACCESS \<Rightarrow> on_lookup (ee_key e) f
      | DELETE \<Rightarrow> if get_key_bytes L2 (ee_key e) u = 0 then on_remove (ee_key e) f else f
      | CONFIG \<Rightarrow> f)"

definition fleet_consume :: "usage_manager \<Rightarrow> event_batch \<Rightarrow> fleet \<Rightarrow> fleet" where
  "fleet_consume u b f = (if batch_tier b \<noteq> L2 then f else foldl (fleet_entry u b) f (entries b))"

definition fleet_fence :: "string \<Rightarrow> fleet \<Rightarrow> fleet" where
  "fleet_fence i f = f"

section \<open>Pins\<close>

definition pin :: "object_key list \<Rightarrow> fleet \<Rightarrow> fleet" where
  "pin keys f = f\<lparr>fl_pin_counts := foldl (\<lambda>d k. dict_set k (dict_get_default d k 0 + 1) d) (fl_pin_counts f) keys\<rparr>"

definition unpin_step :: "(object_key, int) pydict \<Rightarrow> object_key \<Rightarrow> (object_key, int) pydict" where
  "unpin_step d k =
     (let cnt = dict_get_default d k 0
      in if cnt \<le> 1 then dict_del k d else dict_set k (cnt - 1) d)"

definition unpin :: "object_key list \<Rightarrow> fleet \<Rightarrow> fleet" where
  "unpin keys f = f\<lparr>fl_pin_counts := foldl unpin_step (fl_pin_counts f) keys\<rparr>"

definition filter_unpinned :: "object_key list \<Rightarrow> fleet \<Rightarrow> object_key list" where
  "filter_unpinned keys f = filter (\<lambda>key. dict_get (fl_pin_counts f) key = None) keys"

definition drop_pins :: "object_key list \<Rightarrow> fleet \<Rightarrow> fleet" where
  "drop_pins keys f = f\<lparr>fl_pin_counts := foldl (\<lambda>d k. dict_del k d) (fl_pin_counts f) keys\<rparr>"

definition pins_capture :: "fleet \<Rightarrow> (encoded_object_key \<times> int) list" where
  "pins_capture f = map (\<lambda>(key, cnt). (to_encoded_object_key key, cnt)) (fl_pin_counts f)"

fun pins_restore_loop :: "(encoded_object_key \<times> int) list \<Rightarrow> (object_key, int) pydict \<Rightarrow> (object_key, int) pydict result" where
  "pins_restore_loop [] d = Inr d"
| "pins_restore_loop ((ek, cnt) # xs) d =
     (case to_object_key ek of
        Inl err \<Rightarrow> Inl err
      | Inr key \<Rightarrow> pins_restore_loop xs (if cnt > 0 then dict_set key cnt d else d))"

definition pins_restore :: "(encoded_object_key \<times> int) list \<Rightarrow> fleet \<Rightarrow> fleet result" where
  "pins_restore st f =
     (case pins_restore_loop st [] of Inl err \<Rightarrow> Inl err | Inr d \<Rightarrow> Inr (f\<lparr>fl_pin_counts := d\<rparr>))"

section \<open>The eviction plan\<close>

type_synonym plan = "(string, object_key list) pydict"

definition fleet_over_quota :: "(rat \<Rightarrow> rat) \<Rightarrow> usage_manager \<Rightarrow> fleet \<Rightarrow> string \<Rightarrow> int option" where
  "fleet_over_quota rnd u f salt =
     (let current_bytes = get_salt_bytes L2 salt u
      in if current_bytes \<le> 0 then None
         else case effective_limit_bytes salt (fl_quota f) of
                None \<Rightarrow> None
              | Some limit \<Rightarrow>
                  if of_int current_bytes < rnd (fl_trigger_watermark f * rnd (of_int limit)) then None else Some limit)"

fun plan_loop :: "(rat \<Rightarrow> rat) \<Rightarrow> usage_manager \<Rightarrow> fleet \<Rightarrow> string list \<Rightarrow> plan \<Rightarrow> plan result" where
  "plan_loop rnd u f [] acc = Inr acc"
| "plan_loop rnd u f (salt # salts) acc =
     (case fleet_over_quota rnd u f salt of
        None \<Rightarrow> plan_loop rnd u f salts acc
      | Some limit \<Rightarrow>
          (case iso_get_eviction_actions rnd (if limit = 0 then 1 else fl_eviction_ratio f)
                  (Some (\<lambda>key. dict_get (fl_pin_counts f) key = None)) (Some salt) (fl_policy f) of
             Inl err \<Rightarrow> Inl err
           | Inr actions \<Rightarrow>
               (let keys_to_evict = concat (map ea_keys actions)
                in plan_loop rnd u f salts (if keys_to_evict \<noteq> [] then dict_set salt keys_to_evict acc else acc))))"

definition compute_eviction_plan :: "(rat \<Rightarrow> rat) \<Rightarrow> usage_manager \<Rightarrow> fleet \<Rightarrow> plan result" where
  "compute_eviction_plan rnd u f = plan_loop rnd u f (iso_get_tracked_salts (fl_policy f)) []"

definition MAX_DELETE_BATCH :: nat where
  "MAX_DELETE_BATCH = 10000"

text \<open>\<open>keys[start : start + size] for start in range(0, len(keys), size)\<close>\<close>

definition chunks :: "nat \<Rightarrow> 'a list \<Rightarrow> 'a list list" where
  "chunks sz xs = map (\<lambda>n. take sz (drop (n * sz) xs)) [0..<(length xs + sz - 1) div sz]"

text \<open>One pass: the plan, and the requests that are sent, each an instance and the keys of a body.\<close>

definition execute_evictions ::
  "(rat \<Rightarrow> rat) \<Rightarrow> (mp_instance list \<Rightarrow> mp_instance) \<Rightarrow> usage_manager \<Rightarrow> registry \<Rightarrow> fleet
     \<Rightarrow> (plan \<times> (mp_instance \<times> encoded_object_key list) list) result" where
  "execute_evictions rnd choice u reg f =
     (case compute_eviction_plan rnd u f of
        Inl err \<Rightarrow> Inl err
      | Inr plan \<Rightarrow>
          if plan = [] then Inr (plan, [])
          else case random_instance choice reg of
                 None \<Rightarrow> Inr (plan, [])
               | Some target \<Rightarrow>
                   Inr (plan, map (\<lambda>chunk. (target, map to_encoded_object_key chunk))
                                (chunks MAX_DELETE_BATCH (concat (dict_values plan)))))"

section \<open>Chunks\<close>

lemma chunks_concat:
  assumes "0 < sz"
  shows "concat (chunks sz xs) = xs"
proof -
  have "concat (map (\<lambda>n. take sz (drop (n * sz) xs)) [0..<m]) = take (m * sz) xs" for m
  proof (induction m)
    case (Suc m)
    then show ?case by (simp add: take_add [of "m * sz" sz, simplified add.commute] add.commute)
  qed simp
  moreover have "length xs \<le> (length xs + sz - 1) div sz * sz"
  proof -
    have "length xs + sz - 1 = (length xs + sz - 1) div sz * sz + (length xs + sz - 1) mod sz" by simp
    moreover have "(length xs + sz - 1) mod sz \<le> sz - 1" using mod_less_divisor [OF assms, of "length xs + sz - 1"] by linarith
    ultimately show ?thesis using assms by linarith
  qed
  ultimately show ?thesis by (simp add: chunks_def)
qed

lemma chunks_length: "c \<in> set (chunks sz xs) \<Longrightarrow> length c \<le> sz"
  by (auto simp: chunks_def)

section \<open>The plan\<close>

definition fleet_victims :: "(rat \<Rightarrow> rat) \<Rightarrow> usage_manager \<Rightarrow> fleet \<Rightarrow> string \<Rightarrow> object_key list" where
  "fleet_victims rnd u f salt =
     (case fleet_over_quota rnd u f salt of
        None \<Rightarrow> []
      | Some limit \<Rightarrow>
          take (target_count rnd (length (bucket (fl_policy f) salt)) (if limit = 0 then 1 else fl_eviction_ratio f))
            (filter_unpinned (bucket (fl_policy f) salt) f))"

lemma iso_victims:
  obtains acts where "iso_get_eviction_actions rnd r (Some P) (Some s) p = Inr acts"
    and "concat (map ea_keys acts) = take (target_count rnd (length (bucket p s)) r) (filter P (bucket p s))"
proof -
  let ?acts = "lru_get_eviction_actions rnd r (Some P) None (iso_lru s p)"
  have "iso_get_eviction_actions rnd r (Some P) (Some s) p = Inr ?acts"
    by (simp add: iso_lru_def iso_get_eviction_actions_def lru_get_eviction_actions_def bucket_def dict_get_default_def Let_def)
  moreover have "eligible (Some P) = P" by (simp add: eligible_def fun_eq_iff)
  then have "concat (map ea_keys ?acts) = take (target_count rnd (length (bucket p s)) r) (filter P (bucket p s))"
    by (simp add: lru_victims iso_lru_def)
  ultimately show thesis by (rule that)
qed

lemma plan_loop_spec:
  assumes "distinct salts" and "\<forall>s\<in>set salts. map_of acc s = None"
  shows "\<exists>plan. plan_loop rnd u f salts acc = Inr plan \<and>
    (\<forall>s. map_of plan s = (if s \<in> set salts \<and> fleet_victims rnd u f s \<noteq> [] then Some (fleet_victims rnd u f s) else map_of acc s)) \<and>
    (dict_wf acc \<longrightarrow> dict_wf plan)"
  using assms
proof (induction salts arbitrary: acc)
  case (Cons salt salts)
  show ?case
  proof (cases "fleet_over_quota rnd u f salt")
    case None
    then have "fleet_victims rnd u f salt = []" by (simp add: fleet_victims_def)
    with Cons.IH [of acc] Cons.prems None show ?thesis by auto
  next
    case (Some limit)
    let ?r = "if limit = 0 then 1 else fl_eviction_ratio f" and ?P = "\<lambda>key. map_of (fl_pin_counts f) key = None"
    obtain acts where a: "iso_get_eviction_actions rnd ?r (Some ?P) (Some salt) (fl_policy f) = Inr acts"
      and v: "concat (map ea_keys acts) = fleet_victims rnd u f salt"
      by (rule iso_victims [of rnd ?r ?P salt "fl_policy f"]) (simp add: fleet_victims_def Some filter_unpinned_def)
    let ?acc = "if fleet_victims rnd u f salt \<noteq> [] then dict_set salt (fleet_victims rnd u f salt) acc else acc"
    have "\<forall>s\<in>set salts. map_of ?acc s = None" using Cons.prems by auto
    from Cons.IH [OF _ this] Cons.prems(1) obtain plan where
      "plan_loop rnd u f salts ?acc = Inr plan"
      "\<forall>s. map_of plan s = (if s \<in> set salts \<and> fleet_victims rnd u f s \<noteq> [] then Some (fleet_victims rnd u f s) else map_of ?acc s)"
      "dict_wf ?acc \<longrightarrow> dict_wf plan" by auto
    then show ?thesis using Cons.prems(2) Some a v by (auto simp: Let_def)
  qed
qed simp


definition fleet_ok :: "fleet \<Rightarrow> bool" where
  "fleet_ok f \<longleftrightarrow> iso_inv (fl_policy f) \<and> iso_wf (fl_policy f) \<and>
     dict_wf (iso_per_salt_order (fl_policy f)) \<and> dict_wf (fl_pin_counts f) \<and>
     (\<forall>k n. map_of (fl_pin_counts f) k = Some n \<longrightarrow> 0 < n \<and> key_ok k)"

lemma compute_eviction_plan_spec:
  assumes "fleet_ok f"
  obtains plan where "compute_eviction_plan rnd u f = Inr plan" and "dict_wf plan"
    and "\<And>s. map_of plan s = (if fleet_victims rnd u f s \<noteq> [] then Some (fleet_victims rnd u f s) else None)"
proof -
  let ?salts = "map fst (iso_per_salt_order (fl_policy f))"
  have d: "distinct ?salts" using assms by (simp add: fleet_ok_def dict_wf_def)
  from plan_loop_spec [OF d, of "[]" rnd u f] obtain plan where
    p: "plan_loop rnd u f ?salts [] = Inr plan" "dict_wf plan"
    "\<forall>s. map_of plan s = (if s \<in> set ?salts \<and> fleet_victims rnd u f s \<noteq> [] then Some (fleet_victims rnd u f s) else None)" by auto
  have "s \<in> set ?salts" if "fleet_victims rnd u f s \<noteq> []" for s
  proof -
    have "bucket (fl_policy f) s \<noteq> []" using that by (auto simp: fleet_victims_def filter_unpinned_def split: option.splits)
    then show ?thesis
      by (auto simp: bucket_def dict_get_default_def split: option.splits dest: map_of_SomeD intro!: image_eqI [of _ fst])
  qed
  then show thesis using p that [of plan] by (auto simp: compute_eviction_plan_def iso_get_tracked_salts_def)
qed

text \<open>Pins: counts are positive, so a key is pinned exactly when it is in the table.\<close>

lemma pin_counts_set: "dict_get_default (foldl (\<lambda>d k. dict_set k (dict_get_default d k 0 + 1) d) d keys) k 0 =
    dict_get_default d k 0 + int (count_list keys k)"
  by (induction keys arbitrary: d) simp_all

lemma unpin_counts: "dict_get_default (foldl unpin_step d keys) k 0 = max 0 (dict_get_default d k 0 - int (count_list keys k))"
  if "0 \<le> dict_get_default d k 0"
  using that by (induction keys arbitrary: d) (auto simp: unpin_step_def Let_def)

lemma fleet_pin_ok:
  assumes "fleet_ok f"
  shows "\<forall>k\<in>set keys. key_ok k \<Longrightarrow> fleet_ok (pin keys f)" and "fleet_ok (unpin keys f)" and "fleet_ok (drop_pins keys f)"
proof -
  let ?ok = "\<lambda>d. dict_wf d \<and> (\<forall>k n. map_of d k = Some n \<longrightarrow> 0 < (n :: int) \<and> key_ok k)"
  show "fleet_ok (pin keys f)" if "\<forall>k\<in>set keys. key_ok k"
  proof -
    have "?ok (foldl (\<lambda>d k. dict_set k (dict_get_default d k 0 + 1) d) (fl_pin_counts f) keys)"
      by (rule foldl_inv) (use assms that in \<open>auto simp: fleet_ok_def dict_get_default_def add_nonneg_pos less_imp_le split: option.splits\<close>)
    then show ?thesis using assms by (simp add: fleet_ok_def pin_def)
  qed
  have "?ok (foldl unpin_step (fl_pin_counts f) keys)"
    by (rule foldl_inv) (use assms in \<open>auto simp: fleet_ok_def unpin_step_def Let_def dict_get_default_def split: if_splits option.splits\<close>)
  then show "fleet_ok (unpin keys f)" using assms by (simp add: fleet_ok_def unpin_def)
  have "?ok (foldl (\<lambda>d k. dict_del k d) (fl_pin_counts f) keys)"
    by (rule foldl_inv) (use assms in \<open>auto simp: fleet_ok_def split: if_splits\<close>)
  then show "fleet_ok (drop_pins keys f)" using assms by (simp add: fleet_ok_def drop_pins_def)
qed


section \<open>Events keep every key with L2 bytes evictable\<close>

lemma iso_tracked_ops:
  assumes "iso_inv p"
  shows "iso_tracked (iso_on_keys_created [k] p) = insert k (iso_tracked p)"
    and "iso_tracked (iso_on_keys_touched [k] p) = iso_tracked p"
    and "iso_tracked (iso_on_keys_removed [k] p) = iso_tracked p - {k}"
  using assms by (auto simp: iso_tracked_def iso_bucket_ops salt_of_def iso_inv_def)

lemma iso_orders_dict_wf:
  assumes "dict_wf (iso_per_salt_order p)"
  shows "dict_wf (iso_per_salt_order (iso_on_keys_created [k] p))" and "dict_wf (iso_per_salt_order (iso_on_keys_touched [k] p))"
    and "dict_wf (iso_per_salt_order (iso_on_keys_removed [k] p))"
  using assms
  by (simp_all add: iso_on_keys_created_def iso_on_keys_touched_def iso_on_keys_removed_def
      iso_created_step_def iso_touched_step_def iso_removed_step_def Let_def split: option.splits)

lemma fleet_entry_ok:
  assumes "fleet_ok f" and "event_entry_ok e"
  shows "fleet_ok (fleet_entry u b f e)"
    and "iso_tracked (fl_policy (fleet_entry u b f e)) =
      (case event_type b of
         STORE \<Rightarrow> insert (ee_key e) (iso_tracked (fl_policy f))
       | DELETE \<Rightarrow> if get_key_bytes L2 (ee_key e) u = 0 then iso_tracked (fl_policy f) - {ee_key e} else iso_tracked (fl_policy f)
       | _ \<Rightarrow> iso_tracked (fl_policy f))"
proof -
  have p: "iso_inv (fl_policy f)" "iso_wf (fl_policy f)" "dict_wf (iso_per_salt_order (fl_policy f))" and k: "key_ok (ee_key e)"
    using assms by (simp_all add: fleet_ok_def event_entry_ok_def)
  show "fleet_ok (fleet_entry u b f e)"
    using assms(1) k iso.created_law [OF p(1)] iso.touched_law [OF p(1)] iso.removed_law [OF p(1)]
      iso_ops_wf [OF p(2)] iso_orders_dict_wf [OF p(3)]
    by (simp add: fleet_entry_def fleet_ok_def on_store_def on_lookup_def on_remove_def split: cache_event_type.splits)
  show "iso_tracked (fl_policy (fleet_entry u b f e)) =
      (case event_type b of
         STORE \<Rightarrow> insert (ee_key e) (iso_tracked (fl_policy f))
       | DELETE \<Rightarrow> if get_key_bytes L2 (ee_key e) u = 0 then iso_tracked (fl_policy f) - {ee_key e} else iso_tracked (fl_policy f)
       | _ \<Rightarrow> iso_tracked (fl_policy f))"
    by (simp add: fleet_entry_def on_store_def on_lookup_def on_remove_def iso_tracked_ops [OF p(1)] split: cache_event_type.splits)
qed

lemma fleet_consume_ok:
  assumes "fleet_ok f" and "batch_ok b"
  shows "fleet_ok (fleet_consume u b f)"
    and "k \<in> iso_tracked (fl_policy f) \<Longrightarrow> 0 < get_key_bytes L2 k u \<Longrightarrow> k \<in> iso_tracked (fl_policy (fleet_consume u b f))"
    and "event_type b = STORE \<Longrightarrow> batch_tier b = L2 \<Longrightarrow> e \<in> set (entries b) \<Longrightarrow>
      ee_key e \<in> iso_tracked (fl_policy (fleet_consume u b f))"
proof -
  have entry: "\<forall>e\<in>set (entries b). event_entry_ok e" using assms(2) by (rule batch_okD)
  have ok: "fleet_ok (foldl (fleet_entry u b) f es)" if "\<forall>e\<in>set es. event_entry_ok e" "fleet_ok f" for f es
    using foldl_inv [of fleet_ok f es "fleet_entry u b"] that fleet_entry_ok(1) by blast
  then show "fleet_ok (fleet_consume u b f)" using assms(1) entry by (simp add: fleet_consume_def)
  have keep: "k \<in> iso_tracked (fl_policy (foldl (fleet_entry u b) f es))"
    if "\<forall>e\<in>set es. event_entry_ok e" "fleet_ok f" "k \<in> iso_tracked (fl_policy f)" "0 < get_key_bytes L2 k u \<or> event_type b = STORE" for k f es
    using that
  proof (induction es arbitrary: f)
    case (Cons e es)
    have "k \<in> iso_tracked (fl_policy (fleet_entry u b f e))"
      using Cons.prems fleet_entry_ok(2) [of f e u b] by (cases "event_type b") auto
    then show ?case using Cons fleet_entry_ok(1) [of f e u b] by simp
  qed simp
  show "k \<in> iso_tracked (fl_policy f) \<Longrightarrow> 0 < get_key_bytes L2 k u \<Longrightarrow> k \<in> iso_tracked (fl_policy (fleet_consume u b f))"
    using keep [OF entry assms(1)] by (simp add: fleet_consume_def)
  show "ee_key e \<in> iso_tracked (fl_policy (fleet_consume u b f))"
    if st: "event_type b = STORE" and t: "batch_tier b = L2" and e: "e \<in> set (entries b)"
  proof -
    obtain xs ys where es: "entries b = xs @ e # ys" using e by (auto simp: in_set_conv_decomp)
    let ?f = "foldl (fleet_entry u b) f xs"
    have f: "fleet_ok ?f" using ok [of xs f] entry assms(1) by (simp add: es)
    then have "fleet_ok (fleet_entry u b ?f e)" and "ee_key e \<in> iso_tracked (fl_policy (fleet_entry u b ?f e))"
      using fleet_entry_ok [OF f, of e u b] entry st by (auto simp: es)
    then show ?thesis using keep [of ys "fleet_entry u b ?f e" "ee_key e"] entry st t by (simp add: fleet_consume_def es)
  qed
qed

lemma bytes_pos:
  assumes "\<And>pid v. m pid = Some v \<Longrightarrow> 0 \<le> v" and "0 < bytes_of m P"
  obtains pid v where "m pid = Some v" and "P pid" and "0 < v"
proof -
  have "\<exists>pid\<in>{pid \<in> dom m. P pid}. 0 < the (m pid)"
  proof (rule ccontr)
    assume none: "\<not> ?thesis"
    have "bytes_of m P \<le> 0"
      unfolding bytes_of_def by (rule sum_nonpos) (use none linorder_not_less in blast)
    with assms(2) show False by simp
  qed
  with that show thesis by auto
qed

lemma bytes_posI:
  assumes "\<And>pid v. m pid = Some v \<Longrightarrow> 0 \<le> v" and "finite (dom m)" and "m pid = Some v" and "P pid" and "0 < v"
  shows "0 < bytes_of m P"
proof -
  have fin: "finite {pid \<in> dom m. P pid}" using assms(2) by simp
  have "0 < (\<Sum>pid\<in>{pid \<in> dom m. P pid}. the (m pid))"
    by (rule sum_pos2 [OF fin, of pid]) (use assms in auto)
  then show ?thesis by (simp add: bytes_of_def)
qed

lemma abs_um_entries_origin:
  "foldl (abs_um_entry b) m es pid = Some v \<Longrightarrow> m pid = Some v \<or>
     event_type b = STORE \<and> (\<exists>e\<in>set es. pid = (batch_tier b, ee_key e, batch_owner b, backend b))"
proof (induction es arbitrary: m)
  case (Cons e es)
  have "abs_um_entry b m e pid = Some v \<Longrightarrow> m pid = Some v \<or>
      event_type b = STORE \<and> pid = (batch_tier b, ee_key e, batch_owner b, backend b)"
    by (cases "event_type b") (auto simp: abs_um_entry_def split: if_splits)
  with Cons show ?case by fastforce
qed simp

lemma um_inv_sizes: "um_inv u \<Longrightarrow> map_of (placement_sizes u) pid = Some v \<Longrightarrow> 0 \<le> v"
  unfolding um_inv_def rolls_ok_def sizes_ok_def by blast

lemma key_bytes_after_consume:
  assumes inv: "um_inv u" and b: "batch_ok b" and pos: "0 < get_key_bytes t k (um_consume b u)"
  shows "0 < get_key_bytes t k u \<or> event_type b = STORE \<and> batch_tier b = t \<and> (\<exists>e\<in>set (entries b). ee_key e = k)"
proof -
  have inv': "um_inv (um_consume b u)" using inv b by (rule um_consume_inv)
  obtain pid v where pid: "map_of (placement_sizes (um_consume b u)) pid = Some v" "key_id pid = (t, k)" "0 < v"
    by (rule bytes_pos [OF um_inv_sizes [OF inv'] pos [unfolded reads_sum(2) [OF inv']]])
  from abs_um_entries_origin [OF pid(1) [unfolded um_consume_abs]] show ?thesis
  proof
    assume "map_of (placement_sizes u) pid = Some v"
    then have "0 < bytes_of (map_of (placement_sizes u)) (\<lambda>pid. key_id pid = (t, k))"
      using pid(2,3) um_inv_sizes [OF inv] by (intro bytes_posI) (auto simp: finite_dom_map_of)
    then show ?thesis by (simp add: reads_sum(2) [OF inv])
  qed (use pid(2) in auto)
qed

lemma key_bytes_after_fence:
  assumes inv: "um_inv u"
  shows "get_key_bytes L2 k (um_fence i u) = get_key_bytes L2 k u"
proof -
  have "{pid \<in> dom (map_of (placement_sizes (um_fence i u))). key_id pid = (L2, k)} =
      {pid \<in> dom (map_of (placement_sizes u)). key_id pid = (L2, k)}"
    unfolding um_fence_inv(2) [OF inv] by (auto split: if_splits)
  moreover have "\<not> owns i pid" if "key_id pid = (L2, k)" for pid using that by (cases pid) auto
  ultimately show ?thesis
    unfolding reads_sum(2) [OF inv] reads_sum(2) [OF um_fence_inv(1) [OF inv]] bytes_of_def um_fence_inv(2) [OF inv]
    by (intro sum.cong) auto
qed


section \<open>Restart\<close>

lemma to_object_key_encoded: "key_ok key \<Longrightarrow> to_object_key (to_encoded_object_key key) = Inr key"
  using decode_encode [of key]
  by (simp add: to_object_key_def to_encoded_object_key_def bytes_fromhex_of_bytes decode_key_def encode_key_def)

lemma pins_restore_captured:
  assumes "fleet_ok f"
  shows "pins_restore (pins_capture f) f0 = Inr (f0\<lparr>fl_pin_counts := fl_pin_counts f\<rparr>)"
proof -
  have "pins_restore_loop (map (\<lambda>(key, cnt). (to_encoded_object_key key, cnt)) xs) d = Inr (d @ xs)"
    if "distinct (map fst xs)" "fst ` set d \<inter> fst ` set xs = {}" "\<forall>(k, n)\<in>set xs. 0 < n \<and> key_ok k" for d xs
    using that
  proof (induction xs arbitrary: d)
    case (Cons x xs)
    obtain k n where x: "x = (k, n)" by fastforce
    have "dict_set k n d = d @ [(k, n)]" using Cons.prems by (intro dict_set_new) (auto simp: x)
    moreover have "pins_restore_loop (map (\<lambda>(key, cnt). (to_encoded_object_key key, cnt)) xs) (d @ [(k, n)]) = Inr ((d @ [(k, n)]) @ xs)"
      using Cons.prems by (intro Cons.IH) (auto simp: x)
    ultimately show ?case using Cons.prems(3) by (simp add: x to_object_key_encoded)
  qed simp
  moreover have "distinct (map fst (fl_pin_counts f))" "\<forall>(k, n)\<in>set (fl_pin_counts f). 0 < n \<and> key_ok k"
    using assms by (auto simp: fleet_ok_def dict_wf_def)
  ultimately have "pins_restore_loop (pins_capture f) [] = Inr (fl_pin_counts f)" by (simp add: pins_capture_def)
  then show ?thesis by (simp add: pins_restore_def)
qed

section \<open>Properties\<close>

lemma fleet_init_ok: "fleet_ok (fleet_init r w)"
  by (simp add: fleet_ok_def fleet_init_def iso_init_def iso_inv_def bucket_def iso_wf_def)

text \<open>
  C23. One pass of the fleet's eviction loop. A salt is in the plan exactly when it has L2 bytes,
  an effective limit, usage at or above the watermark of the limit, and an unpinned key to
  select; its keys are the least recently used unpinned keys of that salt, up to the eviction
  ratio (all of them for a limit of zero). No pinned key and no key of another salt is ever
  planned. When a server is registered, the requests carry exactly the planned keys, in bodies
  that the delete endpoint accepts.
\<close>

theorem fleet_eviction_pass:
  assumes "fleet_ok f"
  shows "\<exists>plan reqs. execute_evictions rnd choice u reg f = Inr (plan, reqs) \<and>
    (\<forall>s keys. map_of plan s = Some keys \<longleftrightarrow> keys \<noteq> [] \<and> 0 < get_salt_bytes L2 s u \<and>
       (\<exists>limit. effective_limit_bytes s (fl_quota f) = Some limit \<and>
          rnd (fl_trigger_watermark f * rnd (of_int limit)) \<le> of_int (get_salt_bytes L2 s u) \<and>
          keys = take (target_count rnd (length (bucket (fl_policy f) s)) (if limit = 0 then 1 else fl_eviction_ratio f))
                   (filter (\<lambda>k. map_of (fl_pin_counts f) k = None) (bucket (fl_policy f) s)))) \<and>
    (\<forall>s keys. map_of plan s = Some keys \<longrightarrow>
       distinct keys \<and> (\<forall>k\<in>set keys. cache_salt k = s \<and> map_of (fl_pin_counts f) k = None)) \<and>
    (reg \<noteq> [] \<longrightarrow> concat (map snd reqs) = map to_encoded_object_key (concat (map snd plan))) \<and>
    (\<forall>r\<in>set reqs. length (snd r) \<le> MAX_DELETE_BATCH)"
proof -
  obtain plan where plan: "compute_eviction_plan rnd u f = Inr plan"
    and p: "\<And>s. map_of plan s = (if fleet_victims rnd u f s \<noteq> [] then Some (fleet_victims rnd u f s) else None)"
    by (rule compute_eviction_plan_spec [OF assms]) (rule that)
  define reqs where "reqs = (case execute_evictions rnd choice u reg f of Inr (_, rs) \<Rightarrow> rs | Inl _ \<Rightarrow> [])"
  have ex: "execute_evictions rnd choice u reg f = Inr (plan, reqs)"
    by (simp add: reqs_def execute_evictions_def plan split: option.splits)
  have chunk: "concat (map (map to_encoded_object_key) (chunks MAX_DELETE_BATCH xs)) = map to_encoded_object_key xs" for xs
    using arg_cong [OF chunks_concat [of MAX_DELETE_BATCH xs], of "map to_encoded_object_key"]
    by (simp add: MAX_DELETE_BATCH_def map_concat)
  have reqs: "reqs = (if plan = [] \<or> reg = [] then [] else
      map (\<lambda>chunk. (choice (map snd reg), map to_encoded_object_key chunk)) (chunks MAX_DELETE_BATCH (concat (map snd plan))))"
    by (simp add: reqs_def execute_evictions_def plan random_instance_def)
  have "reg \<noteq> [] \<longrightarrow> concat (map snd reqs) = map to_encoded_object_key (concat (map snd plan))"
    using chunk [of "concat (map snd plan)"] by (auto simp: reqs comp_def)
  moreover have "\<forall>r\<in>set reqs. length (snd r) \<le> MAX_DELETE_BATCH"
    using chunks_length [of _ MAX_DELETE_BATCH "concat (map snd plan)"] by (auto simp: reqs)
  moreover have "map_of plan s = Some keys \<longleftrightarrow> keys \<noteq> [] \<and> 0 < get_salt_bytes L2 s u \<and>
       (\<exists>limit. effective_limit_bytes s (fl_quota f) = Some limit \<and>
          rnd (fl_trigger_watermark f * rnd (of_int limit)) \<le> of_int (get_salt_bytes L2 s u) \<and>
          keys = take (target_count rnd (length (bucket (fl_policy f) s)) (if limit = 0 then 1 else fl_eviction_ratio f))
                   (filter (\<lambda>k. map_of (fl_pin_counts f) k = None) (bucket (fl_policy f) s)))" for s keys
    unfolding p fleet_victims_def fleet_over_quota_def filter_unpinned_def Let_def
    by (cases "effective_limit_bytes s (fl_quota f)") (auto simp: not_less)
  moreover have "distinct keys \<and> (\<forall>k\<in>set keys. cache_salt k = s \<and> map_of (fl_pin_counts f) k = None)"
    if "map_of plan s = Some keys" for s keys
  proof -
    have "keys = fleet_victims rnd u f s" using that by (simp add: p split: if_splits)
    moreover have "distinct (bucket (fl_policy f) s)" "\<forall>k\<in>set (bucket (fl_policy f) s). cache_salt k = s"
      using assms by (auto simp: fleet_ok_def iso_inv_def)
    ultimately show ?thesis
      by (auto simp: fleet_victims_def filter_unpinned_def split: option.splits dest: in_set_takeD)
  qed
  ultimately show ?thesis using ex by blast
qed

definition demo_usage :: usage_manager where
  "demo_usage = um_consume (demo_batch ''a'' 1 1 STORE L2 [demo_key]) um_init"

definition demo_fleet :: fleet where
  "demo_fleet = on_store demo_key ((fleet_init 1 1)\<lparr>fl_quota := qm_init\<lparr>qm_default_limit_bytes := Some 0\<rparr>\<rparr>)"

lemma demo_fleet_ok: "fleet_ok demo_fleet"
proof -
  let ?f = "(fleet_init 1 1)\<lparr>fl_quota := qm_init\<lparr>qm_default_limit_bytes := Some 0\<rparr>\<rparr>"
  let ?e = "\<lparr>ee_key = demo_key, size_bytes = 0, token_ids = [], token_offset = 0\<rparr>"
  have "fleet_ok ?f" using fleet_init_ok [of 1 1] by (simp add: fleet_ok_def)
  moreover have "event_entry_ok ?e" using demo_key_ok by (simp add: event_entry_ok_def UNKNOWN_TOKEN_OFFSET_def)
  ultimately show ?thesis
    using fleet_entry_ok(1) [of ?f ?e um_init "demo_batch ''a'' 1 1 STORE L2 []"] by (simp add: fleet_entry_def demo_fleet_def)
qed

lemma demo_usage_bytes: "get_salt_bytes L2 (cache_salt demo_key) demo_usage = 4"
  by (simp add: demo_usage_def um_consume_def um_entry_def track_placement.simps Let_def um_init_def get_salt_bytes_def adjust_def bump_def
      dict_get_default_def)

definition demo_server :: mp_instance where
  "demo_server = \<lparr>mi_instance_id = ''a'', mi_ip = ''h'', mi_http_port = 80, registration_time = 0, last_heartbeat_time = 0,
     metadata = [], p2p_advertised_url = [], mq_port = 1\<rparr>"

theorem fleet_eviction_pass_witness:
  "\<exists>plan reqs. execute_evictions (\<lambda>x. x) hd demo_usage [(''a'', demo_server)] demo_fleet = Inr (plan, reqs) \<and>
     map_of plan (cache_salt demo_key) = Some [demo_key] \<and> to_encoded_object_key demo_key \<in> set (concat (map snd reqs))"
proof -
  let ?s = "cache_salt demo_key"
  have b: "bucket (fl_policy demo_fleet) ?s = [demo_key]" "fl_pin_counts demo_fleet = []" "fl_trigger_watermark demo_fleet = 1"
    by (simp_all add: demo_fleet_def on_store_def fleet_init_def iso_init_def iso_bucket_ops salt_of_def order_created_def)
      (simp add: bucket_def)
  have l: "effective_limit_bytes ?s (fl_quota demo_fleet) = Some 0"
    by (simp add: demo_fleet_def on_store_def effective_limit_bytes_def qm_init_def dict_get_default_def)
  have t: "target_count (\<lambda>x. x) 1 1 = 1" by (simp add: target_count_def)
  have pick: "\<exists>plan reqs. E plan reqs \<and> map_of plan s0 = Some k0 \<and> Q plan reqs"
    if "\<exists>plan reqs. E plan reqs \<and> (\<forall>s keys. map_of plan s = Some keys \<longleftrightarrow> N s keys) \<and> R plan \<and> Q plan reqs \<and> Z reqs" and "N s0 k0"
    for E Q :: "plan \<Rightarrow> (mp_instance \<times> encoded_object_key list) list \<Rightarrow> bool" and N R Z s0 k0
    using that by auto
  have "\<exists>plan reqs. execute_evictions (\<lambda>x. x) hd demo_usage [(''a'', demo_server)] demo_fleet = Inr (plan, reqs) \<and>
      map_of plan ?s = Some [demo_key] \<and>
      ([(''a'', demo_server)] \<noteq> [] \<longrightarrow> concat (map snd reqs) = map to_encoded_object_key (concat (map snd plan)))"
    by (rule pick [OF fleet_eviction_pass [OF demo_fleet_ok, of "\<lambda>x. x" hd demo_usage "[(''a'', demo_server)]"]])
      (simp add: demo_usage_bytes b l t [simplified])
  then obtain plan reqs where e: "execute_evictions (\<lambda>x. x) hd demo_usage [(''a'', demo_server)] demo_fleet = Inr (plan, reqs)"
    and m: "map_of plan ?s = Some [demo_key]" and q: "concat (map snd reqs) = map to_encoded_object_key (concat (map snd plan))"
    by auto
  have "demo_key \<in> set (concat (map snd plan))" using map_of_SomeD [OF m] by force
  then have "to_encoded_object_key demo_key \<in> set (concat (map snd reqs))" unfolding q by simp
  with e m show ?thesis by blast
qed

end
