(* ===== verification/Coordinator.thy ===== *)
theory Coordinator
  imports Token_Hasher Key_Directory Server_Config Fleet_Eviction
begin

text \<open>
  The MP coordinator put together. \<^verbatim>\<open>lmcache/v1/mp_coordinator/app.py\<close>: the wiring of
  \<open>create_app\<close> (views in the order of their class names, then the controller), the health loop
  and the checkpoint; \<^verbatim>\<open>lmcache/v1/mp_coordinator/http_apis\<close>: the handlers that change state
  (\<open>instances_api\<close>, \<open>events_api\<close>, the pin, unpin and delete handlers of \<open>cache_api\<close>);
  \<^verbatim>\<open>lmcache/v1/mp_coordinator/persistence\<close>: what \<open>save_checkpoint\<close>, \<open>load_checkpoint\<close> and the
  metadata document do with the captured states (the msgpack and JSON encodings are the
  identity here).

  The handlers run on one event loop and hold the gate's lock while they apply a batch, so a
  handler is one step. The hasher of the process and the HTTP call to a server are arguments of
  the handlers that use them.
\<close>

section \<open>State and wiring\<close>

record fleet_state =
  st_usage :: usage_manager
  st_directory :: key_directory
  st_config :: server_config
  st_fleet :: fleet

record coordinator =
  co_gate :: gate
  co_state :: fleet_state
  co_registry :: registry

definition usage_consumer :: "fleet_state consumer" where
  "usage_consumer =
     \<lparr>on_consume = (\<lambda>b s. s\<lparr>st_usage := um_consume b (st_usage s)\<rparr>),
      on_fence = (\<lambda>i s. s\<lparr>st_usage := um_fence i (st_usage s)\<rparr>)\<rparr>"

definition directory_consumer :: "numpy_ops \<Rightarrow> fleet_state consumer" where
  "directory_consumer np =
     \<lparr>on_consume = (\<lambda>b s. s\<lparr>st_directory := kd_consume np b (st_directory s)\<rparr>),
      on_fence = (\<lambda>i s. s\<lparr>st_directory := kd_fence i (st_directory s)\<rparr>)\<rparr>"

definition config_consumer :: "fleet_state consumer" where
  "config_consumer =
     \<lparr>on_consume = (\<lambda>b s. s\<lparr>st_config := sc_consume b (st_config s)\<rparr>),
      on_fence = (\<lambda>i s. s\<lparr>st_config := sc_fence i (st_config s)\<rparr>)\<rparr>"

definition fleet_consumer :: "fleet_state consumer" where
  "fleet_consumer =
     \<lparr>on_consume = (\<lambda>b s. s\<lparr>st_fleet := fleet_consume (st_usage s) b (st_fleet s)\<rparr>),
      on_fence = (\<lambda>i s. s\<lparr>st_fleet := fleet_fence i (st_fleet s)\<rparr>)\<rparr>"

definition consumers :: "numpy_ops \<Rightarrow> fleet_state consumer list" where
  "consumers np = [usage_consumer, directory_consumer np, config_consumer, fleet_consumer]"

definition new_coordinator :: "pyfloat \<Rightarrow> pyfloat \<Rightarrow> key_directory \<Rightarrow> coordinator" where
  "new_coordinator eviction_ratio trigger_watermark d =
     \<lparr>co_gate = [],
      co_state = \<lparr>st_usage = um_init, st_directory = d, st_config = sc_init,
                  st_fleet = fleet_init eviction_ratio trigger_watermark\<rparr>,
      co_registry = []\<rparr>"

definition create_app :: "pyfloat \<Rightarrow> pyfloat \<Rightarrow> blend_config \<Rightarrow> coordinator result" where
  "create_app eviction_ratio trigger_watermark cfg =
     (case kd_from_config cfg of
        Inl err \<Rightarrow> Inl err
      | Inr d \<Rightarrow> Inr (new_coordinator eviction_ratio trigger_watermark d))"

section \<open>Handlers\<close>

definition with_gate :: "(gate \<times> fleet_state \<Rightarrow> gate \<times> fleet_state) \<Rightarrow> coordinator \<Rightarrow> coordinator" where
  "with_gate f c = (let (g, s) = f (co_gate c, co_state c) in c\<lparr>co_gate := g, co_state := s\<rparr>)"

definition post_events :: "numpy_ops \<Rightarrow> wire_batch list \<Rightarrow> coordinator \<Rightarrow> (coordinator \<times> events_response) result" where
  "post_events np ws c =
     (case validate_batches ws of
        Inl err \<Rightarrow> Inl err
      | Inr bs \<Rightarrow>
          let ((g, s), resp) = report_cache_events (consumers np) bs (co_gate c, co_state c)
          in Inr (c\<lparr>co_gate := g, co_state := s\<rparr>, resp))"

definition register_instance :: "mp_instance \<Rightarrow> coordinator \<Rightarrow> coordinator \<times> bool" where
  "register_instance inst c =
     (let (r, existed) = register inst (co_registry c) in (c\<lparr>co_registry := r\<rparr>, existed))"

definition heartbeat :: "string \<Rightarrow> pyfloat \<Rightarrow> coordinator \<Rightarrow> coordinator \<times> bool" where
  "heartbeat i now c =
     (let (r, known) = update_heartbeat i now (co_registry c) in (c\<lparr>co_registry := r\<rparr>, known))"

definition deregister_instance :: "numpy_ops \<Rightarrow> string \<Rightarrow> coordinator \<Rightarrow> coordinator" where
  "deregister_instance np i c =
     (let c1 = c\<lparr>co_registry := fst (deregister i (co_registry c))\<rparr>;
          c2 = with_gate (drop_instance (consumers np) i) c1
      in c2\<lparr>co_state := (co_state c2)\<lparr>st_config := forget i (st_config (co_state c2))\<rparr>\<rparr>)"

definition health_tick :: "numpy_ops \<Rightarrow> (rat \<Rightarrow> rat) \<Rightarrow> pyfloat \<Rightarrow> pyfloat \<Rightarrow> coordinator \<Rightarrow> coordinator" where
  "health_tick np rnd now timeout c =
     (let (r, evicted) = evict_stale rnd now timeout (co_registry c)
      in foldl (\<lambda>c i. with_gate (drop_instance (consumers np) i) c) (c\<lparr>co_registry := r\<rparr>) evicted)"

definition on_fleet :: "(fleet \<Rightarrow> fleet) \<Rightarrow> coordinator \<Rightarrow> coordinator" where
  "on_fleet f c = c\<lparr>co_state := (co_state c)\<lparr>st_fleet := f (st_fleet (co_state c))\<rparr>\<rparr>"

text \<open>The pin handlers answer with the number of chunks and of keys; \<open>Inl\<close> is an error response.\<close>

definition request_pin ::
  "token_hasher \<Rightarrow> string \<Rightarrow> int \<Rightarrow> int list \<Rightarrow> string \<Rightarrow> coordinator \<Rightarrow> coordinator \<times> (nat \<times> nat) result" where
  "request_pin th model world toks salt c =
     (case resolve_object_keys th model world toks salt of
        Inl err \<Rightarrow> (c, Inl err)
      | Inr (resolved, nchunks) \<Rightarrow> (on_fleet (pin resolved) c, Inr (nchunks, length resolved)))"

definition request_unpin ::
  "token_hasher \<Rightarrow> string \<Rightarrow> int \<Rightarrow> int list \<Rightarrow> string \<Rightarrow> coordinator \<Rightarrow> coordinator \<times> (nat \<times> nat) result" where
  "request_unpin th model world toks salt c =
     (case resolve_object_keys th model world toks salt of
        Inl err \<Rightarrow> (c, Inl err)
      | Inr (resolved, nchunks) \<Rightarrow> (on_fleet (unpin resolved) c, Inr (nchunks, length resolved)))"

datatype delete_result = Not_Found | Bad_Request py_error | Noop | Bad_Gateway | Deleted nat int int

text \<open>
  \<open>call\<close> is the request to the server, which fails or reports how many keys it deleted and
  skipped. The response has the number of chunks, the deleted keys and the skipped keys.
\<close>

definition request_delete ::
  "token_hasher \<Rightarrow> (object_key list \<Rightarrow> (int \<times> int) option) \<Rightarrow> string \<Rightarrow> string \<Rightarrow> int \<Rightarrow> int list \<Rightarrow> string \<Rightarrow> tier \<Rightarrow> bool
     \<Rightarrow> coordinator \<Rightarrow> coordinator \<times> delete_result" where
  "request_delete th call i model world toks salt t force c =
     (case reg_get i (co_registry c) of
        None \<Rightarrow> (c, Not_Found)
      | Some target \<Rightarrow>
          (case resolve_object_keys th model world toks salt of
             Inl err \<Rightarrow> (c, Bad_Request err)
           | Inr (resolved, nchunks) \<Rightarrow>
               if nchunks = 0 then (c, Noop)
               else
                 let touches_l2 = (t = L2 \<or> t = ALL_TIERS);
                     dkeys = (if touches_l2 \<and> \<not> force then filter_unpinned resolved (st_fleet (co_state c)) else resolved);
                     pin_skipped = (if touches_l2 \<and> \<not> force then int (length resolved) - int (length dkeys) else 0)
                 in case (if dkeys \<noteq> [] then call dkeys else Some (0, 0)) of
                      None \<Rightarrow> (c, Bad_Gateway)
                    | Some (deleted, skipped) \<Rightarrow>
                        (if touches_l2 \<and> force then on_fleet (drop_pins resolved) c else c,
                         Deleted nchunks deleted (skipped + pin_skipped))))"

section \<open>Checkpoint, metadata and restart\<close>

text \<open>
  The checkpoint has a section for the gate, each view and the policy; the metadata document has
  the pins and the quotas. A restore that raises is logged and its component is left as the
  exception found it; what follows is not modelled, a load that meets such a section is \<open>Inl\<close>. The
  lemmas show that this does not happen for states that a coordinator saved.
\<close>

record checkpoint =
  ck_gate :: "(string, int \<times> int \<times> bool) pydict"
  ck_usage :: um_state
  ck_directory :: kd_state
  ck_config :: sc_state
  ck_policy :: "(string, encoded_key list) pydict"

record metadata_doc =
  md_pins :: "(encoded_object_key \<times> int) list"
  md_quota :: "(string, int) pydict \<times> int option"

definition save_checkpoint :: "numpy_ops \<Rightarrow> coordinator \<Rightarrow> checkpoint" where
  "save_checkpoint np c =
     \<lparr>ck_gate = gate_capture (co_gate c), ck_usage = um_capture (st_usage (co_state c)),
      ck_directory = kd_capture np (st_directory (co_state c)), ck_config = sc_capture (st_config (co_state c)),
      ck_policy = iso_capture (fl_policy (st_fleet (co_state c)))\<rparr>"

definition save_metadata :: "coordinator \<Rightarrow> metadata_doc" where
  "save_metadata c =
     \<lparr>md_pins = pins_capture (st_fleet (co_state c)), md_quota = qm_capture (fl_quota (st_fleet (co_state c)))\<rparr>"

definition load_metadata :: "metadata_doc option \<Rightarrow> coordinator \<Rightarrow> coordinator result" where
  "load_metadata md c =
     (case md of
        None \<Rightarrow> Inr c
      | Some m \<Rightarrow>
          (case pins_restore (md_pins m) (st_fleet (co_state c)) of
             Inl err \<Rightarrow> Inl err
           | Inr f \<Rightarrow> Inr (c\<lparr>co_state := (co_state c)\<lparr>st_fleet := f\<lparr>fl_quota := qm_restore (md_quota m) (fl_quota f)\<rparr>\<rparr>\<rparr>)))"

definition load_checkpoint :: "numpy_ops \<Rightarrow> checkpoint option \<Rightarrow> coordinator \<Rightarrow> coordinator result" where
  "load_checkpoint np ck c =
     (case ck of
        None \<Rightarrow> Inr c
      | Some k \<Rightarrow>
          let s = co_state c in
          (case (gate_restore (ck_gate k) (co_gate c), um_restore (ck_usage k) (st_usage s),
                 kd_restore np (ck_directory k) (st_directory s), sc_restore (ck_config k) (st_config s),
                 iso_restore (ck_policy k) (fl_policy (st_fleet s))) of
             (Inr g, Inr u, Inr d, Inr cfg, Inr pol) \<Rightarrow>
               Inr (c\<lparr>co_gate := g,
                      co_state := \<lparr>st_usage = u, st_directory = d, st_config = cfg, st_fleet = (st_fleet s)\<lparr>fl_policy := pol\<rparr>\<rparr>\<rparr>)
           | _ \<Rightarrow> Inl ValueError))"

text \<open>A start: what is on disk is absent or unreadable (\<open>None\<close>), or was saved by an earlier run.\<close>

definition restart ::
  "numpy_ops \<Rightarrow> pyfloat \<Rightarrow> pyfloat \<Rightarrow> blend_config \<Rightarrow> checkpoint option \<Rightarrow> metadata_doc option \<Rightarrow> coordinator result" where
  "restart np eviction_ratio trigger_watermark cfg ck md =
     (case create_app eviction_ratio trigger_watermark cfg of
        Inl err \<Rightarrow> Inl err
      | Inr c0 \<Rightarrow>
          (case load_metadata md c0 of
             Inl err \<Rightarrow> Inl err
           | Inr c \<Rightarrow> load_checkpoint np ck c))"

section \<open>Runs\<close>

text \<open>A batch as its constructors accept it: every field is checked before the request is validated.\<close>

definition wire_ok :: "wire_batch \<Rightarrow> bool" where
  "wire_ok w \<longleftrightarrow> check_batch w = Inr w \<and>
     (\<forall>e\<in>set (entries w). new_cache_event_entry (ee_key e) (size_bytes e) (token_ids e) (token_offset e) = Inr e)"

inductive co_reach :: "numpy_ops \<Rightarrow> coordinator \<Rightarrow> bool" for np where
  start: "create_app er tw cfg = Inr c \<Longrightarrow> co_reach np c"
| events: "co_reach np c \<Longrightarrow> \<forall>w\<in>set ws. wire_ok w \<Longrightarrow> post_events np ws c = Inr (c', resp) \<Longrightarrow> co_reach np c'"
| register: "co_reach np c \<Longrightarrow> co_reach np (fst (register_instance inst c))"
| heartbeat: "co_reach np c \<Longrightarrow> co_reach np (fst (heartbeat i now c))"
| deregister: "co_reach np c \<Longrightarrow> co_reach np (deregister_instance np i c)"
| health: "co_reach np c \<Longrightarrow> co_reach np (health_tick np rnd now timeout c)"
| pin: "co_reach np c \<Longrightarrow> co_reach np (fst (request_pin th model world toks salt c))"
| unpin: "co_reach np c \<Longrightarrow> co_reach np (fst (request_unpin th model world toks salt c))"
| delete: "co_reach np c \<Longrightarrow> co_reach np (fst (request_delete th call i model world toks salt t force c))"
| quota: "co_reach np c \<Longrightarrow> co_reach np (on_fleet (\<lambda>f. f\<lparr>fl_quota := qm_step op (fl_quota f)\<rparr>) c)"
| restart: "co_reach np c0 \<Longrightarrow> co_reach np c1 \<Longrightarrow> ck \<in> {None, Some (save_checkpoint np c0)} \<Longrightarrow>
    md \<in> {None, Some (save_metadata c1)} \<Longrightarrow> restart np er tw cfg ck md = Inr c' \<Longrightarrow> co_reach np c'"


lemma mapped_origin:
  assumes "map f xs = map Inr ys" and "y \<in> set ys"
  obtains x where "x \<in> set xs" and "f x = Inr y"
proof -
  have "Inr y \<in> set (map f xs)" unfolding assms(1) using assms(2) by simp
  then show thesis using that by auto
qed

lemma validated_ok:
  assumes "\<forall>w\<in>set ws. wire_ok w" and "validate_batches ws = Inr bs"
  shows "\<forall>b\<in>set bs. batch_ok b"
proof
  fix b assume "b \<in> set bs"
  have "map convert_batch ws = map Inr bs" using assms(2) by (simp add: validate_batches_def sequence_results_Inr)
  then obtain w where w: "w \<in> set ws" "convert_batch w = Inr b"
    using \<open>b \<in> set bs\<close> by (rule mapped_origin)
  obtain es where es: "map convert_entry (entries w) = map Inr es"
    and b: "b = \<lparr>instance_id = instance_id w, incarnation = incarnation w, seq = seq w, event_type = event_type w,
       batch_tier = batch_tier w, backend = backend w, entries = es, shared = shared w, ts = ts w,
       capacity_bytes = capacity_bytes w, capacity_revision = capacity_revision w\<rparr>"
    using w(2) by (auto simp: convert_batch_def sequence_results_Inr split: sum.splits)
  have wok: "wire_ok w" using assms(1) w(1) by blast
  have "event_entry_ok e" if e: "e \<in> set es" for e
  proof -
    obtain x where x: "x \<in> set (entries w)" "convert_entry x = Inr e"
      by (rule mapped_origin [OF es e])
    then have "0 \<le> size_bytes x \<and> UNKNOWN_TOKEN_OFFSET \<le> token_offset x"
      using wok by (auto simp: wire_ok_def new_cache_event_entry_Inr)
    with x(2) show ?thesis by (intro convert_entry_ok) auto
  qed
  moreover have "entries w = [] \<longleftrightarrow> es = []" using es by (metis map_is_Nil_conv)
  ultimately show "batch_ok b" using wok by (auto simp: wire_ok_def batch_ok_def check_batch_Inr b)
qed

section \<open>The two views agree\<close>

text \<open>
  The directory and the usage view keep separate indexes of the same placements. They agree on
  every L2 placement and on every private L1 placement.
\<close>

definition agree :: "(object_key \<times> placement) set \<Rightarrow> sizes \<Rightarrow> bool" where
  "agree S m \<longleftrightarrow> (\<forall>k p. (k, p) \<in> S \<longrightarrow> pl_instance_id p \<noteq> []) \<and> (\<forall>t k i be sz. t = L2 \<or> i \<noteq> [] \<longrightarrow>
     (m (t, k, i, be) = Some sz \<longleftrightarrow> (\<exists>p. (k, p) \<in> S \<and> ident p = (i = [], i, t, be) \<and> pl_size_bytes p = sz)))"

lemma agreeD:
  assumes "agree S m" and "t = L2 \<or> i \<noteq> []"
  shows "m (t, k, i, be) = Some sz \<longleftrightarrow> (\<exists>p. (k, p) \<in> S \<and> ident p = (i = [], i, t, be) \<and> pl_size_bytes p = sz)"
  using assms unfolding agree_def by blast

lemma batch_ident_owner: "batch_ok b \<Longrightarrow> batch_ident b = (batch_owner b = [], batch_owner b, batch_tier b, backend b)"
  using batch_okD(1) [of b] by (auto simp: batch_ident_def batch_owner_def)

lemma agree_entry:
  assumes "agree S m" and "batch_ok b"
  shows "agree (abs_entry b S e) (abs_um_entry b m e)"
proof -
  note id = batch_ident_owner [OF assms(2)]
  have new: "pl_size_bytes (new_placement b e) = size_bytes e" by (simp add: new_placement_def)
  show ?thesis
    unfolding agree_def
  proof (intro conjI allI impI)
    fix k p assume "(k, p) \<in> abs_entry b S e"
    then have "(k, p) \<in> S \<or> p = new_placement b e" by (cases "event_type b") (auto simp: abs_entry_def)
    then show "pl_instance_id p \<noteq> []"
      using assms(1) batch_okD(1) [OF assms(2)] unfolding agree_def by (auto simp: new_placement_def)
  next
    fix t :: tier and k :: object_key and i be :: string and sz :: int assume ti: "t = L2 \<or> i \<noteq> []"
    let ?pid = "(t, k, i, be)" and ?bp = "(batch_tier b, ee_key e, batch_owner b, backend b)"
    have old: "m ?pid = Some sz \<longleftrightarrow> (\<exists>p. (k, p) \<in> S \<and> ident p = (i = [], i, t, be) \<and> pl_size_bytes p = sz)"
      by (rule agreeD [OF assms(1) ti])
    have hit: "?pid = ?bp \<longleftrightarrow> k = ee_key e \<and> (i = [], i, t, be) = batch_ident b" by (auto simp: id)
    show "abs_um_entry b m e ?pid = Some sz \<longleftrightarrow>
        (\<exists>p. (k, p) \<in> abs_entry b S e \<and> ident p = (i = [], i, t, be) \<and> pl_size_bytes p = sz)"
    proof (cases "?pid = ?bp")
      case True
      with hit have k: "k = ee_key e" and i: "(i = [], i, t, be) = batch_ident b" by auto
      show ?thesis
        using old True unfolding i k by (cases "event_type b") (auto simp: abs_um_entry_def abs_entry_def new)
    next
      case False
      then have um: "abs_um_entry b m e ?pid = m ?pid" by (cases "event_type b") (auto simp: abs_um_entry_def)
      have "k \<noteq> ee_key e \<or> (i = [], i, t, be) \<noteq> batch_ident b" using hit False by blast
      then have "(k, p) \<in> abs_entry b S e \<longleftrightarrow> (k, p) \<in> S" if "ident p = (i = [], i, t, be)" for p
        using that by (cases "event_type b") (auto simp: abs_entry_def)
      then show ?thesis unfolding um old by blast
    qed
  qed
qed

lemma agree_entries:
  "agree S m \<Longrightarrow> batch_ok b \<Longrightarrow> agree (foldl (abs_entry b) S es) (foldl (abs_um_entry b) m es)"
  by (induction es arbitrary: S m) (simp_all add: agree_entry)

lemma agree_fence:
  assumes "agree S m"
  shows "agree {(k, p). (k, p) \<in> S \<and> \<not> void j p} (\<lambda>pid. if owns j pid then None else m pid)"
  unfolding agree_def
proof (intro conjI allI impI)
  show "pl_instance_id p \<noteq> []" if "(k, p) \<in> {(k, p). (k, p) \<in> S \<and> \<not> void j p}" for k p
    using assms that unfolding agree_def by blast
next
  fix t :: tier and k :: object_key and i be :: string and sz :: int assume ti: "t = L2 \<or> i \<noteq> []"
  have old: "m (t, k, i, be) = Some sz \<longleftrightarrow> (\<exists>p. (k, p) \<in> S \<and> ident p = (i = [], i, t, be) \<and> pl_size_bytes p = sz)"
    by (rule agreeD [OF assms ti])
  have "void j p \<longleftrightarrow> owns j (t, k, i, be)" if "ident p = (i = [], i, t, be)" for p
    using that ti by (auto simp: void_def ident_def split: if_splits)
  with old show "(if owns j (t, k, i, be) then None else m (t, k, i, be)) = Some sz \<longleftrightarrow>
      (\<exists>p. (k, p) \<in> {(k, p). (k, p) \<in> S \<and> \<not> void j p} \<and> ident p = (i = [], i, t, be) \<and> pl_size_bytes p = sz)"
    by auto
qed


section \<open>The invariant of the consumers' state\<close>

definition st_inv :: "numpy_ops \<Rightarrow> fleet_state \<Rightarrow> bool" where
  "st_inv np s \<longleftrightarrow> numpy_spec np \<and> np_ok np (st_directory s) \<and> kd_inv (st_directory s) \<and> um_inv (st_usage s) \<and>
     sc_inv (st_config s) \<and> fleet_ok (st_fleet s) \<and>
     (\<forall>k. 0 < get_key_bytes L2 k (st_usage s) \<longrightarrow> k \<in> iso_tracked (fl_policy (st_fleet s))) \<and>
     agree (dir_facts (st_directory s)) (map_of (placement_sizes (st_usage s)))"

lemma broadcast_consumers:
  "broadcast (consumers np) b s =
     \<lparr>st_usage = um_consume b (st_usage s), st_directory = kd_consume np b (st_directory s),
      st_config = sc_consume b (st_config s), st_fleet = fleet_consume (um_consume b (st_usage s)) b (st_fleet s)\<rparr>"
  "broadcast_fence (consumers np) i s =
     \<lparr>st_usage = um_fence i (st_usage s), st_directory = kd_fence i (st_directory s), st_config = st_config s,
      st_fleet = st_fleet s\<rparr>"
  by (cases s; simp add: broadcast_def broadcast_fence_def consumers_def usage_consumer_def directory_consumer_def
      config_consumer_def fleet_consumer_def sc_fence_def fleet_fence_def)+

lemma st_inv_consume:
  assumes inv: "st_inv np s" and b: "batch_ok b"
  shows "st_inv np (broadcast (consumers np) b s)"
proof -
  have um: "um_inv (st_usage s)" and kd: "kd_inv (st_directory s)" and np: "numpy_spec np" "np_ok np (st_directory s)"
    and fl: "fleet_ok (st_fleet s)" and sc: "sc_inv (st_config s)"
    and tr: "\<And>k. 0 < get_key_bytes L2 k (st_usage s) \<Longrightarrow> k \<in> iso_tracked (fl_policy (st_fleet s))"
    and ag: "agree (dir_facts (st_directory s)) (map_of (placement_sizes (st_usage s)))"
    using inv by (auto simp: st_inv_def)
  let ?u = "um_consume b (st_usage s)" and ?d = "kd_consume np b (st_directory s)"
  have "k \<in> iso_tracked (fl_policy (fleet_consume ?u b (st_fleet s)))" if pos: "0 < get_key_bytes L2 k ?u" for k
    using key_bytes_after_consume [OF um b pos] tr [of k] pos fleet_consume_ok(2) [OF fl b, of k ?u]
      fleet_consume_ok(3) [OF fl b, of _ ?u] by auto
  moreover have "agree (dir_facts ?d) (map_of (placement_sizes ?u))"
    using agree_entries [OF ag b] kd_consume_inv [OF kd b, of np] by (simp add: um_consume_abs)
  moreover have "np_ok np ?d" using np_ok_deliver [OF np, of "Consumed b"] by simp
  ultimately show ?thesis
    using np(1) um_consume_inv [OF um b] kd_consume_inv [OF kd b, of np] sc_consume_inv [OF sc b] fleet_consume_ok(1) [OF fl b]
    by (simp add: st_inv_def broadcast_consumers)
qed

lemma st_inv_fence:
  assumes inv: "st_inv np s"
  shows "st_inv np (broadcast_fence (consumers np) i s)"
proof -
  have um: "um_inv (st_usage s)" and kd: "kd_inv (st_directory s)" and np: "numpy_spec np" "np_ok np (st_directory s)"
    and ag: "agree (dir_facts (st_directory s)) (map_of (placement_sizes (st_usage s)))"
    using inv by (auto simp: st_inv_def)
  have "agree (dir_facts (kd_fence i (st_directory s))) (map_of (placement_sizes (um_fence i (st_usage s))))"
    unfolding kd_fence_inv(2) [OF kd] um_fence_inv(2) [OF um] by (rule agree_fence [OF ag])
  moreover have "np_ok np (kd_fence i (st_directory s))" using np_ok_deliver [OF np, of "Fenced i"] by simp
  ultimately show ?thesis
    using inv um_fence_inv(1) [OF um] kd_fence_inv(1) [OF kd]
    by (simp add: st_inv_def broadcast_consumers key_bytes_after_fence [OF um])
qed

interpretation co: stamped_consumer "consumers np" "st_inv np" "\<lambda>s. kd_stamps (st_directory s)" for np
proof unfold_locales
  fix s b assume inv: "st_inv np s" and b: "batch_ok b"
  then have kd: "kd_inv (st_directory s)" by (simp add: st_inv_def)
  show "st_inv np (broadcast (consumers np) b s)" using inv b by (rule st_inv_consume)
  show "kd_stamps (st_directory (broadcast (consumers np) b s)) \<subseteq> insert (instance_id b, incarnation b) (kd_stamps (st_directory s))"
    using kd.consume_stamps [OF kd b, of np] by (simp add: broadcast_consumers)
next
  fix s i assume inv: "st_inv np s"
  then have kd: "kd_inv (st_directory s)" by (simp add: st_inv_def)
  show "st_inv np (broadcast_fence (consumers np) i s)" using inv by (rule st_inv_fence)
  show "kd_stamps (st_directory (broadcast_fence (consumers np) i s)) \<subseteq> {x \<in> kd_stamps (st_directory s). fst x \<noteq> i}"
    using kd.fence_stamps [OF kd, of np i] by (simp add: broadcast_consumers)
qed

definition co_ok :: "numpy_ops \<Rightarrow> coordinator \<Rightarrow> bool" where
  "co_ok np c \<longleftrightarrow> co.current np (co_gate c, co_state c) \<and> dict_wf (co_gate c)"

lemma gate_step_wf: "dict_wf (fst gs) \<Longrightarrow> dict_wf (fst (gate_step cs gs c))"
  by (cases gs; cases c) (auto simp: ingest_def drop_instance_def Let_def split: option.splits)

lemma co_ok_step:
  assumes "co_ok np c" and "call_ok call"
  shows "co_ok np (with_gate (\<lambda>gs. gate_step (consumers np) gs call) c)"
  using co.step_current [of np "(co_gate c, co_state c)" call] gate_step_wf [of "(co_gate c, co_state c)" "consumers np" call] assms
  by (simp add: co_ok_def with_gate_def case_prod_beta)

lemma co_ok_run:
  assumes "co_ok np c" and "\<forall>b\<in>set bs. batch_ok b"
  shows "co_ok np (with_gate (gate_run (consumers np) (map Ingest bs)) c)"
proof -
  have "dict_wf (fst (gate_run (consumers np) (map Ingest bs) (co_gate c, co_state c)))"
    using assms(1) foldl_inv [of "\<lambda>gs. dict_wf (fst gs)" "(co_gate c, co_state c)" "map Ingest bs" "gate_step (consumers np)"]
      gate_step_wf
    by (metis co_ok_def fst_conv gate_run_def)
  moreover have "co.current np (gate_run (consumers np) (map Ingest bs) (co_gate c, co_state c))"
    using assms by (intro co.run_current) (auto simp: co_ok_def)
  ultimately show ?thesis by (simp add: co_ok_def with_gate_def case_prod_beta)
qed

lemma co_ok_registry [simp]: "co_ok np (c\<lparr>co_registry := r\<rparr>) = co_ok np c"
  by (simp add: co_ok_def)

lemma co_ok_drop: "co_ok np c \<Longrightarrow> co_ok np (with_gate (drop_instance (consumers np) i) c)"
  using co_ok_step [of np c "Drop i"] by simp

text \<open>Steps on the controller's own state: pins and quotas.\<close>

lemma co_ok_fleet:
  assumes "co_ok np c" and "\<And>f. fleet_ok f \<Longrightarrow> fleet_ok (h f)" and "\<And>f. fl_policy (h f) = fl_policy f"
  shows "co_ok np (on_fleet h c)"
  using assms by (auto simp: co_ok_def on_fleet_def co.current_def st_inv_def)

lemma pins_keep_policy:
  "fl_policy (Fleet_Eviction.pin keys f) = fl_policy f" "fl_policy (Fleet_Eviction.unpin keys f) = fl_policy f"
  "fl_policy (drop_pins keys f) = fl_policy f"
  by (simp_all add: Fleet_Eviction.pin_def Fleet_Eviction.unpin_def drop_pins_def)

lemma co_ok_config:
  assumes "co_ok np c" and "sc_inv cfg"
  shows "co_ok np (c\<lparr>co_state := (co_state c)\<lparr>st_config := cfg\<rparr>\<rparr>)"
  using assms by (auto simp: co_ok_def co.current_def st_inv_def)

lemma create_app_ok: "numpy_spec np \<Longrightarrow> kd_empty d \<Longrightarrow> co_ok np (new_coordinator er tw d)"
  by (simp add: co_ok_def co.current_def st_inv_def new_coordinator_def um_inv_init kd_inv_empty sc_init_inv fleet_init_ok)
    (simp add: np_ok_def agree_def kd_stamps_def dir_facts_def kd_empty_def um_init_def get_key_bytes_def dict_get_default_def)

lemma create_app_Inr: "create_app er tw cfg = Inr c \<longleftrightarrow> (\<exists>d. kd_from_config cfg = Inr d \<and> c = new_coordinator er tw d)"
  by (auto simp: create_app_def split: sum.splits)

lemma load_metadata_ok:
  assumes "co_ok np c" and "co_ok np c1" and "md \<in> {None, Some (save_metadata c1)}"
  obtains f where "load_metadata md c = Inr (c\<lparr>co_state := (co_state c)\<lparr>st_fleet := f\<rparr>\<rparr>)" and "fleet_ok f"
    and "fl_policy f = fl_policy (st_fleet (co_state c))"
    and "md \<noteq> None \<Longrightarrow> fl_pin_counts f = fl_pin_counts (st_fleet (co_state c1)) \<and> fl_quota f = fl_quota (st_fleet (co_state c1))"
proof (cases md)
  case None
  then show thesis using that [of "st_fleet (co_state c)"] assms(1)
    by (simp add: load_metadata_def co_ok_def co.current_def st_inv_def)
next
  case (Some m)
  let ?f = "st_fleet (co_state c)" and ?f1 = "st_fleet (co_state c1)"
  let ?f' = "?f\<lparr>fl_pin_counts := fl_pin_counts ?f1, fl_quota := fl_quota ?f1\<rparr>"
  have ok: "fleet_ok ?f" "fleet_ok ?f1" using assms(1,2) by (simp_all add: co_ok_def co.current_def st_inv_def)
  have "load_metadata md c = Inr (c\<lparr>co_state := (co_state c)\<lparr>st_fleet := ?f'\<rparr>\<rparr>)"
    using assms(3) Some by (simp add: load_metadata_def save_metadata_def pins_restore_captured [OF ok(2)] qm_restart)
  moreover have "fleet_ok ?f'" using ok by (simp add: fleet_ok_def)
  ultimately show thesis by (rule that) simp_all
qed

lemma load_checkpoint_ok:
  assumes ok: "co_ok np c0" and fl: "fleet_ok f" and init: "co_gate c = []"
    "co_state c = \<lparr>st_usage = um_init, st_directory = d0, st_config = sc_init, st_fleet = f\<rparr>" and fresh: "kd_empty d0"
  obtains c' where "load_checkpoint np (Some (save_checkpoint np c0)) c = Inr c'" and "co_ok np c'" and "co_gate c' = co_gate c0"
    and "directory (st_directory (co_state c')) = directory (st_directory (co_state c0))"
    and "placement_sizes (st_usage (co_state c')) = placement_sizes (st_usage (co_state c0))"
    and "iso_per_salt_order (fl_policy (st_fleet (co_state c'))) = iso_per_salt_order (fl_policy (st_fleet (co_state c0)))"
    and "fl_pin_counts (st_fleet (co_state c')) = fl_pin_counts f" and "fl_quota (st_fleet (co_state c')) = fl_quota f"
proof -
  let ?s = "co_state c0"
  have um: "um_inv (st_usage ?s)" and kd: "kd_inv (st_directory ?s)" and np: "np_ok np (st_directory ?s)"
    and fl0: "fleet_ok (st_fleet ?s)" and sc: "sc_inv (st_config ?s)" and wf: "dict_wf (co_gate c0)"
    using ok by (auto simp: co_ok_def co.current_def st_inv_def)
  obtain u where u: "um_restore (um_capture (st_usage ?s)) um_init = Inr u" "um_inv u" "placement_sizes u = placement_sizes (st_usage ?s)"
    by (rule um_restore_capture [OF um])
  obtain d where d: "kd_restore np (kd_capture np (st_directory ?s)) d0 = Inr d" "kd_inv d" "directory d = directory (st_directory ?s)"
    and tb: "\<And>h. map_option (\<lambda>tb. (tb_token_ids tb, tb_token_offset tb, set (tb_keys tb))) (map_of (token_bindings d) h) =
      map_option (\<lambda>tb. (tb_token_ids tb, tb_token_offset tb, set (tb_keys tb))) (map_of (token_bindings (st_directory ?s)) h)"
    by (rule kd_restore_capture [OF kd np fresh]) (rule that)
  obtain cfg where cfg: "sc_restore (sc_capture (st_config ?s)) sc_init = Inr cfg" "sc_inv cfg"
    by (rule sc_restore_captured [OF sc])
  have "iso_wf (fl_policy (st_fleet ?s))" using fl0 by (simp add: fleet_ok_def)
  note pol = iso_restore_captured [OF this]
  let ?f = "f\<lparr>fl_policy := (fl_policy f)\<lparr>iso_per_salt_order := iso_per_salt_order (fl_policy (st_fleet ?s))\<rparr>\<rparr>"
  let ?c = "c\<lparr>co_gate := co_gate c0, co_state := \<lparr>st_usage = u, st_directory = d, st_config = cfg, st_fleet = ?f\<rparr>\<rparr>"
  have "load_checkpoint np (Some (save_checkpoint np c0)) c = Inr ?c"
    by (simp add: load_checkpoint_def save_checkpoint_def init gate_restore_capture [OF wf] u(1) d(1) cfg(1) pol Let_def)
  moreover have "np_ok np d"
    unfolding np_ok_def
  proof (intro allI impI)
    fix h x assume "map_of (token_bindings d) h = Some x"
    with tb [of h] obtain y where "map_of (token_bindings (st_directory ?s)) h = Some y" "tb_token_ids x = tb_token_ids y"
      by (cases "map_of (token_bindings (st_directory ?s)) h") auto
    with np show "from_le_bytes np (to_le_bytes np (tb_token_ids x)) = tb_token_ids x" by (simp add: np_ok_def)
  qed
  moreover have facts: "dir_facts d = dir_facts (st_directory ?s)" by (simp add: dir_facts_def d(3))
  moreover have "kd_stamps d = kd_stamps (st_directory ?s)" by (simp add: kd_stamps_def facts)
  moreover have "get_key_bytes L2 k u = get_key_bytes L2 k (st_usage ?s)" for k
    by (simp add: reads_sum(2) [OF u(2)] reads_sum(2) [OF um] u(3))
  moreover have "fleet_ok ?f" "iso_tracked (fl_policy ?f) = iso_tracked (fl_policy (st_fleet ?s))"
    using fl fl0 by (simp_all add: fleet_ok_def iso_inv_def iso_wf_def bucket_def iso_tracked_def)
  ultimately show thesis
    using that [of ?c] ok u(2,3) d(2,3) cfg(2) by (simp add: co_ok_def co.current_def st_inv_def)
qed

text \<open>A start from saved states succeeds, whichever of them are on disk.\<close>

lemma restart_ok:
  assumes "co_ok np c0" and "co_ok np c1" and "ck \<in> {None, Some (save_checkpoint np c0)}" and "md \<in> {None, Some (save_metadata c1)}"
    and cfg: "kd_from_config cfg = Inr d0"
  shows "\<exists>c'. restart np er tw cfg ck md = Inr c' \<and> co_ok np c' \<and>
    (ck \<noteq> None \<longrightarrow> co_gate c' = co_gate c0 \<and>
       directory (st_directory (co_state c')) = directory (st_directory (co_state c0)) \<and>
       placement_sizes (st_usage (co_state c')) = placement_sizes (st_usage (co_state c0)) \<and>
       iso_per_salt_order (fl_policy (st_fleet (co_state c'))) = iso_per_salt_order (fl_policy (st_fleet (co_state c0)))) \<and>
    (md \<noteq> None \<longrightarrow> fl_pin_counts (st_fleet (co_state c')) = fl_pin_counts (st_fleet (co_state c1)) \<and>
       fl_quota (st_fleet (co_state c')) = fl_quota (st_fleet (co_state c1)))"
proof -
  have np: "numpy_spec np" using assms(1) by (simp add: co_ok_def co.current_def st_inv_def)
  let ?c = "new_coordinator er tw d0"
  have fresh: "kd_empty d0" by (rule kd_from_config_empty [OF cfg])
  have app: "create_app er tw cfg = Inr ?c" by (simp add: create_app_def cfg)
  obtain f where f: "load_metadata md ?c = Inr (?c\<lparr>co_state := (co_state ?c)\<lparr>st_fleet := f\<rparr>\<rparr>)" "fleet_ok f"
    "fl_policy f = fl_policy (st_fleet (co_state ?c))"
    "md \<noteq> None \<Longrightarrow> fl_pin_counts f = fl_pin_counts (st_fleet (co_state c1)) \<and> fl_quota f = fl_quota (st_fleet (co_state c1))"
    by (rule load_metadata_ok [OF create_app_ok [OF np fresh, of er tw] assms(2,4)]) (rule that)
  let ?c1 = "?c\<lparr>co_state := (co_state ?c)\<lparr>st_fleet := f\<rparr>\<rparr>"
  show ?thesis
  proof (cases ck)
    case None
    have "co_ok np ?c1" using create_app_ok [OF np fresh, of er tw] f(2,3) by (simp add: co_ok_def co.current_def st_inv_def)
    then show ?thesis using f(4) by (simp add: restart_def app f(1) None load_checkpoint_def)
  next
    case (Some k)
    have "co_gate ?c1 = []" "co_state ?c1 = \<lparr>st_usage = um_init, st_directory = d0, st_config = sc_init, st_fleet = f\<rparr>"
      by (simp_all add: new_coordinator_def)
    from load_checkpoint_ok [OF assms(1) f(2) this fresh] obtain c' where c': "load_checkpoint np (Some (save_checkpoint np c0)) ?c1 = Inr c'"
      "co_ok np c'" "co_gate c' = co_gate c0" "directory (st_directory (co_state c')) = directory (st_directory (co_state c0))"
      "placement_sizes (st_usage (co_state c')) = placement_sizes (st_usage (co_state c0))"
      "iso_per_salt_order (fl_policy (st_fleet (co_state c'))) = iso_per_salt_order (fl_policy (st_fleet (co_state c0)))"
      "fl_pin_counts (st_fleet (co_state c')) = fl_pin_counts f" "fl_quota (st_fleet (co_state c')) = fl_quota f"
      by blast
    with Some assms(3) f(4) show ?thesis by (simp add: restart_def app f(1))
  qed
qed

lemma co_reach_ok:
  assumes "co_reach np c" and np: "numpy_spec np"
  shows "co_ok np c"
  using assms(1)
proof induction
  case (start er tw cfg c)
  then show ?case using create_app_ok [OF np kd_from_config_empty] by (auto simp: create_app_Inr)
next
  case (events c ws c' resp)
  obtain bs where bs: "validate_batches ws = Inr bs" using events.hyps(3) by (auto simp: post_events_def split: sum.splits)
  have "c' = with_gate (gate_run (consumers np) (map Ingest bs)) c"
    using events.hyps(3) bs report_cache_events_run [of "consumers np" bs "(co_gate c, co_state c)"]
    by (auto simp: post_events_def with_gate_def split: prod.splits)
  then show ?case using co_ok_run [OF events.IH validated_ok [OF events.hyps(2) bs]] by simp
next
  case (deregister c i)
  let ?c = "with_gate (drop_instance (consumers np) i) (c\<lparr>co_registry := fst (Instance_Registry.deregister i (co_registry c))\<rparr>)"
  have "co_ok np ?c" using deregister.IH by (intro co_ok_drop) simp
  moreover from this have "sc_inv (forget i (st_config (co_state ?c)))"
    by (intro forget_inv) (simp add: co_ok_def co.current_def st_inv_def)
  ultimately show ?case unfolding deregister_instance_def Let_def by (rule co_ok_config)
next
  case (health c rnd now timeout)
  have "co_ok np (foldl (\<lambda>c i. with_gate (drop_instance (consumers np) i) c) (c\<lparr>co_registry := r\<rparr>) is)" for r "is"
    by (rule foldl_inv) (use health.IH co_ok_drop in auto)
  then show ?case by (simp add: health_tick_def case_prod_beta)
next
  case (pin c th model world toks salt)
  have "co_ok np (on_fleet (Fleet_Eviction.pin keys) c)" if "\<forall>k\<in>set keys. key_ok k" for keys
    by (rule co_ok_fleet [OF pin.IH fleet_pin_ok(1) pins_keep_policy(1)]) (use that in auto)
  then show ?case using pin.IH by (auto simp: request_pin_def resolved_keys_ok split: sum.split)
next
  case (unpin c th model world toks salt)
  have "co_ok np (on_fleet (Fleet_Eviction.unpin keys) c)" for keys
    by (rule co_ok_fleet [OF unpin.IH fleet_pin_ok(2) pins_keep_policy(2)])
  then show ?case using unpin.IH by (auto simp: request_unpin_def split: sum.split)
next
  case (delete c th call i model world toks salt t force)
  have "co_ok np (on_fleet (drop_pins keys) c)" for keys by (rule co_ok_fleet [OF delete.IH fleet_pin_ok(3) pins_keep_policy(3)])
  with delete.IH show ?case by (auto simp: request_delete_def Let_def split: option.splits sum.splits)
next
  case (quota c op)
  show ?case by (rule co_ok_fleet [OF quota.IH]) (simp_all add: fleet_ok_def)
next
  case (heartbeat c i now)
  then show ?case by (simp add: Coordinator.heartbeat_def case_prod_beta)
next
  case (restart c0 c1 ck md er tw cfg c')
  then obtain d0 where "kd_from_config cfg = Inr d0" by (auto simp: restart_def create_app_def split: sum.splits)
  with restart show ?case using restart_ok [of np c0 c1 ck md cfg d0 er tw] by auto
next
  case (register c inst)
  then show ?case by (simp add: register_instance_def case_prod_beta)
qed

section \<open>What a lookup reads\<close>

lemma agree_l2_bytes:
  assumes "agree S m" and idents: "\<And>p q. (k, p) \<in> S \<Longrightarrow> (k, q) \<in> S \<Longrightarrow> ident p = ident q \<Longrightarrow> p = q"
  shows "bytes_of m (\<lambda>pid. key_id pid = (L2, k)) = (\<Sum>p\<in>{p. (k, p) \<in> S \<and> pl_tier p = L2}. pl_size_bytes p)"
proof -
  let ?pid = "\<lambda>p. (L2, k, if pl_shared p then [] else pl_instance_id p, pl_backend p)"
  let ?P = "{p. (k, p) \<in> S \<and> pl_tier p = L2}"
  have id: "ident p = (i = [], i, L2, be)" if "p \<in> ?P" "?pid p = (L2, k, i, be)" for p i be
    using that assms(1) unfolding agree_def by (auto simp: ident_def split: if_splits)
  have inj: "inj_on ?pid ?P"
  proof (rule inj_onI)
    fix p q assume pq: "p \<in> ?P" "q \<in> ?P" "?pid p = ?pid q"
    then have "ident p = ident q" using id [OF pq(1)] id [OF pq(2)] by metis
    with pq idents show "p = q" by blast
  qed
  have val: "m (?pid p) = Some (pl_size_bytes p)" if "p \<in> ?P" for p
    using agreeD [OF assms(1), of L2 _ k] id [OF that HOL.refl] that by blast
  have "{pid \<in> dom m. key_id pid = (L2, k)} = ?pid ` ?P"
  proof (intro equalityI subsetI)
    fix pid assume pid: "pid \<in> {pid \<in> dom m. key_id pid = (L2, k)}"
    obtain t k' i be where e: "pid = (t, k', i, be)" by (cases pid)
    with pid obtain sz where "m (L2, k, i, be) = Some sz" and e: "pid = (L2, k, i, be)" by auto
    then obtain p where p: "(k, p) \<in> S" "ident p = (i = [], i, L2, be)" using agreeD [OF assms(1), of L2 i k] by auto
    then have "p \<in> ?P" "?pid p = pid" by (auto simp: ident_def e split: if_splits)
    then show "pid \<in> ?pid ` ?P" by blast
  qed (use val in auto)
  then show ?thesis unfolding bytes_of_def using val by (simp add: sum.reindex [OF inj])
qed

lemma lookup_one:
  assumes "kd_inv d"
  shows "set (lookup [k] d ! 0) = {p. (k, p) \<in> dir_facts d}" and "distinct (lookup [k] d ! 0)"
    and "(k, p) \<in> dir_facts d \<Longrightarrow> (k, q) \<in> dir_facts d \<Longrightarrow> ident p = ident q \<Longrightarrow> p = q"
proof -
  have facts: "set (lookup [k] d ! 0) = {p. (k, p) \<in> dir_facts d}" "distinct (map ident (lookup [k] d ! 0))"
    using lookup_facts [OF assms, of 0 "[k]"] by auto
  show "set (lookup [k] d ! 0) = {p. (k, p) \<in> dir_facts d}" by (rule facts)
  show "distinct (lookup [k] d ! 0)" using facts(2) by (simp add: distinct_map)
  show "p = q" if "(k, p) \<in> dir_facts d" "(k, q) \<in> dir_facts d" "ident p = ident q"
    using that facts by (auto simp: distinct_map inj_on_def)
qed

section \<open>A concrete run\<close>

definition demo_wire :: "int \<Rightarrow> int \<Rightarrow> tier \<Rightarrow> wire_batch" where
  "demo_wire n q t =
     \<lparr>instance_id = ''a'', incarnation = n, seq = q, event_type = STORE, batch_tier = t, backend = ''dram'',
      entries = [\<lparr>ee_key = to_encoded_object_key demo_key, size_bytes = 4, token_ids = [7, 8], token_offset = 0\<rparr>],
      shared = False, ts = 1, capacity_bytes = 0, capacity_revision = 0\<rparr>"

lemma demo_wire_ok: "0 \<le> n \<Longrightarrow> 1 \<le> q \<Longrightarrow> t \<noteq> ALL_TIERS \<Longrightarrow> wire_ok (demo_wire n q t)"
  by (cases t) (simp_all add: wire_ok_def check_batch_Inr demo_wire_def new_cache_event_entry_Inr UNKNOWN_TOKEN_OFFSET_def)

lemma demo_wire_batch: "convert_batch (demo_wire n q t) = Inr (demo_batch ''a'' n q STORE t [demo_key])"
  by (simp add: convert_batch_def demo_wire_def convert_entry_def to_object_key_encoded [OF demo_key_ok] demo_batch_def)

definition demo_coordinator :: coordinator where
  "demo_coordinator =
     (case post_events list_np [demo_wire 1 1 L1, demo_wire 1 2 L2] (new_coordinator 1 1 kd_init) of
        Inr (c, resp) \<Rightarrow> c
      | Inl err \<Rightarrow> new_coordinator 1 1 kd_init)"

lemma demo_lookup:
  "map (\<lambda>p. (pl_instance_id p, pl_incarnation p, pl_tier p)) (lookup [demo_key] (st_directory (co_state demo_coordinator)) ! 0) =
     [(''a'', 1, L1), (''a'', 1, L2)]"
  by code_simp

lemma demo_bytes: "get_key_bytes L2 demo_key (st_usage (co_state demo_coordinator)) = 4"
  by code_simp

lemma mapped_element:
  assumes "map f xs = ys" and "y \<in> set ys"
  obtains x where "x \<in> set xs" and "f x = y"
  using assms by auto

lemma demo_reach: "co_reach list_np demo_coordinator"
proof -
  let ?ws = "[demo_wire 1 1 L1, demo_wire 1 2 L2]"
  obtain c resp where post: "post_events list_np ?ws (new_coordinator 1 1 kd_init) = Inr (c, resp)"
    by (auto simp: post_events_def validate_batches_def demo_wire_batch case_prod_beta Let_def)
  have "\<forall>w\<in>set ?ws. wire_ok w" by (simp add: demo_wire_ok)
  moreover have "create_app 1 1 None = Inr (new_coordinator 1 1 kd_init)" by (simp add: create_app_def kd_from_config_def)
  ultimately have "co_reach list_np c" by (intro co_reach.events [OF co_reach.start _ post])
  with post show ?thesis by (simp add: demo_coordinator_def)
qed

text \<open>
  Two places where parts of the coordinator differ. A fence drops the shared L1 placements that
  the fenced instance wrote last from the directory, while the usage view keeps their bytes. And a
  capacity declaration leaves with \<open>DELETE /instances\<close> but stays when the health loop removes the
  instance.
\<close>

definition post :: "wire_batch list \<Rightarrow> coordinator \<Rightarrow> coordinator" where
  "post ws c = (case post_events list_np ws c of Inl err \<Rightarrow> c | Inr (c', resp) \<Rightarrow> c')"

lemma shared_l1_views_differ:
  fixes c defines "c \<equiv> deregister_instance list_np ''a'' (post [(demo_wire 1 1 L1)\<lparr>shared := True\<rparr>] (new_coordinator 1 1 kd_init))"
  shows "lookup [demo_key] (st_directory (co_state c)) = [[]]" and "get_key_bytes L1 demo_key (st_usage (co_state c)) = 4"
  unfolding c_def by code_simp+

definition demo_instance :: mp_instance where
  "demo_instance = \<lparr>mi_instance_id = ''a'', mi_ip = ''h'', mi_http_port = 1, registration_time = 0, last_heartbeat_time = 0,
     metadata = [], p2p_advertised_url = [], mq_port = 0\<rparr>"

definition declared :: coordinator where
  "declared = post [(demo_wire 1 1 L1)\<lparr>event_type := CONFIG, entries := [], capacity_bytes := 9\<rparr>]
     (fst (register_instance demo_instance (new_coordinator 1 1 kd_init)))"

lemma declaration_survives_timeout:
  "co_registry (health_tick list_np (\<lambda>x. x) 31 30 declared) = []"
  "map mc_capacity_bytes (sc_get ''a'' (st_config (co_state (health_tick list_np (\<lambda>x. x) 31 30 declared)))) = [9]"
  "sc_get ''a'' (st_config (co_state (deregister_instance list_np ''a'' declared))) = []"
  by code_simp+

section \<open>Properties\<close>

text \<open>
  C1. No lookup of a running coordinator returns a stale L1 placement: in every reachable state
  (registrations, heartbeats, event posts, timeouts, pins, deletes, quota changes and restarts
  in any order) each L1 placement belongs to an instance that the gate tracks, at the
  incarnation that the gate currently admits.
\<close>

theorem coordinator_no_stale_l1:
  assumes "numpy_spec np" and "co_reach np c" and "p \<in> set (lookup [k] (st_directory (co_state c)) ! 0)" and "pl_tier p = L1"
  shows "\<exists>cur. map_of (co_gate c) (pl_instance_id p) = Some cur \<and> cu_incarnation cur = pl_incarnation p"
proof -
  have ok: "co_ok np c" using assms(2,1) by (rule co_reach_ok)
  then have "kd_inv (st_directory (co_state c))" by (simp add: co_ok_def co.current_def st_inv_def)
  with assms(3,4) have "(pl_instance_id p, pl_incarnation p) \<in> kd_stamps (st_directory (co_state c))"
    by (auto simp: kd_stamps_def lookup_one(1))
  with ok show ?thesis by (auto simp: co_ok_def co.current_def)
qed

theorem coordinator_no_stale_l1_witness:
  "\<exists>p cur. p \<in> set (lookup [demo_key] (st_directory (co_state demo_coordinator)) ! 0) \<and> pl_tier p = L1 \<and>
     map_of (co_gate demo_coordinator) (pl_instance_id p) = Some cur \<and> cu_incarnation cur = pl_incarnation p"
proof -
  obtain p where p: "p \<in> set (lookup [demo_key] (st_directory (co_state demo_coordinator)) ! 0)" "pl_tier p = L1"
    by (rule mapped_element [OF demo_lookup, of "(''a'', 1, L1)"]) auto
  then show ?thesis using coordinator_no_stale_l1 [OF list_np_spec demo_reach p] by blast
qed

text \<open>
  C24. Every stored L2 key can be evicted: in every reachable state a key with L2 bytes in the
  usage view is tracked by the eviction policy of the controller, so that no bytes are
  out of the quota loop's reach, also after a restart from a checkpoint.
\<close>

theorem coordinator_l2_evictable:
  assumes "numpy_spec np" and "co_reach np c" and "0 < get_key_bytes L2 k (st_usage (co_state c))"
  shows "k \<in> set (bucket (fl_policy (st_fleet (co_state c))) (cache_salt k))"
  using co_reach_ok [OF assms(2,1)] assms(3) by (simp add: co_ok_def co.current_def st_inv_def iso_tracked_def)

theorem coordinator_l2_evictable_witness:
  "demo_key \<in> set (bucket (fl_policy (st_fleet (co_state demo_coordinator))) (cache_salt demo_key))"
  by (rule coordinator_l2_evictable [OF list_np_spec demo_reach]) (simp add: demo_bytes)

text \<open>
  C10. The directory and the usage view, which keep separate indexes and are restored from separate
  sections of a checkpoint, agree in every reachable state: the bytes of a key in L2 are the sum
  over the L2 placements that a lookup returns, and an instance's private L1 placement has one
  size in both.
\<close>

theorem coordinator_views_agree:
  assumes "numpy_spec np" and "co_reach np c"
  defines "d \<equiv> st_directory (co_state c)" and "u \<equiv> st_usage (co_state c)"
  shows "get_key_bytes L2 k u = sum_list (map pl_size_bytes (filter (\<lambda>p. pl_tier p = L2) (lookup [k] d ! 0))) \<and>
    (i \<noteq> [] \<longrightarrow> (map_of (placement_sizes u) (L1, k, i, be) = Some sz \<longleftrightarrow>
      (\<exists>p\<in>set (lookup [k] d ! 0). \<not> pl_shared p \<and> pl_instance_id p = i \<and> pl_tier p = L1 \<and> pl_backend p = be \<and> pl_size_bytes p = sz)))"
proof -
  have kd: "kd_inv d" and um: "um_inv u" and ag: "agree (dir_facts d) (map_of (placement_sizes u))"
    using co_reach_ok [OF assms(2,1)] by (simp_all add: co_ok_def co.current_def st_inv_def d_def u_def)
  have "get_key_bytes L2 k u = sum_list (map pl_size_bytes (filter (\<lambda>p. pl_tier p = L2) (lookup [k] d ! 0)))"
    using agree_l2_bytes [OF ag lookup_one(3) [OF kd]] lookup_one(1,2) [OF kd, of k]
    by (simp add: reads_sum(2) [OF um] sum_list_distinct_conv_sum_set conj_commute)
  moreover have "i \<noteq> [] \<Longrightarrow> map_of (placement_sizes u) (L1, k, i, be) = Some sz \<longleftrightarrow>
      (\<exists>p\<in>set (lookup [k] d ! 0). \<not> pl_shared p \<and> pl_instance_id p = i \<and> pl_tier p = L1 \<and> pl_backend p = be \<and> pl_size_bytes p = sz)"
    using agreeD [OF ag, of L1 i k be sz] by (auto simp: lookup_one(1) [OF kd] ident_def split: if_splits)
  ultimately show ?thesis by blast
qed

theorem coordinator_views_agree_witness:
  "sum_list (map pl_size_bytes (filter (\<lambda>p. pl_tier p = L2) (lookup [demo_key] (st_directory (co_state demo_coordinator)) ! 0))) = 4"
  using coordinator_views_agree [OF list_np_spec demo_reach, of demo_key "''a''" "''dram''" 4] by (simp add: demo_bytes)

text \<open>
  C11. A restart loses nothing. From the checkpoint that any reachable coordinator wrote and the
  metadata document that any reachable coordinator wrote, the load succeeds under every valid
  configuration, with blend lookup or without; the new process has
  the cursors, the lookup results, the byte counts and the eviction order of the checkpoint and
  the pins, with their counts, and the quotas of the metadata document, and it is again a reachable state, so that the
  guarantees above hold for it.
\<close>

theorem coordinator_restart:
  assumes "numpy_spec np" and "co_reach np c0" and "co_reach np c1" and cfg: "kd_from_config cfg = Inr d0"
  shows "\<exists>c. restart np er tw cfg (Some (save_checkpoint np c0)) (Some (save_metadata c1)) = Inr c \<and> co_reach np c \<and>
    co_gate c = co_gate c0 \<and> (\<forall>keys. lookup keys (st_directory (co_state c)) = lookup keys (st_directory (co_state c0))) \<and>
    (\<forall>t k. get_key_bytes t k (st_usage (co_state c)) = get_key_bytes t k (st_usage (co_state c0))) \<and>
    (\<forall>t s. get_salt_bytes t s (st_usage (co_state c)) = get_salt_bytes t s (st_usage (co_state c0))) \<and>
    (\<forall>s. bucket (fl_policy (st_fleet (co_state c))) s = bucket (fl_policy (st_fleet (co_state c0))) s) \<and>
    (\<forall>keys. filter_unpinned keys (st_fleet (co_state c)) = filter_unpinned keys (st_fleet (co_state c1))) \<and>
    fl_pin_counts (st_fleet (co_state c)) = fl_pin_counts (st_fleet (co_state c1)) \<and>
    fl_quota (st_fleet (co_state c)) = fl_quota (st_fleet (co_state c1))"
proof -
  let ?ck = "Some (save_checkpoint np c0)" and ?md = "Some (save_metadata c1)"
  have ok: "co_ok np c0" "co_ok np c1" using assms(1-3) co_reach_ok by blast+
  from restart_ok [OF ok _ _ cfg, of ?ck ?md er tw] obtain c where c: "restart np er tw cfg ?ck ?md = Inr c" "co_ok np c" "co_gate c = co_gate c0"
      "directory (st_directory (co_state c)) = directory (st_directory (co_state c0))"
      "placement_sizes (st_usage (co_state c)) = placement_sizes (st_usage (co_state c0))"
      "iso_per_salt_order (fl_policy (st_fleet (co_state c))) = iso_per_salt_order (fl_policy (st_fleet (co_state c0)))"
      "fl_pin_counts (st_fleet (co_state c)) = fl_pin_counts (st_fleet (co_state c1))"
      "fl_quota (st_fleet (co_state c)) = fl_quota (st_fleet (co_state c1))" by auto
  have "co_reach np c" by (rule co_reach.restart [OF assms(2,3) _ _ c(1)]) simp_all
  moreover have um: "um_inv (st_usage (co_state c))" "um_inv (st_usage (co_state c0))"
    using c(2) ok(1) by (simp_all add: co_ok_def co.current_def st_inv_def)
  moreover have "lookup keys (st_directory (co_state c)) = lookup keys (st_directory (co_state c0))" for keys
    by (simp add: lookup_def c(4))
  ultimately show ?thesis
    using c by (simp add: reads_sum [OF um(1)] reads_sum [OF um(2)] bucket_def filter_unpinned_def)
qed

theorem coordinator_restart_witness:
  "\<exists>c. restart list_np 1 1 (Some (4, 1)) (Some (save_checkpoint list_np demo_coordinator)) (Some (save_metadata demo_coordinator)) = Inr c \<and>
     get_key_bytes L2 demo_key (st_usage (co_state c)) = 4"
  using coordinator_restart [OF list_np_spec demo_reach demo_reach, of "Some (4, 1)" _ 1 1]
  by (auto simp: demo_bytes kd_from_config_def enable_blend_lookup_def new_blend_index_def)

end
