(* ===== verification/Session_State.thy ===== *)
theory Session_State
  imports Token_Hasher "HOL-Library.Sublist"
begin

text \<open>
  \<^verbatim>\<open>lmcache/v1/multiprocess/session.py\<close>: \<open>Session\<close>, the per-request state of the MP server (the
  incremental chunk hashes and the lock set of the last lookup), and \<open>SessionManager\<close>. Every
  method holds the session's lock, so a call is one step; the clock is an argument. An exception
  of the hash function leaves what was hashed before it, so \<open>compute_hash\<close> returns the session
  together with the error.
\<close>

section \<open>State\<close>

text \<open>The fields of \<open>IPCCacheServerKey\<close> that a session compares.\<close>

record server_key = ipc_key +
  sk_token_ids :: "int list"
  sk_start :: int
  sk_end :: int

type_synonym release_owner = "int \<times> int \<times> int \<times> int \<times> int"

record session =
  se_token_ids :: "int list"
  se_chunk_hashes :: "hash_value list"
  last_prefix_hash :: "hash_value option"
  num_chunks_processed :: int
  created_at :: pyfloat
  lookup_ipc_key :: "server_key option"
  prefetch_hit_chunks :: int
  prefetch_locked_gids :: "int list"
  prefetch_group_windows :: "int list"
  lookup_generation :: int
  failed_retrieve_releases :: "release_owner list"

definition new_session :: "pyfloat \<Rightarrow> session" where
  "new_session now =
     \<lparr>se_token_ids = [], se_chunk_hashes = [], last_prefix_hash = None, num_chunks_processed = 0, created_at = now,
      lookup_ipc_key = None, prefetch_hit_chunks = -1, prefetch_locked_gids = [], prefetch_group_windows = [],
      lookup_generation = 0, failed_retrieve_releases = []\<rparr>"

section \<open>Hashes\<close>

definition set_tokens :: "int list \<Rightarrow> session \<Rightarrow> session" where
  "set_tokens full_token_ids s = s\<lparr>se_token_ids := full_token_ids\<rparr>"

text \<open>The loop of \<open>_compute_hash\<close>; each pass adds one chunk, so that the bound is the number of passes.\<close>

primrec compute_loop :: "token_hasher \<Rightarrow> nat \<Rightarrow> session \<Rightarrow> session \<times> py_error option" where
  "compute_loop th 0 s = (s, None)"
| "compute_loop th (Suc passes) s =
     (let cs = num_chunks_processed s * th_chunk_size th;
          ce = cs + th_chunk_size th;
          chunk = py_slice cs ce (se_token_ids s);
          prefix = (case last_prefix_hash s of Some h \<Rightarrow> h | None \<Rightarrow> none_hash th)
      in case hash_tokens th chunk (Some prefix) of
           Inl err \<Rightarrow> (s, Some err)
         | Inr h \<Rightarrow>
             compute_loop th passes
               (s\<lparr>last_prefix_hash := Some h, se_chunk_hashes := se_chunk_hashes s @ [h],
                  num_chunks_processed := num_chunks_processed s + 1\<rparr>))"

definition compute_hash :: "token_hasher \<Rightarrow> int \<Rightarrow> session \<Rightarrow> session \<times> py_error option" where
  "compute_hash th end_chunk s = compute_loop th (nat (end_chunk - num_chunks_processed s)) s"

definition get_hashes :: "token_hasher \<Rightarrow> int \<Rightarrow> int option \<Rightarrow> session \<Rightarrow> session \<times> hash_value list result" where
  "get_hashes th start stop s =
     (let cs = th_chunk_size th; len = int (length (se_token_ids s)) in
      if cs = 0 then (s, Inl ZeroDivisionError)
      else if start mod cs \<noteq> 0 then (s, Inl AssertionError)
      else if (case stop of Some e \<Rightarrow> e > len | None \<Rightarrow> False) then (s, Inl ValueError)
      else
        let e = (case stop of Some e \<Rightarrow> e | None \<Rightarrow> len - len mod cs) in
        if e mod cs \<noteq> 0 then (s, Inl AssertionError)
        else
          (case compute_hash th (e div cs) s of
             (s', Some err) \<Rightarrow> (s', Inl err)
           | (s', None) \<Rightarrow> (s', Inr (py_slice (start div cs) (e div cs) (se_chunk_hashes s')))))"

section \<open>Lookups and releases\<close>

definition begin_lookup :: "server_key \<Rightarrow> int list \<Rightarrow> session \<Rightarrow> session" where
  "begin_lookup key group_windows s =
     s\<lparr>lookup_ipc_key := Some key, prefetch_hit_chunks := -1, prefetch_locked_gids := [],
       prefetch_group_windows := group_windows, lookup_generation := lookup_generation s + 1,
       failed_retrieve_releases := []\<rparr>"

definition record_prefetch_result :: "int \<Rightarrow> int list \<Rightarrow> session \<Rightarrow> session" where
  "record_prefetch_result hit_chunks locked_gids s = s\<lparr>prefetch_hit_chunks := hit_chunks, prefetch_locked_gids := locked_gids\<rparr>"

definition same_lookup :: "server_key \<Rightarrow> server_key \<Rightarrow> bool" where
  "same_lookup key lookup_key \<longleftrightarrow>
     ipc_model_name key = ipc_model_name lookup_key \<and> ipc_world_size key = ipc_world_size lookup_key \<and>
     sk_token_ids key = sk_token_ids lookup_key \<and> ipc_cache_salt key = ipc_cache_salt lookup_key \<and>
     sk_start key \<ge> sk_start lookup_key \<and> sk_end key \<le> sk_end lookup_key"

definition prepare_failed_retrieve_release :: "server_key \<Rightarrow> session \<Rightarrow> (int \<times> int list \<times> int list \<times> int) option" where
  "prepare_failed_retrieve_release key s =
     (case ipc_worker_id key of
        None \<Rightarrow> None
      | Some _ \<Rightarrow>
          (case lookup_ipc_key s of
             None \<Rightarrow> None
           | Some lookup_key \<Rightarrow>
               if prefetch_hit_chunks s < 0 then None
               else if \<not> same_lookup key lookup_key then None
               else Some (prefetch_hit_chunks s, prefetch_locked_gids s, prefetch_group_windows s, lookup_generation s)))"

definition claim_failed_retrieve_release :: "int \<Rightarrow> server_key \<Rightarrow> int \<Rightarrow> session \<Rightarrow> session \<times> bool" where
  "claim_failed_retrieve_release instance_id key generation s =
     (case ipc_worker_id key of
        None \<Rightarrow> (s, False)
      | Some worker \<Rightarrow>
          (case lookup_ipc_key s of
             None \<Rightarrow> (s, False)
           | Some lookup_key \<Rightarrow>
               if generation \<noteq> lookup_generation s then (s, False)
               else if \<not> same_lookup key lookup_key then (s, False)
               else
                 let owner = (generation, instance_id, worker, sk_start key, sk_end key) in
                 if owner \<in> set (failed_retrieve_releases s) then (s, False)
                 else (s\<lparr>failed_retrieve_releases := failed_retrieve_releases s @ [owner]\<rparr>, True)))"

section \<open>The manager\<close>

type_synonym sessions = "(string, session) pydict"

definition get_or_create :: "string \<Rightarrow> pyfloat \<Rightarrow> sessions \<Rightarrow> sessions \<times> session" where
  "get_or_create rid now ss =
     (case dict_get ss rid of
        Some s \<Rightarrow> (ss, s)
      | None \<Rightarrow> (dict_set rid (new_session now) ss, new_session now))"

definition get_session :: "string \<Rightarrow> sessions \<Rightarrow> session option" where
  "get_session rid ss = dict_get ss rid"

definition remove_session :: "string \<Rightarrow> sessions \<Rightarrow> sessions \<times> session option" where
  "remove_session rid ss =
     (case dict_get ss rid of Some s \<Rightarrow> (dict_del rid ss, Some s) | None \<Rightarrow> (ss, None))"

definition cleanup_expired :: "(rat \<Rightarrow> rat) \<Rightarrow> pyfloat \<Rightarrow> pyfloat \<Rightarrow> sessions \<Rightarrow> sessions \<times> nat" where
  "cleanup_expired rnd now ttl ss =
     (let expired = map fst (filter (\<lambda>(rid, s). rnd (now - created_at s) > ttl) ss)
      in (foldl (\<lambda>ss rid. dict_del rid ss) ss expired, length expired))"

definition active_count :: "sessions \<Rightarrow> nat" where
  "active_count ss = length ss"

section \<open>Incremental hashing\<close>

definition session_inv :: "token_hasher \<Rightarrow> nat \<Rightarrow> session \<Rightarrow> bool" where
  "session_inv th n s \<longleftrightarrow>
     num_chunks_processed s = int (length (se_chunk_hashes s)) \<and>
     last_prefix_hash s = (if se_chunk_hashes s = [] then None else Some (last (se_chunk_hashes s))) \<and>
     length (se_chunk_hashes s) * n \<le> length (se_token_ids s) \<and>
     chain th (none_hash th) (full_chunks n (take (length (se_chunk_hashes s) * n) (se_token_ids s))) = Inr (se_chunk_hashes s)"

lemma new_session_inv: "0 < n \<Longrightarrow> session_inv th n (new_session now)"
  by (simp add: session_inv_def new_session_def full_chunks_short)

lemma set_tokens_inv:
  assumes "session_inv th n s" and "prefix (se_token_ids s) toks"
  shows "session_inv th n (set_tokens toks s)"
proof -
  obtain zs where "toks = se_token_ids s @ zs" using assms(2) by (rule prefixE)
  with assms(1) show ?thesis by (simp add: session_inv_def set_tokens_def)
qed

lemma full_chunks_snoc:
  assumes "0 < n" and "(k + 1) * n \<le> length xs"
  shows "full_chunks n (take ((k + 1) * n) xs) = full_chunks n (take (k * n) xs) @ [take n (drop (k * n) xs)]"
proof -
  have k: "k < length (full_chunks n xs)" using assms by (simp add: less_eq_div_iff_mult_less_eq Suc_le_eq [symmetric])
  then have "take (k + 1) (full_chunks n xs) = take k (full_chunks n xs) @ [full_chunks n xs ! k]" by (simp add: take_Suc_conv_app_nth)
  moreover have "full_chunks n xs ! k = take n (drop (k * n) xs)" using k by (simp add: full_chunks_def)
  ultimately show ?thesis by (simp only: full_chunks_take [OF assms(1)])
qed

lemma compute_loop_inv:
  assumes n: "th_chunk_size th = int n" "0 < n" and inv: "session_inv th n s"
    and len: "(length (se_chunk_hashes s) + passes) * n \<le> length (se_token_ids s)"
  shows "session_inv th n (fst (compute_loop th passes s)) \<and>
    se_token_ids (fst (compute_loop th passes s)) = se_token_ids s \<and>
    (snd (compute_loop th passes s) = None \<longrightarrow>
       length (se_chunk_hashes (fst (compute_loop th passes s))) = length (se_chunk_hashes s) + passes)"
  using inv len
proof (induction passes arbitrary: s)
  case (Suc passes)
  let ?k = "length (se_chunk_hashes s)"
  let ?chunk = "take n (drop (?k * n) (se_token_ids s))"
  let ?prefix = "case last_prefix_hash s of Some h \<Rightarrow> h | None \<Rightarrow> none_hash th"
  have num: "num_chunks_processed s = int ?k" using Suc.prems(1) by (simp add: session_inv_def)
  have slice: "py_slice (num_chunks_processed s * th_chunk_size th) (num_chunks_processed s * th_chunk_size th + th_chunk_size th) (se_token_ids s) = ?chunk"
    by (simp add: num n(1) slice_chunk)
  have room: "(?k + 1) * n \<le> length (se_token_ids s)" using Suc.prems(2) by (rule le_trans [rotated]) simp
  show ?case
  proof (cases "hash_func th ?prefix ?chunk")
    case (Inl err)
    then show ?thesis using Suc.prems(1) by (simp add: Let_def slice hash_tokens_def)
  next
    case (Inr h)
    let ?s = "s\<lparr>last_prefix_hash := Some h, se_chunk_hashes := se_chunk_hashes s @ [h], num_chunks_processed := num_chunks_processed s + 1\<rparr>"
    have pre: "?prefix = (if se_chunk_hashes s = [] then none_hash th else last (se_chunk_hashes s))"
      using Suc.prems(1) by (simp add: session_inv_def)
    have "chain th (none_hash th) (full_chunks n (take (?k * n) (se_token_ids s)) @ [?chunk]) = Inr (se_chunk_hashes s @ [h])"
      using Suc.prems(1) Inr pre unfolding chain_append by (auto simp: session_inv_def)
    then have "session_inv th n ?s"
      using num room full_chunks_snoc [OF n(2) room] by (simp add: session_inv_def)
    moreover have "(length (se_chunk_hashes ?s) + passes) * n \<le> length (se_token_ids ?s)" using Suc.prems(2) by simp
    ultimately show ?thesis using Suc.IH [of ?s] by (simp add: Let_def slice hash_tokens_def Inr)
  qed
qed simp

lemma compute_loop_total:
  assumes n: "th_chunk_size th = int n" "0 < n" and inv: "session_inv th n s"
    and len: "(length (se_chunk_hashes s) + passes) * n \<le> length (se_token_ids s)"
    and all: "chain th (none_hash th) (full_chunks n (se_token_ids s)) = Inr hs"
  shows "snd (compute_loop th passes s) = None"
  using inv len all
proof (induction passes arbitrary: s)
  case (Suc passes)
  let ?k = "length (se_chunk_hashes s)"
  have room: "(?k + 1) * n \<le> length (se_token_ids s)" using Suc.prems(2) by (rule le_trans [rotated]) simp
  have "chain th (none_hash th) (full_chunks n (take ((?k + 1) * n) (se_token_ids s))) = Inr (take (?k + 1) hs)"
    using chain_prefix [OF Suc.prems(3), of "?k + 1"] by (simp only: full_chunks_take [OF n(2)])
  then obtain h where h: "hash_func th (case last_prefix_hash s of Some h \<Rightarrow> h | None \<Rightarrow> none_hash th)
      (take n (drop (?k * n) (se_token_ids s))) = Inr h"
    using Suc.prems(1) unfolding full_chunks_snoc [OF n(2) room] chain_append by (auto simp: session_inv_def split: sum.splits if_splits)
  let ?s = "s\<lparr>last_prefix_hash := Some h, se_chunk_hashes := se_chunk_hashes s @ [h], num_chunks_processed := num_chunks_processed s + 1\<rparr>"
  have num: "num_chunks_processed s = int ?k" using Suc.prems(1) by (simp add: session_inv_def)
  have step: "compute_loop th 1 s = (?s, None)" "compute_loop th (Suc passes) s = compute_loop th passes ?s"
    using h by (simp_all add: Let_def num n(1) slice_chunk hash_tokens_def)
  have "session_inv th n ?s" using compute_loop_inv [OF n Suc.prems(1), of 1] room step(1) by simp
  then show ?case using Suc.IH [of ?s] Suc.prems(2,3) step(2) by simp
qed simp

lemma py_slice_nat: "py_slice (int a) (int b) xs = drop a (take b xs)"
  by (simp add: py_slice_def slice_index_def Let_def drop_take min_def)

lemma get_hashes_spec:
  assumes n: "th_chunk_size th = int n" "0 < n" and inv: "session_inv th n s" and b: "b * n \<le> length (se_token_ids s)"
  shows "session_inv th n (fst (get_hashes th (int a * int n) (Some (int b * int n)) s))"
    and "chain th (none_hash th) (full_chunks n (se_token_ids s)) = Inr hs \<Longrightarrow>
      snd (get_hashes th (int a * int n) (Some (int b * int n)) s) = Inr (drop a (take b hs))"
proof -
  let ?k = "length (se_chunk_hashes s)" and ?p = "nat (int b - int (length (se_chunk_hashes s)))"
  let ?r = "compute_loop th ?p s"
  have kp: "?k + ?p = max ?k b" by linarith
  have len: "(?k + ?p) * n \<le> length (se_token_ids s)"
    unfolding kp using b inv by (simp add: session_inv_def max_def)
  note r = compute_loop_inv [OF n inv len]
  have "int b * int n \<le> int (length (se_token_ids s))" using b by (metis of_nat_le_iff of_nat_mult)
  then have get: "get_hashes th (int a * int n) (Some (int b * int n)) s =
      (case ?r of (s', Some err) \<Rightarrow> (s', Inl err) | (s', None) \<Rightarrow> (s', Inr (py_slice (int a) (int b) (se_chunk_hashes s'))))"
    using n inv by (simp add: get_hashes_def Let_def compute_hash_def session_inv_def)
  show "session_inv th n (fst (get_hashes th (int a * int n) (Some (int b * int n)) s))"
    unfolding get using r by (auto split: prod.split option.split)
  assume all: "chain th (none_hash th) (full_chunks n (se_token_ids s)) = Inr hs"
  obtain s' where s': "?r = (s', None)" using compute_loop_total [OF n inv len all] by (cases ?r) auto
  let ?k' = "length (se_chunk_hashes s')"
  have "chain th (none_hash th) (full_chunks n (take (?k' * n) (se_token_ids s))) = Inr (se_chunk_hashes s')" and k': "?k' = ?k + ?p"
    using r s' by (auto simp: session_inv_def)
  then have "take ?k' hs = se_chunk_hashes s'"
    using chain_prefix [OF all, of ?k'] by (simp add: full_chunks_take [OF n(2)])
  then have "take b (se_chunk_hashes s') = take b hs" unfolding k' kp by (metis max.cobounded2 min.absorb1 take_take)
  then show "snd (get_hashes th (int a * int n) (Some (int b * int n)) s) = Inr (drop a (take b hs))"
    unfolding get s' by (simp add: py_slice_nat)
qed

section \<open>Runs\<close>

datatype session_call =
    Set_Tokens "int list"
  | Get_Hashes int "int option"
  | Begin_Lookup server_key "int list"
  | Record_Prefetch int "int list"
  | Claim_Release int server_key int

text \<open>One call, and the release it grants, if any.\<close>

fun session_step :: "token_hasher \<Rightarrow> session \<Rightarrow> session_call \<Rightarrow> session \<times> release_owner list" where
  "session_step th s (Set_Tokens toks) = (set_tokens toks s, [])"
| "session_step th s (Get_Hashes start stop) = (fst (get_hashes th start stop s), [])"
| "session_step th s (Begin_Lookup key windows) = (begin_lookup key windows s, [])"
| "session_step th s (Record_Prefetch hits gids) = (record_prefetch_result hits gids s, [])"
| "session_step th s (Claim_Release inst key gen) =
     (case claim_failed_retrieve_release inst key gen s of
        (s', True) \<Rightarrow> (s', [(gen, inst, the (ipc_worker_id key), sk_start key, sk_end key)])
      | (s', False) \<Rightarrow> (s', []))"

fun session_run :: "token_hasher \<Rightarrow> session_call list \<Rightarrow> session \<Rightarrow> session \<times> release_owner list" where
  "session_run th [] s = (s, [])"
| "session_run th (c # cs) s =
     (let (s', granted) = session_step th s c; (s'', granted') = session_run th cs s' in (s'', granted @ granted'))"

text \<open>The requests of a session pass ever longer prefixes of one token sequence.\<close>

fun growing :: "int list \<Rightarrow> session_call list \<Rightarrow> bool" where
  "growing toks [] = True"
| "growing toks (Set_Tokens toks' # cs) = (prefix toks toks' \<and> growing toks' cs)"
| "growing toks (c # cs) = growing toks cs"

lemma chunks_fit:
  assumes "e \<le> int len" and "0 < n"
  shows "nat (e div int n) * n \<le> len"
proof (cases "0 \<le> e")
  case True
  then obtain m where m: "e = int m" using zero_le_imp_eq_int by blast
  have "m div n * n \<le> m" by (rule div_times_less_eq_dividend)
  also have "m \<le> len" using assms(1) by (simp add: m)
  finally show ?thesis by (simp add: m flip: of_nat_div)
next
  case False
  then have "e div int n < 0" using assms(2) div_neg_pos_less0 [of e "int n"] by simp
  then show ?thesis by simp
qed

lemma get_hashes_inv:
  assumes n: "th_chunk_size th = int n" "0 < n" and inv: "session_inv th n s"
  shows "session_inv th n (fst (get_hashes th start stop s)) \<and> se_token_ids (fst (get_hashes th start stop s)) = se_token_ids s"
proof -
  let ?len = "int (length (se_token_ids s))"
  define e where "e = (case stop of Some e \<Rightarrow> e | None \<Rightarrow> ?len - ?len mod int n)"
  have "session_inv th n (fst (compute_loop th (nat (e div int n - num_chunks_processed s)) s)) \<and>
      se_token_ids (fst (compute_loop th (nat (e div int n - num_chunks_processed s)) s)) = se_token_ids s" if "e \<le> ?len"
  proof -
    let ?k = "length (se_chunk_hashes s)"
    have "nat (e div int n) * n \<le> length (se_token_ids s)" using that n(2) by (rule chunks_fit)
    then have "(?k + nat (e div int n - int ?k)) * n \<le> length (se_token_ids s)"
      using inv by (cases "int ?k \<le> e div int n") (auto simp: session_inv_def nat_diff_distrib)
    moreover have "num_chunks_processed s = int ?k" using inv by (simp add: session_inv_def)
    ultimately show ?thesis using compute_loop_inv [OF n inv, of "nat (e div int n - int ?k)"] by simp
  qed
  moreover have "e \<le> ?len" if "stop = None" using that n(2) by (simp add: e_def)
  ultimately show ?thesis
    using inv n by (cases stop) (auto simp: get_hashes_def Let_def compute_hash_def e_def split: prod.splits option.splits)
qed

lemma growing_run_inv:
  assumes n: "th_chunk_size th = int n" "0 < n" and "session_inv th n s" and "growing (se_token_ids s) cs"
  shows "session_inv th n (fst (session_run th cs s))"
  using assms(3,4)
proof (induction cs arbitrary: s)
  case (Cons c cs)
  have "session_inv th n (fst (session_step th s c)) \<and> growing (se_token_ids (fst (session_step th s c))) cs"
  proof (cases c)
    case (Set_Tokens toks)
    then show ?thesis using Cons.prems set_tokens_inv [of th n s toks] by (simp add: set_tokens_def)
  next
    case (Get_Hashes start stop)
    then show ?thesis using Cons.prems get_hashes_inv [OF n Cons.prems(1), of start stop] by simp
  qed (use Cons.prems in \<open>auto simp: session_inv_def begin_lookup_def record_prefetch_result_def claim_failed_retrieve_release_def Let_def
        split: option.splits\<close>)
  with Cons.IH show ?case by (simp add: case_prod_beta Let_def)
qed simp

section \<open>Properties\<close>

text \<open>
  C15. A session hashes like the resolver. In every run in which the token sequence only grows,
  however the calls for hashes are spread over it, the hashes of a chunk-aligned range of the
  current tokens are the ones that \<open>compute_chunk_hashes\<close> computes from scratch for that range;
  in particular keys built from a session and keys built by \<open>resolve_object_keys\<close> agree.
\<close>

theorem session_hashes_equal_resolver:
  fixes now :: pyfloat
  assumes n: "th_chunk_size th = int n" "0 < n" and run: "growing [] calls"
  defines "s \<equiv> fst (session_run th calls (new_session now))"
  assumes ok: "compute_chunk_hashes th (se_token_ids s) None 0 None = Inr bs" and b: "b * n \<le> length (se_token_ids s)"
  shows "\<exists>hs. snd (get_hashes th (int a * int n) (Some (int b * int n)) s) = Inr hs \<and>
    sequence_results (map hash_to_bytes hs) = compute_chunk_hashes th (se_token_ids s) None (int a * int n) (Some (int b * int n))"
proof -
  have inv: "session_inv th n s"
    unfolding s_def by (rule growing_run_inv [OF n new_session_inv [OF n(2)]]) (use run in \<open>simp add: new_session_def\<close>)
  obtain hs where hs: "chain th (none_hash th) (full_chunks n (se_token_ids s)) = Inr hs" "map hash_to_bytes hs = map Inr bs"
    using ok unfolding compute_chunk_hashes_chain [OF n] by (auto simp: start_hash_def)
  have "map hash_to_bytes (drop a (take b hs)) = map Inr (drop a (take b bs))"
    unfolding drop_map [symmetric] take_map [symmetric] hs(2) by (rule HOL.refl)
  then have "sequence_results (map hash_to_bytes (drop a (take b hs))) = Inr (drop a (take b bs))"
    by (simp add: sequence_results_Inr)
  then show ?thesis
    using get_hashes_spec(2) [OF n inv b hs(1), of a] compute_chunk_hashes_range [OF n ok, of a b] by simp
qed

definition demo_session_calls :: "session_call list" where
  "demo_session_calls = [Set_Tokens [7], Get_Hashes 0 None, Set_Tokens [7, 8, 9], Get_Hashes 0 (Some 2)]"

theorem session_hashes_equal_resolver_witness:
  "\<exists>hs. snd (get_hashes demo_hasher (int 1 * int 1) (Some (int 3 * int 1)) (fst (session_run demo_hasher demo_session_calls (new_session 0)))) = Inr hs \<and>
     sequence_results (map hash_to_bytes hs) = compute_chunk_hashes demo_hasher [7, 8, 9] None (int 1 * int 1) (Some (int 3 * int 1))"
proof -
  let ?s = "fst (session_run demo_hasher demo_session_calls (new_session 0))"
  have toks: "se_token_ids ?s = [7, 8, 9]" by code_simp
  have "(case compute_chunk_hashes demo_hasher [7, 8, 9] None 0 None of Inl _ \<Rightarrow> False | Inr _ \<Rightarrow> True)" by code_simp
  then obtain bs where bs: "compute_chunk_hashes demo_hasher (se_token_ids ?s) None 0 None = Inr bs"
    by (auto simp: toks split: sum.splits)
  have size: "th_chunk_size demo_hasher = int 1" by (simp add: demo_hasher_def)
  have grow: "growing [] demo_session_calls" by code_simp
  show ?thesis using session_hashes_equal_resolver [OF size _ grow bs, of 3 1] by (simp add: toks)
qed

text \<open>
  A token sequence that is replaced by another one, instead of extended, keeps the hashes of the
  old one: the session answers with the hash of the chunk \<open>[7]\<close>, not of \<open>[9]\<close>.
\<close>

lemma replaced_tokens_keep_hashes:
  "snd (get_hashes demo_hasher 0 (Some 1) (fst (session_run demo_hasher [Set_Tokens [7], Get_Hashes 0 None, Set_Tokens [9]] (new_session 0)))) =
     snd (get_hashes demo_hasher 0 (Some 1) (set_tokens [7] (new_session 0)))"
  "snd (get_hashes demo_hasher 0 (Some 1) (set_tokens [9] (new_session 0))) \<noteq>
     snd (get_hashes demo_hasher 0 (Some 1) (set_tokens [7] (new_session 0)))"
  by code_simp+

lemma compute_loop_frame:
  "lookup_generation (fst (compute_loop th passes s)) = lookup_generation s \<and>
   failed_retrieve_releases (fst (compute_loop th passes s)) = failed_retrieve_releases s"
  by (induction passes arbitrary: s) (simp_all add: Let_def split: sum.split)

lemma get_hashes_frame:
  "lookup_generation (fst (get_hashes th start stop s)) = lookup_generation s"
  "failed_retrieve_releases (fst (get_hashes th start stop s)) = failed_retrieve_releases s"
  using compute_loop_frame [of th _ s]
  by (auto simp: get_hashes_def Let_def compute_hash_def split: prod.split option.split) (metis fst_conv)+

lemma claims_invariant:
  assumes "session_run th calls s = (s', granted)"
    and "distinct rel" "\<forall>x\<in>set rel. fst x \<le> lookup_generation s"
    and "\<forall>x\<in>set rel. fst x = lookup_generation s \<longrightarrow> x \<in> set (failed_retrieve_releases s)"
  shows "distinct (rel @ granted)"
  using assms
proof (induction calls arbitrary: s s' granted rel)
  case (Cons c cs)
  obtain s1 g1 where s1: "session_step th s c = (s1, g1)" by fastforce
  obtain s2 g2 where s2: "session_run th cs s1 = (s2, g2)" by fastforce
  have g: "granted = g1 @ g2" using Cons.prems(1) s1 s2 by (simp add: Let_def)
  have "distinct (rel @ g1) \<and> (\<forall>x\<in>set (rel @ g1). fst x \<le> lookup_generation s1) \<and>
      (\<forall>x\<in>set (rel @ g1). fst x = lookup_generation s1 \<longrightarrow> x \<in> set (failed_retrieve_releases s1))"
  proof (cases c)
    case (Get_Hashes start stop)
    then show ?thesis using Cons.prems(2-) s1 get_hashes_frame [of th start stop s] by auto
  next
    case (Claim_Release inst key gen)
    then show ?thesis
      using Cons.prems(2-) s1
      by (auto simp: claim_failed_retrieve_release_def Let_def split: option.splits if_splits)
  qed (use Cons.prems(2-) s1 in \<open>force simp: set_tokens_def begin_lookup_def record_prefetch_result_def\<close>)+
  then show ?case using Cons.IH [OF s2, of "rel @ g1"] by (simp add: g)
qed simp

text \<open>
  C34. A failed worker's share of the read locks is released at most once: over all calls of a
  session, no pair of successful claims has the same lookup, instance, worker and range, whatever
  lookups, retries and stale generations come in between.
\<close>

theorem release_claimed_once:
  "distinct (snd (session_run th calls (new_session now)))"
proof -
  obtain s granted where "session_run th calls (new_session now) = (s, granted)" by fastforce
  from claims_invariant [OF this, of "[]"] this show ?thesis by simp
qed

end
