(* ===== verification/Blend_Directory.thy ===== *)
theory Blend_Directory
  imports Key_Directory
begin

text \<open>
  Fragment lookup through the directory (\<^verbatim>\<open>lmcache/v1/mp_coordinator/views/key_directory.py\<close>): the
  blend index is derived state that \<open>_create_token_binding\<close>, \<open>_remove_token_binding\<close> and \<open>restore\<close>
  keep in step with the token bindings. This theory has the coupling invariant of the two and the
  property that follows from it.
\<close>

section \<open>The index alone\<close>

text \<open>
  \<open>idx_ok k s C n bi\<close>: a well-formed index for windows of \<open>k\<close> tokens and stride \<open>s\<close> with at most \<open>n\<close>
  contents, all from \<open>C\<close>.
\<close>

definition idx_ok :: "nat \<Rightarrow> nat \<Rightarrow> uint32 list set \<Rightarrow> nat \<Rightarrow> blend_index \<Rightarrow> bool" where
  "idx_ok k s C n bi \<longleftrightarrow> bi_inv bi \<and> bi_chunk_size bi = k \<and> bi_probe_stride bi = s \<and>
     length (fingerprint_table bi) \<le> n \<and> contents bi \<subseteq> C"

lemma idx_ok_mono: "idx_ok k s C n bi \<Longrightarrow> n \<le> m \<Longrightarrow> idx_ok k s C m bi"
  by (simp add: idx_ok_def)

lemma idx_ok_add:
  assumes "idx_ok k s C n bi" and "n < 2 ^ 59" and "inj_on (fingerprint k) C" and "length toks = k \<Longrightarrow> toks \<in> C"
  shows "idx_ok k s C (Suc n) (bi_add toks h off bi)"
    and "bi_facts (bi_add toks h off bi) = abs_index_step k (bi_facts bi) (Add toks h off)"
  using index_step_ok [of bi k C "Add toks h off"] assms by (simp_all add: idx_ok_def)

lemma idx_ok_remove:
  assumes "idx_ok k s C n bi" and "n < 2 ^ 59" and "inj_on (fingerprint k) C" and "length toks = k \<Longrightarrow> toks \<in> C"
  shows "idx_ok k s C n (bi_remove toks h bi)"
    and "bi_facts (bi_remove toks h bi) = abs_index_step k (bi_facts bi) (Remove toks h)"
  using index_step_ok [of bi k C "Remove toks h"] bi_remove_inv(2) [of bi toks h] assms by (simp_all add: idx_ok_def)

section \<open>The coupling with the bindings\<close>

text \<open>
  What the index holds is the content of a live binding; every binding of the window's length with
  a known offset is held. A store that repeats a content with an unknown offset leaves the older
  entry in the index, so an entry's offset is the binding's or the binding's is unknown.
\<close>

definition row :: "indexed \<Rightarrow> pybytes \<Rightarrow> (uint32 list \<times> int) set" where
  "row A h = {(c, off). (c, h, off) \<in> A}"

fun link_at :: "nat \<Rightarrow> uint32 list set \<Rightarrow> token_binding option \<Rightarrow> (uint32 list \<times> int) set \<Rightarrow> bool" where
  "link_at k C None R \<longleftrightarrow> R = {}"
| "link_at k C (Some tb) R \<longleftrightarrow>
     (\<forall>(c, off)\<in>R. length c = k \<and> tb_token_ids tb = c \<and> tb_token_offset tb \<in> {off, UNKNOWN_TOKEN_OFFSET}) \<and>
     (length (tb_token_ids tb) = k \<longrightarrow> tb_token_ids tb \<in> C \<and>
        (tb_token_offset tb \<noteq> UNKNOWN_TOKEN_OFFSET \<longrightarrow> (tb_token_ids tb, tb_token_offset tb) \<in> R))"

definition linked :: "nat \<Rightarrow> uint32 list set \<Rightarrow> (pybytes \<rightharpoonup> token_binding) \<Rightarrow> indexed \<Rightarrow> bool" where
  "linked k C M A \<longleftrightarrow> (\<forall>h. link_at k C (M h) (row A h))"

lemma row_step [simp]:
  "row (abs_index_step k A (Add toks h off)) g =
     (if length toks = k \<and> g = h then insert (toks, off) {x \<in> row A h. fst x \<noteq> toks} else row A g)"
  "row (abs_index_step k A (Remove toks h)) g =
     (if length toks = k \<and> g = h then {x \<in> row A h. fst x \<noteq> toks} else row A g)"
  by (auto simp: row_def drop_chunk_def)

declare abs_index_step.simps [simp del]

lemma linked_update:
  assumes "linked k C M A" and "\<And>g. g \<noteq> h \<Longrightarrow> row B g = row A g" and "link_at k C v (row B h)"
  shows "linked k C (M(h := v)) B"
  using assms by (simp add: linked_def)

lemma linked_new:
  assumes "linked k C M A" and "M h = None" and "0 < k"
  shows "linked k C (M(h \<mapsto> \<lparr>tb_token_ids = [], tb_token_offset = off, tb_keys = ks\<rparr>)) A"
proof -
  have "link_at k C (M h) (row A h)" using assms(1) by (simp add: linked_def)
  then show ?thesis using assms by (intro linked_update [OF assms(1)]) auto
qed

lemma linked_same:
  assumes "linked k C M A" and "M h = Some tb" and "tb_token_ids tb' = tb_token_ids tb" and "tb_token_offset tb' = tb_token_offset tb"
  shows "linked k C (M(h \<mapsto> tb')) A"
proof -
  have "link_at k C (M h) (row A h)" using assms(1) by (simp add: linked_def)
  then show ?thesis using assms by (intro linked_update [OF assms(1)]) auto
qed

lemma linked_drop:
  assumes "linked k C M A" and "M h = Some tb" and "0 < k"
  shows "linked k C (M(h := None)) (abs_index_step k A (Remove (tb_token_ids tb) h))"
    and "tb_token_ids tb = [] \<Longrightarrow> linked k C (M(h := None)) A"
proof -
  have "link_at k C (M h) (row A h)" using assms(1) by (simp add: linked_def)
  then show "linked k C (M(h := None)) (abs_index_step k A (Remove (tb_token_ids tb) h))"
    and "tb_token_ids tb = [] \<Longrightarrow> linked k C (M(h := None)) A"
    using assms(2,3) by (intro linked_update [OF assms(1)]; auto)+
qed

text \<open>A new content for a binding: the old one is taken out when it differs, the new one put in when its offset is known.\<close>

lemma linked_set:
  assumes "linked k C M A" and "M h = Some tb" and "0 < k" and "length ids = k \<Longrightarrow> ids \<in> C"
  defines "B \<equiv> (if tb_token_ids tb \<noteq> [] \<and> tb_token_ids tb \<noteq> ids then abs_index_step k A (Remove (tb_token_ids tb) h) else A)"
  shows "linked k C (M(h \<mapsto> tb\<lparr>tb_token_ids := ids, tb_token_offset := off\<rparr>))
    (if off = UNKNOWN_TOKEN_OFFSET then B else abs_index_step k B (Add ids h off))"
proof -
  have "link_at k C (M h) (row A h)" using assms(1) by (simp add: linked_def)
  then have R: "\<forall>x\<in>row A h. fst x = tb_token_ids tb \<and> length (tb_token_ids tb) = k" using assms(2) by auto
  have row: "row B h = (if tb_token_ids tb = ids then row A h else {})"
    using R assms(3) by (auto simp: B_def)
  have "row B g = row A g" if "g \<noteq> h" for g using that by (simp add: B_def)
  then show ?thesis using R row assms(4) by (intro linked_update [OF assms(1)]) (auto split: if_splits)
qed

section \<open>The directory's operations\<close>

definition blend_ok :: "nat \<Rightarrow> nat \<Rightarrow> uint32 list set \<Rightarrow> nat \<Rightarrow> key_directory \<Rightarrow> bool" where
  "blend_ok k s C n d \<longleftrightarrow> blend_lookup_enabled d \<and> idx_ok k s C n (kd_blend_index d) \<and>
     linked k C (map_of (token_bindings d)) (bi_facts (kd_blend_index d))"

lemma blend_ok_fields [simp]:
  "blend_ok k s C n (d\<lparr>directory := ds\<rparr>) = blend_ok k s C n d" "blend_ok k s C n (d\<lparr>l1_keys_by_instance := l1\<rparr>) = blend_ok k s C n d"
  "blend_ok k s C n (l1_keys_add i key d) = blend_ok k s C n d" "blend_ok k s C n (l1_keys_discard i key d) = blend_ok k s C n d"
  by (simp_all add: blend_ok_def l1_keys_add_def l1_keys_discard_def)

lemma blend_ok_mono: "blend_ok k s C n d \<Longrightarrow> n \<le> m \<Longrightarrow> blend_ok k s C m d"
  using idx_ok_mono by (auto simp: blend_ok_def)

lemma blend_ok_window: "blend_ok k s C n d \<Longrightarrow> 0 < k"
  by (auto simp: blend_ok_def idx_ok_def bi_inv_def)

lemma blend_ok_add_key:
  assumes "blend_ok k s C n d"
  shows "blend_ok k s C n (add_token_binding key d)"
  using assms blend_ok_window [OF assms] linked_new [of k C "map_of (token_bindings d)"] linked_same [of k C "map_of (token_bindings d)"]
  by (auto simp: blend_ok_def add_token_binding_def Let_def update_conv' split: option.splits)

lemma blend_ok_remove_key:
  assumes ok: "blend_ok k s C n d" and n: "n < 2 ^ 59" and inj: "inj_on (fingerprint k) C"
  shows "blend_ok k s C n (remove_token_binding key d)"
proof (cases "map_of (token_bindings d) (chunk_hash key)")
  case None
  then show ?thesis using ok by (simp add: remove_token_binding_def)
next
  case (Some tb)
  have idx: "idx_ok k s C n (kd_blend_index d)" and lk: "linked k C (map_of (token_bindings d)) (bi_facts (kd_blend_index d))"
    and en: "blend_lookup_enabled d" using ok by (simp_all add: blend_ok_def)
  have "link_at k C (Some tb) (row (bi_facts (kd_blend_index d)) (chunk_hash key))" using lk Some by (metis linked_def)
  then have "length (tb_token_ids tb) = k \<Longrightarrow> tb_token_ids tb \<in> C" by simp
  note rem = idx_ok_remove [OF idx n inj this, of "chunk_hash key"]
  show ?thesis
    using rem idx en linked_drop [OF lk Some blend_ok_window [OF ok]] linked_same [OF lk Some]
    by (auto simp: blend_ok_def remove_token_binding_def Let_def Some update_conv' delete_conv')
qed

lemma blend_ok_create:
  assumes ok: "blend_ok k s C n d" and n: "n < 2 ^ 59" and inj: "inj_on (fingerprint k) C"
    and C: "\<And>ids. as_uint32 np (token_ids e) = Some ids \<Longrightarrow> length ids = k \<Longrightarrow> ids \<in> C"
  shows "blend_ok k s C (Suc n) (create_token_binding np h e d)"
proof (cases "as_uint32 np (token_ids e)")
  case None
  then show ?thesis using blend_ok_mono [OF ok, of "Suc n"] by (simp add: create_token_binding_def)
next
  case (Some ids)
  show ?thesis
  proof (cases "map_of (token_bindings d) h")
    case None
    then show ?thesis using blend_ok_mono [OF ok, of "Suc n"] by (simp add: create_token_binding_def Some)
  next
    case tb: (Some tb)
    let ?bi = "kd_blend_index d"
    let ?b1 = "if tb_token_ids tb \<noteq> [] \<and> tb_token_ids tb \<noteq> ids then bi_remove (tb_token_ids tb) h ?bi else ?bi"
    let ?b2 = "if token_offset e = UNKNOWN_TOKEN_OFFSET then ?b1 else bi_add ids h (token_offset e) ?b1"
    have idx: "idx_ok k s C n ?bi" and lk: "linked k C (map_of (token_bindings d)) (bi_facts ?bi)"
      and en: "blend_lookup_enabled d" using ok by (simp_all add: blend_ok_def)
    have "link_at k C (Some tb) (row (bi_facts ?bi) h)" using lk tb by (metis linked_def)
    then have "length (tb_token_ids tb) = k \<Longrightarrow> tb_token_ids tb \<in> C" by simp
    note rem = idx_ok_remove [OF idx n inj this, of h]
    have b1: "idx_ok k s C n ?b1" using rem idx by simp
    note add = idx_ok_add [OF b1 n inj C [OF Some], of h "token_offset e"]
    have "idx_ok k s C (Suc n) ?b2" using add(1) idx_ok_mono [OF b1, of "Suc n"] by simp
    moreover have "linked k C ((map_of (token_bindings d))(h \<mapsto> tb\<lparr>tb_token_ids := ids, tb_token_offset := token_offset e\<rparr>)) (bi_facts ?b2)"
      using linked_set [OF lk tb blend_ok_window [OF ok] C [OF Some], of "token_offset e"] add(2) rem(2) by (auto split: if_splits)
    moreover have "kd_blend_index (create_token_binding np h e d) = ?b2"
      using en by (simp add: create_token_binding_def Some tb Let_def)
    ultimately show ?thesis using en by (simp add: blend_ok_def create_binding_bindings Some tb update_conv')
  qed
qed

lemma blend_ok_entry:
  assumes ok: "blend_ok k s C n d" and n: "n < 2 ^ 59" and inj: "inj_on (fingerprint k) C"
    and C: "\<And>ids. as_uint32 np (token_ids e) = Some ids \<Longrightarrow> length ids = k \<Longrightarrow> ids \<in> C"
  shows "blend_ok k s C (Suc n) (apply_entry np b d e)"
proof -
  note up = blend_ok_mono [OF _ le_SucI [OF order_refl]]
  have "blend_ok k s C (Suc n) (apply_store np b e d)"
    using ok blend_ok_create [OF _ n inj C] blend_ok_add_key up by (simp add: apply_store_def Let_def)
  moreover have "blend_ok k s C (Suc n) (apply_delete b e d)"
    using ok blend_ok_remove_key [OF _ n inj] up by (simp add: apply_delete_def Let_def split: option.splits)
  moreover have "blend_ok k s C (Suc n) (apply_access b e d)"
    using ok up by (simp add: apply_access_def split: option.splits)
  ultimately show ?thesis using up [OF ok] by (simp add: apply_entry_def split: cache_event_type.splits)
qed

lemma blend_ok_consume:
  assumes ok: "blend_ok k s C n d" and n: "n + length (entries b) \<le> 2 ^ 59" and inj: "inj_on (fingerprint k) C"
    and C: "\<And>e ids. e \<in> set (entries b) \<Longrightarrow> as_uint32 np (token_ids e) = Some ids \<Longrightarrow> length ids = k \<Longrightarrow> ids \<in> C"
  shows "blend_ok k s C (n + length (entries b)) (kd_consume np b d)"
proof -
  have "blend_ok k s C (m + length es) (foldl (apply_entry np b) d' es)"
    if "blend_ok k s C m d'" "m + length es \<le> 2 ^ 59" "set es \<subseteq> set (entries b)" for m d' es
    using that
  proof (induction es arbitrary: m d')
    case (Cons e es)
    have "blend_ok k s C (Suc m) (apply_entry np b d' e)"
      by (rule blend_ok_entry [OF Cons.prems(1) _ inj C]) (use Cons.prems in auto)
    then show ?case using Cons.IH [of "Suc m"] Cons.prems by simp
  qed simp
  then show ?thesis using ok n by (simp add: kd_consume_def Let_def split: option.splits)
qed

lemma blend_ok_fence:
  assumes ok: "blend_ok k s C n d" and n: "n < 2 ^ 59" and inj: "inj_on (fingerprint k) C"
  shows "blend_ok k s C n (kd_fence i d)"
proof -
  have step: "blend_ok k s C n (fst (drop_key_l1 i dn key))" if "blend_ok k s C n (fst dn)" for dn key
    using that blend_ok_remove_key [OF _ n inj]
    by (cases dn) (simp add: drop_key_l1_eq keep_placements_def split: option.splits)
  have "blend_ok k s C n (fst (foldl (drop_key_l1 i) (d, 0) ks))" for ks
    by (rule foldl_inv [where P = "\<lambda>dn. blend_ok k s C n (fst dn)"]) (use ok step in auto)
  then show ?thesis using ok by (simp add: kd_fence_def drop_l1_placements_def case_prod_beta split: option.splits)
qed

section \<open>Runs and restarts\<close>

primrec delivered_entries :: "delivery \<Rightarrow> event_entry list" where
  "delivered_entries (Consumed b) = entries b"
| "delivered_entries (Fenced i) = []"

definition stored_contents :: "numpy_ops \<Rightarrow> nat \<Rightarrow> delivery list \<Rightarrow> uint32 list set" where
  "stored_contents np k lg =
     {ids. length ids = k \<and> (\<exists>x\<in>set lg. \<exists>e\<in>set (delivered_entries x). as_uint32 np (token_ids e) = Some ids)}"

lemma config_blend_ok:
  assumes "kd_from_config (Some (cs, ps)) = Inr d0"
  shows "blend_ok (nat cs) (nat ps) C 0 d0"
proof -
  obtain bi where bi: "new_blend_index cs ps = Inr bi" and d0: "d0 = kd_init\<lparr>kd_blend_index := bi, blend_lookup_enabled := True\<rparr>"
    using assms by (auto simp: kd_from_config_def enable_blend_lookup_def split: sum.splits)
  show ?thesis using new_index_ok [OF bi]
    by (simp add: d0 blend_ok_def idx_ok_def linked_def kd_init_def row_def bi_facts_def contents_def)
qed

lemma blend_ok_replay:
  assumes "blend_ok k s C 0 d0" and "length (concat (map delivered_entries lg)) < 2 ^ 59"
    and "inj_on (fingerprint k) C" and "stored_contents np k lg \<subseteq> C"
  shows "blend_ok k s C (length (concat (map delivered_entries lg))) (foldl (deliver [kd_consumer np]) d0 lg)"
  using assms(2,4)
proof (induction lg rule: rev_induct)
  case Nil
  then show ?case using assms(1) by simp
next
  case (snoc x lg)
  have IH: "blend_ok k s C (length (concat (map delivered_entries lg))) (foldl (deliver [kd_consumer np]) d0 lg)"
    using snoc by (auto simp: stored_contents_def)
  show ?case
  proof (cases x)
    case (Consumed b)
    have "ids \<in> C" if "e \<in> set (entries b)" "as_uint32 np (token_ids e) = Some ids" "length ids = k" for e ids
      using that snoc.prems(2) Consumed by (auto simp: stored_contents_def)
    from blend_ok_consume [OF IH _ assms(3) this] show ?thesis
      using snoc.prems(1) by (simp add: Consumed)
  next
    case (Fenced i)
    then show ?thesis using blend_ok_fence [OF IH _ assms(3), of i] snoc.prems(1) by simp
  qed
qed

text \<open>A restore fills the bindings one by one; before that they are empty, so that nothing is taken out of the index.\<close>

lemma blend_ok_restore_binding:
  assumes ok: "blend_ok k s C n d" and n: "n < 2 ^ 59" and inj: "inj_on (fingerprint k) C"
    and tb: "map_of (token_bindings d) h = Some tb" "tb_token_ids tb = []"
    and C: "length (from_le_bytes np raw) = k \<Longrightarrow> from_le_bytes np raw \<in> C"
  shows "blend_ok k s C (Suc n) (restore_binding np d (h, off, raw))"
proof -
  have idx: "idx_ok k s C n (kd_blend_index d)" and lk: "linked k C (map_of (token_bindings d)) (bi_facts (kd_blend_index d))"
    and en: "blend_lookup_enabled d" using ok by (simp_all add: blend_ok_def)
  show ?thesis
    using linked_set [OF lk tb(1) blend_ok_window [OF ok] C, of off] idx_ok_add [OF idx n inj C, of h off]
      idx_ok_mono [OF idx, of "Suc n"] en tb
    by (auto simp: blend_ok_def restore_binding_def Let_def update_conv' split: if_splits)
qed

lemma blend_ok_restore_bindings:
  assumes "blend_ok k s C n d" and "n + length bs \<le> 2 ^ 59" and inj: "inj_on (fingerprint k) C"
    and "distinct (map fst bs)" and "\<forall>h\<in>fst ` set bs. \<exists>tb. map_of (token_bindings d) h = Some tb \<and> tb_token_ids tb = []"
    and "\<forall>(h, off, raw)\<in>set bs. length (from_le_bytes np raw) = k \<longrightarrow> from_le_bytes np raw \<in> C"
  shows "blend_ok k s C (n + length bs) (foldl (restore_binding np) d bs)"
  using assms(1,2,4-6)
proof (induction bs arbitrary: n d)
  case (Cons x bs)
  obtain h off raw where x: "x = (h, off, raw)" by (cases x)
  obtain tb where tb: "map_of (token_bindings d) h = Some tb" "tb_token_ids tb = []" using Cons.prems(4) by (auto simp: x)
  have "blend_ok k s C (Suc n) (restore_binding np d x)"
    unfolding x by (rule blend_ok_restore_binding [OF Cons.prems(1) _ inj tb]) (use Cons.prems in \<open>auto simp: x\<close>)
  moreover have "map_of (token_bindings (restore_binding np d x)) g = map_of (token_bindings d) g" if "g \<in> fst ` set bs" for g
    using that Cons.prems(3) tb by (auto simp: x restore_binding_bindings)
  ultimately show ?case using Cons.IH [of "Suc n"] Cons.prems by (auto simp: x)
qed simp

lemma restore_l1_frame:
  "restore_l1 table xs d = Inr d' \<Longrightarrow> kd_blend_index d' = kd_blend_index d \<and> token_bindings d' = token_bindings d \<and>
     blend_lookup_enabled d' = blend_lookup_enabled d"
  by (induction table xs d rule: restore_l1.induct) (simp_all split: if_splits)

lemma rebuilt_blend:
  assumes "blend_ok k s C n d0"
  shows "blend_ok k s C n (rebuilt d0 ds)"
  unfolding rebuilt_def by (rule foldl_inv) (use assms blend_ok_add_key in auto)

lemma rebuilt_no_tokens:
  assumes "kd_empty d0" and "map_of (token_bindings (rebuilt d0 ds)) h = Some tb"
  shows "tb_token_ids tb = []"
proof -
  have "\<forall>h tb. map_of (token_bindings (rebuilt d0 ds)) h = Some tb \<longrightarrow> tb_token_ids tb = []"
    unfolding rebuilt_def
    by (rule foldl_inv) (use assms(1) in \<open>auto simp: kd_empty_def add_token_binding_def Let_def split: option.splits if_splits\<close>)
  with assms(2) show ?thesis by blast
qed

lemma blend_ok_restore:
  assumes inv: "kd_inv d" and np: "np_ok np d" and d0: "blend_ok k s C 0 d0" "kd_empty d0"
    and inj: "inj_on (fingerprint k) C" and ok: "blend_ok k s C n d" and n: "length (token_bindings d) \<le> 2 ^ 59"
    and res: "kd_restore np (kd_capture np d) d0 = Inr d'"
  shows "blend_ok k s C (length (token_bindings d)) d'"
proof -
  let ?ds = "directory d" and ?tbs = "token_bindings d"
  let ?bs = "map (\<lambda>(h, tb). (h, tb_token_offset tb, to_le_bytes np (tb_token_ids tb))) ?tbs"
  have wf: "dict_wf ?ds" "dict_wf ?tbs" and dok: "dir_ok ?ds" and bok: "bind_ok (dict_dom ?ds) ?tbs"
    using inv by (auto simp: kd_inv_def dir_ok_def bind_ok_def)
  have tbs: "(h, tb) \<in> set ?tbs \<longleftrightarrow> map_of ?tbs h = Some tb" for h tb using wf(2) by (simp add: dict_wf_map_of_eq)
  have "restore_keys (ks_keys (kd_capture np d)) (d0, []) = Inr (rebuilt d0 ?ds, map fst ?ds)"
    using restore_keys_capture [of ?ds d0 "[]"] wf(1) dok d0(2)
    by (auto simp: kd_capture_def rebuilt_def kd_empty_def dir_ok_def map_of_is_SomeI dict_wf_def)
  then have "restore_l1 (map fst ?ds) (ks_l1 (kd_capture np d)) (foldl (restore_binding np) (rebuilt d0 ?ds) ?bs) = Inr d'"
    using res d0(2) by (simp add: kd_restore_def kd_empty_def kd_capture_def)
  note frame = restore_l1_frame [OF this]
  have "blend_ok k s C (0 + length ?bs) (foldl (restore_binding np) (rebuilt d0 ?ds) ?bs)"
  proof (rule blend_ok_restore_bindings [OF rebuilt_blend [OF d0(1)] _ inj])
    show "distinct (map fst ?bs)" using wf(2) by (simp add: dict_wf_def case_prod_beta comp_def)
    have "\<exists>tb. map_of (token_bindings (rebuilt d0 ?ds)) h = Some tb" if h: "h \<in> fst ` set ?bs" for h
    proof -
      obtain tb where "(h, tb) \<in> set ?tbs" using h by auto
      then have "map_of ?tbs h = Some tb" by (simp only: tbs)
      moreover have "bind_ok (dict_dom ?ds) (token_bindings (rebuilt d0 ?ds))" using rebuilt_fields [OF d0(2)] by simp
      ultimately show ?thesis using bind_ok_keys [OF bok, of h] bind_ok_keys [of "dict_dom ?ds" "token_bindings (rebuilt d0 ?ds)" h]
        by (auto split: if_splits)
    qed
    then show "\<forall>h\<in>fst ` set ?bs. \<exists>tb. map_of (token_bindings (rebuilt d0 ?ds)) h = Some tb \<and> tb_token_ids tb = []"
      using rebuilt_no_tokens [OF d0(2)] by blast
    show "\<forall>(h, off, raw)\<in>set ?bs. length (from_le_bytes np raw) = k \<longrightarrow> from_le_bytes np raw \<in> C"
    proof (intro ballI)
      fix x assume "x \<in> set ?bs"
      then obtain h tb where x: "x = (h, tb_token_offset tb, to_le_bytes np (tb_token_ids tb))" and "(h, tb) \<in> set ?tbs" by auto
      then have tb: "map_of ?tbs h = Some tb" by (simp only: tbs)
      have "link_at k C (Some tb) (row (bi_facts (kd_blend_index d)) h)" using ok tb by (metis blend_ok_def linked_def)
      moreover have "from_le_bytes np (to_le_bytes np (tb_token_ids tb)) = tb_token_ids tb" using np tb by (simp add: np_ok_def)
      ultimately show "case x of (h, off, raw) \<Rightarrow> length (from_le_bytes np raw) = k \<longrightarrow> from_le_bytes np raw \<in> C" by (simp add: x)
    qed
  qed (use n in simp)
  then show ?thesis using frame by (simp add: blend_ok_def)
qed

text \<open>The number of bindings, which bounds the work of a restore.\<close>

lemma bindings_count:
  "length (token_bindings (apply_entry np b d e)) \<le> Suc (length (token_bindings d))"
  "length (token_bindings (remove_token_binding key d)) \<le> length (token_bindings d)"
proof -
  have create: "length (token_bindings (create_token_binding np h e d)) = length (token_bindings d)" for h d
    by (auto simp: create_binding_bindings dict_set_length dict_dom_iff split: option.splits)
  have add: "length (token_bindings (add_token_binding key (d\<lparr>directory := ds\<rparr>))) \<le> Suc (length (token_bindings d))" for key d ds
    by (auto simp: add_token_binding_def Let_def dict_set_length dict_dom_iff split: option.splits)
  have remove: "length (token_bindings (remove_token_binding key d)) \<le> length (token_bindings d)" for key d
    by (auto simp: remove_binding_bindings dict_set_length dict_del_length dict_dom_iff split: option.splits)
  show "length (token_bindings (remove_token_binding key d)) \<le> length (token_bindings d)" by (rule remove)
  show "length (token_bindings (apply_entry np b d e)) \<le> Suc (length (token_bindings d))"
    using create add le_SucI [OF remove, of "ee_key e" "d\<lparr>directory := dict_del (ee_key e) (directory d)\<rparr>"]
    by (simp add: apply_entry_def apply_store_def apply_delete_def Let_def split: cache_event_type.splits option.splits)
qed

lemma count_replay:
  "length (token_bindings (foldl (deliver [kd_consumer np]) d lg)) \<le> length (token_bindings d) + length (concat (map delivered_entries lg))"
proof (induction lg rule: rev_induct)
  case (snoc x lg)
  let ?d = "foldl (deliver [kd_consumer np]) d lg"
  have "length (token_bindings (deliver [kd_consumer np] ?d x)) \<le> length (token_bindings ?d) + length (delivered_entries x)"
  proof (cases x)
    case (Consumed b)
    have "length (token_bindings (foldl (apply_entry np b) d' es)) \<le> length (token_bindings d') + length es" for d' es
    proof (induction es arbitrary: d')
      case (Cons e es)
      show ?case using Cons.IH [of "apply_entry np b d' e"] bindings_count(1) [of np b d' e] by simp
    qed simp
    from this [of "?d\<lparr>l1_keys_by_instance := l1\<rparr>" for l1] this [of ?d] show ?thesis
      by (simp add: Consumed kd_consume_def Let_def split: option.splits)
  next
    case (Fenced i)
    have step: "length (token_bindings (fst (drop_key_l1 i dn key))) \<le> length (token_bindings (fst dn))" for dn key
      using bindings_count(2) [of key "(fst dn)\<lparr>directory := dict_del key (directory (fst dn))\<rparr>"]
      by (cases dn) (simp add: drop_key_l1_eq keep_placements_def split: option.splits)
    have "length (token_bindings (fst (foldl (drop_key_l1 i) (?d, 0) ks))) \<le> length (token_bindings ?d)" for ks
      by (rule foldl_inv [where P = "\<lambda>dn. length (token_bindings (fst dn)) \<le> length (token_bindings ?d)"])
        (simp, rule order_trans [OF step])
    then show ?thesis by (simp add: Fenced kd_fence_def drop_l1_placements_def case_prod_beta split: option.splits)
  qed
  with snoc show ?case by simp
qed simp

section \<open>Fragment lookups\<close>

text \<open>
  What a fragment lookup of the directory \<open>d\<close> has to return: chunks that are stored (some key of the
  chunk has a placement) and whose token ids are the window of the query at the matched position;
  each chunk once, at increasing positions; and for every stored chunk with a known offset and
  every probed position where its token ids occur, a chunk with these token ids at that position or
  before.
\<close>

definition known_offset :: "key_directory \<Rightarrow> pybytes \<Rightarrow> bool" where
  "known_offset d h \<longleftrightarrow> (case map_of (token_bindings d) h of None \<Rightarrow> False | Some tb \<Rightarrow> tb_token_offset tb \<noteq> UNKNOWN_TOKEN_OFFSET)"

definition fragments_ok :: "nat \<Rightarrow> nat \<Rightarrow> key_directory \<Rightarrow> uint64 list \<Rightarrow> blend_match list \<Rightarrow> bool" where
  "fragments_ok k s d query ms \<longleftrightarrow>
     (\<forall>m\<in>set ms. (\<exists>key. chunk_hash key = bm_chunk_hash m \<and> lookup [key] d \<noteq> [[]]) \<and>
        map word_of_int (get_token_ids [bm_chunk_hash m] d ! 0) = take k (drop (cur_st m) query) \<and> cur_st m + k \<le> length query) \<and>
     distinct (map bm_chunk_hash ms) \<and> sorted_wrt (<) (map cur_st ms) \<and>
     (\<forall>h st. known_offset d h \<and> st mod s = 0 \<and> st + k \<le> length query \<and> map word_of_int (get_token_ids [h] d ! 0) = take k (drop st query) \<longrightarrow>
        (\<exists>m\<in>set ms. cur_st m \<le> st \<and> get_token_ids [bm_chunk_hash m] d = get_token_ids [h] d))"

lemma token_ids_word: "map_of (token_bindings d) h = Some tb \<Longrightarrow> map word_of_int (get_token_ids [h] d ! 0) = (map ucast (tb_token_ids tb) :: uint64 list)"
  by (simp add: get_token_ids_def word_of_int_uint comp_def)

lemma blend_ok_fragments:
  assumes inv: "kd_inv d" and ok: "blend_ok k s C n d"
  shows "fragments_ok k s d query (kd_blend_match query d)"
proof -
  let ?bi = "kd_blend_index d" and ?M = "map_of (token_bindings d)" and ?ms = "kd_blend_match query d"
  have bi: "bi_inv ?bi" "bi_chunk_size ?bi = k" "bi_probe_stride ?bi = s" and lk: "linked k C ?M (bi_facts ?bi)"
    and ms: "?ms = bi_match query ?bi" using ok by (simp_all add: blend_ok_def idx_ok_def kd_blend_match_def)
  have fact: "\<exists>tb. ?M h = Some tb \<and> tb_token_ids tb = c" if "(c, h, off) \<in> bi_facts ?bi" for c h off
  proof -
    have "(c, off) \<in> row (bi_facts ?bi) h" using that by (simp add: row_def)
    then show ?thesis using lk by (cases "?M h") (auto simp: linked_def dest!: spec [of _ h])
  qed
  note match = bi_match_facts [OF bi(1), where query = query, unfolded bi(2,3), folded ms]
  have live: "\<exists>key. chunk_hash key = h \<and> lookup [key] d \<noteq> [[]]" if h: "?M h = Some tb" for h tb
  proof -
    have bok: "bind_ok (dict_dom (directory d)) (token_bindings d)" and dok: "dir_ok (directory d)" using inv by (simp_all add: kd_inv_def)
    obtain key where key: "key \<in> dict_dom (directory d)" "chunk_hash key = h"
      using bind_ok_keys [OF bok, of h] h by (auto split: if_splits)
    then obtain r where "map_of (directory d) key = Some r" "placements r \<noteq> []"
      using dok by (auto simp: dict_dom_iff dir_ok_def rec_ok_def)
    then have "lookup [key] d \<noteq> [[]]" by (simp add: lookup_def) (metis sort_key_const length_0_conv length_sort)
    with key(2) show ?thesis by blast
  qed
  show ?thesis
    unfolding fragments_ok_def
  proof (intro conjI ballI allI impI match(2,3))
    fix m assume m: "m \<in> set ?ms"
    obtain c where c: "(c, bm_chunk_hash m, old_st m) \<in> bi_facts ?bi" "map ucast c = take k (drop (cur_st m) query)"
      and st: "cur_st m + k \<le> length query" using match(1) [OF m] by blast
    obtain tb where tb: "?M (bm_chunk_hash m) = Some tb" "tb_token_ids tb = c" using fact [OF c(1)] by blast
    show "\<exists>key. chunk_hash key = bm_chunk_hash m \<and> lookup [key] d \<noteq> [[]]" by (rule live [OF tb(1)])
    show "map word_of_int (get_token_ids [bm_chunk_hash m] d ! 0) = take k (drop (cur_st m) query)"
      unfolding token_ids_word [OF tb(1)] tb(2) by (rule c(2))
    show "cur_st m + k \<le> length query" by (rule st)
  next
    fix h st
    assume b: "known_offset d h \<and> st mod s = 0 \<and> st + k \<le> length query \<and>
      map word_of_int (get_token_ids [h] d ! 0) = take k (drop st query)"
    then obtain tb where a: "?M h = Some tb" "tb_token_offset tb \<noteq> UNKNOWN_TOKEN_OFFSET" "st mod s = 0" "st + k \<le> length query"
      "map word_of_int (get_token_ids [h] d ! 0) = take k (drop st query)" by (auto simp: known_offset_def split: option.splits)
    then have w: "map ucast (tb_token_ids tb) = take k (drop st query)" using token_ids_word [of d h tb] by simp
    have "length (map ucast (tb_token_ids tb) :: uint64 list) = k" unfolding w using a(4) by simp
    then have "length (tb_token_ids tb) = k" by simp
    moreover have "link_at k C (Some tb) (row (bi_facts ?bi) h)" using lk a(1) by (metis linked_def)
    ultimately have "(tb_token_ids tb, h, tb_token_offset tb) \<in> bi_facts ?bi" using a by (simp add: row_def)
    from match(4) [OF this a(3,4) w] obtain m off where m: "m \<in> set ?ms" "cur_st m \<le> st"
      "(tb_token_ids tb, bm_chunk_hash m, off) \<in> bi_facts ?bi" by blast
    then obtain tb' where "?M (bm_chunk_hash m) = Some tb'" "tb_token_ids tb' = tb_token_ids tb" using fact by blast
    with a m show "\<exists>m\<in>set ?ms. cur_st m \<le> st \<and> get_token_ids [bm_chunk_hash m] d = get_token_ids [h] d"
      by (auto simp: get_token_ids_def intro!: bexI [of _ m])
  qed
qed

lemma same_bindings_fragments:
  assumes "directory d' = directory d" and "\<And>h. map_option (\<lambda>tb. (tb_token_ids tb, tb_token_offset tb)) (map_of (token_bindings d') h) =
      map_option (\<lambda>tb. (tb_token_ids tb, tb_token_offset tb)) (map_of (token_bindings d) h)"
  shows "fragments_ok k s d' query ms = fragments_ok k s d query ms"
proof -
  have ids: "get_token_ids [h] d' = get_token_ids [h] d" for h
    using assms(2) [of h] by (cases "map_of (token_bindings d') h"; cases "map_of (token_bindings d) h") (simp_all add: get_token_ids_def)
  have off: "known_offset d' h = known_offset d h" for h
    using assms(2) [of h] by (cases "map_of (token_bindings d') h"; cases "map_of (token_bindings d) h") (simp_all add: known_offset_def)
  have "lookup keys d' = lookup keys d" for keys by (simp add: lookup_def assms(1))
  then show ?thesis by (simp only: fragments_ok_def ids off)
qed

section \<open>Properties\<close>

text \<open>
  C12. Fragment lookup through the directory is exact when fingerprints do not collide. Blend lookup
  is enabled, any well-formed calls of the gate were made (stores that replace a content, stores
  without tokens or offset, deletes, fences) with fewer than \<open>2 ^ 59\<close> entries in all, and no two
  different contents of the window's length that they stored have the same 64-bit fingerprint.
  Then a match names only chunks that a lookup finds and whose token ids are the matched window of
  the query; no chunk is matched twice and the positions increase; and a window at a probed
  position, a multiple of the stride, that is the content of a stored chunk with a known offset
  is answered, there or at an earlier position, with a chunk of that content. The same holds for a
  process that restored a checkpoint of that directory and derived the index again. With two
  colliding contents the first part fails, see \<open>wrong_content_matched\<close>.
\<close>

theorem directory_fragments:
  fixes query :: "uint64 list"
  assumes cfg: "kd_from_config (Some (cs, ps)) = Inr d0" and np: "numpy_spec np" and calls: "\<forall>c\<in>set calls. call_ok c"
    and size: "length (concat (map delivered_entries (gate_log calls))) < 2 ^ 59"
    and inj: "inj_on (fingerprint (nat cs)) (stored_contents np (nat cs) (gate_log calls))"
  defines "d \<equiv> kd_run np d0 calls"
  shows "fragments_ok (nat cs) (nat ps) d query (kd_blend_match query d) \<and>
    (\<exists>d'. kd_restore np (kd_capture np d) d0 = Inr d' \<and> fragments_ok (nat cs) (nat ps) d query (kd_blend_match query d'))"
proof -
  let ?C = "stored_contents np (nat cs) (gate_log calls)"
  note fresh = kd_from_config_empty [OF cfg]
  have inv: "kd_inv d" "np_ok np d" unfolding d_def using kd_run_inv(1) [OF fresh calls] kd_run_np [OF np fresh] .
  have run: "d = foldl (deliver [kd_consumer np]) d0 (gate_log calls)" by (simp add: d_def kd_run_def gate_run_replay)
  have ok: "blend_ok (nat cs) (nat ps) ?C (length (concat (map delivered_entries (gate_log calls)))) d"
    unfolding run by (rule blend_ok_replay [OF config_blend_ok [OF cfg] size inj order_refl])
  have len: "length (token_bindings d) \<le> 2 ^ 59"
    using count_replay [of np d0 "gate_log calls"] size fresh unfolding run by (simp add: kd_empty_def)
  obtain d' where d': "kd_restore np (kd_capture np d) d0 = Inr d'" "kd_inv d'" "directory d' = directory d"
      "l1_keys_by_instance d' = map (\<lambda>(i, ks). (i, filter (\<lambda>k. k \<in> dict_dom (directory d)) ks)) (l1_keys_by_instance d)"
    and tb: "\<And>h. map_option (\<lambda>tb. (tb_token_ids tb, tb_token_offset tb, set (tb_keys tb))) (map_of (token_bindings d') h) =
      map_option (\<lambda>tb. (tb_token_ids tb, tb_token_offset tb, set (tb_keys tb))) (map_of (token_bindings d) h)"
    by (rule kd_restore_capture [OF inv fresh]) (rule that)
  have same: "map_option (\<lambda>tb. (tb_token_ids tb, tb_token_offset tb)) (map_of (token_bindings d') h) =
      map_option (\<lambda>tb. (tb_token_ids tb, tb_token_offset tb)) (map_of (token_bindings d) h)" for h
    using tb [of h] by (cases "map_of (token_bindings d') h"; cases "map_of (token_bindings d) h") simp_all
  have "fragments_ok (nat cs) (nat ps) d' query (kd_blend_match query d')"
    by (rule blend_ok_fragments [OF d'(2) blend_ok_restore [OF inv config_blend_ok [OF cfg] fresh inj ok len d'(1)]])
  then show ?thesis
    using blend_ok_fragments [OF inv(1) ok] d'(1) same_bindings_fragments [OF d'(3) same] by blast
qed

definition demo_fragment_calls :: "gate_call list" where
  "demo_fragment_calls = [Ingest (demo_batch ''a'' 1 1 STORE L2 [demo_key])]"

theorem directory_fragments_witness:
  "\<exists>d0 m. kd_from_config (Some (2, 1)) = Inr d0 \<and> m \<in> set (kd_blend_match [5, 7, 8] (kd_run list_np d0 demo_fragment_calls)) \<and> cur_st m \<le> 1"
proof -
  obtain d0 where d0: "kd_from_config (Some (2, 1)) = Inr d0"
    by (simp add: kd_from_config_def enable_blend_lookup_def new_blend_index_def)
  have log: "gate_log demo_fragment_calls = [Consumed (demo_batch ''a'' 1 1 STORE L2 [demo_key])]"
    by (simp add: gate_eval demo_fragment_calls_def)
  have ok: "\<forall>c\<in>set demo_fragment_calls. call_ok c" by (simp add: demo_fragment_calls_def demo_batch_ok demo_key_ok)
  have "stored_contents list_np (nat 2) (gate_log demo_fragment_calls) = {[7, 8]}"
    by (auto simp: stored_contents_def log list_np_def)
  then have inj: "inj_on (fingerprint (nat 2)) (stored_contents list_np (nat 2) (gate_log demo_fragment_calls))" by simp
  have size: "length (concat (map delivered_entries (gate_log demo_fragment_calls))) < 2 ^ 59" by (simp add: log)
  let ?d = "kd_run list_np d0 demo_fragment_calls"
  note frag = directory_fragments [OF d0 list_np_spec ok size inj, of "[5, 7, 8]", THEN conjunct1]
  have binding: "map_of (token_bindings ?d) (chunk_hash demo_key) = Some \<lparr>tb_token_ids = [7, 8], tb_token_offset = 0, tb_keys = [demo_key]\<rparr>"
    using kd_from_config_empty [OF d0]
    by (simp add: kd_empty_def kd_run_def gate_run_replay log kd_consume_def Let_def apply_entry_def apply_store_def
        add_token_binding_def create_binding_bindings list_np_def)
  have "known_offset ?d (chunk_hash demo_key)" "get_token_ids [chunk_hash demo_key] ?d = [[7, 8]]"
    by (simp_all add: known_offset_def get_token_ids_def binding UNKNOWN_TOKEN_OFFSET_def)
  then have "\<exists>m\<in>set (kd_blend_match [5, 7, 8] ?d). cur_st m \<le> 1"
    using frag unfolding fragments_ok_def by (auto dest!: spec [of _ "chunk_hash demo_key"] spec [of _ "1::nat"])
  with d0 show ?thesis by blast
qed

end
