(* ===== verification/Bitmap.thy ===== *)
theory Bitmap
  imports Prelude "HOL-Library.Word"
begin

text \<open>
  The native bit array in which the storage controllers exchange per-key answers
  (\<open>csrc/lmcache_native/bitmap.cpp\<close>, \<open>bitmap.h\<close> and the \<open>gather\<close> binding of
  \<open>pybind.cpp\<close>), byte by byte: \<open>bm_size\<close> is \<open>size_\<close> and \<open>bm_data\<close> is the vector
  \<open>data_\<close> of bytes. A position at or beyond the size is ignored by \<open>set\<close> and \<open>clear\<close> and
  reads as False.

  The specification of a bitmap is the set \<open>bits\<close> of its set positions. Under the
  representation invariant \<open>bm_ok\<close> (the vector has the length the constructor gives it and no
  bit beyond the size is set, which is what the comment in \<open>highest_set_bit\<close> relies on)
  every operation is the set operation of its name.
\<close>

unbundle bit_operations_syntax

section \<open>The bit array\<close>

type_synonym uint8 = "8 word"

record bitmap =
  bm_size :: nat
  bm_data :: "uint8 list"

definition num_bytes :: "nat \<Rightarrow> nat" where
  "num_bytes n = (if n = 0 then 0 else (n - 1) div 8 + 1)"

definition new_bitmap :: "nat \<Rightarrow> bitmap" where
  "new_bitmap n = \<lparr>bm_size = n, bm_data = replicate (num_bytes n) 0\<rparr>"

definition low_mask :: "nat \<Rightarrow> uint8" where
  "low_mask k = push_bit k 1 - 1"

definition prefix_bitmap :: "nat \<Rightarrow> nat \<Rightarrow> bitmap" where
  "prefix_bitmap n prefix_bits =
     (let b = new_bitmap n in
      if prefix_bits = 0 \<or> n = 0 then b
      else
        let p = (if prefix_bits > n then n else prefix_bits);
            full_bytes = p div 8;
            data = foldl (\<lambda>d i. d[i := 0xFF]) (bm_data b) [0..<full_bytes];
            remaining = p mod 8
        in b\<lparr>bm_data := (if remaining > 0 then data[full_bytes := low_mask remaining]
                          else data)\<rparr>)"

definition bm_set :: "nat \<Rightarrow> bitmap \<Rightarrow> bitmap" where
  "bm_set i b =
     (if i \<ge> bm_size b then b
      else b\<lparr>bm_data := (bm_data b)[i div 8 := bm_data b ! (i div 8) OR push_bit (i mod 8) 1]\<rparr>)"

definition batched_set :: "nat list \<Rightarrow> bitmap \<Rightarrow> bitmap" where
  "batched_set indices b = foldl (\<lambda>b i. bm_set i b) b indices"

definition set_range :: "nat \<Rightarrow> nat \<Rightarrow> bitmap \<Rightarrow> bitmap" where
  "set_range start end0 b =
     (let stop = (if end0 > bm_size b then bm_size b else end0) in
      if start \<ge> stop then b
      else
        let first_byte = start div 8;
            last_byte = (stop - 1) div 8;
            head_low = start mod 8;
            d = bm_data b
        in if first_byte = last_byte then
             b\<lparr>bm_data := d[first_byte := d ! first_byte OR
                               push_bit head_low (low_mask (stop - start))]\<rparr>
           else
             let d1 = d[first_byte := d ! first_byte OR push_bit head_low 0xFF];
                 d2 = foldl (\<lambda>d i. d[i := 0xFF]) d1 [first_byte + 1..<last_byte];
                 tail_width = stop - last_byte * 8
             in b\<lparr>bm_data := d2[last_byte := d2 ! last_byte OR low_mask tail_width]\<rparr>)"

definition bm_clear :: "nat \<Rightarrow> bitmap \<Rightarrow> bitmap" where
  "bm_clear i b =
     (if i \<ge> bm_size b then b
      else b\<lparr>bm_data := (bm_data b)[i div 8 :=
                           bm_data b ! (i div 8) AND NOT (push_bit (i mod 8) 1)]\<rparr>)"

definition bm_test :: "bitmap \<Rightarrow> nat \<Rightarrow> bool" where
  "bm_test b i =
     (if i \<ge> bm_size b then False
      else drop_bit (i mod 8) (bm_data b ! (i div 8)) AND 1 \<noteq> 0)"

definition builtin_popcount :: "uint8 \<Rightarrow> nat" where
  "builtin_popcount w = length (filter (bit w) [0..<8])"

definition builtin_ctz :: "uint8 \<Rightarrow> nat" where
  "builtin_ctz w = length (takeWhile (\<lambda>i. \<not> bit w i) [0..<8])"

definition builtin_msb :: "uint8 \<Rightarrow> nat" where
  "builtin_msb w = 7 - length (takeWhile (\<lambda>i. \<not> bit w (7 - i)) [0..<8])"

definition popcount :: "bitmap \<Rightarrow> nat" where
  "popcount b =
     (if bm_data b = [] then 0
      else
        let full = bm_size b div 8;
            ones = sum_list (map (\<lambda>i. builtin_popcount (bm_data b ! i)) [0..<full]);
            remaining = bm_size b mod 8
        in if remaining > 0
           then ones + builtin_popcount (last (bm_data b) AND low_mask remaining)
           else ones)"

fun clz_bytes :: "uint8 list \<Rightarrow> nat \<Rightarrow> nat + nat" where
  "clz_bytes [] acc = Inr acc"
| "clz_bytes (w # ws) acc =
     (if w = 0 then clz_bytes ws (acc + 8) else Inl (acc + builtin_ctz w))"

definition clz :: "bitmap \<Rightarrow> nat" where
  "clz b =
     (if bm_size b = 0 then 0
      else case clz_bytes (take (bm_size b div 8) (bm_data b)) 0 of
        Inl n \<Rightarrow> n
      | Inr n \<Rightarrow>
          let remaining = bm_size b mod 8 in
          if remaining > 0 then
            let last_byte = last (bm_data b) AND low_mask remaining in
            if last_byte = 0 then n + remaining else n + builtin_ctz last_byte
          else n)"

definition bm_not :: "bitmap \<Rightarrow> bitmap" where
  "bm_not b =
     (let d = map (\<lambda>w. NOT w) (bm_data b);
          remaining = bm_size b mod 8
      in (new_bitmap (bm_size b))\<lparr>bm_data :=
           (if remaining > 0 then d[length d - 1 := last d AND low_mask remaining] else d)\<rparr>)"

definition clo :: "bitmap \<Rightarrow> nat" where
  "clo b = clz (bm_not b)"

fun scan_down :: "uint8 list \<Rightarrow> nat \<Rightarrow> int" where
  "scan_down d 0 = -1"
| "scan_down d (Suc byte) =
     (if d ! byte \<noteq> 0 then int (byte * 8 + builtin_msb (d ! byte)) else scan_down d byte)"

definition highest_set_bit :: "bitmap \<Rightarrow> int" where
  "highest_set_bit b = scan_down (bm_data b) (length (bm_data b))"

definition bm_and :: "bitmap \<Rightarrow> bitmap \<Rightarrow> bitmap" where
  "bm_and a b =
     (let n = (if bm_size a \<le> bm_size b then bm_size a else bm_size b)
      in (new_bitmap n)\<lparr>bm_data :=
           map (\<lambda>i. bm_data a ! i AND bm_data b ! i) [0..<num_bytes n]\<rparr>)"

definition bm_or :: "bitmap \<Rightarrow> bitmap \<Rightarrow> bitmap" where
  "bm_or a b =
     (let n = (if bm_size a \<le> bm_size b then bm_size a else bm_size b)
      in (new_bitmap n)\<lparr>bm_data :=
           map (\<lambda>i. bm_data a ! i OR bm_data b ! i) [0..<num_bytes n]\<rparr>)"

lemma clear_lowest_less:
  fixes w :: uint8
  assumes "w \<noteq> 0"
  shows "unat (w AND (w - 1)) < unat w"
proof -
  have "w AND (w - 1) \<le> w - 1" by (rule word_and_le1)
  also have "w - 1 < w" using assms by (simp add: word_less_nat_alt unat_minus_one unat_gt_0)
  finally show ?thesis by (simp add: word_less_nat_alt)
qed

function byte_indices :: "uint8 \<Rightarrow> nat list" where
  "byte_indices w = (if w = 0 then [] else builtin_ctz w # byte_indices (w AND (w - 1)))"
  by pat_completeness auto
termination
  by (relation "measure unat") (auto simp: clear_lowest_less)

declare byte_indices.simps [simp del]

definition get_indices :: "bitmap \<Rightarrow> nat list" where
  "get_indices b =
     concat (map (\<lambda>i. filter (\<lambda>j. j < bm_size b)
                        (map (\<lambda>j. i * 8 + j) (byte_indices (bm_data b ! i))))
               [0..<length (bm_data b)])"

definition gather :: "bitmap \<Rightarrow> 'a list \<Rightarrow> 'a list" where
  "gather b items = map (\<lambda>i. items ! i) (filter (\<lambda>i. i < length items) (get_indices b))"


section \<open>Bits of a byte vector\<close>

definition rawbit :: "uint8 list \<Rightarrow> nat \<Rightarrow> bool" where
  "rawbit d i \<longleftrightarrow> i div 8 < length d \<and> bit (d ! (i div 8)) (i mod 8)"

definition bm_ok :: "bitmap \<Rightarrow> bool" where
  "bm_ok b \<longleftrightarrow> length (bm_data b) = num_bytes (bm_size b) \<and>
             (\<forall>i. rawbit (bm_data b) i \<longrightarrow> i < bm_size b)"

definition bits :: "bitmap \<Rightarrow> nat set" where
  "bits b = {i. bm_test b i}"

lemma in_bytes: "i < n \<Longrightarrow> i div 8 < num_bytes n"
  by (auto simp: num_bytes_def div_le_mono less_Suc_eq_le)

lemma byte_exhaust: "(\<And>i. i < 8 \<Longrightarrow> bit v i = bit w i) \<Longrightarrow> v = (w :: uint8)"
  by (rule bit_word_eqI) simp

lemma less_split: "(i :: nat) < n \<longleftrightarrow> i div 8 < n div 8 \<or> i div 8 = n div 8 \<and> i mod 8 < n mod 8"
proof -
  define a r c s where "a = i div 8" and "r = i mod 8" and "c = n div 8" and "s = n mod 8"
  have "i = a * 8 + r" "n = c * 8 + s" "r < 8" "s < 8"
    by (auto simp: a_def r_def c_def s_def)
  then show ?thesis unfolding a_def [symmetric] r_def [symmetric] c_def [symmetric] s_def [symmetric]
    by auto
qed

lemma bit_255 [simp]: "bit (255 :: int) i \<longleftrightarrow> i < 8"
proof -
  have "(255 :: int) = mask 8" by (simp add: mask_eq_exp_minus_1)
  then show ?thesis by (simp only: bit_mask_iff) simp
qed

lemma bit_low_mask [simp]: "bit (low_mask k) i \<longleftrightarrow> i < 8 \<and> i < k"
proof -
  have "low_mask k = mask k" by (simp add: low_mask_def mask_eq_exp_minus_1 push_bit_eq_mult)
  then show ?thesis by (simp add: bit_mask_iff)
qed

lemma bit_push_8: "bit (push_bit h w) i \<longleftrightarrow> h \<le> i \<and> i < 8 \<and> bit w (i - h)" for w :: uint8
  by (auto simp: bit_push_bit_iff)

lemma rawbit_update:
  "rawbit (d[k := w]) i \<longleftrightarrow>
     (if i div 8 = k \<and> k < length d then bit w (i mod 8) else rawbit d i)"
  by (auto simp: rawbit_def nth_list_update)

lemma bm_test_bit: "bm_test b i \<longleftrightarrow> i < bm_size b \<and> bit (bm_data b ! (i div 8)) (i mod 8)"
proof -
  have "drop_bit n w AND 1 \<noteq> 0 \<longleftrightarrow> bit w n" for n and w :: uint8
    by (simp add: and_one_eq bit_iff_odd_drop_bit odd_iff_mod_2_eq_one)
  then show ?thesis by (auto simp: bm_test_def)
qed

lemma bm_test_raw: "bm_ok b \<Longrightarrow> bm_test b i \<longleftrightarrow> rawbit (bm_data b) i"
  using in_bytes by (auto simp: bm_test_bit bm_ok_def rawbit_def)

lemma in_bits: "i \<in> bits b \<longleftrightarrow> bm_test b i"
  by (simp add: bits_def)

lemma bits_bound: "i \<in> bits b \<Longrightarrow> i < bm_size b"
  by (simp add: in_bits bm_test_bit)

lemma finite_bits [simp]: "finite (bits b)"
  by (rule finite_subset [of _ "{..<bm_size b}"]) (auto dest: bits_bound)

lemma bits_rawI:
  assumes "length (bm_data b) = num_bytes (bm_size b)"
    and "\<And>i. rawbit (bm_data b) i \<longleftrightarrow> i \<in> S" and "\<And>i. i \<in> S \<Longrightarrow> i < bm_size b"
  shows "bm_ok b \<and> bits b = S"
proof -
  have ok: "bm_ok b" using assms by (simp add: bm_ok_def)
  then show ?thesis using assms(2) by (auto simp: bits_def bm_test_raw)
qed

lemma bits_rawE:
  assumes "bm_ok b"
  shows "length (bm_data b) = num_bytes (bm_size b)"
    and "rawbit (bm_data b) i \<longleftrightarrow> i \<in> bits b"
  using assms by (auto simp: bits_def bm_test_raw) (simp add: bm_ok_def)

lemma length_fill [simp]: "length (foldl (\<lambda>d i. d[i := v]) d is) = length d"
  by (induction "is" arbitrary: d) auto

lemma nth_fill:
  "j < length d \<Longrightarrow> foldl (\<lambda>d i. d[i := v]) d is ! j = (if j \<in> set is then v else d ! j)"
  by (induction "is" arbitrary: d) (auto simp: nth_list_update)

lemma rawbit_fill:
  "rawbit (foldl (\<lambda>d i. d[i := 0xFF]) d is) i \<longleftrightarrow>
     rawbit d i \<or> (i div 8 \<in> set is \<and> i div 8 < length d)"
  by (auto simp: rawbit_def nth_fill)

section \<open>The operations are set operations\<close>

lemma new_bitmap_bits: "bm_ok (new_bitmap n) \<and> bits (new_bitmap n) = {}"
  by (rule bits_rawI) (auto simp: new_bitmap_def rawbit_def)

lemma prefix_bitmap_bits: "bm_ok (prefix_bitmap n p) \<and> bits (prefix_bitmap n p) = {..<min p n}"
proof (cases "p = 0 \<or> n = 0")
  case True
  then show ?thesis using new_bitmap_bits [of n] by (auto simp: prefix_bitmap_def Let_def)
next
  case False
  define q where "q = (if p > n then n else p)"
  have q: "q = min p n" "0 < q" "q \<le> n" using False by (auto simp: q_def)
  let ?d = "foldl (\<lambda>d i. d[i := 0xFF]) (replicate (num_bytes n) (0 :: uint8)) [0..<q div 8]"
  have raw: "rawbit ?d i \<longleftrightarrow> i div 8 < q div 8 \<and> i div 8 < num_bytes n" for i
    by (simp add: rawbit_fill) (auto simp: rawbit_def)
  have lt: "i < q \<Longrightarrow> i div 8 < num_bytes n" for i
    using q(3) by (intro in_bytes) simp
  have part: "q div 8 < num_bytes n" if "q mod 8 > 0"
  proof -
    have "8 * (q div 8) < q" using that less_split [of "8 * (q div 8)" q] by simp
    then show ?thesis using lt [of "8 * (q div 8)"] by simp
  qed
  note rest = less_split [of _ q]
  have dat: "prefix_bitmap n p = \<lparr>bm_size = n, bm_data = (if q mod 8 > 0
      then ?d[q div 8 := low_mask (q mod 8)] else ?d)\<rparr>"
    using False by (simp add: prefix_bitmap_def Let_def new_bitmap_def q_def)
  show ?thesis unfolding dat q(1) [symmetric]
  proof (rule bits_rawI)
    fix i
    show "rawbit (bm_data \<lparr>bm_size = n, bm_data = (if q mod 8 > 0
        then ?d[q div 8 := low_mask (q mod 8)] else ?d)\<rparr>) i \<longleftrightarrow> i \<in> {..<q}"
    proof (cases "q mod 8 > 0")
      case True
      then show ?thesis using part rest [of i] lt [of i] by (auto simp: rawbit_update raw)
    next
      case False
      then show ?thesis using rest [of i] lt [of i] by (auto simp: raw)
    qed
  qed (use q in \<open>auto\<close>)
qed

lemma size_simps [simp]:
  "bm_size (new_bitmap n) = n" "bm_size (bm_set i b) = bm_size b"
  "bm_size (bm_clear i b) = bm_size b" "bm_size (bm_not b) = bm_size b"
  "bm_size (bm_and a b) = min (bm_size a) (bm_size b)"
  "bm_size (bm_or a b) = min (bm_size a) (bm_size b)"
  "bm_size (set_range s e b) = bm_size b"
  "bm_size (prefix_bitmap n p) = n"
  by (auto simp: new_bitmap_def bm_set_def bm_clear_def bm_not_def bm_and_def bm_or_def Let_def
      set_range_def prefix_bitmap_def)

lemma bit_one_8: "bit (2 ^ k :: uint8) j \<longleftrightarrow> j = k \<and> k < 8"
  by (auto simp: bit_exp_iff)

lemma div_mod_eq: "i div 8 = k div 8 \<Longrightarrow> i mod 8 = k mod 8 \<Longrightarrow> i = (k :: nat)"
  by (metis div_mult_mod_eq)

lemma bm_set_bits:
  assumes "bm_ok b"
  shows "bm_ok (bm_set i b) \<and> bits (bm_set i b) = (if i < bm_size b then insert i (bits b) else bits b)"
proof (cases "i < bm_size b")
  case True
  note b = bits_rawE [OF assms]
  have "i div 8 < length (bm_data b)" using True b(1) by (simp add: in_bytes)
  moreover have "bit (bm_data b ! (i div 8)) (j mod 8) \<longleftrightarrow> j \<in> bits b" if "j div 8 = i div 8" for j
    using b(2) [of j] that calculation by (simp add: rawbit_def)
  ultimately have "bm_ok (bm_set i b) \<and> bits (bm_set i b) = insert i (bits b)"
    using True b assms bits_bound
    by (intro bits_rawI)
       (auto simp: bm_set_def rawbit_update bit_or_iff bit_one_8 dest: div_mod_eq)
  then show ?thesis using True by simp
qed (use assms in \<open>simp add: bm_set_def\<close>)

lemma bm_clear_bits:
  assumes "bm_ok b"
  shows "bm_ok (bm_clear i b) \<and> bits (bm_clear i b) = bits b - {i}"
proof (cases "i < bm_size b")
  case True
  note b = bits_rawE [OF assms]
  have "i div 8 < length (bm_data b)" using True b(1) by (simp add: in_bytes)
  moreover have "bit (bm_data b ! (i div 8)) (j mod 8) \<longleftrightarrow> j \<in> bits b" if "j div 8 = i div 8" for j
    using b(2) [of j] that calculation by (simp add: rawbit_def)
  ultimately show ?thesis
    using True b assms bits_bound
    by (intro bits_rawI)
       (auto simp: bm_clear_def rawbit_update bit_and_iff bit_not_iff bit_one_8 dest: div_mod_eq)
next
  case False
  then have "i \<notin> bits b" using bits_bound by blast
  then show ?thesis using assms False by (simp add: bm_clear_def)
qed

lemma bm_and_bits:
  assumes "bm_ok a" "bm_ok b"
  shows "bm_ok (bm_and a b) \<and> bits (bm_and a b) = bits a \<inter> bits b"
proof (rule bits_rawI)
  note a = bits_rawE [OF assms(1)] and b = bits_rawE [OF assms(2)]
  have le: "num_bytes m \<le> num_bytes n" if "m \<le> n" for m n
    using that by (simp add: num_bytes_def div_le_mono diff_le_mono)
  show "length (bm_data (bm_and a b)) = num_bytes (bm_size (bm_and a b))"
    by (simp add: bm_and_def Let_def min_def)
  show "i \<in> bits a \<inter> bits b \<Longrightarrow> i < bm_size (bm_and a b)" for i
    using bits_bound by auto
  show "rawbit (bm_data (bm_and a b)) i \<longleftrightarrow> i \<in> bits a \<inter> bits b" for i
  proof -
    let ?n = "min (bm_size a) (bm_size b)"
    have "rawbit (bm_data (bm_and a b)) i \<longleftrightarrow>
        i div 8 < num_bytes ?n \<and> rawbit (bm_data a) i \<and> rawbit (bm_data b) i"
      using le [of ?n "bm_size a"] le [of ?n "bm_size b"] a(1) b(1)
      by (auto simp: bm_and_def Let_def rawbit_def bit_and_iff min_def)
    moreover have "i div 8 < num_bytes ?n" if "i \<in> bits a \<inter> bits b"
      using that bits_bound by (intro in_bytes) auto
    ultimately show ?thesis using a(2) b(2) by auto
  qed
qed

lemma bm_or_bits:
  assumes "bm_ok a" "bm_ok b" "bm_size a = bm_size b"
  shows "bm_ok (bm_or a b) \<and> bits (bm_or a b) = bits a \<union> bits b"
proof (rule bits_rawI)
  note a = bits_rawE [OF assms(1)] and b = bits_rawE [OF assms(2)]
  have "rawbit (bm_data (bm_or a b)) i \<longleftrightarrow> rawbit (bm_data a) i \<or> rawbit (bm_data b) i" for i
    using a(1) b(1) assms(3) by (auto simp: bm_or_def Let_def rawbit_def bit_or_iff)
  then show "rawbit (bm_data (bm_or a b)) i \<longleftrightarrow> i \<in> bits a \<union> bits b" for i
    using a(2) b(2) by auto
qed (use assms in \<open>auto simp: bm_or_def Let_def dest: bits_bound\<close>)

lemma last_byte:
  assumes "length d = num_bytes n" "n mod 8 > 0"
  shows "d \<noteq> []" and "length d = Suc (n div 8)"
proof -
  have "n - 1 = (n div 8) * 8 + (n mod 8 - 1)" using assms(2) div_mult_mod_eq [of n 8] by linarith
  then have "(n - 1) div 8 = n div 8 + (n mod 8 - 1) div 8" by simp
  also have "(n mod 8 - 1) div 8 = 0" by simp
  finally have "(n - 1) div 8 = n div 8" by simp
  then show "length d = Suc (n div 8)" using assms by (auto simp: num_bytes_def)
  then show "d \<noteq> []" by auto
qed

lemma whole_bytes:
  assumes "n mod 8 = 0" shows "num_bytes n = n div 8"
proof (cases "n = 0")
  case False
  then obtain k where "n = Suc k * 8" using False assms by (metis mod_0_imp_dvd dvd_div_mult_self not0_implies_Suc div_eq_0_iff mult_zero_left)
  then have "(n - 1) div 8 + 1 = n div 8" by simp
  then show ?thesis using False by (simp add: num_bytes_def)
qed (simp add: num_bytes_def)

lemma bm_not_bits:
  assumes "bm_ok b"
  shows "bm_ok (bm_not b) \<and> bits (bm_not b) = {..<bm_size b} - bits b"
proof (rule bits_rawI)
  note b = bits_rawE [OF assms]
  let ?n = "bm_size b"
  show "length (bm_data (bm_not b)) = num_bytes (bm_size (bm_not b))"
    using b(1) by (simp add: bm_not_def Let_def)
  show "rawbit (bm_data (bm_not b)) i \<longleftrightarrow> i \<in> {..<?n} - bits b" for i
  proof (cases "?n mod 8 > 0")
    case True
    note l = last_byte [OF b(1) True]
    define k where "k = ?n div 8"
    have len: "length (bm_data b) = Suc k" using l by (simp add: k_def)
    have last: "last (map (\<lambda>w. NOT w) (bm_data b)) = NOT (bm_data b ! k)"
      using l len by (simp add: last_conv_nth)
    have dat: "bm_data (bm_not b) =
        (map (\<lambda>w. NOT w) (bm_data b))[k := NOT (bm_data b ! k) AND low_mask (?n mod 8)]"
      using True len by (simp add: bm_not_def Let_def last)
    consider "i div 8 < k" | "i div 8 = k" | "k < i div 8" by linarith
    then show ?thesis
      using b(2) [of i] less_split [of i ?n] len
      by cases (simp_all add: dat rawbit_def bit_and_iff bit_not_iff k_def conj_commute)
  next
    case False
    then have "length (bm_data b) = ?n div 8" using b(1) whole_bytes [of ?n] by simp
    moreover have "i < ?n \<longleftrightarrow> i div 8 < ?n div 8" using False less_split [of i ?n] by simp
    ultimately show ?thesis using False b(2) [of i]
      by (auto simp: bm_not_def Let_def rawbit_def bit_not_iff)
  qed
qed auto


lemma less_split_last:
  assumes "0 < t"
  shows "(i :: nat) < t \<longleftrightarrow>
    i div 8 < (t - 1) div 8 \<or> i div 8 = (t - 1) div 8 \<and> i mod 8 < t - (t - 1) div 8 * 8"
proof -
  have "(t - 1) div 8 * 8 + (t - 1) mod 8 = t - 1" by (rule div_mult_mod_eq)
  then have m: "t - (t - 1) div 8 * 8 = Suc ((t - 1) mod 8)" using assms by linarith
  have "i < t \<longleftrightarrow> \<not> t - 1 < i" using assms by linarith
  then show ?thesis using less_split [of "t - 1" i] unfolding m by (auto simp: less_Suc_eq_le)
qed

lemma set_range_bits:
  assumes "bm_ok b"
  shows "bm_ok (set_range s e b) \<and> bits (set_range s e b) = bits b \<union> {s..<min e (bm_size b)}"
proof -
  define t where "t = (if e > bm_size b then bm_size b else e)"
  have t: "t = min e (bm_size b)" "t \<le> bm_size b" by (auto simp: t_def)
  note b = bits_rawE [OF assms]
  show ?thesis
  proof (cases "s < t")
    case False
    then show ?thesis using assms t by (auto simp: set_range_def Let_def t_def [symmetric])
  next
    case True
    define f l d where "f = s div 8" and "l = (t - 1) div 8" and "d = bm_data b"
    have fl: "f \<le> l" using True by (auto simp: f_def l_def intro: div_le_mono)
    have "t - 1 < bm_size b" using True t(2) by linarith
    then have ln: "l < length d" using b(1) by (simp add: l_def d_def in_bytes)
    have lt: "i < t \<longleftrightarrow> i div 8 < l \<or> i div 8 = l \<and> i mod 8 < t - l * 8" for i
      using less_split_last [of t i] True by (simp add: l_def)
    have ge: "s \<le> i \<longleftrightarrow> f < i div 8 \<or> i div 8 = f \<and> s mod 8 \<le> i mod 8" for i
      using less_split [of i s] by (auto simp: f_def)
    have raw: "rawbit d i \<longleftrightarrow> i \<in> bits b" for i by (simp add: d_def b)
    have byte: "bit (d ! k) (i mod 8) \<longleftrightarrow> i \<in> bits b" if "i div 8 = k" "k < length d" for i k
      using raw [of i] that by (simp add: rawbit_def)
    have goal: ?thesis if "bm_data (set_range s e b) = d'" "length d' = length d"
      "\<And>i. rawbit d' i \<longleftrightarrow> i \<in> bits b \<or> s \<le> i \<and> i < t" for d'
      using that b(1) t bits_bound by (intro bits_rawI) (auto simp: d_def)
    show ?thesis
    proof (cases "f = l")
      case eq: True
      let ?d = "d[f := d ! f OR push_bit (s mod 8) (low_mask (t - s))]"
      have off: "i mod 8 - s mod 8 = i - s" if "i div 8 = f" for i
        using that f_def by (metis minus_div_mult_eq_mod diff_diff_left diff_cancel2 div_mult_mod_eq add.commute add_diff_cancel_left)
      show ?thesis
      proof (rule goal)
        show "bm_data (set_range s e b) = ?d"
          using True eq by (simp add: set_range_def Let_def t_def [symmetric] f_def l_def d_def)
        show "rawbit ?d i \<longleftrightarrow> i \<in> bits b \<or> s \<le> i \<and> i < t" for i
        proof (cases "i div 8 = f")
          case True
          have "i - s < 8" using off [OF True] mod_less_divisor [of 8 i] by linarith
          moreover have "i - s < t - s \<longleftrightarrow> i < t" if "s \<le> i" using that by linarith
          ultimately show ?thesis using True ln eq off [of i] byte [of i f] ge [of i]
            by (auto simp: rawbit_update bit_or_iff bit_push_8)
        next
          case False
          then show ?thesis using eq ge [of i] lt [of i] raw [of i] by (auto simp: rawbit_update)
        qed
      qed simp
    next
      case ne: False
      let ?d1 = "d[f := d ! f OR push_bit (s mod 8) 0xFF]"
      let ?d2 = "foldl (\<lambda>d i. d[i := 0xFF]) ?d1 [f + 1..<l]"
      let ?d3 = "?d2[l := ?d2 ! l OR low_mask (t - l * 8)]"
      have d2: "rawbit ?d2 i \<longleftrightarrow> i \<in> bits b \<or> s \<le> i \<and> i div 8 < l" for i
        using fl ne ln byte [of i f] ge [of i] raw [of i]
        by (auto simp: rawbit_fill rawbit_update bit_or_iff bit_push_8)
      show ?thesis
      proof (rule goal)
        show "bm_data (set_range s e b) = ?d3"
          using True ne by (simp add: set_range_def Let_def t_def [symmetric] f_def l_def d_def)
        show "rawbit ?d3 i \<longleftrightarrow> i \<in> bits b \<or> s \<le> i \<and> i < t" for i
        proof (cases "i div 8 = l")
          case True
          have "bit (?d2 ! l) (i mod 8) \<longleftrightarrow> i \<in> bits b"
            using d2 [of i] True ln by (simp add: rawbit_def)
          then show ?thesis using True ln fl ne ge [of i] lt [of i]
            by (auto simp: rawbit_update bit_or_iff)
        next
          case False
          then show ?thesis using d2 [of i] lt [of i] by (auto simp: rawbit_update)
        qed
      qed simp
    qed
  qed
qed

section \<open>Counting\<close>

lemma shift_upt: "map (\<lambda>j. m + j) [0..<n] = [m..<m + n]" for m n :: nat
  by (simp add: map_add_upt add.commute)

lemma concat_bytes: "concat (map (\<lambda>i. [i * 8..<i * 8 + 8]) [0..<k]) = [0..<k * 8 :: nat]"
proof (induction k)
  case (Suc k)
  have "[0..<Suc k * 8] = [0..<k * 8] @ [k * 8..<k * 8 + 8]"
    using upt_add_eq_append [of 0 "k * 8" 8] by (simp only: mult_Suc add.commute [of 8])
  then show ?case using Suc by (simp only: upt_Suc_append zero_le map_append concat_append list.map
        concat.simps append_Nil2)
qed simp

lemma upt_bytes:
  "[0..<k * 8 + r] =
     concat (map (\<lambda>i. map (\<lambda>j. i * 8 + j) [0..<8]) [0..<k]) @ map (\<lambda>j. k * 8 + j) [0..<r]"
  unfolding shift_upt concat_bytes by (rule upt_add_eq_append) simp

lemma builtin_ctz_least:
  assumes "w \<noteq> 0"
  shows "builtin_ctz w < 8" "bit w (builtin_ctz w)" "i < builtin_ctz w \<Longrightarrow> \<not> bit w i"
proof -
  let ?t = "takeWhile (\<lambda>i. \<not> bit w i) [0..<8]"
  obtain k where k: "k < 8" "bit w k" using assms byte_exhaust [of w 0] by auto
  have "length ?t < length [0..<8]"
  proof (rule ccontr)
    assume "\<not> ?thesis"
    then have "?t = [0..<8]"
      using length_takeWhile_le [of "\<lambda>i. \<not> bit w i" "[0..<8]"] by (metis takeWhile_eq_take take_all linorder_not_less)
    then have "\<forall>i \<in> set [0..<8]. \<not> bit w i" by (simp only: takeWhile_eq_all_conv)
    then show False using k by auto
  qed
  note lt = this
  then show "builtin_ctz w < 8" by (simp add: builtin_ctz_def)
  show "bit w (builtin_ctz w)"
    using nth_length_takeWhile [OF lt] lt by (simp add: builtin_ctz_def)
  show "\<not> bit w i" if "i < builtin_ctz w"
  proof -
    have "?t ! i = i" using that lt by (simp add: builtin_ctz_def takeWhile_nth)
    moreover have "?t ! i \<in> set ?t" using that by (simp add: builtin_ctz_def)
    ultimately show ?thesis by (metis set_takeWhileD)
  qed
qed

lemma bit_clear_lowest:
  fixes w :: uint8
  assumes "w \<noteq> 0" "i < 8"
  shows "bit (w AND (w - 1)) i \<longleftrightarrow> bit w i \<and> i \<noteq> builtin_ctz w"
proof -
  define k r where "k = builtin_ctz w" and "r = w AND NOT (2 ^ k)"
  note c = builtin_ctz_least [OF assms(1), folded k_def]
  have bits_r: "bit r j \<longleftrightarrow> bit w j \<and> j \<noteq> k" if "j < 8" for j
    using that c(1) by (auto simp: r_def bit_and_iff bit_not_iff bit_one_8)
  have "r AND 2 ^ k = 0"
    by (rule byte_exhaust) (use bits_r in \<open>auto simp: bit_and_iff bit_one_8\<close>)
  moreover have "r OR 2 ^ k = w"
    by (rule byte_exhaust) (use bits_r c in \<open>auto simp: bit_or_iff bit_one_8\<close>)
  ultimately have "w = r + 2 ^ k" by (simp add: disjunctive_add_eq_or)
  then have "w - 1 = r + mask k" by (simp add: mask_eq_exp_minus_1)
  moreover have "r AND mask k = 0"
    by (rule byte_exhaust) (use bits_r c(3) in \<open>auto simp: bit_and_iff bit_mask_iff\<close>)
  ultimately have "w - 1 = r OR mask k" by (simp add: disjunctive_add_eq_or)
  then show ?thesis using bits_r [OF assms(2)] c(3) [of i] assms(2)
    by (auto simp: bit_and_iff bit_or_iff bit_mask_iff k_def)
qed

lemma byte_indices_filter: "byte_indices w = filter (bit w) [0..<8]"
proof (induction w rule: byte_indices.induct)
  case (1 w)
  show ?case
  proof (cases "w = 0")
    case False
    let ?k = "builtin_ctz w" and ?v = "w AND (w - 1)"
    note c = builtin_ctz_least [OF False]
    have up: "[0..<8] = [0..<?k] @ ?k # [Suc ?k..<8]"
      using c(1) by (metis less_imp_add_positive upt_add_eq_append upt_conv_Cons zero_le less_imp_le)
    have "filter (bit w) [Suc ?k..<8] = filter (bit ?v) [Suc ?k..<8]"
      by (rule filter_cong) (use bit_clear_lowest [OF False] in \<open>auto\<close>)
    moreover have "filter (bit w) [0..<?k] = []" "filter (bit ?v) [0..<?k] = []"
      using c bit_clear_lowest [OF False] by (auto simp: filter_empty_conv)
    moreover have "\<not> bit ?v ?k" using bit_clear_lowest [OF False c(1)] by simp
    ultimately have "filter (bit w) [0..<8] = ?k # filter (bit ?v) [0..<8]"
      unfolding up using c(2) by simp
    then show ?thesis using 1 [OF False] False by (subst byte_indices.simps) simp
  qed (simp add: byte_indices.simps)
qed

lemma size_bytes: "(n :: nat) = n div 8 * 8 + n mod 8"
  by simp

lemma upt_size:
  "[0..<n] = concat (map (\<lambda>i. map (\<lambda>j. i * 8 + j) [0..<8]) [0..<n div 8]) @
             map (\<lambda>j. n div 8 * 8 + j) [0..<n mod 8]"
  using upt_bytes [of "n div 8" "n mod 8"] by simp

lemma test_in_byte:
  assumes "bm_ok b" "i < length (bm_data b)" "j < 8"
  shows "bm_test b (i * 8 + j) \<longleftrightarrow> bit (bm_data b ! i) j"
  using assms by (simp add: bm_test_raw rawbit_def)

lemma get_indices_eq:
  assumes "bm_ok b"
  shows "get_indices b = filter (bm_test b) [0..<bm_size b]"
proof -
  let ?n = "bm_size b" and ?d = "bm_data b"
  have len: "length ?d = num_bytes ?n" using assms by (simp add: bm_ok_def)
  have byte: "filter (\<lambda>j. j < ?n) (map (\<lambda>j. i * 8 + j) (byte_indices (?d ! i))) =
      filter (bm_test b) (map (\<lambda>j. i * 8 + j) [0..<8])" if "i < length ?d" for i
  proof -
    have "filter (\<lambda>j. i * 8 + j < ?n) (filter (bit (?d ! i)) [0..<8]) =
        filter (\<lambda>j. bm_test b (i * 8 + j)) [0..<8]"
      unfolding filter_filter
      by (rule filter_cong) (use test_in_byte [OF assms that] bm_test_bit [of b] in \<open>auto\<close>)
    then show ?thesis by (simp add: byte_indices_filter filter_map comp_def)
  qed
  have "get_indices b =
      concat (map (\<lambda>i. filter (bm_test b) (map (\<lambda>j. i * 8 + j) [0..<8])) [0..<length ?d])"
    unfolding get_indices_def by (rule arg_cong [of _ _ concat], rule map_cong) (use byte in auto)
  also have "\<dots> = filter (bm_test b) (concat (map (\<lambda>i. map (\<lambda>j. i * 8 + j) [0..<8]) [0..<length ?d]))"
    by (simp add: filter_concat comp_def)
  also have "\<dots> = filter (bm_test b) [0..<length ?d * 8]"
    using upt_bytes [of "length ?d" 0] by simp
  also have "[0..<length ?d * 8] = [0..<?n] @ [?n..<length ?d * 8]"
  proof -
    have "?n \<le> length ?d * 8" using in_bytes [of "num_bytes ?n * 8" ?n] len
      by (simp add: not_less [symmetric]) blast
    then show ?thesis by (metis le_add_diff_inverse upt_add_eq_append zero_le)
  qed
  also have "filter (bm_test b) \<dots> = filter (bm_test b) [0..<?n]"
    by (simp add: filter_empty_conv bm_test_bit)
  finally show ?thesis .
qed

lemma set_get_indices: "bm_ok b \<Longrightarrow> set (get_indices b) = bits b"
  by (auto simp: get_indices_eq bits_def bm_test_bit)

lemma sorted_get_indices: "bm_ok b \<Longrightarrow> sorted (get_indices b) \<and> distinct (get_indices b)"
  by (simp add: get_indices_eq sorted_wrt_filter)

lemma popcount_card:
  assumes "bm_ok b"
  shows "popcount b = card (bits b)"
proof -
  let ?n = "bm_size b" and ?d = "bm_data b"
  note b = bits_rawE [OF assms]
  have full: "builtin_popcount (?d ! i) =
      length (filter (bm_test b) (map (\<lambda>j. i * 8 + j) [0..<8]))" if "i < length ?d" for i
    using test_in_byte [OF assms that] unfolding builtin_popcount_def filter_map length_map comp_def
    by (intro arg_cong [of _ _ length] filter_cong) auto
  have le: "?n div 8 \<le> length ?d"
    using last_byte(2) [OF b(1)] whole_bytes [of ?n] b(1) by (cases "?n mod 8 > 0") auto
  have part: "builtin_popcount (last ?d AND low_mask (?n mod 8)) =
      length (filter (bm_test b) (map (\<lambda>j. ?n div 8 * 8 + j) [0..<?n mod 8]))" if "?n mod 8 > 0"
  proof -
    note l = last_byte [OF b(1) that]
    have "[0..<8] = [0..<?n mod 8] @ [?n mod 8..<8]"
      using upt_add_eq_append [of 0 "?n mod 8" "8 - ?n mod 8"] by simp
    then have "filter (bit (last ?d AND low_mask (?n mod 8))) [0..<8] =
        filter (bit (last ?d AND low_mask (?n mod 8))) [0..<?n mod 8]"
      by (simp add: filter_empty_conv bit_and_iff)
    also have "\<dots> = filter (\<lambda>j. bm_test b (?n div 8 * 8 + j)) [0..<?n mod 8]"
      using l test_in_byte [OF assms, of "?n div 8"]
      by (intro filter_cong) (auto simp: bit_and_iff last_conv_nth)
    finally show ?thesis by (simp add: builtin_popcount_def filter_map comp_def)
  qed
  have "length (filter (bm_test b) [0..<?n]) =
      sum_list (map (\<lambda>i. length (filter (bm_test b) (map (\<lambda>j. i * 8 + j) [0..<8]))) [0..<?n div 8])
      + length (filter (bm_test b) (map (\<lambda>j. ?n div 8 * 8 + j) [0..<?n mod 8]))"
    by (subst upt_size) (simp add: filter_concat length_concat comp_def)
  also have "sum_list (map (\<lambda>i. length (filter (bm_test b) (map (\<lambda>j. i * 8 + j) [0..<8]))) [0..<?n div 8]) =
      sum_list (map (\<lambda>i. builtin_popcount (?d ! i)) [0..<?n div 8])"
    using full le by (intro arg_cong [of _ _ sum_list] map_cong) auto
  finally have "popcount b = length (filter (bm_test b) [0..<?n])"
    using part b(1) by (cases "?n = 0") (auto simp: popcount_def Let_def num_bytes_def)
  moreover have "card (bits b) = length (get_indices b)"
    using distinct_card [of "get_indices b"] set_get_indices [OF assms] sorted_get_indices [OF assms]
    by simp
  ultimately show ?thesis by (simp add: get_indices_eq assms)
qed

lemma popcount_0_iff: "bm_ok b \<Longrightarrow> popcount b = 0 \<longleftrightarrow> bits b = {}"
  by (simp add: popcount_card)

lemma clz_bytes_Inl:
  "clz_bytes ws acc = Inl m \<Longrightarrow>
     \<exists>k < length ws. (\<forall>i < k. ws ! i = 0) \<and> ws ! k \<noteq> 0 \<and> m = acc + k * 8 + builtin_ctz (ws ! k)"
proof (induction ws arbitrary: acc)
  case (Cons w ws)
  show ?case
  proof (cases "w = 0")
    case True
    then obtain k where "k < length ws" "\<forall>i < k. ws ! i = 0" "ws ! k \<noteq> 0"
      "m = acc + 8 + k * 8 + builtin_ctz (ws ! k)" using Cons by auto
    then show ?thesis using True by (intro exI [of _ "Suc k"]) (auto simp: nth_Cons split: nat.splits)
  next
    case False
    then show ?thesis using Cons by (intro exI [of _ 0]) auto
  qed
qed simp

lemma clz_bytes_Inr:
  "clz_bytes ws acc = Inr m \<Longrightarrow> (\<forall>w \<in> set ws. w = 0) \<and> m = acc + length ws * 8"
  by (induction ws arbitrary: acc) (fastforce split: if_splits)+

lemma clz_least:
  assumes "bm_ok b"
  shows "clz b \<le> bm_size b" "i < clz b \<Longrightarrow> i \<notin> bits b" "clz b < bm_size b \<Longrightarrow> clz b \<in> bits b"
proof -
  let ?n = "bm_size b" and ?d = "bm_data b"
  note b = bits_rawE [OF assms]
  have le: "?n div 8 \<le> length ?d"
    using last_byte(2) [OF b(1)] whole_bytes [of ?n] b(1) by (cases "?n mod 8 > 0") auto
  have raw: "j \<in> bits b \<longleftrightarrow> bit (?d ! (j div 8)) (j mod 8)" if "j < ?n" for j
    using that by (simp add: in_bits bm_test_bit)
  have spec: "m \<le> ?n \<and> (\<forall>j < m. j \<notin> bits b) \<and> (m < ?n \<longrightarrow> m \<in> bits b)"
    if m: "m = k * 8 + builtin_ctz w" and k: "\<forall>i < k. ?d ! i = 0" "k < length ?d" and w: "w \<noteq> 0"
      "\<And>j. j < 8 \<Longrightarrow> bit w j \<longleftrightarrow> k * 8 + j \<in> bits b" for m k w
  proof -
    note c = builtin_ctz_least [OF w(1)]
    have mem: "m \<in> bits b" using c w(2) m by simp
    moreover have "j \<notin> bits b" if "j < m" for j
    proof (cases "j div 8 < k")
      case True
      then show ?thesis using k raw [of j] bits_bound [of j b] by auto
    next
      case False
      then have "j div 8 = k" "j mod 8 < builtin_ctz w"
        using less_split [of j m] that m c(1) by auto
      then show ?thesis using c(3) [of "j mod 8"] w(2) [of "j mod 8"] c(1)
        by (metis div_mult_mod_eq less_trans)
    qed
    ultimately show ?thesis using bits_bound [OF mem] by auto
  qed
  have "clz b \<le> ?n \<and> (\<forall>j < clz b. j \<notin> bits b) \<and> (clz b < ?n \<longrightarrow> clz b \<in> bits b)"
  proof (cases "?n = 0")
    case True
    then show ?thesis by (simp add: clz_def)
  next
    case nz: False
    show ?thesis
    proof (cases "clz_bytes (take (?n div 8) ?d) 0")
      case (Inl m)
      then obtain k where k: "k < ?n div 8" "\<forall>i < k. ?d ! i = 0" "?d ! k \<noteq> 0"
        "m = k * 8 + builtin_ctz (?d ! k)"
        using clz_bytes_Inl [OF Inl] by (auto simp: le)
      have "clz b = m" using Inl nz by (simp add: clz_def)
      then show ?thesis
        using spec [OF k(4) k(2) _ k(3)] k(1) le test_in_byte [OF assms, of k] by (simp add: in_bits)
    next
      case (Inr m)
      then have m: "m = ?n div 8 * 8" and z: "\<forall>i < ?n div 8. ?d ! i = 0"
        using clz_bytes_Inr [OF Inr] le by (auto simp: all_set_conv_all_nth)
      show ?thesis
      proof (cases "?n mod 8 > 0")
        case False
        then have "clz b = ?n" using Inr nz m by (simp add: clz_def Let_def minus_mod_eq_div_mult [symmetric])
        moreover have "j \<notin> bits b" if "j < ?n" for j
          using that raw [of j] z less_split [of j ?n] False by auto
        ultimately show ?thesis by auto
      next
        case True
        note l = last_byte [OF b(1) True]
        let ?w = "last ?d AND low_mask (?n mod 8)"
        have lw: "bit ?w j \<longleftrightarrow> ?n div 8 * 8 + j \<in> bits b" if "j < 8" for j
        proof -
          have "?n div 8 * 8 + j \<in> bits b \<longleftrightarrow> bit (last ?d) j"
            using test_in_byte [OF assms, of "?n div 8" j] that l by (simp add: in_bits last_conv_nth)
          moreover have "?n div 8 * 8 + j < ?n \<longleftrightarrow> j < ?n mod 8"
            using size_bytes [of ?n] by linarith
          ultimately show ?thesis using bits_bound [of "?n div 8 * 8 + j" b] that
            by (auto simp: bit_and_iff)
        qed
        show ?thesis
        proof (cases "?w = 0")
          case False
          then have "clz b = ?n div 8 * 8 + builtin_ctz ?w"
            using Inr nz m True by (simp add: clz_def Let_def)
          then show ?thesis using spec [OF _ z _ False lw] l by simp
        next
          case w0: True
          then have "clz b = ?n" using Inr nz m True by (simp add: clz_def Let_def)
          moreover have "j \<notin> bits b" if "j < ?n" for j
            using that raw [of j] z less_split [of j ?n] lw [of "j mod 8"] w0
            by (metis div_mult_mod_eq bit_0_eq bot_apply bot_bool_def mod_less_divisor zero_less_numeral)
          ultimately show ?thesis by auto
        qed
      qed
    qed
  qed
  then show "clz b \<le> ?n" "i < clz b \<Longrightarrow> i \<notin> bits b" "clz b < ?n \<Longrightarrow> clz b \<in> bits b" by auto
qed

lemma clo_leading:
  assumes "bm_ok b"
  shows "clo b \<le> bm_size b" "i < clo b \<Longrightarrow> i \<in> bits b" "clo b \<notin> bits b"
proof -
  note n = bm_not_bits [OF assms]
  note c = clz_least [OF conjunct1 [OF n]]
  show le: "clo b \<le> bm_size b" using c(1) by (simp add: clo_def)
  show "i \<in> bits b" if "i < clo b"
    using c(2) [of i] that n le by (auto simp: clo_def)
  show "clo b \<notin> bits b"
    using c(3) n bits_bound [of "clo b" b] by (auto simp: clo_def)
qed

lemma clo_unique:
  assumes "bm_ok b" "\<And>i. i < n \<Longrightarrow> i \<in> bits b" "n \<notin> bits b"
  shows "clo b = n"
  using clo_leading [OF assms(1)] assms(2,3) by (meson linorder_neqE_nat)

lemma builtin_msb_greatest:
  assumes "w \<noteq> 0"
  shows "builtin_msb w < 8" "bit w (builtin_msb w)" "i < 8 \<Longrightarrow> builtin_msb w < i \<Longrightarrow> \<not> bit w i"
proof -
  let ?P = "\<lambda>i. \<not> bit w (7 - i)"
  let ?t = "takeWhile ?P [0..<8]"
  obtain k where k: "k < 8" "bit w k" using assms byte_exhaust [of w 0] by auto
  have lt: "length ?t < length [0..<8]"
  proof (rule ccontr)
    assume "\<not> ?thesis"
    then have "?t = [0..<8]" using length_takeWhile_le [of ?P "[0..<8]"]
      by (metis takeWhile_eq_take take_all linorder_not_less)
    then have all: "\<forall>i \<in> set [0..<8]. ?P i" by (simp only: takeWhile_eq_all_conv)
    have "7 - k \<in> set [0..<8]" by simp
    then have "\<not> bit w (7 - (7 - k))" using all by blast
    then show False using k by simp
  qed
  show "builtin_msb w < 8" by (simp add: builtin_msb_def)
  show "bit w (builtin_msb w)"
    using nth_length_takeWhile [OF lt] lt by (simp add: builtin_msb_def)
  show "\<not> bit w i" if "i < 8" "builtin_msb w < i"
  proof -
    have j: "7 - i < length ?t" using that lt by (simp add: builtin_msb_def)
    then have "?t ! (7 - i) = 7 - i" using lt by (simp add: takeWhile_nth)
    then have "7 - i \<in> set ?t" using j by (metis nth_mem)
    then have "?P (7 - i)" by (rule set_takeWhileD [THEN conjunct2])
    then show ?thesis using that by simp
  qed
qed

lemma scan_down_spec:
  "k \<le> length d \<Longrightarrow>
     (\<forall>i. rawbit d i \<and> i < k * 8 \<longrightarrow> int i \<le> scan_down d k) \<and>
     (scan_down d k = -1 \<or> (\<exists>j. scan_down d k = int j \<and> rawbit d j))"
proof (induction k)
  case (Suc k)
  show ?case
  proof (cases "d ! k = 0")
    case True
    have "i < k * 8" if "rawbit d i" "i < Suc k * 8" for i
      using that True less_split [of i "Suc k * 8"] less_split [of i "k * 8"]
      by (auto simp: rawbit_def less_Suc_eq)
    then show ?thesis using Suc True by auto
  next
    case False
    note m = builtin_msb_greatest [OF False]
    have "i \<le> k * 8 + builtin_msb (d ! k)" if "rawbit d i" "i < Suc k * 8" for i
    proof (cases "i div 8 = k")
      case True
      then have "\<not> builtin_msb (d ! k) < i mod 8"
        using m(3) [of "i mod 8"] that by (auto simp: rawbit_def)
      then show ?thesis using True div_mult_mod_eq [of i 8] by linarith
    next
      case False
      then have "i div 8 < k" using that less_split [of i "Suc k * 8"] by auto
      then show ?thesis using less_split [of i "k * 8"] by auto
    qed
    moreover have "rawbit d (k * 8 + builtin_msb (d ! k))"
      using m Suc.prems by (simp add: rawbit_def)
    moreover have "scan_down d (Suc k) = int (k * 8 + builtin_msb (d ! k))" using False by simp
    ultimately show ?thesis by (metis of_nat_le_iff)
  qed
qed (auto simp: rawbit_def)

lemma highest_set_bit_Max:
  assumes "bm_ok b"
  shows "highest_set_bit b = (if bits b = {} then -1 else int (Max (bits b)))"
proof -
  note b = bits_rawE [OF assms]
  have "rawbit (bm_data b) i \<Longrightarrow> i < length (bm_data b) * 8" for i
    using less_split [of i "length (bm_data b) * 8"] by (auto simp: rawbit_def)
  then have ub: "i \<in> bits b \<Longrightarrow> int i \<le> highest_set_bit b" for i
    using scan_down_spec [of "length (bm_data b)" "bm_data b"] b(2) by (auto simp: highest_set_bit_def)
  have at: "highest_set_bit b = -1 \<or> (\<exists>j. highest_set_bit b = int j \<and> j \<in> bits b)"
    using scan_down_spec [of "length (bm_data b)" "bm_data b"] b(2) by (auto simp: highest_set_bit_def)
  show ?thesis
  proof (cases "bits b = {}")
    case True
    then show ?thesis using at by auto
  next
    case False
    then obtain j where "highest_set_bit b = int j" "j \<in> bits b" using at ub by force
    moreover from calculation have "Max (bits b) = j" using ub by (intro Max_eqI) auto
    ultimately show ?thesis using False by simp
  qed
qed

lemma gather_eq:
  "bm_ok b \<Longrightarrow> bm_size b \<le> length items \<Longrightarrow>
     gather b items = map (\<lambda>i. items ! i) (get_indices b)"
  using bits_bound by (fastforce simp: gather_def set_get_indices intro!: arg_cong [of _ _ "map _"] filter_True)

lemma set_gather:
  assumes "bm_ok b" "bm_size b \<le> length items"
  shows "set (gather b items) = (\<lambda>i. items ! i) ` bits b"
  by (simp add: gather_eq [OF assms] set_get_indices [OF assms(1)])

lemma distinct_gather:
  assumes "bm_ok b" "bm_size b \<le> length items" "distinct items"
  shows "distinct (gather b items)"
proof -
  have "inj_on ((!) items) (bits b)"
    using assms bits_bound by (auto intro!: inj_onI simp: nth_eq_iff_index_eq) (meson less_le_trans nth_eq_iff_index_eq)
  then show ?thesis using assms sorted_get_indices by (simp add: gather_eq distinct_map set_get_indices)
qed

section \<open>Rewriting rules\<close>

named_theorems bits_simps \<open>the set of positions of the result of a bitmap operation\<close>

lemma bm_ok_simps [simp]:
  "bm_ok (new_bitmap n)" "bm_ok (prefix_bitmap n p)"
  "bm_ok b \<Longrightarrow> bm_ok (bm_set i b)" "bm_ok b \<Longrightarrow> bm_ok (bm_clear i b)"
  "bm_ok b \<Longrightarrow> bm_ok (bm_not b)" "bm_ok b \<Longrightarrow> bm_ok (set_range s e b)"
  "bm_ok a \<Longrightarrow> bm_ok b \<Longrightarrow> bm_ok (bm_and a b)"
  "bm_ok a \<Longrightarrow> bm_ok b \<Longrightarrow> bm_size a = bm_size b \<Longrightarrow> bm_ok (bm_or a b)"
  by (simp_all add: new_bitmap_bits prefix_bitmap_bits bm_set_bits bm_clear_bits bm_not_bits
      set_range_bits bm_and_bits bm_or_bits)

lemma bits_ops [simp, bits_simps]:
  "bits (new_bitmap n) = {}" "bits (prefix_bitmap n p) = {..<min p n}"
  "bm_ok b \<Longrightarrow> bits (bm_set i b) = (if i < bm_size b then insert i (bits b) else bits b)"
  "bm_ok b \<Longrightarrow> bits (bm_clear i b) = bits b - {i}"
  "bm_ok b \<Longrightarrow> bits (bm_not b) = {..<bm_size b} - bits b"
  "bm_ok b \<Longrightarrow> bits (set_range s e b) = bits b \<union> {s..<min e (bm_size b)}"
  "bm_ok a \<Longrightarrow> bm_ok b \<Longrightarrow> bits (bm_and a b) = bits a \<inter> bits b"
  "bm_ok a \<Longrightarrow> bm_ok b \<Longrightarrow> bm_size a = bm_size b \<Longrightarrow> bits (bm_or a b) = bits a \<union> bits b"
  by (simp_all add: new_bitmap_bits prefix_bitmap_bits bm_set_bits bm_clear_bits bm_not_bits
      set_range_bits bm_and_bits bm_or_bits)

lemma bits_subset: "bits b \<subseteq> {..<bm_size b}"
  using bits_bound by auto

lemma bitmap_eqI:
  assumes "bm_ok a" "bm_ok b" "bm_size a = bm_size b" "bits a = bits b"
  shows "a = b"
proof -
  have "bm_data a ! k = bm_data b ! k" if "k < length (bm_data a)" for k
  proof (rule byte_exhaust)
    fix j :: nat
    assume "j < 8"
    then show "bit (bm_data a ! k) j = bit (bm_data b ! k) j"
      using that assms bits_rawE [OF assms(1)] bits_rawE [OF assms(2)]
        test_in_byte [OF assms(1), of k j] test_in_byte [OF assms(2), of k j]
      by (auto simp: in_bits [symmetric])
  qed
  then have "bm_data a = bm_data b"
    using assms bits_rawE(1) [OF assms(1)] bits_rawE(1) [OF assms(2)] by (intro nth_equalityI) auto
  then show ?thesis using assms(3) by (simp add: bitmap.equality)
qed

text \<open>
  The result of \<open>operator|\<close> has the smaller size but keeps whole bytes of both operands, so with
  operands of different sizes bits beyond its size can be set: \<open>highest_set_bit\<close> then returns a
  position the bitmap does not have, against the comment \<open>Bits beyond size_ are never set\<close>.
\<close>

lemma or_of_different_sizes:
  "highest_set_bit (bm_or (new_bitmap 3) (bm_set 6 (new_bitmap 8))) = 6 \<and>
   bm_size (bm_or (new_bitmap 3) (bm_set 6 (new_bitmap 8))) = 3 \<and>
   popcount (bm_or (new_bitmap 3) (bm_set 6 (new_bitmap 8))) = 0"
  by code_simp

end
