(* ===== verification/Prefix_Fold.thy ===== *)
theory Prefix_Fold
  imports Bitmap Object_Key
begin

text \<open>
  The prefix hit of a request whose chunks are split over object groups with different
  attention windows: \<^verbatim>\<open>lmcache/v1/distributed/bitmap_ops/fold.py\<close> with the native kernels
  \<^verbatim>\<open>csrc/lmcache_native/fold.cpp\<close>, and the trim helpers of
  \<^verbatim>\<open>lmcache/v1/distributed/storage_controllers/prefetch_controller.py\<close>.

  Presence is a bitmap over the chunk-major layout: chunk \<open>j\<close> of group \<open>g\<close> at rank \<open>r\<close> is bit
  \<open>j * (groups * ranks) + g * ranks + r\<close>. The specification is the set \<open>needed\<close> of the
  positions that serving a prefix of a given length reads; a prefix can be served when all of
  them are present, and the hit is the longest such prefix.

  The kernels compute in \<open>size_t\<close>, here natural numbers; the Python functions compute in
  unbounded integers. Whether the kernels are installed is the parameter \<open>kernels\<close>.
\<close>

section \<open>Ranges\<close>

definition FULL_ATTENTION_WINDOW :: int where
  "FULL_ATTENTION_WINDOW = -1"

definition unfold_range :: "int \<Rightarrow> int \<Rightarrow> int \<times> int" where
  "unfold_range prefix_len window =
     (if prefix_len \<le> 0 then (0, 0)
      else (if window \<le> 0 then 0 else max 0 (prefix_len - window), prefix_len))"

section \<open>The native kernels\<close>

definition chunk_present :: "bitmap \<Rightarrow> nat \<Rightarrow> nat \<Rightarrow> bool" where
  "chunk_present found cbase num_ranks = list_all (\<lambda>r. bm_test found (cbase + r)) [0..<num_ranks]"

definition native_fold_chunk ::
  "bitmap \<Rightarrow> nat \<Rightarrow> nat \<Rightarrow> nat \<Rightarrow> nat \<Rightarrow> nat \<times> bool list \<Rightarrow> nat \<Rightarrow> nat \<times> bool list" where
  "native_fold_chunk found chunk_stride gbase num_ranks eff_window = (\<lambda>(run, servable) prefix_len.
     let cbase = (prefix_len - 1) * chunk_stride + gbase;
         run' = (if chunk_present found cbase num_ranks then run + 1 else 0)
     in (run', if servable ! (prefix_len - 1) \<and> run' < min eff_window prefix_len
               then servable[prefix_len - 1 := False] else servable))"

definition native_fold_group ::
  "bitmap \<Rightarrow> nat \<Rightarrow> nat \<Rightarrow> nat \<Rightarrow> bool list \<Rightarrow> nat \<times> int \<Rightarrow> bool list" where
  "native_fold_group found num_chunks num_ranks chunk_stride servable = (\<lambda>(g, window).
     let eff_window = (if window \<le> 0 then num_chunks else nat window);
         gbase = g * num_ranks
     in snd (foldl (native_fold_chunk found chunk_stride gbase num_ranks eff_window)
              (0, servable) [1..<num_chunks + 1]))"

definition native_fold :: "bitmap \<Rightarrow> nat \<Rightarrow> nat \<Rightarrow> int list \<Rightarrow> bitmap" where
  "native_fold found num_chunks num_ranks group_windows =
     (let num_groups = length group_windows;
          chunk_stride = num_groups * num_ranks;
          servable = foldl (native_fold_group found num_chunks num_ranks chunk_stride)
                       (replicate num_chunks True) (enumerate 0 group_windows)
      in foldl (\<lambda>b j. if servable ! j then bm_set j b else b) (new_bitmap num_chunks)
           [0..<num_chunks])"

definition native_unfold_group ::
  "nat \<Rightarrow> nat \<Rightarrow> nat \<Rightarrow> bitmap \<Rightarrow> nat \<times> int \<Rightarrow> bitmap" where
  "native_unfold_group hit_length num_ranks chunk_stride retain_mask = (\<lambda>(g, window).
     let lo = (if window > 0 \<and> hit_length > nat window then hit_length - nat window else 0);
         gbase = g * num_ranks
     in foldl (\<lambda>b j. let base = j * chunk_stride + gbase in set_range base (base + num_ranks) b)
          retain_mask [lo..<hit_length])"

definition native_unfold :: "nat \<Rightarrow> nat \<Rightarrow> nat \<Rightarrow> int list \<Rightarrow> bitmap" where
  "native_unfold hit_length0 num_chunks num_ranks group_windows =
     (let hit_length = (if hit_length0 > num_chunks then num_chunks else hit_length0);
          num_groups = length group_windows;
          chunk_stride = num_groups * num_ranks;
          retain_mask = new_bitmap (num_chunks * chunk_stride)
      in if hit_length = 0 then retain_mask
         else foldl (native_unfold_group hit_length num_ranks chunk_stride) retain_mask
                (enumerate 0 group_windows))"

section \<open>The Python functions\<close>

definition fold_checks :: "bool \<Rightarrow> int \<Rightarrow> int \<Rightarrow> int list \<Rightarrow> unit result" where
  "fold_checks kernels num_chunks num_ranks group_windows =
     (if \<not> kernels then Inl ImportError
      else if num_ranks < 1 then Inl ValueError
      else if group_windows = [] then Inl ValueError
      else if num_chunks < 0 then Inl ValueError
      else Inr ())"

definition bm_fold :: "bool \<Rightarrow> bitmap \<Rightarrow> int \<Rightarrow> int \<Rightarrow> int list \<Rightarrow> bitmap result" where
  "bm_fold kernels found num_chunks num_ranks group_windows =
     (case fold_checks kernels num_chunks num_ranks group_windows of
        Inl e \<Rightarrow> Inl e
      | Inr _ \<Rightarrow> Inr (native_fold found (nat num_chunks) (nat num_ranks) group_windows))"

text \<open>A negative hit length is refused by the conversion to \<open>size_t\<close> (a \<open>TypeError\<close> of the
  binding); the pipeline below never passes one.\<close>

definition bm_unfold :: "bool \<Rightarrow> nat \<Rightarrow> int \<Rightarrow> int \<Rightarrow> int list \<Rightarrow> bitmap result" where
  "bm_unfold kernels hit_length num_chunks num_ranks group_windows =
     (case fold_checks kernels num_chunks num_ranks group_windows of
        Inl e \<Rightarrow> Inl e
      | Inr _ \<Rightarrow> Inr (native_unfold hit_length (nat num_chunks) (nat num_ranks) group_windows))"

definition fold_unfold_ranked ::
  "bool \<Rightarrow> bitmap \<Rightarrow> int \<Rightarrow> int \<Rightarrow> int list \<Rightarrow> (int \<times> bitmap) result" where
  "fold_unfold_ranked kernels found num_chunks num_ranks group_windows =
     (case bm_fold kernels found num_chunks num_ranks group_windows of
        Inl e \<Rightarrow> Inl e
      | Inr servable \<Rightarrow>
          let hit_length = highest_set_bit servable + 1 in
          (case bm_unfold kernels (nat hit_length) num_chunks num_ranks group_windows of
             Inl e \<Rightarrow> Inl e
           | Inr retain \<Rightarrow> Inr (hit_length, retain)))"

definition fold_unfold :: "bool \<Rightarrow> bitmap \<Rightarrow> int \<Rightarrow> int list \<Rightarrow> (int \<times> bitmap) result" where
  "fold_unfold kernels found num_chunks group_windows =
     fold_unfold_ranked kernels found num_chunks 1 group_windows"

definition fold_python_chunk ::
  "bitmap \<Rightarrow> nat \<Rightarrow> nat \<Rightarrow> nat \<Rightarrow> int \<Rightarrow> int \<times> bool list \<Rightarrow> nat \<Rightarrow> int \<times> bool list" where
  "fold_python_chunk found chunk_stride gbase num_ranks effective_window = (\<lambda>(run, servable) prefix_len.
     let cbase = (prefix_len - 1) * chunk_stride + gbase;
         present = list_all (\<lambda>r. bm_test found (cbase + r)) [0..<num_ranks];
         run' = (if present then run + 1 else 0)
     in (run', if servable ! (prefix_len - 1) \<and> run' < min effective_window (int prefix_len)
               then servable[prefix_len - 1 := False] else servable))"

definition fold_python_group ::
  "bitmap \<Rightarrow> nat \<Rightarrow> nat \<Rightarrow> nat \<Rightarrow> bool list \<Rightarrow> nat \<times> int \<Rightarrow> bool list" where
  "fold_python_group found num_chunks num_ranks chunk_stride servable = (\<lambda>(group_idx, window).
     let gbase = group_idx * num_ranks;
         effective_window = (if window \<le> 0 then int num_chunks else window)
     in snd (foldl (fold_python_chunk found chunk_stride gbase num_ranks effective_window)
              (0, servable) [1..<num_chunks + 1]))"

definition fold_python :: "bitmap \<Rightarrow> nat \<Rightarrow> nat \<Rightarrow> int list \<Rightarrow> bitmap" where
  "fold_python found num_chunks num_ranks group_windows =
     (let chunk_stride = length group_windows * num_ranks;
          servable = foldl (fold_python_group found num_chunks num_ranks chunk_stride)
                       (replicate num_chunks True) (enumerate 0 group_windows)
      in foldl (\<lambda>b j. if servable ! j then bm_set j b else b) (new_bitmap num_chunks)
           [0..<num_chunks])"

definition unfold_python_group ::
  "int \<Rightarrow> nat \<Rightarrow> nat \<Rightarrow> bitmap \<Rightarrow> nat \<times> int \<Rightarrow> bitmap" where
  "unfold_python_group hit_length num_ranks chunk_stride retain_mask = (\<lambda>(group_idx, window).
     let (lo, hi) = unfold_range hit_length window;
         gbase = group_idx * num_ranks
     in foldl (\<lambda>b j. let cbase = j * chunk_stride + gbase
                     in foldl (\<lambda>b r. bm_set (cbase + r) b) b [0..<num_ranks])
          retain_mask [nat lo..<nat hi])"

definition unfold_python :: "int \<Rightarrow> nat \<Rightarrow> nat \<Rightarrow> int list \<Rightarrow> bitmap" where
  "unfold_python hit_length0 num_chunks num_ranks group_windows =
     (let hit_length = min hit_length0 (int num_chunks);
          chunk_stride = length group_windows * num_ranks;
          retain_mask = new_bitmap (num_chunks * chunk_stride)
      in if hit_length \<le> 0 then retain_mask
         else foldl (unfold_python_group hit_length num_ranks chunk_stride) retain_mask
                (enumerate 0 group_windows))"

definition merge_bitmaps :: "bitmap list \<Rightarrow> nat \<Rightarrow> bitmap" where
  "merge_bitmaps bitmaps num_keys = foldl bm_or (new_bitmap num_keys) bitmaps"

datatype trim_policy = PREFIX | SEGMENTED_PREFIX | SPARSE

definition select_retained :: "bitmap \<Rightarrow> nat \<Rightarrow> trim_policy \<Rightarrow> bitmap" where
  "select_retained found num_keys policy =
     (if policy = PREFIX then prefix_bitmap num_keys (clo found) else found)"

section \<open>The trim helpers of the prefetch controller\<close>

text \<open>\<open>num_keys // stride\<close> raises on a descriptor without object groups.\<close>

definition build_trim_mask ::
  "bool \<Rightarrow> bitmap \<Rightarrow> nat \<Rightarrow> trim_policy \<Rightarrow> attn_window_desc \<Rightarrow> (int \<times> bitmap) result" where
  "build_trim_mask kernels found num_keys policy attn_desc =
     (let stride = int (num_object_groups attn_desc) * aw_world_size attn_desc in
      if stride = 0 then Inl ZeroDivisionError
      else case policy of
        PREFIX \<Rightarrow>
          fold_unfold_ranked kernels found (int num_keys div stride) (aw_world_size attn_desc)
            (num_chunks_in_sw attn_desc)
      | _ \<Rightarrow> Inr (int (clo found) div stride, found))"

definition trim_load_plan_with_mask :: "(int, bitmap) pydict \<Rightarrow> bitmap \<Rightarrow> (int, bitmap) pydict" where
  "trim_load_plan_with_mask load_plan keep =
     foldl (\<lambda>trimmed (adapter_idx, bm).
        let trimmed_bm = bm_and bm keep in
        if popcount trimmed_bm = 0 then trimmed else dict_set adapter_idx trimmed_bm trimmed)
       [] load_plan"

section \<open>What a prefix needs\<close>

definition window_start :: "int \<Rightarrow> nat \<Rightarrow> nat" where
  "window_start window L = (if window \<le> 0 then 0 else L - nat window)"

definition cell :: "nat \<Rightarrow> nat \<Rightarrow> nat \<Rightarrow> nat \<Rightarrow> nat \<Rightarrow> nat" where
  "cell R G j g r = j * (G * R) + g * R + r"

definition needed :: "nat \<Rightarrow> int list \<Rightarrow> nat \<Rightarrow> nat set" where
  "needed R ws L = {cell R (length ws) j g r | j g r.
     g < length ws \<and> window_start (ws ! g) L \<le> j \<and> j < L \<and> r < R}"

lemma needed_0 [simp]: "needed R ws 0 = {}"
  by (simp add: needed_def)

lemma cell_less:
  assumes "j < n" "g < G" "r < R"
  shows "cell R G j g r < n * (G * R)"
proof -
  have "g * R + r < g * R + R" using assms by simp
  also have "\<dots> = Suc g * R" by simp
  also have "\<dots> \<le> G * R" using assms by (intro mult_le_mono1) simp
  finally have "cell R G j g r < j * (G * R) + G * R" by (simp add: cell_def)
  also have "\<dots> = Suc j * (G * R)" by simp
  also have "\<dots> \<le> n * (G * R)" using assms by (intro mult_le_mono1) simp
  finally show ?thesis .
qed

lemma cell_inject:
  assumes "cell R G j g r = cell R G j' g' r'" "g < G" "g' < G" "r < R" "r' < R"
  shows "j = j' \<and> g = g' \<and> r = r'"
proof -
  have b: "g * R + r < G * R" "g' * R + r' < G * R"
    using cell_less [of 0 1 g G r R] cell_less [of 0 1 g' G r' R] assms by (simp_all add: cell_def)
  have e: "j * (G * R) + (g * R + r) = j' * (G * R) + (g' * R + r')"
    using assms(1) by (simp add: cell_def add.assoc)
  have dv: "(k * m + x) div m = k" if "x < m" for k m x :: nat using that by simp
  have j: "j = j'" using dv [OF b(1), of j] dv [OF b(2), of j'] e by simp
  then have e2: "g * R + r = g' * R + r'" using e by simp
  have "g = g'" using dv [OF assms(4), of g] dv [OF assms(5), of g'] e2 by simp
  then show ?thesis using j e2 by simp
qed

lemma needed_bound: "L \<le> n \<Longrightarrow> needed R ws L \<subseteq> {..<n * (length ws * R)}"
  using cell_less by (fastforce simp: needed_def)

lemma needed_subset_iff:
  "needed R ws L \<subseteq> S \<longleftrightarrow>
     (\<forall>g < length ws. \<forall>j. window_start (ws ! g) L \<le> j \<and> j < L \<longrightarrow>
        (\<forall>r < R. cell R (length ws) j g r \<in> S))"
  by (auto simp: needed_def)

section \<open>The fold kernel\<close>

fun trailing :: "(nat \<Rightarrow> bool) \<Rightarrow> nat \<Rightarrow> nat" where
  "trailing P 0 = 0"
| "trailing P (Suc p) = (if P p then trailing P p + 1 else 0)"

lemma trailing_ge: "m \<le> trailing P p \<longleftrightarrow> m \<le> p \<and> (\<forall>j. p - m \<le> j \<and> j < p \<longrightarrow> P j)"
proof (induction p arbitrary: m)
  case (Suc p)
  show ?case
  proof (cases m)
    case (Suc k)
    have "(\<forall>j. p - k \<le> j \<and> j < Suc p \<longrightarrow> P j) \<longleftrightarrow> P p \<and> (\<forall>j. p - k \<le> j \<and> j < p \<longrightarrow> P j)"
      by (auto simp: less_Suc_eq)
    then show ?thesis using Suc.IH [of k] Suc by auto
  qed auto
qed auto

definition present_at :: "bitmap \<Rightarrow> nat \<Rightarrow> nat \<Rightarrow> nat \<Rightarrow> nat \<Rightarrow> bool" where
  "present_at found R stride g j = chunk_present found (j * stride + g * R) R"

lemma fold_chunk_step:
  "native_fold_chunk found stride (g * R) R w (trailing (present_at found R stride g) p, sv) (Suc p) =
     (trailing (present_at found R stride g) (Suc p),
      if sv ! p \<and> trailing (present_at found R stride g) (Suc p) < min w (Suc p)
      then sv[p := False] else sv)"
  by (simp add: native_fold_chunk_def Let_def present_at_def)

lemma fold_chunks:
  assumes "length sv = n" "p \<le> n"
  shows "foldl (native_fold_chunk found stride (g * R) R w) (0, sv) [1..<p + 1] =
    (trailing (present_at found R stride g) p,
     map (\<lambda>k. sv ! k \<and> (k < p \<longrightarrow> min w (k + 1) \<le> trailing (present_at found R stride g) (k + 1))) [0..<n])"
  using assms(2)
proof (induction p)
  case 0
  then show ?case using assms(1) by (auto intro: nth_equalityI)
next
  case (Suc p)
  let ?t = "trailing (present_at found R stride g)"
  let ?l = "\<lambda>p. map (\<lambda>k. sv ! k \<and> (k < p \<longrightarrow> min w (k + 1) \<le> ?t (k + 1))) [0..<n]"
  have "foldl (native_fold_chunk found stride (g * R) R w) (0, sv) [1..<Suc p + 1] =
      native_fold_chunk found stride (g * R) R w (?t p, ?l p) (Suc p)"
    using Suc by simp
  also have "\<dots> = (?t (Suc p), ?l (Suc p))"
  proof -
    have "(if ?l p ! p \<and> ?t (Suc p) < min w (Suc p) then (?l p)[p := False] else ?l p) = ?l (Suc p)"
      using Suc.prems by (intro nth_equalityI) (auto simp: nth_list_update less_Suc_eq)
    then show ?thesis unfolding fold_chunk_step by (rule arg_cong)
  qed
  finally show ?case by simp
qed

lemma fold_group:
  assumes "length sv = n" "k < n"
  shows "length (native_fold_group found n R stride sv (g, w)) = n"
    and "native_fold_group found n R stride sv (g, w) ! k \<longleftrightarrow> sv ! k \<and>
      (\<forall>j. window_start w (Suc k) \<le> j \<and> j < Suc k \<longrightarrow> present_at found R stride g j)"
proof -
  let ?w = "if w \<le> 0 then n else nat w"
  have eq: "native_fold_group found n R stride sv (g, w) =
      map (\<lambda>k. sv ! k \<and> (k < n \<longrightarrow> min ?w (k + 1) \<le> trailing (present_at found R stride g) (k + 1))) [0..<n]"
    using fold_chunks [OF assms(1), of n] by (simp add: native_fold_group_def Let_def)
  show "length (native_fold_group found n R stride sv (g, w)) = n" by (simp add: eq)
  have "Suc k - min ?w (Suc k) = window_start w (Suc k)"
    using assms(2) by (auto simp: window_start_def)
  then show "native_fold_group found n R stride sv (g, w) ! k \<longleftrightarrow> sv ! k \<and>
      (\<forall>j. window_start w (Suc k) \<le> j \<and> j < Suc k \<longrightarrow> present_at found R stride g j)"
    using assms(2) trailing_ge [of "min ?w (Suc k)" "present_at found R stride g" "Suc k"]
    by (simp add: eq del: trailing.simps)
qed

lemma fold_groups:
  assumes "length sv = n" "k < n"
  shows "length (foldl (native_fold_group found n R stride) sv gws) = n"
    and "foldl (native_fold_group found n R stride) sv gws ! k \<longleftrightarrow> sv ! k \<and>
      (\<forall>(g, w) \<in> set gws. \<forall>j. window_start w (Suc k) \<le> j \<and> j < Suc k \<longrightarrow> present_at found R stride g j)"
proof -
  have "length (foldl (native_fold_group found n R stride) sv gws) = n \<and>
     (foldl (native_fold_group found n R stride) sv gws ! k \<longleftrightarrow> sv ! k \<and>
      (\<forall>(g, w) \<in> set gws. \<forall>j. window_start w (Suc k) \<le> j \<and> j < Suc k \<longrightarrow> present_at found R stride g j))"
    using assms(1)
  proof (induction gws arbitrary: sv)
    case (Cons gw gws)
    obtain g w where gw: "gw = (g, w)" by fastforce
    note f = fold_group [OF Cons.prems assms(2), of found R stride g w]
    show ?case using Cons.IH [OF f(1)] f(2) by (auto simp: gw)
  qed simp
  then show "length (foldl (native_fold_group found n R stride) sv gws) = n"
    "foldl (native_fold_group found n R stride) sv gws ! k \<longleftrightarrow> sv ! k \<and>
      (\<forall>(g, w) \<in> set gws. \<forall>j. window_start w (Suc k) \<le> j \<and> j < Suc k \<longrightarrow> present_at found R stride g j)"
    by auto
qed

lemma collect_bits:
  assumes "bm_ok b" "set js \<subseteq> {..<bm_size b}"
  shows "bm_ok (foldl (\<lambda>b j. if P j then bm_set j b else b) b js) \<and>
    bm_size (foldl (\<lambda>b j. if P j then bm_set j b else b) b js) = bm_size b \<and>
    bits (foldl (\<lambda>b j. if P j then bm_set j b else b) b js) = bits b \<union> {j \<in> set js. P j}"
  using assms by (induction js arbitrary: b) auto

lemma native_fold_bits:
  "bm_ok (native_fold found n R ws)" "bm_size (native_fold found n R ws) = n"
  "bits (native_fold found n R ws) = {j. j < n \<and> needed R ws (Suc j) \<subseteq> bits found}"
proof -
  let ?stride = "length ws * R"
  define sv where "sv = foldl (native_fold_group found n R ?stride) (replicate n True) (enumerate 0 ws)"
  have sv: "sv ! k \<longleftrightarrow> needed R ws (Suc k) \<subseteq> bits found" if "k < n" for k
  proof -
    have "sv ! k \<longleftrightarrow> (\<forall>g < length ws. \<forall>j. window_start (ws ! g) (Suc k) \<le> j \<and> j < Suc k \<longrightarrow>
        present_at found R ?stride g j)"
      using fold_groups(2) [of "replicate n True" n k found R ?stride "enumerate 0 ws"] that
      by (force simp: sv_def in_set_enumerate_eq)
    then show ?thesis unfolding needed_subset_iff
      by (simp add: present_at_def chunk_present_def list_all_iff cell_def in_bits Ball_def)
  qed
  have nf: "native_fold found n R ws =
      foldl (\<lambda>b j. if sv ! j then bm_set j b else b) (new_bitmap n) [0..<n]"
    by (simp add: native_fold_def Let_def sv_def)
  have "set [0..<n] \<subseteq> {..<bm_size (new_bitmap n)}" by auto
  note c = collect_bits [OF bm_ok_simps(1) this, of "\<lambda>j. sv ! j"]
  show "bm_ok (native_fold found n R ws)" "bm_size (native_fold found n R ws) = n"
    "bits (native_fold found n R ws) = {j. j < n \<and> needed R ws (Suc j) \<subseteq> bits found}"
    using c sv by (auto simp: nf)
qed

section \<open>The unfold kernel\<close>

lemma set_cells:
  assumes "bm_ok b" "\<forall>j \<in> set js. j * stride + gbase + R \<le> bm_size b"
  shows "bm_ok (foldl (\<lambda>b j. let base = j * stride + gbase in set_range base (base + R) b) b js) \<and>
    bm_size (foldl (\<lambda>b j. let base = j * stride + gbase in set_range base (base + R) b) b js) = bm_size b \<and>
    bits (foldl (\<lambda>b j. let base = j * stride + gbase in set_range base (base + R) b) b js) =
      bits b \<union> {j * stride + gbase + r | j r. j \<in> set js \<and> r < R}"
  using assms
proof (induction js arbitrary: b)
  case (Cons j js)
  let ?b = "set_range (j * stride + gbase) (j * stride + gbase + R) b"
  have "bits ?b = bits b \<union> {j * stride + gbase + r | r. r < R}"
  proof -
    have "{a..<a + R} = {a + r | r. r < R}" for a :: nat
      by (auto intro: le_Suc_ex) (metis add_less_cancel_left le_Suc_ex)
    then show ?thesis using Cons.prems by (simp add: min_absorb1)
  qed
  then show ?case using Cons.IH [of ?b] Cons.prems by (auto simp: Let_def)
qed simp

lemma group_fit: "\<forall>(g, w) \<in> set (enumerate 0 ws). g * R + R \<le> length ws * R"
proof (clarsimp simp: in_set_enumerate_eq)
  fix g assume "g < length ws"
  then have "Suc g * R \<le> length ws * R" by (intro mult_le_mono1) simp
  then show "g * R + R \<le> length ws * R" by simp
qed

lemma cell_fit:
  assumes "g * R + R \<le> s" "j < h" "h \<le> n"
  shows "j * s + g * R + R \<le> (n :: nat) * s"
proof -
  have "j * s + (g * R + R) \<le> j * s + s" using assms(1) by simp
  also have "\<dots> = Suc j * s" by simp
  also have "\<dots> \<le> n * s" using assms(2,3) by (intro mult_le_mono1) simp
  finally show ?thesis by simp
qed

lemma unfold_groups:
  assumes "bm_ok b" "bm_size b = n * stride" "h \<le> n" "\<forall>(g, w) \<in> set gws. g * R + R \<le> stride"
  shows "bm_ok (foldl (native_unfold_group h R stride) b gws) \<and>
    bm_size (foldl (native_unfold_group h R stride) b gws) = n * stride \<and>
    bits (foldl (native_unfold_group h R stride) b gws) = bits b \<union>
      {j * stride + g * R + r | g w j r. (g, w) \<in> set gws \<and> window_start w h \<le> j \<and> j < h \<and> r < R}"
  using assms
proof (induction gws arbitrary: b)
  case (Cons gw gws)
  obtain g w where gw: "gw = (g, w)" by fastforce
  let ?b = "native_unfold_group h R stride b gw"
  have lo: "(if w > 0 \<and> h > nat w then h - nat w else 0) = window_start w h"
    by (auto simp: window_start_def)
  have fit: "j * stride + g * R + R \<le> bm_size b" if "j < h" for j
    using cell_fit [of g R stride j h n] Cons.prems that by (simp add: gw)
  have b: "?b = foldl (\<lambda>b j. let base = j * stride + g * R in set_range base (base + R) b) b
      [window_start w h..<h]"
    by (simp add: native_unfold_group_def gw Let_def lo)
  note c = set_cells [OF Cons.prems(1), of "[window_start w h..<h]" stride "g * R" R]
  have "bm_ok ?b \<and> bm_size ?b = n * stride \<and> bits ?b = bits b \<union>
      {j * stride + g * R + r | j r. window_start w h \<le> j \<and> j < h \<and> r < R}"
    using c fit Cons.prems(2) unfolding b by (simp add: conj_ac)
  then show ?case using Cons.IH [of ?b] Cons.prems(3,4) by (auto simp: gw)
qed simp

lemma native_unfold_bits:
  "bm_ok (native_unfold h n R ws)" "bm_size (native_unfold h n R ws) = n * (length ws * R)"
  "bits (native_unfold h n R ws) = needed R ws (min h n)"
proof -
  let ?s = "length ws * R" and ?h = "if h > n then n else h"
  have h: "?h = min h n" "?h \<le> n" by auto
  note fit = group_fit [where ws = ws and R = R]
  note u = unfold_groups [of "new_bitmap (n * ?s)" n ?s ?h "enumerate 0 ws" R, OF _ _ h(2) fit]
  have n: "needed R ws ?h = {j * ?s + g * R + r | g w j r.
      (g, w) \<in> set (enumerate 0 ws) \<and> window_start w ?h \<le> j \<and> j < ?h \<and> r < R}"
    unfolding needed_def cell_def by (force simp: in_set_enumerate_eq)
  have e: "native_unfold h n R ws = (if ?h = 0 then new_bitmap (n * ?s)
      else foldl (native_unfold_group ?h R ?s) (new_bitmap (n * ?s)) (enumerate 0 ws))"
    by (simp add: native_unfold_def Let_def)
  show "bm_ok (native_unfold h n R ws)" "bm_size (native_unfold h n R ws) = n * ?s"
    "bits (native_unfold h n R ws) = needed R ws (min h n)"
    using u n unfolding e h(1) [symmetric] by (auto split: if_splits)
qed

section \<open>The reference implementations\<close>

lemma fold_python_run:
  "foldl (fold_python_chunk found stride gbase R (int w)) (int run, sv) ps =
     map_prod int id (foldl (native_fold_chunk found stride gbase R w) (run, sv) ps)"
proof (induction ps arbitrary: run sv)
  case (Cons p ps)
  have "fold_python_chunk found stride gbase R (int w) (int run, sv) p =
      map_prod int id (native_fold_chunk found stride gbase R w (run, sv) p)"
    by (auto simp: fold_python_chunk_def native_fold_chunk_def Let_def chunk_present_def)
  then show ?case using Cons
    by (cases "native_fold_chunk found stride gbase R w (run, sv) p") simp
qed simp

lemma fold_python_native: "fold_python found n R ws = native_fold found n R ws"
proof -
  have "fold_python_group found n R stride = native_fold_group found n R stride" for stride
  proof (intro ext)
    fix sv and gw :: "nat \<times> int"
    obtain g w where gw: "gw = (g, w)" by fastforce
    have "(if w \<le> 0 then int n else w) = int (if w \<le> 0 then n else nat w)" by simp
    then show "fold_python_group found n R stride sv gw = native_fold_group found n R stride sv gw"
      using fold_python_run [of found stride "g * R" R "if w \<le> 0 then n else nat w" 0 sv "[1..<n + 1]"]
      by (simp add: fold_python_group_def native_fold_group_def gw Let_def)
  qed
  then show ?thesis by (simp add: fold_python_def native_fold_def Let_def)
qed

lemma set_each_rank:
  assumes "bm_ok b" "c + R \<le> bm_size b"
  shows "foldl (\<lambda>b r. bm_set (c + r) b) b [0..<R] = set_range c (c + R) b"
  using assms(2)
proof (induction R)
  case 0
  then show ?case by (simp add: set_range_def Let_def)
next
  case (Suc R)
  then have "foldl (\<lambda>b r. bm_set (c + r) b) b [0..<Suc R] = bm_set (c + R) (set_range c (c + R) b)"
    by simp
  also have "\<dots> = set_range c (c + Suc R) b"
    using assms(1) Suc.prems by (intro bitmap_eqI) auto
  finally show ?case .
qed

lemma unfold_python_group_native:
  assumes "bm_ok b" "0 < h" "\<forall>j < h. j * stride + g * R + R \<le> bm_size b"
  shows "unfold_python_group (int h) R stride b (g, w) = native_unfold_group h R stride b (g, w)"
proof -
  have r: "unfold_range (int h) w = (int (window_start w h), int h)"
    using assms(2) by (auto simp: unfold_range_def window_start_def max_def)
  have lo: "(if w > 0 \<and> h > nat w then h - nat w else 0) = window_start w h"
    by (auto simp: window_start_def)
  have "foldl (\<lambda>b j. let c = j * stride + g * R in foldl (\<lambda>b r. bm_set (c + r) b) b [0..<R]) b js =
      foldl (\<lambda>b j. let c = j * stride + g * R in set_range c (c + R) b) b js"
    if "\<forall>j \<in> set js. j < h" for js
    using that assms(1,3)
    by (induction js arbitrary: b) (auto simp: Let_def set_each_rank)
  from this [of "[window_start w h..<h]"] show ?thesis by (simp add: unfold_python_group_def native_unfold_group_def r lo Let_def)
qed

lemma unfold_python_native:
  "unfold_python h n R ws = native_unfold (nat h) n R ws"
proof (cases "h \<le> 0 \<or> n = 0")
  case True
  then show ?thesis by (auto simp: unfold_python_def native_unfold_def Let_def min_def)
next
  case False
  let ?s = "length ws * R" and ?h = "min (nat h) n"
  have h: "min h (int n) = int ?h" "0 < ?h" "?h \<le> n" using False by auto
  note fit = group_fit [where ws = ws and R = R]
  have "foldl (unfold_python_group (int ?h) R ?s) b gws = foldl (native_unfold_group ?h R ?s) b gws"
    if "bm_ok b" "bm_size b = n * ?s" "\<forall>(g, w) \<in> set gws. g * R + R \<le> ?s" for b gws
    using that
  proof (induction gws arbitrary: b)
    case (Cons gw gws)
    obtain g w where gw: "gw = (g, w)" by fastforce
    have le: "j * ?s + g * R + R \<le> bm_size b" if "j < ?h" for j
      using cell_fit [of g R ?s j ?h n] Cons.prems that h(3) by (simp add: gw)
    have "bm_ok (native_unfold_group ?h R ?s b gw) \<and> bm_size (native_unfold_group ?h R ?s b gw) = n * ?s"
      using unfold_groups [OF Cons.prems(1,2) h(3), of "[gw]" R] Cons.prems(3) by simp
    moreover have "unfold_python_group (int ?h) R ?s b gw = native_unfold_group ?h R ?s b gw"
      using unfold_python_group_native [OF Cons.prems(1) h(2), of ?s g R w] le by (simp add: gw)
    ultimately show ?case using Cons.IH [of "native_unfold_group ?h R ?s b gw"] Cons.prems(3) by simp
  qed simp
  from this [OF bm_ok_simps(1) _ fit, of "n * ?s"] show ?thesis
    using h False by (simp add: unfold_python_def native_unfold_def Let_def min_def)
qed

section \<open>The hit length\<close>

lemma fold_unfold_ranked_eq:
  assumes "0 < R" "ws \<noteq> []"
  shows "fold_unfold_ranked True found (int n) (int R) ws =
    (let hit = highest_set_bit (native_fold found n R ws) + 1
     in Inr (hit, native_unfold (nat hit) n R ws))"
  using assms
  by (simp add: fold_unfold_ranked_def bm_fold_def bm_unfold_def fold_checks_def Let_def)

lemma hit_length:
  obtains L where "highest_set_bit (native_fold found n R ws) + 1 = int L" "L \<le> n"
    "needed R ws L \<subseteq> bits found" "\<And>M. L < M \<Longrightarrow> M \<le> n \<Longrightarrow> \<not> needed R ws M \<subseteq> bits found"
proof -
  let ?f = "native_fold found n R ws"
  note f = native_fold_bits [of found n R ws]
  note m = highest_set_bit_Max [OF f(1)]
  define L where "L = (if bits ?f = {} then 0 else Suc (Max (bits ?f)))"
  have hit: "highest_set_bit ?f + 1 = int L" using m by (simp add: L_def)
  have top: "L = 0 \<or> L - 1 \<in> bits ?f" using Max_in [of "bits ?f"] by (auto simp: L_def)
  then have le: "L \<le> n" and sub: "needed R ws L \<subseteq> bits found" using f(3) by (cases L; auto)+
  have "\<not> needed R ws M \<subseteq> bits found" if "L < M" "M \<le> n" for M
  proof
    assume "needed R ws M \<subseteq> bits found"
    then have "M - 1 \<in> bits ?f" using that f(3) by auto
    then have "M - 1 \<le> Max (bits ?f)" "bits ?f \<noteq> {}" by auto
    then show False using that by (simp add: L_def)
  qed
  then show ?thesis using that hit le sub by blast
qed

text \<open>
  C16. The model-wide hit is the longest prefix that every object group can serve: the pipeline
  fold, highest set bit, unfold returns a length no greater than the number of chunks, the
  retained mask is exactly the set of positions that serving this length reads, all of them
  present, and some position is missing for every longer prefix.
\<close>
theorem fold_unfold_longest_servable:
  assumes "0 < R" "ws \<noteq> []"
  shows "\<exists>L retain. fold_unfold_ranked True found (int n) (int R) ws = Inr (int L, retain) \<and>
     L \<le> n \<and> bm_ok retain \<and> bm_size retain = n * (length ws * R) \<and>
     bits retain = needed R ws L \<and> bits retain \<subseteq> bits found \<and>
     (\<forall>M. L < M \<and> M \<le> n \<longrightarrow> \<not> needed R ws M \<subseteq> bits found)"
proof -
  obtain L where L: "highest_set_bit (native_fold found n R ws) + 1 = int L" "L \<le> n"
    "needed R ws L \<subseteq> bits found" "\<And>M. L < M \<Longrightarrow> M \<le> n \<Longrightarrow> \<not> needed R ws M \<subseteq> bits found"
    using hit_length [of found n R ws] by blast
  show ?thesis
    using L native_unfold_bits [of L n R ws] fold_unfold_ranked_eq [OF assms, of found n]
    by (simp add: Let_def min_def)
qed

theorem fold_unfold_longest_servable_witness:
  "\<exists>L retain. fold_unfold_ranked True (prefix_bitmap 8 5) (int 4) (int 1) [-1, 2] = Inr (int L, retain) \<and>
     L \<le> 4 \<and> bm_ok retain \<and> bm_size retain = 4 * (length [-1, 2 :: int] * 1) \<and>
     bits retain = needed 1 [-1, 2] L \<and> bits retain \<subseteq> bits (prefix_bitmap 8 5) \<and>
     (\<forall>M. L < M \<and> M \<le> 4 \<longrightarrow> \<not> needed 1 [-1, 2] M \<subseteq> bits (prefix_bitmap 8 5))"
  by (rule fold_unfold_longest_servable) simp_all

text \<open>
  C32. The native kernels compute what the pure-Python reference implementations compute, for
  every input: the fold run by run over the chunks, and the unfold that sets byte ranges against
  the one that sets one bit at a time.
\<close>
theorem kernels_match_reference:
  "fold_python found num_chunks num_ranks group_windows =
     native_fold found num_chunks num_ranks group_windows \<and>
   unfold_python hit_length num_chunks num_ranks group_windows =
     native_unfold (nat hit_length) num_chunks num_ranks group_windows"
  by (simp add: fold_python_native unfold_python_native)

section \<open>Full attention\<close>

lemma cell_surj:
  assumes "i < L * (G * R)" "0 < R"
  shows "\<exists>j g r. i = cell R G j g r \<and> j < L \<and> g < G \<and> r < R"
proof (intro exI conjI)
  let ?s = "G * R"
  have s: "0 < ?s" using assms by (cases "?s = 0") auto
  show "i = cell R G (i div ?s) (i mod ?s div R) (i mod ?s mod R)"
    by (simp only: cell_def add.assoc div_mult_mod_eq)
  show "i div ?s < L" using assms(1) by (simp add: less_mult_imp_div_less)
  show "i mod ?s div R < G" using s mod_less_divisor [OF s, of i] by (simp add: less_mult_imp_div_less)
  show "i mod ?s mod R < R" using assms(2) by simp
qed

lemma needed_full_attention:
  assumes "\<forall>w \<in> set ws. w \<le> 0" "0 < R"
  shows "needed R ws L = {..<L * (length ws * R)}"
proof
  show "needed R ws L \<subseteq> {..<L * (length ws * R)}" by (rule needed_bound) simp
  show "{..<L * (length ws * R)} \<subseteq> needed R ws L"
    using cell_surj [OF _ assms(2)] assms(1) unfolding needed_def window_start_def by fastforce
qed

lemma leading_ones_prefix:
  assumes "bm_ok b"
  shows "{..<m} \<subseteq> bits b \<longleftrightarrow> m \<le> clo b"
  using clo_leading [OF assms] by (auto simp: subset_iff) (meson leI)

text \<open>
  With full attention in every group the fold is the plain prefix rule: the hit is the
  number of whole chunks in the leading run of found keys, the retained mask is that run cut at
  a chunk boundary, and the hit agrees with the one the non-prefix policies report.
\<close>
lemma full_attention_is_leading_run:
  assumes "new_attn_window_desc ws world kinds = Inr desc" "ws \<noteq> []" "\<forall>w \<in> set ws. w \<le> 0"
    and "bm_ok found" "bm_size found = num_keys" "num_keys = n * (length ws * nat world)"
  shows "build_trim_mask True found num_keys PREFIX desc =
      (let L = clo found div (length ws * nat world)
       in Inr (int L, prefix_bitmap num_keys (L * (length ws * nat world)))) \<and>
    build_trim_mask True found num_keys SPARSE desc = Inr (int (clo found div (length ws * nat world)), found)"
proof -
  define R where "R = nat world"
  have w: "world = int R" "0 < R" and d: "num_chunks_in_sw desc = ws" "aw_world_size desc = world"
    using assms(1) by (auto simp: new_attn_window_desc_def R_def split: if_splits)
  let ?s = "length ws * R" and ?L = "clo found div (length ws * R)"
  have s: "0 < ?s" using w(2) assms(2) by simp
  have div: "int num_keys div (int (length ws) * world) = int n"
    using s assms(6) w(1) by (simp add: R_def [symmetric] zdiv_int [symmetric] flip: of_nat_mult)
  obtain L where L: "highest_set_bit (native_fold found n R ws) + 1 = int L" "L \<le> n"
    "needed R ws L \<subseteq> bits found" "\<And>M. L < M \<Longrightarrow> M \<le> n \<Longrightarrow> \<not> needed R ws M \<subseteq> bits found"
    using hit_length [of found n R ws] by blast
  note need = needed_full_attention [OF assms(3) w(2)] leading_ones_prefix [OF assms(4)]
  have "?L \<le> n" using clo_leading(1) [OF assms(4)] assms(5,6) s
    by (metis R_def div_le_mono div_mult_self_is_m)
  moreover have "?L * ?s \<le> clo found" by (rule div_times_less_eq_dividend)
  ultimately have "?L \<le> L" using L(4) [of ?L] by (auto simp: need not_less [symmetric])
  moreover have "L \<le> ?L" using L(3) s by (simp add: need less_eq_div_iff_mult_less_eq)
  ultimately have Leq: "L = ?L" by simp
  have "native_unfold L n R ws = prefix_bitmap num_keys (L * ?s)"
    using native_unfold_bits [of L n R ws] L(2) assms(6)
    by (intro bitmap_eqI) (auto simp: R_def [symmetric] need(1) min_def)
  moreover have "int (clo found) div (int (length ws) * int R) = int L"
    by (simp add: Leq zdiv_int)
  moreover have "fold_unfold_ranked True found (int n) (int R) ws = Inr (int L, native_unfold L n R ws)"
    using fold_unfold_ranked_eq [OF w(2) assms(2), of found n] L(1) by (simp add: Let_def)
  ultimately show ?thesis
    using s w d div unfolding R_def [symmetric] Leq [symmetric] Let_def
    by (simp add: build_trim_mask_def num_object_groups_def)
qed

section \<open>Merging and trimming plans\<close>

definition sized :: "nat \<Rightarrow> bitmap \<Rightarrow> bool" where
  "sized n b \<longleftrightarrow> bm_ok b \<and> bm_size b = n"

lemma sized_ops [simp]:
  "sized n (new_bitmap n)" "sized n (prefix_bitmap n p)"
  "sized n a \<Longrightarrow> sized n b \<Longrightarrow> sized n (bm_and a b)"
  "sized n a \<Longrightarrow> sized n b \<Longrightarrow> sized n (bm_or a b)"
  "sized n b \<Longrightarrow> sized n (bm_not b)" "sized n b \<Longrightarrow> sized n (bm_set i b)"
  by (auto simp: sized_def)

lemma sized_bits [bits_simps]:
  "sized n a \<Longrightarrow> sized n b \<Longrightarrow> bits (bm_and a b) = bits a \<inter> bits b"
  "sized n a \<Longrightarrow> sized n b \<Longrightarrow> bits (bm_or a b) = bits a \<union> bits b"
  "sized n b \<Longrightarrow> bits (bm_not b) = {..<n} - bits b"
  "sized n b \<Longrightarrow> popcount b = 0 \<longleftrightarrow> bits b = {}"
  by (auto simp: sized_def popcount_0_iff)

lemma merge_sized:
  "\<forall>b \<in> set bs. sized n b \<Longrightarrow> sized n (merge_bitmaps bs n) \<and>
     bits (merge_bitmaps bs n) = \<Union> (bits ` set bs)"
proof -
  have "\<forall>b \<in> set bs. sized n b \<Longrightarrow> sized n a \<Longrightarrow>
      sized n (foldl bm_or a bs) \<and> bits (foldl bm_or a bs) = bits a \<union> \<Union> (bits ` set bs)" for a
    by (induction bs arbitrary: a) (auto simp: bits_simps)
  then show "\<forall>b \<in> set bs. sized n b \<Longrightarrow> ?thesis" by (simp add: merge_bitmaps_def)
qed

lemma trim_plan_fold:
  assumes "dict_wf plan" "\<forall>(a, b) \<in> set plan. sized n b" "sized n keep"
  shows "trim_load_plan_with_mask plan keep =
    map (\<lambda>(a, b). (a, bm_and b keep)) (filter (\<lambda>(a, b). bits b \<inter> bits keep \<noteq> {}) plan)"
proof -
  let ?f = "\<lambda>trimmed (a, b). let c = bm_and b keep in
      if popcount c = 0 then trimmed else dict_set a c trimmed"
  have "foldl ?f d xs = d @ map (\<lambda>(a, b). (a, bm_and b keep))
      (filter (\<lambda>(a, b). bits b \<inter> bits keep \<noteq> {}) xs)"
    if "distinct (map fst xs)" "fst ` set d \<inter> fst ` set xs = {}" "\<forall>(a, b) \<in> set xs. sized n b" for d xs
    using that
  proof (induction xs arbitrary: d)
    case (Cons x xs)
    obtain a b where x: "x = (a, b)" by fastforce
    have b: "sized n b" using Cons.prems x by auto
    have "a \<notin> fst ` set d" using Cons.prems x by auto
    then have "dict_set a c d = d @ [(a, c)]" for c by (rule dict_set_new)
    moreover have "popcount (bm_and b keep) = 0 \<longleftrightarrow> bits b \<inter> bits keep = {}"
      using b assms(3) sized_bits(4) [OF sized_ops(3) [OF b assms(3)]] by (simp add: sized_bits)
    ultimately show ?case using Cons.IH Cons.prems by (auto simp: x Let_def)
  qed simp
  from this [of plan "[]"] show ?thesis
    using assms(1,2) by (simp add: trim_load_plan_with_mask_def dict_wf_def)
qed

end
