(* ===== verification/L2_Adapter.thy ===== *)
theory L2_Adapter
  imports Eviction_Controller Prefix_Fold
begin

text \<open>
  The second tier: \<^verbatim>\<open>lmcache/v1/distributed/l2_adapters/base.py\<close>, the accounting and the
  notifications that \<open>L2AdapterInterface\<close> gives every adapter, \<open>L2StoreResult\<close> of
  \<^verbatim>\<open>lmcache/v1/distributed/internal_api.py\<close>, and the adapter
  \<^verbatim>\<open>lmcache/v1/distributed/l2_adapters/mock_l2_adapter.py\<close>.

  The abstract methods of the interface are the record \<open>l2_ops\<close> of operations on an adapter
  state. What their documentation promises is stated as two locales, one for the store side
  (a task id is fresh, a completion is popped once) and one for the read side (the result of a
  lookup or a load is returned once and has one bit per key; a lookup locks the keys it
  reports and \<open>submit_unlock\<close> returns locks). \<open>MockL2Adapter\<close> is an interpretation of both.

  The event loop of \<open>MockL2Adapter\<close> is a list of scheduled jobs and one of sleeping coroutines;
  any of them may run next, because a coroutine and a callback reach the loop through different
  numbers of hops. The simulated bandwidth only delays a completion and is not modelled. The
  bytes of the buffers are not modelled; a stored object is its size, and a load is given one
  buffer per key.
\<close>

section \<open>Store results\<close>

definition new_store_result :: "bool \<Rightarrow> int \<Rightarrow> int result" where
  "new_store_result success bytes =
     (if bytes < 0 then Inl ValueError else Inr (if success then bytes else -1))"

definition is_successful :: "int \<Rightarrow> bool" where
  "is_successful r \<longleftrightarrow> r \<ge> 0"

definition bytes_transferred :: "int \<Rightarrow> int" where
  "bytes_transferred r = (if r \<ge> 0 then r else 0)"

section \<open>The base class\<close>

datatype l2_event =
    L2_KEYS_STORED "object_key list" "int list" string bool
  | L2_KEYS_ACCESSED "object_key list" string bool
  | L2_KEYS_DELETED "object_key list" string bool

record l2_base =
  lb_listeners :: "l2_note list list"
  lb_backend_name :: string
  lb_shared :: bool
  lb_events :: "l2_event list"
  lb_max_capacity_bytes :: int
  lb_total_bytes_used :: int
  lb_bytes_by_cache_salt :: "(string, int) pydict"

definition lb_init :: "int \<Rightarrow> l2_base" where
  "lb_init max_capacity_bytes =
     \<lparr>lb_listeners = [], lb_backend_name = [], lb_shared = False, lb_events = [],
      lb_max_capacity_bytes = max_capacity_bytes, lb_total_bytes_used = 0,
      lb_bytes_by_cache_salt = []\<rparr>"

definition lb_register_listener :: "l2_base \<Rightarrow> l2_base" where
  "lb_register_listener b = b\<lparr>lb_listeners := lb_listeners b @ [[]]\<rparr>"

definition set_backend_identity :: "string \<Rightarrow> bool \<Rightarrow> l2_base \<Rightarrow> l2_base result" where
  "set_backend_identity name shared b =
     (if name = [] then Inl ValueError
      else Inr (b\<lparr>lb_backend_name := name, lb_shared := shared\<rparr>))"

definition lb_notify :: "l2_note \<Rightarrow> l2_event \<Rightarrow> l2_base \<Rightarrow> l2_base" where
  "lb_notify note ev b =
     b\<lparr>lb_listeners := map (\<lambda>inbox. inbox @ [note]) (lb_listeners b), lb_events := lb_events b @ [ev]\<rparr>"

definition salt_delta :: "(object_key \<times> int) list \<Rightarrow> (string, int) pydict" where
  "salt_delta items =
     foldl (\<lambda>d (key, sz). dict_set (cache_salt key) (dict_get_default d (cache_salt key) 0 + sz) d) [] items"

text \<open>\<open>zip(keys, sizes, strict=True)\<close> raises before anything is changed.\<close>

definition notify_keys_stored :: "object_key list \<Rightarrow> int list \<Rightarrow> l2_base \<Rightarrow> l2_base result" where
  "notify_keys_stored keys sizes b =
     (if length keys \<noteq> length sizes then Inl ValueError
      else
        let delta = salt_delta (zip keys sizes);
            b' = b\<lparr>lb_total_bytes_used := lb_total_bytes_used b + sum_list sizes,
                   lb_bytes_by_cache_salt :=
                     foldl (\<lambda>d (salt, n). dict_set salt (dict_get_default d salt 0 + n) d)
                       (lb_bytes_by_cache_salt b) delta\<rparr>
        in Inr (lb_notify (L2_Keys_Stored keys sizes)
                  (L2_KEYS_STORED keys sizes (lb_backend_name b) (lb_shared b)) b'))"

definition notify_keys_accessed :: "object_key list \<Rightarrow> l2_base \<Rightarrow> l2_base" where
  "notify_keys_accessed keys b =
     lb_notify (L2_Keys_Accessed keys) (L2_KEYS_ACCESSED keys (lb_backend_name b) (lb_shared b)) b"

definition notify_keys_deleted :: "object_key list \<Rightarrow> int list \<Rightarrow> l2_base \<Rightarrow> l2_base result" where
  "notify_keys_deleted keys sizes b =
     (if length keys \<noteq> length sizes then Inl ValueError
      else
        let delta = salt_delta (zip keys sizes);
            tot = lb_total_bytes_used b - sum_list sizes;
            b' = b\<lparr>lb_total_bytes_used := (if tot < 0 then 0 else tot),
                   lb_bytes_by_cache_salt :=
                     foldl (\<lambda>d (salt, n). let new_total = dict_get_default d salt 0 - n in
                              if new_total \<le> 0 then dict_del salt d else dict_set salt new_total d)
                       (lb_bytes_by_cache_salt b) delta\<rparr>
        in Inr (lb_notify (L2_Keys_Deleted keys)
                  (L2_KEYS_DELETED keys (lb_backend_name b) (lb_shared b)) b'))"

definition supports_global_eviction :: "l2_base \<Rightarrow> bool" where
  "supports_global_eviction b \<longleftrightarrow> lb_max_capacity_bytes b > 0"

definition get_usage :: "l2_base \<Rightarrow> adapter_usage" where
  "get_usage b =
     \<lparr>au_total_bytes_used = lb_total_bytes_used b,
      au_total_capacity_bytes = lb_max_capacity_bytes b,
      au_bytes_by_cache_salt = filter (\<lambda>(k, v). v > 0) (lb_bytes_by_cache_salt b)\<rparr>"

section \<open>The abstract operations\<close>

record 'a l2_ops =
  store_fd :: "'a \<Rightarrow> int"
  lookup_fd :: "'a \<Rightarrow> int"
  load_fd :: "'a \<Rightarrow> int"
  submit_store_task :: "object_key list \<Rightarrow> mem_obj list \<Rightarrow> 'a \<Rightarrow> 'a \<times> int"
  pop_completed_store_tasks :: "'a \<Rightarrow> 'a \<times> (int, int) pydict"
  submit_lookup_and_lock_task :: "object_key list \<Rightarrow> (int, memory_layout) pydict \<Rightarrow> 'a \<Rightarrow> 'a \<times> int"
  query_lookup_and_lock_result :: "int \<Rightarrow> 'a \<Rightarrow> 'a \<times> bitmap option"
  submit_unlock :: "object_key list \<Rightarrow> 'a \<Rightarrow> 'a"
  submit_load_task :: "object_key list \<Rightarrow> mem_obj list \<Rightarrow> 'a \<Rightarrow> 'a \<times> int"
  query_load_result :: "int \<Rightarrow> 'a \<Rightarrow> 'a \<times> bitmap option"

section \<open>The mock adapter\<close>

datatype mock_job =
    Job_Store "object_key list" "mem_obj list" int
  | Job_Lookup "object_key list" int
  | Job_Unlock "object_key list"
  | Job_Load "object_key list" "mem_obj list" int

datatype mock_sleeper =
    Sleep_Store int bool int "object_key list" "int list"
  | Sleep_Load int bitmap "object_key list"

record mock_adapter =
  ma_base :: l2_base
  ma_fds :: "int \<times> int \<times> int"
  ma_memory_objects :: "(object_key, int) pydict"
  ma_locked_keys :: "(object_key, int) pydict"
  ma_current_size_bytes :: int
  ma_next_task_id :: int
  ma_completed_store_tasks :: "(int, int) pydict"
  ma_completed_lookup_tasks :: "(int, bitmap) pydict"
  ma_completed_load_tasks :: "(int, bitmap) pydict"
  ma_jobs :: "mock_job list"
  ma_sleepers :: "mock_sleeper list"

definition ma_init :: "int \<Rightarrow> int \<times> int \<times> int \<Rightarrow> mock_adapter" where
  "ma_init max_capacity_bytes fds =
     \<lparr>ma_base = lb_init max_capacity_bytes, ma_fds = fds, ma_memory_objects = [],
      ma_locked_keys = [], ma_current_size_bytes = 0, ma_next_task_id = 0,
      ma_completed_store_tasks = [], ma_completed_lookup_tasks = [],
      ma_completed_load_tasks = [], ma_jobs = [], ma_sleepers = []\<rparr>"

definition get_next_task_id :: "mock_adapter \<Rightarrow> mock_adapter \<times> int" where
  "get_next_task_id a = (a\<lparr>ma_next_task_id := ma_next_task_id a + 1\<rparr>, ma_next_task_id a)"

definition schedule :: "mock_job \<Rightarrow> mock_adapter \<Rightarrow> mock_adapter" where
  "schedule j a = a\<lparr>ma_jobs := ma_jobs a @ [j]\<rparr>"

definition ma_submit_store_task :: "object_key list \<Rightarrow> mem_obj list \<Rightarrow> mock_adapter \<Rightarrow> mock_adapter \<times> int" where
  "ma_submit_store_task keys objs a =
     (let (a', task_id) = get_next_task_id a in (schedule (Job_Store keys objs task_id) a', task_id))"

definition ma_pop_completed_store_tasks :: "mock_adapter \<Rightarrow> mock_adapter \<times> (int, int) pydict" where
  "ma_pop_completed_store_tasks a =
     (a\<lparr>ma_completed_store_tasks := []\<rparr>, ma_completed_store_tasks a)"

definition ma_submit_lookup_and_lock_task ::
  "object_key list \<Rightarrow> (int, memory_layout) pydict \<Rightarrow> mock_adapter \<Rightarrow> mock_adapter \<times> int" where
  "ma_submit_lookup_and_lock_task keys descs a =
     (let (a', task_id) = get_next_task_id a in (schedule (Job_Lookup keys task_id) a', task_id))"

definition ma_query_lookup_and_lock_result :: "int \<Rightarrow> mock_adapter \<Rightarrow> mock_adapter \<times> bitmap option" where
  "ma_query_lookup_and_lock_result task_id a =
     (a\<lparr>ma_completed_lookup_tasks := dict_del task_id (ma_completed_lookup_tasks a)\<rparr>,
      dict_get (ma_completed_lookup_tasks a) task_id)"

definition ma_submit_unlock :: "object_key list \<Rightarrow> mock_adapter \<Rightarrow> mock_adapter" where
  "ma_submit_unlock keys a = schedule (Job_Unlock keys) a"

definition ma_submit_load_task :: "object_key list \<Rightarrow> mem_obj list \<Rightarrow> mock_adapter \<Rightarrow> mock_adapter \<times> int" where
  "ma_submit_load_task keys objs a =
     (let (a', task_id) = get_next_task_id a in (schedule (Job_Load keys objs task_id) a', task_id))"

definition ma_query_load_result :: "int \<Rightarrow> mock_adapter \<Rightarrow> mock_adapter \<times> bitmap option" where
  "ma_query_load_result task_id a =
     (a\<lparr>ma_completed_load_tasks := dict_del task_id (ma_completed_load_tasks a)\<rparr>,
      dict_get (ma_completed_load_tasks a) task_id)"

definition mock_ops :: "mock_adapter l2_ops" where
  "mock_ops =
     \<lparr>store_fd = (\<lambda>a. fst (ma_fds a)), lookup_fd = (\<lambda>a. fst (snd (ma_fds a))),
      load_fd = (\<lambda>a. snd (snd (ma_fds a))),
      submit_store_task = ma_submit_store_task,
      pop_completed_store_tasks = ma_pop_completed_store_tasks,
      submit_lookup_and_lock_task = ma_submit_lookup_and_lock_task,
      query_lookup_and_lock_result = ma_query_lookup_and_lock_result,
      submit_unlock = ma_submit_unlock,
      submit_load_task = ma_submit_load_task,
      query_load_result = ma_query_load_result\<rparr>"

subsection \<open>The event loop\<close>

definition unlock_key :: "(object_key, int) pydict \<Rightarrow> object_key \<Rightarrow> (object_key, int) pydict" where
  "unlock_key locked key =
     (case dict_get locked key of
        None \<Rightarrow> locked
      | Some n \<Rightarrow> if n \<le> 1 then dict_del key locked else dict_set key (n - 1) locked)"

text \<open>The loop of the store coroutine: objects, size, bytes, stored keys and their sizes.\<close>

fun store_one ::
  "int \<Rightarrow> (object_key, int) pydict \<times> int \<times> int \<times> object_key list \<times> int list \<Rightarrow> object_key \<times> mem_obj
     \<Rightarrow> (object_key, int) pydict \<times> int \<times> int \<times> object_key list \<times> int list" where
  "store_one cap (objs, cur, tot, ks, szs) (key, obj) =
     (let obj_size = get_size obj in
      if obj_size > cap then (objs, cur, tot, ks, szs)
      else if key \<in> dict_dom objs then (objs, cur, tot, ks, szs)
      else if cur + obj_size > cap then (objs, cur, tot, ks, szs)
      else (dict_set key obj_size objs, cur + obj_size, tot + obj_size, ks @ [key], szs @ [obj_size]))"

definition execute_store_in_the_loop ::
  "object_key list \<Rightarrow> mem_obj list \<Rightarrow> int \<Rightarrow> mock_adapter \<Rightarrow> mock_adapter" where
  "execute_store_in_the_loop keys objects task_id a =
     (let (objs, cur, tot, ks, szs) =
            foldl (store_one (lb_max_capacity_bytes (ma_base a)))
              (ma_memory_objects a, ma_current_size_bytes a, 0, [], []) (zip keys objects)
      in a\<lparr>ma_memory_objects := objs, ma_current_size_bytes := cur,
           ma_sleepers := ma_sleepers a @
             [Sleep_Store task_id (length keys = length objects) tot ks szs]\<rparr>)"

text \<open>A coroutine that raises keeps what it has written.\<close>

definition finish_store_in_the_loop ::
  "int \<Rightarrow> bool \<Rightarrow> int \<Rightarrow> object_key list \<Rightarrow> int list \<Rightarrow> mock_adapter \<Rightarrow> mock_adapter \<times> unit result" where
  "finish_store_in_the_loop task_id success total_bytes ks szs a =
     (case new_store_result success total_bytes of
        Inl e \<Rightarrow> (a, Inl e)
      | Inr r \<Rightarrow>
          let a1 = a\<lparr>ma_completed_store_tasks := dict_set task_id r (ma_completed_store_tasks a)\<rparr> in
          if ks = [] then (a1, Inr ())
          else case notify_keys_stored ks szs (ma_base a1) of
            Inl e \<Rightarrow> (a1, Inl e)
          | Inr b \<Rightarrow> (a1\<lparr>ma_base := b\<rparr>, Inr ()))"

definition lookup_one ::
  "(object_key, int) pydict \<Rightarrow> bitmap \<times> (object_key, int) pydict \<Rightarrow> nat \<times> object_key
     \<Rightarrow> bitmap \<times> (object_key, int) pydict" where
  "lookup_one objs = (\<lambda>(bm, locked) (i, key).
     if key \<notin> dict_dom objs then (bm, locked)
     else (bm_set i bm, dict_set key (dict_get_default locked key 0 + 1) locked))"

definition execute_lookup_in_the_loop :: "object_key list \<Rightarrow> int \<Rightarrow> mock_adapter \<Rightarrow> mock_adapter" where
  "execute_lookup_in_the_loop keys task_id a =
     (let (bm, locked) = foldl (lookup_one (ma_memory_objects a))
            (new_bitmap (length keys), ma_locked_keys a) (enumerate 0 keys)
      in a\<lparr>ma_locked_keys := locked,
           ma_completed_lookup_tasks := dict_set task_id bm (ma_completed_lookup_tasks a)\<rparr>)"

definition execute_load_in_loop :: "object_key list \<Rightarrow> mem_obj list \<Rightarrow> int \<Rightarrow> mock_adapter \<Rightarrow> mock_adapter" where
  "execute_load_in_loop keys objects task_id a =
     (let (bm, accessed) = foldl (\<lambda>(bm, acc) (i, key).
              if key \<notin> dict_dom (ma_memory_objects a) then (bm, acc) else (bm_set i bm, acc @ [key]))
            (new_bitmap (length keys), []) (enumerate 0 keys)
      in a\<lparr>ma_sleepers := ma_sleepers a @ [Sleep_Load task_id bm accessed]\<rparr>)"

definition finish_load_in_loop :: "int \<Rightarrow> bitmap \<Rightarrow> object_key list \<Rightarrow> mock_adapter \<Rightarrow> mock_adapter" where
  "finish_load_in_loop task_id bm accessed a =
     (let a1 = (if accessed = [] then a else a\<lparr>ma_base := notify_keys_accessed accessed (ma_base a)\<rparr>)
      in a1\<lparr>ma_completed_load_tasks := dict_set task_id bm (ma_completed_load_tasks a1)\<rparr>)"

fun run_job :: "mock_job \<Rightarrow> mock_adapter \<Rightarrow> mock_adapter" where
  "run_job (Job_Store keys objs t) a = execute_store_in_the_loop keys objs t a"
| "run_job (Job_Lookup keys t) a = execute_lookup_in_the_loop keys t a"
| "run_job (Job_Unlock keys) a = a\<lparr>ma_locked_keys := foldl unlock_key (ma_locked_keys a) keys\<rparr>"
| "run_job (Job_Load keys objs t) a = execute_load_in_loop keys objs t a"

fun wake :: "mock_sleeper \<Rightarrow> mock_adapter \<Rightarrow> mock_adapter \<times> unit result" where
  "wake (Sleep_Store t success tot ks szs) a = finish_store_in_the_loop t success tot ks szs a"
| "wake (Sleep_Load t bm accessed) a = (finish_load_in_loop t bm accessed a, Inr ())"

definition delete_one ::
  "(object_key, int) pydict \<times> int \<times> object_key list \<times> int list \<Rightarrow> object_key
     \<Rightarrow> (object_key, int) pydict \<times> int \<times> object_key list \<times> int list" where
  "delete_one = (\<lambda>(objs, cur, ks, szs) key.
     case dict_get objs key of
       None \<Rightarrow> (objs, cur, ks, szs)
     | Some sz \<Rightarrow> (dict_del key objs, cur - sz, ks @ [key], szs @ [sz]))"

definition ma_delete :: "object_key list \<Rightarrow> mock_adapter \<Rightarrow> mock_adapter result" where
  "ma_delete keys a =
     (let (objs, cur, ks, szs) =
            foldl delete_one (ma_memory_objects a, ma_current_size_bytes a, [], []) keys;
          a1 = a\<lparr>ma_memory_objects := objs, ma_current_size_bytes := cur\<rparr>
      in if ks = [] then Inr a1
         else case notify_keys_deleted ks szs (ma_base a1) of
           Inl e \<Rightarrow> Inl e
         | Inr b \<Rightarrow> Inr (a1\<lparr>ma_base := b\<rparr>))"

text \<open>What the adapter does on its own: it runs a scheduled job or wakes a sleeping coroutine.\<close>

definition drop_nth :: "nat \<Rightarrow> 'a list \<Rightarrow> 'a list" where
  "drop_nth i xs = take i xs @ drop (Suc i) xs"

inductive mock_loop :: "mock_adapter \<Rightarrow> mock_adapter \<Rightarrow> bool" where
  job: "i < length (ma_jobs a) \<Longrightarrow>
    mock_loop a (run_job (ma_jobs a ! i) (a\<lparr>ma_jobs := drop_nth i (ma_jobs a)\<rparr>))"
| wakeup: "i < length (ma_sleepers a) \<Longrightarrow>
    mock_loop a (fst (wake (ma_sleepers a ! i) (a\<lparr>ma_sleepers := drop_nth i (ma_sleepers a)\<rparr>)))"

text \<open>What the store controller sees of its adapter apart from its own calls, and the same for
  the prefetch controller.\<close>

inductive mock_env_store :: "mock_adapter \<Rightarrow> mock_adapter \<Rightarrow> bool" where
  es_loop: "mock_loop a a' \<Longrightarrow> mock_env_store a a'"
| es_lookup: "mock_env_store a (fst (ma_submit_lookup_and_lock_task keys descs a))"
| es_query_lookup: "mock_env_store a (fst (ma_query_lookup_and_lock_result t a))"
| es_unlock: "mock_env_store a (ma_submit_unlock keys a)"
| es_load: "mock_env_store a (fst (ma_submit_load_task keys objs a))"
| es_query_load: "mock_env_store a (fst (ma_query_load_result t a))"
| es_delete: "ma_delete keys a = Inr a' \<Longrightarrow> mock_env_store a a'"

inductive mock_env_read :: "mock_adapter \<Rightarrow> mock_adapter \<Rightarrow> bool" where
  er_loop: "mock_loop a a' \<Longrightarrow> mock_env_read a a'"
| er_store: "mock_env_read a (fst (ma_submit_store_task keys objs a))"
| er_pop: "mock_env_read a (fst (ma_pop_completed_store_tasks a))"
| er_delete: "ma_delete keys a = Inr a' \<Longrightarrow> mock_env_read a a'"

section \<open>The contract of the store side\<close>

text \<open>
  \<open>store_ok a S U\<close>: the store tasks of adapter \<open>a\<close> whose completion its client has not popped
  are among \<open>S\<close>, and \<open>U\<close> are ids, \<open>S\<close> among them, that are not given out again.
\<close>

locale l2_store_contract =
  fixes ops :: "'a l2_ops" and env :: "'a \<Rightarrow> 'a \<Rightarrow> bool" and store_ok :: "'a \<Rightarrow> int set \<Rightarrow> int set \<Rightarrow> bool"
  assumes submit_store: "store_ok a S U \<Longrightarrow> submit_store_task ops keys objs a = (a', t) \<Longrightarrow>
      t \<notin> U \<and> store_ok a' (insert t S) (insert t U) \<and> store_fd ops a' = store_fd ops a"
    and pop_completed: "store_ok a S U \<Longrightarrow> pop_completed_store_tasks ops a = (a', done) \<Longrightarrow>
      dict_wf done \<and> dict_dom done \<subseteq> S \<and> store_ok a' (S - dict_dom done) U \<and> store_fd ops a' = store_fd ops a"
    and forget_ids: "store_ok a S U \<Longrightarrow> S \<subseteq> V \<Longrightarrow> V \<subseteq> U \<Longrightarrow> store_ok a S V"
    and store_env: "store_ok a S U \<Longrightarrow> env a a' \<Longrightarrow> store_ok a' S U \<and> store_fd ops a' = store_fd ops a"

section \<open>The contract of the read side\<close>

text \<open>
  \<open>read_ok a LK LD L\<close>: \<open>LK\<close> and \<open>LD\<close> are the lookups and loads whose result the client has not
  received, with their keys, and \<open>L\<close> are the locks the client holds: the keys reported by
  the lookups it has received, less those it has given back.
\<close>

locale l2_read_contract =
  fixes ops :: "'a l2_ops" and env :: "'a \<Rightarrow> 'a \<Rightarrow> bool"
    and read_ok :: "'a \<Rightarrow> (int \<rightharpoonup> object_key list) \<Rightarrow> (int \<rightharpoonup> object_key list) \<Rightarrow> object_key multiset \<Rightarrow> bool"
  assumes submit_lookup: "read_ok a LK LD L \<Longrightarrow> submit_lookup_and_lock_task ops keys descs a = (a', t) \<Longrightarrow>
      LK t = None \<and> LD t = None \<and> read_ok a' (LK(t \<mapsto> keys)) LD L \<and> lookup_fd ops a' = lookup_fd ops a \<and> load_fd ops a' = load_fd ops a"
    and query_lookup_None: "read_ok a LK LD L \<Longrightarrow> query_lookup_and_lock_result ops t a = (a', None) \<Longrightarrow>
      read_ok a' LK LD L \<and> lookup_fd ops a' = lookup_fd ops a \<and> load_fd ops a' = load_fd ops a"
    and query_lookup_Some: "read_ok a LK LD L \<Longrightarrow> query_lookup_and_lock_result ops t a = (a', Some bm) \<Longrightarrow>
      LK t = Some keys \<Longrightarrow> sized (length keys) bm \<and>
      read_ok a' (LK(t := None)) LD (L + mset (gather bm keys)) \<and> lookup_fd ops a' = lookup_fd ops a \<and> load_fd ops a' = load_fd ops a"
    and unlock_keys: "read_ok a LK LD L \<Longrightarrow> mset keys \<subseteq># L \<Longrightarrow>
      read_ok (submit_unlock ops keys a) LK LD (L - mset keys) \<and>
      lookup_fd ops (submit_unlock ops keys a) = lookup_fd ops a \<and> load_fd ops (submit_unlock ops keys a) = load_fd ops a"
    and submit_load: "read_ok a LK LD L \<Longrightarrow> submit_load_task ops keys objs a = (a', t) \<Longrightarrow>
      LK t = None \<and> LD t = None \<and> read_ok a' LK (LD(t \<mapsto> keys)) L \<and> lookup_fd ops a' = lookup_fd ops a \<and> load_fd ops a' = load_fd ops a"
    and query_load_None: "read_ok a LK LD L \<Longrightarrow> query_load_result ops t a = (a', None) \<Longrightarrow>
      read_ok a' LK LD L \<and> lookup_fd ops a' = lookup_fd ops a \<and> load_fd ops a' = load_fd ops a"
    and query_load_Some: "read_ok a LK LD L \<Longrightarrow> query_load_result ops t a = (a', Some bm) \<Longrightarrow>
      LD t = Some keys \<Longrightarrow> sized (length keys) bm \<and>
      read_ok a' LK (LD(t := None)) L \<and> lookup_fd ops a' = lookup_fd ops a \<and> load_fd ops a' = load_fd ops a"
    and read_env: "read_ok a LK LD L \<Longrightarrow> env a a' \<Longrightarrow>
      read_ok a' LK LD L \<and> lookup_fd ops a' = lookup_fd ops a \<and> load_fd ops a' = load_fd ops a"

section \<open>The mock adapter keeps the store contract\<close>

fun job_store_id :: "mock_job \<Rightarrow> int list" where
  "job_store_id (Job_Store _ _ t) = [t]"
| "job_store_id _ = []"

fun sleeper_store_id :: "mock_sleeper \<Rightarrow> int list" where
  "sleeper_store_id (Sleep_Store t _ _ _ _) = [t]"
| "sleeper_store_id _ = []"

definition store_ids :: "mock_adapter \<Rightarrow> int list" where
  "store_ids a = concat (map job_store_id (ma_jobs a)) @
     concat (map sleeper_store_id (ma_sleepers a)) @ map fst (ma_completed_store_tasks a)"

definition mock_store_ok :: "mock_adapter \<Rightarrow> int set \<Rightarrow> int set \<Rightarrow> bool" where
  "mock_store_ok a S U \<longleftrightarrow> distinct (store_ids a) \<and> set (store_ids a) \<subseteq> S \<and> S \<subseteq> U \<and>
     (\<forall>t \<in> U. t < ma_next_task_id a)"

lemma mset_drop_nth:
  "i < length xs \<Longrightarrow> mset xs = add_mset (xs ! i) (mset (drop_nth i xs))"
  by (metis drop_nth_def id_take_nth_drop mset.simps(2) mset_append union_mset_add_mset_right)

lemma mset_concat_drop_nth:
  assumes "i < length xs"
  shows "mset (concat (map f xs)) = mset (f (xs ! i)) + mset (concat (map f (drop_nth i xs)))"
proof -
  have "concat (map f xs) = concat (map f (take i xs @ xs ! i # drop (Suc i) xs))"
    using id_take_nth_drop [OF assms] by simp
  then show ?thesis by (simp add: drop_nth_def)
qed

lemma set_drop_nth: "i < length xs \<Longrightarrow> set xs = insert (xs ! i) (set (drop_nth i xs))"
  using mset_drop_nth [of i xs] by (metis set_mset_add_mset_insert set_mset_mset)

lemma distinct_count: "distinct xs \<longleftrightarrow> (\<forall>a. count (mset xs) a \<le> 1)"
proof
  assume "\<forall>a. count (mset xs) a \<le> 1"
  moreover have "count (mset xs) a \<ge> 1" if "a \<in> set xs" for a
    using that by (simp add: Suc_leI count_greater_zero_iff)
  ultimately show "distinct xs"
    unfolding distinct_count_atmost_1 by (auto intro: antisym simp: count_eq_zero_iff)
qed (simp add: distinct_count_atmost_1)

lemma distinct_sub: "mset xs \<subseteq># mset ys \<Longrightarrow> distinct ys \<Longrightarrow> distinct xs"
  unfolding distinct_count by (meson le_trans mset_subset_eq_count)

lemma set_sub: "mset xs \<subseteq># mset ys \<Longrightarrow> set xs \<subseteq> set ys"
  by (metis set_mset_mono set_mset_mset)

lemma mock_store_okI:
  assumes "mock_store_ok a S U" "mset (store_ids a') \<subseteq># mset (store_ids a)"
    "ma_next_task_id a \<le> ma_next_task_id a'"
  shows "mock_store_ok a' S U"
  using assms distinct_sub [OF assms(2)] set_sub [OF assms(2)]
  unfolding mock_store_ok_def by fastforce

lemma store_ids_run_job:
  assumes "i < length (ma_jobs a)"
  shows "mset (store_ids (run_job (ma_jobs a ! i) (a\<lparr>ma_jobs := drop_nth i (ma_jobs a)\<rparr>))) = mset (store_ids a)"
proof -
  note m = mset_concat_drop_nth [OF assms, of job_store_id]
  show ?thesis
    by (cases "ma_jobs a ! i")
       (use m in \<open>auto simp: store_ids_def execute_store_in_the_loop_def execute_lookup_in_the_loop_def
          execute_load_in_loop_def split: prod.splits\<close>)
qed

lemma store_ids_wake:
  assumes "i < length (ma_sleepers a)" "distinct (store_ids a)"
  shows "mset (store_ids (fst (wake (ma_sleepers a ! i) (a\<lparr>ma_sleepers := drop_nth i (ma_sleepers a)\<rparr>))))
    \<subseteq># mset (store_ids a)"
proof -
  note m = mset_concat_drop_nth [OF assms(1), of sleeper_store_id]
  show ?thesis
  proof (cases "ma_sleepers a ! i")
    case (Sleep_Store t success tot ks szs)
    then have "t \<in># mset (concat (map sleeper_store_id (ma_sleepers a)))"
      unfolding m by simp
    then have "t \<in> set (concat (map sleeper_store_id (ma_sleepers a)))" by (simp only: set_mset_mset)
    then have "t \<notin> fst ` set (ma_completed_store_tasks a)"
      using assms(2) by (auto simp: store_ids_def)
    then have "dict_set t r (ma_completed_store_tasks a) = ma_completed_store_tasks a @ [(t, r)]" for r
      by (rule dict_set_new)
    then show ?thesis using m Sleep_Store
      by (auto simp: finish_store_in_the_loop_def store_ids_def Let_def split: sum.splits)
  next
    case (Sleep_Load t bm accessed)
    then show ?thesis using m by (simp add: finish_load_in_loop_def store_ids_def Let_def)
  qed
qed

lemma run_job_frame [simp]:
  "ma_next_task_id (run_job j a) = ma_next_task_id a" "ma_fds (run_job j a) = ma_fds a"
  by (cases j; auto simp: execute_store_in_the_loop_def execute_lookup_in_the_loop_def
      execute_load_in_loop_def split: prod.splits)+

lemma wake_frame [simp]:
  "ma_next_task_id (fst (wake w a)) = ma_next_task_id a" "ma_fds (fst (wake w a)) = ma_fds a"
  by (cases w; auto simp: finish_store_in_the_loop_def finish_load_in_loop_def Let_def
      split: sum.splits)+

lemma mock_loop_frame: "mock_loop a a' \<Longrightarrow> ma_next_task_id a' = ma_next_task_id a \<and> ma_fds a' = ma_fds a"
  by (induction rule: mock_loop.induct) simp_all

lemma mock_store_loop:
  assumes "mock_loop a a'" "mock_store_ok a S U"
  shows "mock_store_ok a' S U"
  using assms
proof (induction rule: mock_loop.induct)
  case (job i a)
  then show ?case using store_ids_run_job [OF job(1)] by (auto intro: mock_store_okI)
next
  case (wakeup i a)
  then have "distinct (store_ids a)" by (simp add: mock_store_ok_def)
  then show ?case by (intro mock_store_okI [OF wakeup(2) store_ids_wake [OF wakeup(1)]]) simp_all
qed

lemma ma_delete_frame:
  assumes "ma_delete keys a = Inr a'"
  shows "ma_jobs a' = ma_jobs a" "ma_sleepers a' = ma_sleepers a" "ma_fds a' = ma_fds a"
    "ma_next_task_id a' = ma_next_task_id a" "ma_locked_keys a' = ma_locked_keys a"
    "ma_completed_store_tasks a' = ma_completed_store_tasks a"
    "ma_completed_lookup_tasks a' = ma_completed_lookup_tasks a"
    "ma_completed_load_tasks a' = ma_completed_load_tasks a"
  using assms by (auto simp: ma_delete_def Let_def split: prod.splits if_splits sum.splits)

lemmas ma_submit_defs = ma_submit_store_task_def ma_submit_lookup_and_lock_task_def
  ma_submit_load_task_def ma_submit_unlock_def get_next_task_id_def schedule_def

lemma mock_store_env:
  assumes "mock_env_store a a'" "mock_store_ok a S U"
  shows "mock_store_ok a' S U \<and> ma_fds a' = ma_fds a"
  using assms
proof (induction rule: mock_env_store.induct)
  case (es_loop a a')
  then show ?case using mock_store_loop mock_loop_frame by blast
next
  case (es_delete keys a a')
  then show ?case using ma_delete_frame [OF es_delete(1)]
    by (auto intro!: mock_store_okI [OF es_delete(2)] simp: store_ids_def)
qed (auto elim!: mock_store_okI simp: store_ids_def ma_submit_defs
  ma_query_lookup_and_lock_result_def ma_query_load_result_def)

interpretation mock_store: l2_store_contract mock_ops mock_env_store mock_store_ok
proof
  fix a :: mock_adapter and S U keys objs a' t
  assume ok: "mock_store_ok a S U" and sub: "submit_store_task mock_ops keys objs a = (a', t)"
  have t: "t = ma_next_task_id a" "ma_next_task_id a' = t + 1" "ma_fds a' = ma_fds a"
    "mset (store_ids a') = add_mset t (mset (store_ids a))"
    using sub by (auto simp: mock_ops_def ma_submit_defs store_ids_def Let_def)
  have new: "t \<notin> U" using ok t(1) by (auto simp: mock_store_ok_def)
  have "distinct (store_ids a')"
    using ok new t(4) unfolding mock_store_ok_def distinct_count
    by (auto simp: count_eq_zero_iff)
  moreover have "set (store_ids a') = insert t (set (store_ids a))"
    using t(4) by (metis set_mset_add_mset_insert set_mset_mset)
  ultimately show "t \<notin> U \<and> mock_store_ok a' (insert t S) (insert t U) \<and> store_fd mock_ops a' = store_fd mock_ops a"
    using ok t new by (auto simp: mock_store_ok_def mock_ops_def)
next
  fix a :: mock_adapter and S U a' "done"
  assume ok: "mock_store_ok a S U" and pop: "pop_completed_store_tasks mock_ops a = (a', done)"
  then have "store_ids a = store_ids a' @ map fst done" "ma_next_task_id a' = ma_next_task_id a"
    "ma_fds a' = ma_fds a"
    by (auto simp: mock_ops_def ma_pop_completed_store_tasks_def store_ids_def)
  then show "dict_wf done \<and> dict_dom done \<subseteq> S \<and> mock_store_ok a' (S - dict_dom done) U \<and>
      store_fd mock_ops a' = store_fd mock_ops a"
    using ok by (auto simp: mock_store_ok_def dict_wf_def dict_dom_def mock_ops_def)
next
  fix a :: mock_adapter and S U V
  assume "mock_store_ok a S U" "S \<subseteq> V" "V \<subseteq> U"
  then show "mock_store_ok a S V" by (auto simp: mock_store_ok_def)
next
  fix a :: mock_adapter and S U a'
  assume "mock_store_ok a S U" "mock_env_store a a'"
  then show "mock_store_ok a' S U \<and> store_fd mock_ops a' = store_fd mock_ops a"
    using mock_store_env by (auto simp: mock_ops_def)
qed

section \<open>The mock adapter keeps the read contract\<close>

fun job_lookup_id :: "mock_job \<Rightarrow> int list" where
  "job_lookup_id (Job_Lookup _ t) = [t]"
| "job_lookup_id _ = []"

fun job_load_id :: "mock_job \<Rightarrow> int list" where
  "job_load_id (Job_Load _ _ t) = [t]"
| "job_load_id _ = []"

fun sleeper_load_id :: "mock_sleeper \<Rightarrow> int list" where
  "sleeper_load_id (Sleep_Load t _ _) = [t]"
| "sleeper_load_id _ = []"

fun job_unlocks :: "mock_job \<Rightarrow> object_key list" where
  "job_unlocks (Job_Unlock ks) = ks"
| "job_unlocks _ = []"

definition lookup_ids :: "mock_adapter \<Rightarrow> int list" where
  "lookup_ids a = concat (map job_lookup_id (ma_jobs a)) @ map fst (ma_completed_lookup_tasks a)"

definition load_ids :: "mock_adapter \<Rightarrow> int list" where
  "load_ids a = concat (map job_load_id (ma_jobs a)) @
     concat (map sleeper_load_id (ma_sleepers a)) @ map fst (ma_completed_load_tasks a)"

definition locks_of :: "mock_adapter \<Rightarrow> object_key \<Rightarrow> int" where
  "locks_of a k = dict_get_default (ma_locked_keys a) k 0"

definition undelivered :: "(int \<rightharpoonup> object_key list) \<Rightarrow> (int, bitmap) pydict \<Rightarrow> object_key list" where
  "undelivered LK results = concat (map (\<lambda>(t, bm). gather bm (the (LK t))) results)"

fun lookup_job_ok :: "(int \<rightharpoonup> object_key list) \<Rightarrow> mock_job \<Rightarrow> bool" where
  "lookup_job_ok LK (Job_Lookup ks t) = (LK t = Some ks)"
| "lookup_job_ok LK _ = True"

fun load_job_ok :: "(int \<rightharpoonup> object_key list) \<Rightarrow> mock_job \<Rightarrow> bool" where
  "load_job_ok LD (Job_Load ks objs t) = (LD t = Some ks)"
| "load_job_ok LD _ = True"

definition result_ok :: "(int \<rightharpoonup> object_key list) \<Rightarrow> int \<times> bitmap \<Rightarrow> bool" where
  "result_ok M r \<longleftrightarrow> (\<exists>ks. M (fst r) = Some ks \<and> sized (length ks) (snd r))"

fun load_sleeper_ok :: "(int \<rightharpoonup> object_key list) \<Rightarrow> mock_sleeper \<Rightarrow> bool" where
  "load_sleeper_ok LD (Sleep_Load t bm acc) = result_ok LD (t, bm)"
| "load_sleeper_ok LD _ = True"

definition lookups_ok :: "mock_adapter \<Rightarrow> (int \<rightharpoonup> object_key list) \<Rightarrow> bool" where
  "lookups_ok a LK \<longleftrightarrow> distinct (lookup_ids a) \<and> (\<forall>j \<in> set (ma_jobs a). lookup_job_ok LK j) \<and>
     (\<forall>r \<in> set (ma_completed_lookup_tasks a). result_ok LK r)"

definition loads_ok :: "mock_adapter \<Rightarrow> (int \<rightharpoonup> object_key list) \<Rightarrow> bool" where
  "loads_ok a LD \<longleftrightarrow> distinct (load_ids a) \<and> (\<forall>j \<in> set (ma_jobs a). load_job_ok LD j) \<and>
     (\<forall>w \<in> set (ma_sleepers a). load_sleeper_ok LD w) \<and>
     (\<forall>r \<in> set (ma_completed_load_tasks a). result_ok LD r)"

definition locks_ok :: "mock_adapter \<Rightarrow> (int \<rightharpoonup> object_key list) \<Rightarrow> object_key multiset \<Rightarrow> bool" where
  "locks_ok a LK L \<longleftrightarrow> (\<forall>k. locks_of a k = int (count L k) +
     int (count (mset (undelivered LK (ma_completed_lookup_tasks a))) k) +
     int (count (mset (concat (map job_unlocks (ma_jobs a)))) k))"

definition mock_read_ok ::
  "mock_adapter \<Rightarrow> (int \<rightharpoonup> object_key list) \<Rightarrow> (int \<rightharpoonup> object_key list) \<Rightarrow> object_key multiset \<Rightarrow> bool" where
  "mock_read_ok a LK LD L \<longleftrightarrow> lookups_ok a LK \<and> loads_ok a LD \<and> locks_ok a LK L \<and>
     (\<forall>t. LK t \<noteq> None \<or> LD t \<noteq> None \<longrightarrow> t < ma_next_task_id a)"

lemma mark_present:
  assumes "sized n bm" "\<forall>(i, k) \<in> set iks. i < n"
  shows "sized n (foldl (\<lambda>bm (i, k). if P k then bm_set i bm else bm) bm iks) \<and>
    bits (foldl (\<lambda>bm (i, k). if P k then bm_set i bm else bm) bm iks) =
      bits bm \<union> {i. \<exists>k. (i, k) \<in> set iks \<and> P k}"
  using assms
proof (induction iks arbitrary: bm)
  case (Cons ik iks)
  obtain i k where ik: "ik = (i, k)" by fastforce
  have "sized n (if P k then bm_set i bm else bm)" using Cons.prems by simp
  moreover have "bits (if P k then bm_set i bm else bm) = bits bm \<union> {j. j = i \<and> P k}"
    using Cons.prems by (auto simp: ik sized_def)
  ultimately show ?case using Cons.IH [of "if P k then bm_set i bm else bm"] Cons.prems by (auto simp: ik)
qed simp

definition present_mask :: "(object_key \<Rightarrow> bool) \<Rightarrow> object_key list \<Rightarrow> bitmap" where
  "present_mask P keys =
     foldl (\<lambda>bm (i, k). if P k then bm_set i bm else bm) (new_bitmap (length keys)) (enumerate 0 keys)"

lemma present_mask_sized: "sized (length keys) (present_mask P keys)"
  and present_mask_bits: "bits (present_mask P keys) = {i. i < length keys \<and> P (keys ! i)}"
proof -
  have "\<forall>(i, k) \<in> set (enumerate 0 keys). i < length keys" by (auto simp: in_set_enumerate_eq)
  note m = mark_present [OF sized_ops(1) this, of P]
  show "sized (length keys) (present_mask P keys)" using m by (simp add: present_mask_def)
  show "bits (present_mask P keys) = {i. i < length keys \<and> P (keys ! i)}"
    using m by (auto simp: present_mask_def in_set_enumerate_eq)
qed

lemma gather_present_mask: "gather (present_mask P keys) keys = filter P keys"
proof -
  have ok: "bm_ok (present_mask P keys)" "bm_size (present_mask P keys) = length keys"
    using present_mask_sized by (simp_all add: sized_def)
  have "gather (present_mask P keys) keys =
      map (\<lambda>i. keys ! i) (filter (bm_test (present_mask P keys)) [0..<length keys])"
    using gather_eq [of "present_mask P keys" keys] ok by (simp add: get_indices_eq)
  also have "filter (bm_test (present_mask P keys)) [0..<length keys] =
      filter (\<lambda>i. P (keys ! i)) [0..<length keys]"
    using present_mask_bits [of P keys] by (intro filter_cong) (auto simp: bits_def)
  also have "map (\<lambda>i. keys ! i) \<dots> = filter P keys"
    by (metis (mono_tags, lifting) filter_cong filter_map comp_apply map_nth)
  finally show ?thesis .
qed

lemma lookup_loop:
  "foldl (lookup_one objs) (bm, locked) iks =
     (foldl (\<lambda>bm (i, k). if k \<in> dict_dom objs then bm_set i bm else bm) bm iks,
      foldl (\<lambda>l k. dict_set k (dict_get_default l k 0 + 1) l) locked (filter (\<lambda>k. k \<in> dict_dom objs) (map snd iks)))"
  by (induction iks arbitrary: bm locked) (auto simp: lookup_one_def)

lemma load_loop:
  "foldl (\<lambda>(bm, acc) (i, key). if key \<notin> D then (bm, acc) else (bm_set i bm, acc @ [key])) (bm, acc) iks =
     (foldl (\<lambda>bm (i, k). if k \<in> D then bm_set i bm else bm) bm iks,
      acc @ filter (\<lambda>k. k \<in> D) (map snd iks))"
  by (induction iks arbitrary: bm acc) auto

lemma execute_lookup_eq:
  "execute_lookup_in_the_loop keys t a =
     a\<lparr>ma_locked_keys := foldl (\<lambda>l k. dict_set k (dict_get_default l k 0 + 1) l) (ma_locked_keys a)
         (filter (\<lambda>k. k \<in> dict_dom (ma_memory_objects a)) keys),
       ma_completed_lookup_tasks := dict_set t (present_mask (\<lambda>k. k \<in> dict_dom (ma_memory_objects a)) keys)
         (ma_completed_lookup_tasks a)\<rparr>"
  by (simp add: execute_lookup_in_the_loop_def lookup_loop present_mask_def)

lemma execute_load_eq:
  "execute_load_in_loop keys objs t a =
     a\<lparr>ma_sleepers := ma_sleepers a @ [Sleep_Load t
         (present_mask (\<lambda>k. k \<in> dict_dom (ma_memory_objects a)) keys)
         (filter (\<lambda>k. k \<in> dict_dom (ma_memory_objects a)) keys)]\<rparr>"
  by (simp add: execute_load_in_loop_def load_loop present_mask_def)

lemma count_locks:
  "dict_get_default (foldl (\<lambda>l k. dict_set k (dict_get_default l k 0 + 1) l) locked ks) k 0 =
     dict_get_default locked k 0 + int (count (mset ks) k)"
  by (induction ks arbitrary: locked) auto

lemma count_unlocks:
  "\<forall>k. int (count (mset ks) k) \<le> dict_get_default locked k 0 \<Longrightarrow>
     dict_get_default (foldl unlock_key locked ks) k 0 =
     dict_get_default locked k 0 - int (count (mset ks) k)"
proof (induction ks arbitrary: locked)
  case (Cons x ks)
  have x: "1 \<le> dict_get_default locked x 0" using Cons.prems [rule_format, of x] by simp
  have step: "dict_get_default (unlock_key locked x) y 0 = dict_get_default locked y 0 - (if x = y then 1 else 0)" for y
    using x by (auto simp: unlock_key_def dict_get_default_def split: option.splits)
  have "int (count (mset ks) y) \<le> dict_get_default (unlock_key locked x) y 0" for y
    using Cons.prems [rule_format, of y] by (auto simp: step)
  then show ?case using Cons.IH [of "unlock_key locked x"] by (auto simp: step)
qed simp

lemma mset_distinct: "mset xs = mset ys \<Longrightarrow> distinct ys \<Longrightarrow> distinct xs"
  by (simp add: distinct_count)

lemma fresh_key:
  assumes "distinct (xs @ map fst d)" "t \<in># mset xs"
  shows "dict_set t r d = d @ [(t, r)]"
proof -
  have "t \<notin> fst ` set d" using assms by (auto simp: set_mset_mset)
  then show ?thesis by (rule dict_set_new)
qed

lemma fresh_lookup:
  assumes "lookups_ok a LK" "i < length (ma_jobs a)" "ma_jobs a ! i = Job_Lookup ks t"
  shows "dict_set t r (ma_completed_lookup_tasks a) = ma_completed_lookup_tasks a @ [(t, r)]"
proof (rule fresh_key)
  show "distinct (concat (map job_lookup_id (ma_jobs a)) @ map fst (ma_completed_lookup_tasks a))"
    using assms(1) unfolding lookups_ok_def lookup_ids_def by blast
  show "t \<in># mset (concat (map job_lookup_id (ma_jobs a)))"
    unfolding mset_concat_drop_nth [OF assms(2), of job_lookup_id] by (simp add: assms(3))
qed

lemma fresh_load:
  assumes "loads_ok a LD" "i < length (ma_sleepers a)" "ma_sleepers a ! i = Sleep_Load t bm acc"
  shows "dict_set t r (ma_completed_load_tasks a) = ma_completed_load_tasks a @ [(t, r)]"
proof (rule fresh_key)
  let ?xs = "concat (map job_load_id (ma_jobs a)) @ concat (map sleeper_load_id (ma_sleepers a))"
  show "distinct (?xs @ map fst (ma_completed_load_tasks a))"
    using assms(1) unfolding loads_ok_def load_ids_def append_assoc by blast
  show "t \<in># mset ?xs"
    unfolding mset_append mset_concat_drop_nth [OF assms(2), of sleeper_load_id] by (simp add: assms(3))
qed

lemma lookups_run_job:
  assumes "lookups_ok a LK" "i < length (ma_jobs a)"
  shows "lookups_ok (run_job (ma_jobs a ! i) (a\<lparr>ma_jobs := drop_nth i (ma_jobs a)\<rparr>)) LK"
proof -
  note m = mset_concat_drop_nth [OF assms(2), of job_lookup_id]
  have sub: "set (drop_nth i (ma_jobs a)) \<subseteq> set (ma_jobs a)" using set_drop_nth [OF assms(2)] by auto
  have mem: "ma_jobs a ! i \<in> set (ma_jobs a)" using assms(2) by simp
  show ?thesis
  proof (cases "\<exists>ks t. ma_jobs a ! i = Job_Lookup ks t")
    case True
    then obtain ks t where j: "ma_jobs a ! i = Job_Lookup ks t" by blast
    note new = fresh_lookup [OF assms j]
    let ?a = "run_job (ma_jobs a ! i) (a\<lparr>ma_jobs := drop_nth i (ma_jobs a)\<rparr>)"
    have "mset (lookup_ids ?a) = mset (lookup_ids a)"
      using m by (simp add: lookup_ids_def j execute_lookup_eq new)
    then have "distinct (lookup_ids ?a)" using assms(1) mset_distinct by (metis lookups_ok_def)
    moreover have "lookup_job_ok LK (ma_jobs a ! i)" using assms(1) mem by (simp add: lookups_ok_def)
    ultimately show ?thesis using assms(1) sub j present_mask_sized
      by (auto simp: lookups_ok_def execute_lookup_eq new result_ok_def)
  next
    case False
    then have n: "job_lookup_id (ma_jobs a ! i) = []" by (cases "ma_jobs a ! i") auto
    let ?a = "run_job (ma_jobs a ! i) (a\<lparr>ma_jobs := drop_nth i (ma_jobs a)\<rparr>)"
    have f: "ma_jobs ?a = drop_nth i (ma_jobs a)"
      "ma_completed_lookup_tasks ?a = ma_completed_lookup_tasks a"
      using False by (cases "ma_jobs a ! i"; auto simp: execute_store_in_the_loop_def execute_load_eq
        split: prod.splits)+
    have "mset (lookup_ids ?a) = mset (lookup_ids a)" using m n by (simp add: lookup_ids_def f)
    then have "distinct (lookup_ids ?a)" using assms(1) mset_distinct by (metis lookups_ok_def)
    then show ?thesis using assms(1) sub by (auto simp: lookups_ok_def f)
  qed
qed

lemma loads_run_job:
  assumes "loads_ok a LD" "i < length (ma_jobs a)"
  shows "loads_ok (run_job (ma_jobs a ! i) (a\<lparr>ma_jobs := drop_nth i (ma_jobs a)\<rparr>)) LD"
proof -
  note m = mset_concat_drop_nth [OF assms(2), of job_load_id]
  have sub: "set (drop_nth i (ma_jobs a)) \<subseteq> set (ma_jobs a)" using set_drop_nth [OF assms(2)] by auto
  have mem: "ma_jobs a ! i \<in> set (ma_jobs a)" using assms(2) by simp
  let ?a = "run_job (ma_jobs a ! i) (a\<lparr>ma_jobs := drop_nth i (ma_jobs a)\<rparr>)"
  have "mset (load_ids ?a) = mset (load_ids a)"
    using m by (cases "ma_jobs a ! i") (auto simp: load_ids_def execute_store_in_the_loop_def
        execute_lookup_eq execute_load_eq split: prod.splits)
  then have "distinct (load_ids ?a)" using assms(1) mset_distinct by (metis loads_ok_def)
  then show ?thesis
    using assms(1) mem sub present_mask_sized
    by (cases "ma_jobs a ! i") (auto simp: loads_ok_def execute_store_in_the_loop_def result_ok_def
        execute_lookup_eq execute_load_eq split: prod.splits)
qed

lemma locks_run_job:
  assumes "locks_ok a LK L" "lookups_ok a LK" "i < length (ma_jobs a)"
  shows "locks_ok (run_job (ma_jobs a ! i) (a\<lparr>ma_jobs := drop_nth i (ma_jobs a)\<rparr>)) LK L"
proof -
  note m = mset_concat_drop_nth [OF assms(3), of job_unlocks]
  have mem: "ma_jobs a ! i \<in> set (ma_jobs a)" using assms(3) by simp
  show ?thesis
  proof (cases "ma_jobs a ! i")
    case (Job_Lookup ks t)
    note new = fresh_lookup [OF assms(2,3) Job_Lookup]
    have "lookup_job_ok LK (ma_jobs a ! i)" using assms(2) mem by (simp add: lookups_ok_def)
    then have "LK t = Some ks" by (simp add: Job_Lookup)
    then show ?thesis using assms(1) m Job_Lookup
      by (simp add: locks_ok_def locks_of_def execute_lookup_eq new undelivered_def count_locks gather_present_mask)
  next
    case (Job_Unlock ks)
    have eq: "locks_of a k = int (count L k) + int (count (mset (undelivered LK (ma_completed_lookup_tasks a))) k)
        + (int (count (mset ks) k) + int (count (mset (concat (map job_unlocks (drop_nth i (ma_jobs a))))) k))" for k
      using assms(1) unfolding locks_ok_def m by (simp add: Job_Unlock)
    have "\<forall>k. int (count (mset ks) k) \<le> dict_get_default (ma_locked_keys a) k 0"
      using eq by (simp add: locks_of_def)
    note count_unlocks [OF this]
    then show ?thesis using eq by (simp add: locks_ok_def locks_of_def Job_Unlock)
  qed (use assms(1) m in \<open>auto simp: locks_ok_def locks_of_def execute_store_in_the_loop_def
      execute_load_eq split: prod.splits\<close>)
qed

lemma mock_read_loop:
  assumes "mock_loop a a'" "mock_read_ok a LK LD L"
  shows "mock_read_ok a' LK LD L"
  using assms
proof (induction rule: mock_loop.induct)
  case (job i a)
  then show ?case
    using lookups_run_job [OF _ job(1)] loads_run_job [OF _ job(1)] locks_run_job [OF _ _ job(1)]
    by (simp add: mock_read_ok_def)
next
  case (wakeup i a)
  note m = mset_concat_drop_nth [OF wakeup(1), of sleeper_load_id]
  have sub: "set (drop_nth i (ma_sleepers a)) \<subseteq> set (ma_sleepers a)"
    using set_drop_nth [OF wakeup(1)] by auto
  have mem: "ma_sleepers a ! i \<in> set (ma_sleepers a)" using wakeup(1) by simp
  let ?a = "fst (wake (ma_sleepers a ! i) (a\<lparr>ma_sleepers := drop_nth i (ma_sleepers a)\<rparr>))"
  have f: "ma_jobs ?a = ma_jobs a" "ma_completed_lookup_tasks ?a = ma_completed_lookup_tasks a"
    "ma_locked_keys ?a = ma_locked_keys a" "ma_sleepers ?a = drop_nth i (ma_sleepers a)"
    by (cases "ma_sleepers a ! i"; auto simp: finish_store_in_the_loop_def finish_load_in_loop_def Let_def
      split: sum.splits)+
  have "lookups_ok ?a LK" "locks_ok ?a LK L"
    using wakeup(2) by (simp_all add: mock_read_ok_def lookups_ok_def lookup_ids_def locks_ok_def locks_of_def f)
  moreover have "loads_ok ?a LD"
  proof (cases "ma_sleepers a ! i")
    case (Sleep_Store t success tot ks szs)
    have g: "ma_completed_load_tasks ?a = ma_completed_load_tasks a"
      by (auto simp: Sleep_Store finish_store_in_the_loop_def Let_def split: sum.splits)
    have "mset (load_ids ?a) = mset (load_ids a)" using m unfolding load_ids_def f g by (simp add: Sleep_Store)
    then have "distinct (load_ids ?a)" using wakeup(2) mset_distinct by (metis loads_ok_def mock_read_ok_def)
    then show ?thesis using wakeup(2) sub unfolding mock_read_ok_def loads_ok_def f g by blast
  next
    case (Sleep_Load t bm acc)
    have "loads_ok a LD" using wakeup(2) by (simp add: mock_read_ok_def)
    note new = fresh_load [OF this wakeup(1) Sleep_Load]
    have g: "ma_completed_load_tasks ?a = ma_completed_load_tasks a @ [(t, bm)]"
      by (simp add: Sleep_Load finish_load_in_loop_def Let_def new)
    have "mset (load_ids ?a) = mset (load_ids a)" using m unfolding load_ids_def f g by (simp add: Sleep_Load)
    then have "distinct (load_ids ?a)" using wakeup(2) mset_distinct by (metis loads_ok_def mock_read_ok_def)
    moreover have "load_sleeper_ok LD (ma_sleepers a ! i)"
      using wakeup(2) mem by (simp add: mock_read_ok_def loads_ok_def)
    then have "result_ok LD (t, bm)" by (simp add: Sleep_Load)
    ultimately show ?thesis using wakeup(2) sub unfolding mock_read_ok_def loads_ok_def f g
      by (simp add: subset_iff)
  qed
  ultimately show ?case using wakeup(2) by (simp add: mock_read_ok_def)
qed

lemma mock_read_env:
  assumes "mock_env_read a a'" "mock_read_ok a LK LD L"
  shows "mock_read_ok a' LK LD L \<and> ma_fds a' = ma_fds a"
  using assms
proof (induction rule: mock_env_read.induct)
  case (er_loop a a')
  then show ?case using mock_read_loop mock_loop_frame by blast
next
  case (er_delete keys a a')
  then show ?case using ma_delete_frame [OF er_delete(1)]
    by (simp add: mock_read_ok_def lookups_ok_def loads_ok_def locks_ok_def locks_of_def lookup_ids_def load_ids_def)
next
  case (er_store a keys objs)
  then show ?case
    by (auto simp: ma_submit_defs mock_read_ok_def lookups_ok_def loads_ok_def locks_ok_def locks_of_def
        lookup_ids_def load_ids_def intro: less_trans)
next
  case (er_pop a)
  then show ?case
    by (simp add: ma_pop_completed_store_tasks_def mock_read_ok_def lookups_ok_def loads_ok_def locks_ok_def
        locks_of_def lookup_ids_def load_ids_def)
qed

lemma known_ids:
  "lookup_job_ok LK j \<Longrightarrow> t \<in> set (job_lookup_id j) \<Longrightarrow> LK t \<noteq> None"
  "load_job_ok LK j \<Longrightarrow> t \<in> set (job_load_id j) \<Longrightarrow> LK t \<noteq> None"
  by (cases j; auto)+

lemma known_sleepers: "load_sleeper_ok LK w \<Longrightarrow> t \<in> set (sleeper_load_id w) \<Longrightarrow> LK t \<noteq> None"
  by (cases w) (auto simp: result_ok_def)

lemma mset_concat_cong:
  "mset xs = add_mset x (mset ys) \<Longrightarrow> mset (concat (map f xs)) = mset (f x) + mset (concat (map f ys))"
proof -
  have "mset (concat (map f zs)) = \<Sum>\<^sub># (image_mset (\<lambda>z. mset (f z)) (mset zs))" for zs
    by (induction zs) auto
  then show "mset xs = add_mset x (mset ys) \<Longrightarrow> ?thesis" by simp
qed

lemma undelivered_update:
  assumes "\<forall>r \<in> set d. fst r \<noteq> t"
  shows "undelivered (LK(t := x)) d = undelivered LK d"
  using assms unfolding undelivered_def
  by (intro arg_cong [of _ _ concat] map_cong) auto

lemma mock_submit_lookup:
  assumes "mock_read_ok a LK LD L" "ma_submit_lookup_and_lock_task keys descs a = (a', t)"
  shows "LK t = None \<and> LD t = None \<and> mock_read_ok a' (LK(t \<mapsto> keys)) LD L \<and> ma_fds a' = ma_fds a"
proof -
  have t: "t = ma_next_task_id a" and a': "a' = a\<lparr>ma_next_task_id := ma_next_task_id a + 1, ma_jobs := ma_jobs a @ [Job_Lookup keys t]\<rparr>"
    using assms(2) by (auto simp: ma_submit_defs Let_def)
  have new: "LK t = None" "LD t = None"
    using assms(1) t by (auto simp: mock_read_ok_def)
  have lk: "\<forall>r \<in> set (ma_completed_lookup_tasks a). result_ok LK r" "\<forall>j \<in> set (ma_jobs a). lookup_job_ok LK j"
    using assms(1) by (simp_all add: mock_read_ok_def lookups_ok_def)
  have nd: "\<forall>r \<in> set (ma_completed_lookup_tasks a). fst r \<noteq> t" "\<forall>j \<in> set (ma_jobs a). t \<notin> set (job_lookup_id j)"
    using lk new known_ids(1) by (fastforce simp: result_ok_def)+
  then have "t \<notin> set (lookup_ids a)" by (auto simp: lookup_ids_def)
  moreover have "mset (lookup_ids a') = add_mset t (mset (lookup_ids a))"
    by (simp add: a' lookup_ids_def)
  ultimately have "distinct (lookup_ids a')"
    using assms(1) unfolding mock_read_ok_def lookups_ok_def distinct_count by (auto simp: count_eq_zero_iff)
  moreover have "lookup_job_ok (LK(t \<mapsto> keys)) j" if "j \<in> set (ma_jobs a)" for j
    using lk(2) nd(2) that by (cases j) auto
  ultimately have "lookups_ok a' (LK(t \<mapsto> keys))"
    using lk nd unfolding lookups_ok_def a' by (auto simp: result_ok_def)
  moreover have "loads_ok a' LD" "locks_ok a' (LK(t \<mapsto> keys)) L"
    using assms(1) undelivered_update [OF nd(1)]
    by (auto simp: mock_read_ok_def loads_ok_def load_ids_def locks_ok_def locks_of_def a')
  moreover have "LK t' \<noteq> None \<or> LD t' \<noteq> None \<longrightarrow> t' < ma_next_task_id a + 1" for t'
    using assms(1) unfolding mock_read_ok_def by force
  ultimately show ?thesis using new t by (auto simp: mock_read_ok_def a')
qed

lemma mock_submit_load:
  assumes "mock_read_ok a LK LD L" "ma_submit_load_task keys objs a = (a', t)"
  shows "LK t = None \<and> LD t = None \<and> mock_read_ok a' LK (LD(t \<mapsto> keys)) L \<and> ma_fds a' = ma_fds a"
proof -
  have t: "t = ma_next_task_id a" and a': "a' = a\<lparr>ma_next_task_id := ma_next_task_id a + 1, ma_jobs := ma_jobs a @ [Job_Load keys objs t]\<rparr>"
    using assms(2) by (auto simp: ma_submit_defs Let_def)
  have new: "LK t = None" "LD t = None"
    using assms(1) t by (auto simp: mock_read_ok_def)
  have ld: "\<forall>r \<in> set (ma_completed_load_tasks a). result_ok LD r" "\<forall>j \<in> set (ma_jobs a). load_job_ok LD j"
    "\<forall>w \<in> set (ma_sleepers a). load_sleeper_ok LD w"
    using assms(1) by (simp_all add: mock_read_ok_def loads_ok_def)
  have nd: "\<forall>r \<in> set (ma_completed_load_tasks a). fst r \<noteq> t" "\<forall>j \<in> set (ma_jobs a). t \<notin> set (job_load_id j)"
    "\<forall>w \<in> set (ma_sleepers a). t \<notin> set (sleeper_load_id w)"
    using ld new known_ids(2) known_sleepers by (fastforce simp: result_ok_def)+
  then have "t \<notin> set (load_ids a)" by (auto simp: load_ids_def)
  moreover have "mset (load_ids a') = add_mset t (mset (load_ids a))"
    by (simp add: a' load_ids_def)
  ultimately have "distinct (load_ids a')"
    using assms(1) unfolding mock_read_ok_def loads_ok_def distinct_count by (auto simp: count_eq_zero_iff)
  moreover have "load_job_ok (LD(t \<mapsto> keys)) j" if "j \<in> set (ma_jobs a)" for j
    using ld(2) nd(2) that by (cases j) auto
  moreover have "load_sleeper_ok (LD(t \<mapsto> keys)) w" if "w \<in> set (ma_sleepers a)" for w
    using ld(3) nd(3) that by (cases w) (auto simp: result_ok_def)
  ultimately have "loads_ok a' (LD(t \<mapsto> keys))"
    using ld nd unfolding loads_ok_def a' by (auto simp: result_ok_def)
  moreover have "lookups_ok a' LK" "locks_ok a' LK L"
    using assms(1) by (auto simp: mock_read_ok_def lookups_ok_def lookup_ids_def locks_ok_def locks_of_def a')
  moreover have "LK t' \<noteq> None \<or> LD t' \<noteq> None \<longrightarrow> t' < ma_next_task_id a + 1" for t'
    using assms(1) unfolding mock_read_ok_def by force
  ultimately show ?thesis using new t by (auto simp: mock_read_ok_def a')
qed

lemma mset_map_del:
  assumes "dict_wf d" "map_of d t = Some r"
  shows "mset d = add_mset (t, r) (mset (dict_del t d))"
  using assms
proof (induction d)
  case (Cons p d)
  show ?case
  proof (cases "fst p = t")
    case True
    then have "dict_del t d = d" using Cons.prems(1) by (intro AList.delete_id) (auto simp: dict_wf_def)
    then show ?thesis using True Cons.prems by auto
  qed (use Cons in \<open>auto simp: dict_wf_def\<close>)
qed simp

lemma mock_query_lookup:
  assumes "mock_read_ok a LK LD L" "map_of (ma_completed_lookup_tasks a) t = Some bm" "LK t = Some keys"
  shows "sized (length keys) bm \<and>
    mock_read_ok (a\<lparr>ma_completed_lookup_tasks := dict_del t (ma_completed_lookup_tasks a)\<rparr>)
      (LK(t := None)) LD (L + mset (gather bm keys))"
proof -
  let ?d = "ma_completed_lookup_tasks a" and ?a = "a\<lparr>ma_completed_lookup_tasks := dict_del t (ma_completed_lookup_tasks a)\<rparr>"
  have lk: "lookups_ok a LK" "loads_ok a LD" "locks_ok a LK L" using assms(1) by (simp_all add: mock_read_ok_def)
  have wf: "dict_wf ?d" using lk(1) by (simp add: lookups_ok_def lookup_ids_def dict_wf_def)
  note m = mset_map_del [OF wf assms(2)]
  have s: "sized (length keys) bm" using lk(1) map_of_SomeD [OF assms(2)] assms(3) by (fastforce simp: lookups_ok_def result_ok_def)
  have nd: "\<forall>r \<in> set (dict_del t ?d). fst r \<noteq> t" by (auto simp: AList.delete_eq)
  have tid: "t \<in> fst ` set ?d" using assms(2) by (metis map_of_isSome_keys)
  have nj: "t \<notin> set (job_lookup_id j)" if "j \<in> set (ma_jobs a)" for j
    using lk(1) tid that unfolding lookups_ok_def lookup_ids_def by auto
  have job: "lookup_job_ok (LK(t := None)) j" if "j \<in> set (ma_jobs a)" for j
    using lk(1) nj [OF that] that by (cases j) (auto simp: lookups_ok_def)
  have "mset (lookup_ids ?a) \<subseteq># mset (lookup_ids a)"
    using m by (simp add: lookup_ids_def)
  then have "distinct (lookup_ids ?a)" using lk(1) distinct_sub by (metis lookups_ok_def)
  then have "lookups_ok ?a (LK(t := None))"
    using lk(1) job nd unfolding lookups_ok_def by (auto simp: AList.delete_eq result_ok_def)
  moreover have "loads_ok ?a LD" using lk(2) by (simp add: loads_ok_def load_ids_def)
  moreover have "locks_ok ?a (LK(t := None)) (L + mset (gather bm keys))"
  proof -
    have "mset (undelivered LK ?d) = mset (gather bm keys) + mset (undelivered LK (dict_del t ?d))"
      unfolding undelivered_def mset_concat_cong [OF m] by (simp add: assms(3))
    then show ?thesis using lk(3) undelivered_update [OF nd]
      by (simp add: locks_ok_def locks_of_def)
  qed
  ultimately show ?thesis using s assms(1) by (simp add: mock_read_ok_def)
qed

lemma mock_query_load:
  assumes "mock_read_ok a LK LD L" "map_of (ma_completed_load_tasks a) t = Some bm" "LD t = Some keys"
  shows "sized (length keys) bm \<and>
    mock_read_ok (a\<lparr>ma_completed_load_tasks := dict_del t (ma_completed_load_tasks a)\<rparr>) LK (LD(t := None)) L"
proof -
  let ?d = "ma_completed_load_tasks a" and ?a = "a\<lparr>ma_completed_load_tasks := dict_del t (ma_completed_load_tasks a)\<rparr>"
  have ld: "lookups_ok a LK" "loads_ok a LD" "locks_ok a LK L" using assms(1) by (simp_all add: mock_read_ok_def)
  have wf: "dict_wf ?d" using ld(2) by (simp add: loads_ok_def load_ids_def dict_wf_def)
  note m = mset_map_del [OF wf assms(2)]
  have s: "sized (length keys) bm" using ld(2) map_of_SomeD [OF assms(2)] assms(3) by (fastforce simp: loads_ok_def result_ok_def)
  have nd: "\<forall>r \<in> set (dict_del t ?d). fst r \<noteq> t" by (auto simp: AList.delete_eq)
  have tid: "t \<in> fst ` set ?d" using assms(2) by (metis map_of_isSome_keys)
  have nj: "j \<in> set (ma_jobs a) \<Longrightarrow> t \<notin> set (job_load_id j)"
    "w \<in> set (ma_sleepers a) \<Longrightarrow> t \<notin> set (sleeper_load_id w)" for j w
    using ld(2) tid unfolding loads_ok_def load_ids_def by auto
  have "load_job_ok (LD(t := None)) j" if "j \<in> set (ma_jobs a)" for j
    using ld(2) nj(1) [OF that] that by (cases j) (auto simp: loads_ok_def)
  moreover have "load_sleeper_ok (LD(t := None)) w" if "w \<in> set (ma_sleepers a)" for w
    using ld(2) nj(2) [OF that] that by (cases w) (auto simp: loads_ok_def result_ok_def)
  moreover have "mset (load_ids ?a) \<subseteq># mset (load_ids a)" using m by (simp add: load_ids_def)
  then have "distinct (load_ids ?a)" using ld(2) distinct_sub by (metis loads_ok_def)
  ultimately have "loads_ok ?a (LD(t := None))"
    using ld(2) nd unfolding loads_ok_def by (auto simp: AList.delete_eq result_ok_def)
  moreover have "lookups_ok ?a LK" "locks_ok ?a LK L"
    using ld by (simp_all add: lookups_ok_def lookup_ids_def locks_ok_def locks_of_def)
  ultimately show ?thesis using s assms(1) by (simp add: mock_read_ok_def)
qed

lemma mock_unlock:
  assumes "mock_read_ok a LK LD L" "mset keys \<subseteq># L"
  shows "mock_read_ok (ma_submit_unlock keys a) LK LD (L - mset keys)"
proof -
  have "int (count L k) = int (count (L - mset keys) k) + int (count (mset keys) k)" for k
    using mset_subset_eq_count [OF assms(2), of k] by simp
  then show ?thesis using assms(1)
    by (auto simp: mock_read_ok_def ma_submit_unlock_def schedule_def lookups_ok_def lookup_ids_def
        loads_ok_def load_ids_def locks_ok_def locks_of_def)
qed

lemma dict_del_absent: "map_of d t = None \<Longrightarrow> dict_del t d = d"
  by (simp add: AList.delete_id map_of_eq_None_iff)

interpretation mock_read: l2_read_contract mock_ops mock_env_read mock_read_ok
proof
  fix a a' :: mock_adapter and LK LD L keys descs t
  assume "mock_read_ok a LK LD L" "submit_lookup_and_lock_task mock_ops keys descs a = (a', t)"
  then show "LK t = None \<and> LD t = None \<and> mock_read_ok a' (LK(t \<mapsto> keys)) LD L \<and>
      lookup_fd mock_ops a' = lookup_fd mock_ops a \<and> load_fd mock_ops a' = load_fd mock_ops a"
    using mock_submit_lookup by (simp add: mock_ops_def)
next
  fix a a' :: mock_adapter and LK LD L keys objs t
  assume "mock_read_ok a LK LD L" "submit_load_task mock_ops keys objs a = (a', t)"
  then show "LK t = None \<and> LD t = None \<and> mock_read_ok a' LK (LD(t \<mapsto> keys)) L \<and>
      lookup_fd mock_ops a' = lookup_fd mock_ops a \<and> load_fd mock_ops a' = load_fd mock_ops a"
    using mock_submit_load by (simp add: mock_ops_def)
next
  fix a a' :: mock_adapter and LK LD L keys t bm
  assume "mock_read_ok a LK LD L" "query_lookup_and_lock_result mock_ops t a = (a', Some bm)" "LK t = Some keys"
  then show "sized (length keys) bm \<and> mock_read_ok a' (LK(t := None)) LD (L + mset (gather bm keys)) \<and>
      lookup_fd mock_ops a' = lookup_fd mock_ops a \<and> load_fd mock_ops a' = load_fd mock_ops a"
    using mock_query_lookup [of a LK LD L t bm keys] by (auto simp: mock_ops_def ma_query_lookup_and_lock_result_def)
next
  fix a a' :: mock_adapter and LK LD L keys t bm
  assume "mock_read_ok a LK LD L" "query_load_result mock_ops t a = (a', Some bm)" "LD t = Some keys"
  then show "sized (length keys) bm \<and> mock_read_ok a' LK (LD(t := None)) L \<and>
      lookup_fd mock_ops a' = lookup_fd mock_ops a \<and> load_fd mock_ops a' = load_fd mock_ops a"
    using mock_query_load [of a LK LD L t bm keys] by (auto simp: mock_ops_def ma_query_load_result_def)
next
  fix a a' :: mock_adapter and LK LD L t
  assume "mock_read_ok a LK LD L" "query_lookup_and_lock_result mock_ops t a = (a', None)"
  then show "mock_read_ok a' LK LD L \<and>
      lookup_fd mock_ops a' = lookup_fd mock_ops a \<and> load_fd mock_ops a' = load_fd mock_ops a"
    by (auto simp: mock_ops_def ma_query_lookup_and_lock_result_def dict_del_absent)
next
  fix a a' :: mock_adapter and LK LD L t
  assume "mock_read_ok a LK LD L" "query_load_result mock_ops t a = (a', None)"
  then show "mock_read_ok a' LK LD L \<and>
      lookup_fd mock_ops a' = lookup_fd mock_ops a \<and> load_fd mock_ops a' = load_fd mock_ops a"
    by (auto simp: mock_ops_def ma_query_load_result_def dict_del_absent)
next
  fix a :: mock_adapter and LK LD L keys
  assume "mock_read_ok a LK LD L" "mset keys \<subseteq># L"
  then show "mock_read_ok (submit_unlock mock_ops keys a) LK LD (L - mset keys) \<and>
      lookup_fd mock_ops (submit_unlock mock_ops keys a) = lookup_fd mock_ops a \<and>
      load_fd mock_ops (submit_unlock mock_ops keys a) = load_fd mock_ops a"
    using mock_unlock by (simp add: mock_ops_def ma_submit_unlock_def schedule_def)
next
  fix a a' :: mock_adapter and LK LD L
  assume "mock_read_ok a LK LD L" "mock_env_read a a'"
  then show "mock_read_ok a' LK LD L \<and>
      lookup_fd mock_ops a' = lookup_fd mock_ops a \<and> load_fd mock_ops a' = load_fd mock_ops a"
    using mock_read_env by (simp add: mock_ops_def)
qed

lemma ma_init_ok: "mock_store_ok (ma_init cap fds) {} {}" "mock_read_ok (ma_init cap fds) Map.empty Map.empty {#}"
  by (simp_all add: mock_store_ok_def store_ids_def ma_init_def mock_read_ok_def lookups_ok_def
      lookup_ids_def loads_ok_def load_ids_def locks_ok_def locks_of_def undelivered_def)

section \<open>Accounting\<close>

text \<open>
  The store coroutine writes an object, sleeps, and only then accounts for it. A deletion in
  between subtracts first: the totals are clamped at zero and the late addition then stays, so
  that the adapter reports bytes for an object it does not hold.
\<close>

lemma delete_during_store_leaks_usage:
  assumes "0 < get_size obj" "get_size obj \<le> cap"
  shows "\<exists>a1 a2. mock_loop (fst (ma_submit_store_task [key] [obj] (ma_init cap fds))) a1 \<and>
    ma_delete [key] a1 = Inr a2 \<and>
    (\<exists>a3. mock_loop a2 a3 \<and> ma_memory_objects a3 = [] \<and> ma_current_size_bytes a3 = 0 \<and>
      au_total_bytes_used (get_usage (ma_base a3)) = get_size obj)"
proof -
  let ?a0 = "fst (ma_submit_store_task [key] [obj] (ma_init cap fds))"
  let ?a1 = "run_job (ma_jobs ?a0 ! 0) (?a0\<lparr>ma_jobs := drop_nth 0 (ma_jobs ?a0)\<rparr>)"
  have s1: "mock_loop ?a0 ?a1" by (rule mock_loop.job) (simp add: ma_submit_defs)
  have a1: "?a1 = (ma_init cap fds)\<lparr>ma_next_task_id := 1, ma_memory_objects := [(key, get_size obj)],
      ma_current_size_bytes := get_size obj, ma_sleepers := [Sleep_Store 0 True (get_size obj) [key] [get_size obj]]\<rparr>"
    using assms by (simp add: ma_submit_defs ma_init_def lb_init_def drop_nth_def execute_store_in_the_loop_def
        dict_dom_def Let_def)
  obtain a2 where a2: "ma_delete [key] ?a1 = Inr a2" "ma_memory_objects a2 = []" "ma_current_size_bytes a2 = 0"
    "ma_sleepers a2 = [Sleep_Store 0 True (get_size obj) [key] [get_size obj]]"
    "lb_total_bytes_used (ma_base a2) = 0" "ma_completed_store_tasks a2 = []"
    using assms unfolding a1
    by (simp add: ma_init_def lb_init_def ma_delete_def delete_one_def notify_keys_deleted_def Let_def
        salt_delta_def lb_notify_def)
  let ?a3 = "fst (wake (ma_sleepers a2 ! 0) (a2\<lparr>ma_sleepers := drop_nth 0 (ma_sleepers a2)\<rparr>))"
  have "mock_loop a2 ?a3" by (rule mock_loop.wakeup) (simp add: a2(4))
  moreover have "ma_memory_objects ?a3 = [] \<and> ma_current_size_bytes ?a3 = 0 \<and>
      au_total_bytes_used (get_usage (ma_base ?a3)) = get_size obj"
    using a2 assms by (simp add: finish_store_in_the_loop_def new_store_result_def Let_def
        notify_keys_stored_def lb_notify_def get_usage_def)
  ultimately show ?thesis using s1 a2(1) by blast
qed

end
