(* ===== verification/Read_Ledger.thy ===== *)
theory Read_Ledger
  imports L1_Manager
begin

text \<open>
  The read locks of \<open>L1Manager\<close> as a ledger. The manager only keeps a counter per object; who
  holds a lock is known to its clients, the controllers and the workers. Here \<open>M\<close> is the
  multiset of the read locks that all clients together have been granted and have not given
  back. At a time \<open>now\<close> at which no lock of \<open>M\<close> has expired, \<open>ledger now\<close> says that the counter of
  every object is the number of its locks in \<open>M\<close> and that only resident objects are locked.
  Every operation at \<open>now\<close> is shown to keep the ledger, with the locks it grants or takes back.
  Time may pass between two operations for as long as no lock that is held expires meanwhile
  (\<open>l1_fresh\<close>); a run of clients has no other bound on its length. Calls that override locks,
  the forced deletions and the closing of the manager, are outside the ledger.
\<close>

definition ledger :: "int \<Rightarrow> int \<Rightarrow> 'k multiset \<Rightarrow> 'k l1_objects \<Rightarrow> bool" where
  "ledger now ttl M objs \<longleftrightarrow> 0 < ttl \<and> (\<forall>k. (map_of objs k = None \<longrightarrow> k \<notin># M) \<and>
     (\<forall>e. map_of objs k = Some e \<longrightarrow> tl_ttl_ms (os_read_lock e) = ttl \<and>
        tl_counter (os_read_lock e) = int (count M k) \<and>
        (k \<in># M \<longrightarrow> now < tl_expiration_ms (os_read_lock e))))"

lemma ledger_None: "ledger now ttl M objs \<Longrightarrow> map_of objs k = None \<Longrightarrow> k \<notin># M"
  by (simp add: ledger_def)

lemma ledger_Some:
  "ledger now ttl M objs \<Longrightarrow> map_of objs k = Some e \<Longrightarrow> tl_ttl_ms (os_read_lock e) = ttl \<and>
     tl_counter (os_read_lock e) = int (count M k) \<and>
     (k \<in># M \<longrightarrow> now < tl_expiration_ms (os_read_lock e))"
  by (simp add: ledger_def)

lemma ledger_locked_iff:
  assumes "ledger now ttl M objs" "map_of objs k = Some e"
  shows "is_locked now (os_read_lock e) \<longleftrightarrow> k \<in># M"
  using ledger_Some [OF assms] by (auto simp: is_locked_def count_greater_zero_iff [symmetric] simp del: count_greater_zero_iff)

lemma ledger_resident:
  "ledger now ttl M objs \<Longrightarrow> k \<in># M \<Longrightarrow> \<exists>e. map_of objs k = Some e"
  by (metis ledger_None not_None_eq)

section \<open>Changes of one entry\<close>

lemma ledger_upd:
  "ledger now ttl M objs \<Longrightarrow> map_of objs k = Some e \<Longrightarrow> os_read_lock e' = os_read_lock e \<Longrightarrow>
     ledger now ttl M (dict_set k e' objs)"
  by (auto simp: ledger_def)

lemma ledger_del:
  assumes "ledger now ttl M objs" "map_of objs k = Some e"
    "\<not> is_locked now (os_read_lock e)"
  shows "ledger now ttl M (dict_del k objs)"
  using assms ledger_locked_iff [OF assms(1,2)] by (auto simp: ledger_def)

lemma ledger_new:
  "ledger now (rttl * 1000) M objs \<Longrightarrow> map_of objs k = None \<Longrightarrow>
     ledger now (rttl * 1000) M (dict_set k (new_object_state now wttl rttl m temp) objs)"
  by (auto simp: ledger_def new_object_state_def ttl_lock_new_def count_eq_zero_iff)

lemma ledger_lock:
  assumes "ledger now ttl M objs" "map_of objs k = Some e" "0 < n"
    "os_read_lock e' = (lock now ^^ n) (os_read_lock e)"
  shows "ledger now ttl (M + replicate_mset n k) (dict_set k e' objs)"
proof -
  obtain m where n: "n = Suc m" using assms(3) by (cases n) auto
  have ttl: "0 < ttl" "0 < tl_ttl_ms (os_read_lock e)" using ledger_Some [OF assms(1,2)] assms(1) by (simp_all add: ledger_def)
  have "tl_counter (os_read_lock e') = int (count M k + n) \<and> now < tl_expiration_ms (os_read_lock e') \<and>
      tl_ttl_ms (os_read_lock e') = ttl"
    using ledger_Some [OF assms(1,2)] ttl lock_pow [OF ttl(2), where now = now and n = m]
    by (auto simp: assms(4) n not_in_iff [symmetric])
  then show ?thesis using assms(1) by (auto simp: ledger_def not_in_iff)
qed

lemma ledger_unlock:
  assumes "ledger now ttl M objs" "map_of objs k = Some e" "n \<le> count M k"
    "os_read_lock e' = (unlock ^^ n) (os_read_lock e)"
  shows "ledger now ttl (M - replicate_mset n k) (dict_set k e' objs)"
proof -
  have "(unlock ^^ n) (os_read_lock e) = (os_read_lock e)\<lparr>tl_counter := int (count M k) - int n\<rparr>"
    using unlock_pow [of "os_read_lock e" n] ledger_Some [OF assms(1,2)] assms(3) by simp
  moreover have "x \<in># M - replicate_mset n k \<Longrightarrow> x \<in># M" for x by (rule in_diffD)
  ultimately show ?thesis using assms by (auto simp: ledger_def of_nat_diff not_in_iff)
qed

lemma ledger_unlock_del:
  assumes "ledger now ttl M objs" "map_of objs k = Some e" "n = count M k"
  shows "ledger now ttl (M - replicate_mset n k) (dict_del k objs)"
proof -
  have "x \<in># M - replicate_mset n k \<Longrightarrow> x \<in># M" for x by (rule in_diffD)
  then show ?thesis using assms by (auto simp: ledger_def not_in_iff)
qed

section \<open>Operations\<close>

definition readable :: "int \<Rightarrow> 'k l1_objects \<Rightarrow> 'k \<Rightarrow> bool" where
  "readable now objs k \<longleftrightarrow> (\<exists>e. map_of objs k = Some e \<and> available_for_read now e)"

definition granted :: "nat \<Rightarrow> 'k list \<Rightarrow> 'k multiset" where
  "granted n ks = repeat_mset n (mset ks)"

lemma granted_simps [simp]:
  "granted n [] = {#}" "granted n (ks @ [k]) = granted n ks + replicate_mset n k"
  "granted n (k # ks) = replicate_mset n k + granted n ks"
  "granted (Suc 0) ks = mset ks"
  by (simp_all add: granted_def repeat_mset_distrib_add_mset union_commute)

lemma granted_append: "granted n (xs @ ys) = granted n xs + granted n ys"
  by (simp add: granted_def)

lemma count_granted [simp]: "count (granted n ks) k = n * count (mset ks) k"
  by (simp add: granted_def)

lemma tot_pos: "0 < nat (validate_read_locks n)"
  by (simp add: validate_read_locks_def MAX_READ_LOCK_COUNT_def)

lemma readable_read_lock:
  "map_of objs k = Some e \<Longrightarrow> readable now (dict_set k (e\<lparr>os_read_lock := l\<rparr>) objs) x = readable now objs x"
  by (auto simp: readable_def available_for_read_def)

text \<open>The outcome of a read for one key; it depends on the objects alone, not on the locks held.\<close>

definition read_result :: "int \<Rightarrow> 'k l1_objects \<Rightarrow> 'k \<Rightarrow> op_result" where
  "read_result now objs k = (case map_of objs k of None \<Rightarrow> (KEY_NOT_EXIST, None)
     | Some e \<Rightarrow> if available_for_read now e then (SUCCESS, Some (os_memory_obj e)) else (KEY_NOT_READABLE, None))"

lemma reserve_read_step_cases:
  obtains (skip) "\<not> readable now objs k"
      "reserve_read_step now n (objs, ret, ok) k = (objs, dict_set k (read_result now objs k) ret, ok)"
  | (grant) e o1 where "readable now objs k" "map_of objs k = Some e"
      "o1 = dict_set k (e\<lparr>os_read_lock := (lock now ^^ n) (os_read_lock e)\<rparr>) objs"
      "reserve_read_step now n (objs, ret, ok) k = (o1, dict_set k (read_result now objs k) ret, ok @ [k])"
      "readable now o1 = readable now objs" "read_result now o1 = read_result now objs"
proof (cases "readable now objs k")
  case False
  then show thesis by (intro skip) (auto simp: readable_def read_result_def split: option.splits if_splits)
next
  case True
  then obtain e where e: "map_of objs k = Some e" "available_for_read now e" by (auto simp: readable_def)
  let ?o = "dict_set k (e\<lparr>os_read_lock := (lock now ^^ n) (os_read_lock e)\<rparr>) objs"
  have "available_for_read now (e\<lparr>os_read_lock := (lock now ^^ n) (os_read_lock e)\<rparr>)"
    using e(2) by (simp add: available_for_read_def)
  then have "read_result now ?o = read_result now objs" using e by (auto simp: read_result_def fun_eq_iff)
  moreover have "readable now ?o = readable now objs" by (rule ext) (rule readable_read_lock [OF e(1)])
  ultimately show thesis using True e by (intro grant [of e ?o]) (auto simp: read_result_def)
qed

lemma reserve_read_results:
  assumes "foldl (reserve_read_step now n) (objs, ret, ok) keys = (objs', ret', ok')"
  shows "ok' = ok @ filter (readable now objs) keys \<and>
    (\<forall>k. map_of ret' k = (if k \<notin> set keys then map_of ret k else Some (read_result now objs k)))"
  using assms
proof (induction keys arbitrary: objs ret ok)
  case (Cons k keys)
  show ?case
  proof (cases rule: reserve_read_step_cases [of now objs k n ret ok])
    case skip
    then show ?thesis using Cons.IH [of objs _ ok] Cons.prems by auto
  next
    case (grant e o1)
    have "foldl (reserve_read_step now n) (o1, dict_set k (read_result now objs k) ret, ok @ [k]) keys = (objs', ret', ok')"
      using Cons.prems grant(4) by simp
    from Cons.IH [OF this, unfolded grant(5,6)] show ?thesis using grant(1) by auto
  qed
qed simp

lemma reserve_read_fold:
  assumes "ledger now ttl M objs" "0 < n"
    and "foldl (reserve_read_step now n) (objs, ret, ok) keys = (objs', ret', ok')"
  shows "ledger now ttl (M + granted n (filter (readable now objs) keys)) objs'"
  using assms(1,3)
proof (induction keys arbitrary: objs ret ok M)
  case (Cons k keys)
  show ?case
  proof (cases rule: reserve_read_step_cases [of now objs k n ret ok])
    case skip
    then show ?thesis using Cons.IH [of M objs _ ok] Cons.prems by auto
  next
    case (grant e o1)
    have l: "ledger now ttl (M + replicate_mset n k) o1"
      unfolding grant(3) by (rule ledger_lock [OF Cons.prems(1) grant(2) assms(2)]) simp
    have "foldl (reserve_read_step now n) (o1, dict_set k (read_result now objs k) ret, ok @ [k]) keys = (objs', ret', ok')"
      using Cons.prems(2) grant(4) by simp
    from Cons.IH [OF l this] show ?thesis using grant(1,5) by (simp add: ac_simps)
  qed
qed simp

lemma finish_read_fold:
  assumes "ledger now ttl M (fr_objs a)" "objs_ok now (fr_objs a)" "0 < n"
    "granted n keys \<subseteq># M"
  shows "ledger now ttl (M - granted n keys) (fr_objs (foldl (finish_read_step now n) a keys)) \<and>
    fr_ok (foldl (finish_read_step now n) a keys) = fr_ok a @ keys"
  using assms(1,2,4)
proof (induction keys arbitrary: a M)
  case (Cons k keys)
  let ?a = "finish_read_step now n a k"
  have c: "n \<le> count M k" using mset_subset_eq_count [OF Cons.prems(3), of k] assms(3) by simp
  then have mem: "k \<in># M" using assms(3) by (metis gr0I leD not_in_iff)
  then obtain e where e: "map_of (fr_objs a) k = Some e" using ledger_resident [OF Cons.prems(1)] by blast
  have rl: "is_locked now (os_read_lock e)" using ledger_locked_iff [OF Cons.prems(1) e] mem by simp
  have ok: "entry_ok now e" using Cons.prems(2) e by (auto simp: objs_ok_def)
  then have wl: "\<not> is_locked now (os_write_lock e)" using rl by (auto simp: entry_ok_def)
  let ?rl = "(unlock ^^ n) (os_read_lock e)"
  have dead: "count M k = n" if "\<not> is_locked now ?rl"
  proof -
    have "?rl = (os_read_lock e)\<lparr>tl_counter := int (count M k) - int n\<rparr>"
      using unlock_pow [of "os_read_lock e" n] ledger_Some [OF Cons.prems(1) e] c by simp
    then show ?thesis using that rl c by (auto simp: is_locked_def)
  qed
  have "ledger now ttl (M - replicate_mset n k) (fr_objs ?a)"
    using ledger_unlock [OF Cons.prems(1) e c] ledger_unlock_del [OF Cons.prems(1) e] dead
    by (auto simp: finish_read_step_def e rl wl Let_def)
  moreover have "objs_ok now (fr_objs ?a)"
    using Cons.prems(2) entry_trans_ok [OF entry_trans.read_unlock ok]
    by (auto simp: finish_read_step_def e rl wl Let_def objs_ok_def)
  moreover have "granted n keys \<subseteq># M - replicate_mset n k"
  proof (rule mset_subset_eqI)
    show "count (granted n keys) x \<le> count (M - replicate_mset n k) x" for x
      using mset_subset_eq_count [OF Cons.prems(3), of x] by auto
  qed
  moreover have "fr_ok ?a = fr_ok a @ [k]"
    by (auto simp: finish_read_step_def e rl wl Let_def)
  ultimately show ?case using Cons.IH [of "M - replicate_mset n k" ?a] by simp
qed simp

lemma finish_write_fold:
  assumes "ledger now ttl M o1" "foldl (finish_write_step now) (o1, ret, ok, oks) keys = (o2, ret', ok', oks')"
  shows "ledger now ttl M o2"
  using foldl_inv [of "\<lambda>a. ledger now ttl M (fst a)" "(o1, ret, ok, oks)" keys "finish_write_step now"] assms
  by (force simp: ledger_upd split: option.splits)

lemma delete_fold:
  assumes "ledger now ttl M o1"
    "foldl (delete_step now False) (o1, ret, ok, fs) keys = (o2, ret', ok', fs')"
  shows "ledger now ttl M o2"
  using foldl_inv [of "\<lambda>a. ledger now ttl M (fst a)" "(o1, ret, ok, fs)" keys "delete_step now False"] assms
  by (force simp: Let_def split: option.splits intro: ledger_del)

lemma write_to_read_fold:
  assumes "ledger now ttl M o1" "0 < n"
    "foldl (finish_write_and_reserve_read_step now n) (o1, ret, ok, oks) keys = (o2, ret', ok', oks')"
  shows "\<exists>oks. ok' = ok @ oks \<and> ledger now ttl (M + granted n oks) o2"
  using assms(1,3)
proof (induction keys arbitrary: o1 ret ok oks M)
  case (Cons k keys)
  obtain o3 r3 k3 m3 where s: "finish_write_and_reserve_read_step now n (o1, ret, ok, oks) k = (o3, r3, k3, m3)"
    by (metis surj_pair)
  have f: "foldl (finish_write_and_reserve_read_step now n) (o3, r3, k3, m3) keys = (o2, ret', ok', oks')"
    using Cons.prems(2) s by simp
  have "(o3 = o1 \<and> k3 = ok) \<or> (ledger now ttl (M + replicate_mset n k) o3 \<and> k3 = ok @ [k])"
    using s ledger_lock [OF Cons.prems(1) _ assms(2)]
    by (auto split: option.splits if_splits)
  then show ?case
  proof
    assume "o3 = o1 \<and> k3 = ok"
    then show ?thesis using Cons.IH [of M o1 r3 ok m3] Cons.prems(1) f by auto
  next
    assume a: "ledger now ttl (M + replicate_mset n k) o3 \<and> k3 = ok @ [k]"
    then obtain ks where "ok' = (ok @ [k]) @ ks" "ledger now ttl (M + replicate_mset n k + granted n ks) o2"
      using Cons.IH [OF _ f] by blast
    then show ?thesis by (intro exI [of _ "k # ks"]) (simp add: ac_simps)
  qed
qed (auto intro: exI [of _ "[]"])

lemma reserve_write_fold:
  assumes "ledger now ttl M (rw_objs a)"
  shows "ledger now ttl M (rw_objs (foldl (reserve_write_step now mode) a kts))"
  by (rule foldl_inv [of "\<lambda>a. ledger now ttl M (rw_objs a)"])
    (use assms in \<open>auto simp: reserve_write_step_def ledger_upd split: option.splits prod.splits\<close>)

lemma reserve_write_new_fold:
  assumes "distinct (map (fst \<circ> fst) ps)" and "\<forall>k\<in>set (map (fst \<circ> fst) ps). map_of (rw_objs a) k = None"
    and "ledger now (rttl * 1000) M (rw_objs a)"
  shows "ledger now (rttl * 1000) M (rw_objs (foldl (reserve_write_new now wttl rttl) a ps))"
  using assms
proof (induction ps arbitrary: a)
  case (Cons p ps)
  obtain k t m where p: "p = ((k, t), m)" by (metis surj_pair)
  let ?a = "reserve_write_new now wttl rttl a p"
  have "ledger now (rttl * 1000) M (rw_objs ?a)"
    using Cons.prems by (auto simp: reserve_write_new_def p intro: ledger_new)
  moreover have "\<forall>k\<in>set (map (fst \<circ> fst) ps). map_of (rw_objs ?a) k = None"
    using Cons.prems by (auto simp: reserve_write_new_def p)
  ultimately show ?case using Cons.IH [of ?a] Cons.prems p by simp
qed simp

section \<open>The manager\<close>

definition l1_ledger :: "int \<Rightarrow> 'k multiset \<Rightarrow> 'k l1_manager \<Rightarrow> bool" where
  "l1_ledger now M s \<longleftrightarrow> ledger now (l1_read_ttl_seconds s * 1000) M (l1_objects s)"

text \<open>No lock of \<open>M\<close> has expired at \<open>now\<close>; each grant of a lock sets the expiration of its object anew.\<close>

definition l1_fresh :: "int \<Rightarrow> 'k multiset \<Rightarrow> 'k l1_manager \<Rightarrow> bool" where
  "l1_fresh now M s \<longleftrightarrow> (\<forall>k e. k \<in># M \<and> map_of (l1_objects s) k = Some e \<longrightarrow> now < tl_expiration_ms (os_read_lock e))"

lemma l1_ledger_at: "l1_ledger T M s \<Longrightarrow> l1_fresh now M s \<Longrightarrow> l1_ledger now M s"
  by (simp add: l1_ledger_def ledger_def l1_fresh_def)

lemma read_ttl_frame [simp]:
  "l1_read_ttl_seconds (fst (reserve_read now keys n s)) = l1_read_ttl_seconds s"
  "l1_read_ttl_seconds (fst (finish_read sl now keys n s)) = l1_read_ttl_seconds s"
  "l1_read_ttl_seconds (fst (reserve_write sl now keys temps l mode s)) = l1_read_ttl_seconds s"
  "l1_read_ttl_seconds (fst (finish_write now keys s)) = l1_read_ttl_seconds s"
  "l1_read_ttl_seconds (fst (finish_write_and_reserve_read now keys n s)) = l1_read_ttl_seconds s"
  "l1_read_ttl_seconds (fst (delete_keys sl now keys force s)) = l1_read_ttl_seconds s"
  "l1_read_ttl_seconds (touch_keys keys s) = l1_read_ttl_seconds s"
  "l1_read_ttl_seconds (clear_keys sl now force s) = l1_read_ttl_seconds s"
  "l1_read_ttl_seconds (register_listener s) = l1_read_ttl_seconds s"
  by (auto simp: reserve_read_def finish_read_def reserve_write_def finish_write_def
      finish_write_and_reserve_read_def delete_keys_def touch_keys_def clear_keys_def
      register_listener_def publish_def notify_def Let_def split: prod.splits sum.splits)

lemma reserve_read_outcome:
  assumes "k \<in> set keys"
  shows "map_of (snd (reserve_read now keys n s)) k = Some (read_result now (l1_objects s) k)"
proof -
  define tot where "tot = nat (validate_read_locks n)"
  obtain o1 r1 k1 where f: "foldl (reserve_read_step now tot) (l1_objects s, [], []) keys = (o1, r1, k1)"
    by (metis surj_pair)
  show ?thesis using reserve_read_results [OF f] f assms by (simp add: reserve_read_def tot_def)
qed

lemma reserve_read_ledger:
  assumes "l1_ledger now M s"
  shows "l1_ledger now (M + granted (nat (validate_read_locks n)) (filter (readable now (l1_objects s)) keys)) (fst (reserve_read now keys n s))"
proof -
  define tot where "tot = nat (validate_read_locks n)"
  obtain o1 r1 k1 where f: "foldl (reserve_read_step now tot) (l1_objects s, [], []) keys = (o1, r1, k1)"
    by (metis surj_pair)
  note l = reserve_read_fold [OF assms [unfolded l1_ledger_def] tot_pos [of n, folded tot_def] f]
  show ?thesis using l f unfolding l1_ledger_def read_ttl_frame by (simp add: reserve_read_def tot_def)
qed

lemma finish_read_ledger:
  assumes "l1_ledger now M s" "l1_inv sl now s"
    "granted (nat (validate_read_locks n)) keys \<subseteq># M"
  shows "l1_ledger now (M - granted (nat (validate_read_locks n)) keys) (fst (finish_read sl now keys n s))"
proof -
  let ?a = "\<lparr>fr_objs = l1_objects s, fr_ret = [], fr_ok = [], fr_free = [], fr_free_keys = []\<rparr>"
  have "objs_ok now (fr_objs ?a)" "ledger now (l1_read_ttl_seconds s * 1000) M (fr_objs ?a)"
    using assms by (simp_all add: l1_inv_def l1_ledger_def)
  from finish_read_fold [OF this(2,1) tot_pos assms(3)]
  show ?thesis unfolding l1_ledger_def read_ttl_frame by (simp add: finish_read_def Let_def)
qed

lemma finish_write_ledger:
  assumes "l1_ledger now M s"
  shows "l1_ledger now M (fst (finish_write now keys s))"
proof -
  obtain o1 r1 k1 m1 where f: "foldl (finish_write_step now) (l1_objects s, [], [], []) keys = (o1, r1, k1, m1)"
    by (metis surj_pair)
  show ?thesis using finish_write_fold [OF assms [unfolded l1_ledger_def] f]
    unfolding l1_ledger_def read_ttl_frame by (simp add: finish_write_def f)
qed

definition handed_over :: "int \<Rightarrow> 'k list \<Rightarrow> int \<Rightarrow> 'k l1_manager \<Rightarrow> 'k list" where
  "handed_over now keys n s =
     fst (snd (snd (foldl (finish_write_and_reserve_read_step now (nat (validate_read_locks n)))
       (l1_objects s, [], [], []) keys)))"

lemma write_to_read_ledger:
  assumes "l1_ledger now M s"
  shows "l1_ledger now (M + granted (nat (validate_read_locks n)) (handed_over now keys n s))
    (fst (finish_write_and_reserve_read now keys n s))"
proof -
  obtain o1 r1 k1 m1 where f: "foldl (finish_write_and_reserve_read_step now (nat (validate_read_locks n)))
      (l1_objects s, [], [], []) keys = (o1, r1, k1, m1)" by (metis surj_pair)
  show ?thesis using write_to_read_fold [OF assms [unfolded l1_ledger_def] tot_pos f]
    unfolding l1_ledger_def read_ttl_frame by (auto simp: finish_write_and_reserve_read_def handed_over_def f)
qed

lemma delete_ledger:
  assumes "l1_ledger now M s"
  shows "l1_ledger now M (fst (delete_keys sl now keys False s))"
proof -
  obtain o1 r1 k1 m1 where f: "foldl (delete_step now False) (l1_objects s, [], [], []) keys = (o1, r1, k1, m1)"
    by (metis surj_pair)
  show ?thesis using delete_fold [OF assms [unfolded l1_ledger_def] f]
    unfolding l1_ledger_def read_ttl_frame by (simp add: delete_keys_def f)
qed

lemma reserve_write_ledger:
  assumes "l1_ledger now M s" "distinct keys"
  shows "l1_ledger now M (fst (reserve_write sl now keys temps l mode s))"
proof -
  let ?a0 = "\<lparr>rw_objs = l1_objects s, rw_need = [], rw_ret = [], rw_ok = []\<rparr>"
  define a where "a = foldl (reserve_write_step now mode) ?a0 (zip keys temps)"
  let ?ttl = "l1_read_ttl_seconds s"
  have l: "ledger now (?ttl * 1000) M (rw_objs a)"
    unfolding a_def by (rule reserve_write_fold) (use assms(1) in \<open>simp add: l1_ledger_def\<close>)
  have dz: "distinct (map fst (zip keys temps))" using assms(2) by (simp add: map_fst_zip_take)
  have need: "distinct (map fst (rw_need a)) \<and> (\<forall>k\<in>set (map fst (rw_need a)). map_of (rw_objs a) k = None)"
    unfolding a_def by (rule reserve_write_need) (use dz in auto)
  have new: "ledger now (?ttl * 1000) M (rw_objs (foldl (reserve_write_new now w ?ttl) a (zip (rw_need a) ids)))" for w ids
  proof (rule reserve_write_new_fold)
    have "map (fst \<circ> fst) (zip (rw_need a) ids) = map fst (map fst (zip (rw_need a) ids))" by simp
    also have "\<dots> = take (min (length (rw_need a)) (length ids)) (map fst (rw_need a))"
      by (simp only: map_fst_zip_take take_map)
    finally have z: "map (fst \<circ> fst) (zip (rw_need a) ids) = take (min (length (rw_need a)) (length ids)) (map fst (rw_need a))" .
    show "distinct (map (fst \<circ> fst) (zip (rw_need a) ids))" unfolding z using need by (auto intro: distinct_take)
    show "\<forall>k\<in>set (map (fst \<circ> fst) (zip (rw_need a) ids)). map_of (rw_objs a) k = None"
      unfolding z using need in_set_takeD by fast
  qed (rule l)
  show ?thesis unfolding l1_ledger_def read_ttl_frame
    using l new by (auto simp: reserve_write_def Let_def a_def [symmetric] split: sum.splits prod.splits)
qed

lemma clear_ledger:
  assumes "l1_ledger now M s" "dict_wf (l1_objects s)"
  shows "l1_ledger now M (clear_keys sl now False s)"
proof -
  have "k \<notin># M" if "map_of (l1_objects s) k = Some e" "\<not> entry_locked now e" for k e
    using that ledger_locked_iff [OF assms(1) [unfolded l1_ledger_def] that(1)]
    by (simp add: entry_locked_def)
  then show ?thesis using assms(1)
    unfolding l1_ledger_def read_ttl_frame clear_keys_unlocked(1) [OF assms(2), where force = False, simplified]
    by (auto simp: ledger_def map_of_filter_wf [OF assms(2)] split: option.splits)
qed

lemma ledger_frame:
  "l1_ledger now M s \<Longrightarrow> l1_objects s' = l1_objects s \<Longrightarrow> l1_read_ttl_seconds s' = l1_read_ttl_seconds s \<Longrightarrow>
     l1_ledger now M s'"
  by (simp add: l1_ledger_def)

section \<open>Clients\<close>

text \<open>
  What one call of a client does to the ledger: a reader is granted the locks its call obtains,
  and gives back no more than the clients together hold. Deletions that are forced, and the
  closing of the manager, override locks and are not calls of this kind.
\<close>

inductive client_call :: "sorted_list_ops \<Rightarrow> int \<Rightarrow> 'k l1_manager \<Rightarrow> 'k multiset \<Rightarrow> 'k l1_manager \<Rightarrow> 'k multiset \<Rightarrow> bool"
  for sl :: sorted_list_ops and now :: int and s :: "'k l1_manager" and M :: "'k multiset" where
  reads: "client_call sl now s M (fst (reserve_read now keys n s))
    (M + granted (nat (validate_read_locks n)) (filter (readable now (l1_objects s)) keys))"
| returns: "granted (nat (validate_read_locks n)) keys \<subseteq># M \<Longrightarrow>
    client_call sl now s M (fst (finish_read sl now keys n s)) (M - granted (nat (validate_read_locks n)) keys)"
| hands_over: "client_call sl now s M (fst (finish_write_and_reserve_read now keys n s))
    (M + granted (nat (validate_read_locks n)) (handed_over now keys n s))"
| other: "op_ok op \<Longrightarrow> \<not> forced op \<Longrightarrow> (\<forall>keys n. op \<noteq> Reserve_Read keys n \<and> op \<noteq> Finish_Read keys n \<and>
      op \<noteq> Finish_Write_And_Reserve_Read keys n) \<Longrightarrow>
    client_call sl now s M (l1_exec sl now op s) M"

inductive_cases client_callE: "client_call sl now s M s' M'"

lemma client_call_ledger:
  assumes "client_call sl now s M s' M'" "l1_ledger now M s" "l1_inv sl now s"
  shows "l1_ledger now M' s' \<and> l1_inv sl now s' \<and> l1_read_ttl_seconds s' = l1_read_ttl_seconds s"
  using assms(1)
proof cases
  case (other op)
  have wf: "dict_wf (l1_objects s)" using assms(3) by (simp add: l1_inv_def)
  have "l1_ledger now M (l1_exec sl now op s) \<and> l1_read_ttl_seconds (l1_exec sl now op s) = l1_read_ttl_seconds s"
    using other(3-5) assms(2) reserve_write_ledger [OF assms(2)] finish_write_ledger [OF assms(2)]
      delete_ledger [OF assms(2)] clear_ledger [OF assms(2) wf]
    by (cases op) (auto elim!: ledger_frame simp: touch_keys_def register_listener_def publish_def notify_def Let_def)
  then show ?thesis using other l1_exec_inv [OF assms(3) other(3)] by simp
qed (use assms reserve_read_ledger [OF assms(2)] finish_read_ledger [OF assms(2,3)]
    write_to_read_ledger [OF assms(2)] reserve_read_inv [OF assms(3)] finish_read_inv [OF assms(3)]
    finish_write_and_reserve_read_inv [OF assms(3)] in auto)

text \<open>
  A run of clients, of any length: it starts from any reachable manager that is empty, and a call
  may come at any later time, for as long as no lock that somebody holds has expired by then.
\<close>

inductive client_run :: "sorted_list_ops \<Rightarrow> int \<Rightarrow> 'k l1_manager \<Rightarrow> 'k multiset \<Rightarrow> bool"
  for sl :: sorted_list_ops where
  start: "l1_reach sl sz k wttl rttl T s \<Longrightarrow> l1_objects s = [] \<Longrightarrow> 0 < l1_read_ttl_seconds s \<Longrightarrow> client_run sl T s {#}"
| call: "client_run sl T s M \<Longrightarrow> T \<le> now \<Longrightarrow> l1_fresh now M s \<Longrightarrow> client_call sl now s M s' M' \<Longrightarrow>
    client_run sl now s' M'"

lemma client_run_ledger:
  assumes "client_run sl T s M" "sorted_list_spec sl"
  shows "l1_ledger T M s \<and> l1_inv sl T s"
  using assms
proof (induction rule: client_run.induct)
  case (start sz k wttl rttl T s)
  then show ?case using l1_reach_inv by (auto simp: l1_ledger_def ledger_def)
next
  case (call T s M now s' M')
  then have "l1_ledger now M s" "l1_inv sl now s" using l1_inv_later l1_ledger_at by blast+
  then show ?case using client_call_ledger [OF call(4)] by blast
qed

lemma finish_read_succeeds:
  assumes "l1_ledger now M s" "l1_inv sl now s" "granted (nat (validate_read_locks n)) keys \<subseteq># M"
  shows "last (butlast (l1_events (fst (finish_read sl now keys n s)))) = L1_READ_FINISHED keys"
proof -
  let ?a = "\<lparr>fr_objs = l1_objects s, fr_ret = [], fr_ok = [], fr_free = [], fr_free_keys = []\<rparr>"
  have "objs_ok now (fr_objs ?a)" "ledger now (l1_read_ttl_seconds s * 1000) M (fr_objs ?a)"
    using assms by (simp_all add: l1_inv_def l1_ledger_def)
  from finish_read_fold [OF this(2,1) tot_pos assms(3)]
  show ?thesis by (simp add: finish_read_def Let_def publish_def notify_def butlast_append)
qed

text \<open>
  C18. Read locks are counted exactly. The run starts from an empty manager, clients give back only
  locks they were granted, write requests name each key once, nobody forces a deletion or closes
  the manager, and no lock expires while it is held, that is, before every call and at \<open>now\<close> the
  read lock of each object with a lock in \<open>M\<close> has not reached its expiration; the run may be of
  any length, and objects that nobody holds may stay for any time.
  Then in every such run the counter of a resident object is the number of its locks that the
  clients hold, an object is locked exactly when somebody holds a lock on it, an object that is
  not resident is locked by nobody, and the return of held locks reports success for every key.
\<close>
theorem read_locks_counted:
  assumes "sorted_list_spec sl" "client_run sl T s M" "T \<le> now" "l1_fresh now M s"
  shows "(\<forall>key. case map_of (l1_objects s) key of
        None \<Rightarrow> key \<notin># M
      | Some e \<Rightarrow> tl_counter (os_read_lock e) = int (count M key) \<and>
          (is_locked now (os_read_lock e) \<longleftrightarrow> key \<in># M)) \<and>
    (\<forall>keys n. granted (nat (validate_read_locks n)) keys \<subseteq># M \<longrightarrow>
        last (butlast (l1_events (fst (finish_read sl now keys n s)))) = L1_READ_FINISHED keys)"
proof -
  have l: "l1_ledger now M s" "l1_inv sl now s"
    using client_run_ledger [OF assms(2,1)] l1_inv_later l1_ledger_at assms(3,4) by blast+
  note e = ledger_Some [OF l(1) [unfolded l1_ledger_def]] ledger_locked_iff [OF l(1) [unfolded l1_ledger_def]]
    ledger_None [OF l(1) [unfolded l1_ledger_def]]
  show ?thesis using e finish_read_succeeds [OF l] by (auto split: option.splits)
qed

text \<open>
  Two readers are handed the objects 7 and 8 as they are written, both return them, and more than
  one time to live later a third reader locks 7.
\<close>

definition demo_run_2 :: "nat l1_manager" where
  "demo_run_2 = fst (finish_read list_sl 6 [7, 8] 2 demo_l1)"

definition demo_run_3 :: "nat l1_manager" where
  "demo_run_3 = fst (reserve_read 900000 [7] 1 demo_run_2)"

lemma demo_run: "client_run list_sl 5 demo_l1 {#7, 7, 8, 8#}"
proof -
  have "client_run list_sl 0 demo_l1_0 {#}"
    by (rule client_run.start [OF demo_l1_0_reach]) (simp_all add: demo_l1_0_def l1_init_def register_listener_def)
  moreover have "client_call list_sl 0 demo_l1_0 {#} demo_l1_w {#}"
    unfolding demo_l1_w_def by (rule client_call.other) (simp_all add: demo_layout_ok)
  ultimately have "client_run list_sl 0 demo_l1_w {#}"
    using client_run.call [OF _ order_refl, of list_sl 0 demo_l1_0 "{#}"] by (simp add: l1_fresh_def)
  moreover have "client_call list_sl 5 demo_l1_w {#} demo_l1
      ({#} + granted (nat (validate_read_locks 2)) (handed_over 5 [7, 8] 2 demo_l1_w))"
    unfolding demo_l1_def l1_exec.simps by (rule client_call.hands_over)
  ultimately have "client_run list_sl 5 demo_l1
      ({#} + granted (nat (validate_read_locks 2)) (handed_over 5 [7, 8] 2 demo_l1_w))"
    using client_run.call [of list_sl 0 demo_l1_w "{#}" 5] by (simp add: l1_fresh_def)
  moreover have "handed_over 5 [7, 8] 2 demo_l1_w = [7, 8]"
    by (simp add: handed_over_def demo_l1_w_objects l1_eval)
  ultimately show ?thesis
    by (simp add: validate_read_locks_def MAX_READ_LOCK_COUNT_def granted_def numeral_2_eq_2 add_mset_commute)
qed

lemma demo_run_2_objects:
  "l1_objects demo_run_2 = [(7, \<lparr>os_memory_obj = 0, os_write_lock = \<lparr>tl_counter = 0, tl_expiration_ms = 600000, tl_ttl_ms = 600000\<rparr>,
      os_read_lock = \<lparr>tl_counter = 0, tl_expiration_ms = 300005, tl_ttl_ms = 300000\<rparr>, os_is_temporary = False\<rparr>)]"
  by (simp add: demo_run_2_def demo_l1_objects finish_read_def finish_read_step_def l1_eval mm_free_def eval_nat_numeral)

lemma demo_run_3_objects:
  "l1_objects demo_run_3 = [(7, \<lparr>os_memory_obj = 0, os_write_lock = \<lparr>tl_counter = 0, tl_expiration_ms = 600000, tl_ttl_ms = 600000\<rparr>,
      os_read_lock = \<lparr>tl_counter = 1, tl_expiration_ms = 1200000, tl_ttl_ms = 300000\<rparr>, os_is_temporary = False\<rparr>)]"
  by (simp add: demo_run_3_def demo_run_2_objects reserve_read_def l1_eval)

lemma demo_later_run: "client_run list_sl 900000 demo_run_3 {#7#}"
proof -
  have two: "granted (nat (validate_read_locks 2)) [7, 8] = {#7, 7, 8, 8 :: nat#}"
    by (simp add: validate_read_locks_def MAX_READ_LOCK_COUNT_def granted_def numeral_2_eq_2 add_mset_commute)
  have "client_call list_sl 6 demo_l1 {#7, 7, 8, 8#} demo_run_2 {#}"
    using client_call.returns [of 2 "[7, 8]" "{#7, 7, 8, 8#}" list_sl 6 demo_l1] unfolding two by (simp add: demo_run_2_def)
  moreover have "l1_fresh 6 {#7, 7, 8, 8#} demo_l1" by (simp add: l1_fresh_def demo_l1_objects)
  ultimately have "client_run list_sl 6 demo_run_2 {#}" using client_run.call [OF demo_run, of 6] by simp
  moreover have "client_call list_sl 900000 demo_run_2 {#} demo_run_3 {#7#}"
    using client_call.reads [of list_sl 900000 demo_run_2 "{#}" "[7]" 1]
    by (simp add: demo_run_3_def [symmetric] readable_def demo_run_2_objects l1_eval)
  ultimately show ?thesis using client_run.call [of list_sl 6 demo_run_2 "{#}" 900000] by (simp add: l1_fresh_def)
qed

theorem read_locks_counted_witness:
  "client_run list_sl 900000 demo_run_3 {#7#} \<and> l1_read_ttl_seconds demo_run_3 * 1000 < 900000 \<and>
   (\<forall>key. case map_of (l1_objects demo_run_3) key of
        None \<Rightarrow> key \<notin># {#7#}
      | Some e \<Rightarrow> tl_counter (os_read_lock e) = int (count {#7#} key) \<and>
          (is_locked 900001 (os_read_lock e) \<longleftrightarrow> key \<in># {#7#})) \<and>
   last (butlast (l1_events (fst (finish_read list_sl 900001 [7] 1 demo_run_3)))) = L1_READ_FINISHED [7]"
proof -
  have f: "l1_fresh 900001 {#7#} demo_run_3" by (simp add: l1_fresh_def demo_run_3_objects)
  have t: "l1_read_ttl_seconds demo_run_3 = 300"
    by (simp add: demo_run_3_def demo_run_2_def demo_l1_def demo_l1_w_def demo_l1_0_def l1_init_def register_listener_def)
  have "granted (nat (validate_read_locks 1)) [7] \<subseteq># {#7 :: nat#}"
    by (simp add: validate_read_locks_def MAX_READ_LOCK_COUNT_def granted_def)
  then show ?thesis using demo_later_run t read_locks_counted [OF list_sl_spec demo_later_run _ f] by auto
qed

text \<open>
  A lock that outlives its time to live is not only lost: the counter does not know its holders,
  so the late return of an expired lock takes back the lock of a reader that came after the
  expiry. The object of that reader is then unlocked, and may be evicted, while it is in use.
\<close>

lemma expired_return_steals_lock:
  defines "s3 \<equiv> fst (reserve_read 400000 [7] 1 demo_l1)"
  defines "s4 \<equiv> fst (finish_read list_sl 400001 [7] 1 s3)"
  shows "(\<exists>e. map_of (l1_objects demo_l1) 7 = Some e \<and> \<not> is_locked 400000 (os_read_lock e)) \<and>
    (\<exists>e. map_of (l1_objects s3) 7 = Some e \<and> is_locked 400000 (os_read_lock e) \<and> is_locked 699999 (os_read_lock e)) \<and>
    (\<exists>e. map_of (l1_objects s4) 7 = Some e \<and> \<not> is_locked 400001 (os_read_lock e)) \<and>
    map_of (l1_objects (fst (delete_keys list_sl 400002 [7] False s4))) 7 = None"
  unfolding s4_def s3_def
  by (simp add: demo_l1_objects reserve_read_def finish_read_def finish_read_step_def delete_keys_def l1_eval mm_free_def)

end
