(* ===== verification/Store_Controller.thy ===== *)
theory Store_Controller
  imports L2_Adapter Read_Ledger
begin

text \<open>
  \<^verbatim>\<open>lmcache/v1/distributed/storage_controllers/store_policy.py\<close>,
  \<^verbatim>\<open>store_controller.py\<close> and \<^verbatim>\<open>adapter_lifecycle.py\<close>: the controller that copies objects to the
  second tier after they were written to L1.

  The state of the controller is a record; the L1 manager it reads from is passed beside it.
  Its \<open>StoreListener\<close> is one listener of the manager, the pending keys are those of the
  write-finished calls in its inbox. The adapters are states of an arbitrary type, used through
  the operations \<open>ops\<close> of the interface, which documents no exceptions. A \<open>threading.Event\<close> is a
  number, and \<open>sc_done\<close> lists the events that have been set. The poll object is not modelled: an
  iteration of the loop is given the descriptors that are ready, and the descriptors registered
  with it are the keys of \<open>sc_efd_to_adapter_index\<close> and the two of the controller. A loop over
  keys or tasks that raises leaves the state as it was at that point. Gauges, logging and the
  waiting of \<open>add_adapter\<close> for its event are not modelled.

  The runs \<open>sc_run\<close> interleave the loop, iteration by iteration or call by call, with other
  clients of the L1 manager, with the adapters and with requests to attach and remove adapters.
  The accounting of the tasks and the removal of adapters are shown for all runs, with an L1 manager
  that others may change in any way; what the tasks hold in L1 is shown for the strict runs, in
  which no read lock expires while it is held and nobody forces a deletion.
  The correctness theorems hold for every adapter that keeps \<open>l2_store_contract\<close> and every policy
  that keeps \<open>store_policy_contract\<close>, and are applied to the mock adapter and the two policies.
\<close>

section \<open>Policies\<close>

record adapter_descriptor =
  ad_index :: int
  ad_type_name :: string

record store_policy =
  select_store_targets :: "object_key list \<Rightarrow> adapter_descriptor list \<Rightarrow> (int, object_key list) pydict"
  select_l1_deletions :: "object_key list \<Rightarrow> object_key list"

definition default_select_store_targets ::
  "object_key list \<Rightarrow> adapter_descriptor list \<Rightarrow> (int, object_key list) pydict" where
  "default_select_store_targets keys adapters =
     foldl (\<lambda>d ad. dict_set (ad_index ad) keys d) [] adapters"

definition default_select_l1_deletions :: "object_key list \<Rightarrow> object_key list" where
  "default_select_l1_deletions keys = []"

definition buffer_only_select_l1_deletions :: "object_key list \<Rightarrow> object_key list" where
  "buffer_only_select_l1_deletions keys = keys"

definition DefaultStorePolicy :: store_policy where
  "DefaultStorePolicy =
     \<lparr>select_store_targets = default_select_store_targets,
      select_l1_deletions = default_select_l1_deletions\<rparr>"

definition BufferOnlyStorePolicy :: store_policy where
  "BufferOnlyStorePolicy =
     \<lparr>select_store_targets = default_select_store_targets,
      select_l1_deletions = buffer_only_select_l1_deletions\<rparr>"

type_synonym 'p policy_registry = "(string, 'p) pydict"

definition register_store_policy :: "string \<Rightarrow> 'p \<Rightarrow> 'p policy_registry \<Rightarrow> 'p policy_registry result" where
  "register_store_policy name cls reg =
     (if name \<in> dict_dom reg then Inl ValueError else Inr (dict_set name cls reg))"

definition get_registered_store_policies :: "'p policy_registry \<Rightarrow> string list" where
  "get_registered_store_policies reg = dict_keys reg"

definition create_store_policy :: "string \<Rightarrow> 'p policy_registry \<Rightarrow> 'p result" where
  "create_store_policy name reg =
     (case dict_get reg name of None \<Rightarrow> Inl ValueError | Some cls \<Rightarrow> Inr cls)"

definition store_policies :: "store_policy policy_registry" where
  "store_policies = [(''default'', DefaultStorePolicy), (''skip_l1'', BufferOnlyStorePolicy)]"

section \<open>State\<close>

definition group_keys_by_shape :: "object_key list \<Rightarrow> (string \<times> int, object_key list) pydict" where
  "group_keys_by_shape keys =
     foldl (\<lambda>groups key. let shape = (model_name key, kv_rank key)
              in dict_set shape (dict_get_default groups shape [] @ [key]) groups) [] keys"

record in_flight_store_task =
  ft_adapter_index :: int
  ft_keys :: "object_key list"
  ft_read_locked_keys :: "object_key list"
  ft_l2_store_result :: "bool option"
  ft_l2_bytes_transferred :: int

datatype 'a adapter_op =
    AddAdapterOp int 'a adapter_descriptor nat
  | RemoveAdapterOp int nat

datatype store_event =
    L1_READ_FAILED string "object_key list"
  | L2_STORE_SUBMITTED int int string nat int "string multiset"
  | L2_STORE_COMPLETED int int string int nat nat "string multiset"

record 'a store_controller =
  sc_l2_adapters :: "(int, 'a) pydict"
  sc_adapter_descriptors :: "(int, adapter_descriptor) pydict"
  sc_policy :: store_policy
  sc_draining :: "(int, nat) pydict"
  sc_pending_adapter_ops :: "'a adapter_op list"
  sc_listener :: nat
  sc_listener_efd :: int
  sc_in_flight_tasks :: "(int \<times> int, in_flight_store_task) pydict"
  sc_status_in_flight_count :: int
  sc_efd_to_adapter_index :: "(int, int) pydict"
  sc_events :: "store_event list"
  sc_done :: "nat list"

type_synonym 'a sc_pair = "'a store_controller \<times> object_key l1_manager"

definition store_controller_init ::
  "'a l2_ops \<Rightarrow> 'a list \<Rightarrow> adapter_descriptor list \<Rightarrow> store_policy \<Rightarrow> int \<Rightarrow> object_key l1_manager
     \<Rightarrow> 'a sc_pair result" where
  "store_controller_init ops l2_adapters descriptors policy listener_efd l1 =
     (if length descriptors \<noteq> length l2_adapters then Inl ValueError
      else
        let adapters = foldl (\<lambda>d (desc, a). dict_set (ad_index desc) a d) [] (zip descriptors l2_adapters);
            descs = foldl (\<lambda>d desc. dict_set (ad_index desc) desc d) [] descriptors
        in Inr (\<lparr>sc_l2_adapters = adapters, sc_adapter_descriptors = descs, sc_policy = policy,
                 sc_draining = [], sc_pending_adapter_ops = [], sc_listener = length (l1_listeners l1),
                 sc_listener_efd = listener_efd, sc_in_flight_tasks = [], sc_status_in_flight_count = 0,
                 sc_efd_to_adapter_index = foldl (\<lambda>d (i, a). dict_set (store_fd ops a) i d) [] adapters,
                 sc_events = [], sc_done = []\<rparr>, register_listener l1))"

section \<open>The listener\<close>

fun note_written :: "object_key l1_note \<Rightarrow> object_key list" where
  "note_written (Keys_Write_Finished keys) = keys"
| "note_written _ = []"

definition pending_keys :: "object_key l1_note list \<Rightarrow> object_key list" where
  "pending_keys inbox = concat (map note_written inbox)"

definition pop_pending_keys :: "nat \<Rightarrow> object_key l1_manager \<Rightarrow> object_key l1_manager \<times> object_key list" where
  "pop_pending_keys i l1 =
     (l1\<lparr>l1_listeners := (l1_listeners l1)[i := []]\<rparr>, pending_keys (l1_listeners l1 ! i))"

definition pending_count :: "nat \<Rightarrow> object_key l1_manager \<Rightarrow> nat" where
  "pending_count i l1 = length (pending_keys (l1_listeners l1 ! i))"

section \<open>Submitting\<close>

text \<open>A loop whose body may raise.\<close>

fun for_each :: "('x \<Rightarrow> 's \<Rightarrow> 's \<times> unit result) \<Rightarrow> 'x list \<Rightarrow> 's \<Rightarrow> 's \<times> unit result" where
  "for_each f [] s = (s, Inr ())"
| "for_each f (x # xs) s = (case f x s of (s', Inl e) \<Rightarrow> (s', Inl e) | (s', Inr _) \<Rightarrow> for_each f xs s')"

definition sc_publish :: "store_event \<Rightarrow> 'a store_controller \<Rightarrow> 'a store_controller" where
  "sc_publish ev sc = sc\<lparr>sc_events := sc_events sc @ [ev]\<rparr>"

definition salt_counts :: "object_key list \<Rightarrow> string multiset" where
  "salt_counts keys = mset (map cache_salt keys)"

definition read_outcome :: "(object_key, op_result) pydict \<Rightarrow> object_key \<Rightarrow> nat option" where
  "read_outcome results key =
     (case dict_get results key of Some (SUCCESS, Some m) \<Rightarrow> Some m | _ \<Rightarrow> None)"

definition read_error :: "l1_error \<Rightarrow> (object_key, op_result) pydict \<Rightarrow> object_key \<Rightarrow> bool" where
  "read_error err results key \<longleftrightarrow>
     read_outcome results key = None \<and> map_option fst (dict_get results key) = Some err"

definition submit_store_to_adapter ::
  "'a l2_ops \<Rightarrow> int \<Rightarrow> int \<times> object_key list \<Rightarrow> 'a sc_pair \<Rightarrow> 'a sc_pair \<times> unit result" where
  "submit_store_to_adapter ops now target st = (case (target, st) of ((adapter_index, target_keys), (sc, l1)) \<Rightarrow>
     if target_keys = [] then (st, Inr ())
     else case dict_get (sc_l2_adapters sc) adapter_index of
       None \<Rightarrow> (st, Inr ())
     | Some adapter \<Rightarrow>
         let (l1', read_results) = reserve_read now target_keys 1 l1;
             successful_keys = filter (\<lambda>k. read_outcome read_results k \<noteq> None) target_keys;
             successful_objs = map (\<lambda>k. ta_heap (l1_memory l1') ! the (read_outcome read_results k)) successful_keys;
             not_found_keys = filter (read_error KEY_NOT_EXIST read_results) target_keys;
             write_locked_keys = filter (read_error KEY_NOT_READABLE read_results) target_keys;
             sc1 = (if not_found_keys = [] then sc
                    else sc_publish (L1_READ_FAILED ''not_found'' not_found_keys) sc);
             sc2 = (if write_locked_keys = [] then sc1
                    else sc_publish (L1_READ_FAILED ''write_locked'' write_locked_keys) sc1)
         in if successful_keys = [] then ((sc2, l1'), Inr ())
            else
              let (adapter', task_id) = submit_store_task ops successful_keys successful_objs adapter;
                  task = \<lparr>ft_adapter_index = adapter_index, ft_keys = successful_keys,
                          ft_read_locked_keys = successful_keys, ft_l2_store_result = None,
                          ft_l2_bytes_transferred = 0\<rparr>;
                  sc3 = sc2\<lparr>sc_l2_adapters := dict_set adapter_index adapter' (sc_l2_adapters sc2),
                            sc_in_flight_tasks := dict_set (adapter_index, task_id) task (sc_in_flight_tasks sc2),
                            sc_status_in_flight_count := sc_status_in_flight_count sc2 + 1\<rparr>;
                  total_bytes = get_size (hd successful_objs) * int (length successful_objs)
              in case dict_get (sc_adapter_descriptors sc3) adapter_index of
                   None \<Rightarrow> ((sc3, l1'), Inl KeyError)
                 | Some desc \<Rightarrow>
                     ((sc_publish (L2_STORE_SUBMITTED adapter_index task_id (ad_type_name desc)
                         (length successful_keys) total_bytes (salt_counts successful_keys)) sc3, l1'), Inr ()))"

definition routing_descriptors :: "'a store_controller \<Rightarrow> adapter_descriptor list" where
  "routing_descriptors sc =
     map snd (filter (\<lambda>(i, _). i \<notin> dict_dom (sc_draining sc)) (sc_adapter_descriptors sc))"

definition submit_store_for_single_shape ::
  "'a l2_ops \<Rightarrow> int \<Rightarrow> object_key list \<Rightarrow> 'a sc_pair \<Rightarrow> 'a sc_pair \<times> unit result" where
  "submit_store_for_single_shape ops now keys st =
     (let plan = select_store_targets (sc_policy (fst st)) keys (routing_descriptors (fst st))
      in for_each (submit_store_to_adapter ops now) plan st)"

definition process_new_keys ::
  "'a l2_ops \<Rightarrow> int \<Rightarrow> object_key list \<Rightarrow> 'a sc_pair \<Rightarrow> 'a sc_pair \<times> unit result" where
  "process_new_keys ops now keys st =
     for_each (submit_store_for_single_shape ops now) (dict_values (group_keys_by_shape keys)) st"

section \<open>Completing\<close>

definition deposit_result ::
  "int \<Rightarrow> (int \<times> int, in_flight_store_task) pydict \<Rightarrow> int \<times> int \<Rightarrow> (int \<times> int, in_flight_store_task) pydict" where
  "deposit_result adapter_index tasks = (\<lambda>(task_id, result).
     case dict_get tasks (adapter_index, task_id) of
       None \<Rightarrow> tasks
     | Some task \<Rightarrow>
         dict_set (adapter_index, task_id)
           (task\<lparr>ft_l2_store_result := Some (is_successful result),
                 ft_l2_bytes_transferred := bytes_transferred result\<rparr>) tasks)"

definition drain_adapter :: "'a l2_ops \<Rightarrow> int \<Rightarrow> 'a store_controller \<Rightarrow> 'a store_controller \<times> unit result" where
  "drain_adapter ops adapter_index sc =
     (case dict_get (sc_l2_adapters sc) adapter_index of
        None \<Rightarrow> (sc, Inl KeyError)
      | Some adapter \<Rightarrow>
          let (adapter', completed) = pop_completed_store_tasks ops adapter
          in (sc\<lparr>sc_l2_adapters := dict_set adapter_index adapter' (sc_l2_adapters sc),
                 sc_in_flight_tasks := foldl (deposit_result adapter_index) (sc_in_flight_tasks sc) completed\<rparr>,
              Inr ()))"

definition drain_l2_store_completions ::
  "'a l2_ops \<Rightarrow> int list \<Rightarrow> 'a store_controller \<Rightarrow> 'a store_controller \<times> unit result" where
  "drain_l2_store_completions ops signaled sc = for_each (drain_adapter ops) signaled sc"

definition finalize_store ::
  "sorted_list_ops \<Rightarrow> int \<Rightarrow> int \<times> int \<Rightarrow> in_flight_store_task \<Rightarrow> 'a sc_pair \<Rightarrow> 'a sc_pair \<times> unit result" where
  "finalize_store sl now task_key task st = (case (task_key, st) of ((adapter_index, task_id), (sc, l1)) \<Rightarrow>
     let success = (ft_l2_store_result task = Some True);
         l1' = fst (finish_read sl now (ft_read_locked_keys task) 1 l1)
     in if task_key \<notin> dict_dom (sc_in_flight_tasks sc) then ((sc, l1'), Inl KeyError)
        else
          let sc1 = sc\<lparr>sc_in_flight_tasks := dict_del task_key (sc_in_flight_tasks sc),
                       sc_status_in_flight_count := sc_status_in_flight_count sc - 1\<rparr>
          in case dict_get (sc_adapter_descriptors sc1) adapter_index of
               None \<Rightarrow> ((sc1, l1'), Inl KeyError)
             | Some desc \<Rightarrow>
                 if success then
                   let sc2 = sc_publish (L2_STORE_COMPLETED adapter_index task_id (ad_type_name desc)
                               (ft_l2_bytes_transferred task) (length (ft_keys task)) 0 (salt_counts (ft_keys task))) sc1;
                       delete_keys0 = select_l1_deletions (sc_policy sc2) (ft_keys task)
                   in ((sc2, if delete_keys0 = [] then l1' else fst (delete_keys sl now delete_keys0 False l1')), Inr ())
                 else
                   ((sc_publish (L2_STORE_COMPLETED adapter_index task_id (ad_type_name desc)
                       (ft_l2_bytes_transferred task) 0 (length (ft_keys task)) {#}) sc1, l1'), Inr ()))"

definition advance_request ::
  "sorted_list_ops \<Rightarrow> int \<Rightarrow> (int \<times> int) \<times> in_flight_store_task \<Rightarrow> 'a sc_pair \<Rightarrow> 'a sc_pair \<times> unit result" where
  "advance_request sl now item st =
     (if ft_l2_store_result (snd item) = None then (st, Inr ())
      else finalize_store sl now (fst item) (snd item) st)"

text \<open>Each task is advanced in a \<open>try\<close> of its own.\<close>

definition advance_all :: "sorted_list_ops \<Rightarrow> int \<Rightarrow> 'a sc_pair \<Rightarrow> 'a sc_pair" where
  "advance_all sl now st =
     foldl (\<lambda>st item. fst (advance_request sl now item st)) st (sc_in_flight_tasks (fst st))"

definition cleanup_in_flight_tasks :: "sorted_list_ops \<Rightarrow> int \<Rightarrow> 'a sc_pair \<Rightarrow> 'a sc_pair" where
  "cleanup_in_flight_tasks sl now st = (case st of (sc, l1) \<Rightarrow>
     (sc\<lparr>sc_in_flight_tasks := []\<rparr>,
      foldl (\<lambda>l1 (_, task). fst (finish_read sl now (ft_read_locked_keys task) 1 l1)) l1 (sc_in_flight_tasks sc)))"

section \<open>Adapters that come and go\<close>

definition add_adapter :: "int \<Rightarrow> 'a \<Rightarrow> adapter_descriptor \<Rightarrow> nat \<Rightarrow> 'a store_controller \<Rightarrow> 'a store_controller" where
  "add_adapter adapter_id adapter desc ev sc =
     sc\<lparr>sc_pending_adapter_ops := sc_pending_adapter_ops sc @ [AddAdapterOp adapter_id adapter desc ev]\<rparr>"

definition request_remove_adapter :: "int \<Rightarrow> nat \<Rightarrow> 'a store_controller \<Rightarrow> 'a store_controller" where
  "request_remove_adapter adapter_id ev sc =
     sc\<lparr>sc_pending_adapter_ops := sc_pending_adapter_ops sc @ [RemoveAdapterOp adapter_id ev]\<rparr>"

fun apply_adapter_op :: "'a l2_ops \<Rightarrow> 'a store_controller \<Rightarrow> 'a adapter_op \<Rightarrow> 'a store_controller" where
  "apply_adapter_op ops sc (AddAdapterOp adapter_id adapter desc ev) =
     sc\<lparr>sc_l2_adapters := dict_set adapter_id adapter (sc_l2_adapters sc),
        sc_adapter_descriptors := dict_set adapter_id desc (sc_adapter_descriptors sc),
        sc_efd_to_adapter_index := dict_set (store_fd ops adapter) adapter_id (sc_efd_to_adapter_index sc),
        sc_done := sc_done sc @ [ev]\<rparr>"
| "apply_adapter_op ops sc (RemoveAdapterOp adapter_id ev) =
     (if adapter_id \<notin> dict_dom (sc_l2_adapters sc) then sc\<lparr>sc_done := sc_done sc @ [ev]\<rparr>
      else sc\<lparr>sc_draining := dict_set adapter_id ev (sc_draining sc)\<rparr>)"

definition apply_pending_adapter_ops :: "'a l2_ops \<Rightarrow> 'a store_controller \<Rightarrow> 'a store_controller" where
  "apply_pending_adapter_ops ops sc =
     foldl (apply_adapter_op ops) (sc\<lparr>sc_pending_adapter_ops := []\<rparr>) (sc_pending_adapter_ops sc)"

definition adapter_in_use :: "'a store_controller \<Rightarrow> int \<Rightarrow> bool" where
  "adapter_in_use sc adapter_id \<longleftrightarrow> list_ex (\<lambda>((i, _), _). i = adapter_id) (sc_in_flight_tasks sc)"

definition finalize_drained_adapter ::
  "'a l2_ops \<Rightarrow> int \<Rightarrow> 'a store_controller \<Rightarrow> 'a store_controller \<times> unit result" where
  "finalize_drained_adapter ops adapter_id sc =
     (if adapter_in_use sc adapter_id then (sc, Inr ())
      else case dict_get (sc_l2_adapters sc) adapter_id of
        None \<Rightarrow> (sc, Inl KeyError)
      | Some adapter \<Rightarrow>
          (sc\<lparr>sc_l2_adapters := dict_del adapter_id (sc_l2_adapters sc),
              sc_adapter_descriptors := dict_del adapter_id (sc_adapter_descriptors sc),
              sc_efd_to_adapter_index := dict_del (store_fd ops adapter) (sc_efd_to_adapter_index sc),
              sc_draining := dict_del adapter_id (sc_draining sc),
              sc_done := sc_done sc @ (case dict_get (sc_draining sc) adapter_id of None \<Rightarrow> [] | Some ev \<Rightarrow> [ev])\<rparr>,
           Inr ()))"

definition finalize_drained_adapters :: "'a l2_ops \<Rightarrow> 'a store_controller \<Rightarrow> 'a store_controller \<times> unit result" where
  "finalize_drained_adapters ops sc =
     for_each (finalize_drained_adapter ops) (dict_keys (sc_draining sc)) sc"

section \<open>The loop\<close>

text \<open>One iteration, given the ready descriptors in the order \<open>poll\<close> returns them. An exception
  of \<open>_finalize_drained_adapters\<close> would end the thread and is returned.\<close>

definition handle_ready ::
  "'a l2_ops \<Rightarrow> int \<Rightarrow> 'a sc_pair \<times> int list \<Rightarrow> int \<Rightarrow> 'a sc_pair \<times> int list" where
  "handle_ready ops now acc fd = (case acc of ((sc, l1), signaled) \<Rightarrow>
     if fd = sc_listener_efd sc then
       let (l1', keys) = pop_pending_keys (sc_listener sc) l1
       in (if keys = [] then (sc, l1') else fst (process_new_keys ops now keys (sc, l1')), signaled)
     else case dict_get (sc_efd_to_adapter_index sc) fd of
       None \<Rightarrow> ((sc, l1), signaled)
     | Some i \<Rightarrow> ((sc, l1), if i \<in> set signaled then signaled else signaled @ [i]))"

definition store_loop_iteration ::
  "sorted_list_ops \<Rightarrow> 'a l2_ops \<Rightarrow> int \<Rightarrow> int list \<Rightarrow> 'a sc_pair \<Rightarrow> 'a sc_pair \<times> unit result" where
  "store_loop_iteration sl ops now ready st =
     (let (st1, signaled) = foldl (handle_ready ops now)
            ((apply_pending_adapter_ops ops (fst st), snd st), []) ready;
          st2 = (if signaled = [] then st1
                 else advance_all sl now (fst (drain_l2_store_completions ops signaled (fst st1)), snd st1));
          (sc, r) = finalize_drained_adapters ops (fst st2)
      in ((sc, snd st2), r))"

section \<open>Status\<close>

record sc_status =
  ss_pending_keys_count :: nat
  ss_in_flight_task_count :: int
  ss_num_l2_adapters :: nat
  ss_num_active_adapters :: int
  ss_num_draining_adapters :: nat

definition sc_report_status :: "'a sc_pair \<Rightarrow> sc_status" where
  "sc_report_status st = (case st of (sc, l1) \<Rightarrow>
     \<lparr>ss_pending_keys_count = pending_count (sc_listener sc) l1,
      ss_in_flight_task_count = sc_status_in_flight_count sc,
      ss_num_l2_adapters = length (sc_l2_adapters sc),
      ss_num_active_adapters = int (length (sc_l2_adapters sc)) - int (length (sc_draining sc)),
      ss_num_draining_adapters = length (sc_draining sc)\<rparr>)"

definition get_inflight_stores_observations :: "'a store_controller \<Rightarrow> (nat \<times> string \<times> int) list" where
  "get_inflight_stores_observations sc =
     (let counts = foldl (\<lambda>d ((i, _), _). dict_set i (dict_get_default d i 0 + 1) d) [] (sc_in_flight_tasks sc)
      in concat (map (\<lambda>(i, n). case dict_get (sc_adapter_descriptors sc) i of
                    None \<Rightarrow> [] | Some desc \<Rightarrow> [(n, ad_type_name desc, i)]) counts))"



section \<open>Task tables\<close>

lemma mset_dict_set: "dict_wf d \<Longrightarrow> mset (dict_set k v d) = add_mset (k, v) (mset (dict_del k d))"
  using mset_map_del [of "dict_set k v d" k v] by (simp add: AList.delete_update_same)

definition task_locks :: "(int \<times> int, in_flight_store_task) pydict \<Rightarrow> object_key multiset" where
  "task_locks tasks = (\<Sum>p\<in>#mset tasks. mset (ft_read_locked_keys (snd p)))"

definition task_ids :: "(int \<times> int, in_flight_store_task) pydict \<Rightarrow> int \<Rightarrow> int set" where
  "task_ids tasks i = {t. (i, t) \<in> dict_dom tasks}"

definition open_ids :: "(int \<times> int, in_flight_store_task) pydict \<Rightarrow> int \<Rightarrow> int set" where
  "open_ids tasks i = {t. \<exists>task. map_of tasks (i, t) = Some task \<and> ft_l2_store_result task = None}"

lemma open_ids_subset: "open_ids tasks i \<subseteq> task_ids tasks i"
  by (auto simp: open_ids_def task_ids_def dict_dom_iff)

lemma task_locks_simps:
  "task_locks [] = {#}"
  "dict_wf tasks \<Longrightarrow> p \<notin> dict_dom tasks \<Longrightarrow>
     task_locks (dict_set p task tasks) = task_locks tasks + mset (ft_read_locked_keys task)"
  "dict_wf tasks \<Longrightarrow> map_of tasks p = Some task \<Longrightarrow>
     task_locks tasks = task_locks (dict_del p tasks) + mset (ft_read_locked_keys task)"
  "dict_wf tasks \<Longrightarrow> map_of tasks p = Some task \<Longrightarrow> ft_read_locked_keys task' = ft_read_locked_keys task \<Longrightarrow>
     task_locks (dict_set p task' tasks) = task_locks tasks"
  by (auto simp: task_locks_def mset_dict_set mset_map_del dict_del_absent dict_dom_iff)

lemma task_locks_member:
  "map_of tasks p = Some task \<Longrightarrow> mset (ft_read_locked_keys task) \<subseteq># task_locks tasks"
  by (induction tasks) (auto simp: task_locks_def subset_mset.add_increasing subset_mset.add_increasing2 split: if_splits)

lemma dict_keys_update:
  "dict_wf tasks \<Longrightarrow> p \<notin> dict_dom tasks \<Longrightarrow> image_mset fst (mset (dict_set p task tasks)) = add_mset p (image_mset fst (mset tasks))"
  "dict_wf tasks \<Longrightarrow> map_of tasks p = Some task \<Longrightarrow> image_mset fst (mset tasks) = add_mset p (image_mset fst (mset (dict_del p tasks)))"
  "dict_wf tasks \<Longrightarrow> map_of tasks p = Some task \<Longrightarrow> image_mset fst (mset (dict_set p task' tasks)) = image_mset fst (mset tasks)"
  by (auto simp: mset_dict_set dict_del_absent dict_dom_iff mset_map_del)

section \<open>What a policy promises\<close>

text \<open>A policy only names adapters it was offered. The controller skips any other adapter that is
  not attached, but would store to a draining one.\<close>

locale store_policy_contract =
  fixes policy :: store_policy
  assumes targets_offered:
    "dict_dom (select_store_targets policy keys descs) \<subseteq> ad_index ` set descs"

lemma default_targets_offered: "dict_dom (default_select_store_targets keys descs) = ad_index ` set descs"
proof -
  have "dict_dom (foldl (\<lambda>d ad. dict_set (ad_index ad) keys d) d0 descs) = dict_dom d0 \<union> ad_index ` set descs" for d0
    by (induction descs arbitrary: d0) auto
  then show ?thesis by (simp add: default_select_store_targets_def)
qed

interpretation default_policy: store_policy_contract DefaultStorePolicy
  by unfold_locales (simp add: DefaultStorePolicy_def default_targets_offered)

interpretation buffer_only_policy: store_policy_contract BufferOnlyStorePolicy
  by unfold_locales (simp add: BufferOnlyStorePolicy_def default_targets_offered)

section \<open>The invariant of the controller\<close>

text \<open>The attached adapters, their descriptors and their descriptors of the poll.\<close>

definition reg_ok :: "'a l2_ops \<Rightarrow> 'a store_controller \<Rightarrow> bool" where
  "reg_ok ops sc \<longleftrightarrow> dict_wf (sc_l2_adapters sc) \<and> dict_wf (sc_draining sc) \<and>
     dict_dom (sc_adapter_descriptors sc) = dict_dom (sc_l2_adapters sc) \<and>
     (\<forall>p \<in> set (sc_adapter_descriptors sc). ad_index (snd p) = fst p) \<and>
     dict_dom (sc_draining sc) \<subseteq> dict_dom (sc_l2_adapters sc) \<and>
     (\<forall>i a. map_of (sc_l2_adapters sc) i = Some a \<longrightarrow> map_of (sc_efd_to_adapter_index sc) (store_fd ops a) = Some i) \<and>
     (\<forall>fd i. map_of (sc_efd_to_adapter_index sc) fd = Some i \<longrightarrow>
        (\<exists>a. map_of (sc_l2_adapters sc) i = Some a \<and> store_fd ops a = fd)) \<and>
     sc_listener_efd sc \<notin> dict_dom (sc_efd_to_adapter_index sc)"

text \<open>The tasks in flight and the adapters that work on them.\<close>

definition tasks_ok :: "('a \<Rightarrow> int set \<Rightarrow> int set \<Rightarrow> bool) \<Rightarrow> 'a store_controller \<Rightarrow> bool" where
  "tasks_ok store_ok sc \<longleftrightarrow> dict_wf (sc_in_flight_tasks sc) \<and>
     (\<forall>i t. (i, t) \<in> dict_dom (sc_in_flight_tasks sc) \<longrightarrow> i \<in> dict_dom (sc_l2_adapters sc)) \<and>
     (\<forall>i a. map_of (sc_l2_adapters sc) i = Some a \<longrightarrow>
        store_ok a (open_ids (sc_in_flight_tasks sc) i) (task_ids (sc_in_flight_tasks sc) i)) \<and>
     sc_status_in_flight_count sc = int (length (sc_in_flight_tasks sc))"

fun ev_submitted :: "store_event \<Rightarrow> (int \<times> int) multiset" where
  "ev_submitted (L2_STORE_SUBMITTED i t _ _ _ _) = {#(i, t)#}"
| "ev_submitted _ = {#}"

fun ev_completed :: "store_event \<Rightarrow> (int \<times> int) multiset" where
  "ev_completed (L2_STORE_COMPLETED i t _ _ _ _ _) = {#(i, t)#}"
| "ev_completed _ = {#}"

definition events_ok :: "'a store_controller \<Rightarrow> bool" where
  "events_ok sc \<longleftrightarrow> (\<Sum>ev\<in>#mset (sc_events sc). ev_submitted ev) =
     (\<Sum>ev\<in>#mset (sc_events sc). ev_completed ev) + mset (map fst (sc_in_flight_tasks sc))"

text \<open>The adapters that are waiting to be attached have ids and descriptors of their own.\<close>

fun add_op :: "'a adapter_op \<Rightarrow> (int \<times> 'a) list" where
  "add_op (AddAdapterOp i a desc ev) = [(i, a)]"
| "add_op (RemoveAdapterOp i ev) = []"

fun add_op_ok :: "'a adapter_op \<Rightarrow> bool" where
  "add_op_ok (AddAdapterOp i a desc ev) = (ad_index desc = i)"
| "add_op_ok (RemoveAdapterOp i ev) = True"

definition waiting :: "'a store_controller \<Rightarrow> (int \<times> 'a) list" where
  "waiting sc = concat (map add_op (sc_pending_adapter_ops sc))"

definition waiting_ok ::
  "'a l2_ops \<Rightarrow> ('a \<Rightarrow> int set \<Rightarrow> int set \<Rightarrow> bool) \<Rightarrow> 'a store_controller \<Rightarrow> bool" where
  "waiting_ok ops store_ok sc \<longleftrightarrow> distinct (map fst (waiting sc)) \<and> distinct (map (store_fd ops \<circ> snd) (waiting sc)) \<and>
     list_all add_op_ok (sc_pending_adapter_ops sc) \<and>
     (\<forall>(i, a) \<in> set (waiting sc). i \<notin> dict_dom (sc_l2_adapters sc) \<and> store_ok a {} {} \<and>
        store_fd ops a \<notin> dict_dom (sc_efd_to_adapter_index sc) \<and> store_fd ops a \<noteq> sc_listener_efd sc)"

definition sc_ok :: "'a l2_ops \<Rightarrow> ('a \<Rightarrow> int set \<Rightarrow> int set \<Rightarrow> bool) \<Rightarrow> 'a store_controller \<Rightarrow> bool" where
  "sc_ok ops store_ok sc \<longleftrightarrow> reg_ok ops sc \<and> tasks_ok store_ok sc \<and> events_ok sc \<and> waiting_ok ops store_ok sc \<and>
     store_policy_contract (sc_policy sc)"

text \<open>The controller together with the L1 manager; \<open>M\<close> are the read locks of everybody else. Only in
  \<open>strict\<close> runs, where no lock expires while it is held and nobody overrides locks, the state of
  the manager is tied to the locks of the tasks.\<close>

definition sc_good ::
  "sorted_list_ops \<Rightarrow> 'a l2_ops \<Rightarrow> ('a \<Rightarrow> int set \<Rightarrow> int set \<Rightarrow> bool) \<Rightarrow> bool \<Rightarrow> int \<Rightarrow> object_key multiset
     \<Rightarrow> 'a sc_pair \<Rightarrow> bool" where
  "sc_good sl ops store_ok strict now M st \<longleftrightarrow> sc_ok ops store_ok (fst st) \<and>
     (strict \<longrightarrow> l1_ledger now (task_locks (sc_in_flight_tasks (fst st)) + M) (snd st) \<and> l1_inv sl now (snd st))"

text \<open>What an operation on tasks leaves alone.\<close>

definition sc_frame :: "'a sc_pair \<Rightarrow> 'a sc_pair \<Rightarrow> bool" where
  "sc_frame st st' \<longleftrightarrow> dict_dom (sc_l2_adapters (fst st')) = dict_dom (sc_l2_adapters (fst st)) \<and>
     sc_adapter_descriptors (fst st') = sc_adapter_descriptors (fst st) \<and>
     sc_policy (fst st') = sc_policy (fst st) \<and> sc_draining (fst st') = sc_draining (fst st) \<and>
     sc_pending_adapter_ops (fst st') = sc_pending_adapter_ops (fst st) \<and>
     sc_listener (fst st') = sc_listener (fst st) \<and> sc_listener_efd (fst st') = sc_listener_efd (fst st) \<and>
     sc_efd_to_adapter_index (fst st') = sc_efd_to_adapter_index (fst st) \<and> sc_done (fst st') = sc_done (fst st) \<and>
     l1_read_ttl_seconds (snd st') = l1_read_ttl_seconds (snd st)"

lemma sc_frame_refl [simp]: "sc_frame st st"
  by (simp add: sc_frame_def)

lemma sc_frame_trans: "sc_frame st1 st2 \<Longrightarrow> sc_frame st2 st3 \<Longrightarrow> sc_frame st1 st3"
  by (simp add: sc_frame_def)

lemma reg_ok_adapter:
  assumes "reg_ok ops sc" "map_of (sc_l2_adapters sc) i = Some a" "store_fd ops a' = store_fd ops a"
    "sc_l2_adapters sc' = dict_set i a' (sc_l2_adapters sc)" "sc_frame (sc, l1) (sc', l1')"
  shows "reg_ok ops sc'"
proof -
  have old: "map_of (sc_l2_adapters sc) j = Some b \<Longrightarrow> map_of (sc_efd_to_adapter_index sc) (store_fd ops b) = Some j"
    "map_of (sc_efd_to_adapter_index sc) fd = Some j \<Longrightarrow> \<exists>b. map_of (sc_l2_adapters sc) j = Some b \<and> store_fd ops b = fd" for j b fd
    using assms(1) by (simp_all add: reg_ok_def)
  have "\<exists>b. map_of (sc_l2_adapters sc') j = Some b \<and> store_fd ops b = fd"
    if "map_of (sc_efd_to_adapter_index sc) fd = Some j" for fd j
    using old(2) [OF that] assms(2-4) by auto
  moreover have "map_of (sc_efd_to_adapter_index sc) (store_fd ops b) = Some j" if "map_of (sc_l2_adapters sc') j = Some b" for j b
    using that old(1) assms(2-4) by (auto split: if_splits)
  ultimately show ?thesis using assms(1,4,5) by (simp add: reg_ok_def sc_frame_def)
qed

lemma waiting_ok_frame: "waiting_ok ops store_ok sc \<Longrightarrow> sc_frame (sc, l1) (sc', l1') \<Longrightarrow> waiting_ok ops store_ok sc'"
  by (simp add: waiting_ok_def waiting_def sc_frame_def)

lemma events_ok_publish:
  assumes "ev_submitted ev = {#}" "ev_completed ev = {#}"
  shows "events_ok (sc_publish ev sc) = events_ok sc"
  using assms by (simp add: events_ok_def sc_publish_def)

lemma ids_set [simp]:
  "task_ids (dict_set (j, t) task tasks) i = (if i = j then insert t (task_ids tasks i) else task_ids tasks i)"
  "task_ids (dict_del (j, t) tasks) i = (if i = j then task_ids tasks i - {t} else task_ids tasks i)"
  "open_ids (dict_set (j, t) task tasks) i =
     (if i = j then (if ft_l2_store_result task = None then insert t (open_ids tasks i) else open_ids tasks i - {t})
      else open_ids tasks i)"
  "open_ids (dict_del (j, t) tasks) i = (if i = j then open_ids tasks i - {t} else open_ids tasks i)"
  by (auto simp: task_ids_def open_ids_def)

definition same_adapter :: "int \<Rightarrow> 'a store_controller \<Rightarrow> 'a store_controller \<Rightarrow> bool" where
  "same_adapter j sc sc' \<longleftrightarrow> map_of (sc_l2_adapters sc') j = map_of (sc_l2_adapters sc) j \<and>
     task_ids (sc_in_flight_tasks sc') j = task_ids (sc_in_flight_tasks sc) j \<and>
     open_ids (sc_in_flight_tasks sc') j = open_ids (sc_in_flight_tasks sc) j"

lemma read_one_lock [simp]: "nat (validate_read_locks 1) = Suc 0"
  by (simp add: validate_read_locks_def MAX_READ_LOCK_COUNT_def)

lemma read_successes:
  "filter (\<lambda>k. read_outcome (snd (reserve_read now keys 1 l1)) k \<noteq> None) keys =
    filter (readable now (l1_objects l1)) keys"
proof (rule filter_cong [OF HOL.refl])
  fix k assume "k \<in> set keys"
  then show "(read_outcome (snd (reserve_read now keys 1 l1)) k \<noteq> None) = readable now (l1_objects l1) k"
    using reserve_read_outcome [of k keys now 1 l1]
    by (auto simp: read_outcome_def readable_def read_result_def split: option.splits)
qed

lemma publish_frame [simp]:
  "sc_l2_adapters (sc_publish ev sc) = sc_l2_adapters sc" "sc_adapter_descriptors (sc_publish ev sc) = sc_adapter_descriptors sc"
  "sc_policy (sc_publish ev sc) = sc_policy sc" "sc_draining (sc_publish ev sc) = sc_draining sc"
  "sc_pending_adapter_ops (sc_publish ev sc) = sc_pending_adapter_ops sc" "sc_listener (sc_publish ev sc) = sc_listener sc"
  "sc_listener_efd (sc_publish ev sc) = sc_listener_efd sc" "sc_in_flight_tasks (sc_publish ev sc) = sc_in_flight_tasks sc"
  "sc_status_in_flight_count (sc_publish ev sc) = sc_status_in_flight_count sc"
  "sc_efd_to_adapter_index (sc_publish ev sc) = sc_efd_to_adapter_index sc" "sc_done (sc_publish ev sc) = sc_done sc"
  "sc_events (sc_publish ev sc) = sc_events sc @ [ev]"
  by (simp_all add: sc_publish_def)

lemma publish_ok:
  assumes "ev_submitted ev = {#}" "ev_completed ev = {#}"
  shows "sc_ok ops store_ok (sc_publish ev sc) = sc_ok ops store_ok sc"
  using assms by (simp add: sc_ok_def events_ok_publish reg_ok_def tasks_ok_def waiting_ok_def waiting_def)

text \<open>The events of keys that could not be read.\<close>

definition publish_failures ::
  "(object_key, op_result) pydict \<Rightarrow> object_key list \<Rightarrow> 'a store_controller \<Rightarrow> 'a store_controller" where
  "publish_failures results keys sc =
     (let nf = filter (read_error KEY_NOT_EXIST results) keys;
          wl = filter (read_error KEY_NOT_READABLE results) keys;
          sc1 = (if nf = [] then sc else sc_publish (L1_READ_FAILED ''not_found'' nf) sc)
      in if wl = [] then sc1 else sc_publish (L1_READ_FAILED ''write_locked'' wl) sc1)"

lemma publish_failures_ok [simp]:
  "sc_ok ops store_ok (publish_failures results keys sc) = sc_ok ops store_ok sc"
  by (simp add: publish_failures_def Let_def publish_ok)

lemma publish_failures_frame [simp]:
  "sc_frame st (publish_failures results keys sc, l1) = sc_frame st (sc, l1)"
  "sc_in_flight_tasks (publish_failures results keys sc) = sc_in_flight_tasks sc"
  "sc_l2_adapters (publish_failures results keys sc) = sc_l2_adapters sc"
  "sc_adapter_descriptors (publish_failures results keys sc) = sc_adapter_descriptors sc"
  by (simp_all add: publish_failures_def Let_def sc_frame_def)

text \<open>A submission that reads some key: the task that is recorded.\<close>

definition new_task :: "int \<Rightarrow> object_key list \<Rightarrow> in_flight_store_task" where
  "new_task i keys = \<lparr>ft_adapter_index = i, ft_keys = keys, ft_read_locked_keys = keys,
     ft_l2_store_result = None, ft_l2_bytes_transferred = 0\<rparr>"

definition record_task ::
  "int \<Rightarrow> 'a \<Rightarrow> int \<Rightarrow> object_key list \<Rightarrow> store_event \<Rightarrow> 'a store_controller \<Rightarrow> 'a store_controller" where
  "record_task i a t keys ev sc = sc_publish ev
     (sc\<lparr>sc_l2_adapters := dict_set i a (sc_l2_adapters sc),
         sc_in_flight_tasks := dict_set (i, t) (new_task i keys) (sc_in_flight_tasks sc),
         sc_status_in_flight_count := sc_status_in_flight_count sc + 1\<rparr>)"

lemma dict_set_size: "p \<notin> dict_dom d \<Longrightarrow> length (dict_set p v d) = Suc (length d)"
  by (simp add: dict_set_new dict_dom_def)

context l2_store_contract
begin

lemma record_task_ok:
  assumes "sc_ok ops store_ok sc" "map_of (sc_l2_adapters sc) i = Some a" "submit_store_task ops keys objs a = (a', t)"
    "ev_submitted ev = {#(i, t)#}" "ev_completed ev = {#}"
  shows "sc_ok ops store_ok (record_task i a' t keys' ev sc) \<and> (i, t) \<notin> dict_dom (sc_in_flight_tasks sc) \<and>
    sc_frame (sc, l1) (record_task i a' t keys' ev sc, l1)"
proof -
  let ?sc = "record_task i a' t keys' ev sc" and ?ts = "sc_in_flight_tasks sc"
  have ok: "tasks_ok store_ok sc" "events_ok sc" "reg_ok ops sc" "waiting_ok ops store_ok sc"
    using assms(1) by (simp_all add: sc_ok_def)
  have sub: "t \<notin> task_ids ?ts i" "store_ok a' (insert t (open_ids ?ts i)) (insert t (task_ids ?ts i))" "store_fd ops a' = store_fd ops a"
    using submit_store [OF _ assms(3)] ok(1) assms(2) unfolding tasks_ok_def by blast+
  have new: "(i, t) \<notin> dict_dom ?ts" using sub(1) by (simp add: task_ids_def)
  have i: "i \<in> dict_dom (sc_l2_adapters sc)" using assms(2) by (simp add: dict_dom_iff)
  have fr: "sc_frame (sc, l1) (?sc, l1)" using i by (auto simp: sc_frame_def record_task_def)
  have "tasks_ok store_ok ?sc"
    using ok(1) sub(2) i new unfolding tasks_ok_def record_task_def
    by (auto simp: new_task_def dict_set_size)
  moreover have "events_ok ?sc"
    using ok(1,2) new assms(4,5) unfolding events_ok_def record_task_def
    by (simp add: dict_keys_update(1) tasks_ok_def)
  moreover have "reg_ok ops ?sc"
    by (rule reg_ok_adapter [OF ok(3) assms(2) sub(3) _ fr]) (simp add: record_task_def)
  moreover have "waiting_ok ops store_ok ?sc" by (rule waiting_ok_frame [OF ok(4) fr])
  ultimately show ?thesis using new fr assms(1) by (simp add: sc_ok_def record_task_def)
qed

lemma submit_eq:
  fixes l1 :: "object_key l1_manager" and now :: int
  assumes "sc_ok ops store_ok sc" "keys \<noteq> []" "map_of (sc_l2_adapters sc) i = Some a"
  defines "rd \<equiv> filter (readable now (l1_objects l1)) keys" and "l1' \<equiv> fst (reserve_read now keys 1 l1)"
    and "sc1 \<equiv> publish_failures (snd (reserve_read now keys 1 l1)) keys sc"
  shows "if rd = [] then submit_store_to_adapter ops now (i, keys) (sc, l1) = ((sc1, l1'), Inr ())
    else \<exists>objs a' t ev. submit_store_task ops rd objs a = (a', t) \<and> ev_submitted ev = {#(i, t)#} \<and> ev_completed ev = {#} \<and>
      submit_store_to_adapter ops now (i, keys) (sc, l1) = ((record_task i a' t rd ev sc1, l1'), Inr ())"
proof -
  obtain l r where lr: "reserve_read now keys 1 l1 = (l, r)" by (metis surj_pair)
  have rd: "filter (\<lambda>k. \<exists>y. read_outcome r k = Some y) keys = rd" unfolding rd_def using read_successes [of now keys l1] lr by simp
  obtain desc where desc: "map_of (sc_adapter_descriptors sc) i = Some desc"
    using assms(1,3) unfolding sc_ok_def reg_ok_def by (metis dict_dom_iff not_None_eq option.distinct(1))
  have l1': "l1' = l" using lr by (simp add: l1'_def)
  show ?thesis
  proof (cases "rd = []")
    case True
    then show ?thesis using assms(2,3) lr rd
      by (simp add: submit_store_to_adapter_def Let_def sc1_def publish_failures_def l1')
  next
    case False
    let ?objs = "map (\<lambda>k. ta_heap (l1_memory l) ! the (read_outcome r k)) rd"
    obtain a' t where t: "submit_store_task ops rd ?objs a = (a', t)" by (metis surj_pair)
    let ?ev = "L2_STORE_SUBMITTED i t (ad_type_name desc) (length rd) (get_size (hd ?objs) * int (length ?objs)) (salt_counts rd)"
    have "submit_store_to_adapter ops now (i, keys) (sc, l1) = ((record_task i a' t rd ?ev sc1, l1'), Inr ())"
      using False assms(2,3) lr desc unfolding submit_store_to_adapter_def l1'
      by (simp add: rd t Let_def sc1_def publish_failures_def record_task_def new_task_def)
    then show ?thesis unfolding if_not_P [OF False]
      by (intro exI [of _ ?objs] exI [of _ a'] exI [of _ t] exI [of _ ?ev]) (simp add: t)
  qed
qed

lemma submit_good:
  assumes "sc_good sl ops store_ok strict now M (sc, l1)"
  shows "\<exists>st'. submit_store_to_adapter ops now (i, keys) (sc, l1) = (st', Inr ()) \<and> sc_good sl ops store_ok strict now M st' \<and>
    sc_frame (sc, l1) st' \<and> (\<forall>j. j \<noteq> i \<longrightarrow> same_adapter j sc (fst st'))"
proof (cases "keys = [] \<or> map_of (sc_l2_adapters sc) i = None")
  case True
  then show ?thesis using assms by (auto simp: submit_store_to_adapter_def same_adapter_def)
next
  case False
  then obtain a where a: "keys \<noteq> []" "map_of (sc_l2_adapters sc) i = Some a" by auto
  let ?rd = "filter (readable now (l1_objects l1)) keys" and ?l1 = "fst (reserve_read now keys 1 l1)"
  let ?sc1 = "publish_failures (snd (reserve_read now keys 1 l1)) keys sc"
  let ?H = "task_locks (sc_in_flight_tasks sc)"
  have good: "sc_ok ops store_ok sc" using assms by (simp add: sc_good_def)
  have l: "l1_ledger now (?H + M + mset ?rd) ?l1 \<and> l1_inv sl now ?l1" if strict
    using reserve_read_ledger [of now "?H + M" l1 1 keys] reserve_read_inv [of sl now l1 keys 1] assms that by (simp add: sc_good_def)
  have ok1: "sc_ok ops store_ok ?sc1" "map_of (sc_l2_adapters ?sc1) i = Some a" using good a(2) by simp_all
  have f0: "sc_frame (sc, l1) (?sc1, ?l1)" unfolding publish_failures_frame by (simp add: sc_frame_def)
  note eq = submit_eq [OF good a, of now l1]
  show ?thesis
  proof (cases "?rd = []")
    case True
    then have s: "submit_store_to_adapter ops now (i, keys) (sc, l1) = ((?sc1, ?l1), Inr ())" using eq by simp
    have "l1_ledger now (?H + M) ?l1 \<and> l1_inv sl now ?l1" if strict using l [OF that] by (simp only: True mset.simps add_0_right)
    then show ?thesis using s ok1(1) f0 by (auto simp: sc_good_def same_adapter_def)
  next
    case nonempty: False
    then obtain objs a' t ev where e: "submit_store_task ops ?rd objs a = (a', t)" "ev_submitted ev = {#(i, t)#}" "ev_completed ev = {#}"
      "submit_store_to_adapter ops now (i, keys) (sc, l1) = ((record_task i a' t ?rd ev ?sc1, ?l1), Inr ())"
      using eq by (simp only: if_False) blast
    have r: "sc_ok ops store_ok (record_task i a' t ?rd ev ?sc1)" "(i, t) \<notin> dict_dom (sc_in_flight_tasks sc)"
      "sc_frame (?sc1, ?l1) (record_task i a' t ?rd ev ?sc1, ?l1)"
      using record_task_ok [OF ok1 e(1-3)] by auto
    have "task_locks (sc_in_flight_tasks (record_task i a' t ?rd ev ?sc1)) = ?H + mset ?rd"
      using task_locks_simps(2) [OF _ r(2)] good by (simp add: record_task_def new_task_def sc_ok_def tasks_ok_def)
    then have "sc_good sl ops store_ok strict now M (record_task i a' t ?rd ev ?sc1, ?l1)"
      using r(1) l by (simp add: sc_good_def union_ac)
    moreover have "same_adapter j sc (record_task i a' t ?rd ev ?sc1)" if "j \<noteq> i" for j
      using that by (simp add: record_task_def same_adapter_def)
    ultimately show ?thesis using e(4) sc_frame_trans [OF f0 r(3)] by auto
  qed
qed

end

lemma for_each_inv:
  assumes "P s" "\<And>x s. x \<in> set xs \<Longrightarrow> P s \<Longrightarrow> \<exists>s'. f x s = (s', Inr ()) \<and> P s'"
  shows "\<exists>s'. for_each f xs s = (s', Inr ()) \<and> P s'"
  using assms
proof (induction xs arbitrary: s)
  case (Cons x xs)
  obtain s1 where s1: "f x s = (s1, Inr ())" "P s1" using Cons.prems by (metis list.set_intros(1))
  then have "\<exists>s'. for_each f xs s1 = (s', Inr ()) \<and> P s'"
    using Cons.prems(2) by (intro Cons.IH) auto
  then show ?case using s1(1) by simp
qed simp

lemma routed:
  assumes "sc_ok ops store_ok sc" "(i, keys) \<in> set (select_store_targets (sc_policy sc) ks (routing_descriptors sc))"
  shows "i \<notin> dict_dom (sc_draining sc)"
proof -
  have pol: "store_policy_contract (sc_policy sc)" using assms(1) by (simp add: sc_ok_def)
  have "i \<in> dict_dom (select_store_targets (sc_policy sc) ks (routing_descriptors sc))"
    using assms(2) by (force simp: dict_dom_def)
  then have "i \<in> ad_index ` set (routing_descriptors sc)"
    using store_policy_contract.targets_offered [OF pol] by blast
  then obtain p where "p \<in> set (sc_adapter_descriptors sc)" "fst p \<notin> dict_dom (sc_draining sc)" "i = ad_index (snd p)"
    by (auto simp: routing_descriptors_def)
  then show ?thesis using assms(1) by (auto simp: sc_ok_def reg_ok_def)
qed

text \<open>What a step that only submits leaves alone.\<close>

definition submits :: "'a sc_pair \<Rightarrow> 'a sc_pair \<Rightarrow> bool" where
  "submits st st' \<longleftrightarrow> sc_frame st st' \<and>
     (\<forall>j \<in> dict_dom (sc_draining (fst st)). same_adapter j (fst st) (fst st'))"

lemma submits_refl [simp]: "submits st st"
  by (simp add: submits_def same_adapter_def)

lemma submits_trans: "submits st1 st2 \<Longrightarrow> submits st2 st3 \<Longrightarrow> submits st1 st3"
  unfolding submits_def sc_frame_def same_adapter_def by simp

context l2_store_contract
begin

lemma submit_shape_good:
  assumes "sc_good sl ops store_ok strict now M st"
  shows "\<exists>st'. submit_store_for_single_shape ops now keys st = (st', Inr ()) \<and> sc_good sl ops store_ok strict now M st' \<and> submits st st'"
proof -
  let ?plan = "select_store_targets (sc_policy (fst st)) keys (routing_descriptors (fst st))"
  have "\<exists>st'. for_each (submit_store_to_adapter ops now) ?plan st = (st', Inr ()) \<and>
      (sc_good sl ops store_ok strict now M st' \<and> submits st st')"
  proof (rule for_each_inv)
    fix p st1 assume p: "p \<in> set ?plan" and s: "sc_good sl ops store_ok strict now M st1 \<and> submits st st1"
    have ok: "sc_ok ops store_ok (fst st)" using assms(1) by (simp add: sc_good_def)
    then have r: "fst p \<notin> dict_dom (sc_draining (fst st))" using routed [OF ok, of "fst p" "snd p"] p by simp
    obtain st2 where "submit_store_to_adapter ops now p st1 = (st2, Inr ())" "sc_good sl ops store_ok strict now M st2"
      "sc_frame st1 st2" "\<forall>j. j \<noteq> fst p \<longrightarrow> same_adapter j (fst st1) (fst st2)"
      using submit_good [of sl strict now M "fst st1" "snd st1" "fst p" "snd p"] s by auto
    moreover have "fst p \<notin> dict_dom (sc_draining (fst st1))" using r s by (simp add: submits_def sc_frame_def)
    ultimately have "submit_store_to_adapter ops now p st1 = (st2, Inr ())" "sc_good sl ops store_ok strict now M st2" "submits st1 st2"
      unfolding submits_def by (blast, blast, metis)
    then show "\<exists>st2. submit_store_to_adapter ops now p st1 = (st2, Inr ()) \<and>
        (sc_good sl ops store_ok strict now M st2 \<and> submits st st2)"
      using s submits_trans by blast
  qed (use assms(1) in simp)
  then show ?thesis by (simp add: submit_store_for_single_shape_def)
qed

lemma process_new_keys_good:
  assumes "sc_good sl ops store_ok strict now M st"
  shows "\<exists>st'. process_new_keys ops now keys st = (st', Inr ()) \<and> sc_good sl ops store_ok strict now M st' \<and> submits st st'"
  unfolding process_new_keys_def
proof (rule for_each_inv)
  fix ks st1 assume s: "sc_good sl ops store_ok strict now M st1 \<and> submits st st1"
  obtain st2 where "submit_store_for_single_shape ops now ks st1 = (st2, Inr ())" "sc_good sl ops store_ok strict now M st2" "submits st1 st2"
    using submit_shape_good [OF conjunct1 [OF s]] by blast
  then show "\<exists>st2. submit_store_for_single_shape ops now ks st1 = (st2, Inr ()) \<and> (sc_good sl ops store_ok strict now M st2 \<and> submits st st2)"
    using s submits_trans by blast
qed (use assms(1) in simp)

end

lemma deposit_fold:
  assumes "dict_wf tasks"
  fixes completed :: "(int, int) pydict" and i :: int
  defines "ts \<equiv> foldl (deposit_result i) tasks completed"
  shows "dict_wf ts \<and> map fst ts = map fst tasks \<and> task_locks ts = task_locks tasks \<and>
    (\<forall>j. open_ids ts j = (if j = i then open_ids tasks i - dict_dom completed else open_ids tasks j))"
  using assms(1) unfolding ts_def
proof (induction completed arbitrary: tasks)
  case (Cons p completed)
  obtain t r where p: "p = (t, r)" by fastforce
  let ?ts = "deposit_result i tasks p"
  show ?case
  proof (cases "map_of tasks (i, t)")
    case None
    then have "?ts = tasks" "t \<notin> open_ids tasks i" by (simp_all add: deposit_result_def p open_ids_def)
    then show ?thesis using Cons.IH [OF Cons.prems] by (auto simp: p dict_dom_def)
  next
    case (Some task)
    let ?task = "task\<lparr>ft_l2_store_result := Some (is_successful r), ft_l2_bytes_transferred := bytes_transferred r\<rparr>"
    have ts: "?ts = dict_set (i, t) ?task tasks" using Some by (simp add: deposit_result_def p)
    have wf: "dict_wf ?ts" unfolding ts using Cons.prems by blast
    have "(i, t) \<in> dict_dom tasks" using Some by (simp add: dict_dom_iff)
    then have "map fst ?ts = map fst tasks" by (simp add: ts AList.update_keys dict_dom_def)
    moreover have "task_locks ?ts = task_locks tasks" using task_locks_simps(4) [OF Cons.prems Some] by (simp add: ts)
    moreover have "open_ids ?ts j = (if j = i then open_ids tasks i - {t} else open_ids tasks j)" for j by (simp add: ts)
    ultimately show ?thesis using Cons.IH [OF wf] by (auto simp: p dict_dom_def)
  qed
qed simp

lemma task_ids_keys: "map fst ts = map fst tasks \<Longrightarrow> task_ids ts = task_ids tasks"
  unfolding task_ids_def dict_dom_def by (metis set_map)

lemma sc_good_tasks:
  assumes "sc_good sl ops store_ok strict now M (sc, l1)" "sc_frame (sc, l1) (sc', l1)" "reg_ok ops sc'" "tasks_ok store_ok sc'"
    "sc_events sc' = sc_events sc" "map fst (sc_in_flight_tasks sc') = map fst (sc_in_flight_tasks sc)"
    "task_locks (sc_in_flight_tasks sc') = task_locks (sc_in_flight_tasks sc)"
  shows "sc_good sl ops store_ok strict now M (sc', l1)"
proof -
  have "image_mset fst (mset (sc_in_flight_tasks sc')) = image_mset fst (mset (sc_in_flight_tasks sc))"
    using assms(6) by (metis mset_map)
  then have "events_ok sc'" using assms(1,5) by (simp add: sc_good_def sc_ok_def events_ok_def)
  moreover have "sc_policy sc' = sc_policy sc" using assms(2) by (simp add: sc_frame_def)
  ultimately show ?thesis using assms waiting_ok_frame [OF _ assms(2)] by (simp add: sc_good_def sc_ok_def)
qed

lemma finish_then_delete:
  assumes "l1_ledger now (M + mset keys) l1" "l1_inv sl now l1"
  defines "l1' \<equiv> fst (finish_read sl now keys 1 l1)"
  shows "l1_ledger now M l1' \<and> l1_inv sl now l1' \<and>
    l1_ledger now M (fst (delete_keys sl now ks False l1')) \<and> l1_inv sl now (fst (delete_keys sl now ks False l1'))"
proof -
  have l: "l1_ledger now M l1'"
    using finish_read_ledger [OF assms(1,2), of 1 keys] by (simp add: l1'_def)
  have i: "l1_inv sl now l1'" unfolding l1'_def by (rule finish_read_inv [OF assms(2)])
  show ?thesis using l i delete_ledger [OF l] delete_keys_inv [OF i] by simp
qed

context l2_store_contract
begin

lemma drain_good:
  assumes "sc_good sl ops store_ok strict now M (sc, l1)" "map_of (sc_l2_adapters sc) i = Some a" "pop_completed_store_tasks ops a = (a', completed)"
  shows "\<exists>sc'. drain_adapter ops i sc = (sc', Inr ()) \<and> sc_good sl ops store_ok strict now M (sc', l1) \<and> sc_frame (sc, l1) (sc', l1) \<and>
    sc_l2_adapters sc' = dict_set i a' (sc_l2_adapters sc) \<and>
    task_ids (sc_in_flight_tasks sc') = task_ids (sc_in_flight_tasks sc) \<and>
    (\<forall>j. open_ids (sc_in_flight_tasks sc') j =
      (if j = i then open_ids (sc_in_flight_tasks sc) i - dict_dom completed else open_ids (sc_in_flight_tasks sc) j))"
proof -
  let ?ts = "sc_in_flight_tasks sc" and ?ts' = "foldl (deposit_result i) (sc_in_flight_tasks sc) completed"
  let ?sc = "sc\<lparr>sc_l2_adapters := dict_set i a' (sc_l2_adapters sc), sc_in_flight_tasks := ?ts'\<rparr>"
  have ok: "reg_ok ops sc" "tasks_ok store_ok sc" using assms(1) by (simp_all add: sc_good_def sc_ok_def)
  have pop: "store_ok a' (open_ids ?ts i - dict_dom completed) (task_ids ?ts i)" "store_fd ops a' = store_fd ops a"
    using pop_completed [OF _ assms(3)] ok(2) assms(2) unfolding tasks_ok_def by blast+
  have d: "dict_wf ?ts'" "map fst ?ts' = map fst ?ts" "task_locks ?ts' = task_locks ?ts"
    "open_ids ?ts' j = (if j = i then open_ids ?ts i - dict_dom completed else open_ids ?ts j)" for j
    using deposit_fold [of ?ts i completed] ok(2) by (simp_all add: tasks_ok_def)
  note ids = task_ids_keys [OF d(2)]
  have i: "i \<in> dict_dom (sc_l2_adapters sc)" using assms(2) by (simp add: dict_dom_iff)
  have fr: "sc_frame (sc, l1) (?sc, l1)" using i by (auto simp: sc_frame_def)
  have dom: "dict_dom ?ts' = dict_dom ?ts" unfolding dict_dom_def by (metis d(2) set_map)
  have len: "length ?ts' = length ?ts" by (metis d(2) length_map)
  have "tasks_ok store_ok ?sc"
    using ok(2) pop(1) d(1) i len unfolding tasks_ok_def by (auto simp: d(4) ids dom)
  moreover have "reg_ok ops ?sc" by (rule reg_ok_adapter [OF ok(1) assms(2) pop(2) _ fr]) simp
  ultimately have "sc_good sl ops store_ok strict now M (?sc, l1)"
    using d(2,3) by (intro sc_good_tasks [OF assms(1) fr]) simp_all
  moreover have "drain_adapter ops i sc = (?sc, Inr ())" using assms(2,3) by (simp add: drain_adapter_def)
  ultimately show ?thesis using fr d(4) ids by (intro exI [of _ ?sc]) simp
qed

lemma finalize_good:
  assumes "sc_good sl ops store_ok strict now M (sc, l1)"
    "map_of (sc_in_flight_tasks sc) p = Some task" "ft_l2_store_result task \<noteq> None"
  shows "\<exists>st'. finalize_store sl now p task (sc, l1) = (st', Inr ()) \<and> sc_good sl ops store_ok strict now M st' \<and> sc_frame (sc, l1) st' \<and>
    sc_l2_adapters (fst st') = sc_l2_adapters sc \<and>
    sc_in_flight_tasks (fst st') = dict_del p (sc_in_flight_tasks sc)"
proof -
  obtain i t where p: "p = (i, t)" by fastforce
  let ?ts = "sc_in_flight_tasks sc" and ?ks = "ft_read_locked_keys task"
  let ?sc1 = "sc\<lparr>sc_in_flight_tasks := dict_del p ?ts, sc_status_in_flight_count := sc_status_in_flight_count sc - 1\<rparr>"
  have ok: "reg_ok ops sc" "tasks_ok store_ok sc" "events_ok sc" "sc_ok ops store_ok sc"
    using assms(1) by (simp_all add: sc_good_def sc_ok_def)
  have wf: "dict_wf ?ts" and ip: "i \<in> dict_dom (sc_l2_adapters sc)" and dom: "p \<in> dict_dom ?ts"
    using ok(2) assms(2) by (auto simp: tasks_ok_def dict_dom_iff p)
  obtain desc where desc: "map_of (sc_adapter_descriptors sc) i = Some desc"
    using ok(1) ip unfolding reg_ok_def by (metis dict_dom_iff not_None_eq)
  let ?l1 = "fst (finish_read sl now ?ks 1 l1)"
  define l1' where "l1' = (if ft_l2_store_result task = Some True \<and> select_l1_deletions (sc_policy sc) (ft_keys task) \<noteq> []
    then fst (delete_keys sl now (select_l1_deletions (sc_policy sc) (ft_keys task)) False ?l1) else ?l1)"
  have led: "l1_ledger now (task_locks (dict_del p ?ts) + M) l1' \<and> l1_inv sl now l1'" if strict
  proof -
    have "l1_ledger now (task_locks (dict_del p ?ts) + M + mset ?ks) l1" "l1_inv sl now l1"
      using assms(1) that task_locks_simps(3) [OF wf assms(2)] by (simp_all add: sc_good_def union_ac)
    from finish_then_delete [OF this] show ?thesis by (simp add: l1'_def)
  qed
  have "\<exists>ev. finalize_store sl now p task (sc, l1) = ((sc_publish ev ?sc1, l1'), Inr ()) \<and> ev_submitted ev = {#} \<and> ev_completed ev = {#p#}"
    using dom desc unfolding finalize_store_def p l1'_def by (auto simp: Let_def)
  then obtain ev where ev: "finalize_store sl now p task (sc, l1) = ((sc_publish ev ?sc1, l1'), Inr ())"
    "ev_submitted ev = {#}" "ev_completed ev = {#p#}" by blast
  have nt: "t \<notin> open_ids ?ts i" using assms(2,3) by (auto simp: open_ids_def p)
  have "length ?ts = Suc (length (dict_del p ?ts))"
    by (metis assms(2) mset_map_del size_add_mset size_mset wf)
  moreover have "store_ok a (open_ids (dict_del p ?ts) j) (task_ids (dict_del p ?ts) j)" if "map_of (sc_l2_adapters sc) j = Some a" for j a
  proof (cases "j = i")
    case True
    then show ?thesis using forget_ids [of a "open_ids ?ts i" "task_ids ?ts i" "task_ids ?ts i - {t}"] that ok(2) nt open_ids_subset [of ?ts i]
      by (auto simp: tasks_ok_def p)
  qed (use that ok(2) in \<open>auto simp: tasks_ok_def p\<close>)
  ultimately have "tasks_ok store_ok (sc_publish ev ?sc1)" using ok(2) by (auto simp: tasks_ok_def)
  moreover have "events_ok (sc_publish ev ?sc1)"
    using ok(3) ev(2,3) dict_keys_update(2) [OF wf assms(2)] by (simp add: events_ok_def)
  ultimately have "sc_ok ops store_ok (sc_publish ev ?sc1)"
    using ok(4) by (simp add: sc_ok_def reg_ok_def waiting_ok_def waiting_def)
  then have "sc_good sl ops store_ok strict now M (sc_publish ev ?sc1, l1')" using led by (simp add: sc_good_def)
  moreover have "sc_frame (sc, l1) (sc_publish ev ?sc1, l1')" by (simp add: sc_frame_def l1'_def)
  ultimately show ?thesis using ev(1) by simp
qed

end

lemma reg_efd:
  "reg_ok ops sc \<Longrightarrow> map_of (sc_l2_adapters sc) i = Some a \<Longrightarrow> map_of (sc_efd_to_adapter_index sc) (store_fd ops a) = Some i"
  "reg_ok ops sc \<Longrightarrow> map_of (sc_efd_to_adapter_index sc) fd = Some i \<Longrightarrow> \<exists>a. map_of (sc_l2_adapters sc) i = Some a \<and> store_fd ops a = fd"
  by (simp_all add: reg_ok_def)

lemma set_dict_set_subset: "set (dict_set k v d) \<subseteq> insert (k, v) (set d)"
  by (induction d) auto

lemma add_op_step:
  assumes "sc_ok ops store_ok (sc\<lparr>sc_pending_adapter_ops := op # xs\<rparr>)"
  shows "sc_ok ops store_ok ((apply_adapter_op ops sc op)\<lparr>sc_pending_adapter_ops := xs\<rparr>)"
proof (cases op)
  case (AddAdapterOp i a desc ev)
  let ?sc = "apply_adapter_op ops sc op"
  have ok: "reg_ok ops sc" "tasks_ok store_ok sc" "events_ok sc" "store_policy_contract (sc_policy sc)"
    and w: "waiting_ok ops store_ok (sc\<lparr>sc_pending_adapter_ops := op # xs\<rparr>)"
    using assms by (simp_all add: sc_ok_def reg_ok_def tasks_ok_def events_ok_def)
  have new: "i \<notin> dict_dom (sc_l2_adapters sc)" "store_ok a {} {}" "store_fd ops a \<notin> dict_dom (sc_efd_to_adapter_index sc)"
    "store_fd ops a \<noteq> sc_listener_efd sc" "ad_index desc = i"
    using w by (simp_all add: waiting_ok_def waiting_def AddAdapterOp)
  have "(i, t) \<notin> dict_dom (sc_in_flight_tasks sc)" for t using ok(2) new(1) by (auto simp: tasks_ok_def)
  then have none: "task_ids (sc_in_flight_tasks sc) i = {}" "open_ids (sc_in_flight_tasks sc) i = {}"
    using open_ids_subset [of "sc_in_flight_tasks sc" i] by (auto simp: task_ids_def)
  have none': "map_of (sc_l2_adapters sc) i = None" "map_of (sc_efd_to_adapter_index sc) (store_fd ops a) = None"
    using new(1,3) by (simp_all add: dict_dom_iff)
  have efd: "map_of (sc_efd_to_adapter_index sc) (store_fd ops b) = Some j" "store_fd ops b \<noteq> store_fd ops a" if "map_of (sc_l2_adapters sc) j = Some b" for j b
    using reg_efd(1) [OF ok(1) that] none'(2) by auto
  have efd': "j \<noteq> i \<and> (\<exists>b. map_of (sc_l2_adapters sc) j = Some b \<and> store_fd ops b = fd)" if "map_of (sc_efd_to_adapter_index sc) fd = Some j" for fd j
    using reg_efd(2) [OF ok(1) that] none'(1) by auto
  have desc: "ad_index (snd p) = fst p" if "p \<in> set (dict_set i desc (sc_adapter_descriptors sc))" for p
    using subsetD [OF set_dict_set_subset that] ok(1) new(5) by (auto simp: reg_ok_def)
  have "reg_ok ops ?sc" unfolding reg_ok_def AddAdapterOp apply_adapter_op.simps
    using ok(1) new(4) efd efd' desc by (auto simp: reg_ok_def)
  moreover have "tasks_ok store_ok ?sc" using ok(2) new(2) none by (auto simp: tasks_ok_def AddAdapterOp)
  moreover have "waiting_ok ops store_ok (?sc\<lparr>sc_pending_adapter_ops := xs\<rparr>)"
  proof -
    define W where "W = concat (map add_op xs)"
    have old: "distinct (map fst W)" "distinct (map (store_fd ops \<circ> snd) W)" "list_all add_op_ok xs"
        "i \<notin> fst ` set W" "store_fd ops a \<notin> (store_fd ops \<circ> snd) ` set W"
        "\<forall>(j, b) \<in> set W. j \<notin> dict_dom (sc_l2_adapters sc) \<and> store_ok b {} {} \<and>
          store_fd ops b \<notin> dict_dom (sc_efd_to_adapter_index sc) \<and> store_fd ops b \<noteq> sc_listener_efd sc"
      using w by (simp_all add: waiting_ok_def waiting_def AddAdapterOp W_def)
    have "j \<noteq> i \<and> store_fd ops b \<noteq> store_fd ops a" if "(j, b) \<in> set W" for j b
      using that old(4,5) by force
    then show ?thesis using old by (auto simp: waiting_ok_def waiting_def AddAdapterOp W_def [symmetric])
  qed
  ultimately show ?thesis using ok(3,4)
    by (simp add: sc_ok_def reg_ok_def tasks_ok_def events_ok_def AddAdapterOp)
next
  case (RemoveAdapterOp i ev)
  then show ?thesis using assms by (auto simp: sc_ok_def reg_ok_def tasks_ok_def events_ok_def waiting_ok_def waiting_def)
qed

lemma apply_pending_ok:
  assumes "sc_ok ops store_ok sc"
  shows "sc_ok ops store_ok (apply_pending_adapter_ops ops sc)"
proof -
  have "sc_ok ops store_ok (s\<lparr>sc_pending_adapter_ops := xs\<rparr>) \<Longrightarrow>
      sc_ok ops store_ok ((foldl (apply_adapter_op ops) s xs)\<lparr>sc_pending_adapter_ops := []\<rparr>)" for s xs
    by (induction xs arbitrary: s) (auto dest: add_op_step)
  moreover have p: "sc_pending_adapter_ops (foldl (apply_adapter_op ops) s xs) = sc_pending_adapter_ops s" for s xs
  proof (induction xs arbitrary: s)
    case (Cons x xs)
    then show ?case by (cases x) auto
  qed simp
  ultimately show ?thesis using assms
    by (simp add: apply_pending_adapter_ops_def) (metis (no_types, lifting) store_controller.surjective store_controller.update_convs(5) store_controller.select_convs(5))
qed

context l2_store_contract
begin

lemma advance_items:
  assumes "sc_good sl ops store_ok strict now M st" "distinct (map fst items)"
    "\<forall>(p, task) \<in> set items. map_of (sc_in_flight_tasks (fst st)) p = Some task"
  defines "st' \<equiv> foldl (\<lambda>st item. fst (advance_request sl now item st)) st items"
  shows "sc_good sl ops store_ok strict now M st' \<and> sc_frame st st' \<and> sc_l2_adapters (fst st') = sc_l2_adapters (fst st) \<and>
    (\<forall>p. map_of (sc_in_flight_tasks (fst st')) p =
      (if \<exists>task. (p, task) \<in> set items \<and> ft_l2_store_result task \<noteq> None then None else map_of (sc_in_flight_tasks (fst st)) p))"
  using assms(1-3) unfolding st'_def
proof (induction items arbitrary: st)
  case (Cons item items)
  obtain p task where item: "item = (p, task)" by fastforce
  let ?st = "fst (advance_request sl now item st)"
  have mine: "map_of (sc_in_flight_tasks (fst st)) p = Some task" using Cons.prems(3) item by simp
  have st: "sc_good sl ops store_ok strict now M (fst st, snd st)" using Cons.prems(1) by simp
  have step: "sc_good sl ops store_ok strict now M ?st \<and> sc_frame st ?st \<and> sc_l2_adapters (fst ?st) = sc_l2_adapters (fst st) \<and>
      sc_in_flight_tasks (fst ?st) = (if ft_l2_store_result task = None then sc_in_flight_tasks (fst st)
        else dict_del p (sc_in_flight_tasks (fst st)))"
    using finalize_good [OF st mine] Cons.prems(1) by (auto simp: advance_request_def item)
  have fresh: "q \<noteq> p" if "(q, task') \<in> set items" for q task' using that Cons.prems(2) item by force
  have "\<forall>(q, task') \<in> set items. map_of (sc_in_flight_tasks (fst ?st)) q = Some task'"
    using Cons.prems(3) step fresh by auto
  then have ih: "sc_good sl ops store_ok strict now M (foldl (\<lambda>st item. fst (advance_request sl now item st)) ?st items) \<and>
    sc_frame ?st (foldl (\<lambda>st item. fst (advance_request sl now item st)) ?st items) \<and>
    sc_l2_adapters (fst (foldl (\<lambda>st item. fst (advance_request sl now item st)) ?st items)) = sc_l2_adapters (fst ?st) \<and>
    (\<forall>p. map_of (sc_in_flight_tasks (fst (foldl (\<lambda>st item. fst (advance_request sl now item st)) ?st items))) p =
      (if \<exists>task. (p, task) \<in> set items \<and> ft_l2_store_result task \<noteq> None then None else map_of (sc_in_flight_tasks (fst ?st)) p))"
    using Cons.prems(2) step by (intro Cons.IH) auto
  then show ?case using step sc_frame_trans [of st ?st] fresh by (auto simp: item)
qed simp

lemma advance_all_good:
  assumes "sc_good sl ops store_ok strict now M st"
  shows "sc_good sl ops store_ok strict now M (advance_all sl now st)" "sc_frame st (advance_all sl now st)"
    "sc_l2_adapters (fst (advance_all sl now st)) = sc_l2_adapters (fst st)"
    "task_ids (sc_in_flight_tasks (fst (advance_all sl now st))) j = open_ids (sc_in_flight_tasks (fst st)) j"
    "open_ids (sc_in_flight_tasks (fst (advance_all sl now st))) j = open_ids (sc_in_flight_tasks (fst st)) j"
proof -
  let ?ts = "sc_in_flight_tasks (fst st)"
  have wf: "dict_wf ?ts" using assms(1) by (simp add: sc_good_def sc_ok_def tasks_ok_def)
  have items: "distinct (map fst ?ts)" "\<forall>(p, task) \<in> set ?ts. map_of ?ts p = Some task"
    using wf by (auto simp: dict_wf_def)
  note adv = advance_items [OF assms items]
  show "sc_good sl ops store_ok strict now M (advance_all sl now st)" "sc_frame st (advance_all sl now st)"
    "sc_l2_adapters (fst (advance_all sl now st)) = sc_l2_adapters (fst st)"
    using adv by (simp_all add: advance_all_def)
  have m: "map_of (sc_in_flight_tasks (fst (advance_all sl now st))) p =
      (case map_of ?ts p of None \<Rightarrow> None | Some task \<Rightarrow> if ft_l2_store_result task = None then Some task else None)" for p
  proof -
    have "map_of (sc_in_flight_tasks (fst (advance_all sl now st))) p =
        (if \<exists>task. (p, task) \<in> set ?ts \<and> ft_l2_store_result task \<noteq> None then None else map_of ?ts p)"
      using adv unfolding advance_all_def by blast
    then show ?thesis unfolding dict_wf_map_of_eq [OF wf, symmetric] by (auto split: option.splits)
  qed
  show "task_ids (sc_in_flight_tasks (fst (advance_all sl now st))) j = open_ids ?ts j"
    "open_ids (sc_in_flight_tasks (fst (advance_all sl now st))) j = open_ids ?ts j"
    by (auto simp: task_ids_def open_ids_def dict_dom_iff m split: option.splits if_splits)
qed

lemma drain_list_good:
  assumes "sc_good sl ops store_ok strict now M (sc, l1)" "set js \<subseteq> dict_dom (sc_l2_adapters sc)" "distinct js"
  shows "\<exists>sc'. for_each (drain_adapter ops) js sc = (sc', Inr ()) \<and> sc_good sl ops store_ok strict now M (sc', l1) \<and>
    sc_frame (sc, l1) (sc', l1) \<and> task_ids (sc_in_flight_tasks sc') = task_ids (sc_in_flight_tasks sc) \<and>
    (\<forall>j a. map_of (sc_l2_adapters sc) j = Some a \<longrightarrow> open_ids (sc_in_flight_tasks sc') j =
      open_ids (sc_in_flight_tasks sc) j - (if j \<in> set js then dict_dom (snd (pop_completed_store_tasks ops a)) else {}))"
  using assms
proof (induction js arbitrary: sc)
  case (Cons i js)
  obtain a where a: "map_of (sc_l2_adapters sc) i = Some a" using Cons.prems(2) by (auto simp: dict_dom_iff)
  obtain a' c where pop: "pop_completed_store_tasks ops a = (a', c)" by fastforce
  obtain sc1 where s: "drain_adapter ops i sc = (sc1, Inr ())" "sc_good sl ops store_ok strict now M (sc1, l1)" "sc_frame (sc, l1) (sc1, l1)"
    "sc_l2_adapters sc1 = dict_set i a' (sc_l2_adapters sc)"
    "task_ids (sc_in_flight_tasks sc1) = task_ids (sc_in_flight_tasks sc)"
    "open_ids (sc_in_flight_tasks sc1) j = (if j = i then open_ids (sc_in_flight_tasks sc) i - dict_dom c else open_ids (sc_in_flight_tasks sc) j)" for j
    using drain_good [OF Cons.prems(1) a pop] by blast
  have "set js \<subseteq> dict_dom (sc_l2_adapters sc1)" using Cons.prems(2) s(3) by (auto simp: sc_frame_def)
  then obtain sc2 where s2: "for_each (drain_adapter ops) js sc1 = (sc2, Inr ())" "sc_good sl ops store_ok strict now M (sc2, l1)" "sc_frame (sc1, l1) (sc2, l1)"
    "task_ids (sc_in_flight_tasks sc2) = task_ids (sc_in_flight_tasks sc1)"
    "\<forall>j a. map_of (sc_l2_adapters sc1) j = Some a \<longrightarrow> open_ids (sc_in_flight_tasks sc2) j =
      open_ids (sc_in_flight_tasks sc1) j - (if j \<in> set js then dict_dom (snd (pop_completed_store_tasks ops a)) else {})"
    using Cons.IH [OF s(2)] Cons.prems(3) by auto
  have "open_ids (sc_in_flight_tasks sc2) j = open_ids (sc_in_flight_tasks sc) j -
      (if j \<in> set (i # js) then dict_dom (snd (pop_completed_store_tasks ops b)) else {})" if "map_of (sc_l2_adapters sc) j = Some b" for j b
  proof (cases "j = i")
    case True
    then have "map_of (sc_l2_adapters sc1) j = Some a'" "b = a" using that a by (simp_all add: s(4))
    then show ?thesis using s2(5) s(6) True pop Cons.prems(3) by auto
  next
    case False
    then show ?thesis using s2(5) s(6) that by (auto simp: s(4))
  qed
  then show ?case using s(1,5) s2(1,2,4) sc_frame_trans [OF s(3) s2(3)] by auto
qed simp

end

lemma set_dict_del_subset: "set (dict_del k d) \<subseteq> set d"
  by (auto simp: AList.delete_eq)

lemma in_use_iff: "adapter_in_use sc i \<longleftrightarrow> task_ids (sc_in_flight_tasks sc) i \<noteq> {}"
  by (force simp: adapter_in_use_def task_ids_def dict_dom_def list_ex_iff)

definition detach :: "'a l2_ops \<Rightarrow> int \<Rightarrow> 'a \<Rightarrow> nat \<Rightarrow> 'a store_controller \<Rightarrow> 'a store_controller" where
  "detach ops i a ev sc = sc\<lparr>sc_l2_adapters := dict_del i (sc_l2_adapters sc),
     sc_adapter_descriptors := dict_del i (sc_adapter_descriptors sc),
     sc_efd_to_adapter_index := dict_del (store_fd ops a) (sc_efd_to_adapter_index sc),
     sc_draining := dict_del i (sc_draining sc), sc_done := sc_done sc @ [ev]\<rparr>"

lemma detach_fields [simp]:
  "sc_l2_adapters (detach ops i a ev sc) = dict_del i (sc_l2_adapters sc)"
  "sc_draining (detach ops i a ev sc) = dict_del i (sc_draining sc)"
  "sc_in_flight_tasks (detach ops i a ev sc) = sc_in_flight_tasks sc" "sc_done (detach ops i a ev sc) = sc_done sc @ [ev]"
  "sc_policy (detach ops i a ev sc) = sc_policy sc" "sc_events (detach ops i a ev sc) = sc_events sc"
  by (simp_all add: detach_def)

lemma detach_ok:
  assumes "sc_ok ops store_ok sc" "map_of (sc_l2_adapters sc) i = Some a" "task_ids (sc_in_flight_tasks sc) i = {}"
  shows "sc_ok ops store_ok (detach ops i a ev sc)"
proof -
  have ok: "reg_ok ops sc" "tasks_ok store_ok sc" "waiting_ok ops store_ok sc" using assms(1) by (simp_all add: sc_ok_def)
  have efd: "map_of (sc_efd_to_adapter_index sc) (store_fd ops b) = Some j \<and> (j \<noteq> i \<longrightarrow> store_fd ops b \<noteq> store_fd ops a)"
    if "map_of (sc_l2_adapters sc) j = Some b" for j b
    using reg_efd(1) [OF ok(1) that] reg_efd(1) [OF ok(1) assms(2)] by auto
  have efd': "j \<noteq> i \<and> (\<exists>b. map_of (sc_l2_adapters sc) j = Some b \<and> store_fd ops b = fd)"
    if "map_of (sc_efd_to_adapter_index sc) fd = Some j" "fd \<noteq> store_fd ops a" for fd j
    using reg_efd(2) [OF ok(1) that(1)] assms(2) that(2) by auto
  have "reg_ok ops (detach ops i a ev sc)"
    using ok(1) efd efd' set_dict_del_subset [of i "sc_adapter_descriptors sc"] unfolding reg_ok_def detach_def by auto
  moreover have "tasks_ok store_ok (detach ops i a ev sc)"
    using ok(2) assms(3) unfolding tasks_ok_def detach_def by (auto simp: task_ids_def)
  moreover have "waiting_ok ops store_ok (detach ops i a ev sc)"
    using ok(3) unfolding waiting_ok_def waiting_def detach_def by auto
  ultimately show ?thesis using assms(1) by (simp add: sc_ok_def events_ok_def)
qed

lemma detach_step:
  assumes "sc_ok ops store_ok sc" "map_of (sc_draining sc) i = Some ev"
  shows "if task_ids (sc_in_flight_tasks sc) i \<noteq> {} then finalize_drained_adapter ops i sc = (sc, Inr ())
    else \<exists>a. map_of (sc_l2_adapters sc) i = Some a \<and> finalize_drained_adapter ops i sc = (detach ops i a ev sc, Inr ())"
proof -
  have "i \<in> dict_dom (sc_draining sc)" using assms(2) by (simp add: dict_dom_iff)
  then have "i \<in> dict_dom (sc_l2_adapters sc)" using assms(1) by (auto simp: sc_ok_def reg_ok_def)
  then obtain a where "map_of (sc_l2_adapters sc) i = Some a" by (auto simp: dict_dom_iff)
  then show ?thesis using assms(2)
    by (simp add: finalize_drained_adapter_def in_use_iff detach_def)
qed

text \<open>The idle ones among the adapters \<open>is\<close> are gone and their events set; the others are untouched.\<close>

definition detached :: "int list \<Rightarrow> 'a store_controller \<Rightarrow> 'a store_controller \<Rightarrow> bool" where
  "detached is sc sc' \<longleftrightarrow> sc_in_flight_tasks sc' = sc_in_flight_tasks sc \<and>
    (\<forall>i \<in> set is. task_ids (sc_in_flight_tasks sc) i = {} \<longrightarrow>
       map_of (sc_l2_adapters sc') i = None \<and> map_of (sc_draining sc') i = None \<and> the (map_of (sc_draining sc) i) \<in> set (sc_done sc')) \<and>
    (\<forall>i. i \<notin> set is \<or> task_ids (sc_in_flight_tasks sc) i \<noteq> {} \<longrightarrow>
       map_of (sc_l2_adapters sc') i = map_of (sc_l2_adapters sc) i \<and> map_of (sc_draining sc') i = map_of (sc_draining sc) i) \<and>
    set (sc_done sc) \<subseteq> set (sc_done sc')"

lemma detached_busy:
  "detached is sc sc' \<Longrightarrow> task_ids (sc_in_flight_tasks sc) i \<noteq> {} \<Longrightarrow> detached (i # is) sc sc'"
  unfolding detached_def by simp

lemma detached_idle:
  assumes "detached is (detach ops i a ev sc) sc'" "i \<notin> set is" "map_of (sc_draining sc) i = Some ev" "task_ids (sc_in_flight_tasks sc) i = {}"
  shows "detached (i # is) sc sc'"
proof -
  have "map_of (sc_l2_adapters sc') i = None" "map_of (sc_draining sc') i = None" "ev \<in> set (sc_done sc')"
    using assms(1,2) unfolding detached_def by auto
  moreover have "j \<noteq> i" if "j \<in> set is" for j using that assms(2) by auto
  ultimately show ?thesis using assms unfolding detached_def by auto
qed

lemma detach_all:
  assumes "sc_ok ops store_ok sc" "distinct is" "set is \<subseteq> dict_dom (sc_draining sc)"
  shows "\<exists>sc'. for_each (finalize_drained_adapter ops) is sc = (sc', Inr ()) \<and> sc_ok ops store_ok sc' \<and> detached is sc sc'"
  using assms
proof (induction "is" arbitrary: sc)
  case Nil
  then show ?case by (simp add: detached_def)
next
  case (Cons i "is")
  obtain ev where ev: "map_of (sc_draining sc) i = Some ev" using Cons.prems(3) by (auto simp: dict_dom_iff)
  note step = detach_step [OF Cons.prems(1) ev]
  show ?case
  proof (cases "task_ids (sc_in_flight_tasks sc) i = {}")
    case False
    moreover obtain sc2 where "for_each (finalize_drained_adapter ops) is sc = (sc2, Inr ())" "sc_ok ops store_ok sc2" "detached is sc sc2"
      using Cons.IH [OF Cons.prems(1)] Cons.prems(2,3) by auto
    ultimately show ?thesis using step detached_busy [of "is" sc sc2 i] by simp
  next
    case True
    then obtain a where a: "map_of (sc_l2_adapters sc) i = Some a" "finalize_drained_adapter ops i sc = (detach ops i a ev sc, Inr ())"
      using step by auto
    have "distinct is" "set is \<subseteq> dict_dom (sc_draining (detach ops i a ev sc))" using Cons.prems(2,3) by auto
    from Cons.IH [OF detach_ok [OF Cons.prems(1) a(1) True] this] obtain sc2 where
      "for_each (finalize_drained_adapter ops) is (detach ops i a ev sc) = (sc2, Inr ())" "sc_ok ops store_ok sc2"
      "detached is (detach ops i a ev sc) sc2" by blast
    then show ?thesis using a(2) detached_idle [OF _ _ ev True] Cons.prems(2) by auto
  qed
qed

lemma pop_keys_frame:
  "l1_objects (fst (pop_pending_keys i l1)) = l1_objects l1" "l1_memory (fst (pop_pending_keys i l1)) = l1_memory l1"
  "l1_read_ttl_seconds (fst (pop_pending_keys i l1)) = l1_read_ttl_seconds l1"
  by (simp_all add: pop_pending_keys_def)

lemma good_l1_frame:
  "sc_good sl ops store_ok strict now M (sc, l1) \<Longrightarrow> l1_objects l1' = l1_objects l1 \<Longrightarrow> l1_memory l1' = l1_memory l1 \<Longrightarrow>
     l1_read_ttl_seconds l1' = l1_read_ttl_seconds l1 \<Longrightarrow> sc_good sl ops store_ok strict now M (sc, l1')"
  by (simp add: sc_good_def l1_ledger_def l1_inv_def)

lemma apply_op_frame:
  "sc_in_flight_tasks (apply_adapter_op ops sc op) = sc_in_flight_tasks sc"
  "set (sc_done sc) \<subseteq> set (sc_done (apply_adapter_op ops sc op))"
  by (cases op; auto)+

lemma apply_pending_frame:
  "sc_in_flight_tasks (apply_pending_adapter_ops ops sc) = sc_in_flight_tasks sc"
proof -
  have "sc_in_flight_tasks (foldl (apply_adapter_op ops) s xs) = sc_in_flight_tasks s" for s xs
    by (induction xs arbitrary: s) (simp_all add: apply_op_frame)
  then show ?thesis by (simp add: apply_pending_adapter_ops_def)
qed

context l2_store_contract
begin

lemma handle_ready_step:
  assumes "sc_good sl ops store_ok strict now M st" "distinct sig"
  obtains st' sig' where "handle_ready ops now (st, sig) fd = (st', sig')" "sc_good sl ops store_ok strict now M st'" "submits st st'"
    "distinct sig'" "set sig' = set sig \<union> {i. fd \<noteq> sc_listener_efd (fst st) \<and> map_of (sc_efd_to_adapter_index (fst st)) fd = Some i}"
proof (cases "fd = sc_listener_efd (fst st)")
  case True
  let ?l1 = "fst (pop_pending_keys (sc_listener (fst st)) (snd st))" and ?ks = "snd (pop_pending_keys (sc_listener (fst st)) (snd st))"
  have g: "sc_good sl ops store_ok strict now M (fst st, ?l1)"
    using good_l1_frame [of sl ops store_ok strict now M "fst st" "snd st" ?l1] assms(1) by (simp add: pop_keys_frame)
  have f: "submits st (fst st, ?l1)" by (simp add: submits_def sc_frame_def same_adapter_def pop_keys_frame)
  obtain st' where st': "process_new_keys ops now ?ks (fst st, ?l1) = (st', Inr ())" "sc_good sl ops store_ok strict now M st'" "submits (fst st, ?l1) st'"
    using process_new_keys_good [OF g] by blast
  have h: "handle_ready ops now (st, sig) fd = (if ?ks = [] then (fst st, ?l1) else st', sig)"
    using True st'(1) by (simp add: handle_ready_def Let_def split_def)
  show thesis
    by (rule that [OF h]) (use g f st'(2,3) submits_trans [OF f st'(3)] assms(2) True in auto)
next
  case False
  show thesis
  proof (cases "map_of (sc_efd_to_adapter_index (fst st)) fd")
    case None
    then have "handle_ready ops now (st, sig) fd = (st, sig)" using False by (simp add: handle_ready_def split_def)
    then show thesis by (rule that) (use assms None in auto)
  next
    case (Some i)
    then have "handle_ready ops now (st, sig) fd = (st, if i \<in> set sig then sig else sig @ [i])"
      using False by (simp add: handle_ready_def split_def)
    then show thesis by (rule that) (use assms Some False in auto)
  qed
qed

lemma handle_ready_fold:
  assumes "sc_good sl ops store_ok strict now M st" "distinct sig"
  shows "\<exists>st' sig'. foldl (handle_ready ops now) (st, sig) ready = (st', sig') \<and> sc_good sl ops store_ok strict now M st' \<and> submits st st' \<and>
    distinct sig' \<and> set sig' = set sig \<union> {i. \<exists>fd \<in> set ready. fd \<noteq> sc_listener_efd (fst st) \<and> map_of (sc_efd_to_adapter_index (fst st)) fd = Some i}"
  using assms
proof (induction ready arbitrary: st sig)
  case (Cons fd ready)
  obtain st1 sig1 where s: "handle_ready ops now (st, sig) fd = (st1, sig1)" "sc_good sl ops store_ok strict now M st1" "submits st st1"
    "distinct sig1" "set sig1 = set sig \<union> {i. fd \<noteq> sc_listener_efd (fst st) \<and> map_of (sc_efd_to_adapter_index (fst st)) fd = Some i}"
    using handle_ready_step [OF Cons.prems] by blast
  have eq: "sc_listener_efd (fst st1) = sc_listener_efd (fst st)" "sc_efd_to_adapter_index (fst st1) = sc_efd_to_adapter_index (fst st)"
    using s(3) by (simp_all add: submits_def sc_frame_def)
  from Cons.IH [OF s(2,4)] obtain st2 sig2 where
    s2: "foldl (handle_ready ops now) (st1, sig1) ready = (st2, sig2)" "sc_good sl ops store_ok strict now M st2" "submits st1 st2" "distinct sig2"
      "set sig2 = set sig1 \<union> {i. \<exists>fd \<in> set ready. fd \<noteq> sc_listener_efd (fst st) \<and> map_of (sc_efd_to_adapter_index (fst st)) fd = Some i}"
    unfolding eq by blast
  then show ?case using s(1,5) submits_trans [OF s(3) s2(3)] by auto
qed simp

lemma drain_and_advance:
  assumes "sc_good sl ops store_ok strict now M st" "set sig \<subseteq> dict_dom (sc_l2_adapters (fst st))" "distinct sig"
  defines "st' \<equiv> if sig = [] then st else advance_all sl now (fst (drain_l2_store_completions ops sig (fst st)), snd st)"
  shows "sc_good sl ops store_ok strict now M st' \<and> sc_frame st st' \<and>
    (\<forall>i. task_ids (sc_in_flight_tasks (fst st')) i \<subseteq> task_ids (sc_in_flight_tasks (fst st)) i) \<and>
    (\<forall>i a. i \<in> set sig \<and> map_of (sc_l2_adapters (fst st)) i = Some a \<and>
       open_ids (sc_in_flight_tasks (fst st)) i \<subseteq> dict_dom (snd (pop_completed_store_tasks ops a)) \<longrightarrow>
       task_ids (sc_in_flight_tasks (fst st')) i = {})"
proof (cases "sig = []")
  case True
  then show ?thesis using assms(1) by (simp add: st'_def)
next
  case False
  have st: "sc_good sl ops store_ok strict now M (fst st, snd st)" using assms(1) by simp
  obtain sc1 where d: "for_each (drain_adapter ops) sig (fst st) = (sc1, Inr ())" "sc_good sl ops store_ok strict now M (sc1, snd st)"
    "sc_frame (fst st, snd st) (sc1, snd st)" "task_ids (sc_in_flight_tasks sc1) = task_ids (sc_in_flight_tasks (fst st))"
    "\<forall>j a. map_of (sc_l2_adapters (fst st)) j = Some a \<longrightarrow> open_ids (sc_in_flight_tasks sc1) j =
      open_ids (sc_in_flight_tasks (fst st)) j - (if j \<in> set sig then dict_dom (snd (pop_completed_store_tasks ops a)) else {})"
    using drain_list_good [OF st assms(2,3)] by blast
  have st': "st' = advance_all sl now (sc1, snd st)" using False d(1) by (simp add: st'_def drain_l2_store_completions_def)
  note adv = advance_all_good [OF d(2)]
  have "task_ids (sc_in_flight_tasks (fst st')) i = open_ids (sc_in_flight_tasks sc1) i" for i using adv(4) by (simp add: st')
  moreover have "open_ids (sc_in_flight_tasks sc1) i \<subseteq> task_ids (sc_in_flight_tasks (fst st)) i" for i
    using open_ids_subset [of "sc_in_flight_tasks sc1" i] d(4) by simp
  ultimately show ?thesis using adv(1,2) d(3,5) sc_frame_trans [of st "(sc1, snd st)"] by (auto simp: st')
qed

text \<open>An adapter that is being removed and whose open tasks are all completed and signalled.\<close>

lemma iteration_good:
  assumes "sc_good sl ops store_ok strict now M st"
  defines "sc0 \<equiv> apply_pending_adapter_ops ops (fst st)"
  shows "\<exists>st'. store_loop_iteration sl ops now ready st = (st', Inr ()) \<and> sc_good sl ops store_ok strict now M st' \<and>
    (\<forall>i ev a. map_of (sc_draining sc0) i = Some ev \<and> map_of (sc_l2_adapters sc0) i = Some a \<longrightarrow>
       task_ids (sc_in_flight_tasks (fst st')) i \<subseteq> task_ids (sc_in_flight_tasks (fst st)) i \<and>
       (task_ids (sc_in_flight_tasks (fst st)) i = {} \<or> store_fd ops a \<in> set ready \<and>
          open_ids (sc_in_flight_tasks (fst st)) i \<subseteq> dict_dom (snd (pop_completed_store_tasks ops a)) \<longrightarrow>
        map_of (sc_l2_adapters (fst st')) i = None \<and> map_of (sc_draining (fst st')) i = None \<and> ev \<in> set (sc_done (fst st'))))"
proof -
  let ?st0 = "(sc0, snd st)"
  have g0: "sc_good sl ops store_ok strict now M ?st0"
    using assms(1) apply_pending_ok [of ops store_ok "fst st"] by (simp add: sc_good_def sc0_def apply_pending_frame)
  have t0: "sc_in_flight_tasks sc0 = sc_in_flight_tasks (fst st)" by (simp add: sc0_def apply_pending_frame)
  obtain st1 sig where s1: "foldl (handle_ready ops now) (?st0, []) ready = (st1, sig)" "sc_good sl ops store_ok strict now M st1" "submits ?st0 st1"
    "distinct sig" "set sig = {i. \<exists>fd \<in> set ready. fd \<noteq> sc_listener_efd sc0 \<and> map_of (sc_efd_to_adapter_index sc0) fd = Some i}"
    using handle_ready_fold [OF g0, of "[]" ready] by auto
  have fr1: "sc_frame ?st0 st1" using s1(3) by (simp add: submits_def)
  have reg: "reg_ok ops sc0" using g0 by (simp add: sc_good_def sc_ok_def)
  have sub: "set sig \<subseteq> dict_dom (sc_l2_adapters (fst st1))"
    using s1(5) reg_efd(2) [OF reg] fr1 by (fastforce simp: sc_frame_def dict_dom_iff)
  define st2 where "st2 = (if sig = [] then st1 else advance_all sl now (fst (drain_l2_store_completions ops sig (fst st1)), snd st1))"
  note da = drain_and_advance [OF s1(2) sub s1(4), folded st2_def]
  have ok2: "sc_ok ops store_ok (fst st2)" using da by (simp add: sc_good_def)
  have dr: "distinct (dict_keys (sc_draining (fst st2)))" "set (dict_keys (sc_draining (fst st2))) = dict_dom (sc_draining (fst st2))"
    using ok2 by (simp_all add: sc_ok_def reg_ok_def dict_wf_def dict_dom_def)
  obtain sc3 where s3: "finalize_drained_adapters ops (fst st2) = (sc3, Inr ())" "sc_ok ops store_ok sc3"
    "detached (dict_keys (sc_draining (fst st2))) (fst st2) sc3"
    using detach_all [OF ok2 dr(1)] dr(2) by (auto simp: finalize_drained_adapters_def)
  have it: "store_loop_iteration sl ops now ready st = ((sc3, snd st2), Inr ())"
    using s1(1) s3(1) by (simp add: store_loop_iteration_def sc0_def [symmetric] st2_def [symmetric])
  have t3: "sc_in_flight_tasks sc3 = sc_in_flight_tasks (fst st2)" using s3(3) by (simp add: detached_def)
  then have good3: "sc_good sl ops store_ok strict now M (sc3, snd st2)" using da s3(2) by (simp add: sc_good_def)
  have fr2: "sc_frame ?st0 st2" using da sc_frame_trans [OF fr1] by blast
  have live: "task_ids (sc_in_flight_tasks sc3) i \<subseteq> task_ids (sc_in_flight_tasks (fst st)) i \<and>
      (task_ids (sc_in_flight_tasks (fst st)) i = {} \<or> store_fd ops a \<in> set ready \<and>
          open_ids (sc_in_flight_tasks (fst st)) i \<subseteq> dict_dom (snd (pop_completed_store_tasks ops a)) \<longrightarrow>
        map_of (sc_l2_adapters sc3) i = None \<and> map_of (sc_draining sc3) i = None \<and> ev \<in> set (sc_done sc3))"
    if i: "map_of (sc_draining sc0) i = Some ev" "map_of (sc_l2_adapters sc0) i = Some a" for i ev a
  proof -
    have dom: "i \<in> dict_dom (sc_draining sc0)" using i(1) by (simp add: dict_dom_iff)
    then have same: "same_adapter i sc0 (fst st1)" using s1(3) by (simp add: submits_def)
    have "task_ids (sc_in_flight_tasks (fst st2)) i \<subseteq> task_ids (sc_in_flight_tasks (fst st1)) i" using da by blast
    then have tasks: "task_ids (sc_in_flight_tasks sc3) i \<subseteq> task_ids (sc_in_flight_tasks (fst st)) i"
      using t3 same t0 by (simp add: same_adapter_def)
    have fd: "map_of (sc_efd_to_adapter_index sc0) (store_fd ops a) = Some i" by (rule reg_efd(1) [OF reg i(2)])
    then have nl: "store_fd ops a \<noteq> sc_listener_efd sc0" using reg by (auto simp: reg_ok_def dict_dom_iff)
    have "task_ids (sc_in_flight_tasks (fst st2)) i = {}"
      if "task_ids (sc_in_flight_tasks (fst st)) i = {} \<or> store_fd ops a \<in> set ready \<and>
          open_ids (sc_in_flight_tasks (fst st)) i \<subseteq> dict_dom (snd (pop_completed_store_tasks ops a))"
      using that
    proof
      assume "task_ids (sc_in_flight_tasks (fst st)) i = {}"
      then show ?thesis using da same t0 by (metis same_adapter_def subset_empty)
    next
      assume r: "store_fd ops a \<in> set ready \<and> open_ids (sc_in_flight_tasks (fst st)) i \<subseteq> dict_dom (snd (pop_completed_store_tasks ops a))"
      then have "i \<in> set sig" using s1(5) fd nl by blast
      then show ?thesis using da r same t0 i(2) by (simp add: same_adapter_def)
    qed
    moreover have "i \<in> set (dict_keys (sc_draining (fst st2)))" "map_of (sc_draining (fst st2)) i = Some ev"
      using dr(2) fr2 dom i(1) by (simp_all add: sc_frame_def)
    ultimately show ?thesis using tasks s3(3) unfolding detached_def by fastforce
  qed
  show ?thesis
    by (intro exI [of _ "(sc3, snd st2)"]) (simp only: fst_conv snd_conv, use it good3 live in blast)
qed

end

section \<open>Runs\<close>

text \<open>
  A run of the controller among other threads. The loop makes whole iterations, or, with others
  in between, the single calls an iteration is made of. Other threads queue the attachment of
  adapters with ids and event descriptors of their own and the removal of any, and the adapters
  work. The runs with \<open>strict = False\<close> are all of them: between any two calls the L1 manager and the
  clock may have become anything at all (\<open>others\<close>), locks may have expired, locked objects may have
  been deleted by force, and the time and the \<open>M\<close> of the run mean nothing. In the runs with
  \<open>strict = True\<close> the other threads call the L1 manager as clients that return only what they
  hold, time does not go back, and before a call at \<open>now\<close> no read lock that the controller or a
  client holds has expired (\<open>sc_due\<close>); these runs may be of any length too.
\<close>

definition sc_due :: "bool \<Rightarrow> int \<Rightarrow> int \<Rightarrow> object_key multiset \<Rightarrow> 'a sc_pair \<Rightarrow> bool" where
  "sc_due strict T now M st \<longleftrightarrow>
     (strict \<longrightarrow> T \<le> now \<and> l1_fresh now (task_locks (sc_in_flight_tasks (fst st)) + M) (snd st))"

inductive sc_run ::
  "sorted_list_ops \<Rightarrow> 'a l2_ops \<Rightarrow> ('a \<Rightarrow> 'a \<Rightarrow> bool) \<Rightarrow> ('a \<Rightarrow> int set \<Rightarrow> int set \<Rightarrow> bool) \<Rightarrow> bool \<Rightarrow>
   int \<Rightarrow> 'a sc_pair \<Rightarrow> object_key multiset \<Rightarrow> bool"
  for sl :: sorted_list_ops and ops :: "'a l2_ops" and env :: "'a \<Rightarrow> 'a \<Rightarrow> bool"
    and store_ok :: "'a \<Rightarrow> int set \<Rightarrow> int set \<Rightarrow> bool" and strict :: bool where
  start: "(strict \<longrightarrow> client_run sl T l1 M) \<Longrightarrow> store_controller_init ops adapters descs policy efd l1 = Inr st \<Longrightarrow>
    distinct (map ad_index descs) \<Longrightarrow> distinct (map (store_fd ops) adapters) \<Longrightarrow> efd \<notin> store_fd ops ` set adapters \<Longrightarrow>
    (\<forall>a \<in> set adapters. store_ok a {} {}) \<Longrightarrow> store_policy_contract policy \<Longrightarrow> sc_run sl ops env store_ok strict T st M"
| iteration: "sc_run sl ops env store_ok strict T st M \<Longrightarrow> sc_due strict T now M st \<Longrightarrow>
    sc_run sl ops env store_ok strict now (fst (store_loop_iteration sl ops now ready st)) M"
| apply_ops: "sc_run sl ops env store_ok strict T st M \<Longrightarrow>
    sc_run sl ops env store_ok strict T (apply_pending_adapter_ops ops (fst st), snd st) M"
| take_keys: "sc_run sl ops env store_ok strict T st M \<Longrightarrow>
    sc_run sl ops env store_ok strict T (fst st, fst (pop_pending_keys (sc_listener (fst st)) (snd st))) M"
| submit: "sc_run sl ops env store_ok strict T st M \<Longrightarrow> sc_due strict T now M st \<Longrightarrow>
    sc_run sl ops env store_ok strict now (fst (submit_store_to_adapter ops now target st)) M"
| drain: "sc_run sl ops env store_ok strict T st M \<Longrightarrow> i \<in> dict_dom (sc_l2_adapters (fst st)) \<Longrightarrow>
    sc_run sl ops env store_ok strict T (fst (drain_adapter ops i (fst st)), snd st) M"
| advance: "sc_run sl ops env store_ok strict T st M \<Longrightarrow> sc_due strict T now M st \<Longrightarrow>
    map_of (sc_in_flight_tasks (fst st)) p = Some task \<Longrightarrow>
    sc_run sl ops env store_ok strict now (fst (advance_request sl now (p, task) st)) M"
| detached: "sc_run sl ops env store_ok strict T st M \<Longrightarrow> i \<in> dict_dom (sc_draining (fst st)) \<Longrightarrow>
    sc_run sl ops env store_ok strict T (fst (finalize_drained_adapter ops i (fst st)), snd st) M"
| queue_add: "sc_run sl ops env store_ok strict T st M \<Longrightarrow> ad_index desc = i \<Longrightarrow> store_ok a {} {} \<Longrightarrow>
    i \<notin> dict_dom (sc_l2_adapters (fst st)) \<union> fst ` set (waiting (fst st)) \<Longrightarrow>
    store_fd ops a \<notin> dict_dom (sc_efd_to_adapter_index (fst st)) \<union> (store_fd ops \<circ> snd) ` set (waiting (fst st)) \<union> {sc_listener_efd (fst st)} \<Longrightarrow>
    sc_run sl ops env store_ok strict T (add_adapter i a desc ev (fst st), snd st) M"
| queue_remove: "sc_run sl ops env store_ok strict T st M \<Longrightarrow>
    sc_run sl ops env store_ok strict T (request_remove_adapter i ev (fst st), snd st) M"
| client: "sc_run sl ops env store_ok strict T st M \<Longrightarrow> sc_due strict T now M st \<Longrightarrow>
    client_call sl now (snd st) M l1 M' \<Longrightarrow> sc_run sl ops env store_ok strict now (fst st, l1) M'"
| others: "\<not> strict \<Longrightarrow> sc_run sl ops env store_ok strict T st M \<Longrightarrow> sc_run sl ops env store_ok strict now (fst st, l1) M'"
| adapter: "sc_run sl ops env store_ok strict T st M \<Longrightarrow> map_of (sc_l2_adapters (fst st)) i = Some a \<Longrightarrow> env a a' \<Longrightarrow>
    sc_run sl ops env store_ok strict T ((fst st)\<lparr>sc_l2_adapters := dict_set i a' (sc_l2_adapters (fst st))\<rparr>, snd st) M"

text \<open>The strict runs are among all runs.\<close>

lemma sc_run_any:
  assumes "sc_run sl ops env store_ok strict T st M"
  shows "sc_run sl ops env store_ok False T st M"
  using assms by (induction rule: sc_run.induct) (blast intro: sc_run.intros [where strict = False, simplified sc_due_def simp_thms])+

lemma client_call_frame:
  assumes "client_call sl now s M s' M'"
  shows "client_call sl now s (H + M) s' (H + M')"
  using assms
proof cases
  case (reads keys n)
  then show ?thesis using client_call.reads [of sl now s "H + M" keys n] by (simp add: union_assoc)
next
  case (returns n keys)
  then have "granted (nat (validate_read_locks n)) keys \<subseteq># H + M" by (simp add: subset_mset.add_increasing)
  from client_call.returns [OF this] show ?thesis
    unfolding returns(1,2) multiset_diff_union_assoc [OF returns(3)] .
next
  case (hands_over keys n)
  then show ?thesis using client_call.hands_over [of sl now s "H + M" keys n] by (simp add: union_assoc)
next
  case (other op)
  then show ?thesis using client_call.other [of op sl now s "H + M"] by simp
qed

lemma foldl_dict_fresh:
  assumes "distinct (map f xs)" "f ` set xs \<inter> fst ` set d = {}"
  shows "foldl (\<lambda>d x. dict_set (f x) (g x) d) d xs = d @ map (\<lambda>x. (f x, g x)) xs"
  using assms
proof (induction xs arbitrary: d)
  case (Cons x xs)
  then have "dict_set (f x) (g x) d = d @ [(f x, g x)]" by (intro dict_set_new) auto
  then show ?case using Cons.IH [of "d @ [(f x, g x)]"] Cons.prems by auto
qed simp

lemma sc_init_ok:
  assumes "store_controller_init ops adapters descs policy efd l1 = Inr (sc, l1')" "distinct (map ad_index descs)" "distinct (map (store_fd ops) adapters)"
    "efd \<notin> store_fd ops ` set adapters" "\<forall>a \<in> set adapters. store_ok a {} {}" "store_policy_contract policy"
  shows "sc_ok ops store_ok sc \<and> sc_in_flight_tasks sc = [] \<and> l1' = register_listener l1"
proof -
  let ?ps = "zip descs adapters"
  have len: "length descs = length adapters" using assms(1) by (auto simp: store_controller_init_def split: if_splits)
  then have fz: "map fst ?ps = descs" "map snd ?ps = adapters" by simp_all
  define as where "as = map (\<lambda>(d, a). (ad_index d, a)) ?ps"
  have "map fst as = map ad_index (map fst ?ps)" "map snd as = map snd ?ps"
    by (simp_all only: as_def split_def map_map comp_def fst_conv snd_conv)
  then have keys: "map fst as = map ad_index descs" "map snd as = adapters" unfolding fz .
  have e1: "foldl (\<lambda>d (desc, a). dict_set (ad_index desc) a d) [] ?ps = as"
  proof -
    have "map (\<lambda>p. ad_index (fst p)) ?ps = map ad_index (map fst ?ps)" by (simp only: map_map comp_def)
    then have "distinct (map (\<lambda>p. ad_index (fst p)) ?ps)" using assms(2) by (simp only: fz)
    then show ?thesis using foldl_dict_fresh [of "\<lambda>p. ad_index (fst p)" ?ps "[]" snd] unfolding as_def split_def by simp
  qed
  have e2: "foldl (\<lambda>d desc. dict_set (ad_index desc) desc d) [] descs = map (\<lambda>d. (ad_index d, d)) descs"
    using foldl_dict_fresh [of ad_index descs "[]" id] assms(2) by simp
  have dfd: "distinct (map (\<lambda>p. store_fd ops (snd p)) as)" using assms(3) unfolding keys(2) [symmetric] map_map comp_def .
  have e3: "foldl (\<lambda>d (i, a). dict_set (store_fd ops a) i d) [] as = map (\<lambda>p. (store_fd ops (snd p), fst p)) as"
    using foldl_dict_fresh [of "\<lambda>p. store_fd ops (snd p)" as "[]" fst] dfd by (simp add: split_def)
  have sc: "sc = \<lparr>sc_l2_adapters = as, sc_adapter_descriptors = map (\<lambda>d. (ad_index d, d)) descs, sc_policy = policy,
      sc_draining = [], sc_pending_adapter_ops = [], sc_listener = length (l1_listeners l1), sc_listener_efd = efd,
      sc_in_flight_tasks = [], sc_status_in_flight_count = 0,
      sc_efd_to_adapter_index = map (\<lambda>p. (store_fd ops (snd p), fst p)) as, sc_events = [], sc_done = []\<rparr>"
    "l1' = register_listener l1"
    using assms(1) len by (simp_all add: store_controller_init_def e1 e2 e3 Let_def)
  have wf: "dict_wf as" "distinct (map fst (map (\<lambda>p. (store_fd ops (snd p), fst p)) as))"
    using keys(1) assms(2) dfd by (simp_all add: dict_wf_def comp_def)
  have dom: "dict_dom (map (\<lambda>d. (ad_index d, d)) descs) = dict_dom as"
    using arg_cong [OF keys(1), of set] by (simp add: dict_dom_def image_image)
  have mem: "map_of as i = Some a \<longleftrightarrow> (i, a) \<in> set as" for i a using wf(1) by (simp add: dict_wf_map_of_eq)
  have efd: "map_of (map (\<lambda>p. (store_fd ops (snd p), fst p)) as) fd = Some i \<longleftrightarrow> (\<exists>a. (i, a) \<in> set as \<and> store_fd ops a = fd)" for fd i
    using wf(2) by (force simp: map_of_eq_Some_iff)
  have as: "a \<in> set adapters" if "(i, a) \<in> set as" for i a using that keys(2) by (force simp: in_set_conv_nth)
  have "reg_ok ops sc" using wf(1) dom assms(4) as unfolding reg_ok_def sc(1)
    by (auto simp: mem efd dict_dom_iff [of efd] map_of_eq_None_iff)
  moreover have "tasks_ok store_ok sc"
    using as assms(5) unfolding tasks_ok_def sc(1) by (auto simp: mem open_ids_def task_ids_def)
  ultimately show ?thesis using assms(6) sc
    by (simp add: sc_ok_def events_ok_def waiting_ok_def waiting_def)
qed

lemma good_at: "sc_good sl ops store_ok strict T M st \<Longrightarrow> sc_due strict T now M st \<Longrightarrow> sc_good sl ops store_ok strict now M st"
  using l1_inv_later l1_ledger_at by (auto simp: sc_good_def sc_due_def)

lemma queue_ops_ok:
  "sc_ok ops store_ok sc \<Longrightarrow> sc_ok ops store_ok (request_remove_adapter i ev sc)"
  "sc_ok ops store_ok sc \<Longrightarrow> ad_index desc = i \<Longrightarrow> store_ok a {} {} \<Longrightarrow>
    i \<notin> dict_dom (sc_l2_adapters sc) \<union> fst ` set (waiting sc) \<Longrightarrow>
    store_fd ops a \<notin> dict_dom (sc_efd_to_adapter_index sc) \<union> (store_fd ops \<circ> snd) ` set (waiting sc) \<union> {sc_listener_efd sc} \<Longrightarrow>
    sc_ok ops store_ok (add_adapter i a desc ev sc)"
proof -
  have w: "waiting (request_remove_adapter i ev sc) = waiting sc" "waiting (add_adapter i a desc ev sc) = waiting sc @ [(i, a)]"
    by (simp_all add: waiting_def request_remove_adapter_def add_adapter_def)
  show "sc_ok ops store_ok sc \<Longrightarrow> sc_ok ops store_ok (request_remove_adapter i ev sc)"
    unfolding sc_ok_def waiting_ok_def w
    by (simp add: reg_ok_def tasks_ok_def events_ok_def request_remove_adapter_def)
  show "sc_ok ops store_ok sc \<Longrightarrow> ad_index desc = i \<Longrightarrow> store_ok a {} {} \<Longrightarrow>
    i \<notin> dict_dom (sc_l2_adapters sc) \<union> fst ` set (waiting sc) \<Longrightarrow>
    store_fd ops a \<notin> dict_dom (sc_efd_to_adapter_index sc) \<union> (store_fd ops \<circ> snd) ` set (waiting sc) \<union> {sc_listener_efd sc} \<Longrightarrow>
    sc_ok ops store_ok (add_adapter i a desc ev sc)"
    unfolding sc_ok_def waiting_ok_def w
    by (auto simp: reg_ok_def tasks_ok_def events_ok_def add_adapter_def)
qed

lemma cleanup_fold:
  assumes "l1_ledger now (task_locks tasks + M) l1" "l1_inv sl now l1"
  shows "l1_ledger now M (foldl (\<lambda>l1 (_, task). fst (finish_read sl now (ft_read_locked_keys task) 1 l1)) l1 tasks)"
  using assms
proof (induction tasks arbitrary: l1)
  case Nil
  then show ?case by (simp add: task_locks_def)
next
  case (Cons p tasks)
  let ?ks = "ft_read_locked_keys (snd p)"
  have "l1_ledger now ((task_locks tasks + M) + mset ?ks) l1" using Cons.prems(1) by (simp add: task_locks_def union_ac)
  then show ?case using Cons.IH finish_then_delete [OF _ Cons.prems(2)] by (simp add: split_def)
qed

context l2_store_contract
begin

lemma adapter_env_ok:
  assumes "sc_ok ops store_ok sc" "map_of (sc_l2_adapters sc) i = Some a" "env a a'"
  shows "sc_ok ops store_ok (sc\<lparr>sc_l2_adapters := dict_set i a' (sc_l2_adapters sc)\<rparr>)"
proof -
  let ?sc = "sc\<lparr>sc_l2_adapters := dict_set i a' (sc_l2_adapters sc)\<rparr>" and ?l1 = "undefined :: object_key l1_manager"
  have ok: "reg_ok ops sc" "tasks_ok store_ok sc" "waiting_ok ops store_ok sc" using assms(1) by (simp_all add: sc_ok_def)
  have a: "store_ok a (open_ids (sc_in_flight_tasks sc) i) (task_ids (sc_in_flight_tasks sc) i)" using ok(2) assms(2) by (simp add: tasks_ok_def)
  have i: "i \<in> dict_dom (sc_l2_adapters sc)" using assms(2) by (simp add: dict_dom_iff)
  have fr: "sc_frame (sc, ?l1) (?sc, ?l1)" using i by (auto simp: sc_frame_def)
  have "reg_ok ops ?sc" using reg_ok_adapter [OF ok(1) assms(2) _ _ fr] store_env [OF a assms(3)] by simp
  moreover have "tasks_ok store_ok ?sc" using ok(2) store_env [OF a assms(3)] i by (auto simp: tasks_ok_def)
  ultimately show ?thesis using assms(1) waiting_ok_frame [OF ok(3) fr] by (simp add: sc_ok_def events_ok_def)
qed

lemma run_good:
  assumes "sc_run sl ops env store_ok strict T st M" "strict \<Longrightarrow> sorted_list_spec sl"
  shows "sc_good sl ops store_ok strict T M st"
  using assms
proof (induction rule: sc_run.induct)
  case (start T l1 M adapters descs policy efd st)
  obtain sc l1' where st: "st = (sc, l1')" by fastforce
  have ok: "sc_ok ops store_ok sc \<and> sc_in_flight_tasks sc = [] \<and> l1' = register_listener l1"
    using start(2-7) by (intro sc_init_ok) (simp_all add: st)
  moreover have "l1_ledger T M l1 \<and> l1_inv sl T l1" if strict using client_run_ledger start(1,8) that by blast
  ultimately show ?case by (auto simp: st sc_good_def task_locks_def register_listener_def l1_ledger_def l1_inv_def)
next
  case (iteration T st M now ready)
  then show ?case using iteration_good [OF good_at [OF _ iteration(2)], of sl ready] by auto
next
  case (apply_ops T st M)
  then show ?case using apply_pending_ok [of ops store_ok "fst st"] by (simp add: sc_good_def apply_pending_frame)
next
  case (take_keys T st M)
  then show ?case using good_l1_frame [of sl ops store_ok strict T M "fst st" "snd st"] by (simp add: pop_keys_frame)
next
  case (submit T st M now target)
  then show ?case using submit_good [of sl strict now M "fst st" "snd st" "fst target" "snd target"] good_at by fastforce
next
  case (drain T st M i)
  then obtain a where a: "map_of (sc_l2_adapters (fst st)) i = Some a" by (auto simp: dict_dom_iff)
  then show ?case using drain_good [of sl strict T M "fst st" "snd st" i a "fst (pop_completed_store_tasks ops a)" "snd (pop_completed_store_tasks ops a)"] drain
    by auto
next
  case (advance T st M now p task)
  then have "sc_good sl ops store_ok strict now M (fst st, snd st)" using good_at by simp
  then show ?case using finalize_good [of sl strict now M "fst st" "snd st" p task] advance(3) by (auto simp: advance_request_def)
next
  case (detached T st M i)
  then obtain ev where ev: "map_of (sc_draining (fst st)) i = Some ev" by (auto simp: dict_dom_iff)
  have ok: "sc_ok ops store_ok (fst st)" using detached by (simp add: sc_good_def)
  show ?case
  proof (cases "task_ids (sc_in_flight_tasks (fst st)) i = {}")
    case True
    then obtain a where "map_of (sc_l2_adapters (fst st)) i = Some a" "finalize_drained_adapter ops i (fst st) = (detach ops i a ev (fst st), Inr ())"
      using detach_step [OF ok ev] by auto
    then show ?thesis using detach_ok [OF ok _ True] detached by (simp add: sc_good_def)
  next
    case False
    then show ?thesis using detach_step [OF ok ev] detached by simp
  qed
next
  case (queue_add T st M desc i a ev)
  then show ?case using queue_ops_ok(2) [of ops store_ok "fst st" desc i a ev] by (simp add: sc_good_def add_adapter_def)
next
  case (queue_remove T st M i ev)
  then show ?case using queue_ops_ok(1) [of ops store_ok "fst st" i ev] by (simp add: sc_good_def request_remove_adapter_def)
next
  case (client T st M now l1 M')
  let ?H = "task_locks (sc_in_flight_tasks (fst st))"
  have g: "sc_good sl ops store_ok strict now M st" using client good_at by blast
  have "l1_ledger now (?H + M') l1 \<and> l1_inv sl now l1" if strict
    using client_call_ledger [OF client_call_frame [OF client(3)], of ?H] g that by (simp add: sc_good_def)
  then show ?case using g by (simp add: sc_good_def)
next
  case (others T st M now l1 M')
  then show ?case by (simp add: sc_good_def)
next
  case (adapter T st M i a a')
  then show ?case using adapter_env_ok [of "fst st" i a a'] by (simp add: sc_good_def)
qed

end

section \<open>Correctness of the controller\<close>

lemma card_active:
  assumes "reg_ok ops sc"
  shows "int (length (sc_l2_adapters sc)) - int (length (sc_draining sc)) =
    int (card (dict_dom (sc_l2_adapters sc) - dict_dom (sc_draining sc)))"
proof -
  have "card (dict_dom (sc_l2_adapters sc)) = length (sc_l2_adapters sc)" "card (dict_dom (sc_draining sc)) = length (sc_draining sc)"
    using assms by (simp_all add: reg_ok_def length_dict_dom)
  moreover have "dict_dom (sc_draining sc) \<subseteq> dict_dom (sc_l2_adapters sc)" "finite (dict_dom (sc_l2_adapters sc))"
    using assms by (simp_all add: reg_ok_def dict_dom_def)
  ultimately show ?thesis by (metis card_Diff_subset card_mono finite_subset of_nat_diff)
qed

text \<open>
  C17. Objects stay readable while they are copied to the second tier. In every strict run of the
  store controller among other threads, that is, when no read lock expires while the controller
  or a client holds it, clients return only locks they hold, write requests name each key once
  and nobody forces a deletion or closes the manager, each key of each store task in flight is resident in L1, read-locked and not write-locked; the lock
  counter of every object is the number of tasks in flight for it plus the locks of the other
  clients; and stopping the controller returns exactly its own locks. The run may be of any length.
\<close>
theorem store_tasks_hold_locks:
  assumes "l2_store_contract ops env store_ok" "sorted_list_spec sl" "sc_run sl ops env store_ok True T (sc, l1) M"
    "T \<le> now" "l1_fresh now (task_locks (sc_in_flight_tasks sc) + M) l1"
  shows "(\<forall>p task key. map_of (sc_in_flight_tasks sc) p = Some task \<and> key \<in> set (ft_read_locked_keys task) \<longrightarrow>
      (\<exists>e. map_of (l1_objects l1) key = Some e \<and> is_locked now (os_read_lock e) \<and> \<not> is_locked now (os_write_lock e))) \<and>
    (\<forall>key e. map_of (l1_objects l1) key = Some e \<longrightarrow>
      tl_counter (os_read_lock e) = int (count (task_locks (sc_in_flight_tasks sc)) key) + int (count M key)) \<and>
    (\<forall>key e. map_of (l1_objects (snd (cleanup_in_flight_tasks sl now (sc, l1)))) key = Some e \<longrightarrow>
      tl_counter (os_read_lock e) = int (count M key))"
proof -
  let ?H = "task_locks (sc_in_flight_tasks sc)"
  have "sc_good sl ops store_ok True now M (sc, l1)"
    using good_at [OF l2_store_contract.run_good [OF assms(1,3)]] assms(2,4,5) by (simp add: sc_due_def)
  then have g: "l1_ledger now (?H + M) l1" "l1_inv sl now l1" by (simp_all add: sc_good_def)
  have c: "l1_ledger now M (snd (cleanup_in_flight_tasks sl now (sc, l1)))"
    using cleanup_fold [OF g] by (simp add: cleanup_in_flight_tasks_def)
  have "\<exists>e. map_of (l1_objects l1) key = Some e \<and> is_locked now (os_read_lock e) \<and> \<not> is_locked now (os_write_lock e)"
    if t: "map_of (sc_in_flight_tasks sc) p = Some task" "key \<in> set (ft_read_locked_keys task)" for p task key
  proof -
    have mem: "key \<in># ?H + M" using mset_subset_eqD [OF task_locks_member [OF t(1)]] t(2) by simp
    then obtain e where e: "map_of (l1_objects l1) key = Some e"
      using ledger_resident [OF g(1) [unfolded l1_ledger_def]] by blast
    have "is_locked now (os_read_lock e)" using ledger_locked_iff [OF g(1) [unfolded l1_ledger_def] e] mem by simp
    moreover have "entry_ok now e" using g(2) e by (auto simp: l1_inv_def objs_ok_def)
    ultimately show ?thesis using e by (auto simp: entry_ok_def)
  qed
  moreover note ledger_Some [OF g(1) [unfolded l1_ledger_def]] ledger_Some [OF c [unfolded l1_ledger_def]]
  ultimately show ?thesis by (intro conjI allI impI) (elim conjE, blast, simp, blast)
qed

text \<open>
  C19. No store task is lost or reported twice. In every run, whatever the L1 manager and its other
  clients do in the meantime, locks that expire and objects deleted by force included, the tasks
  announced as submitted are those announced as completed and those in flight, each once; a task
  in flight belongs to an attached adapter with a descriptor; and the status report counts the
  tasks in flight and the adapters that are attached and not draining.
\<close>
theorem store_tasks_accounted:
  assumes "l2_store_contract ops env store_ok" "sc_run sl ops env store_ok False T (sc, l1) M"
  shows "(\<Sum>ev\<in>#mset (sc_events sc). ev_submitted ev) =
      (\<Sum>ev\<in>#mset (sc_events sc). ev_completed ev) + mset (map fst (sc_in_flight_tasks sc)) \<and>
    distinct (map fst (sc_in_flight_tasks sc)) \<and>
    (\<forall>i t. (i, t) \<in> dict_dom (sc_in_flight_tasks sc) \<longrightarrow> i \<in> dict_dom (sc_l2_adapters sc) \<and> i \<in> dict_dom (sc_adapter_descriptors sc)) \<and>
    ss_in_flight_task_count (sc_report_status (sc, l1)) = int (length (sc_in_flight_tasks sc)) \<and>
    ss_num_active_adapters (sc_report_status (sc, l1)) = int (card (dict_dom (sc_l2_adapters sc) - dict_dom (sc_draining sc)))"
proof -
  have ok: "reg_ok ops sc" "tasks_ok store_ok sc" "events_ok sc"
    using l2_store_contract.run_good [OF assms] by (simp_all add: sc_good_def sc_ok_def)
  show ?thesis using ok card_active [OF ok(1)]
    by (auto simp: events_ok_def tasks_ok_def reg_ok_def dict_wf_def sc_report_status_def)
qed

text \<open>
  C20. The loop never fails and removal completes. From every state of every run, whatever the L1
  manager and its other clients have done and at any time, an iteration returns without an
  exception; an adapter that is being removed is given no new task, and once its outstanding
  tasks are completed and its descriptor is ready, or when it has none, the iteration detaches
  it and sets the event its remover waits for.
\<close>
theorem store_removal_completes:
  assumes "l2_store_contract ops env store_ok" "sc_run sl ops env store_ok False T st M"
  shows "\<exists>st'. store_loop_iteration sl ops now ready st = (st', Inr ()) \<and>
    (\<forall>i ev a. map_of (sc_draining (apply_pending_adapter_ops ops (fst st))) i = Some ev \<and>
        map_of (sc_l2_adapters (apply_pending_adapter_ops ops (fst st))) i = Some a \<longrightarrow>
      task_ids (sc_in_flight_tasks (fst st')) i \<subseteq> task_ids (sc_in_flight_tasks (fst st)) i \<and>
      (task_ids (sc_in_flight_tasks (fst st)) i = {} \<or>
         store_fd ops a \<in> set ready \<and> open_ids (sc_in_flight_tasks (fst st)) i \<subseteq> dict_dom (snd (pop_completed_store_tasks ops a)) \<longrightarrow>
       i \<notin> dict_dom (sc_l2_adapters (fst st')) \<and> i \<notin> dict_dom (sc_draining (fst st')) \<and> ev \<in> set (sc_done (fst st'))))"
proof -
  have "sc_good sl ops store_ok False now M st"
    using l2_store_contract.run_good [OF assms] by (simp add: sc_good_def)
  from l2_store_contract.iteration_good [OF assms(1) this, of ready] show ?thesis
    unfolding dict_dom_iff not_not by (elim ex_forward conjE, intro conjI) assumption+
qed

section \<open>A concrete run\<close>

text \<open>A key is written; later than the time to live of read locks the loop submits it to the mock
  adapter, the adapter completes, and the adapter is removed.\<close>

definition demo_okey :: object_key where
  "demo_okey = \<lparr>chunk_hash = [1, 2], model_name = ''m'', kv_rank = 0, object_group_id = 0, cache_salt = ''u''\<rparr>"

definition demo_manager :: "object_key l1_manager" where
  "demo_manager = l1_init list_sl 16384 (2 ^ 12) 600 300"

definition demo_start :: "mock_adapter sc_pair" where
  "demo_start = (case store_controller_init mock_ops [ma_init 1000000 (10, 11, 12)] [\<lparr>ad_index = 0, ad_type_name = ''mock''\<rparr>]
     DefaultStorePolicy 5 demo_manager of Inr st \<Rightarrow> st)"

definition demo_written :: "object_key l1_manager" where
  "demo_written = l1_exec list_sl 1 (Finish_Write [demo_okey])
     (l1_exec list_sl 0 (Reserve_Write [demo_okey] [False] demo_layout Mode_All) (snd demo_start))"

definition demo_submitted :: "mock_adapter sc_pair" where
  "demo_submitted = fst (store_loop_iteration list_sl mock_ops 500002 [5] (fst demo_start, demo_written))"

abbreviation demo_sc_run :: "int \<Rightarrow> mock_adapter sc_pair \<Rightarrow> object_key multiset \<Rightarrow> bool" where
  "demo_sc_run \<equiv> sc_run list_sl mock_ops mock_env_store mock_store_ok True"

lemma demo_start_run: "demo_sc_run 0 demo_start {#}"
proof (rule sc_run.start)
  have "l1_reach list_sl 16384 12 600 300 0 demo_manager" unfolding demo_manager_def by (rule l1_reach.init) simp
  then show "True \<longrightarrow> client_run list_sl 0 demo_manager {#}"
    by (intro impI client_run.start) (simp_all add: demo_manager_def l1_init_def)
  show "store_controller_init mock_ops [ma_init 1000000 (10, 11, 12)] [\<lparr>ad_index = 0, ad_type_name = ''mock''\<rparr>] DefaultStorePolicy 5 demo_manager = Inr demo_start"
    by (simp add: demo_start_def store_controller_init_def)
  show "\<forall>a \<in> set [ma_init 1000000 (10, 11, 12)]. mock_store_ok a {} {}" by (simp add: ma_init_ok)
  show "store_policy_contract DefaultStorePolicy" by unfold_locales
qed (simp_all add: mock_ops_def ma_init_def)

lemma demo_due: "T \<le> now \<Longrightarrow> sc_in_flight_tasks (fst st) = [] \<Longrightarrow> sc_due True T now {#} st"
  by (simp add: sc_due_def l1_fresh_def task_locks_def)

lemma demo_start_idle: "sc_in_flight_tasks (fst demo_start) = []"
  by (simp add: demo_start_def store_controller_init_def demo_manager_def l1_init_def)

lemma demo_written_run: "demo_sc_run 1 (fst demo_start, demo_written) {#}"
proof -
  have "client_call list_sl 0 (snd demo_start) {#} (l1_exec list_sl 0 (Reserve_Write [demo_okey] [False] demo_layout Mode_All) (snd demo_start)) {#}"
    by (rule client_call.other) (simp_all add: demo_layout_ok)
  from sc_run.client [OF demo_start_run demo_due [OF order_refl demo_start_idle] this]
  have r1: "demo_sc_run 0 (fst demo_start, l1_exec list_sl 0 (Reserve_Write [demo_okey] [False] demo_layout Mode_All) (snd demo_start)) {#}"
    by simp
  have "client_call list_sl 1 (l1_exec list_sl 0 (Reserve_Write [demo_okey] [False] demo_layout Mode_All) (snd demo_start)) {#} demo_written {#}"
    unfolding demo_written_def by (rule client_call.other) simp_all
  then show ?thesis using sc_run.client [OF r1 demo_due, of 1 demo_written "{#}"] by (simp add: demo_start_idle)
qed

lemma demo_written_eq:
  "l1_objects demo_written = [(demo_okey, \<lparr>os_memory_obj = 0,
     os_write_lock = \<lparr>tl_counter = 0, tl_expiration_ms = 600000, tl_ttl_ms = 600000\<rparr>,
     os_read_lock = \<lparr>tl_counter = 0, tl_expiration_ms = 0, tl_ttl_ms = 300000\<rparr>, os_is_temporary = False\<rparr>)] \<and>
   l1_listeners demo_written = [[Keys_Reserved_Write [demo_okey], Keys_Write_Finished [demo_okey]]]"
  by (simp add: demo_written_def demo_start_def store_controller_init_def demo_manager_def demo_layout_def l1_eval ta_eval finish_write_def)

lemma demo_ttl: "l1_read_ttl_seconds demo_written = 300"
  by (simp add: demo_written_def demo_start_def store_controller_init_def demo_manager_def l1_init_def)

lemma demo_object_size: "get_size (ta_heap (l1_memory demo_written) ! 0) = 4000"
  by (simp add: demo_written_def demo_start_def store_controller_init_def demo_manager_def demo_layout_def l1_eval ta_eval finish_write_def
      get_size_def new_mem_obj_def)

lemma demo_controller:
  "fst demo_start = \<lparr>sc_l2_adapters = [(0, ma_init 1000000 (10, 11, 12))],
     sc_adapter_descriptors = [(0, \<lparr>ad_index = 0, ad_type_name = ''mock''\<rparr>)], sc_policy = DefaultStorePolicy,
     sc_draining = [], sc_pending_adapter_ops = [], sc_listener = 0, sc_listener_efd = 5, sc_in_flight_tasks = [],
     sc_status_in_flight_count = 0, sc_efd_to_adapter_index = [(10, 0)], sc_events = [], sc_done = []\<rparr>"
  by (simp add: demo_start_def store_controller_init_def demo_manager_def l1_init_def mock_ops_def ma_init_def)

lemma demo_submitted_eq:
  "sc_in_flight_tasks (fst demo_submitted) = [((0, 0), new_task 0 [demo_okey])] \<and>
   sc_l2_adapters (fst demo_submitted) = [(0, (ma_init 1000000 (10, 11, 12))\<lparr>ma_next_task_id := 1,
     ma_jobs := [Job_Store [demo_okey] [ta_heap (l1_memory demo_written) ! 0] 0]\<rparr>)] \<and>
   sc_draining (fst demo_submitted) = [] \<and> sc_pending_adapter_ops (fst demo_submitted) = [] \<and>
   (\<forall>k e. map_of (l1_objects (snd demo_submitted)) k = Some e \<longrightarrow> tl_expiration_ms (os_read_lock e) = 800002)"
  by (simp add: demo_submitted_def store_loop_iteration_def demo_controller demo_written_eq handle_ready_def pop_pending_keys_def
      pending_keys_def apply_pending_adapter_ops_def process_new_keys_def group_keys_by_shape_def submit_store_for_single_shape_def
      routing_descriptors_def DefaultStorePolicy_def default_select_store_targets_def submit_store_to_adapter_def reserve_read_def
      l1_eval read_outcome_def read_error_def mock_ops_def ma_submit_defs ma_init_def lb_init_def new_task_def
      finalize_drained_adapters_def demo_ttl)

lemma demo_submitted_run: "demo_sc_run 500002 demo_submitted {#}"
  unfolding demo_submitted_def by (rule sc_run.iteration [OF demo_written_run demo_due]) (simp_all add: demo_start_idle)

theorem store_tasks_hold_locks_witness:
  "map_of (sc_in_flight_tasks (fst demo_submitted)) (0, 0) = Some (new_task 0 [demo_okey]) \<and>
   (\<exists>e. map_of (l1_objects (snd demo_submitted)) demo_okey = Some e \<and> is_locked 500003 (os_read_lock e) \<and>
      tl_counter (os_read_lock e) = 1)"
proof -
  have w: "l1_fresh 500003 (task_locks (sc_in_flight_tasks (fst demo_submitted)) + {#}) (snd demo_submitted)"
    using demo_submitted_eq unfolding l1_fresh_def by fastforce
  have r: "demo_sc_run 500002 (fst demo_submitted, snd demo_submitted) {#}" using demo_submitted_run by simp
  have t: "map_of (sc_in_flight_tasks (fst demo_submitted)) (0, 0) = Some (new_task 0 [demo_okey])"
    "task_locks (sc_in_flight_tasks (fst demo_submitted)) = {#demo_okey#}"
    using demo_submitted_eq by (simp_all add: task_locks_def new_task_def)
  note locks = store_tasks_hold_locks [OF mock_store.l2_store_contract_axioms list_sl_spec r _ w]
  have "demo_okey \<in> set (ft_read_locked_keys (new_task 0 [demo_okey]))" by (simp add: new_task_def)
  then obtain e where e: "map_of (l1_objects (snd demo_submitted)) demo_okey = Some e" "is_locked 500003 (os_read_lock e)"
    using locks t(1) by (simp del: fst_conv snd_conv) blast
  moreover have "tl_counter (os_read_lock e) = 1" using locks e(1) t(2) by simp
  ultimately show ?thesis using t(1) by blast
qed

theorem store_tasks_accounted_witness:
  "(\<Sum>ev\<in>#mset (sc_events (fst demo_submitted)). ev_submitted ev) =
     (\<Sum>ev\<in>#mset (sc_events (fst demo_submitted)). ev_completed ev) + {#(0, 0)#} \<and>
   ss_in_flight_task_count (sc_report_status demo_submitted) = 1"
  using store_tasks_accounted [OF mock_store.l2_store_contract_axioms, of list_sl 500002 "fst demo_submitted" "snd demo_submitted" "{#}"]
    sc_run_any [OF demo_submitted_run] demo_submitted_eq by simp

definition demo_stored :: mock_adapter where
  "demo_stored = (ma_init 1000000 (10, 11, 12))\<lparr>ma_next_task_id := 1, ma_memory_objects := [(demo_okey, 4000)],
     ma_current_size_bytes := 4000, ma_sleepers := [Sleep_Store 0 True 4000 [demo_okey] [4000]]\<rparr>"

definition demo_completed :: "mock_adapter sc_pair" where
  "demo_completed = ((fst demo_submitted)\<lparr>sc_l2_adapters :=
     [(0, fst (wake (Sleep_Store 0 True 4000 [demo_okey] [4000]) (demo_stored\<lparr>ma_sleepers := []\<rparr>)))]\<rparr>, snd demo_submitted)"

lemma demo_completed_run: "demo_sc_run 500002 demo_completed {#}"
proof -
  let ?a0 = "(ma_init 1000000 (10, 11, 12))\<lparr>ma_next_task_id := 1, ma_jobs := [Job_Store [demo_okey] [ta_heap (l1_memory demo_written) ! 0] 0]\<rparr>"
  have "run_job (ma_jobs ?a0 ! 0) (?a0\<lparr>ma_jobs := drop_nth 0 (ma_jobs ?a0)\<rparr>) = demo_stored"
    by (simp add: demo_stored_def ma_init_def lb_init_def drop_nth_def execute_store_in_the_loop_def demo_object_size)
  moreover have "mock_loop ?a0 (run_job (ma_jobs ?a0 ! 0) (?a0\<lparr>ma_jobs := drop_nth 0 (ma_jobs ?a0)\<rparr>))" by (rule mock_loop.job) simp
  ultimately have "mock_env_store ?a0 demo_stored" by (simp add: mock_env_store.es_loop)
  from sc_run.adapter [OF demo_submitted_run _ this, of 0]
  have r1: "demo_sc_run 500002 ((fst demo_submitted)\<lparr>sc_l2_adapters := [(0, demo_stored)]\<rparr>, snd demo_submitted) {#}"
    using demo_submitted_eq by simp
  have "mock_loop demo_stored (fst (wake (ma_sleepers demo_stored ! 0) (demo_stored\<lparr>ma_sleepers := drop_nth 0 (ma_sleepers demo_stored)\<rparr>)))"
    by (rule mock_loop.wakeup) (simp add: demo_stored_def)
  then have "mock_env_store demo_stored (fst (wake (Sleep_Store 0 True 4000 [demo_okey] [4000]) (demo_stored\<lparr>ma_sleepers := []\<rparr>)))"
    by (simp add: mock_env_store.es_loop demo_stored_def drop_nth_def del: wake.simps)
  from sc_run.adapter [OF r1 _ this, of 0] show ?thesis by (simp add: demo_completed_def del: wake.simps)
qed

text \<open>At the time of the removal the lock of the task has expired and the object was deleted by force.\<close>

theorem store_removal_completes_witness:
  "\<exists>st'. store_loop_iteration list_sl mock_ops 900001 [10]
       (request_remove_adapter 0 7 (fst demo_completed), clear_keys list_sl 900000 True (snd demo_completed)) = (st', Inr ()) \<and>
     0 \<notin> dict_dom (sc_l2_adapters (fst st')) \<and> 7 \<in> set (sc_done (fst st'))"
proof -
  let ?st = "(request_remove_adapter 0 7 (fst demo_completed), clear_keys list_sl 900000 True (snd demo_completed))"
  let ?a = "fst (wake (Sleep_Store 0 True 4000 [demo_okey] [4000]) (demo_stored\<lparr>ma_sleepers := []\<rparr>))"
  have r: "sc_run list_sl mock_ops mock_env_store mock_store_ok False 900000 ?st {#}"
    using sc_run.others [OF _ sc_run.queue_remove [OF sc_run_any [OF demo_completed_run], of 0 7]] by simp
  have t: "sc_in_flight_tasks (fst ?st) = [((0, 0), new_task 0 [demo_okey])]"
    using demo_submitted_eq by (simp add: request_remove_adapter_def demo_completed_def)
  have d: "map_of (sc_draining (apply_pending_adapter_ops mock_ops (fst ?st))) 0 = Some 7"
    "map_of (sc_l2_adapters (apply_pending_adapter_ops mock_ops (fst ?st))) 0 = Some ?a"
    using demo_submitted_eq by (simp_all add: apply_pending_adapter_ops_def request_remove_adapter_def demo_completed_def dict_dom_def del: wake.simps)
  have p: "store_fd mock_ops ?a = 10" "dict_dom (snd (pop_completed_store_tasks mock_ops ?a)) = {0}"
    by (simp_all add: mock_ops_def demo_stored_def ma_init_def finish_store_in_the_loop_def new_store_result_def Let_def
        ma_pop_completed_store_tasks_def notify_keys_stored_def dict_dom_def)
  have "open_ids (sc_in_flight_tasks (fst ?st)) 0 \<subseteq> {0}" unfolding t by (auto simp: open_ids_def split: if_splits)
  then show ?thesis
    using store_removal_completes [OF mock_store.l2_store_contract_axioms r, of 900001 "[10]"] d p by (elim exE conjE) auto
qed

end
