(* ===== verification/Prefetch_Controller.thy ===== *)
theory Prefetch_Controller
  imports Store_Controller
begin

text \<open>
  \<^verbatim>\<open>lmcache/v1/distributed/storage_controllers/prefetch_policy.py\<close> and
  \<^verbatim>\<open>prefetch_controller.py\<close>: the controller that looks keys up in the second tier and loads them
  into L1.

  A request goes through two phases. In the lookup phase its L1-resident keys are read-locked
  and every live adapter is asked to look up and lock the keys; when all answers are in, a load
  plan is made, L1 buffers are reserved and the plan is submitted to the adapters. When the
  loads are done, or when there is nothing to load, the request is finished: L2 locks are
  returned, loaded keys become readable, the retained set is reported.

  A handler of a request computes on the controller, the L1 manager and the request object and
  may raise: \<open>'a pf_state \<Rightarrow> 'a pf_state \<times> 'x result\<close>, with the state reached when it raised. The
  table of the controller refers to that object: the handler writes it back (\<open>store_request\<close>) when
  the table is read and at its end. The parameter
  \<open>kernels\<close> says whether the native fold kernels are installed. Threads, events that wake a
  waiter, gauges and logging are not modelled; a \<open>threading.Event\<close> is a number as in
  \<open>Store_Controller\<close>.
\<close>

section \<open>Computations that may raise\<close>

type_synonym ('s, 'x) py = "'s \<Rightarrow> 's \<times> 'x result"

definition py_return :: "'x \<Rightarrow> ('s, 'x) py" where
  "py_return x s = (s, Inr x)"

definition py_raise :: "py_error \<Rightarrow> ('s, 'x) py" where
  "py_raise e s = (s, Inl e)"

definition py_bind :: "('s, 'x) py \<Rightarrow> ('x \<Rightarrow> ('s, 'y) py) \<Rightarrow> ('s, 'y) py" where
  "py_bind f g s = (case f s of (s', Inl e) \<Rightarrow> (s', Inl e) | (s', Inr x) \<Rightarrow> g x s')"

definition py_lift :: "'x result \<Rightarrow> ('s, 'x) py" where
  "py_lift r s = (s, r)"

definition py_seq :: "('s, unit) py list \<Rightarrow> ('s, unit) py" where
  "py_seq fs = foldr (\<lambda>f g. py_bind f (\<lambda>_. g)) fs (py_return ())"

section \<open>Policies\<close>

record prefetch_policy =
  select_load_plan :: "object_key list \<Rightarrow> (int, bitmap) pydict \<Rightarrow> adapter_descriptor list \<Rightarrow> (int, bitmap) pydict"
  select_l1_retentions :: "object_key list \<Rightarrow> bool list"

definition plan_step ::
  "(int, bitmap) pydict \<Rightarrow> (int, bitmap) pydict \<times> bitmap \<Rightarrow> adapter_descriptor \<Rightarrow> (int, bitmap) pydict \<times> bitmap" where
  "plan_step lookup_results = (\<lambda>(plan, global_bitmap) ad.
     case dict_get lookup_results (ad_index ad) of
       None \<Rightarrow> (plan, global_bitmap)
     | Some curr_bitmap \<Rightarrow>
         let local_bitmap = bm_and global_bitmap curr_bitmap;
             global_bitmap' = bm_and global_bitmap (bm_not local_bitmap)
         in (if popcount local_bitmap = 0 then plan else dict_set (ad_index ad) local_bitmap plan, global_bitmap'))"

definition default_select_load_plan ::
  "object_key list \<Rightarrow> (int, bitmap) pydict \<Rightarrow> adapter_descriptor list \<Rightarrow> (int, bitmap) pydict" where
  "default_select_load_plan keys lookup_results adapters =
     fst (foldl (plan_step lookup_results)
           ([], foldl bm_or (new_bitmap (length keys)) (dict_values lookup_results))
           (sort_key ad_index adapters))"

definition default_select_l1_retentions :: "object_key list \<Rightarrow> bool list" where
  "default_select_l1_retentions keys = replicate (length keys) False"

definition retain_select_l1_retentions :: "object_key list \<Rightarrow> bool list" where
  "retain_select_l1_retentions keys = replicate (length keys) True"

definition DefaultPrefetchPolicy :: prefetch_policy where
  "DefaultPrefetchPolicy =
     \<lparr>select_load_plan = default_select_load_plan, select_l1_retentions = default_select_l1_retentions\<rparr>"

definition RetainPrefetchPolicy :: prefetch_policy where
  "RetainPrefetchPolicy =
     \<lparr>select_load_plan = default_select_load_plan, select_l1_retentions = retain_select_l1_retentions\<rparr>"

definition register_prefetch_policy :: "string \<Rightarrow> 'p \<Rightarrow> 'p policy_registry \<Rightarrow> 'p policy_registry result" where
  "register_prefetch_policy name cls reg =
     (if name \<in> dict_dom reg then Inl ValueError else Inr (dict_set name cls reg))"

definition get_registered_prefetch_policies :: "'p policy_registry \<Rightarrow> string list" where
  "get_registered_prefetch_policies reg = dict_keys reg"

definition create_prefetch_policy :: "string \<Rightarrow> 'p policy_registry \<Rightarrow> 'p result" where
  "create_prefetch_policy name reg =
     (case dict_get reg name of None \<Rightarrow> Inl ValueError | Some cls \<Rightarrow> Inr cls)"

definition prefetch_policies :: "prefetch_policy policy_registry" where
  "prefetch_policies = [(''default'', DefaultPrefetchPolicy), (''retain'', RetainPrefetchPolicy)]"

section \<open>State\<close>

datatype prefetch_mode = LOOKUP | WARM

record prefetch_spec =
  ps_keys :: "object_key list"
  ps_group_layout_descs :: "(int, memory_layout) pydict"
  ps_num_kv_readers :: int
  ps_policy :: trim_policy
  ps_attn_desc :: attn_window_desc
  ps_mode :: prefetch_mode

datatype prefetch_phase = PHASE_LOOKUP | PLAN_AND_LOAD

record in_flight_request =
  rq_request_id :: int
  rq_keys :: "object_key list"
  rq_phase :: prefetch_phase
  rq_num_kv_readers :: int
  rq_policy :: trim_policy
  rq_attn_desc :: attn_window_desc
  rq_mode :: prefetch_mode
  rq_pending_lookup_tasks :: "(int, int) pydict"
  rq_lookup_results :: "(int, bitmap) pydict"
  rq_l2_readlocks :: "(int, bitmap) pydict"
  rq_hit_reported :: bool
  rq_load_plan :: "(int, bitmap) pydict"
  rq_pending_load_tasks :: "(int, int) pydict"
  rq_load_bytes :: "(int, int) pydict"
  rq_load_results :: "(int, bitmap) pydict"
  rq_write_reserved_keys :: "object_key list"
  rq_write_reserved_objs :: "(object_key, nat) pydict"
  rq_l1_readlocks :: bitmap
  rq_group_layout_descs :: "(int, memory_layout) pydict"

definition all_lookups_done :: "in_flight_request \<Rightarrow> bool" where
  "all_lookups_done rq \<longleftrightarrow> length (rq_pending_lookup_tasks rq) = 0"

definition all_loads_done :: "in_flight_request \<Rightarrow> bool" where
  "all_loads_done rq \<longleftrightarrow> length (rq_pending_load_tasks rq) = 0"

definition new_request :: "int \<Rightarrow> prefetch_spec \<Rightarrow> bitmap \<Rightarrow> in_flight_request" where
  "new_request request_id spec l1_readlocks =
     \<lparr>rq_request_id = request_id, rq_keys = ps_keys spec, rq_phase = PHASE_LOOKUP,
      rq_num_kv_readers = ps_num_kv_readers spec, rq_policy = ps_policy spec, rq_attn_desc = ps_attn_desc spec,
      rq_mode = ps_mode spec, rq_pending_lookup_tasks = [], rq_lookup_results = [], rq_l2_readlocks = [],
      rq_hit_reported = False, rq_load_plan = [], rq_pending_load_tasks = [], rq_load_bytes = [],
      rq_load_results = [], rq_write_reserved_keys = [], rq_write_reserved_objs = [],
      rq_l1_readlocks = l1_readlocks, rq_group_layout_descs = ps_group_layout_descs spec\<rparr>"

datatype prefetch_event =
    L2_PREFETCH_LOOKUP_SUBMITTED int nat nat "string multiset"
  | L2_PREFETCH_LOOKUP_COMPLETED int int
  | L2_LOAD_TASK_SUBMITTED int int int string nat int
  | L2_LOAD_TASK_COMPLETED int int int string
  | L2_PREFETCH_LOAD_SUBMITTED int nat nat "string multiset"
  | L2_PREFETCH_LOAD_COMPLETED int nat nat "string multiset"
  | L2_PREFETCH_FAILED string "object_key list"
  | L1_ALLOCATION_FAILED "object_key list"

record 'a prefetch_controller =
  pc_l2_adapters :: "(int, 'a) pydict"
  pc_adapter_descriptors :: "(int, adapter_descriptor) pydict"
  pc_policy :: prefetch_policy
  pc_max_in_flight :: int
  pc_draining :: "(int, nat) pydict"
  pc_pending_adapter_ops :: "'a adapter_op list"
  pc_in_flight_requests :: "(int, in_flight_request) pydict"
  pc_pending_queue :: "(int \<times> prefetch_spec) list"
  pc_status_in_flight_count :: int
  pc_status_pending_count :: int
  pc_status_lookup_phase_count :: int
  pc_status_load_phase_count :: int
  pc_submission_queue :: "(int \<times> prefetch_spec) list"
  pc_next_request_id :: int
  pc_completed_lookups :: "(int, int) pydict"
  pc_completed_results :: "(int, bitmap) pydict"
  pc_lookup_efd_to_adapter :: "(int, int) pydict"
  pc_load_efd_to_adapter :: "(int, int) pydict"
  pc_submission_fd :: int
  pc_events :: "prefetch_event list"
  pc_done :: "nat list"

type_synonym 'a pc_state = "'a prefetch_controller \<times> object_key l1_manager"
type_synonym 'a pf_state = "'a prefetch_controller \<times> object_key l1_manager \<times> in_flight_request"

text \<open>\<open>zip(..., strict=True)\<close> raises on lists of different lengths.\<close>

definition pc_init ::
  "'a l2_ops \<Rightarrow> 'a list \<Rightarrow> adapter_descriptor list \<Rightarrow> prefetch_policy \<Rightarrow> int \<Rightarrow> int \<Rightarrow> 'a prefetch_controller result" where
  "pc_init ops l2_adapters descriptors policy max_in_flight submission_fd =
     (if length descriptors \<noteq> length l2_adapters then Inl ValueError
      else
        let adapters = foldl (\<lambda>d (desc, a). dict_set (ad_index desc) a d) [] (zip descriptors l2_adapters);
            descs = foldl (\<lambda>d desc. dict_set (ad_index desc) desc d) [] descriptors
        in Inr \<lparr>pc_l2_adapters = adapters, pc_adapter_descriptors = descs, pc_policy = policy,
                pc_max_in_flight = max_in_flight, pc_draining = [], pc_pending_adapter_ops = [],
                pc_in_flight_requests = [], pc_pending_queue = [], pc_status_in_flight_count = 0,
                pc_status_pending_count = 0, pc_status_lookup_phase_count = 0, pc_status_load_phase_count = 0,
                pc_submission_queue = [], pc_next_request_id = 0, pc_completed_lookups = [], pc_completed_results = [],
                pc_lookup_efd_to_adapter = foldl (\<lambda>d (i, a). dict_set (lookup_fd ops a) i d) [] adapters,
                pc_load_efd_to_adapter = foldl (\<lambda>d (i, a). dict_set (load_fd ops a) i d) [] adapters,
                pc_submission_fd = submission_fd, pc_events = [], pc_done = []\<rparr>)"

section \<open>External calls\<close>

definition submit_prefetch_request :: "prefetch_spec \<Rightarrow> 'a prefetch_controller \<Rightarrow> 'a prefetch_controller \<times> int" where
  "submit_prefetch_request spec pc =
     (pc\<lparr>pc_next_request_id := pc_next_request_id pc + 1,
         pc_submission_queue := pc_submission_queue pc @ [(pc_next_request_id pc, spec)]\<rparr>, pc_next_request_id pc)"

definition query_lookup_result :: "int \<Rightarrow> 'a prefetch_controller \<Rightarrow> int option" where
  "query_lookup_result request_id pc = dict_get (pc_completed_lookups pc) request_id"

definition query_prefetch_result :: "int \<Rightarrow> 'a prefetch_controller \<Rightarrow> 'a prefetch_controller \<times> bitmap option" where
  "query_prefetch_result request_id pc =
     (let result = dict_get (pc_completed_results pc) request_id;
          pc1 = pc\<lparr>pc_completed_results := dict_del request_id (pc_completed_results pc)\<rparr>
      in (if result = None then pc1
          else pc1\<lparr>pc_completed_lookups := dict_del request_id (pc_completed_lookups pc1)\<rparr>, result))"

definition pc_add_adapter :: "int \<Rightarrow> 'a \<Rightarrow> adapter_descriptor \<Rightarrow> nat \<Rightarrow> 'a prefetch_controller \<Rightarrow> 'a prefetch_controller" where
  "pc_add_adapter adapter_id adapter desc ev pc =
     pc\<lparr>pc_pending_adapter_ops := pc_pending_adapter_ops pc @ [AddAdapterOp adapter_id adapter desc ev]\<rparr>"

definition pc_request_remove_adapter :: "int \<Rightarrow> nat \<Rightarrow> 'a prefetch_controller \<Rightarrow> 'a prefetch_controller" where
  "pc_request_remove_adapter adapter_id ev pc =
     pc\<lparr>pc_pending_adapter_ops := pc_pending_adapter_ops pc @ [RemoveAdapterOp adapter_id ev]\<rparr>"

section \<open>Completion and unlocking\<close>

definition pc_publish :: "prefetch_event \<Rightarrow> ('a pf_state, unit) py" where
  "pc_publish ev = (\<lambda>(pc, l1, rq). ((pc\<lparr>pc_events := pc_events pc @ [ev]\<rparr>, l1, rq), Inr ()))"

definition when_nonempty :: "'x list \<Rightarrow> ('s, unit) py \<Rightarrow> ('s, unit) py" where
  "when_nonempty xs f = (if xs = [] then py_return () else f)"

text \<open>The request object lives in the table while it is tracked there.\<close>

definition store_request :: "'a prefetch_controller \<Rightarrow> in_flight_request \<Rightarrow> 'a prefetch_controller" where
  "store_request pc rq =
     (if rq_request_id rq \<in> dict_dom (pc_in_flight_requests pc)
      then pc\<lparr>pc_in_flight_requests := dict_set (rq_request_id rq) rq (pc_in_flight_requests pc)\<rparr> else pc)"

definition complete_request :: "int \<Rightarrow> bitmap \<Rightarrow> 'a prefetch_controller \<Rightarrow> 'a prefetch_controller" where
  "complete_request request_id retained pc =
     (let pc1 = pc\<lparr>pc_completed_results := dict_set request_id retained (pc_completed_results pc)\<rparr>
      in case dict_get (pc_in_flight_requests pc1) request_id of
           None \<Rightarrow> pc1
         | Some removed \<Rightarrow>
             let pc2 = pc1\<lparr>pc_in_flight_requests := dict_del request_id (pc_in_flight_requests pc1),
                           pc_status_in_flight_count := pc_status_in_flight_count pc1 - 1\<rparr>
             in (case rq_phase removed of
                   PHASE_LOOKUP \<Rightarrow> pc2\<lparr>pc_status_lookup_phase_count := pc_status_lookup_phase_count pc2 - 1\<rparr>
                 | PLAN_AND_LOAD \<Rightarrow> pc2\<lparr>pc_status_load_phase_count := pc_status_load_phase_count pc2 - 1\<rparr>))"

definition release_one ::
  "'a l2_ops \<Rightarrow> (int, bitmap) pydict \<Rightarrow> int \<times> bitmap \<Rightarrow> 'a pf_state \<Rightarrow> 'a pf_state \<times> unit result" where
  "release_one ops keep item st = (case (item, st) of ((adapter_idx, held), (pc, l1, rq)) \<Rightarrow>
     let keep_bitmap = dict_get_default keep adapter_idx (new_bitmap (length (rq_keys rq)));
         unlock_keys = gather (bm_and held (bm_not keep_bitmap)) (rq_keys rq);
         remaining = bm_and held keep_bitmap;
         rq' = rq\<lparr>rq_l2_readlocks :=
                    (if popcount remaining = 0 then dict_del adapter_idx (rq_l2_readlocks rq)
                     else dict_set adapter_idx remaining (rq_l2_readlocks rq))\<rparr>
     in if unlock_keys = [] then ((pc, l1, rq'), Inr ())
        else case dict_get (pc_l2_adapters pc) adapter_idx of
          None \<Rightarrow> (st, Inl KeyError)
        | Some adapter \<Rightarrow>
            ((pc\<lparr>pc_l2_adapters := dict_set adapter_idx (submit_unlock ops unlock_keys adapter) (pc_l2_adapters pc)\<rparr>,
              l1, rq'), Inr ()))"

definition release_l2_locks :: "'a l2_ops \<Rightarrow> (int, bitmap) pydict \<Rightarrow> ('a pf_state, unit) py" where
  "release_l2_locks ops keep st =
     (case st of (pc, l1, rq) \<Rightarrow> for_each (release_one ops keep) (rq_l2_readlocks rq) st)"

definition update_lookup_results :: "int \<Rightarrow> int \<Rightarrow> 'a prefetch_controller \<Rightarrow> 'a prefetch_controller" where
  "update_lookup_results request_id prefix_hit_count pc =
     pc\<lparr>pc_completed_lookups := dict_set request_id prefix_hit_count (pc_completed_lookups pc)\<rparr>"

definition report_lookup_hit :: "int \<Rightarrow> ('a pf_state, unit) py" where
  "report_lookup_hit prefix_hit_count = (\<lambda>(pc, l1, rq).
     pc_publish (L2_PREFETCH_LOOKUP_COMPLETED (rq_request_id rq) prefix_hit_count)
       (update_lookup_results (rq_request_id rq) prefix_hit_count pc, l1, rq\<lparr>rq_hit_reported := True\<rparr>))"

text \<open>The keys that were loaded, as positions in the request.\<close>

definition scatter_results :: "in_flight_request \<Rightarrow> bitmap" where
  "scatter_results rq =
     foldl (\<lambda>b (adapter_idx, plan_bitmap).
              case dict_get (rq_load_results rq) adapter_idx of
                None \<Rightarrow> b
              | Some load_bitmap \<Rightarrow>
                  foldl (\<lambda>b i. bm_set i b) b (gather load_bitmap (get_indices plan_bitmap)))
       (new_bitmap (length (rq_keys rq))) (rq_load_plan rq)"

text \<open>The steps of \<open>_finish_request\<close>.\<close>

definition make_ready :: "int \<Rightarrow> object_key list \<Rightarrow> ('a pf_state, unit) py" where
  "make_ready now loaded_keys = (\<lambda>(pc, l1, rq).
     let l1' = (if loaded_keys = [] then l1
                else if rq_mode rq = WARM then fst (finish_write now loaded_keys l1)
                else fst (finish_write_and_reserve_read now loaded_keys (rq_num_kv_readers rq) l1))
     in ((pc, l1', rq), Inr ()))"

definition discard_failed :: "sorted_list_ops \<Rightarrow> int \<Rightarrow> object_key list \<Rightarrow> ('a pf_state, unit) py" where
  "discard_failed sl now failed_keys = (\<lambda>(pc, l1, rq).
     let l1' = (if failed_keys = [] then l1
                else fst (delete_keys sl now failed_keys False (fst (finish_write now failed_keys l1))))
     in ((pc, l1', rq), Inr ()))"

definition release_unretained ::
  "sorted_list_ops \<Rightarrow> int \<Rightarrow> bitmap \<Rightarrow> bitmap \<Rightarrow> ('a pf_state, unit) py" where
  "release_unretained sl now result_bitmap retained = (\<lambda>(pc, l1, rq).
     if rq_mode rq = WARM then
       if popcount (rq_l1_readlocks rq) > 0 then
         ((pc, fst (finish_read sl now (gather (rq_l1_readlocks rq) (rq_keys rq)) (rq_num_kv_readers rq) l1),
           rq\<lparr>rq_l1_readlocks := new_bitmap (length (rq_keys rq))\<rparr>), Inr ())
       else ((pc, l1, rq), Inr ())
     else
       let released = gather (bm_and result_bitmap (bm_not retained)) (rq_keys rq)
       in ((pc, if released = [] then l1 else fst (finish_read sl now released (rq_num_kv_readers rq) l1), rq), Inr ()))"

definition touch_retained :: "bitmap \<Rightarrow> ('a pf_state, unit) py" where
  "touch_retained retained = (\<lambda>(pc, l1, rq).
     let retained_keys = gather retained (rq_keys rq)
     in ((pc, if retained_keys = [] then l1 else touch_keys retained_keys l1, rq), Inr ()))"

definition report_unreported :: "int \<Rightarrow> ('a pf_state, unit) py" where
  "report_unreported hit_length = (\<lambda>(pc, l1, rq).
     if rq_hit_reported rq then ((pc, l1, rq), Inr ()) else report_lookup_hit hit_length (pc, l1, rq))"

definition complete_tracked :: "bitmap \<Rightarrow> ('a pf_state, unit) py" where
  "complete_tracked retained = (\<lambda>(pc, l1, rq).
     ((complete_request (rq_request_id rq) retained (store_request pc rq), l1, rq), Inr ()))"

definition finish_steps ::
  "bool \<Rightarrow> sorted_list_ops \<Rightarrow> 'a l2_ops \<Rightarrow> int \<Rightarrow> in_flight_request \<Rightarrow> ('a pf_state, unit) py" where
  "finish_steps kernels sl ops now rq =
     (let loaded = scatter_results rq;
          loaded_keys = gather loaded (rq_keys rq);
          failed_keys = filter (\<lambda>k. k \<notin> set loaded_keys) (rq_write_reserved_keys rq);
          result_bitmap = bm_or loaded (rq_l1_readlocks rq)
      in py_bind
           (py_seq
             [release_l2_locks ops [],
              make_ready now loaded_keys,
              discard_failed sl now failed_keys,
              pc_publish (L2_PREFETCH_LOAD_COMPLETED (rq_request_id rq) (length loaded_keys) (length failed_keys)
                (salt_counts loaded_keys)),
              when_nonempty failed_keys (pc_publish (L2_PREFETCH_FAILED ''not_found'' failed_keys))])
           (\<lambda>_. py_bind
             (py_lift (build_trim_mask kernels result_bitmap (length (rq_keys rq)) (rq_policy rq) (rq_attn_desc rq)))
             (\<lambda>(hit_length, retained). py_seq
               [release_unretained sl now result_bitmap retained,
                touch_retained retained,
                report_unreported hit_length,
                complete_tracked retained])))"

definition finish_request ::
  "bool \<Rightarrow> sorted_list_ops \<Rightarrow> 'a l2_ops \<Rightarrow> int \<Rightarrow> ('a pf_state, unit) py" where
  "finish_request kernels sl ops now st = finish_steps kernels sl ops now (snd (snd st)) st"

section \<open>The lookup phase\<close>

definition locked_mask :: "(object_key, op_result) pydict \<Rightarrow> object_key list \<Rightarrow> bitmap" where
  "locked_mask lock_results keys =
     foldl (\<lambda>b (i, key). if map_option fst (dict_get lock_results key) = Some SUCCESS then bm_set i b else b)
       (new_bitmap (length keys)) (enumerate 0 keys)"

definition lock_l1_keys ::
  "bool \<Rightarrow> sorted_list_ops \<Rightarrow> int \<Rightarrow> object_key list \<Rightarrow> int \<Rightarrow> trim_policy \<Rightarrow> attn_window_desc \<Rightarrow> object_key l1_manager
     \<Rightarrow> object_key l1_manager \<times> bitmap result" where
  "lock_l1_keys kernels sl now keys num_kv_readers policy attn_desc l1 =
     (let (l1', lock_results) = reserve_read now keys num_kv_readers l1;
          l1_readlocks = locked_mask lock_results keys
      in if policy \<noteq> PREFIX then (l1', Inr l1_readlocks)
         else case build_trim_mask kernels l1_readlocks (length keys) policy attn_desc of
           Inl e \<Rightarrow> (l1', Inl e)
         | Inr (hit_length, l1_hit_window) \<Rightarrow>
             let stride = int (num_object_groups attn_desc) * aw_world_size attn_desc;
                 within_l1_hit = prefix_bitmap (length keys) (nat (hit_length * stride));
                 evictable = bm_and (bm_and l1_readlocks (bm_not l1_hit_window)) within_l1_hit
             in if popcount evictable = 0 then (l1', Inr l1_readlocks)
                else (fst (finish_read sl now (gather evictable keys) num_kv_readers l1'),
                      Inr (bm_and l1_readlocks (bm_not evictable))))"

definition submit_lookup ::
  "'a l2_ops \<Rightarrow> 'a prefetch_controller \<times> in_flight_request \<Rightarrow> int \<times> 'a \<Rightarrow> 'a prefetch_controller \<times> in_flight_request" where
  "submit_lookup ops = (\<lambda>(pc, rq) (adapter_id, adapter).
     let (adapter', task_id) = submit_lookup_and_lock_task ops (rq_keys rq) (rq_group_layout_descs rq) adapter
     in (pc\<lparr>pc_l2_adapters := dict_set adapter_id adapter' (pc_l2_adapters pc)\<rparr>,
         rq\<lparr>rq_pending_lookup_tasks := dict_set adapter_id task_id (rq_pending_lookup_tasks rq)\<rparr>))"

definition start_lookup_phase ::
  "bool \<Rightarrow> sorted_list_ops \<Rightarrow> 'a l2_ops \<Rightarrow> int \<Rightarrow> int \<Rightarrow> prefetch_spec \<Rightarrow> 'a pc_state \<Rightarrow> 'a pc_state \<times> unit result" where
  "start_lookup_phase kernels sl ops now request_id spec st = (case st of (pc, l1) \<Rightarrow>
     case lock_l1_keys kernels sl now (ps_keys spec) (ps_num_kv_readers spec) (ps_policy spec) (ps_attn_desc spec) l1 of
       (l1', Inl e) \<Rightarrow> ((pc, l1'), Inl e)
     | (l1', Inr l1_readlocks) \<Rightarrow>
         let request = new_request request_id spec l1_readlocks;
             routing_adapters = filter (\<lambda>(i, _). i \<notin> dict_dom (pc_draining pc)) (pc_l2_adapters pc)
         in if routing_adapters = [] then
              (case finish_request kernels sl ops now (pc, l1', request) of ((pc', l1'', _), r) \<Rightarrow> ((pc', l1''), r))
            else
              let (pc1, request1) = foldl (submit_lookup ops) (pc, request) routing_adapters;
                  pc2 = pc1\<lparr>pc_in_flight_requests := dict_set request_id request1 (pc_in_flight_requests pc1),
                            pc_status_in_flight_count := pc_status_in_flight_count pc1 + 1,
                            pc_status_lookup_phase_count := pc_status_lookup_phase_count pc1 + 1,
                            pc_events := pc_events pc1 @
                              [L2_PREFETCH_LOOKUP_SUBMITTED request_id (length (ps_keys spec))
                                 (length (rq_pending_lookup_tasks request1)) (salt_counts (ps_keys spec))]\<rparr>
              in ((pc2, l1'), Inr ()))"

section \<open>The load phase\<close>

text \<open>\<open>itertools.groupby\<close> on the object group.\<close>

function groupby_gid :: "object_key list \<Rightarrow> (int \<times> object_key list) list" where
  "groupby_gid [] = []"
| "groupby_gid (k # ks) =
     (object_group_id k, k # takeWhile (\<lambda>x. object_group_id x = object_group_id k) ks) #
     groupby_gid (dropWhile (\<lambda>x. object_group_id x = object_group_id k) ks)"
  by pat_completeness auto
termination
  by (relation "measure length") (auto simp: length_dropWhile_le less_Suc_eq_le)

definition reserve_group ::
  "sorted_list_ops \<Rightarrow> int \<Rightarrow> (object_key, bool) pydict \<Rightarrow> (int, memory_layout) pydict \<Rightarrow> int \<times> object_key list
     \<Rightarrow> object_key l1_manager \<times> (object_key, op_result) pydict
     \<Rightarrow> (object_key l1_manager \<times> (object_key, op_result) pydict) \<times> unit result" where
  "reserve_group sl now retention_map group_layout_descs grp acc = (case (grp, acc) of ((gid, group_keys), (l1, write_results)) \<Rightarrow>
     case dict_get group_layout_descs gid of
       None \<Rightarrow> (acc, Inl KeyError)
     | Some gld \<Rightarrow>
         (case reserve_write sl now group_keys (map (\<lambda>k. \<not> dict_get_default retention_map k False) group_keys) gld Mode_New l1 of
            (l1', Inl e) \<Rightarrow> ((l1', write_results), Inl e)
          | (l1', Inr gr) \<Rightarrow> ((l1', foldl (\<lambda>d (k, v). dict_set k v d) write_results gr), Inr ())))"

definition record_write ::
  "in_flight_request \<times> object_key list \<times> object_key list \<times> object_key list \<Rightarrow> object_key \<times> op_result
     \<Rightarrow> in_flight_request \<times> object_key list \<times> object_key list \<times> object_key list" where
  "record_write = (\<lambda>(rq, reserved, oom, contended) (key, err, mem_obj).
     case (err, mem_obj) of
       (SUCCESS, Some m) \<Rightarrow>
         (rq\<lparr>rq_write_reserved_keys := rq_write_reserved_keys rq @ [key],
             rq_write_reserved_objs := dict_set key m (rq_write_reserved_objs rq)\<rparr>, reserved @ [key], oom, contended)
     | (OUT_OF_MEMORY, _) \<Rightarrow> (rq, reserved, oom @ [key], contended)
     | (KEY_NOT_WRITABLE, _) \<Rightarrow> (rq, reserved, oom, contended @ [key])
     | _ \<Rightarrow> (rq, reserved, oom, contended))"

definition reserve_load_buffers ::
  "sorted_list_ops \<Rightarrow> int \<Rightarrow> object_key list \<Rightarrow> ('a pf_state, object_key list) py" where
  "reserve_load_buffers sl now keys_to_reserve st = (case st of (pc, l1, rq) \<Rightarrow>
     let retentions = (if rq_mode rq = WARM then replicate (length keys_to_reserve) True
                       else select_l1_retentions (pc_policy pc) keys_to_reserve)
     in if length retentions \<noteq> length keys_to_reserve then (st, Inl ValueError)
        else
          let retention_map = foldl (\<lambda>d (k, v). dict_set k v d) [] (zip keys_to_reserve retentions);
              by_group = sort_key object_group_id keys_to_reserve
          in case for_each (reserve_group sl now retention_map (rq_group_layout_descs rq)) (groupby_gid by_group) (l1, []) of
               ((l1', _), Inl e) \<Rightarrow> ((pc, l1', rq), Inl e)
             | ((l1', write_results), Inr _) \<Rightarrow>
                 let (rq', reserved, oom_keys, contended_keys) = foldl record_write (rq, [], [], []) write_results
                 in py_bind (when_nonempty oom_keys (py_bind (pc_publish (L1_ALLOCATION_FAILED oom_keys))
                        (\<lambda>_. pc_publish (L2_PREFETCH_FAILED ''l1_oom'' oom_keys)))) (\<lambda>_.
                    py_bind (when_nonempty contended_keys (pc_publish (L2_PREFETCH_FAILED ''l1_contended'' contended_keys))) (\<lambda>_.
                    py_return reserved)) (pc, l1', rq'))"

definition submit_load ::
  "'a l2_ops \<Rightarrow> int \<times> bitmap \<Rightarrow> 'a pf_state \<Rightarrow> 'a pf_state \<times> unit result" where
  "submit_load ops item st = (case (item, st) of ((adapter_idx, bm), (pc, l1, rq)) \<Rightarrow>
     let per_adapter_keys = gather bm (rq_keys rq)
     in if list_ex (\<lambda>k. k \<notin> dict_dom (rq_write_reserved_objs rq)) per_adapter_keys then (st, Inl KeyError)
        else case dict_get (pc_l2_adapters pc) adapter_idx of
          None \<Rightarrow> (st, Inl KeyError)
        | Some adapter \<Rightarrow>
            let per_adapter_objs = map (\<lambda>k. ta_heap (l1_memory l1) ! the (dict_get (rq_write_reserved_objs rq) k)) per_adapter_keys;
                (adapter', task_id) = submit_load_task ops per_adapter_keys per_adapter_objs adapter;
                total_bytes = sum_list (map get_size per_adapter_objs);
                pc' = pc\<lparr>pc_l2_adapters := dict_set adapter_idx adapter' (pc_l2_adapters pc)\<rparr>;
                rq' = rq\<lparr>rq_pending_load_tasks := dict_set adapter_idx task_id (rq_pending_load_tasks rq),
                         rq_load_bytes := dict_set adapter_idx total_bytes (rq_load_bytes rq)\<rparr>
            in case dict_get (pc_adapter_descriptors pc') adapter_idx of
                 None \<Rightarrow> ((pc', l1, rq'), Inl KeyError)
               | Some desc \<Rightarrow>
                   pc_publish (L2_LOAD_TASK_SUBMITTED (rq_request_id rq) adapter_idx task_id (ad_type_name desc)
                     (length per_adapter_keys) total_bytes) (pc', l1, rq'))"

definition submit_load_tasks :: "'a l2_ops \<Rightarrow> (int, bitmap) pydict \<Rightarrow> ('a pf_state, unit) py" where
  "submit_load_tasks ops trimmed_plan st = (case st of (_, _, rq) \<Rightarrow>
     let plan_keys = concat (map (\<lambda>(_, bm). gather bm (rq_keys rq)) trimmed_plan)
     in py_bind (for_each (submit_load ops) trimmed_plan) (\<lambda>_.
          pc_publish (L2_PREFETCH_LOAD_SUBMITTED (rq_request_id rq) (length plan_keys) (length trimmed_plan)
            (salt_counts plan_keys))) st)"

definition pc_routing_descriptors :: "'a prefetch_controller \<Rightarrow> adapter_descriptor list" where
  "pc_routing_descriptors pc =
     map snd (filter (\<lambda>(i, _). i \<notin> dict_dom (pc_draining pc)) (pc_adapter_descriptors pc))"

text \<open>The steps of \<open>_transition_to_load_phase\<close>: entering the phase, releasing the L1 locks outside
  the final and the fallback window, and starting the loads.\<close>

definition enter_load_phase :: "('a pf_state, unit) py" where
  "enter_load_phase = (\<lambda>(pc, l1, rq).
     ((pc\<lparr>pc_status_lookup_phase_count := pc_status_lookup_phase_count pc - 1,
          pc_status_load_phase_count := pc_status_load_phase_count pc + 1\<rparr>, l1, rq\<lparr>rq_phase := PLAN_AND_LOAD\<rparr>), Inr ()))"

definition release_stale ::
  "sorted_list_ops \<Rightarrow> int \<Rightarrow> bitmap \<Rightarrow> bitmap \<Rightarrow> ('a pf_state, unit) py" where
  "release_stale sl now retained l1_fallback_retain = (\<lambda>(pc, l1, rq).
     let stale = bm_and (bm_and (rq_l1_readlocks rq) (bm_not retained)) (bm_not l1_fallback_retain)
     in if popcount stale > 0 then
          ((pc, fst (finish_read sl now (gather stale (rq_keys rq)) (rq_num_kv_readers rq) l1),
            rq\<lparr>rq_l1_readlocks := bm_and (rq_l1_readlocks rq) (bm_or retained l1_fallback_retain)\<rparr>), Inr ())
        else ((pc, l1, rq), Inr ()))"

definition set_load_plan :: "(int, bitmap) pydict \<Rightarrow> ('a pf_state, unit) py" where
  "set_load_plan plan = (\<lambda>(pc, l1, rq). ((pc, l1, rq\<lparr>rq_load_plan := plan\<rparr>), Inr ()))"

definition start_loads ::
  "bool \<Rightarrow> sorted_list_ops \<Rightarrow> 'a l2_ops \<Rightarrow> int \<Rightarrow> int \<Rightarrow> (int, bitmap) pydict \<Rightarrow> object_key list \<Rightarrow> ('a pf_state, unit) py" where
  "start_loads kernels sl ops now hit_length trimmed_plan keys =
     (let keys_to_reserve = gather (merge_bitmaps (dict_values trimmed_plan) (length keys)) keys
      in py_bind (reserve_load_buffers sl now keys_to_reserve) (\<lambda>reserved.
           if length (remdups reserved) < length keys_to_reserve then finish_request kernels sl ops now
           else py_seq
             [set_load_plan trimmed_plan,
              release_l2_locks ops trimmed_plan,
              submit_load_tasks ops trimmed_plan,
              report_lookup_hit hit_length]))"

definition make_load_plan :: "'a prefetch_controller \<Rightarrow> in_flight_request \<Rightarrow> (int, bitmap) pydict" where
  "make_load_plan pc rq =
     trim_load_plan_with_mask
       (select_load_plan (pc_policy pc) (rq_keys rq) (rq_lookup_results rq) (pc_routing_descriptors pc))
       (bm_not (rq_l1_readlocks rq))"

definition plan_steps ::
  "bool \<Rightarrow> sorted_list_ops \<Rightarrow> 'a l2_ops \<Rightarrow> int \<Rightarrow> (int, bitmap) pydict \<Rightarrow> in_flight_request \<Rightarrow> ('a pf_state, unit) py" where
  "plan_steps kernels sl ops now load_plan rq =
     (let num_keys = length (rq_keys rq);
          union_bitmap = bm_or (merge_bitmaps (dict_values load_plan) num_keys) (rq_l1_readlocks rq)
      in py_bind (py_lift (build_trim_mask kernels union_bitmap num_keys (rq_policy rq) (rq_attn_desc rq)))
           (\<lambda>(hit_length, retained).
              let trimmed_plan = trim_load_plan_with_mask load_plan retained
              in if trimmed_plan = [] then finish_request kernels sl ops now
                 else py_bind
                   (py_lift (build_trim_mask kernels (rq_l1_readlocks rq) num_keys (rq_policy rq) (rq_attn_desc rq)))
                   (\<lambda>(_, l1_fallback_retain). py_seq
                      [release_stale sl now retained l1_fallback_retain,
                       start_loads kernels sl ops now hit_length trimmed_plan (rq_keys rq)])))"

definition plan_loads ::
  "bool \<Rightarrow> sorted_list_ops \<Rightarrow> 'a l2_ops \<Rightarrow> int \<Rightarrow> ('a pf_state, unit) py" where
  "plan_loads kernels sl ops now st = (case st of (pc, _, rq) \<Rightarrow>
     plan_steps kernels sl ops now (make_load_plan pc rq) rq st)"

definition transition_to_load_phase ::
  "bool \<Rightarrow> sorted_list_ops \<Rightarrow> 'a l2_ops \<Rightarrow> int \<Rightarrow> ('a pf_state, unit) py" where
  "transition_to_load_phase kernels sl ops now =
     py_seq [enter_load_phase, plan_loads kernels sl ops now]"

section \<open>Advancing requests\<close>

definition poll_lookup ::
  "'a l2_ops \<Rightarrow> int list \<Rightarrow> int \<Rightarrow> 'a pf_state \<Rightarrow> 'a pf_state \<times> unit result" where
  "poll_lookup ops signaled adapter_idx st = (case st of (pc, l1, rq) \<Rightarrow>
     if adapter_idx \<notin> set signaled then (st, Inr ())
     else case dict_get (rq_pending_lookup_tasks rq) adapter_idx of
       None \<Rightarrow> (st, Inl KeyError)
     | Some task_id \<Rightarrow>
         (case dict_get (pc_l2_adapters pc) adapter_idx of
            None \<Rightarrow> (st, Inl KeyError)
          | Some adapter \<Rightarrow>
              let (adapter', res) = query_lookup_and_lock_result ops task_id adapter;
                  pc' = pc\<lparr>pc_l2_adapters := dict_set adapter_idx adapter' (pc_l2_adapters pc)\<rparr>
              in (case res of
                    None \<Rightarrow> ((pc', l1, rq), Inr ())
                  | Some bm \<Rightarrow>
                      ((pc', l1, rq\<lparr>rq_lookup_results := dict_set adapter_idx bm (rq_lookup_results rq),
                                    rq_l2_readlocks := dict_set adapter_idx bm (rq_l2_readlocks rq),
                                    rq_pending_lookup_tasks := dict_del adapter_idx (rq_pending_lookup_tasks rq)\<rparr>), Inr ()))))"

definition poll_lookup_results :: "'a l2_ops \<Rightarrow> int list \<Rightarrow> ('a pf_state, unit) py" where
  "poll_lookup_results ops signaled st = (case st of (_, _, rq) \<Rightarrow>
     for_each (poll_lookup ops signaled) (dict_keys (rq_pending_lookup_tasks rq)) st)"

definition poll_load ::
  "'a l2_ops \<Rightarrow> int list \<Rightarrow> int \<Rightarrow> 'a pf_state \<Rightarrow> 'a pf_state \<times> unit result" where
  "poll_load ops signaled adapter_idx st = (case st of (pc, l1, rq) \<Rightarrow>
     if adapter_idx \<notin> set signaled then (st, Inr ())
     else case dict_get (rq_pending_load_tasks rq) adapter_idx of
       None \<Rightarrow> (st, Inl KeyError)
     | Some task_id \<Rightarrow>
         (case dict_get (pc_l2_adapters pc) adapter_idx of
            None \<Rightarrow> (st, Inl KeyError)
          | Some adapter \<Rightarrow>
              let (adapter', res) = query_load_result ops task_id adapter;
                  pc' = pc\<lparr>pc_l2_adapters := dict_set adapter_idx adapter' (pc_l2_adapters pc)\<rparr>
              in (case res of
                    None \<Rightarrow> ((pc', l1, rq), Inr ())
                  | Some bm \<Rightarrow>
                      let rq' = rq\<lparr>rq_load_results := dict_set adapter_idx bm (rq_load_results rq),
                                   rq_pending_load_tasks := dict_del adapter_idx (rq_pending_load_tasks rq),
                                   rq_load_bytes := dict_del adapter_idx (rq_load_bytes rq)\<rparr>
                      in (case dict_get (pc_adapter_descriptors pc') adapter_idx of
                            None \<Rightarrow> ((pc', l1, rq'), Inl KeyError)
                          | Some desc \<Rightarrow>
                              pc_publish (L2_LOAD_TASK_COMPLETED (rq_request_id rq) adapter_idx task_id (ad_type_name desc))
                                (pc', l1, rq')))))"

definition poll_load_results :: "'a l2_ops \<Rightarrow> int list \<Rightarrow> ('a pf_state, unit) py" where
  "poll_load_results ops signaled st = (case st of (_, _, rq) \<Rightarrow>
     for_each (poll_load ops signaled) (dict_keys (rq_pending_load_tasks rq)) st)"

definition pf_advance_request ::
  "bool \<Rightarrow> sorted_list_ops \<Rightarrow> 'a l2_ops \<Rightarrow> int \<Rightarrow> int list \<Rightarrow> int list \<Rightarrow> ('a pf_state, unit) py" where
  "pf_advance_request kernels sl ops now lookups loads st = (case st of (_, _, rq) \<Rightarrow>
     (case rq_phase rq of
        PHASE_LOOKUP \<Rightarrow>
          if lookups = [] then (st, Inr ())
          else py_bind (poll_lookup_results ops lookups)
                 (\<lambda>_ st'. if all_lookups_done (snd (snd st')) then transition_to_load_phase kernels sl ops now st' else (st', Inr ())) st
      | PLAN_AND_LOAD \<Rightarrow>
          if loads = [] then (st, Inr ())
          else py_bind (poll_load_results ops loads)
                 (\<lambda>_ st'. if all_loads_done (snd (snd st')) then finish_request kernels sl ops now st' else (st', Inr ())) st))"

definition advance_tracked ::
  "bool \<Rightarrow> sorted_list_ops \<Rightarrow> 'a l2_ops \<Rightarrow> int \<Rightarrow> int list \<Rightarrow> int list \<Rightarrow> 'a pc_state \<Rightarrow> in_flight_request \<Rightarrow> 'a pc_state" where
  "advance_tracked kernels sl ops now lookups loads st rq = (case st of (pc, l1) \<Rightarrow>
     case pf_advance_request kernels sl ops now lookups loads (pc, l1, rq) of
       ((pc', l1', rq'), _) \<Rightarrow> (store_request pc' rq', l1'))"

section \<open>The loop\<close>

definition drain_submission_queue :: "'a prefetch_controller \<Rightarrow> 'a prefetch_controller" where
  "drain_submission_queue pc =
     pc\<lparr>pc_submission_queue := [], pc_pending_queue := pc_pending_queue pc @ pc_submission_queue pc,
        pc_status_pending_count := pc_status_pending_count pc + int (length (pc_submission_queue pc))\<rparr>"

text \<open>Each turn of the loop takes one request from the queue, whose length bounds the turns.\<close>

fun start_pending_loop ::
  "bool \<Rightarrow> sorted_list_ops \<Rightarrow> 'a l2_ops \<Rightarrow> int \<Rightarrow> nat \<Rightarrow> 'a pc_state \<Rightarrow> 'a pc_state \<times> unit result" where
  "start_pending_loop kernels sl ops now 0 st = (st, Inr ())"
| "start_pending_loop kernels sl ops now (Suc n) (pc, l1) =
     (case pc_pending_queue pc of
        [] \<Rightarrow> ((pc, l1), Inr ())
      | (request_id, spec) # queue \<Rightarrow>
          if \<not> int (length (pc_in_flight_requests pc)) < pc_max_in_flight pc then ((pc, l1), Inr ())
          else
            let pc1 = pc\<lparr>pc_pending_queue := queue, pc_status_pending_count := pc_status_pending_count pc - 1\<rparr>
            in (case start_lookup_phase kernels sl ops now request_id spec (pc1, l1) of
                  (st', Inl e) \<Rightarrow> (st', Inl e)
                | (st', Inr _) \<Rightarrow> start_pending_loop kernels sl ops now n st'))"

definition start_pending_requests ::
  "bool \<Rightarrow> sorted_list_ops \<Rightarrow> 'a l2_ops \<Rightarrow> int \<Rightarrow> 'a pc_state \<Rightarrow> 'a pc_state \<times> unit result" where
  "start_pending_requests kernels sl ops now st =
     start_pending_loop kernels sl ops now (length (pc_pending_queue (fst st))) st"

fun pc_apply_adapter_op :: "'a l2_ops \<Rightarrow> 'a prefetch_controller \<Rightarrow> 'a adapter_op \<Rightarrow> 'a prefetch_controller" where
  "pc_apply_adapter_op ops pc (AddAdapterOp adapter_id adapter desc ev) =
     pc\<lparr>pc_l2_adapters := dict_set adapter_id adapter (pc_l2_adapters pc),
        pc_adapter_descriptors := dict_set adapter_id desc (pc_adapter_descriptors pc),
        pc_lookup_efd_to_adapter := dict_set (lookup_fd ops adapter) adapter_id (pc_lookup_efd_to_adapter pc),
        pc_load_efd_to_adapter := dict_set (load_fd ops adapter) adapter_id (pc_load_efd_to_adapter pc),
        pc_done := pc_done pc @ [ev]\<rparr>"
| "pc_apply_adapter_op ops pc (RemoveAdapterOp adapter_id ev) =
     (if adapter_id \<notin> dict_dom (pc_l2_adapters pc) then pc\<lparr>pc_done := pc_done pc @ [ev]\<rparr>
      else pc\<lparr>pc_draining := dict_set adapter_id ev (pc_draining pc)\<rparr>)"

definition pc_apply_pending_adapter_ops :: "'a l2_ops \<Rightarrow> 'a prefetch_controller \<Rightarrow> 'a prefetch_controller" where
  "pc_apply_pending_adapter_ops ops pc =
     foldl (pc_apply_adapter_op ops) (pc\<lparr>pc_pending_adapter_ops := []\<rparr>) (pc_pending_adapter_ops pc)"

definition pc_adapter_in_use :: "'a prefetch_controller \<Rightarrow> int \<Rightarrow> bool" where
  "pc_adapter_in_use pc adapter_id \<longleftrightarrow>
     list_ex (\<lambda>(_, rq). adapter_id \<in> dict_dom (rq_pending_lookup_tasks rq) \<or> adapter_id \<in> dict_dom (rq_pending_load_tasks rq) \<or>
        adapter_id \<in> dict_dom (rq_load_plan rq) \<or> adapter_id \<in> dict_dom (rq_lookup_results rq)) (pc_in_flight_requests pc)"

definition pc_finalize_drained_adapter ::
  "'a l2_ops \<Rightarrow> int \<Rightarrow> 'a prefetch_controller \<Rightarrow> 'a prefetch_controller \<times> unit result" where
  "pc_finalize_drained_adapter ops adapter_id pc =
     (if pc_adapter_in_use pc adapter_id then (pc, Inr ())
      else case dict_get (pc_l2_adapters pc) adapter_id of
        None \<Rightarrow> (pc, Inl KeyError)
      | Some adapter \<Rightarrow>
          (pc\<lparr>pc_l2_adapters := dict_del adapter_id (pc_l2_adapters pc),
              pc_adapter_descriptors := dict_del adapter_id (pc_adapter_descriptors pc),
              pc_lookup_efd_to_adapter := dict_del (lookup_fd ops adapter) (pc_lookup_efd_to_adapter pc),
              pc_load_efd_to_adapter := dict_del (load_fd ops adapter) (pc_load_efd_to_adapter pc),
              pc_draining := dict_del adapter_id (pc_draining pc),
              pc_done := pc_done pc @ (case dict_get (pc_draining pc) adapter_id of None \<Rightarrow> [] | Some ev \<Rightarrow> [ev])\<rparr>,
           Inr ()))"

definition pc_finalize_drained_adapters :: "'a l2_ops \<Rightarrow> 'a prefetch_controller \<Rightarrow> 'a prefetch_controller \<times> unit result" where
  "pc_finalize_drained_adapters ops pc =
     for_each (pc_finalize_drained_adapter ops) (dict_keys (pc_draining pc)) pc"

definition add_signaled :: "int \<Rightarrow> int list \<Rightarrow> int list" where
  "add_signaled i signaled = (if i \<in> set signaled then signaled else signaled @ [i])"

definition pc_handle_ready ::
  "'a prefetch_controller \<times> int list \<times> int list \<Rightarrow> int \<Rightarrow> 'a prefetch_controller \<times> int list \<times> int list" where
  "pc_handle_ready acc fd = (case acc of (pc, lookups, loads) \<Rightarrow>
     if fd = pc_submission_fd pc then (drain_submission_queue pc, lookups, loads)
     else case dict_get (pc_lookup_efd_to_adapter pc) fd of
       Some i \<Rightarrow> (pc, add_signaled i lookups, loads)
     | None \<Rightarrow>
         (case dict_get (pc_load_efd_to_adapter pc) fd of
            Some i \<Rightarrow> (pc, lookups, add_signaled i loads)
          | None \<Rightarrow> (pc, lookups, loads)))"

text \<open>Exceptions of \<open>_advance_request\<close> and of \<open>_start_pending_requests\<close> are caught and logged, one
  of \<open>_finalize_drained_adapters\<close> would end the thread and is returned.\<close>

definition prefetch_loop_iteration ::
  "bool \<Rightarrow> sorted_list_ops \<Rightarrow> 'a l2_ops \<Rightarrow> int \<Rightarrow> int list \<Rightarrow> 'a pc_state \<Rightarrow> 'a pc_state \<times> unit result" where
  "prefetch_loop_iteration kernels sl ops now ready st =
     (let (pc1, lookups, loads) = foldl pc_handle_ready (pc_apply_pending_adapter_ops ops (fst st), [], []) ready;
          st2 = (if lookups = [] \<and> loads = [] then (pc1, snd st)
                 else foldl (advance_tracked kernels sl ops now lookups loads) (pc1, snd st) (dict_values (pc_in_flight_requests pc1)));
          st3 = fst (start_pending_requests kernels sl ops now st2);
          (pc4, r) = pc_finalize_drained_adapters ops (fst st3)
      in ((pc4, snd st3), r))"

section \<open>Shutdown and status\<close>

definition cleanup_request ::
  "sorted_list_ops \<Rightarrow> 'a l2_ops \<Rightarrow> int \<Rightarrow> 'a pc_state \<Rightarrow> int \<times> in_flight_request \<Rightarrow> 'a pc_state" where
  "cleanup_request sl ops now st item = (case (st, item) of ((pc, l1), (_, rq)) \<Rightarrow>
     let l1a = (if rq_phase rq = PLAN_AND_LOAD \<and> rq_write_reserved_keys rq \<noteq> []
                then fst (delete_keys sl now (rq_write_reserved_keys rq) False (fst (finish_write now (rq_write_reserved_keys rq) l1)))
                else l1);
         (pc', l1b, rq') = fst (release_l2_locks ops [] (pc, l1a, rq));
         l1c = (if popcount (rq_l1_readlocks rq') = 0 then l1b
                else fst (finish_read sl now (gather (rq_l1_readlocks rq') (rq_keys rq')) (rq_num_kv_readers rq') l1b))
     in (store_request pc' rq', l1c))"

definition cleanup_in_flight_requests :: "sorted_list_ops \<Rightarrow> 'a l2_ops \<Rightarrow> int \<Rightarrow> 'a pc_state \<Rightarrow> 'a pc_state" where
  "cleanup_in_flight_requests sl ops now st =
     (let (pc, l1) = foldl (cleanup_request sl ops now) st (pc_in_flight_requests (fst st))
      in (pc\<lparr>pc_in_flight_requests := []\<rparr>, l1))"

record pc_status =
  pst_max_in_flight :: int
  pst_submission_queue_size :: nat
  pst_pending_queue_size :: int
  pst_in_flight_request_count :: int
  pst_lookup_phase_count :: int
  pst_load_phase_count :: int
  pst_completed_results_count :: nat
  pst_num_l2_adapters :: nat
  pst_num_active_adapters :: int
  pst_num_draining_adapters :: nat

definition pc_report_status :: "'a prefetch_controller \<Rightarrow> pc_status" where
  "pc_report_status pc =
     \<lparr>pst_max_in_flight = pc_max_in_flight pc, pst_submission_queue_size = length (pc_submission_queue pc),
      pst_pending_queue_size = pc_status_pending_count pc, pst_in_flight_request_count = pc_status_in_flight_count pc,
      pst_lookup_phase_count = pc_status_lookup_phase_count pc, pst_load_phase_count = pc_status_load_phase_count pc,
      pst_completed_results_count = length (pc_completed_results pc), pst_num_l2_adapters = length (pc_l2_adapters pc),
      pst_num_active_adapters = int (length (pc_l2_adapters pc)) - int (length (pc_draining pc)),
      pst_num_draining_adapters = length (pc_draining pc)\<rparr>"

definition snapshot_inflight_loads :: "'a prefetch_controller \<Rightarrow> (int, nat \<times> int) pydict" where
  "snapshot_inflight_loads pc =
     foldl (\<lambda>d (idx, reserved). case dict_get_default d idx (0, 0) of (n, b) \<Rightarrow> dict_set idx (n + 1, b + reserved) d)
       [] (concat (map (\<lambda>(_, rq). rq_load_bytes rq) (pc_in_flight_requests pc)))"


section \<open>Load plans\<close>

text \<open>The positions that a plan takes from an adapter.\<close>

definition plan_bits :: "(int, bitmap) pydict \<Rightarrow> int \<Rightarrow> nat set" where
  "plan_bits plan i = (case map_of plan i of None \<Rightarrow> {} | Some b \<Rightarrow> bits b)"

definition plan_ok :: "nat \<Rightarrow> (int, bitmap) pydict \<Rightarrow> bool" where
  "plan_ok n plan \<longleftrightarrow> dict_wf plan \<and> (\<forall>i b. map_of plan i = Some b \<longrightarrow> sized n b)"

lemma plan_okD: "plan_ok n plan \<Longrightarrow> map_of plan i = Some b \<Longrightarrow> sized n b"
  by (simp add: plan_ok_def)

lemma plan_ok_set: "plan_ok n plan \<Longrightarrow> (i, b) \<in> set plan \<Longrightarrow> sized n b"
  using dict_wf_map_of_eq [of plan i b] by (simp add: plan_ok_def)

lemma plan_ok_simps [simp]:
  "plan_ok n []" "plan_ok n plan \<Longrightarrow> sized n b \<Longrightarrow> plan_ok n (dict_set i b plan)"
  "plan_ok n plan \<Longrightarrow> plan_ok n (dict_del i plan)"
  by (auto simp: plan_ok_def)

lemma plan_bits_bound: "plan_ok n plan \<Longrightarrow> plan_bits plan i \<subseteq> {..<n}"
  using bits_subset by (auto simp: plan_bits_def plan_ok_def sized_def split: option.splits)

text \<open>What \<open>PrefetchController\<close> relies on: a plan loads only what an adapter was found to hold, and
  nothing from two adapters.\<close>

locale prefetch_policy_contract =
  fixes p :: prefetch_policy
  assumes plan_sized: "plan_ok (length keys) results \<Longrightarrow> plan_ok (length keys) (select_load_plan p keys results ads)"
    and plan_found: "plan_ok (length keys) results \<Longrightarrow>
      plan_bits (select_load_plan p keys results ads) i \<subseteq> plan_bits results i"
    and plan_attached: "dict_dom (select_load_plan p keys results ads) \<subseteq> dict_dom results"
    and plan_disjoint: "plan_ok (length keys) results \<Longrightarrow> i \<noteq> j \<Longrightarrow>
      plan_bits (select_load_plan p keys results ads) i \<inter> plan_bits (select_load_plan p keys results ads) j = {}"
    and retention_per_key: "length (select_l1_retentions p keys) = length keys"

text \<open>The greedy pass over the adapters by index.\<close>

definition first_holder :: "(int, bitmap) pydict \<Rightarrow> int set \<Rightarrow> int \<Rightarrow> nat set" where
  "first_holder results listed i =
     (if i \<in> listed then plan_bits results i - (\<Union>j\<in>{j \<in> listed. j < i}. plan_bits results j) else {})"

lemma plan_step_inv:
  assumes "plan_ok n results" "plan_ok n plan" "sized n gb" "\<forall>j\<in>listed. j \<le> ad_index ad"
    "\<And>i. plan_bits plan i = first_holder results listed i"
    "bits gb = (\<Union>j. plan_bits results j) - (\<Union>j\<in>listed. plan_bits results j)"
    "plan_step results (plan, gb) ad = (plan', gb')"
  shows "plan_ok n plan'" "sized n gb'" "\<And>i. plan_bits plan' i = first_holder results (insert (ad_index ad) listed) i"
    "bits gb' = (\<Union>j. plan_bits results j) - (\<Union>j\<in>insert (ad_index ad) listed. plan_bits results j)"
    "dict_dom plan' \<subseteq> dict_dom plan \<union> dict_dom results"
proof -
  let ?x = "ad_index ad"
  let ?R = "plan_bits results"
  have first_other: "first_holder results (insert ?x listed) i = first_holder results listed i" if "i \<noteq> ?x" for i
  proof -
    have "{j \<in> insert ?x listed. j < i} = {j \<in> listed. j < i}" if "i \<in> listed" using assms(4) that by auto
    then show ?thesis using that by (simp add: first_holder_def)
  qed
  have first_self: "first_holder results (insert ?x listed) ?x = ?R ?x - (\<Union>j\<in>listed - {?x}. ?R j)"
    using assms(4) by (auto simp: first_holder_def) (metis order_le_neq_trans)+
  have "plan_ok n plan' \<and> sized n gb' \<and> (\<forall>i. plan_bits plan' i = first_holder results (insert ?x listed) i) \<and>
      bits gb' = (\<Union>j. ?R j) - (\<Union>j\<in>insert ?x listed. ?R j) \<and> dict_dom plan' \<subseteq> dict_dom plan \<union> dict_dom results"
  proof (cases "map_of results ?x")
    case None
    then have r: "?R ?x = {}" by (simp add: plan_bits_def)
    have "plan_bits plan ?x = {}" using assms(5) [of ?x] r by (simp add: first_holder_def)
    then have "\<forall>i. plan_bits plan i = first_holder results (insert ?x listed) i"
      using first_other first_self r assms(5) by (metis Diff_eq_empty_iff empty_subsetI)
    then show ?thesis using None assms r by (auto simp: plan_step_def)
  next
    case (Some cur)
    have cur: "sized n cur" "?R ?x = bits cur" using plan_okD [OF assms(1) Some] Some by (simp_all add: plan_bits_def)
    define loc where "loc = bm_and gb cur"
    have loc: "sized n loc" "bits loc = ?R ?x - (\<Union>j\<in>listed. ?R j)"
      using cur assms(3,6) by (auto simp: loc_def sized_bits)
    have gb': "gb' = bm_and gb (bm_not loc)" "plan' = (if popcount loc = 0 then plan else dict_set ?x loc plan)"
      using assms(7) Some by (simp_all add: plan_step_def Let_def loc_def split: if_splits)
    have g: "sized n gb'" using gb'(1) assms(3) loc by simp
    have "bits gb' = bits gb - bits loc"
      using gb'(1) assms(3) loc(1) bits_subset [of gb] by (auto simp: sized_bits sized_def)
    then have gb: "bits gb' = (\<Union>j. ?R j) - (\<Union>j\<in>insert ?x listed. ?R j)" using assms(6) loc(2) by auto
    have "plan_bits plan' i = first_holder results (insert ?x listed) i" for i
    proof (cases "i = ?x")
      case True
      show ?thesis
      proof (cases "popcount loc = 0")
        case e: True
        then have "bits loc = {}" using loc(1) by (simp add: sized_bits)
        then show ?thesis using e gb'(2) True first_self loc(2) assms(5) [of ?x]
          by (cases "?x \<in> listed") (auto simp: first_holder_def)
      next
        case ne: False
        then have "bits loc \<noteq> {}" using loc(1) by (simp add: sized_bits)
        then have "?x \<notin> listed" using loc(2) by auto
        then show ?thesis using ne gb'(2) True first_self loc(2) by (simp add: plan_bits_def)
      qed
    next
      case False
      then show ?thesis using first_other [OF False] assms(5) [of i] gb'(2) by (simp add: plan_bits_def)
    qed
    moreover have "plan_ok n plan'" using assms(2) loc(1) gb'(2) by simp
    moreover have "dict_dom plan' \<subseteq> dict_dom plan \<union> dict_dom results"
      using gb'(2) Some by (auto simp: dict_dom_iff split: if_splits)
    ultimately show ?thesis using g gb by simp
  qed
  then show "plan_ok n plan'" "sized n gb'" "\<And>i. plan_bits plan' i = first_holder results (insert ?x listed) i"
    "bits gb' = (\<Union>j. ?R j) - (\<Union>j\<in>insert ?x listed. ?R j)" "dict_dom plan' \<subseteq> dict_dom plan \<union> dict_dom results" by auto
qed

lemma plan_fold_inv:
  assumes "plan_ok n results" "sized n gb" "bits gb = (\<Union>j. plan_bits results j)" "sorted (map ad_index ads)"
  shows "plan_ok n (fst (foldl (plan_step results) ([], gb) ads)) \<and>
    sized n (snd (foldl (plan_step results) ([], gb) ads)) \<and>
    (\<forall>i. plan_bits (fst (foldl (plan_step results) ([], gb) ads)) i = first_holder results (ad_index ` set ads) i) \<and>
    bits (snd (foldl (plan_step results) ([], gb) ads)) = (\<Union>j. plan_bits results j) - (\<Union>j\<in>ad_index ` set ads. plan_bits results j) \<and>
    dict_dom (fst (foldl (plan_step results) ([], gb) ads)) \<subseteq> dict_dom results"
  using assms(4)
proof (induction ads rule: rev_induct)
  case Nil
  then show ?case using assms(2,3) by (auto simp: plan_bits_def first_holder_def dict_dom_def)
next
  case (snoc ad ads)
  obtain plan gb1 where st: "foldl (plan_step results) ([], gb) ads = (plan, gb1)" by fastforce
  obtain plan' gb' where st': "plan_step results (plan, gb1) ad = (plan', gb')" by fastforce
  have IH: "plan_ok n plan" "sized n gb1" "\<And>i. plan_bits plan i = first_holder results (ad_index ` set ads) i"
    "bits gb1 = (\<Union>j. plan_bits results j) - (\<Union>j\<in>ad_index ` set ads. plan_bits results j)" "dict_dom plan \<subseteq> dict_dom results"
    using snoc st by (simp_all add: sorted_append)
  have "\<forall>j\<in>ad_index ` set ads. j \<le> ad_index ad" using snoc.prems by (auto simp: sorted_append)
  from plan_step_inv [OF assms(1) IH(1,2) this IH(3,4) st'] IH(5) st st' show ?case by auto
qed

lemma results_union:
  assumes "plan_ok n results"
  shows "sized n (foldl bm_or (new_bitmap n) (dict_values results))"
    "bits (foldl bm_or (new_bitmap n) (dict_values results)) = (\<Union>j. plan_bits results j)"
proof -
  have "\<forall>b \<in> set (dict_values results). sized n b" using plan_ok_set [OF assms] by auto
  note m = merge_sized [OF this, unfolded merge_bitmaps_def]
  show "sized n (foldl bm_or (new_bitmap n) (dict_values results))" using m by simp
  have "\<Union> (bits ` set (dict_values results)) = (\<Union>j. plan_bits results j)" (is "?l = ?r")
  proof
    show "?r \<subseteq> ?l" by (auto simp: plan_bits_def dest!: map_of_SomeD split: option.splits) force
    show "?l \<subseteq> ?r"
    proof
      fix k assume "k \<in> ?l"
      then obtain i b where "(i, b) \<in> set results" "k \<in> bits b" by auto
      then have "map_of results i = Some b" using assms dict_wf_map_of_eq [of results i b] by (simp add: plan_ok_def)
      then show "k \<in> ?r" using \<open>k \<in> bits b\<close> by (auto simp: plan_bits_def intro!: exI [of _ i])
    qed
  qed
  then show "bits (foldl bm_or (new_bitmap n) (dict_values results)) = (\<Union>j. plan_bits results j)" using m by simp
qed

lemma default_plan_spec:
  assumes "plan_ok (length keys) results"
  shows "plan_ok (length keys) (default_select_load_plan keys results ads)"
    "plan_bits (default_select_load_plan keys results ads) i = first_holder results (ad_index ` set ads) i"
    "dict_dom (default_select_load_plan keys results ads) \<subseteq> dict_dom results"
  using plan_fold_inv [OF assms results_union [OF assms] sorted_sort_key, of ads]
  unfolding default_select_load_plan_def by simp_all

lemma default_plan_dom: "dict_dom (default_select_load_plan keys results ads) \<subseteq> dict_dom results"
proof -
  have "dict_dom (fst (foldl (plan_step results) acc xs)) \<subseteq> dict_dom (fst acc) \<union> dict_dom results" for acc xs
  proof (induction xs arbitrary: acc)
    case (Cons x xs)
    have "dict_dom (fst (plan_step results acc x)) \<subseteq> dict_dom (fst acc) \<union> dict_dom results"
      by (cases acc) (auto simp: plan_step_def dict_dom_iff Let_def split: option.splits if_splits)
    then show ?case using Cons [of "plan_step results acc x"] by auto
  qed simp
  from this [of "([], foldl bm_or (new_bitmap (length keys)) (dict_values results))" "sort_key ad_index ads"]
  show ?thesis by (simp add: default_select_load_plan_def dict_dom_def)
qed

lemma first_holder_disjoint:
  assumes "i \<noteq> j"
  shows "first_holder results listed i \<inter> first_holder results listed j = {}"
  using assms by (cases "i < j") (auto simp: first_holder_def split: if_splits)

lemma first_holder_found: "first_holder results listed i \<subseteq> plan_bits results i"
  by (auto simp: first_holder_def)

lemmas default_plan_contract = default_plan_spec(1,2) default_plan_dom first_holder_disjoint first_holder_found

interpretation default_prefetch: prefetch_policy_contract DefaultPrefetchPolicy
  by unfold_locales
    (simp_all add: DefaultPrefetchPolicy_def default_plan_contract default_select_l1_retentions_def)

interpretation retain_prefetch: prefetch_policy_contract RetainPrefetchPolicy
  by unfold_locales
    (simp_all add: RetainPrefetchPolicy_def default_plan_contract retain_select_l1_retentions_def)

text \<open>
  C33. The default load plan. Given the lookup results of the adapters, each position is loaded from
  the listed adapter of lowest index that found it, and from no other: a position is in the plan
  exactly when a listed adapter found it, no position is loaded twice, and no adapter is asked
  for a key it did not report.
\<close>
theorem load_plan_first_holder:
  assumes "dict_wf results" "\<forall>i b. map_of results i = Some b \<longrightarrow> sized (length keys) b"
  shows "(k \<in> plan_bits (default_select_load_plan keys results ads) i \<longleftrightarrow>
      i \<in> ad_index ` set ads \<and> k \<in> plan_bits results i \<and> (\<forall>j\<in>ad_index ` set ads. j < i \<longrightarrow> k \<notin> plan_bits results j)) \<and>
    ((\<exists>i. k \<in> plan_bits (default_select_load_plan keys results ads) i) \<longleftrightarrow> (\<exists>j\<in>ad_index ` set ads. k \<in> plan_bits results j))"
proof -
  have ok: "plan_ok (length keys) results" using assms by (simp add: plan_ok_def)
  let ?I = "{j \<in> ad_index ` set ads. k \<in> plan_bits results j}"
  have first: "k \<in> plan_bits (default_select_load_plan keys results ads) i \<longleftrightarrow>
      i \<in> ad_index ` set ads \<and> k \<in> plan_bits results i \<and> (\<forall>j\<in>ad_index ` set ads. j < i \<longrightarrow> k \<notin> plan_bits results j)" for i
    by (auto simp: default_plan_spec(2) [OF ok] first_holder_def)
  have "\<exists>i. k \<in> plan_bits (default_select_load_plan keys results ads) i" if "?I \<noteq> {}"
  proof -
    have "Min ?I \<in> ?I" using that by (intro Min_in) simp_all
    moreover have "k \<notin> plan_bits results j" if "j \<in> ad_index ` set ads" "j < Min ?I" for j
    proof
      assume "k \<in> plan_bits results j"
      then have "Min ?I \<le> j" using that(1) by (intro Min_le) simp_all
      then show False using that(2) by simp
    qed
    ultimately show ?thesis unfolding first by blast
  qed
  then show ?thesis using first by blast
qed

theorem load_plan_first_holder_witness:
  "2 \<in> plan_bits (default_select_load_plan (replicate 3 undefined)
      [(0, prefix_bitmap 3 2), (1, prefix_bitmap 3 3)]
      [\<lparr>ad_index = 1, ad_type_name = ''fs''\<rparr>, \<lparr>ad_index = 0, ad_type_name = ''mock''\<rparr>]) 1"
proof -
  let ?ads = "[\<lparr>ad_index = 1, ad_type_name = ''fs''\<rparr>, \<lparr>ad_index = 0, ad_type_name = ''mock''\<rparr>]"
  let ?res = "[(0 :: int, prefix_bitmap 3 2), (1, prefix_bitmap 3 3)]"
  have "dict_wf ?res" "\<forall>i b. map_of ?res i = Some b \<longrightarrow> sized (length (replicate 3 undefined :: object_key list)) b"
    by (auto simp: dict_wf_def split: if_splits)
  from load_plan_first_holder [OF this, of 2 ?ads 1] show ?thesis by (auto simp: plan_bits_def)
qed

section \<open>Whole chunks\<close>

text \<open>A request asks for whole chunks of a model that has at least one object group.\<close>

definition whole_chunks :: "nat \<Rightarrow> attn_window_desc \<Rightarrow> bool" where
  "whole_chunks n desc \<longleftrightarrow> 1 \<le> aw_world_size desc \<and> num_chunks_in_sw desc \<noteq> [] \<and>
     n mod (num_object_groups desc * nat (aw_world_size desc)) = 0"

lemma trim_mask_eq:
  assumes "whole_chunks n desc"
  obtains m where "n = m * (length (num_chunks_in_sw desc) * nat (aw_world_size desc))"
    "build_trim_mask True b n PREFIX desc = fold_unfold_ranked True b (int m) (int (nat (aw_world_size desc))) (num_chunks_in_sw desc)"
    "p \<noteq> PREFIX \<Longrightarrow> \<exists>h. build_trim_mask kernels b n p desc = Inr (h, b)"
    "build_trim_mask False b n PREFIX desc = Inl ImportError"
proof -
  let ?s = "length (num_chunks_in_sw desc) * nat (aw_world_size desc)"
  have s: "0 < ?s" "num_object_groups desc = length (num_chunks_in_sw desc)" "int (nat (aw_world_size desc)) = aw_world_size desc"
    using assms by (auto simp: whole_chunks_def num_object_groups_def)
  then obtain m where m: "n = m * ?s" using assms by (auto simp: whole_chunks_def mult.commute elim!: dvdE simp: dvd_eq_mod_eq_0 [symmetric])
  have st: "int (num_object_groups desc) * aw_world_size desc = int ?s" using s(2,3) by simp
  have d: "int n div int ?s = int m" using m s(1) by (metis div_mult_self_is_m zdiv_int)
  show ?thesis
  proof (rule that)
    show "n = m * ?s" by (rule m)
    show "build_trim_mask True b n PREFIX desc = fold_unfold_ranked True b (int m) (int (nat (aw_world_size desc))) (num_chunks_in_sw desc)"
      unfolding build_trim_mask_def Let_def st d using s by simp
    show "\<exists>h. build_trim_mask kernels b n p desc = Inr (h, b)" if "p \<noteq> PREFIX"
      unfolding build_trim_mask_def Let_def st using s that by (cases p) auto
    show "build_trim_mask False b n PREFIX desc = Inl ImportError"
      unfolding build_trim_mask_def Let_def st using s by (simp add: fold_unfold_ranked_def bm_fold_def fold_checks_def)
  qed
qed

text \<open>The retained mask is a part of what was found, of the same size; with the kernels installed
  there always is one.\<close>

lemma trim_mask_sub:
  assumes "whole_chunks n desc" "sized n b" "build_trim_mask kernels b n p desc = Inr (h, m)"
  shows "sized n m \<and> bits m \<subseteq> bits b \<and> 0 \<le> h"
proof (cases "p = PREFIX")
  case True
  obtain k where k: "n = k * (length (num_chunks_in_sw desc) * nat (aw_world_size desc))"
    "build_trim_mask True b n PREFIX desc = fold_unfold_ranked True b (int k) (int (nat (aw_world_size desc))) (num_chunks_in_sw desc)"
    "build_trim_mask False b n PREFIX desc = Inl ImportError"
    using trim_mask_eq [OF assms(1)] by metis
  have "0 < nat (aw_world_size desc)" "num_chunks_in_sw desc \<noteq> []" using assms(1) by (auto simp: whole_chunks_def)
  note sp = fold_unfold_ranked_eq [OF this, of b k]
  have "kernels" using assms(3) True k(3) by (cases kernels) auto
  then have h: "h = highest_set_bit (native_fold b k (nat (aw_world_size desc)) (num_chunks_in_sw desc)) + 1"
    "m = native_unfold (nat h) k (nat (aw_world_size desc)) (num_chunks_in_sw desc)"
    using assms(3) True k(2) sp by (auto simp: Let_def)
  obtain L where L: "h = int L" "L \<le> k" "needed (nat (aw_world_size desc)) (num_chunks_in_sw desc) L \<subseteq> bits b"
    using hit_length [of b k "nat (aw_world_size desc)" "num_chunks_in_sw desc"] h(1) by metis
  show ?thesis using native_unfold_bits [of L k "nat (aw_world_size desc)" "num_chunks_in_sw desc"] L h(2) k(1)
    by (simp add: sized_def min_def)
next
  case False
  then obtain h' where "build_trim_mask kernels b n p desc = Inr (h', b)" using trim_mask_eq [OF assms(1)] by metis
  moreover have "0 \<le> int (clo b) div (int (num_object_groups desc) * aw_world_size desc)"
    using assms(1) by (simp add: whole_chunks_def pos_imp_zdiv_nonneg_iff div_int_pos_iff)
  ultimately show ?thesis using assms(2,3) False by (cases p) (auto simp: build_trim_mask_def Let_def split: if_splits)
qed

lemma trim_mask_total:
  assumes "whole_chunks n desc"
  shows "\<exists>h m. build_trim_mask True b n p desc = Inr (h, m)"
proof (cases "p = PREFIX")
  case True
  obtain k where k: "build_trim_mask True b n PREFIX desc = fold_unfold_ranked True b (int k) (int (nat (aw_world_size desc))) (num_chunks_in_sw desc)"
    using trim_mask_eq [OF assms] by metis
  have "0 < nat (aw_world_size desc)" "num_chunks_in_sw desc \<noteq> []" using assms by (auto simp: whole_chunks_def)
  from fold_unfold_ranked_eq [OF this, of b k] show ?thesis using True k by (simp add: Let_def)
next
  case False
  then show ?thesis using trim_mask_eq [OF assms] by metis
qed

lemma trim_plan_ok:
  assumes "plan_ok n plan" "sized n keep"
  shows "plan_ok n (trim_load_plan_with_mask plan keep)"
    "plan_bits (trim_load_plan_with_mask plan keep) i = plan_bits plan i \<inter> bits keep"
    "dict_dom (trim_load_plan_with_mask plan keep) \<subseteq> dict_dom plan"
proof -
  have wf: "dict_wf plan" and sz: "\<forall>(a, b) \<in> set plan. sized n b" using assms(1) plan_ok_set by (auto simp: plan_ok_def)
  let ?P = "\<lambda>(a :: int, b). bits b \<inter> bits keep \<noteq> {}"
  have eq: "trim_load_plan_with_mask plan keep = map (\<lambda>(a, b). (a, bm_and b keep)) (filter ?P plan)"
    using trim_plan_fold [OF wf sz assms(2)] by simp
  have "map_of (map (\<lambda>(a, b). (a, bm_and b keep)) (filter ?P plan)) i =
      map_option (\<lambda>b. bm_and b keep) (map_of (filter ?P plan) i)" for i
    by (simp add: map_of_map)
  moreover have "map_of (filter ?P plan) i = (case map_of plan i of None \<Rightarrow> None | Some b \<Rightarrow> if ?P (i, b) then Some b else None)" for i
    using map_of_filter_wf [OF wf, of ?P i] by simp
  ultimately have m: "map_of (trim_load_plan_with_mask plan keep) i =
      (case map_of plan i of None \<Rightarrow> None | Some b \<Rightarrow> if bits b \<inter> bits keep \<noteq> {} then Some (bm_and b keep) else None)" for i
    by (simp add: eq split: option.splits)
  have "dict_wf (trim_load_plan_with_mask plan keep)"
    unfolding eq using wf by (simp add: dict_wf_def comp_def case_prod_unfold distinct_map_filter)
  then show "plan_ok n (trim_load_plan_with_mask plan keep)"
    using plan_okD [OF assms(1)] assms(2) by (auto simp: plan_ok_def m split: option.splits if_splits)
  show "plan_bits (trim_load_plan_with_mask plan keep) i = plan_bits plan i \<inter> bits keep"
  proof (cases "map_of plan i")
    case (Some b)
    have "bits (bm_and b keep) = bits b \<inter> bits keep" by (rule sized_bits(1) [OF plan_okD [OF assms(1) Some] assms(2)])
    then show ?thesis using Some by (auto simp: plan_bits_def m)
  qed (simp add: plan_bits_def m)
  show "dict_dom (trim_load_plan_with_mask plan keep) \<subseteq> dict_dom plan" by (auto simp: dict_dom_iff m split: option.splits)
qed
end
