(* ===== verification/Prefetch_Handlers.thy ===== *)
theory Prefetch_Handlers
  imports Prefetch_Controller
begin

text \<open>
  The handlers of \<open>PrefetchController\<close> keep the books: what an adapter has outstanding (lookup tasks,
  load tasks, read locks) is what the requests of the table remember, whichever branch a handler takes
  and also when it raises. The handlers are programs of the monad of \<open>Prefetch_Controller\<close>, and each has
  a triple with a postcondition for a return and one for a raise. \<open>Prefetch_Run\<close> puts the handlers
  together.
\<close>

section \<open>Outstanding tasks of an adapter\<close>

text \<open>\<open>T\<close> gives the outstanding task of each request with its keys, \<open>LK\<close> the keys of each task id.\<close>

definition represents :: "(int \<rightharpoonup> int \<times> object_key list) \<Rightarrow> (int \<rightharpoonup> object_key list) \<Rightarrow> bool" where
  "represents T LK \<longleftrightarrow> (\<forall>t ks. LK t = Some ks \<longleftrightarrow> (\<exists>r. T r = Some (t, ks))) \<and>
     (\<forall>r r' t ks ks'. T r = Some (t, ks) \<longrightarrow> T r' = Some (t, ks') \<longrightarrow> r = r')"

lemma representsD:
  "represents T LK \<Longrightarrow> LK t = Some ks \<longleftrightarrow> (\<exists>r. T r = Some (t, ks))"
  "represents T LK \<Longrightarrow> T r = Some (t, ks) \<Longrightarrow> T r' = Some (t, ks') \<Longrightarrow> r = r'"
  unfolding represents_def by blast+

lemma represents_add:
  assumes "represents T LK" "T r = None" "LK t = None"
  shows "represents (T(r \<mapsto> (t, ks))) (LK(t \<mapsto> ks))"
proof -
  have n: "T r' \<noteq> Some (t, ks')" for r' ks' using representsD(1) [OF assms(1), of t ks'] assms(3) by auto
  have "(LK(t \<mapsto> ks)) t' = Some ks' \<longleftrightarrow> (\<exists>r'. (T(r \<mapsto> (t, ks))) r' = Some (t', ks'))" for t' ks'
  proof (cases "t' = t")
    case True
    then show ?thesis using n by auto
  next
    case False
    have "(\<exists>r'. (T(r \<mapsto> (t, ks))) r' = Some (t', ks')) \<longleftrightarrow> (\<exists>r'. T r' = Some (t', ks'))"
      using False assms(2) by (metis fun_upd_apply option.distinct(1) option.inject prod.inject)
    then show ?thesis using False representsD(1) [OF assms(1), of t' ks'] by simp
  qed
  moreover have "r1 = r2" if "(T(r \<mapsto> (t, ks))) r1 = Some (t', k1)" "(T(r \<mapsto> (t, ks))) r2 = Some (t', k2)" for r1 r2 t' k1 k2
    using that n representsD(2) [OF assms(1), of r1 t' k1 r2 k2] by (auto split: if_splits)
  ultimately show ?thesis unfolding represents_def by blast
qed

lemma represents_del:
  assumes "represents T LK" "T r = Some (t, ks)"
  shows "LK t = Some ks" "represents (T(r := None)) (LK(t := None))"
proof -
  show "LK t = Some ks" using representsD(1) [OF assms(1)] assms(2) by blast
  have u: "T r' = Some (t, ks') \<Longrightarrow> r' = r" for r' ks' using representsD(2) [OF assms(1)] assms(2) by blast
  have "(LK(t := None)) t' = Some ks' \<longleftrightarrow> (\<exists>r'. (T(r := None)) r' = Some (t', ks'))" for t' ks'
  proof (cases "t' = t")
    case True
    then show ?thesis using u by auto
  next
    case False
    have "(\<exists>r'. (T(r := None)) r' = Some (t', ks')) \<longleftrightarrow> (\<exists>r'. T r' = Some (t', ks'))"
      using False assms(2) by (metis fun_upd_apply option.distinct(1) option.inject prod.inject)
    then show ?thesis using False representsD(1) [OF assms(1), of t' ks'] by simp
  qed
  moreover have "r1 = r2" if "(T(r := None)) r1 = Some (t', k1)" "(T(r := None)) r2 = Some (t', k2)" for r1 r2 t' k1 k2
    using that representsD(2) [OF assms(1), of r1 t' k1 r2 k2] by (auto split: if_splits)
  ultimately show "represents (T(r := None)) (LK(t := None))" unfolding represents_def by blast
qed

definition adapter_led ::
  "('a \<Rightarrow> (int \<rightharpoonup> object_key list) \<Rightarrow> (int \<rightharpoonup> object_key list) \<Rightarrow> object_key multiset \<Rightarrow> bool) \<Rightarrow> 'a \<Rightarrow>
   (int \<rightharpoonup> int \<times> object_key list) \<Rightarrow> (int \<rightharpoonup> int \<times> object_key list) \<Rightarrow> object_key multiset \<Rightarrow> bool" where
  "adapter_led read_ok a TK TD L \<longleftrightarrow> (\<exists>LK LD. read_ok a LK LD L \<and> represents TK LK \<and> represents TD LD)"

context l2_read_contract
begin

lemma led_submit_lookup:
  assumes "adapter_led read_ok a TK TD L" "TK r = None" "submit_lookup_and_lock_task ops keys descs a = (a', t)"
  shows "adapter_led read_ok a' (TK(r \<mapsto> (t, keys))) TD L"
  using assms represents_add submit_lookup unfolding adapter_led_def by metis

lemma led_query_lookup_None:
  assumes "adapter_led read_ok a TK TD L" "query_lookup_and_lock_result ops t a = (a', None)"
  shows "adapter_led read_ok a' TK TD L"
  using assms query_lookup_None unfolding adapter_led_def by metis

lemma led_query_lookup_Some:
  assumes "adapter_led read_ok a TK TD L" "query_lookup_and_lock_result ops t a = (a', Some bm)" "TK r = Some (t, keys)"
  shows "sized (length keys) bm" "adapter_led read_ok a' (TK(r := None)) TD (L + mset (gather bm keys))"
proof -
  obtain LK LD where l: "read_ok a LK LD L" "represents TK LK" "represents TD LD" using assms(1) unfolding adapter_led_def by blast
  note d = represents_del [OF l(2) assms(3)]
  note q = query_lookup_Some [OF l(1) assms(2) d(1)]
  show "sized (length keys) bm" using q by blast
  show "adapter_led read_ok a' (TK(r := None)) TD (L + mset (gather bm keys))"
    unfolding adapter_led_def using q d(2) l(3) by blast
qed

lemma led_unlock:
  assumes "adapter_led read_ok a TK TD L" "mset keys \<subseteq># L"
  shows "adapter_led read_ok (submit_unlock ops keys a) TK TD (L - mset keys)"
  using assms unlock_keys unfolding adapter_led_def by metis

lemma led_submit_load:
  assumes "adapter_led read_ok a TK TD L" "TD r = None" "submit_load_task ops keys objs a = (a', t)"
  shows "adapter_led read_ok a' TK (TD(r \<mapsto> (t, keys))) L"
  using assms represents_add submit_load unfolding adapter_led_def by metis

lemma led_query_load_None:
  assumes "adapter_led read_ok a TK TD L" "query_load_result ops t a = (a', None)"
  shows "adapter_led read_ok a' TK TD L"
  using assms query_load_None unfolding adapter_led_def by metis

lemma led_query_load_Some:
  assumes "adapter_led read_ok a TK TD L" "query_load_result ops t a = (a', Some bm)" "TD r = Some (t, keys)"
  shows "sized (length keys) bm" "adapter_led read_ok a' TK (TD(r := None)) L"
proof -
  obtain LK LD where l: "read_ok a LK LD L" "represents TK LK" "represents TD LD" using assms(1) unfolding adapter_led_def by blast
  note d = represents_del [OF l(3) assms(3)]
  note q = query_load_Some [OF l(1) assms(2) d(1)]
  show "sized (length keys) bm" using q by blast
  show "adapter_led read_ok a' TK (TD(r := None)) L" unfolding adapter_led_def using q d(2) l(2) by blast
qed

lemma led_env: "adapter_led read_ok a TK TD L \<Longrightarrow> env a a' \<Longrightarrow> adapter_led read_ok a' TK TD L"
  using read_env unfolding adapter_led_def by metis

end

section \<open>What the requests have outstanding\<close>

type_synonym requests = "int \<rightharpoonup> in_flight_request"

definition lookup_of :: "int \<Rightarrow> in_flight_request \<Rightarrow> (int \<times> object_key list) option" where
  "lookup_of i q = map_option (\<lambda>t. (t, rq_keys q)) (map_of (rq_pending_lookup_tasks q) i)"

definition load_of :: "int \<Rightarrow> in_flight_request \<Rightarrow> (int \<times> object_key list) option" where
  "load_of i q = map_option (\<lambda>t. (t, gather (the (map_of (rq_load_plan q) i)) (rq_keys q))) (map_of (rq_pending_load_tasks q) i)"

definition held_keys :: "int \<Rightarrow> in_flight_request \<Rightarrow> object_key multiset" where
  "held_keys i q = mset (gather (dict_get_default (rq_l2_readlocks q) i (new_bitmap 0)) (rq_keys q))"

lemma gather_new [simp]: "gather (new_bitmap n) keys = []"
  using set_get_indices [of "new_bitmap n"] by (simp add: gather_def)

lemma held_keys_simps:
  "map_of (rq_l2_readlocks q) i = None \<Longrightarrow> held_keys i q = {#}"
  "map_of (rq_l2_readlocks q) i = Some b \<Longrightarrow> held_keys i q = mset (gather b (rq_keys q))"
  by (simp_all add: held_keys_def dict_get_default_def)

definition lookups_at :: "requests \<Rightarrow> int \<Rightarrow> int \<rightharpoonup> int \<times> object_key list" where
  "lookups_at R i = (\<lambda>r. Option.bind (R r) (lookup_of i))"

definition loads_at :: "requests \<Rightarrow> int \<Rightarrow> int \<rightharpoonup> int \<times> object_key list" where
  "loads_at R i = (\<lambda>r. Option.bind (R r) (load_of i))"

definition total_over :: "(in_flight_request \<Rightarrow> 'b :: comm_monoid_add) \<Rightarrow> requests \<Rightarrow> 'b" where
  "total_over g R = (\<Sum>r\<in>dom R. g (the (R r)))"

definition held_at :: "requests \<Rightarrow> int \<Rightarrow> object_key multiset" where
  "held_at R i = total_over (held_keys i) R"

definition in_phase :: "prefetch_phase \<Rightarrow> requests \<Rightarrow> int" where
  "in_phase ph R = total_over (\<lambda>q. if rq_phase q = ph then 1 else 0) R"

lemma tasks_upd [simp]:
  "lookups_at (R(r \<mapsto> q)) i = (lookups_at R i)(r := lookup_of i q)" "lookups_at (R(r := None)) i = (lookups_at R i)(r := None)"
  "loads_at (R(r \<mapsto> q)) i = (loads_at R i)(r := load_of i q)" "loads_at (R(r := None)) i = (loads_at R i)(r := None)"
  by (auto simp: lookups_at_def loads_at_def)

lemma tasks_at_Some:
  "R r = Some q \<Longrightarrow> lookups_at R i r = lookup_of i q" "R r = Some q \<Longrightarrow> loads_at R i r = load_of i q"
  "R r = None \<Longrightarrow> lookups_at R i r = None" "R r = None \<Longrightarrow> loads_at R i r = None"
  by (auto simp: lookups_at_def loads_at_def)

lemma total_over_upd:
  assumes "finite (dom R)"
  shows "total_over g (R(r \<mapsto> q)) = g q + total_over g (R(r := None))" "R r = Some q \<Longrightarrow> total_over g R = g q + total_over g (R(r := None))"
proof -
  have *: "total_over g R' = g q + total_over g (R'(r := None))" if "R' r = Some q" "finite (dom R')" for R'
  proof -
    have "total_over g R' = g (the (R' r)) + (\<Sum>x\<in>dom R' - {r}. g (the (R' x)))"
      unfolding total_over_def using that by (intro sum.remove) auto
    moreover have "(\<Sum>x\<in>dom R' - {r}. g (the (R' x))) = total_over g (R'(r := None))"
      unfolding total_over_def by (intro sum.cong) auto
    ultimately show ?thesis using that by simp
  qed
  show "R r = Some q \<Longrightarrow> total_over g R = g q + total_over g (R(r := None))" using * [of R] assms by blast
  show "total_over g (R(r \<mapsto> q)) = g q + total_over g (R(r := None))" using * [of "R(r \<mapsto> q)"] assms by simp
qed

lemma upd_None: "R r = None \<Longrightarrow> R(r := None) = R"
  by auto

lemma held_upd:
  assumes "finite (dom R)" "R r = Some q"
  shows "held_at (R(r \<mapsto> q')) i = held_at R i - held_keys i q + held_keys i q'" "held_keys i q \<subseteq># held_at R i"
    "held_at (R(r := None)) i = held_at R i - held_keys i q"
  using total_over_upd(1) [OF assms(1), of "held_keys i" r q'] total_over_upd(2) [OF assms(1), of r q "held_keys i"] assms(2)
  by (simp_all add: held_at_def)

lemma phase_upd:
  assumes "finite (dom R)" "R r = Some q"
  shows "in_phase ph (R(r \<mapsto> q')) = in_phase ph R - (if rq_phase q = ph then 1 else 0) + (if rq_phase q' = ph then 1 else 0)"
    "in_phase ph (R(r := None)) = in_phase ph R - (if rq_phase q = ph then 1 else 0)"
  using total_over_upd(1) [OF assms(1), of "\<lambda>q. if rq_phase q = ph then 1 else 0 :: int" r q']
    total_over_upd(2) [OF assms(1), of r q "\<lambda>q. if rq_phase q = ph then 1 else 0 :: int"] assms(2)
  by (simp_all add: in_phase_def)

lemma new_request_counts:
  assumes "finite (dom R)" "R r = None"
  shows "held_at (R(r \<mapsto> q)) i = held_at R i + held_keys i q"
    "in_phase ph (R(r \<mapsto> q)) = in_phase ph R + (if rq_phase q = ph then 1 else 0)"
  using total_over_upd(1) [OF assms(1), of "held_keys i" r q] upd_None [of R, OF assms(2)]
    total_over_upd(1) [OF assms(1), of "\<lambda>q. if rq_phase q = ph then 1 else 0 :: int" r q]
  by (simp_all add: held_at_def in_phase_def add.commute)

section \<open>The invariant\<close>

definition settled :: "in_flight_request \<Rightarrow> bool" where
  "settled q \<longleftrightarrow> rq_pending_lookup_tasks q = [] \<and> rq_pending_load_tasks q = []"

definition idle :: "in_flight_request \<Rightarrow> bool" where
  "idle q \<longleftrightarrow> settled q \<and> rq_l2_readlocks q = []"

definition req_ok :: "int set \<Rightarrow> in_flight_request \<Rightarrow> bool" where
  "req_ok A q \<longleftrightarrow> dict_wf (rq_pending_lookup_tasks q) \<and> dict_wf (rq_pending_load_tasks q) \<and>
     plan_ok (length (rq_keys q)) (rq_lookup_results q) \<and> plan_ok (length (rq_keys q)) (rq_l2_readlocks q) \<and>
     plan_ok (length (rq_keys q)) (rq_load_plan q) \<and> sized (length (rq_keys q)) (rq_l1_readlocks q) \<and>
     whole_chunks (length (rq_keys q)) (rq_attn_desc q) \<and>
     dict_dom (rq_pending_lookup_tasks q) \<inter> dict_dom (rq_lookup_results q) = {} \<and>
     dict_dom (rq_l2_readlocks q) \<subseteq> dict_dom (rq_lookup_results q) \<and>
     dict_dom (rq_pending_load_tasks q) \<subseteq> dict_dom (rq_load_plan q) \<and>
     dict_dom (rq_pending_lookup_tasks q) \<subseteq> A \<and> dict_dom (rq_lookup_results q) \<subseteq> A \<and> dict_dom (rq_load_plan q) \<subseteq> A \<and>
     (rq_phase q = PHASE_LOOKUP \<longrightarrow> rq_pending_load_tasks q = [] \<and> rq_load_plan q = []) \<and>
     (rq_phase q = PLAN_AND_LOAD \<longrightarrow> rq_pending_lookup_tasks q = [])"

lemma req_okD:
  assumes "req_ok A q"
  shows "dict_wf (rq_pending_lookup_tasks q)" "dict_wf (rq_pending_load_tasks q)"
    "plan_ok (length (rq_keys q)) (rq_lookup_results q)" "plan_ok (length (rq_keys q)) (rq_l2_readlocks q)"
    "plan_ok (length (rq_keys q)) (rq_load_plan q)" "sized (length (rq_keys q)) (rq_l1_readlocks q)"
    "whole_chunks (length (rq_keys q)) (rq_attn_desc q)"
    "dict_dom (rq_pending_lookup_tasks q) \<inter> dict_dom (rq_lookup_results q) = {}"
    "dict_dom (rq_l2_readlocks q) \<subseteq> dict_dom (rq_lookup_results q)"
    "dict_dom (rq_pending_load_tasks q) \<subseteq> dict_dom (rq_load_plan q)"
    "dict_dom (rq_pending_lookup_tasks q) \<subseteq> A" "dict_dom (rq_lookup_results q) \<subseteq> A" "dict_dom (rq_load_plan q) \<subseteq> A"
    "rq_phase q = PHASE_LOOKUP \<Longrightarrow> rq_pending_load_tasks q = [] \<and> rq_load_plan q = []"
    "rq_phase q = PLAN_AND_LOAD \<Longrightarrow> rq_pending_lookup_tasks q = []"
  using assms unfolding req_ok_def by blast+

definition ledger_ok ::
  "('a \<Rightarrow> (int \<rightharpoonup> object_key list) \<Rightarrow> (int \<rightharpoonup> object_key list) \<Rightarrow> object_key multiset \<Rightarrow> bool) \<Rightarrow>
   (int, 'a) pydict \<Rightarrow> requests \<Rightarrow> bool" where
  "ledger_ok read_ok ads R \<longleftrightarrow> finite (dom R) \<and>
     (\<forall>i a. map_of ads i = Some a \<longrightarrow> adapter_led read_ok a (lookups_at R i) (loads_at R i) (held_at R i)) \<and>
     (\<forall>r q. R r = Some q \<longrightarrow> rq_request_id q = r \<and> req_ok (dict_dom ads) q)"

lemma ledger_okD:
  assumes "ledger_ok read_ok ads R"
  shows "finite (dom R)" "map_of ads i = Some a \<Longrightarrow> adapter_led read_ok a (lookups_at R i) (loads_at R i) (held_at R i)"
    "R r = Some q \<Longrightarrow> rq_request_id q = r" "R r = Some q \<Longrightarrow> req_ok (dict_dom ads) q"
  using assms unfolding ledger_ok_def by blast+

text \<open>One request and at most one adapter change.\<close>

lemma requests_upd:
  assumes ok: "ledger_ok read_ok ads R" "R r = Some q" and q': "rq_request_id q' = r" "req_ok (dict_dom ads) q'"
    and a: "map_of ads j = Some a"
      "adapter_led read_ok a' ((lookups_at R j)(r := lookup_of j q')) ((loads_at R j)(r := load_of j q'))
         (held_at R j - held_keys j q + held_keys j q')"
    and other: "\<And>i. i \<noteq> j \<Longrightarrow> lookup_of i q' = lookup_of i q \<and> load_of i q' = load_of i q \<and> held_keys i q' = held_keys i q"
  shows "ledger_ok read_ok (dict_set j a' ads) (R(r \<mapsto> q'))"
proof -
  note D = ledger_okD [OF ok(1)]
  have dom: "dict_dom (dict_set j a' ads) = dict_dom ads" using a(1) by (auto simp: dict_dom_iff)
  have "adapter_led read_ok b (lookups_at (R(r \<mapsto> q')) i) (loads_at (R(r \<mapsto> q')) i) (held_at (R(r \<mapsto> q')) i)"
    if b: "map_of (dict_set j a' ads) i = Some b" for i b
  proof (cases "i = j")
    case True
    then show ?thesis using a(2) b held_upd [OF D(1) ok(2)] by simp
  next
    case False
    have "(lookups_at R i)(r := lookup_of i q) = lookups_at R i" "(loads_at R i)(r := load_of i q) = loads_at R i"
      using tasks_at_Some(1,2) [of R, OF ok(2), of i] by auto
    moreover have "held_at R i - held_keys i q + held_keys i q = held_at R i" using held_upd(2) [OF D(1) ok(2)] by simp
    ultimately show ?thesis using False b D(2) [of i b] other [OF False] held_upd [OF D(1) ok(2)] by simp
  qed
  then show ?thesis using D(1,3,4) q' unfolding ledger_ok_def dom by auto
qed

lemma ledger_same:
  assumes "ledger_ok read_ok ads R" "R r = Some q" "rq_request_id q' = r" "req_ok (dict_dom ads) q'"
    "\<And>i. lookup_of i q' = lookup_of i q \<and> load_of i q' = load_of i q \<and> held_keys i q' = held_keys i q"
  shows "ledger_ok read_ok ads (R(r \<mapsto> q'))"
proof -
  note D = ledger_okD [OF assms(1)]
  have "(lookups_at R i)(r := lookup_of i q) = lookups_at R i" "(loads_at R i)(r := load_of i q) = loads_at R i" for i
    using tasks_at_Some(1,2) [of R, OF assms(2), of i] by auto
  moreover have "held_at R i - held_keys i q + held_keys i q = held_at R i" for i using held_upd(2) [OF D(1) assms(2)] by simp
  ultimately show ?thesis using assms(3-5) D held_upd [OF D(1) assms(2)] unfolding ledger_ok_def by auto
qed

lemma ledger_adapter:
  assumes "ledger_ok read_ok ads R" "map_of ads j = Some a" "adapter_led read_ok a' (lookups_at R j) (loads_at R j) (held_at R j)"
  shows "ledger_ok read_ok (dict_set j a' ads) R"
proof -
  have dom: "dict_dom (dict_set j a' ads) = dict_dom ads" using assms(2) by (auto simp: dict_dom_iff)
  show ?thesis unfolding ledger_ok_def dom using assms ledger_okD [OF assms(1)] by (auto split: if_splits)
qed

lemma idle_nothing: "idle q \<Longrightarrow> lookup_of i q = None \<and> load_of i q = None \<and> held_keys i q = {#}"
  by (simp add: idle_def settled_def lookup_of_def load_of_def held_keys_def)

lemma ledger_drop:
  assumes "ledger_ok read_ok ads R" "R r = Some q" "idle q"
  shows "ledger_ok read_ok ads (R(r := None))"
proof -
  note D = ledger_okD [OF assms(1)]
  have "(lookups_at R i)(r := None) = lookups_at R i" "(loads_at R i)(r := None) = loads_at R i" for i
    using tasks_at_Some(1,2) [of R, OF assms(2), of i] idle_nothing [OF assms(3), of i] by auto
  then show ?thesis using D held_upd(3) [OF D(1) assms(2)] idle_nothing [OF assms(3)] unfolding ledger_ok_def by auto
qed

section \<open>Handlers of one request\<close>

text \<open>Outcomes of a computation that may raise: \<open>Q\<close> when it returns, \<open>E\<close> when it raises.\<close>

definition outcome :: "('x \<Rightarrow> 's \<Rightarrow> bool) \<Rightarrow> ('s \<Rightarrow> bool) \<Rightarrow> 's \<times> 'x result \<Rightarrow> bool" where
  "outcome Q E res = (case res of (s, Inr x) \<Rightarrow> Q x s | (s, Inl _) \<Rightarrow> E s)"

lemma outcome_simps [simp]: "outcome Q E (s, Inr x) = Q x s" "outcome Q E (s, Inl e) = E s"
  by (simp_all add: outcome_def)

definition hoare :: "('s \<Rightarrow> bool) \<Rightarrow> ('s, 'x) py \<Rightarrow> ('x \<Rightarrow> 's \<Rightarrow> bool) \<Rightarrow> ('s \<Rightarrow> bool) \<Rightarrow> bool" where
  "hoare P f Q E \<longleftrightarrow> (\<forall>s. P s \<longrightarrow> outcome Q E (f s))"

lemma hoareI: "(\<And>s. P s \<Longrightarrow> outcome Q E (f s)) \<Longrightarrow> hoare P f Q E"
  unfolding hoare_def by blast

lemma hoareD: "hoare P f Q E \<Longrightarrow> P s \<Longrightarrow> outcome Q E (f s)"
  unfolding hoare_def by blast

lemma outcome_mono: "outcome Q E res \<Longrightarrow> (\<And>x s. Q x s \<Longrightarrow> Q' x s) \<Longrightarrow> (\<And>s. E s \<Longrightarrow> E' s) \<Longrightarrow> outcome Q' E' res"
  by (cases res, cases "snd res") auto

lemma hoare_bind:
  assumes "hoare P f Q E" "\<And>x. hoare (Q x) (g x) Q' E"
  shows "hoare P (py_bind f g) Q' E"
proof (rule hoareI)
  fix s assume P: "P s"
  obtain s' r where f: "f s = (s', r)" by fastforce
  show "outcome Q' E (py_bind f g s)"
  proof (cases r)
    case (Inl e)
    then show ?thesis using hoareD [OF assms(1) P] f by (simp add: py_bind_def)
  next
    case (Inr x)
    then have "Q x s'" using hoareD [OF assms(1) P] f by simp
    then show ?thesis using hoareD [OF assms(2)] f Inr by (simp add: py_bind_def)
  qed
qed

lemma hoare_seq_Nil: "hoare P (py_seq []) (\<lambda>_. P) E"
  by (rule hoareI) (simp add: py_seq_def py_return_def)

lemma hoare_seq_Cons: "hoare P f (\<lambda>_. Q) E \<Longrightarrow> hoare Q (py_seq fs) Q' E \<Longrightarrow> hoare P (py_seq (f # fs)) Q' E"
  unfolding py_seq_def foldr.simps comp_def by (rule hoare_bind)

lemma hoare_seq_one: "hoare P f Q E \<Longrightarrow> hoare P (py_seq [f]) (\<lambda>_ s. \<exists>x. Q x s) E"
  by (rule hoare_seq_Cons [OF _ hoare_seq_Nil], rule hoareI) (auto dest!: hoareD elim: outcome_mono)

lemma hoare_lift:
  assumes "\<And>s x. P s \<Longrightarrow> r = Inr x \<Longrightarrow> Q x s" "\<And>s. P s \<Longrightarrow> E s"
  shows "hoare P (py_lift r) Q E"
  by (rule hoareI) (cases r; simp add: py_lift_def assms)

lemma hoare_weaken:
  assumes "hoare P f Q E" "\<And>s. P' s \<Longrightarrow> P s" "\<And>x s. Q x s \<Longrightarrow> Q' x s" "\<And>s. E s \<Longrightarrow> E' s"
  shows "hoare P' f Q' E'"
  by (rule hoareI) (rule outcome_mono [OF hoareD [OF assms(1) assms(2)] assms(3,4)])

lemma hoare_for_each:
  assumes "\<And>x rest. hoare (I (x # rest)) (f x) (\<lambda>_. I rest) E"
  shows "hoare (I xs) (for_each f xs) (\<lambda>_. I []) E"
proof (induction xs)
  case Nil
  then show ?case by (simp add: hoare_def)
next
  case (Cons x xs)
  show ?case
  proof (rule hoareI)
    fix s assume I: "I (x # xs) s"
    obtain s' r where f: "f x s = (s', r)" by fastforce
    show "outcome (\<lambda>_. I []) E (for_each f (x # xs) s)"
      using hoareD [OF assms I] hoareD [OF Cons] f by (cases r) auto
  qed
qed

lemma hoare_total: "(\<And>s. P s \<Longrightarrow> \<exists>s' x. f s = (s', Inr x) \<and> Q x s') \<Longrightarrow> hoare P f Q E"
  by (rule hoareI) force

lemma hoare_from: "hoare P f Q E \<Longrightarrow> P s0 \<Longrightarrow> hoare (\<lambda>s. s = s0) f Q E"
  unfolding hoare_def by blast

lemma hoare_state: "(\<And>s0. P s0 \<Longrightarrow> hoare (\<lambda>s. s = s0) (f s0) Q E) \<Longrightarrow> hoare P (\<lambda>s. f s s) Q E"
  unfolding hoare_def by blast

lemma hoare_pair: "(\<And>a b. x = (a, b) \<Longrightarrow> hoare P (f a b) Q E) \<Longrightarrow> hoare P (case x of (a, b) \<Rightarrow> f a b) Q E"
  by (cases x) simp

lemma hoare_case:
  "hoare R f Q E \<Longrightarrow> hoare R' f Q E \<Longrightarrow> (\<And>s. P s \<Longrightarrow> R s \<or> R' s) \<Longrightarrow> hoare P f Q E"
  unfolding hoare_def by blast

text \<open>The requests of the table, with the object at hand in its place.\<close>

definition reqs :: "'a prefetch_controller \<Rightarrow> in_flight_request \<Rightarrow> requests" where
  "reqs pc rq = map_of (pc_in_flight_requests (store_request pc rq))"

lemma reqs_eq:
  "reqs pc rq = (if rq_request_id rq \<in> dict_dom (pc_in_flight_requests pc)
     then (map_of (pc_in_flight_requests pc))(rq_request_id rq \<mapsto> rq) else map_of (pc_in_flight_requests pc))"
  by (auto simp: reqs_def store_request_def)

definition counts_ok :: "'a prefetch_controller \<Rightarrow> requests \<Rightarrow> bool" where
  "counts_ok pc R \<longleftrightarrow> pc_status_in_flight_count pc = int (card (dom R)) \<and>
     pc_status_lookup_phase_count pc = in_phase PHASE_LOOKUP R \<and> pc_status_load_phase_count pc = in_phase PLAN_AND_LOAD R"

lemma counts_same:
  assumes "counts_ok pc R" "finite (dom R)" "R r = Some q" "rq_phase q' = rq_phase q"
  shows "counts_ok pc (R(r \<mapsto> q'))"
proof -
  have "dom (R(r \<mapsto> q')) = dom R" using assms(3) by auto
  then show ?thesis using assms(1,4) phase_upd(1) [OF assms(2,3)] unfolding counts_ok_def by simp
qed

text \<open>What a handler of request \<open>r\<close> may change: the adapters, its own entry of the table, the counters
  of the phases, the published results and the events.\<close>

definition others :: "int \<Rightarrow> 'a prefetch_controller \<Rightarrow> (int, in_flight_request) pydict" where
  "others r pc = dict_del r (pc_in_flight_requests pc)"

definition rest_of :: "int \<Rightarrow> 'a prefetch_controller \<Rightarrow> 'a prefetch_controller" where
  "rest_of r pc = pc\<lparr>pc_l2_adapters := [], pc_in_flight_requests := dict_del r (pc_in_flight_requests pc),
     pc_status_in_flight_count := 0, pc_status_lookup_phase_count := 0, pc_status_load_phase_count := 0,
     pc_completed_lookups := [], pc_completed_results := [], pc_events := []\<rparr>"

definition handler_inv ::
  "('a \<Rightarrow> (int \<rightharpoonup> object_key list) \<Rightarrow> (int \<rightharpoonup> object_key list) \<Rightarrow> object_key multiset \<Rightarrow> bool) \<Rightarrow>
   int set \<Rightarrow> 'a prefetch_controller \<Rightarrow> int \<Rightarrow> 'a pf_state \<Rightarrow> bool" where
  "handler_inv read_ok A pc0 r st \<longleftrightarrow> (case st of (pc, l1, rq) \<Rightarrow>
     rq_request_id rq = r \<and> dict_wf (pc_in_flight_requests pc) \<and> dict_dom (pc_l2_adapters pc) = A \<and> dict_wf (pc_l2_adapters pc) \<and>
     rest_of r pc = rest_of r pc0 \<and> req_ok A rq \<and> ledger_ok read_ok (pc_l2_adapters pc) (reqs pc rq) \<and> counts_ok pc (reqs pc rq) \<and>
     (r \<notin> dict_dom (pc_in_flight_requests pc) \<longrightarrow> idle rq) \<and> prefetch_policy_contract (pc_policy pc) \<and>
     dict_dom (pc_in_flight_requests pc) \<subseteq> dict_dom (pc_in_flight_requests pc0) \<and>
     dict_dom (pc_completed_results pc0) \<subseteq> dict_dom (pc_completed_results pc) \<and>
     dict_dom (pc_in_flight_requests pc0) - dict_dom (pc_in_flight_requests pc) \<subseteq> dict_dom (pc_completed_results pc) \<and>
     dict_dom (pc_completed_results pc) \<subseteq> dict_dom (pc_completed_results pc0) \<union> ({r} - dict_dom (pc_in_flight_requests pc)))"

lemma handler_invD:
  assumes "handler_inv read_ok A pc0 r (pc, l1, rq)"
  shows "rq_request_id rq = r" "dict_wf (pc_in_flight_requests pc)" "dict_dom (pc_l2_adapters pc) = A" "dict_wf (pc_l2_adapters pc)"
    "rest_of r pc = rest_of r pc0" "req_ok A rq" "ledger_ok read_ok (pc_l2_adapters pc) (reqs pc rq)" "counts_ok pc (reqs pc rq)"
    "r \<notin> dict_dom (pc_in_flight_requests pc) \<Longrightarrow> idle rq" "prefetch_policy_contract (pc_policy pc)"
    "dict_dom (pc_in_flight_requests pc) \<subseteq> dict_dom (pc_in_flight_requests pc0)"
    "dict_dom (pc_completed_results pc0) \<subseteq> dict_dom (pc_completed_results pc)"
    "dict_dom (pc_in_flight_requests pc0) - dict_dom (pc_in_flight_requests pc) \<subseteq> dict_dom (pc_completed_results pc)"
    "dict_dom (pc_completed_results pc) \<subseteq> dict_dom (pc_completed_results pc0) \<union> ({r} - dict_dom (pc_in_flight_requests pc))"
  using assms unfolding handler_inv_def by blast+

definition pc_core :: "'a prefetch_controller \<Rightarrow> 'a prefetch_controller" where
  "pc_core pc = pc\<lparr>pc_completed_lookups := [], pc_events := []\<rparr>"

definition rq_core :: "in_flight_request \<Rightarrow> in_flight_request" where
  "rq_core rq = rq\<lparr>rq_hit_reported := False, rq_write_reserved_keys := [], rq_write_reserved_objs := [],
     rq_l1_readlocks := new_bitmap 0, rq_load_bytes := [], rq_load_results := []\<rparr>"

lemma pc_coreD:
  assumes "pc_core pc' = pc_core pc"
  shows "pc_l2_adapters pc' = pc_l2_adapters pc" "pc_in_flight_requests pc' = pc_in_flight_requests pc" "rest_of r pc' = rest_of r pc"
    "counts_ok pc' R = counts_ok pc R" "pc_policy pc' = pc_policy pc"
    "pc_adapter_descriptors pc' = pc_adapter_descriptors pc" "pc_draining pc' = pc_draining pc"
    "pc_completed_results pc' = pc_completed_results pc"
  using assms unfolding pc_core_def rest_of_def counts_ok_def by (cases pc; cases pc'; simp)+

lemma rq_coreD:
  assumes "rq_core rq' = rq_core rq"
  shows "rq_request_id rq' = rq_request_id rq" "rq_keys rq' = rq_keys rq" "rq_phase rq' = rq_phase rq" "rq_attn_desc rq' = rq_attn_desc rq"
    "rq_pending_lookup_tasks rq' = rq_pending_lookup_tasks rq" "rq_lookup_results rq' = rq_lookup_results rq"
    "rq_l2_readlocks rq' = rq_l2_readlocks rq" "rq_load_plan rq' = rq_load_plan rq"
    "rq_pending_load_tasks rq' = rq_pending_load_tasks rq" "rq_num_kv_readers rq' = rq_num_kv_readers rq"
    "rq_mode rq' = rq_mode rq" "rq_policy rq' = rq_policy rq"
  using assms unfolding rq_core_def by (cases rq; cases rq'; simp)+

text \<open>A step that leaves the ledger alone.\<close>

lemma keep_inv:
  assumes inv: "handler_inv read_ok A pc0 r (pc, l1, rq)" and core: "pc_core pc' = pc_core pc" "rq_core rq' = rq_core rq"
    and sz: "sized (length (rq_keys rq)) (rq_l1_readlocks rq')"
  shows "handler_inv read_ok A pc0 r (pc', l1', rq')"
proof -
  note D = handler_invD [OF inv] and P = pc_coreD [OF core(1)] and Q = rq_coreD [OF core(2)]
  have rq: "req_ok A rq'" using D(6) sz unfolding req_ok_def Q by blast
  have same: "lookup_of i rq' = lookup_of i rq \<and> load_of i rq' = load_of i rq \<and> held_keys i rq' = held_keys i rq" for i
    unfolding lookup_of_def load_of_def held_keys_def Q by simp
  have idle: "idle rq' = idle rq" by (simp add: idle_def settled_def Q)
  show ?thesis
  proof (cases "r \<in> dict_dom (pc_in_flight_requests pc)")
    case False
    then have "reqs pc' rq' = reqs pc rq" using D(1) by (simp add: reqs_eq P Q)
    then show ?thesis using D rq idle False by (simp add: handler_inv_def P Q)
  next
    case True
    have R: "reqs pc' rq' = (reqs pc rq)(r \<mapsto> rq')" and q: "reqs pc rq r = Some rq" using D(1) True by (simp_all add: reqs_eq P Q)
    have "ledger_ok read_ok (pc_l2_adapters pc) ((reqs pc rq)(r \<mapsto> rq'))"
      using ledger_same [OF D(7) q _ _ same] rq D(1,3) Q by simp
    moreover have "counts_ok pc ((reqs pc rq)(r \<mapsto> rq'))"
      by (rule counts_same [OF D(8) ledger_okD(1) [OF D(7)] q Q(3)])
    ultimately show ?thesis using D rq idle True R by (simp add: handler_inv_def P Q)
  qed
qed

text \<open>Steps that leave the ledger alone, for the rules below: all but the calls to adapters, the
  polls, the plan and the completion.\<close>

definition quiet :: "('a pf_state, 'x) py \<Rightarrow> bool" where
  "quiet f \<longleftrightarrow> (\<forall>pc l1 rq. sized (length (rq_keys rq)) (rq_l1_readlocks rq) \<longrightarrow>
     (case fst (f (pc, l1, rq)) of (pc', l1', rq') \<Rightarrow> pc_core pc' = pc_core pc \<and> rq_core rq' = rq_core rq \<and>
        sized (length (rq_keys rq)) (rq_l1_readlocks rq')))"

lemma quiet_inv:
  assumes "quiet f"
  shows "hoare (\<lambda>s. handler_inv read_ok A pc0 r s \<and> P (rq_core (snd (snd s))) (pc_core (fst s))) f
    (\<lambda>_ s. handler_inv read_ok A pc0 r s \<and> P (rq_core (snd (snd s))) (pc_core (fst s)))
    (\<lambda>s. handler_inv read_ok A pc0 r s \<and> P (rq_core (snd (snd s))) (pc_core (fst s)))"
proof (rule hoareI)
  fix s :: "'a pf_state"
  assume s: "handler_inv read_ok A pc0 r s \<and> P (rq_core (snd (snd s))) (pc_core (fst s))"
  obtain pc l1 rq where st: "s = (pc, l1, rq)" by (metis prod_cases3)
  obtain pc' l1' rq' res where f: "f s = ((pc', l1', rq'), res)" by (metis prod_cases4 prod.collapse)
  have "sized (length (rq_keys rq)) (rq_l1_readlocks rq)" using s req_okD(6) handler_invD(6) unfolding st by blast
  from assms [unfolded quiet_def, rule_format, OF this, of pc l1]
  have c: "pc_core pc' = pc_core pc" "rq_core rq' = rq_core rq" "sized (length (rq_keys rq)) (rq_l1_readlocks rq')"
    using f unfolding st by simp_all
  have "handler_inv read_ok A pc0 r (pc', l1', rq')" using keep_inv [OF _ c] s unfolding st by blast
  then show "outcome (\<lambda>_ s. handler_inv read_ok A pc0 r s \<and> P (rq_core (snd (snd s))) (pc_core (fst s)))
      (\<lambda>s. handler_inv read_ok A pc0 r s \<and> P (rq_core (snd (snd s))) (pc_core (fst s))) (f s)"
    using s c f unfolding st by (cases res) auto
qed

lemma quiet_publish [simp]: "quiet (pc_publish ev)"
  by (simp add: quiet_def pc_publish_def pc_core_def)

lemma quiet_when [simp]: "quiet f \<Longrightarrow> quiet (when_nonempty xs f)"
  by (simp add: quiet_def when_nonempty_def py_return_def)

lemma quiet_steps [simp]:
  "quiet (make_ready now keys)" "quiet (discard_failed sl now keys)" "quiet (release_unretained sl now b m)"
  "quiet (touch_retained m)" "quiet (report_lookup_hit h)" "quiet (report_unreported h)"
  by (simp_all add: quiet_def make_ready_def discard_failed_def release_unretained_def touch_retained_def report_lookup_hit_def
      report_unreported_def update_lookup_results_def pc_publish_def pc_core_def rq_core_def Let_def)

definition never_raises :: "('s, 'x) py \<Rightarrow> bool" where
  "never_raises f \<longleftrightarrow> (\<forall>s. \<exists>s' x. f s = (s', Inr x))"

lemma never_raises_steps [simp]:
  "never_raises (pc_publish ev)" "never_raises (make_ready now keys)" "never_raises (discard_failed sl now keys)"
  "never_raises (release_unretained sl now b m)" "never_raises (touch_retained m)" "never_raises (report_lookup_hit h)"
  "never_raises (report_unreported h)"
  by (simp_all add: never_raises_def make_ready_def discard_failed_def release_unretained_def touch_retained_def report_lookup_hit_def
      report_unreported_def update_lookup_results_def pc_publish_def Let_def)

lemma never_raises_when [simp]: "never_raises f \<Longrightarrow> never_raises (when_nonempty xs f)"
  by (simp add: never_raises_def when_nonempty_def py_return_def)

lemma hoare_never: "never_raises f \<Longrightarrow> hoare P f Q E \<Longrightarrow> hoare P f Q E'"
  unfolding hoare_def never_raises_def by (metis outcome_simps(1))

text \<open>A step on one adapter by a request of the table.\<close>

lemma adapter_step:
  assumes inv: "handler_inv read_ok A pc0 r (pc, l1, rq)" and tab: "r \<in> dict_dom (pc_in_flight_requests pc)"
    and pc': "pc_core pc' = pc_core (pc\<lparr>pc_l2_adapters := dict_set j a' (pc_l2_adapters pc)\<rparr>)"
    and rq': "rq_request_id rq' = r" "req_ok A rq'" "rq_phase rq' = rq_phase rq"
    and a: "map_of (pc_l2_adapters pc) j = Some a"
      "adapter_led read_ok a' ((lookups_at (reqs pc rq) j)(r := lookup_of j rq')) ((loads_at (reqs pc rq) j)(r := load_of j rq'))
         (held_at (reqs pc rq) j - held_keys j rq + held_keys j rq')"
    and other: "\<And>i. i \<noteq> j \<Longrightarrow> lookup_of i rq' = lookup_of i rq \<and> load_of i rq' = load_of i rq \<and> held_keys i rq' = held_keys i rq"
  shows "handler_inv read_ok A pc0 r (pc', l1', rq')"
proof -
  note D = handler_invD [OF inv] and P = pc_coreD [OF pc']
  have R: "reqs pc' rq' = (reqs pc rq)(r \<mapsto> rq')" and q: "reqs pc rq r = Some rq" using D(1) tab rq'(1) by (simp_all add: reqs_eq P)
  have "ledger_ok read_ok (pc_l2_adapters pc') ((reqs pc rq)(r \<mapsto> rq'))"
    using requests_upd [OF D(7) q rq'(1) _ a other] rq'(2) D(3) by (simp add: P)
  moreover have "counts_ok pc ((reqs pc rq)(r \<mapsto> rq'))"
    by (rule counts_same [OF D(8) ledger_okD(1) [OF D(7)] q rq'(3)])
  moreover have "counts_ok pc' R' = counts_ok pc R'" for R' using P(4) [of R'] by (simp add: counts_ok_def)
  moreover have "dict_dom (pc_l2_adapters pc') = A" using D(3) a(1) by (auto simp: P dict_dom_iff)
  moreover have "rest_of r pc' = rest_of r pc" using P(3) [of r] by (simp add: rest_of_def)
  ultimately show ?thesis using D rq' tab by (simp add: handler_inv_def P R)
qed

text \<open>States of a handler whose request is in the table.\<close>

definition tracked_inv ::
  "('a \<Rightarrow> (int \<rightharpoonup> object_key list) \<Rightarrow> (int \<rightharpoonup> object_key list) \<Rightarrow> object_key multiset \<Rightarrow> bool) \<Rightarrow>
   int set \<Rightarrow> 'a prefetch_controller \<Rightarrow> int \<Rightarrow> prefetch_phase \<Rightarrow> 'a pf_state \<Rightarrow> bool" where
  "tracked_inv read_ok A pc0 r ph s \<longleftrightarrow> handler_inv read_ok A pc0 r s \<and>
     r \<in> dict_dom (pc_in_flight_requests (fst s)) \<and> rq_phase (snd (snd s)) = ph"

lemma tracked_quiet:
  assumes "quiet f"
  shows "hoare (tracked_inv read_ok A pc0 r ph) f (\<lambda>_. tracked_inv read_ok A pc0 r ph) (tracked_inv read_ok A pc0 r ph)"
  using quiet_inv [OF assms, of read_ok A pc0 r "\<lambda>rq pc. r \<in> dict_dom (pc_in_flight_requests pc) \<and> rq_phase rq = ph"]
  unfolding tracked_inv_def by (simp add: pc_core_def rq_core_def)

context l2_read_contract
begin

lemma poll_lookup_inv:
  "hoare (\<lambda>s. tracked_inv read_ok A pc0 r PHASE_LOOKUP s \<and> distinct (i # rest) \<and>
       set (i # rest) \<subseteq> dict_dom (rq_pending_lookup_tasks (snd (snd s))))
     (poll_lookup ops signaled i)
     (\<lambda>_ s. tracked_inv read_ok A pc0 r PHASE_LOOKUP s \<and> distinct rest \<and> set rest \<subseteq> dict_dom (rq_pending_lookup_tasks (snd (snd s)))) E"
proof (rule hoare_total)
  fix s :: "'a pf_state"
  assume s: "tracked_inv read_ok A pc0 r PHASE_LOOKUP s \<and> distinct (i # rest) \<and> set (i # rest) \<subseteq> dict_dom (rq_pending_lookup_tasks (snd (snd s)))"
  obtain pc l1 rq where st: "s = (pc, l1, rq)" by (metis prod_cases3)
  have inv: "handler_inv read_ok A pc0 r (pc, l1, rq)" and tab: "r \<in> dict_dom (pc_in_flight_requests pc)" "rq_phase rq = PHASE_LOOKUP"
    using s by (simp_all add: tracked_inv_def st)
  note D = handler_invD [OF inv] and Q = req_okD [OF handler_invD(6) [OF inv]]
  obtain t where t: "map_of (rq_pending_lookup_tasks rq) i = Some t" using s by (auto simp: st dict_dom_iff)
  have "i \<in> dict_dom (pc_l2_adapters pc)" using Q(11) D(3) t by (auto simp: dict_dom_iff)
  then obtain a where a: "map_of (pc_l2_adapters pc) i = Some a" by (auto simp: dict_dom_iff)
  have q: "reqs pc rq r = Some rq" using D(1) tab by (simp add: reqs_eq)
  note led = ledger_okD(2) [OF D(7) a]
  have tk: "lookups_at (reqs pc rq) i r = Some (t, rq_keys rq)" using tasks_at_Some(1) [of "reqs pc rq", OF q, of i] t by (simp add: lookup_of_def)
  show "\<exists>s' x. poll_lookup ops signaled i s = (s', Inr x) \<and> (tracked_inv read_ok A pc0 r PHASE_LOOKUP s' \<and> distinct rest \<and>
      set rest \<subseteq> dict_dom (rq_pending_lookup_tasks (snd (snd s'))))"
  proof (cases "i \<in> set signaled")
    case False
    then show ?thesis using s by (auto simp: poll_lookup_def st)
  next
    case sig: True
    obtain a' res where qr: "query_lookup_and_lock_result ops t a = (a', res)" by fastforce
    let ?pc' = "pc\<lparr>pc_l2_adapters := dict_set i a' (pc_l2_adapters pc)\<rparr>"
    show ?thesis
    proof (cases res)
      case None
      have "adapter_led read_ok a' (lookups_at (reqs pc rq) i) (loads_at (reqs pc rq) i) (held_at (reqs pc rq) i)"
        using led_query_lookup_None [OF led] qr None by blast
      then have "handler_inv read_ok A pc0 r (?pc', l1, rq)"
        using held_upd(2) [OF ledger_okD(1) [OF D(7)] q, of i] tasks_at_Some(1,2) [of "reqs pc rq", OF q, of i]
        by (intro adapter_step [OF inv tab(1) _ D(1,6) _ a]) (simp_all add: fun_upd_idem)
      then show ?thesis using s sig t a qr None by (auto simp: poll_lookup_def st tracked_inv_def)
    next
      case (Some bm)
      let ?rq' = "rq\<lparr>rq_lookup_results := dict_set i bm (rq_lookup_results rq), rq_l2_readlocks := dict_set i bm (rq_l2_readlocks rq),
          rq_pending_lookup_tasks := dict_del i (rq_pending_lookup_tasks rq)\<rparr>"
      note qs = led_query_lookup_Some [OF led _ tk] 
      have bm: "sized (length (rq_keys rq)) bm"
        "adapter_led read_ok a' ((lookups_at (reqs pc rq) i)(r := None)) (loads_at (reqs pc rq) i) (held_at (reqs pc rq) i + mset (gather bm (rq_keys rq)))"
        using qs qr Some by blast+
      have "i \<in> dict_dom (rq_pending_lookup_tasks rq)" using t by (simp add: dict_dom_iff)
      then have new: "i \<notin> dict_dom (rq_lookup_results rq)" using Q(8) by blast
      then have "i \<notin> dict_dom (rq_l2_readlocks rq)" using Q(9) by blast
      then have "held_keys i rq = {#}" by (simp add: held_keys_simps(1) dict_dom_iff)
      moreover have "req_ok A ?rq'"
        using Q tab(2) bm(1) t unfolding req_ok_def by (auto simp: dict_dom_iff)
      ultimately have "handler_inv read_ok A pc0 r (?pc', l1, ?rq')"
        using bm(2) tasks_at_Some(2) [of "reqs pc rq", OF q, of i] D(1)
        by (intro adapter_step [OF inv tab(1) _ _ _ _ a]) (auto simp: lookup_of_def load_of_def held_keys_def fun_upd_idem)
      moreover have "set rest \<subseteq> dict_dom (dict_del i (rq_pending_lookup_tasks rq))" using s by (auto simp: st)
      ultimately show ?thesis using s sig t a qr Some by (auto simp: poll_lookup_def st tracked_inv_def)
    qed
  qed
qed

end

text \<open>The keys of a bitmap, split by another one.\<close>

lemma mset_gather:
  assumes "sized (length keys) b"
  shows "mset (gather b keys) = image_mset ((!) keys) (mset_set (bits b))"
proof -
  have b: "bm_ok b" "bm_size b \<le> length keys" using assms by (auto simp: sized_def)
  have "mset (get_indices b) = mset_set (bits b)"
    using sorted_get_indices [OF b(1)] set_get_indices [OF b(1)] by (metis mset_set_set)
  then show ?thesis by (simp add: gather_eq [OF b])
qed

lemma gather_split:
  assumes "sized (length keys) b" "sized (length keys) k"
  shows "mset (gather (bm_and b (bm_not k)) keys) + mset (gather (bm_and b k) keys) = mset (gather b keys)"
proof -
  have s: "sized (length keys) (bm_and b (bm_not k))" "sized (length keys) (bm_and b k)" using assms by simp_all
  have "bits (bm_and b (bm_not k)) = bits b - bits k" "bits (bm_and b k) = bits b \<inter> bits k"
    using assms bits_subset [of b] by (auto simp: sized_bits sized_def)
  moreover have "mset_set (bits b - bits k) + mset_set (bits b \<inter> bits k) = mset_set (bits b)"
    by (subst mset_set_Union [symmetric]) (auto intro: arg_cong [of _ _ mset_set])
  ultimately show ?thesis unfolding mset_gather [OF s(1)] mset_gather [OF s(2)] mset_gather [OF assms(1)]
    by (simp flip: image_mset_union)
qed

lemma gather_none: "sized (length keys) b \<Longrightarrow> bits b = {} \<Longrightarrow> gather b keys = []"
  using mset_gather by fastforce

lemma mset_part: "U + V \<subseteq># H \<Longrightarrow> U \<subseteq># H \<and> H - U = H - (U + V) + V"
proof -
  assume "U + V \<subseteq># H"
  then obtain W where "H = U + V + W" by (metis mset_subset_eq_exists_conv)
  then show ?thesis by (simp add: add.assoc)
qed

context l2_read_contract
begin

lemma poll_load_inv:
  "hoare (\<lambda>s. tracked_inv read_ok A pc0 r PLAN_AND_LOAD s \<and> distinct (i # rest) \<and>
       set (i # rest) \<subseteq> dict_dom (rq_pending_load_tasks (snd (snd s))))
     (poll_load ops signaled i)
     (\<lambda>_ s. tracked_inv read_ok A pc0 r PLAN_AND_LOAD s \<and> distinct rest \<and> set rest \<subseteq> dict_dom (rq_pending_load_tasks (snd (snd s))))
     (tracked_inv read_ok A pc0 r PLAN_AND_LOAD)"
proof (rule hoareI)
  fix s :: "'a pf_state"
  assume s: "tracked_inv read_ok A pc0 r PLAN_AND_LOAD s \<and> distinct (i # rest) \<and> set (i # rest) \<subseteq> dict_dom (rq_pending_load_tasks (snd (snd s)))"
  obtain pc l1 rq where st: "s = (pc, l1, rq)" by (metis prod_cases3)
  have inv: "handler_inv read_ok A pc0 r (pc, l1, rq)" and tab: "r \<in> dict_dom (pc_in_flight_requests pc)" "rq_phase rq = PLAN_AND_LOAD"
    using s by (simp_all add: tracked_inv_def st)
  note D = handler_invD [OF inv] and Q = req_okD [OF handler_invD(6) [OF inv]]
  obtain t where t: "map_of (rq_pending_load_tasks rq) i = Some t" using s by (auto simp: st dict_dom_iff)
  have "i \<in> dict_dom (rq_pending_load_tasks rq)" using t by (simp add: dict_dom_iff)
  then have "i \<in> dict_dom (pc_l2_adapters pc)" using Q(10,13) D(3) by blast
  then obtain a where a: "map_of (pc_l2_adapters pc) i = Some a" by (auto simp: dict_dom_iff)
  have q: "reqs pc rq r = Some rq" using D(1) tab by (simp add: reqs_eq)
  note led = ledger_okD(2) [OF D(7) a]
  obtain ks where tk: "loads_at (reqs pc rq) i r = Some (t, ks)" using tasks_at_Some(2) [of "reqs pc rq", OF q, of i] t by (simp add: load_of_def)
  note held = held_upd(2) [OF ledger_okD(1) [OF D(7)] q, of i]
  show "outcome (\<lambda>_ s. tracked_inv read_ok A pc0 r PLAN_AND_LOAD s \<and> distinct rest \<and> set rest \<subseteq> dict_dom (rq_pending_load_tasks (snd (snd s))))
      (tracked_inv read_ok A pc0 r PLAN_AND_LOAD) (poll_load ops signaled i s)"
  proof (cases "i \<in> set signaled")
    case False
    then show ?thesis using s by (auto simp: poll_load_def st)
  next
    case sig: True
    obtain a' res where qr: "query_load_result ops t a = (a', res)" by fastforce
    let ?pc' = "pc\<lparr>pc_l2_adapters := dict_set i a' (pc_l2_adapters pc)\<rparr>"
    show ?thesis
    proof (cases res)
      case None
      have "adapter_led read_ok a' (lookups_at (reqs pc rq) i) (loads_at (reqs pc rq) i) (held_at (reqs pc rq) i)"
        using led_query_load_None [OF led] qr None by blast
      then have "handler_inv read_ok A pc0 r (?pc', l1, rq)"
        using held tasks_at_Some(1,2) [of "reqs pc rq", OF q, of i]
        by (intro adapter_step [OF inv tab(1) _ D(1,6) _ a]) (simp_all add: fun_upd_idem)
      then show ?thesis using s sig t a qr None by (auto simp: poll_load_def st tracked_inv_def)
    next
      case (Some bm)
      let ?rq' = "rq\<lparr>rq_load_results := dict_set i bm (rq_load_results rq),
          rq_pending_load_tasks := dict_del i (rq_pending_load_tasks rq), rq_load_bytes := dict_del i (rq_load_bytes rq)\<rparr>"
      have led': "adapter_led read_ok a' (lookups_at (reqs pc rq) i) ((loads_at (reqs pc rq) i)(r := None)) (held_at (reqs pc rq) i)"
        using led_query_load_Some(2) [OF led _ tk] qr Some by blast
      have rq': "req_ok A ?rq'" using Q tab(2) unfolding req_ok_def by (auto simp: dict_dom_iff)
      have "handler_inv read_ok A pc0 r (pc'', l1, ?rq')" if "pc_core pc'' = pc_core ?pc'" for pc''
        using led' held tasks_at_Some(1) [of "reqs pc rq", OF q, of i] D(1) rq' that
        by (intro adapter_step [OF inv tab(1) _ _ _ _ a]) (auto simp: lookup_of_def load_of_def held_keys_def fun_upd_idem)
      moreover have "set rest \<subseteq> dict_dom (dict_del i (rq_pending_load_tasks rq))" using s by (auto simp: st)
      ultimately show ?thesis using s sig t a qr Some
        by (auto simp: poll_load_def st tracked_inv_def pc_publish_def pc_core_def Let_def split: option.splits)
    qed
  qed
qed

definition release_loop where
  "release_loop A pc0 r ph keep rest s \<longleftrightarrow> tracked_inv read_ok A pc0 r ph s \<and> plan_ok (length (rq_keys (snd (snd s)))) keep \<and>
     distinct (map fst rest) \<and> (\<forall>(i, b) \<in> set rest. map_of (rq_l2_readlocks (snd (snd s))) i = Some b) \<and>
     dict_dom (rq_l2_readlocks (snd (snd s))) \<subseteq> fst ` set rest \<union> dict_dom keep"

lemma release_one_inv:
  "hoare (\<lambda>s. release_loop A pc0 r ph keep (x # rest) s \<and> P (rq_core ((snd (snd s))\<lparr>rq_l2_readlocks := []\<rparr>))) (release_one ops keep x)
     (\<lambda>_ s. release_loop A pc0 r ph keep rest s \<and> P (rq_core ((snd (snd s))\<lparr>rq_l2_readlocks := []\<rparr>))) E"
proof (rule hoare_total)
  fix s :: "'a pf_state"
  assume s: "release_loop A pc0 r ph keep (x # rest) s \<and> P (rq_core ((snd (snd s))\<lparr>rq_l2_readlocks := []\<rparr>))"
  obtain pc l1 rq where st: "s = (pc, l1, rq)" by (metis prod_cases3)
  obtain i b where x: "x = (i, b)" by fastforce
  let ?n = "length (rq_keys rq)"
  have inv: "handler_inv read_ok A pc0 r (pc, l1, rq)" and tab: "r \<in> dict_dom (pc_in_flight_requests pc)" "rq_phase rq = ph"
    and b: "map_of (rq_l2_readlocks rq) i = Some b" and ri: "i \<notin> fst ` set rest" and keep: "plan_ok ?n keep"
    and rest: "\<forall>(i, b) \<in> set rest. map_of (rq_l2_readlocks rq) i = Some b" "distinct (map fst rest)"
    and dom: "dict_dom (rq_l2_readlocks rq) \<subseteq> insert i (fst ` set rest \<union> dict_dom keep)"
    using s by (auto simp: release_loop_def tracked_inv_def st x)
  note D = handler_invD [OF inv] and Q = req_okD [OF handler_invD(6) [OF inv]]
  define kb where "kb = dict_get_default keep i (new_bitmap ?n)"
  have sz: "sized ?n b" "sized ?n kb" using plan_okD [OF Q(4) b] plan_okD [OF keep, of i] by (auto simp: kb_def dict_get_default_def split: option.splits)
  define un where "un = gather (bm_and b (bm_not kb)) (rq_keys rq)"
  define rm where "rm = bm_and b kb"
  have rm: "sized ?n rm" using sz by (simp add: rm_def)
  let ?rq' = "rq\<lparr>rq_l2_readlocks := (if popcount rm = 0 then dict_del i (rq_l2_readlocks rq) else dict_set i rm (rq_l2_readlocks rq))\<rparr>"
  have "i \<in> dict_dom (rq_l2_readlocks rq)" using b by (simp add: dict_dom_iff)
  then have bd: "i \<in> dict_dom (rq_l2_readlocks rq)" "i \<in> dict_dom (rq_lookup_results rq)" using Q(9) by blast+
  have h: "held_keys i rq = mset (gather b (rq_keys rq))" by (rule held_keys_simps(2) [OF b])
  have h': "held_keys i ?rq' = mset (gather rm (rq_keys rq))"
    using gather_none [OF rm] by (auto simp: held_keys_def sized_bits(4) [OF rm])
  have split: "mset un + mset (gather rm (rq_keys rq)) = mset (gather b (rq_keys rq))"
    using gather_split [OF sz] by (simp add: un_def rm_def)
  have "dict_dom (rq_l2_readlocks ?rq') \<subseteq> dict_dom (rq_lookup_results rq)" using Q(9) bd by auto
  moreover have "plan_ok ?n (rq_l2_readlocks ?rq')" using Q(4) rm by simp
  ultimately have rq': "req_ok A ?rq'" using Q unfolding req_ok_def by simp
  have "i \<in> dict_dom (pc_l2_adapters pc)" using Q(12) D(3) bd(2) by blast
  then obtain a where a: "map_of (pc_l2_adapters pc) i = Some a" by (auto simp: dict_dom_iff)
  have q: "reqs pc rq r = Some rq" using D(1) tab by (simp add: reqs_eq)
  note led = ledger_okD(2) [OF D(7) a] and sub = held_upd(2) [OF ledger_okD(1) [OF D(7)] q, of i]
  have eq: "held_at (reqs pc rq) i - mset un = held_at (reqs pc rq) i - held_keys i rq + held_keys i ?rq'"
    using mset_part [OF sub [unfolded h split [symmetric]]] unfolding h h' split [symmetric] by (rule conjunct2)
  have un_sub: "mset un \<subseteq># held_at (reqs pc rq) i" using mset_part [OF sub [unfolded h split [symmetric]]] by (rule conjunct1)
  note same = tasks_at_Some(1,2) [of "reqs pc rq", OF q]
  have step: "handler_inv read_ok A pc0 r (pc\<lparr>pc_l2_adapters := dict_set i a' (pc_l2_adapters pc)\<rparr>, l1, ?rq')"
    if "adapter_led read_ok a' (lookups_at (reqs pc rq) i) (loads_at (reqs pc rq) i) (held_at (reqs pc rq) i - mset un)" for a'
    using that rq' D(1) same unfolding eq
    by (intro adapter_step [OF inv tab(1) _ _ _ _ a]) (auto simp: lookup_of_def load_of_def held_keys_def fun_upd_idem)
  have post: "release_loop A pc0 r ph keep rest (pc', l1, ?rq')"
    if "handler_inv read_ok A pc0 r (pc', l1, ?rq')" "pc_in_flight_requests pc' = pc_in_flight_requests pc" for pc'
  proof -
    have "i \<in> dict_dom keep" if "popcount rm \<noteq> 0"
    proof (rule ccontr)
      assume "i \<notin> dict_dom keep"
      then have "kb = new_bitmap ?n" by (simp add: kb_def dict_get_default_def dict_dom_iff)
      then have "bits rm = {}" using sized_bits(1) [OF sz] by (simp add: rm_def)
      then show False using that sized_bits(4) [OF rm] by simp
    qed
    then have "dict_dom (rq_l2_readlocks ?rq') \<subseteq> fst ` set rest \<union> dict_dom keep" using dom by auto
    moreover have "\<forall>(j, c) \<in> set rest. map_of (rq_l2_readlocks ?rq') j = Some c"
    proof safe
      fix j c assume jc: "(j, c) \<in> set rest"
      then have "j \<noteq> i" using ri by (metis fst_conv image_eqI)
      then show "map_of (rq_l2_readlocks ?rq') j = Some c" using rest(1) jc by auto
    qed
    ultimately show ?thesis using that tab rest(2) keep by (simp add: release_loop_def tracked_inv_def)
  qed
  show "\<exists>s' y. release_one ops keep x s = (s', Inr y) \<and> release_loop A pc0 r ph keep rest s' \<and> P (rq_core ((snd (snd s'))\<lparr>rq_l2_readlocks := []\<rparr>))"
  proof (cases "un = []")
    case True
    have "pc\<lparr>pc_l2_adapters := dict_set i a (pc_l2_adapters pc)\<rparr> = pc" using a by (simp add: update_triv)
    then have "handler_inv read_ok A pc0 r (pc, l1, ?rq')" using step [of a] led True by simp
    then have "release_one ops keep x s = ((pc, l1, ?rq'), Inr ())" "release_loop A pc0 r ph keep rest (pc, l1, ?rq')"
      using True post by (simp_all add: release_one_def st x Let_def un_def rm_def kb_def)
    then show ?thesis using s by (auto simp: st rq_core_def)
  next
    case False
    let ?a' = "submit_unlock ops un a"
    have "handler_inv read_ok A pc0 r (pc\<lparr>pc_l2_adapters := dict_set i ?a' (pc_l2_adapters pc)\<rparr>, l1, ?rq')"
      using step led_unlock [OF led un_sub] by blast
    moreover have "release_one ops keep x s = ((pc\<lparr>pc_l2_adapters := dict_set i ?a' (pc_l2_adapters pc)\<rparr>, l1, ?rq'), Inr ())"
      using False a by (simp add: release_one_def st x Let_def un_def rm_def kb_def)
    ultimately show ?thesis using post s by (auto simp: st rq_core_def)
  qed
qed

end

context l2_read_contract
begin

lemma release_tracked:
  "hoare (\<lambda>s. tracked_inv read_ok A pc0 r ph s \<and> plan_ok (length (rq_keys (snd (snd s)))) keep \<and> P (rq_core ((snd (snd s))\<lparr>rq_l2_readlocks := []\<rparr>)))
     (release_l2_locks ops keep)
     (\<lambda>_ s. tracked_inv read_ok A pc0 r ph s \<and> dict_dom (rq_l2_readlocks (snd (snd s))) \<subseteq> dict_dom keep \<and>
        P (rq_core ((snd (snd s))\<lparr>rq_l2_readlocks := []\<rparr>))) E"
proof -
  let ?I = "\<lambda>rest s. release_loop A pc0 r ph keep rest s \<and> P (rq_core ((snd (snd s))\<lparr>rq_l2_readlocks := []\<rparr>))"
  have eq: "release_l2_locks ops keep = (\<lambda>s. for_each (release_one ops keep) (rq_l2_readlocks (snd (snd s))) s)"
    by (auto simp: release_l2_locks_def split: prod.splits)
  show ?thesis
    unfolding eq
  proof (rule hoare_state [where f = "\<lambda>s0. for_each (release_one ops keep) (rq_l2_readlocks (snd (snd s0)))"])
    fix s :: "'a pf_state"
    assume s: "tracked_inv read_ok A pc0 r ph s \<and> plan_ok (length (rq_keys (snd (snd s)))) keep \<and> P (rq_core ((snd (snd s))\<lparr>rq_l2_readlocks := []\<rparr>))"
    obtain pc l1 rq where st: "s = (pc, l1, rq)" by (metis prod_cases3)
    have "plan_ok (length (rq_keys rq)) (rq_l2_readlocks rq)" using s req_okD(4) handler_invD(6) unfolding st tracked_inv_def by blast
    then have "?I (rq_l2_readlocks rq) s"
      using s dict_wf_map_of_eq [of "rq_l2_readlocks rq"] by (auto simp: st release_loop_def plan_ok_def dict_wf_def dict_dom_def)
    from hoare_from [OF hoare_for_each [of ?I "release_one ops keep" E, OF release_one_inv] this]
    show "hoare (\<lambda>x. x = s) (for_each (release_one ops keep) (rq_l2_readlocks (snd (snd s))))
      (\<lambda>_ s. tracked_inv read_ok A pc0 r ph s \<and> dict_dom (rq_l2_readlocks (snd (snd s))) \<subseteq> dict_dom keep \<and>
        P (rq_core ((snd (snd s))\<lparr>rq_l2_readlocks := []\<rparr>))) E"
      unfolding st snd_conv by (rule hoare_weaken) (simp_all add: release_loop_def)
  qed
qed

text \<open>Returning every lock, for a request of the table or a new one that holds none.\<close>

lemma release_all:
  "hoare (\<lambda>s. handler_inv read_ok A pc0 r s \<and> settled (snd (snd s))) (release_l2_locks ops [])
     (\<lambda>_ s. handler_inv read_ok A pc0 r s \<and> idle (snd (snd s))) E"
proof -
  let ?Q = "\<lambda>_ s. handler_inv read_ok A pc0 r s \<and> idle (snd (snd s))"
  let ?T = "\<lambda>ph s. tracked_inv read_ok A pc0 r ph s \<and> settled (snd (snd s))"
  have T: "hoare (?T ph) (release_l2_locks ops []) ?Q E" for ph
    using release_tracked [of A pc0 r ph "[]" settled E]
    by (rule hoare_weaken) (auto simp: tracked_inv_def idle_def settled_def rq_core_def dict_dom_def)
  have U: "hoare (\<lambda>s. handler_inv read_ok A pc0 r s \<and> idle (snd (snd s))) (release_l2_locks ops []) ?Q E"
    by (rule hoare_total) (auto simp: release_l2_locks_def idle_def split: prod.splits)
  show ?thesis
  proof (rule hoare_case [OF hoare_case [OF T [of PHASE_LOOKUP] T [of PLAN_AND_LOAD]] U])
    fix s :: "'a pf_state"
    assume s: "handler_inv read_ok A pc0 r s \<and> settled (snd (snd s))"
    obtain pc l1 rq where st: "s = (pc, l1, rq)" by (metis prod_cases3)
    show "(?T PHASE_LOOKUP s \<or> ?T PLAN_AND_LOAD s) \<or> handler_inv read_ok A pc0 r s \<and> idle (snd (snd s))"
      using s handler_invD(9) [of read_ok A pc0 r pc l1 rq] unfolding st
      by (cases "rq_phase rq") (auto simp: tracked_inv_def)
  qed simp
qed

lemma complete_tracked_inv:
  "hoare (\<lambda>s. handler_inv read_ok A pc0 r s \<and> idle (snd (snd s))) (complete_tracked retained)
     (\<lambda>_ s. handler_inv read_ok A pc0 r s \<and> idle (snd (snd s)) \<and> r \<notin> dict_dom (pc_in_flight_requests (fst s)) \<and>
        r \<in> dict_dom (pc_completed_results (fst s))) E"
proof (rule hoare_total)
  fix s :: "'a pf_state"
  assume s: "handler_inv read_ok A pc0 r s \<and> idle (snd (snd s))"
  obtain pc l1 rq where st: "s = (pc, l1, rq)" by (metis prod_cases3)
  let ?pc' = "complete_request r retained (store_request pc rq)"
  have inv: "handler_inv read_ok A pc0 r (pc, l1, rq)" and idle: "idle rq" using s by (simp_all add: st)
  note D = handler_invD [OF inv]
  have res: "pc_completed_results ?pc' = dict_set r retained (pc_completed_results pc)"
    by (auto simp: complete_request_def store_request_def Let_def split: option.splits prefetch_phase.splits)
  have "handler_inv read_ok A pc0 r (?pc', l1, rq) \<and> r \<notin> dict_dom (pc_in_flight_requests ?pc')"
  proof (cases "r \<in> dict_dom (pc_in_flight_requests pc)")
    case False
    then have "?pc' = pc\<lparr>pc_completed_results := dict_set r retained (pc_completed_results pc)\<rparr>"
      using D(1) by (auto simp: complete_request_def store_request_def dict_dom_iff)
    then show ?thesis using D False by (auto simp: handler_inv_def reqs_eq counts_ok_def rest_of_def)
  next
    case True
    have q: "reqs pc rq r = Some rq" using D(1) True by (simp add: reqs_eq)
    have tab: "pc_in_flight_requests ?pc' = dict_del r (pc_in_flight_requests pc)"
      using True D(1) by (simp add: Let_def complete_request_def store_request_def AList.delete_update_same split: prefetch_phase.splits)
    have same: "pc_l2_adapters ?pc' = pc_l2_adapters pc" "pc_policy ?pc' = pc_policy pc" "rest_of r ?pc' = rest_of r pc"
      using True D(1) by (simp_all add: Let_def complete_request_def store_request_def rest_of_def AList.delete_update_same split: prefetch_phase.splits)
    have R: "reqs ?pc' rq = (reqs pc rq)(r := None)" using D(1) tab True by (auto simp: reqs_eq)
    have "card (dom ((reqs pc rq)(r := None))) = card (dom (reqs pc rq)) - 1" "card (dom (reqs pc rq)) \<noteq> 0"
      using q ledger_okD(1) [OF D(7)] by (auto simp: domI)
    then have "counts_ok ?pc' ((reqs pc rq)(r := None))"
      using D(8,1) True phase_upd(2) [OF ledger_okD(1) [OF D(7)] q]
      by (auto simp: Let_def counts_ok_def complete_request_def store_request_def split: prefetch_phase.splits)
    then show ?thesis using D idle ledger_drop [OF D(7) q idle] tab same R res by (auto simp: handler_inv_def)
  qed
  then show "\<exists>s' x. complete_tracked retained s = (s', Inr x) \<and> handler_inv read_ok A pc0 r s' \<and> idle (snd (snd s')) \<and>
      r \<notin> dict_dom (pc_in_flight_requests (fst s')) \<and> r \<in> dict_dom (pc_completed_results (fst s'))"
    using idle D(1) res by (simp add: complete_tracked_def st)
qed

lemma idle_quiet:
  assumes "quiet f" "never_raises f"
  shows "hoare (\<lambda>s. handler_inv read_ok A pc0 r s \<and> idle (snd (snd s))) f (\<lambda>_ s. handler_inv read_ok A pc0 r s \<and> idle (snd (snd s))) E"
  by (rule hoare_never [OF assms(2)])
    (use quiet_inv [OF assms(1), of read_ok A pc0 r "\<lambda>rq _. idle rq"] in \<open>simp add: idle_def settled_def rq_core_def\<close>)

text \<open>A request whose tasks are done is completed; without the kernels it may be left in the table.\<close>

lemma finish_request_inv:
  "hoare (\<lambda>s. handler_inv read_ok A pc0 r s \<and> settled (snd (snd s))) (finish_request kernels sl ops now)
     (\<lambda>_ s. handler_inv read_ok A pc0 r s \<and> idle (snd (snd s)) \<and> r \<notin> dict_dom (pc_in_flight_requests (fst s)) \<and>
        r \<in> dict_dom (pc_completed_results (fst s)))
     (\<lambda>s. handler_inv read_ok A pc0 r s \<and> idle (snd (snd s)) \<and> \<not> kernels)"
proof -
  let ?P = "\<lambda>s. handler_inv read_ok A pc0 r s \<and> settled (snd (snd s))"
  let ?I = "\<lambda>s. handler_inv read_ok A pc0 r s \<and> idle (snd (snd s))"
  let ?E = "\<lambda>s. handler_inv read_ok A pc0 r s \<and> idle (snd (snd s)) \<and> \<not> kernels"
  let ?Q = "\<lambda>_ s. handler_inv read_ok A pc0 r s \<and> idle (snd (snd s)) \<and> r \<notin> dict_dom (pc_in_flight_requests (fst s)) \<and>
      r \<in> dict_dom (pc_completed_results (fst s))"
  note seq = hoare_seq_Cons [OF release_all] hoare_seq_Cons [OF idle_quiet] hoare_seq_Cons [OF complete_tracked_inv] hoare_seq_Nil
  have steps: "hoare ?P (finish_steps kernels sl ops now rq) ?Q ?E" if w: "whole_chunks (length (rq_keys rq)) (rq_attn_desc rq)" for rq
    unfolding finish_steps_def Let_def
  proof (rule hoare_bind)
    show "hoare ?P (py_seq [release_l2_locks ops [], make_ready now (gather (scatter_results rq) (rq_keys rq)),
          discard_failed sl now (filter (\<lambda>k. k \<notin> set (gather (scatter_results rq) (rq_keys rq))) (rq_write_reserved_keys rq)),
          pc_publish ev1, when_nonempty xs (pc_publish ev2)]) (\<lambda>_. ?I) ?E" for ev1 ev2 xs
      by (rule seq, (rule seq, simp, simp)+, rule seq)
    have tail: "hoare ?I (py_seq [release_unretained sl now b m, touch_retained m, report_unreported h, complete_tracked m]) ?Q ?E" for b m h
      by (rule seq, simp, simp, rule seq, simp, simp, rule seq, simp, simp, rule seq, rule seq)
    let ?res = "\<lambda>b. build_trim_mask kernels b (length (rq_keys rq)) (rq_policy rq) (rq_attn_desc rq)"
    show "hoare ?I (py_bind (py_lift (?res b))
        (\<lambda>(h, m). py_seq [release_unretained sl now b m, touch_retained m, report_unreported h, complete_tracked m])) ?Q ?E" for b
    proof (rule hoareI)
      fix s :: "'a pf_state" assume s: "?I s"
      show "outcome ?Q ?E (py_bind (py_lift (?res b))
          (\<lambda>(h, m). py_seq [release_unretained sl now b m, touch_retained m, report_unreported h, complete_tracked m]) s)"
      proof (cases "?res b")
        case (Inl e)
        then have "\<not> kernels" using trim_mask_total [OF w, of b "rq_policy rq"] by (cases kernels) auto
        then show ?thesis using s Inl by (simp add: py_bind_def py_lift_def)
      next
        case (Inr x)
        then show ?thesis using hoareD [OF tail s] by (cases x) (simp add: py_bind_def py_lift_def)
      qed
    qed
  qed
  show ?thesis
  proof (rule hoareI)
    fix s :: "'a pf_state" assume s: "?P s"
    obtain pc l1 rq where st: "s = (pc, l1, rq)" by (metis prod_cases3)
    have "whole_chunks (length (rq_keys rq)) (rq_attn_desc rq)" using s req_okD(7) [OF handler_invD(6)] unfolding st by blast
    from hoareD [OF steps [OF this] s] show "outcome ?Q ?E (finish_request kernels sl ops now s)" by (simp add: finish_request_def st)
  qed
qed

end

lemma record_write_core:
  "rq_core (fst (foldl record_write acc rs)) = rq_core (fst acc) \<and>
   rq_l1_readlocks (fst (foldl record_write acc rs)) = rq_l1_readlocks (fst acc)"
proof (induction rs arbitrary: acc)
  case (Cons x rs)
  have "rq_core (fst (record_write acc x)) = rq_core (fst acc)" "rq_l1_readlocks (fst (record_write acc x)) = rq_l1_readlocks (fst acc)"
    by (auto simp: record_write_def rq_core_def split: prod.splits l1_error.splits option.splits)
  then show ?case using Cons [of "record_write acc x"] by simp
qed simp

lemma quiet_bind:
  assumes "quiet f" "\<And>x. quiet (g x)"
  shows "quiet (py_bind f g)"
  unfolding quiet_def
proof (intro allI impI)
  fix pc :: "'a prefetch_controller" and l1 and rq :: in_flight_request
  assume sz: "sized (length (rq_keys rq)) (rq_l1_readlocks rq)"
  obtain pc1 l11 rq1 res where f: "f (pc, l1, rq) = ((pc1, l11, rq1), res)" by (metis prod_cases4 prod.collapse)
  have 1: "pc_core pc1 = pc_core pc" "rq_core rq1 = rq_core rq" "sized (length (rq_keys rq)) (rq_l1_readlocks rq1)"
    using assms(1) [unfolded quiet_def, rule_format, OF sz, of pc l1] f by simp_all
  have k: "rq_keys rq1 = rq_keys rq" using rq_coreD(2) [OF 1(2)] .
  show "case fst (py_bind f g (pc, l1, rq)) of (pc', l1', rq') \<Rightarrow> pc_core pc' = pc_core pc \<and> rq_core rq' = rq_core rq \<and>
      sized (length (rq_keys rq)) (rq_l1_readlocks rq')"
  proof (cases res)
    case (Inl e)
    then show ?thesis using f 1 by (simp add: py_bind_def)
  next
    case (Inr x)
    have "sized (length (rq_keys rq1)) (rq_l1_readlocks rq1)" using 1(3) k by simp
    from assms(2) [of x, unfolded quiet_def, rule_format, OF this, of pc1 l11] show ?thesis
      using f Inr 1 k by (auto simp: py_bind_def split: prod.splits)
  qed
qed

lemma quiet_return [simp]: "quiet (py_return x)"
  by (simp add: quiet_def py_return_def)

lemma quiet_reserve [simp]: "quiet (reserve_load_buffers sl now keys)"
  unfolding quiet_def
proof (intro allI impI)
  fix pc :: "'a prefetch_controller" and l1 and rq :: in_flight_request
  assume sz: "sized (length (rq_keys rq)) (rq_l1_readlocks rq)"
  define rets where "rets = (if rq_mode rq = WARM then replicate (length keys) True else select_l1_retentions (pc_policy pc) keys)"
  define rmap where "rmap = foldl (\<lambda>d (k, v). dict_set k v d) [] (zip keys rets)"
  obtain l1' wr res where fe: "for_each (reserve_group sl now rmap (rq_group_layout_descs rq))
      (groupby_gid (sort_key object_group_id keys)) (l1, []) = ((l1', wr), res)" by (metis surj_pair)
  obtain rq' reserved oom con where rw: "foldl record_write (rq, [], [], []) wr = (rq', reserved, oom, con)" by (metis prod_cases4)
  have core: "rq_core rq' = rq_core rq" "rq_l1_readlocks rq' = rq_l1_readlocks rq" using record_write_core [of "(rq, [], [], [])" wr] rw by simp_all
  have k: "rq_keys rq' = rq_keys rq" using rq_coreD(2) [OF core(1)] .
  have q: "quiet (py_bind (when_nonempty oom (py_bind (pc_publish (L1_ALLOCATION_FAILED oom)) (\<lambda>_. pc_publish (L2_PREFETCH_FAILED ''l1_oom'' oom))))
      (\<lambda>_. py_bind (when_nonempty con (pc_publish (L2_PREFETCH_FAILED ''l1_contended'' con))) (\<lambda>_. py_return reserved)))"
    (is "quiet ?f") by (intro quiet_bind) (simp_all add: quiet_bind)
  have sz': "sized (length (rq_keys rq')) (rq_l1_readlocks rq')" using sz core k by simp
  have "case fst (?f (pc, l1', rq')) of (pc', l1'', rq'') \<Rightarrow> pc_core pc' = pc_core pc \<and> rq_core rq'' = rq_core rq \<and>
      sized (length (rq_keys rq)) (rq_l1_readlocks rq'')"
    using q [unfolded quiet_def, rule_format, OF sz', of pc l1'] core k by (auto split: prod.splits)
  then show "case fst (reserve_load_buffers sl now keys (pc, l1, rq)) of (pc', l1', rq') \<Rightarrow> pc_core pc' = pc_core pc \<and>
      rq_core rq' = rq_core rq \<and> sized (length (rq_keys rq)) (rq_l1_readlocks rq')"
    using sz fe rw by (cases res) (simp_all add: reserve_load_buffers_def Let_def rets_def [symmetric] rmap_def [symmetric])
qed

lemma release_stale_inv:
  "hoare (\<lambda>s. tracked_inv read_ok A pc0 r ph s \<and> sized (length (rq_keys (snd (snd s)))) m \<and> sized (length (rq_keys (snd (snd s)))) f \<and>
       P (rq_core (snd (snd s)))) (release_stale sl now m f)
     (\<lambda>_ s. tracked_inv read_ok A pc0 r ph s \<and> P (rq_core (snd (snd s)))) E"
proof (rule hoare_total)
  fix s :: "'a pf_state"
  assume s: "tracked_inv read_ok A pc0 r ph s \<and> sized (length (rq_keys (snd (snd s)))) m \<and> sized (length (rq_keys (snd (snd s)))) f \<and> P (rq_core (snd (snd s)))"
  obtain pc l1 rq where st: "s = (pc, l1, rq)" by (metis prod_cases3)
  have inv: "handler_inv read_ok A pc0 r (pc, l1, rq)" using s by (simp add: st tracked_inv_def)
  have sz: "sized (length (rq_keys rq)) (rq_l1_readlocks rq)" using req_okD(6) [OF handler_invD(6) [OF inv]] .
  have "handler_inv read_ok A pc0 r (pc, l1', rq\<lparr>rq_l1_readlocks := bm_and (rq_l1_readlocks rq) (bm_or m f)\<rparr>)" for l1'
    by (rule keep_inv [OF inv]) (use s sz in \<open>simp_all add: st rq_core_def\<close>)
  then show "\<exists>s' x. release_stale sl now m f s = (s', Inr x) \<and> tracked_inv read_ok A pc0 r ph s' \<and> P (rq_core (snd (snd s')))"
    using s by (auto simp: st release_stale_def Let_def tracked_inv_def rq_core_def)
qed

text \<open>Steps on the plan and the phase.\<close>

lemma set_load_plan_inv:
  "hoare (\<lambda>s. tracked_inv read_ok A pc0 r PLAN_AND_LOAD s \<and> settled (snd (snd s)) \<and>
       plan_ok (length (rq_keys (snd (snd s)))) plan \<and> dict_dom plan \<subseteq> A) (set_load_plan plan)
     (\<lambda>_ s. tracked_inv read_ok A pc0 r PLAN_AND_LOAD s \<and> settled (snd (snd s)) \<and> rq_load_plan (snd (snd s)) = plan \<and>
        plan_ok (length (rq_keys (snd (snd s)))) plan) E"
proof (rule hoare_total)
  fix s :: "'a pf_state"
  assume s: "tracked_inv read_ok A pc0 r PLAN_AND_LOAD s \<and> settled (snd (snd s)) \<and> plan_ok (length (rq_keys (snd (snd s)))) plan \<and> dict_dom plan \<subseteq> A"
  obtain pc l1 rq where st: "s = (pc, l1, rq)" by (metis prod_cases3)
  have inv: "handler_inv read_ok A pc0 r (pc, l1, rq)" and tab: "r \<in> dict_dom (pc_in_flight_requests pc)" "rq_phase rq = PLAN_AND_LOAD"
    and se: "rq_pending_load_tasks rq = []" using s by (simp_all add: tracked_inv_def st settled_def)
  note D = handler_invD [OF inv] and Q = req_okD [OF handler_invD(6) [OF inv]]
  let ?rq' = "rq\<lparr>rq_load_plan := plan\<rparr>"
  have q: "reqs pc rq r = Some rq" and R: "reqs pc ?rq' = (reqs pc rq)(r \<mapsto> ?rq')" using D(1) tab by (simp_all add: reqs_eq)
  have rq': "req_ok A ?rq'" using Q s tab se unfolding req_ok_def st by (simp add: dict_dom_def)
  have "ledger_ok read_ok (pc_l2_adapters pc) ((reqs pc rq)(r \<mapsto> ?rq'))"
    using D(1,3) rq' by (intro ledger_same [OF D(7) q]) (simp_all add: lookup_of_def load_of_def held_keys_def se)
  moreover have "counts_ok pc ((reqs pc rq)(r \<mapsto> ?rq'))" by (rule counts_same [OF D(8) ledger_okD(1) [OF D(7)] q]) simp
  ultimately have "handler_inv read_ok A pc0 r (pc, l1, ?rq')" using D rq' tab R by (simp add: handler_inv_def)
  then show "\<exists>s' x. set_load_plan plan s = (s', Inr x) \<and> tracked_inv read_ok A pc0 r PLAN_AND_LOAD s' \<and> settled (snd (snd s')) \<and>
      rq_load_plan (snd (snd s')) = plan \<and> plan_ok (length (rq_keys (snd (snd s')))) plan"
    using s by (simp add: st set_load_plan_def tracked_inv_def settled_def)
qed

lemma enter_load_phase_inv:
  "hoare (\<lambda>s. tracked_inv read_ok A pc0 r PHASE_LOOKUP s \<and> all_lookups_done (snd (snd s))) enter_load_phase
     (\<lambda>_ s. tracked_inv read_ok A pc0 r PLAN_AND_LOAD s \<and> settled (snd (snd s))) E"
proof (rule hoare_total)
  fix s :: "'a pf_state"
  assume s: "tracked_inv read_ok A pc0 r PHASE_LOOKUP s \<and> all_lookups_done (snd (snd s))"
  obtain pc l1 rq where st: "s = (pc, l1, rq)" by (metis prod_cases3)
  have inv: "handler_inv read_ok A pc0 r (pc, l1, rq)" and tab: "r \<in> dict_dom (pc_in_flight_requests pc)" "rq_phase rq = PHASE_LOOKUP"
    and se: "rq_pending_lookup_tasks rq = []" using s by (simp_all add: tracked_inv_def st all_lookups_done_def)
  note D = handler_invD [OF inv] and Q = req_okD [OF handler_invD(6) [OF inv]]
  let ?rq' = "rq\<lparr>rq_phase := PLAN_AND_LOAD\<rparr>"
  let ?pc' = "pc\<lparr>pc_status_lookup_phase_count := pc_status_lookup_phase_count pc - 1, pc_status_load_phase_count := pc_status_load_phase_count pc + 1\<rparr>"
  have q: "reqs pc rq r = Some rq" and R: "reqs ?pc' ?rq' = (reqs pc rq)(r \<mapsto> ?rq')" using D(1) tab by (simp_all add: reqs_eq)
  have rq': "req_ok A ?rq'" using Q tab se unfolding req_ok_def by simp
  have "ledger_ok read_ok (pc_l2_adapters pc) ((reqs pc rq)(r \<mapsto> ?rq'))"
    using D(1,3) rq' by (intro ledger_same [OF D(7) q]) (simp_all add: lookup_of_def load_of_def held_keys_def)
  moreover have "dom ((reqs pc rq)(r \<mapsto> ?rq')) = dom (reqs pc rq)" using q by auto
  then have "counts_ok ?pc' ((reqs pc rq)(r \<mapsto> ?rq'))"
    using D(8) phase_upd(1) [OF ledger_okD(1) [OF D(7)] q] tab by (simp add: counts_ok_def)
  moreover have "rest_of r ?pc' = rest_of r pc" by (simp add: rest_of_def)
  ultimately have "handler_inv read_ok A pc0 r (?pc', l1, ?rq')" using D rq' tab R by (simp add: handler_inv_def)
  then show "\<exists>s' x. enter_load_phase s = (s', Inr x) \<and> tracked_inv read_ok A pc0 r PLAN_AND_LOAD s' \<and> settled (snd (snd s'))"
    using s Q(14) tab by (simp add: st enter_load_phase_def tracked_inv_def settled_def all_lookups_done_def)
qed

context l2_read_contract
begin

definition submit_loop where
  "submit_loop A pc0 r rest s \<longleftrightarrow> tracked_inv read_ok A pc0 r PLAN_AND_LOAD s \<and> distinct (map fst rest) \<and>
     (\<forall>(i, b) \<in> set rest. map_of (rq_load_plan (snd (snd s))) i = Some b \<and> i \<notin> dict_dom (rq_pending_load_tasks (snd (snd s))))"

lemma submit_load_inv:
  "hoare (submit_loop A pc0 r (x # rest)) (submit_load ops x) (\<lambda>_. submit_loop A pc0 r rest) (tracked_inv read_ok A pc0 r PLAN_AND_LOAD)"
proof (rule hoareI)
  fix s :: "'a pf_state"
  assume s: "submit_loop A pc0 r (x # rest) s"
  obtain pc l1 rq where st: "s = (pc, l1, rq)" by (metis prod_cases3)
  obtain i b where x: "x = (i, b)" by fastforce
  have inv: "handler_inv read_ok A pc0 r (pc, l1, rq)" and tr: "tracked_inv read_ok A pc0 r PLAN_AND_LOAD s"
    and tab: "r \<in> dict_dom (pc_in_flight_requests pc)" "rq_phase rq = PLAN_AND_LOAD"
    and b: "map_of (rq_load_plan rq) i = Some b" "i \<notin> dict_dom (rq_pending_load_tasks rq)" "i \<notin> fst ` set rest"
    using s by (simp_all add: submit_loop_def tracked_inv_def st x)
  note D = handler_invD [OF inv] and Q = req_okD [OF handler_invD(6) [OF inv]]
  have pd: "i \<in> dict_dom (rq_load_plan rq)" using b(1) by (simp add: dict_dom_iff)
  then have "i \<in> dict_dom (pc_l2_adapters pc)" using Q(13) D(3) by blast
  then obtain a where a: "map_of (pc_l2_adapters pc) i = Some a" by (auto simp: dict_dom_iff)
  have q: "reqs pc rq r = Some rq" using D(1) tab by (simp add: reqs_eq)
  note led = ledger_okD(2) [OF D(7) a] and sub = held_upd(2) [OF ledger_okD(1) [OF D(7)] q, of i]
  note same = tasks_at_Some(1,2) [of "reqs pc rq", OF q]
  have none: "map_of (rq_pending_load_tasks rq) i = None" using b(2) by (simp add: dict_dom_iff)
  let ?keys = "gather b (rq_keys rq)"
  let ?objs = "map (\<lambda>k. ta_heap (l1_memory l1) ! the (dict_get (rq_write_reserved_objs rq) k)) ?keys"
  obtain a' t where sl: "submit_load_task ops ?keys ?objs a = (a', t)" by fastforce
  let ?pc' = "pc\<lparr>pc_l2_adapters := dict_set i a' (pc_l2_adapters pc)\<rparr>"
  let ?rq' = "rq\<lparr>rq_pending_load_tasks := dict_set i t (rq_pending_load_tasks rq), rq_load_bytes := dict_set i (sum_list (map get_size ?objs)) (rq_load_bytes rq)\<rparr>"
  have "loads_at (reqs pc rq) i r = None" using same(2) [of i] none by (simp add: load_of_def)
  note led' = led_submit_load [OF led this sl]
  have "dict_dom (rq_pending_load_tasks ?rq') \<subseteq> dict_dom (rq_load_plan rq)" using Q(10) pd by auto
  then have rq': "req_ok A ?rq'" using Q tab(2) unfolding req_ok_def by simp
  have step: "handler_inv read_ok A pc0 r (pc'', l1, ?rq')" if "pc_core pc'' = pc_core ?pc'" for pc''
    using led' sub same(1) [of i] D(1) rq' that b(1)
    by (intro adapter_step [OF inv tab(1) _ _ _ _ a]) (auto simp: lookup_of_def load_of_def held_keys_def fun_upd_idem)
  have rest: "j \<noteq> i" if "(j, c) \<in> set rest" for j c using that b(3) by (metis fst_conv image_eqI)
  have post: "tracked_inv read_ok A pc0 r PLAN_AND_LOAD (pc'', l1, ?rq') \<and> submit_loop A pc0 r rest (pc'', l1, ?rq')"
    if "pc_core pc'' = pc_core ?pc'" for pc''
  proof -
    have "tracked_inv read_ok A pc0 r PLAN_AND_LOAD (pc'', l1, ?rq')"
      using step [OF that] tab pc_coreD(2) [OF that] by (simp add: tracked_inv_def)
    then show ?thesis using s rest unfolding submit_loop_def by (auto simp: st x)
  qed
  show "outcome (\<lambda>_. submit_loop A pc0 r rest) (tracked_inv read_ok A pc0 r PLAN_AND_LOAD) (submit_load ops x s)"
  proof (cases "list_ex (\<lambda>k. k \<notin> dict_dom (rq_write_reserved_objs rq)) ?keys")
    case True
    then show ?thesis using tr by (simp add: submit_load_def st x Let_def)
  next
    case False
    then have "submit_load ops x s = (case dict_get (pc_adapter_descriptors ?pc') i of
        None \<Rightarrow> ((?pc', l1, ?rq'), Inl KeyError)
      | Some desc \<Rightarrow> pc_publish (L2_LOAD_TASK_SUBMITTED (rq_request_id rq) i t (ad_type_name desc) (length ?keys) (sum_list (map get_size ?objs))) (?pc', l1, ?rq'))"
      using a sl by (simp add: submit_load_def st x Let_def)
    then show ?thesis using post [of ?pc']
        post [of "?pc'\<lparr>pc_events := pc_events pc @ [ev]\<rparr>" for ev]
      by (cases "dict_get (pc_adapter_descriptors ?pc') i") (simp_all add: pc_publish_def pc_core_def)
  qed
qed

lemma submit_load_tasks_inv:
  "hoare (\<lambda>s. tracked_inv read_ok A pc0 r PLAN_AND_LOAD s \<and> settled (snd (snd s)) \<and> rq_load_plan (snd (snd s)) = plan)
     (submit_load_tasks ops plan) (\<lambda>_. tracked_inv read_ok A pc0 r PLAN_AND_LOAD) (tracked_inv read_ok A pc0 r PLAN_AND_LOAD)"
proof (rule hoareI)
  fix s :: "'a pf_state"
  assume s: "tracked_inv read_ok A pc0 r PLAN_AND_LOAD s \<and> settled (snd (snd s)) \<and> rq_load_plan (snd (snd s)) = plan"
  obtain pc l1 rq where st: "s = (pc, l1, rq)" by (metis prod_cases3)
  have "plan_ok (length (rq_keys rq)) plan" using s req_okD(5) [OF handler_invD(6)] unfolding st tracked_inv_def by fastforce
  then have I: "submit_loop A pc0 r plan s"
    using s dict_wf_map_of_eq [of plan] by (auto simp: st submit_loop_def plan_ok_def dict_wf_def settled_def dict_dom_def)
  have "hoare (submit_loop A pc0 r plan) (py_bind (for_each (submit_load ops) plan) (\<lambda>_. pc_publish ev))
      (\<lambda>_. tracked_inv read_ok A pc0 r PLAN_AND_LOAD) (tracked_inv read_ok A pc0 r PLAN_AND_LOAD)" for ev
    by (rule hoare_bind [OF hoare_for_each [OF submit_load_inv]])
      (rule hoare_weaken [OF tracked_quiet [OF quiet_publish]], simp_all add: submit_loop_def)
  from hoareD [OF this I] show "outcome (\<lambda>_. tracked_inv read_ok A pc0 r PLAN_AND_LOAD) (tracked_inv read_ok A pc0 r PLAN_AND_LOAD) (submit_load_tasks ops plan s)"
    by (simp add: submit_load_tasks_def st Let_def)
qed

lemma finish_any:
  "hoare (\<lambda>s. handler_inv read_ok A pc0 r s \<and> settled (snd (snd s))) (finish_request kernels sl ops now)
     (\<lambda>_. handler_inv read_ok A pc0 r) (handler_inv read_ok A pc0 r)"
  by (rule hoare_weaken [OF finish_request_inv]) auto

lemma start_loads_inv:
  assumes "plan_ok (length keys) plan" "dict_dom plan \<subseteq> A"
  shows "hoare (\<lambda>s. tracked_inv read_ok A pc0 r PLAN_AND_LOAD s \<and> settled (snd (snd s)) \<and> rq_keys (snd (snd s)) = keys)
     (start_loads kernels sl ops now hit plan keys) (\<lambda>_. handler_inv read_ok A pc0 r) (handler_inv read_ok A pc0 r)"
proof -
  let ?E = "handler_inv read_ok A pc0 r"
  let ?P = "\<lambda>s. tracked_inv read_ok A pc0 r PLAN_AND_LOAD s \<and> settled (snd (snd s)) \<and> rq_keys (snd (snd s)) = keys"
  let ?S = "\<lambda>s. tracked_inv read_ok A pc0 r PLAN_AND_LOAD s \<and> settled (snd (snd s)) \<and> rq_load_plan (snd (snd s)) = plan"
  let ?T = "tracked_inv read_ok A pc0 r PLAN_AND_LOAD"
  have res: "hoare ?P (reserve_load_buffers sl now ks) (\<lambda>_. ?P) ?E" for ks
    by (rule hoare_weaken [OF quiet_inv [OF quiet_reserve, of read_ok A pc0 r
          "\<lambda>rq pc. r \<in> dict_dom (pc_in_flight_requests pc) \<and> rq_phase rq = PLAN_AND_LOAD \<and> settled rq \<and> rq_keys rq = keys"]])
      (auto simp: tracked_inv_def pc_core_def rq_core_def settled_def)
  have fin: "hoare ?P (finish_request kernels sl ops now) (\<lambda>_. ?E) ?E"
    by (rule hoare_weaken [OF finish_any]) (auto simp: tracked_inv_def)
  have 1: "hoare ?P (set_load_plan plan) (\<lambda>_ s. ?S s \<and> plan_ok (length (rq_keys (snd (snd s)))) plan) ?E"
    by (rule hoare_weaken [OF set_load_plan_inv [where plan = plan]]) (use assms in \<open>auto simp: tracked_inv_def\<close>)
  have 2: "hoare (\<lambda>s. ?S s \<and> plan_ok (length (rq_keys (snd (snd s)))) plan) (release_l2_locks ops plan) (\<lambda>_. ?S) ?E"
    by (rule hoare_weaken [OF release_tracked [where P = "\<lambda>rq. settled rq \<and> rq_load_plan rq = plan"]])
      (auto simp: rq_core_def settled_def tracked_inv_def)
  have 3: "hoare ?S (submit_load_tasks ops plan) (\<lambda>_. ?T) ?E"
    by (rule hoare_weaken [OF submit_load_tasks_inv [where plan = plan]]) (auto simp: tracked_inv_def)
  have 4: "hoare ?T (report_lookup_hit hit) (\<lambda>_. ?E) ?E"
    by (rule hoare_weaken [OF tracked_quiet [OF quiet_steps(5)]]) (auto simp: tracked_inv_def)
  have "hoare ?P (py_seq [set_load_plan plan, release_l2_locks ops plan, submit_load_tasks ops plan, report_lookup_hit hit]) (\<lambda>_. ?E) ?E"
    by (rule hoare_seq_Cons [OF 1 hoare_seq_Cons [OF 2 hoare_seq_Cons [OF 3 hoare_seq_Cons [OF 4 hoare_seq_Nil]]]])
  then show ?thesis unfolding start_loads_def Let_def by (intro hoare_bind [OF res]) (simp add: fin)
qed

lemma plan_loads_inv:
  "hoare (\<lambda>s. tracked_inv read_ok A pc0 r PLAN_AND_LOAD s \<and> settled (snd (snd s))) (plan_loads kernels sl ops now)
     (\<lambda>_. handler_inv read_ok A pc0 r) (handler_inv read_ok A pc0 r)"
proof (rule hoareI)
  fix s :: "'a pf_state"
  assume s: "tracked_inv read_ok A pc0 r PLAN_AND_LOAD s \<and> settled (snd (snd s))"
  obtain pc l1 rq where st: "s = (pc, l1, rq)" by (metis prod_cases3)
  let ?E = "handler_inv read_ok A pc0 r"
  let ?n = "length (rq_keys rq)"
  let ?P = "\<lambda>s. tracked_inv read_ok A pc0 r PLAN_AND_LOAD s \<and> settled (snd (snd s)) \<and> rq_keys (snd (snd s)) = rq_keys rq"
  have inv: "handler_inv read_ok A pc0 r (pc, l1, rq)" using s by (simp add: tracked_inv_def st)
  note D = handler_invD [OF inv] and Q = req_okD [OF handler_invD(6) [OF inv]]
  define plan where "plan = make_load_plan pc rq"
  let ?sel = "select_load_plan (pc_policy pc) (rq_keys rq) (rq_lookup_results rq) (pc_routing_descriptors pc)"
  have "plan_ok ?n ?sel" "dict_dom ?sel \<subseteq> dict_dom (rq_lookup_results rq)"
    using prefetch_policy_contract.plan_sized [OF D(10) Q(3)] prefetch_policy_contract.plan_attached [OF D(10)] by blast+
  then have plan: "plan_ok ?n plan" "dict_dom plan \<subseteq> A"
    using trim_plan_ok(1,3) [of ?n ?sel "bm_not (rq_l1_readlocks rq)"] Q(6,12) unfolding plan_def make_load_plan_def by auto
  have vals: "\<forall>b \<in> set (dict_values plan). sized ?n b" using plan_ok_set [OF plan(1)] by auto
  let ?union = "bm_or (merge_bitmaps (dict_values plan) ?n) (rq_l1_readlocks rq)"
  have union: "sized ?n ?union" using merge_sized [OF vals] Q(6) by simp
  have fin: "hoare ?P (finish_request kernels sl ops now) (\<lambda>_. ?E) ?E"
    by (rule hoare_weaken [OF finish_any]) (auto simp: tracked_inv_def)
  have loads: "hoare ?P (py_seq [release_stale sl now m f, start_loads kernels sl ops now h (trim_load_plan_with_mask plan m) (rq_keys rq)]) (\<lambda>_. ?E) ?E"
    if "sized ?n m" "sized ?n f" for m f h
  proof (rule hoare_seq_Cons [OF _ hoare_seq_Cons [OF _ hoare_seq_Nil]])
    show "hoare ?P (release_stale sl now m f) (\<lambda>_. ?P) ?E"
      by (rule hoare_weaken [OF release_stale_inv [where P = "\<lambda>q. settled q \<and> rq_keys q = rq_keys rq"]])
        (use that in \<open>auto simp: rq_core_def settled_def\<close>)
    show "hoare ?P (start_loads kernels sl ops now h (trim_load_plan_with_mask plan m) (rq_keys rq)) (\<lambda>_. ?E) ?E"
      using trim_plan_ok(1,3) [OF plan(1) that(1)] plan(2) by (intro start_loads_inv) auto
  qed
  have "hoare ?P (plan_steps kernels sl ops now plan rq) (\<lambda>_. ?E) ?E"
    unfolding plan_steps_def Let_def
  proof (rule hoare_bind, rule hoare_lift)
    fix s' :: "'a pf_state" and x
    assume "?P s'" "build_trim_mask kernels ?union ?n (rq_policy rq) (rq_attn_desc rq) = Inr x"
    then show "?P s' \<and> sized ?n (snd x)" using trim_mask_sub [OF Q(7) union] by (cases x) auto
  next
    fix s' :: "'a pf_state" and x :: "int \<times> bitmap"
    have fb: "hoare (\<lambda>s. ?P s) (py_bind (py_lift (build_trim_mask kernels (rq_l1_readlocks rq) ?n (rq_policy rq) (rq_attn_desc rq)))
        (\<lambda>(_, l1_fallback_retain). py_seq [release_stale sl now m l1_fallback_retain,
           start_loads kernels sl ops now h (trim_load_plan_with_mask plan m) (rq_keys rq)])) (\<lambda>_. ?E) ?E" if "sized ?n m" for m h
    proof (rule hoare_bind, rule hoare_lift)
      fix s' :: "'a pf_state" and y
      assume "?P s'" "build_trim_mask kernels (rq_l1_readlocks rq) ?n (rq_policy rq) (rq_attn_desc rq) = Inr y"
      then show "?P s' \<and> sized ?n (snd y)" using trim_mask_sub [OF Q(7,6)] by (cases y) auto
    next
      fix y :: "int \<times> bitmap"
      show "hoare (\<lambda>s. ?P s \<and> sized ?n (snd y)) (case y of (_, l1_fallback_retain) \<Rightarrow> py_seq [release_stale sl now m l1_fallback_retain,
           start_loads kernels sl ops now h (trim_load_plan_with_mask plan m) (rq_keys rq)]) (\<lambda>_. ?E) ?E"
      proof (cases "sized ?n (snd y)")
        case True
        then show ?thesis using loads [OF that, of "snd y" h] by (cases y) simp
      qed (simp add: hoare_def)
    qed (simp add: tracked_inv_def)
    show "hoare (\<lambda>s. ?P s \<and> sized ?n (snd x)) (case x of (hit_length, retained) \<Rightarrow>
        if trim_load_plan_with_mask plan retained = [] then finish_request kernels sl ops now
        else py_bind (py_lift (build_trim_mask kernels (rq_l1_readlocks rq) ?n (rq_policy rq) (rq_attn_desc rq)))
          (\<lambda>(_, l1_fallback_retain). py_seq [release_stale sl now retained l1_fallback_retain,
             start_loads kernels sl ops now hit_length (trim_load_plan_with_mask plan retained) (rq_keys rq)])) (\<lambda>_. ?E) ?E"
    proof (cases "sized ?n (snd x)")
      case True
      then show ?thesis using fb [of "snd x" "fst x"] fin by (cases x) simp
    qed (simp add: hoare_def)
  qed (simp add: tracked_inv_def)
  moreover have "?P s" using s by (simp add: st)
  ultimately show "outcome (\<lambda>_. ?E) ?E (plan_loads kernels sl ops now s)"
    by (auto simp: plan_loads_def st plan_def dest: hoareD)
qed

lemma transition_inv:
  "hoare (\<lambda>s. tracked_inv read_ok A pc0 r PHASE_LOOKUP s \<and> all_lookups_done (snd (snd s))) (transition_to_load_phase kernels sl ops now)
     (\<lambda>_. handler_inv read_ok A pc0 r) (handler_inv read_ok A pc0 r)"
  unfolding transition_to_load_phase_def
  by (rule hoare_seq_Cons [OF enter_load_phase_inv hoare_seq_Cons [OF plan_loads_inv hoare_seq_Nil]])

lemma poll_lookup_results_inv:
  "hoare (tracked_inv read_ok A pc0 r PHASE_LOOKUP) (poll_lookup_results ops signaled) (\<lambda>_. tracked_inv read_ok A pc0 r PHASE_LOOKUP) E"
proof (rule hoareI)
  fix s :: "'a pf_state"
  assume s: "tracked_inv read_ok A pc0 r PHASE_LOOKUP s"
  obtain pc l1 rq where st: "s = (pc, l1, rq)" by (metis prod_cases3)
  let ?I = "\<lambda>rest s. tracked_inv read_ok A pc0 r PHASE_LOOKUP s \<and> distinct rest \<and> set rest \<subseteq> dict_dom (rq_pending_lookup_tasks (snd (snd s)))"
  have "dict_wf (rq_pending_lookup_tasks rq)" using s req_okD(1) [OF handler_invD(6)] unfolding st tracked_inv_def by fastforce
  then have "?I (dict_keys (rq_pending_lookup_tasks rq)) s" using s by (simp add: st dict_wf_def dict_dom_def)
  from hoareD [OF hoare_for_each [of ?I "poll_lookup ops signaled" E, OF poll_lookup_inv] this]
  show "outcome (\<lambda>_. tracked_inv read_ok A pc0 r PHASE_LOOKUP) E (poll_lookup_results ops signaled s)"
    unfolding poll_lookup_results_def st prod.case by (rule outcome_mono) auto
qed

lemma poll_load_results_inv:
  "hoare (tracked_inv read_ok A pc0 r PLAN_AND_LOAD) (poll_load_results ops signaled) (\<lambda>_. tracked_inv read_ok A pc0 r PLAN_AND_LOAD)
     (tracked_inv read_ok A pc0 r PLAN_AND_LOAD)"
proof (rule hoareI)
  fix s :: "'a pf_state"
  assume s: "tracked_inv read_ok A pc0 r PLAN_AND_LOAD s"
  obtain pc l1 rq where st: "s = (pc, l1, rq)" by (metis prod_cases3)
  let ?I = "\<lambda>rest s. tracked_inv read_ok A pc0 r PLAN_AND_LOAD s \<and> distinct rest \<and> set rest \<subseteq> dict_dom (rq_pending_load_tasks (snd (snd s)))"
  have "dict_wf (rq_pending_load_tasks rq)" using s req_okD(2) [OF handler_invD(6)] unfolding st tracked_inv_def by fastforce
  then have "?I (dict_keys (rq_pending_load_tasks rq)) s" using s by (simp add: st dict_wf_def dict_dom_def)
  from hoareD [OF hoare_for_each [of ?I "poll_load ops signaled", OF poll_load_inv] this]
  show "outcome (\<lambda>_. tracked_inv read_ok A pc0 r PLAN_AND_LOAD) (tracked_inv read_ok A pc0 r PLAN_AND_LOAD) (poll_load_results ops signaled s)"
    unfolding poll_load_results_def st prod.case by (rule outcome_mono) auto
qed

lemma advance_inv:
  assumes "handler_inv read_ok A pc0 r (pc, l1, rq)" "r \<in> dict_dom (pc_in_flight_requests pc)"
  shows "handler_inv read_ok A pc0 r (fst (pf_advance_request kernels sl ops now lookups loads (pc, l1, rq)))"
proof -
  let ?E = "handler_inv read_ok A pc0 r"
  have out: "?E (fst res)" if "outcome (\<lambda>_. ?E) ?E res" for res :: "'a pf_state \<times> unit result"
    using that by (cases res, cases "snd res") auto
  show ?thesis
  proof (cases "rq_phase rq")
    case PHASE_LOOKUP
    have "hoare (tracked_inv read_ok A pc0 r PHASE_LOOKUP) (py_bind (poll_lookup_results ops lookups)
        (\<lambda>_ st'. if all_lookups_done (snd (snd st')) then transition_to_load_phase kernels sl ops now st' else (st', Inr ()))) (\<lambda>_. ?E) ?E"
    proof (rule hoare_bind [OF poll_lookup_results_inv hoareI])
      fix s :: "'a pf_state" assume "tracked_inv read_ok A pc0 r PHASE_LOOKUP s"
      then show "outcome (\<lambda>_. ?E) ?E (if all_lookups_done (snd (snd s)) then transition_to_load_phase kernels sl ops now s else (s, Inr ()))"
        using hoareD [OF transition_inv [of A pc0 r], of s kernels sl now] by (simp add: tracked_inv_def)
    qed
    from hoareD [OF this, of "(pc, l1, rq)"] show ?thesis using assms PHASE_LOOKUP
      by (intro out) (simp add: pf_advance_request_def tracked_inv_def)
  next
    case PLAN_AND_LOAD
    have "hoare (tracked_inv read_ok A pc0 r PLAN_AND_LOAD) (py_bind (poll_load_results ops loads)
        (\<lambda>_ st'. if all_loads_done (snd (snd st')) then finish_request kernels sl ops now st' else (st', Inr ()))) (\<lambda>_. ?E) ?E"
    proof (rule hoare_bind)
      show "hoare (tracked_inv read_ok A pc0 r PLAN_AND_LOAD) (poll_load_results ops loads) (\<lambda>_. tracked_inv read_ok A pc0 r PLAN_AND_LOAD) ?E"
        by (rule hoare_weaken [OF poll_load_results_inv]) (auto simp: tracked_inv_def)
      show "hoare (tracked_inv read_ok A pc0 r PLAN_AND_LOAD) (\<lambda>st'. if all_loads_done (snd (snd st')) then finish_request kernels sl ops now st' else (st', Inr ())) (\<lambda>_. ?E) ?E"
      proof (rule hoareI)
        fix s :: "'a pf_state" assume s: "tracked_inv read_ok A pc0 r PLAN_AND_LOAD s"
        obtain pc' l1' rq' where st: "s = (pc', l1', rq')" by (metis prod_cases3)
        have "rq_pending_lookup_tasks rq' = []" using s req_okD(15) [OF handler_invD(6)] unfolding st tracked_inv_def by fastforce
        then show "outcome (\<lambda>_. ?E) ?E (if all_loads_done (snd (snd s)) then finish_request kernels sl ops now s else (s, Inr ()))"
          using s hoareD [OF finish_any [of A pc0 r], of s kernels sl now] by (auto simp: tracked_inv_def settled_def all_loads_done_def st)
      qed
    qed
    from hoareD [OF this, of "(pc, l1, rq)"] show ?thesis using assms PLAN_AND_LOAD
      by (intro out) (simp add: pf_advance_request_def tracked_inv_def)
  qed
qed

end

end
