(* ===== verification/Prefetch_Run.thy ===== *)
theory Prefetch_Run
  imports Prefetch_Handlers
begin

text \<open>
  Runs of \<open>PrefetchController\<close>: iterations of its loop, submissions, fetched results, adapters that
  come and go and that work in between. Between two handlers the controller satisfies \<open>pc_ok\<close>; from it
  come the exact accounts of the locks in the second tier and of the requests.
\<close>

section \<open>The controller between handlers\<close>

definition pc_waiting :: "'a prefetch_controller \<Rightarrow> (int \<times> 'a) list" where
  "pc_waiting pc = concat (map add_op (pc_pending_adapter_ops pc))"

definition queued :: "'a prefetch_controller \<Rightarrow> (int \<times> prefetch_spec) list" where
  "queued pc = pc_pending_queue pc @ pc_submission_queue pc"

definition spec_whole :: "prefetch_spec \<Rightarrow> bool" where
  "spec_whole spec \<longleftrightarrow> whole_chunks (length (ps_keys spec)) (ps_attn_desc spec)"

definition queues_ok :: "'a prefetch_controller \<Rightarrow> bool" where
  "queues_ok pc \<longleftrightarrow> distinct (map fst (queued pc)) \<and> fst ` set (queued pc) \<inter> dict_dom (pc_in_flight_requests pc) = {} \<and>
     (\<forall>r \<in> fst ` set (queued pc) \<union> dict_dom (pc_in_flight_requests pc). r < pc_next_request_id pc) \<and>
     (\<forall>p \<in> set (queued pc). spec_whole (snd p)) \<and> pc_status_pending_count pc = int (length (pc_pending_queue pc)) \<and>
     int (length (pc_in_flight_requests pc)) \<le> max 0 (pc_max_in_flight pc) \<and>
     dict_dom (pc_completed_results pc) \<inter> (fst ` set (queued pc) \<union> dict_dom (pc_in_flight_requests pc)) = {}"

definition attach_ok ::
  "('a \<Rightarrow> (int \<rightharpoonup> object_key list) \<Rightarrow> (int \<rightharpoonup> object_key list) \<Rightarrow> object_key multiset \<Rightarrow> bool) \<Rightarrow>
   'a prefetch_controller \<Rightarrow> bool" where
  "attach_ok read_ok pc \<longleftrightarrow> dict_wf (pc_draining pc) \<and> dict_dom (pc_draining pc) \<subseteq> dict_dom (pc_l2_adapters pc) \<and>
     distinct (map fst (pc_waiting pc)) \<and>
     (\<forall>(i, a) \<in> set (pc_waiting pc). i \<notin> dict_dom (pc_l2_adapters pc) \<and> read_ok a Map.empty Map.empty {#})"

definition pc_ok ::
  "('a \<Rightarrow> (int \<rightharpoonup> object_key list) \<Rightarrow> (int \<rightharpoonup> object_key list) \<Rightarrow> object_key multiset \<Rightarrow> bool) \<Rightarrow>
   'a prefetch_controller \<Rightarrow> bool" where
  "pc_ok read_ok pc \<longleftrightarrow> dict_wf (pc_in_flight_requests pc) \<and> dict_wf (pc_l2_adapters pc) \<and>
     ledger_ok read_ok (pc_l2_adapters pc) (map_of (pc_in_flight_requests pc)) \<and> counts_ok pc (map_of (pc_in_flight_requests pc)) \<and>
     prefetch_policy_contract (pc_policy pc) \<and> queues_ok pc \<and> attach_ok read_ok pc"

lemma pc_okD:
  assumes "pc_ok read_ok pc"
  shows "dict_wf (pc_in_flight_requests pc)" "dict_wf (pc_l2_adapters pc)"
    "ledger_ok read_ok (pc_l2_adapters pc) (map_of (pc_in_flight_requests pc))" "counts_ok pc (map_of (pc_in_flight_requests pc))"
    "prefetch_policy_contract (pc_policy pc)" "queues_ok pc" "attach_ok read_ok pc"
  using assms unfolding pc_ok_def by blast+

lemma rest_ofD:
  assumes "rest_of r pc' = rest_of r pc"
  shows "dict_del r (pc_in_flight_requests pc') = dict_del r (pc_in_flight_requests pc)" "pc_draining pc' = pc_draining pc"
    "pc_pending_adapter_ops pc' = pc_pending_adapter_ops pc" "pc_pending_queue pc' = pc_pending_queue pc"
    "pc_submission_queue pc' = pc_submission_queue pc" "pc_next_request_id pc' = pc_next_request_id pc"
    "pc_status_pending_count pc' = pc_status_pending_count pc" "pc_max_in_flight pc' = pc_max_in_flight pc"
    "pc_policy pc' = pc_policy pc" "pc_adapter_descriptors pc' = pc_adapter_descriptors pc"
    "pc_lookup_efd_to_adapter pc' = pc_lookup_efd_to_adapter pc" "pc_load_efd_to_adapter pc' = pc_load_efd_to_adapter pc"
    "pc_submission_fd pc' = pc_submission_fd pc" "pc_done pc' = pc_done pc"
  using assms unfolding rest_of_def by (cases pc; cases pc'; simp)+

lemma length_dom: "dict_wf d \<Longrightarrow> length d = card (dict_dom d)"
  by (simp add: dict_wf_def dict_dom_def distinct_card flip: set_map)

text \<open>The requests in flight and those with a result that was not fetched.\<close>

definition results :: "'a prefetch_controller \<Rightarrow> int set" where
  "results pc = dict_dom (pc_in_flight_requests pc) \<union> dict_dom (pc_completed_results pc)"

text \<open>The end of a handler: the table takes the object back.\<close>

lemma handler_end:
  assumes inv: "handler_inv read_ok A pc r (pc', l1', rq')" and ok: "pc_ok read_ok pc" "dict_dom (pc_l2_adapters pc) = A"
    and r: "r \<notin> fst ` set (queued pc)"
  shows "pc_ok read_ok (store_request pc' rq')" "rest_of r (store_request pc' rq') = rest_of r pc"
    "dict_dom (pc_in_flight_requests (store_request pc' rq')) \<subseteq> dict_dom (pc_in_flight_requests pc)"
    "dict_dom (pc_l2_adapters (store_request pc' rq')) = A"
    "results pc \<subseteq> results (store_request pc' rq')" "results (store_request pc' rq') \<subseteq> insert r (results pc)"
proof -
  note D = handler_invD [OF inv] and K = pc_okD [OF ok(1)]
  let ?pc = "store_request pc' rq'"
  have same: "pc_l2_adapters ?pc = pc_l2_adapters pc'" "rest_of r ?pc = rest_of r pc'" "counts_ok ?pc R = counts_ok pc' R" for R
    using D(1) by (auto simp: store_request_def rest_of_def counts_ok_def AList.delete_update_same)
  note Z = rest_ofD [OF same(2) [unfolded D(5)]]
  show "rest_of r ?pc = rest_of r pc" using same(2) D(5) by simp
  show dom: "dict_dom (pc_in_flight_requests ?pc) \<subseteq> dict_dom (pc_in_flight_requests pc)"
    using D(1,11) by (auto simp: store_request_def)
  show A: "dict_dom (pc_l2_adapters ?pc) = A" using same D(3) by simp
  have cr: "pc_completed_results ?pc = pc_completed_results pc'" "dict_dom (pc_in_flight_requests ?pc) = dict_dom (pc_in_flight_requests pc')"
    by (auto simp: store_request_def)
  show "results pc \<subseteq> results ?pc" using D(12,13) unfolding results_def cr by blast
  show "results ?pc \<subseteq> insert r (results pc)" using D(11,14) unfolding results_def cr by blast
  have wf: "dict_wf (pc_in_flight_requests ?pc)" using D(2) by (simp add: store_request_def)
  have "length (pc_in_flight_requests ?pc) \<le> length (pc_in_flight_requests pc)"
    using dom by (simp add: length_dom wf K(1) card_mono dict_dom_def)
  moreover have "dict_dom (pc_completed_results ?pc) \<inter> (fst ` set (queued pc) \<union> dict_dom (pc_in_flight_requests ?pc)) = {}"
    using K(6) D(11,14) r unfolding queues_ok_def cr by blast
  ultimately have "queues_ok ?pc" using K(6) dom unfolding queues_ok_def queued_def Z by (auto simp: order_trans)
  moreover have "attach_ok read_ok ?pc" using K(7) A ok(2) unfolding attach_ok_def pc_waiting_def Z by simp
  ultimately show "pc_ok read_ok ?pc"
    using D K(5) wf same Z by (simp add: pc_ok_def reqs_def)
qed

lemma handler_start:
  assumes "pc_ok read_ok pc" "map_of (pc_in_flight_requests pc) r = Some rq"
  shows "handler_inv read_ok (dict_dom (pc_l2_adapters pc)) pc r (pc, l1, rq)"
proof -
  note K = pc_okD [OF assms(1)]
  have "rq_request_id rq = r" "req_ok (dict_dom (pc_l2_adapters pc)) rq" using ledger_okD(3,4) [OF K(3) assms(2)] by simp_all
  moreover have "reqs pc rq = map_of (pc_in_flight_requests pc)" using calculation(1) assms(2) by (auto simp: reqs_eq)
  moreover have "r \<in> dict_dom (pc_in_flight_requests pc)" using assms(2) by (simp add: dict_dom_iff)
  ultimately show ?thesis using K by (simp add: handler_inv_def)
qed

lemma handler_new:
  assumes "pc_ok read_ok pc" "r \<notin> dict_dom (pc_in_flight_requests pc)" "rq_request_id rq = r" "req_ok (dict_dom (pc_l2_adapters pc)) rq" "idle rq"
  shows "handler_inv read_ok (dict_dom (pc_l2_adapters pc)) pc r (pc, l1, rq)"
  using pc_okD [OF assms(1)] assms(2-5) by (simp add: handler_inv_def reqs_eq)

context l2_read_contract
begin

lemma advance_tracked_ok:
  assumes "pc_ok read_ok pc" "map_of (pc_in_flight_requests pc) r = Some rq" 
    "advance_tracked kernels sl ops now lookups loads (pc, l1) rq = (pc', l1')"
  shows "pc_ok read_ok pc'" "rest_of r pc' = rest_of r pc"
    "dict_dom (pc_in_flight_requests pc') \<subseteq> dict_dom (pc_in_flight_requests pc)" "dict_dom (pc_l2_adapters pc') = dict_dom (pc_l2_adapters pc)"
    "results pc' = results pc"
proof -
  obtain pc1 l11 rq1 res where ad: "pf_advance_request kernels sl ops now lookups loads (pc, l1, rq) = ((pc1, l11, rq1), res)" by (metis prod_cases4 surj_pair)
  have r: "r \<in> dict_dom (pc_in_flight_requests pc)" using assms(2) by (simp add: dict_dom_iff)
  from advance_inv [OF handler_start [OF assms(1,2)] r, of kernels sl now lookups loads l1]
  have inv: "handler_inv read_ok (dict_dom (pc_l2_adapters pc)) pc r (pc1, l11, rq1)" using ad by simp
  have nq: "r \<notin> fst ` set (queued pc)" using r pc_okD(6) [OF assms(1)] unfolding queues_ok_def by blast
  note H = handler_end [OF inv assms(1) HOL.refl nq]
  have rr: "r \<in> results pc" using r by (simp add: results_def)
  have "pc' = store_request pc1 rq1" using assms(3) ad by (simp add: advance_tracked_def)
  then show "pc_ok read_ok pc'" "rest_of r pc' = rest_of r pc"
    "dict_dom (pc_in_flight_requests pc') \<subseteq> dict_dom (pc_in_flight_requests pc)" "dict_dom (pc_l2_adapters pc') = dict_dom (pc_l2_adapters pc)"
    "results pc' = results pc"
    using H rr by auto
qed

lemma advance_fold_ok:
  assumes "pc_ok read_ok pc" "distinct (map rq_request_id rqs)" "\<forall>rq \<in> set rqs. map_of (pc_in_flight_requests pc) (rq_request_id rq) = Some rq"
    "foldl (advance_tracked kernels sl ops now lookups loads) (pc, l1) rqs = (pc', l1')"
  shows "pc_ok read_ok pc' \<and> results pc' = results pc \<and> queued pc' = queued pc \<and> pc_draining pc' = pc_draining pc \<and>
    pc_next_request_id pc' = pc_next_request_id pc"
  using assms
proof (induction rqs arbitrary: pc l1)
  case (Cons rq rqs)
  obtain pc1 l11 where ad: "advance_tracked kernels sl ops now lookups loads (pc, l1) rq = (pc1, l11)" by fastforce
  have q: "map_of (pc_in_flight_requests pc) (rq_request_id rq) = Some rq" using Cons.prems by simp
  note A = advance_tracked_ok [OF Cons.prems(1) q ad] and Z = rest_ofD [OF advance_tracked_ok(2) [OF Cons.prems(1) q ad]]
  have "map_of (pc_in_flight_requests pc1) r = map_of (pc_in_flight_requests pc) r" if "r \<noteq> rq_request_id rq" for r
    using Z(1) that by (metis map_of_dict_del fun_upd_apply)
  then have "\<forall>q \<in> set rqs. map_of (pc_in_flight_requests pc1) (rq_request_id q) = Some q" using Cons.prems(2,3) by (auto simp: image_iff)
  then show ?case using Cons.IH [OF A(1) _ _ , of l11] Cons.prems(2,4) A(5) ad Z(2,4,5,6) by (auto simp: queued_def)
qed simp

end

section \<open>Starting a request\<close>

lemma lock_l1_keys_sized:
  assumes "whole_chunks (length keys) desc" "lock_l1_keys kernels sl now keys n p desc l1 = (l1', Inr b)"
  shows "sized (length keys) b"
proof -
  obtain l1a res where rr: "reserve_read now keys n l1 = (l1a, res)" by fastforce
  define b0 where "b0 = locked_mask res keys"
  have b0: "sized (length keys) b0"
    unfolding b0_def locked_mask_def by (rule foldl_inv [of "sized (length keys)"]) (auto split: prod.splits)
  show ?thesis
  proof (cases "build_trim_mask kernels b0 (length keys) p desc")
    case (Inl e)
    then show ?thesis using assms(2) rr b0 by (auto simp: lock_l1_keys_def Let_def b0_def [symmetric] split: if_splits)
  next
    case (Inr x)
    obtain h m where x: "x = (h, m)" by fastforce
    have "sized (length keys) m" using trim_mask_sub [OF assms(1) b0] Inr x by blast
    then show ?thesis using assms(2) rr b0 Inr x by (auto simp: lock_l1_keys_def Let_def b0_def [symmetric] split: if_splits)
  qed
qed

lemma lock_l1_keys_total:
  assumes "whole_chunks (length keys) desc"
  shows "\<exists>l1' b. lock_l1_keys True sl now keys n p desc l1 = (l1', Inr b)"
proof -
  obtain l1a res where rr: "reserve_read now keys n l1 = (l1a, res)" by fastforce
  show ?thesis using trim_mask_total [OF assms, of "locked_mask res keys" p] rr
    by (auto simp: lock_l1_keys_def Let_def)
qed

lemma new_request_ok:
  assumes "spec_whole spec" "sized (length (ps_keys spec)) b"
  shows "req_ok A (new_request r spec b)" "idle (new_request r spec b)" "rq_request_id (new_request r spec b) = r"
    "rq_phase (new_request r spec b) = PHASE_LOOKUP" "rq_keys (new_request r spec b) = ps_keys spec"
  using assms by (simp_all add: req_ok_def idle_def settled_def new_request_def spec_whole_def dict_dom_def)

lemma requests_new:
  assumes "ledger_ok read_ok ads R" "R r = None" "idle q" "req_ok (dict_dom ads) q" "rq_request_id q = r"
  shows "ledger_ok read_ok ads (R(r \<mapsto> q))"
proof -
  note D = ledger_okD [OF assms(1)]
  have "(lookups_at R i)(r := None) = lookups_at R i" "(loads_at R i)(r := None) = loads_at R i" for i
    using tasks_at_Some(3,4) [of R, OF assms(2), of i] by auto
  then show ?thesis using D assms(4,5) new_request_counts(1) [OF D(1) assms(2)] idle_nothing [OF assms(3)]
    unfolding ledger_ok_def by auto
qed

context l2_read_contract
begin

lemma submit_lookup_fold:
  assumes "ledger_ok read_ok (pc_l2_adapters pc) (R(r \<mapsto> rq))" "rq_request_id rq = r" "rq_phase rq = PHASE_LOOKUP" "dict_wf (pc_l2_adapters pc)"
    "rq_lookup_results rq = []" "distinct (map fst items)"
    "\<forall>(i, a) \<in> set items. map_of (pc_l2_adapters pc) i = Some a \<and> i \<notin> dict_dom (rq_pending_lookup_tasks rq)"
  shows "\<exists>ads pl. foldl (submit_lookup ops) (pc, rq) items = (pc\<lparr>pc_l2_adapters := ads\<rparr>, rq\<lparr>rq_pending_lookup_tasks := pl\<rparr>) \<and>
    dict_dom ads = dict_dom (pc_l2_adapters pc) \<and> dict_wf ads \<and> ledger_ok read_ok ads (R(r \<mapsto> rq\<lparr>rq_pending_lookup_tasks := pl\<rparr>))"
  using assms
proof (induction items arbitrary: pc rq)
  case Nil
  then show ?case by (intro exI [of _ "pc_l2_adapters pc"] exI [of _ "rq_pending_lookup_tasks rq"]) simp
next
  case (Cons x items)
  obtain i a where x: "x = (i, a)" by fastforce
  obtain a' t where sub: "submit_lookup_and_lock_task ops (rq_keys rq) (rq_group_layout_descs rq) a = (a', t)" by fastforce
  define R1 where "R1 = R(r \<mapsto> rq)"
  let ?rq' = "rq\<lparr>rq_pending_lookup_tasks := dict_set i t (rq_pending_lookup_tasks rq)\<rparr>"
  let ?pc' = "pc\<lparr>pc_l2_adapters := dict_set i a' (pc_l2_adapters pc)\<rparr>"
  have a: "map_of (pc_l2_adapters pc) i = Some a" "i \<notin> dict_dom (rq_pending_lookup_tasks rq)" "i \<notin> fst ` set items" using Cons.prems x by auto
  note ok = Cons.prems(1) [folded R1_def]
  note D = ledger_okD [OF ok]
  have q: "R1 r = Some rq" by (simp add: R1_def)
  note Q = req_okD [OF D(4) [OF q]] and same = tasks_at_Some(1,2) [of R1, OF q, of i]
  have none: "map_of (rq_pending_lookup_tasks rq) i = None" using a(2) by (simp add: dict_dom_iff)
  have "i \<in> dict_dom (pc_l2_adapters pc)" using a(1) by (simp add: dict_dom_iff)
  then have rq': "req_ok (dict_dom (pc_l2_adapters pc)) ?rq'" using Q Cons.prems(3,5) unfolding req_ok_def by (simp add: dict_dom_def)
  have "lookups_at R1 i r = None" using none same(1) by (simp add: lookup_of_def)
  note led' = led_submit_lookup [OF D(2) [OF a(1)] this sub]
  have "ledger_ok read_ok (dict_set i a' (pc_l2_adapters pc)) (R1(r \<mapsto> ?rq'))"
    using led' held_upd(2) [OF D(1) q, of i] Cons.prems(2) rq' same(2)
    by (intro requests_upd [OF ok q _ _ a(1)]) (auto simp: lookup_of_def load_of_def held_keys_def fun_upd_idem)
  then have led: "ledger_ok read_ok (pc_l2_adapters ?pc') (R(r \<mapsto> ?rq'))" by (simp add: R1_def)
  have rest: "\<forall>(j, b) \<in> set items. map_of (pc_l2_adapters ?pc') j = Some b \<and> j \<notin> dict_dom (rq_pending_lookup_tasks ?rq')"
  proof safe
    fix j b assume jb: "(j, b) \<in> set items"
    then have "j \<noteq> i" using a(3) by (metis fst_conv image_eqI)
    then show "map_of (pc_l2_adapters ?pc') j = Some b" "j \<in> dict_dom (rq_pending_lookup_tasks ?rq') \<Longrightarrow> False"
      using Cons.prems(7) jb x by auto
  qed
  have dom: "dict_dom (pc_l2_adapters ?pc') = dict_dom (pc_l2_adapters pc)" using a(1) by (auto simp: dict_dom_iff)
  have "submit_lookup ops (pc, rq) x = (?pc', ?rq')" using sub by (simp add: submit_lookup_def x)
  then show ?case using Cons.IH [OF led _ _ _ _ _ rest] Cons.prems dom by auto
qed

lemma start_lookup_phase_ok:
  assumes ok: "pc_ok read_ok pc" and r: "r \<notin> results pc" "r \<notin> fst ` set (queued pc)" "r < pc_next_request_id pc"
    and sp: "spec_whole spec" and room: "int (length (pc_in_flight_requests pc)) < pc_max_in_flight pc"
    and run: "start_lookup_phase kernels sl ops now r spec (pc, l1) = ((pc', l1'), res)"
  shows "pc_ok read_ok pc'" "queued pc' = queued pc" "pc_pending_queue pc' = pc_pending_queue pc"
    "dict_dom (pc_in_flight_requests pc') \<subseteq> insert r (dict_dom (pc_in_flight_requests pc))" "dict_dom (pc_l2_adapters pc') = dict_dom (pc_l2_adapters pc)"
    "pc_next_request_id pc' = pc_next_request_id pc" "pc_max_in_flight pc' = pc_max_in_flight pc" "pc_draining pc' = pc_draining pc"
    "results pc \<subseteq> results pc'" "results pc' \<subseteq> insert r (results pc)" "kernels \<Longrightarrow> r \<in> results pc'"
proof -
  let ?A = "dict_dom (pc_l2_adapters pc)"
  note K = pc_okD [OF ok]
  have r1: "r \<notin> dict_dom (pc_in_flight_requests pc)" "r \<notin> dict_dom (pc_completed_results pc)" using r(1) by (auto simp: results_def)
  have "pc_ok read_ok pc' \<and> queued pc' = queued pc \<and> pc_pending_queue pc' = pc_pending_queue pc \<and>
      dict_dom (pc_in_flight_requests pc') \<subseteq> insert r (dict_dom (pc_in_flight_requests pc)) \<and> dict_dom (pc_l2_adapters pc') = ?A \<and>
      pc_next_request_id pc' = pc_next_request_id pc \<and> pc_max_in_flight pc' = pc_max_in_flight pc \<and> pc_draining pc' = pc_draining pc \<and>
      results pc \<subseteq> results pc' \<and> results pc' \<subseteq> insert r (results pc) \<and> (kernels \<longrightarrow> r \<in> results pc')"
  proof (cases "lock_l1_keys kernels sl now (ps_keys spec) (ps_num_kv_readers spec) (ps_policy spec) (ps_attn_desc spec) l1")
    case lk: (Pair l1a lres)
    show ?thesis
    proof (cases lres)
      case (Inl e)
      have "\<not> kernels"
      proof
        assume k: kernels
        obtain l1b b where "lock_l1_keys True sl now (ps_keys spec) (ps_num_kv_readers spec) (ps_policy spec) (ps_attn_desc spec) l1 = (l1b, Inr b)"
          using lock_l1_keys_total sp unfolding spec_whole_def by blast
        then show False using lk Inl k by simp
      qed
      then show ?thesis using run lk ok Inl by (auto simp: start_lookup_phase_def)
    next
      case (Inr b)
      have "sized (length (ps_keys spec)) b" using lock_l1_keys_sized lk Inr sp unfolding spec_whole_def by blast
      note N = new_request_ok [OF sp this]
      let ?rq = "new_request r spec b"
      let ?items = "filter (\<lambda>(i, _). i \<notin> dict_dom (pc_draining pc)) (pc_l2_adapters pc)"
      show ?thesis
      proof (cases "?items = []")
        case True
        obtain pc1 l11 rq1 fres where fr: "finish_request kernels sl ops now (pc, l1a, ?rq) = ((pc1, l11, rq1), fres)" by (metis prod_cases4 surj_pair)
        have h: "handler_inv read_ok ?A pc r (pc, l1a, ?rq)" by (rule handler_new [OF ok r1(1) N(3,1,2)])
        have "handler_inv read_ok ?A pc r (pc1, l11, rq1) \<and> (kernels \<longrightarrow> r \<in> dict_dom (pc_completed_results pc1))"
          using hoareD [OF finish_request_inv, of ?A pc r "(pc, l1a, ?rq)" kernels sl now] h N(2) fr by (cases fres) (auto simp: idle_def)
        then have "handler_inv read_ok ?A pc r (pc1, l11, rq1)" and fin: "kernels \<Longrightarrow> r \<in> dict_dom (pc_completed_results pc1)" by auto
        moreover have "pc' = pc1" using run lk Inr fr True by (simp add: start_lookup_phase_def Let_def)
        moreover have "store_request pc1 rq1 = pc1" using handler_invD(1,11) [OF calculation(1)] r1(1) by (auto simp: store_request_def)
        ultimately show ?thesis using handler_end [of read_ok ?A pc r pc1 l11 rq1] ok r(2) rest_ofD [of r pc1 pc]
          by (auto simp: queued_def results_def)
      next
        case False
        let ?R = "map_of (pc_in_flight_requests pc)"
        have Rr: "?R r = None" using r1(1) by (simp add: dict_dom_iff)
        have led: "ledger_ok read_ok (pc_l2_adapters pc) (?R(r \<mapsto> ?rq))" by (rule requests_new [OF K(3) Rr N(2,1,3)])
        have items: "distinct (map fst ?items)" "\<forall>(i, a) \<in> set ?items. map_of (pc_l2_adapters pc) i = Some a \<and> i \<notin> dict_dom (rq_pending_lookup_tasks ?rq)"
          using K(2) dict_wf_map_of_eq [OF K(2)] by (auto simp: dict_wf_def distinct_map_filter new_request_def dict_dom_def)
        obtain ads pl where f: "foldl (submit_lookup ops) (pc, ?rq) ?items = (pc\<lparr>pc_l2_adapters := ads\<rparr>, ?rq\<lparr>rq_pending_lookup_tasks := pl\<rparr>)"
          "dict_dom ads = ?A" "dict_wf ads" "ledger_ok read_ok ads (?R(r \<mapsto> ?rq\<lparr>rq_pending_lookup_tasks := pl\<rparr>))"
          using submit_lookup_fold [OF led N(3,4) K(2) _ items] by (auto simp: new_request_def)
        let ?rq' = "?rq\<lparr>rq_pending_lookup_tasks := pl\<rparr>"
        let ?tab = "dict_set r ?rq' (pc_in_flight_requests pc)"
        obtain evs where pc': "pc' = pc\<lparr>pc_l2_adapters := ads, pc_in_flight_requests := ?tab,
            pc_status_in_flight_count := pc_status_in_flight_count pc + 1, pc_status_lookup_phase_count := pc_status_lookup_phase_count pc + 1,
            pc_events := evs\<rparr>"
          using run lk Inr False f(1) by (auto simp: start_lookup_phase_def Let_def)
        have tab: "map_of ?tab = ?R(r \<mapsto> ?rq')" by auto
        have len: "length ?tab = Suc (length (pc_in_flight_requests pc))" using r1(1) by (simp add: dict_set_new dict_dom_def)
        have "dom (?R(r \<mapsto> ?rq')) = insert r (dom ?R)" "r \<notin> dom ?R" "finite (dom ?R)" using Rr by (auto simp: finite_dom_map_of)
        then have "counts_ok pc' (?R(r \<mapsto> ?rq'))"
          using K(4) new_request_counts(2) [of ?R r, OF _ Rr] N(4) by (simp add: counts_ok_def pc')
        moreover have "queues_ok pc'" using K(6) r r1 room len by (auto simp: queues_ok_def queued_def pc')
        moreover have "attach_ok read_ok pc'" using K(7) f(2) by (simp add: attach_ok_def pc_waiting_def pc')
        ultimately show ?thesis using K f by (auto simp: pc_ok_def pc' tab queued_def results_def)
      qed
    qed
  qed
  then show "pc_ok read_ok pc'" "queued pc' = queued pc" "pc_pending_queue pc' = pc_pending_queue pc"
    "dict_dom (pc_in_flight_requests pc') \<subseteq> insert r (dict_dom (pc_in_flight_requests pc))" "dict_dom (pc_l2_adapters pc') = ?A"
    "pc_next_request_id pc' = pc_next_request_id pc" "pc_max_in_flight pc' = pc_max_in_flight pc" "pc_draining pc' = pc_draining pc"
    "results pc \<subseteq> results pc'" "results pc' \<subseteq> insert r (results pc)" "kernels \<Longrightarrow> r \<in> results pc'" by blast+
qed

end

section \<open>The loop\<close>

text \<open>All requests the controller knows of.\<close>

definition known :: "'a prefetch_controller \<Rightarrow> int set" where
  "known pc = fst ` set (queued pc) \<union> results pc"

lemma req_ok_mono: "req_ok A q \<Longrightarrow> A \<subseteq> B \<Longrightarrow> req_ok B q"
  unfolding req_ok_def by blast

lemma unreferenced:
  assumes "ledger_ok read_ok ads R"
    "\<And>r q. R r = Some q \<Longrightarrow> i \<notin> dict_dom (rq_pending_lookup_tasks q) \<and> i \<notin> dict_dom (rq_pending_load_tasks q) \<and> i \<notin> dict_dom (rq_lookup_results q)"
  shows "lookups_at R i = Map.empty" "loads_at R i = Map.empty" "held_at R i = {#}"
proof -
  have "lookup_of i q = None \<and> load_of i q = None \<and> held_keys i q = {#}" if "R r = Some q" for r q
  proof -
    have "i \<notin> dict_dom (rq_l2_readlocks q)" using assms(2) [OF that] req_okD(9) [OF ledger_okD(4) [OF assms(1) that]] by blast
    then show ?thesis using assms(2) [OF that] by (simp add: lookup_of_def load_of_def held_keys_simps(1) dict_dom_iff)
  qed
  note n = this
  have "lookups_at R i r = None \<and> loads_at R i r = None" for r
    using n [of r] by (cases "R r") (simp_all add: lookups_at_def loads_at_def)
  then show "lookups_at R i = Map.empty" "loads_at R i = Map.empty" by auto
  show "held_at R i = {#}" unfolding held_at_def total_over_def
    by (rule sum.neutral) (use n in auto)
qed

lemma represents_empty [simp]: "represents Map.empty LK \<longleftrightarrow> LK = Map.empty"
  by (auto simp: represents_def fun_eq_iff not_Some_eq [symmetric] simp del: not_Some_eq)

lemma apply_op_ok:
  assumes "pc_ok read_ok (pc\<lparr>pc_pending_adapter_ops := op # rest\<rparr>)"
  shows "pc_ok read_ok ((pc_apply_adapter_op ops pc op)\<lparr>pc_pending_adapter_ops := rest\<rparr>) \<and>
    known (pc_apply_adapter_op ops pc op) = known pc \<and> pc_next_request_id (pc_apply_adapter_op ops pc op) = pc_next_request_id pc"
proof (cases op)
  case (AddAdapterOp i a desc ev)
  note K = pc_okD [OF assms]
  let ?R = "map_of (pc_in_flight_requests pc)"
  have new: "i \<notin> dict_dom (pc_l2_adapters pc)" "read_ok a Map.empty Map.empty {#}" "i \<notin> fst ` set (concat (map add_op rest))"
    using K(7) AddAdapterOp by (auto simp: attach_ok_def pc_waiting_def)
  have led: "ledger_ok read_ok (pc_l2_adapters pc) ?R" using K(3) by simp
  have un: "i \<notin> dict_dom (rq_pending_lookup_tasks q) \<and> i \<notin> dict_dom (rq_pending_load_tasks q) \<and> i \<notin> dict_dom (rq_lookup_results q)"
    if "?R r = Some q" for r q
    using req_okD(10-13) [OF ledger_okD(4) [OF led that]] new(1) by blast
  note U = unreferenced [OF led un]
  have "ledger_ok read_ok (dict_set i a (pc_l2_adapters pc)) ?R"
    unfolding ledger_ok_def
  proof (intro conjI allI impI)
    show "finite (dom ?R)" by (rule finite_dom_map_of)
    show "adapter_led read_ok b (lookups_at ?R j) (loads_at ?R j) (held_at ?R j)" if "map_of (dict_set i a (pc_l2_adapters pc)) j = Some b" for j b
      using that ledger_okD(2) [OF led, of j b] new(2) U by (auto simp: adapter_led_def split: if_splits)
    show "rq_request_id q = r" if "?R r = Some q" for r q using ledger_okD(3) [OF led that] .
    show "req_ok (dict_dom (dict_set i a (pc_l2_adapters pc))) q" if "?R r = Some q" for r q
      using req_ok_mono [OF ledger_okD(4) [OF led that]] by auto
  qed
  moreover have "attach_ok read_ok ((pc_apply_adapter_op ops pc op)\<lparr>pc_pending_adapter_ops := rest\<rparr>)"
  proof -
    have "j \<noteq> i" if "(j, b) \<in> set (concat (map add_op rest))" for j b using that new(3) by (metis fst_conv image_eqI)
    then show ?thesis using K(7) AddAdapterOp unfolding attach_ok_def pc_waiting_def by (auto simp del: set_concat)
  qed
  ultimately show ?thesis using K AddAdapterOp
    by (simp add: pc_ok_def counts_ok_def queues_ok_def queued_def known_def results_def)
next
  case (RemoveAdapterOp i ev)
  then show ?thesis using assms
    by (auto simp: pc_ok_def counts_ok_def queues_ok_def queued_def known_def results_def attach_ok_def pc_waiting_def)
qed

lemma apply_ops_ok:
  assumes "pc_ok read_ok pc"
  shows "pc_ok read_ok (pc_apply_pending_adapter_ops ops pc) \<and> known (pc_apply_pending_adapter_ops ops pc) = known pc \<and>
    pc_next_request_id (pc_apply_pending_adapter_ops ops pc) = pc_next_request_id pc"
proof -
  have gen: "pc_ok read_ok (pc\<lparr>pc_pending_adapter_ops := xs\<rparr>) \<Longrightarrow>
      pc_ok read_ok ((foldl (pc_apply_adapter_op ops) pc xs)\<lparr>pc_pending_adapter_ops := []\<rparr>) \<and> known (foldl (pc_apply_adapter_op ops) pc xs) = known pc \<and>
      pc_next_request_id (foldl (pc_apply_adapter_op ops) pc xs) = pc_next_request_id pc" for xs pc
  proof (induction xs arbitrary: pc)
    case (Cons x xs)
    from apply_op_ok [OF Cons.prems, of ops] show ?case using Cons.IH [of "pc_apply_adapter_op ops pc x"] by simp
  qed simp
  have ops: "pc_pending_adapter_ops (foldl (pc_apply_adapter_op ops) pc xs) = pc_pending_adapter_ops pc" for xs pc
  proof (induction xs arbitrary: pc)
    case (Cons x xs)
    have "pc_pending_adapter_ops (pc_apply_adapter_op ops pc x) = pc_pending_adapter_ops pc" by (cases x) auto
    then show ?case using Cons by simp
  qed simp
  let ?pc = "pc\<lparr>pc_pending_adapter_ops := []\<rparr>"
  have "?pc\<lparr>pc_pending_adapter_ops := pc_pending_adapter_ops pc\<rparr> = pc" by simp
  then have "pc_ok read_ok ((foldl (pc_apply_adapter_op ops) ?pc (pc_pending_adapter_ops pc))\<lparr>pc_pending_adapter_ops := []\<rparr>)"
    "known (foldl (pc_apply_adapter_op ops) ?pc (pc_pending_adapter_ops pc)) = known ?pc"
    "pc_next_request_id (foldl (pc_apply_adapter_op ops) ?pc (pc_pending_adapter_ops pc)) = pc_next_request_id pc"
    using gen [where pc = ?pc and xs = "pc_pending_adapter_ops pc"] assms by simp_all
  moreover have "(foldl (pc_apply_adapter_op ops) ?pc (pc_pending_adapter_ops pc))\<lparr>pc_pending_adapter_ops := []\<rparr> =
      foldl (pc_apply_adapter_op ops) ?pc (pc_pending_adapter_ops pc)"
    using ops [where pc = ?pc and xs = "pc_pending_adapter_ops pc"] by simp
  moreover have "known ?pc = known pc" by (simp add: known_def queued_def results_def)
  ultimately show ?thesis unfolding pc_apply_pending_adapter_ops_def by simp
qed

lemma not_in_use:
  assumes "\<not> pc_adapter_in_use pc i" "map_of (pc_in_flight_requests pc) r = Some q"
  shows "i \<notin> dict_dom (rq_pending_lookup_tasks q)" "i \<notin> dict_dom (rq_pending_load_tasks q)"
    "i \<notin> dict_dom (rq_lookup_results q)" "i \<notin> dict_dom (rq_load_plan q)"
  using assms map_of_SomeD [OF assms(2)] by (auto simp: pc_adapter_in_use_def list_ex_iff)

text \<open>An adapter is detached only when no request has anything outstanding there.\<close>

lemma finalize_one:
  assumes ok: "pc_ok read_ok pc" and i: "i \<in> dict_dom (pc_draining pc)"
  shows "\<exists>pc'. pc_finalize_drained_adapter ops i pc = (pc', Inr ()) \<and> pc_ok read_ok pc' \<and> known pc' = known pc \<and> pc_next_request_id pc' = pc_next_request_id pc \<and>
    dict_dom (pc_draining pc) - {i} \<subseteq> dict_dom (pc_draining pc')"
proof (cases "pc_adapter_in_use pc i")
  case True
  then show ?thesis using ok by (auto simp: pc_finalize_drained_adapter_def)
next
  case False
  note K = pc_okD [OF ok]
  let ?R = "map_of (pc_in_flight_requests pc)"
  have "i \<in> dict_dom (pc_l2_adapters pc)" using K(7) i by (auto simp: attach_ok_def)
  then obtain a where a: "map_of (pc_l2_adapters pc) i = Some a" by (auto simp: dict_dom_iff)
  note U = not_in_use [OF False]
  have "req_ok (dict_dom (dict_del i (pc_l2_adapters pc))) q" if "?R r = Some q" for r q
    using ledger_okD(4) [OF K(3) that] U [OF that] unfolding req_ok_def by auto
  then have "ledger_ok read_ok (dict_del i (pc_l2_adapters pc)) ?R"
    using ledger_okD [OF K(3)] unfolding ledger_ok_def by (auto split: if_splits)
  moreover obtain ds efd1 efd2 dn where f: "pc_finalize_drained_adapter ops i pc =
      (pc\<lparr>pc_l2_adapters := dict_del i (pc_l2_adapters pc), pc_adapter_descriptors := ds, pc_lookup_efd_to_adapter := efd1,
          pc_load_efd_to_adapter := efd2, pc_draining := dict_del i (pc_draining pc), pc_done := dn\<rparr>, Inr ())"
    using False a by (simp add: pc_finalize_drained_adapter_def)
  moreover have "attach_ok read_ok (pc\<lparr>pc_l2_adapters := dict_del i (pc_l2_adapters pc), pc_adapter_descriptors := ds, pc_lookup_efd_to_adapter := efd1,
          pc_load_efd_to_adapter := efd2, pc_draining := dict_del i (pc_draining pc), pc_done := dn\<rparr>)"
    using K(7) by (auto simp: attach_ok_def pc_waiting_def)
  ultimately show ?thesis using K
    by (auto simp: pc_ok_def counts_ok_def queues_ok_def queued_def known_def results_def)
qed

lemma finalize_ok:
  assumes "pc_ok read_ok pc"
  shows "\<exists>pc'. pc_finalize_drained_adapters ops pc = (pc', Inr ()) \<and> pc_ok read_ok pc' \<and> known pc' = known pc \<and>
    pc_next_request_id pc' = pc_next_request_id pc"
proof -
  have "\<exists>pc'. for_each (pc_finalize_drained_adapter ops) is pc = (pc', Inr ()) \<and> pc_ok read_ok pc' \<and> known pc' = known pc \<and>
      pc_next_request_id pc' = pc_next_request_id pc"
    if "pc_ok read_ok pc" "distinct is" "set is \<subseteq> dict_dom (pc_draining pc)" for "is" pc
    using that
  proof (induction "is" arbitrary: pc)
    case (Cons i js)
    obtain pc1 where 1: "pc_finalize_drained_adapter ops i pc = (pc1, Inr ())" "pc_ok read_ok pc1" "known pc1 = known pc" "pc_next_request_id pc1 = pc_next_request_id pc"
      "dict_dom (pc_draining pc) - {i} \<subseteq> dict_dom (pc_draining pc1)"
      using finalize_one [OF Cons.prems(1), of i ops] Cons.prems(3) by auto
    have "set js \<subseteq> dict_dom (pc_draining pc1)" using Cons.prems(2,3) 1(5) by auto
    then show ?case using Cons.IH [OF 1(2)] Cons.prems(2) 1 by simp
  qed simp
  moreover have "distinct (dict_keys (pc_draining pc))" using pc_okD(7) [OF assms] by (simp add: attach_ok_def dict_wf_def)
  ultimately show ?thesis using assms unfolding pc_finalize_drained_adapters_def by (simp add: dict_dom_def)
qed

lemma drain_ok:
  assumes "pc_ok read_ok pc"
  shows "pc_ok read_ok (drain_submission_queue pc)" "known (drain_submission_queue pc) = known pc"
    "pc_next_request_id (drain_submission_queue pc) = pc_next_request_id pc"
  using assms
  by (auto simp: pc_ok_def counts_ok_def queues_ok_def queued_def known_def results_def attach_ok_def pc_waiting_def drain_submission_queue_def)

lemma handle_ready_ok:
  assumes "pc_ok read_ok pc" "foldl pc_handle_ready (pc, lk, ld) ready = (pc', lk', ld')"
  shows "pc_ok read_ok pc' \<and> known pc' = known pc \<and> pc_next_request_id pc' = pc_next_request_id pc"
  using assms
proof (induction ready arbitrary: pc lk ld)
  case (Cons fd ready)
  obtain pc1 lk1 ld1 where h: "pc_handle_ready (pc, lk, ld) fd = (pc1, lk1, ld1)" by (metis prod_cases3)
  then have "pc1 = pc \<or> pc1 = drain_submission_queue pc" by (auto simp: pc_handle_ready_def split: if_splits option.splits)
  then have "pc_ok read_ok pc1" "known pc1 = known pc" "pc_next_request_id pc1 = pc_next_request_id pc" using drain_ok [OF Cons.prems(1)] Cons.prems(1) by auto
  then show ?case using Cons.IH [of pc1 lk1 ld1] Cons.prems(2) h by simp
qed simp

context l2_read_contract
begin

lemma pending_loop_ok:
  assumes "pc_ok read_ok pc" "start_pending_loop kernels sl ops now n (pc, l1) = ((pc', l1'), res)"
  shows "pc_ok read_ok pc' \<and> known pc' \<subseteq> known pc \<and> (kernels \<longrightarrow> known pc \<subseteq> known pc') \<and>
    pc_next_request_id pc' = pc_next_request_id pc"
  using assms
proof (induction n arbitrary: pc l1)
  case (Suc n)
  note K = pc_okD [OF Suc.prems(1)]
  show ?case
  proof (cases "pc_pending_queue pc = [] \<or> \<not> int (length (pc_in_flight_requests pc)) < pc_max_in_flight pc")
    case True
    then have "pc' = pc" using Suc.prems(2) by (auto split: list.splits)
    then show ?thesis using Suc.prems(1) by simp
  next
    case False
    then obtain r spec queue where q: "pc_pending_queue pc = (r, spec) # queue" and room: "int (length (pc_in_flight_requests pc)) < pc_max_in_flight pc"
      by (metis list.exhaust surj_pair)
    let ?pc1 = "pc\<lparr>pc_pending_queue := queue, pc_status_pending_count := pc_status_pending_count pc - 1\<rparr>"
    obtain pc2 l2 res2 where sl: "start_lookup_phase kernels sl ops now r spec (?pc1, l1) = ((pc2, l2), res2)" by (metis surj_pair)
    have ok1: "pc_ok read_ok ?pc1"
      using Suc.prems(1) q by (auto simp: pc_ok_def counts_ok_def queues_ok_def queued_def attach_ok_def pc_waiting_def)
    have r: "r \<notin> results ?pc1" "r \<notin> fst ` set (queued ?pc1)" "r < pc_next_request_id ?pc1" "spec_whole spec"
      using K(6) q by (auto simp: queues_ok_def queued_def results_def)
    note S = start_lookup_phase_ok [OF ok1 r(1-4) _ sl]
    have room1: "int (length (pc_in_flight_requests ?pc1)) < pc_max_in_flight ?pc1" using room by simp
    have kn: "known pc = insert r (known ?pc1)" using q by (auto simp: known_def queued_def results_def)
    have "known pc2 \<subseteq> insert r (known ?pc1)" "kernels \<Longrightarrow> insert r (known ?pc1) \<subseteq> known pc2"
      using S(9,10,11) [OF room1] unfolding known_def S(2) [OF room1] by blast+
    then have k2: "known pc2 \<subseteq> known pc" "kernels \<Longrightarrow> known pc \<subseteq> known pc2" using kn by auto
    show ?thesis
    proof (cases res2)
      case (Inl e)
      then show ?thesis using Suc.prems(2) q room sl S(1) [OF room1] S(6) [OF room1] k2 by simp
    next
      case (Inr u)
      then have "start_pending_loop kernels sl ops now n (pc2, l2) = ((pc', l1'), res)" using Suc.prems(2) q room sl by simp
      from Suc.IH [OF S(1) [OF room1] this] show ?thesis using k2 S(6) [OF room1] by auto
    qed
  qed
qed simp

lemma iteration_ok:
  assumes "pc_ok read_ok pc" "prefetch_loop_iteration kernels sl ops now ready (pc, l1) = ((pc', l1'), res)"
  shows "res = Inr ()" "pc_ok read_ok pc'" "known pc' \<subseteq> known pc" "kernels \<Longrightarrow> known pc \<subseteq> known pc'"
    "pc_next_request_id pc' = pc_next_request_id pc"
proof -
  obtain pc1 lk ld where h: "foldl pc_handle_ready (pc_apply_pending_adapter_ops ops pc, [], []) ready = (pc1, lk, ld)" by (metis prod_cases3)
  have 1: "pc_ok read_ok pc1" "known pc1 = known pc" "pc_next_request_id pc1 = pc_next_request_id pc"
    using handle_ready_ok [OF _ h] apply_ops_ok [OF assms(1), of ops] by auto
  obtain pc2 l2 where st2: "(if lk = [] \<and> ld = [] then (pc1, l1)
      else foldl (advance_tracked kernels sl ops now lk ld) (pc1, l1) (dict_values (pc_in_flight_requests pc1))) = (pc2, l2)" by fastforce
  have vals: "distinct (map rq_request_id (dict_values (pc_in_flight_requests pc1)))"
    "\<forall>rq \<in> set (dict_values (pc_in_flight_requests pc1)). map_of (pc_in_flight_requests pc1) (rq_request_id rq) = Some rq"
  proof -
    note K = pc_okD [OF 1(1)]
    have id: "rq_request_id q = r" if "(r, q) \<in> set (pc_in_flight_requests pc1)" for r q
      using that ledger_okD(3) [OF K(3)] dict_wf_map_of_eq [OF K(1)] by blast
    then have "map rq_request_id (dict_values (pc_in_flight_requests pc1)) = map fst (pc_in_flight_requests pc1)" by auto
    then show "distinct (map rq_request_id (dict_values (pc_in_flight_requests pc1)))" using K(1) unfolding dict_wf_def by metis
    show "\<forall>rq \<in> set (dict_values (pc_in_flight_requests pc1)). map_of (pc_in_flight_requests pc1) (rq_request_id rq) = Some rq"
      using id dict_wf_map_of_eq [OF K(1)] by auto
  qed
  have 2: "pc_ok read_ok pc2 \<and> known pc2 = known pc \<and> pc_next_request_id pc2 = pc_next_request_id pc"
  proof (cases "lk = [] \<and> ld = []")
    case True
    then show ?thesis using st2 1 by simp
  next
    case False
    then have "foldl (advance_tracked kernels sl ops now lk ld) (pc1, l1) (dict_values (pc_in_flight_requests pc1)) = (pc2, l2)" using st2 by (simp split: if_splits)
    from advance_fold_ok [OF 1(1) vals this] show ?thesis using 1(2,3) by (simp add: known_def)
  qed
  obtain pc3 l3 r3 where st3: "start_pending_requests kernels sl ops now (pc2, l2) = ((pc3, l3), r3)" by (metis surj_pair)
  have 3: "pc_ok read_ok pc3" "known pc3 \<subseteq> known pc2" "kernels \<Longrightarrow> known pc2 \<subseteq> known pc3" "pc_next_request_id pc3 = pc_next_request_id pc2"
    using pending_loop_ok [of pc2 kernels sl now "length (pc_pending_queue pc2)" l2 pc3 l3 r3] 2 st3 by (auto simp: start_pending_requests_def)
  obtain pc4 where f: "pc_finalize_drained_adapters ops pc3 = (pc4, Inr ())" "pc_ok read_ok pc4" "known pc4 = known pc3" "pc_next_request_id pc4 = pc_next_request_id pc3"
    using finalize_ok [OF 3(1), of ops] by blast
  have "pc' = pc4" "res = Inr ()" using assms(2) h st2 st3 f(1) unfolding prefetch_loop_iteration_def Let_def by (auto split: if_splits)
  then show "res = Inr ()" "pc_ok read_ok pc'" "known pc' \<subseteq> known pc" "kernels \<Longrightarrow> known pc \<subseteq> known pc'"
    "pc_next_request_id pc' = pc_next_request_id pc" using f 2 3 by auto
qed

end

section \<open>Runs\<close>

text \<open>
  A run of the controller: requests for whole chunks are submitted and results fetched, the loop
  makes iterations with any L1 manager it finds, adapters are queued for attachment under new ids and
  for removal, and the adapters work. \<open>F\<close> are the requests whose result was fetched.
\<close>

inductive pc_run ::
  "bool \<Rightarrow> sorted_list_ops \<Rightarrow> 'a l2_ops \<Rightarrow> ('a \<Rightarrow> 'a \<Rightarrow> bool) \<Rightarrow>
   ('a \<Rightarrow> (int \<rightharpoonup> object_key list) \<Rightarrow> (int \<rightharpoonup> object_key list) \<Rightarrow> object_key multiset \<Rightarrow> bool) \<Rightarrow>
   'a prefetch_controller \<Rightarrow> int set \<Rightarrow> bool"
  for kernels :: bool and sl :: sorted_list_ops and ops :: "'a l2_ops" and env :: "'a \<Rightarrow> 'a \<Rightarrow> bool"
    and read_ok :: "'a \<Rightarrow> (int \<rightharpoonup> object_key list) \<Rightarrow> (int \<rightharpoonup> object_key list) \<Rightarrow> object_key multiset \<Rightarrow> bool" where
  start: "pc_init ops adapters descs policy max_in_flight fd = Inr pc \<Longrightarrow>
    (\<forall>a \<in> set adapters. read_ok a Map.empty Map.empty {#}) \<Longrightarrow> prefetch_policy_contract policy \<Longrightarrow>
    pc_run kernels sl ops env read_ok pc {}"
| submit: "pc_run kernels sl ops env read_ok pc F \<Longrightarrow> spec_whole spec \<Longrightarrow>
    pc_run kernels sl ops env read_ok (fst (submit_prefetch_request spec pc)) F"
| fetch: "pc_run kernels sl ops env read_ok pc F \<Longrightarrow> query_prefetch_result r pc = (pc', res) \<Longrightarrow>
    pc_run kernels sl ops env read_ok pc' (if res = None then F else insert r F)"
| iteration: "pc_run kernels sl ops env read_ok pc F \<Longrightarrow>
    prefetch_loop_iteration kernels sl ops now ready (pc, l1) = ((pc', l1'), res) \<Longrightarrow> pc_run kernels sl ops env read_ok pc' F"
| queue_add: "pc_run kernels sl ops env read_ok pc F \<Longrightarrow> read_ok a Map.empty Map.empty {#} \<Longrightarrow>
    i \<notin> dict_dom (pc_l2_adapters pc) \<union> fst ` set (pc_waiting pc) \<Longrightarrow> pc_run kernels sl ops env read_ok (pc_add_adapter i a desc ev pc) F"
| queue_remove: "pc_run kernels sl ops env read_ok pc F \<Longrightarrow> pc_run kernels sl ops env read_ok (pc_request_remove_adapter i ev pc) F"
| adapter: "pc_run kernels sl ops env read_ok pc F \<Longrightarrow> map_of (pc_l2_adapters pc) i = Some a \<Longrightarrow> env a a' \<Longrightarrow>
    pc_run kernels sl ops env read_ok (pc\<lparr>pc_l2_adapters := dict_set i a' (pc_l2_adapters pc)\<rparr>) F"

lemma pc_init_ok:
  assumes "pc_init ops adapters descs policy mx fd = Inr pc" "\<forall>a \<in> set adapters. read_ok a Map.empty Map.empty {#}"
    "prefetch_policy_contract policy"
  shows "pc_ok read_ok pc" "known pc = {}" "pc_next_request_id pc = 0"
proof -
  let ?ads = "foldl (\<lambda>d (desc, a). dict_set (ad_index desc) a d) [] (zip descs adapters)"
  have "dict_wf ?ads \<and> (\<forall>i a. map_of ?ads i = Some a \<longrightarrow> a \<in> set adapters)"
    by (rule foldl_inv) (auto dest: set_zip_rightD split: prod.splits if_splits)
  then have ads: "dict_wf ?ads" "\<And>i a. map_of ?ads i = Some a \<Longrightarrow> read_ok a Map.empty Map.empty {#}" using assms(2) by blast+
  have pc: "pc_l2_adapters pc = ?ads" "pc_in_flight_requests pc = []" "pc_policy pc = policy" "pc_draining pc = []" "pc_pending_adapter_ops pc = []"
    "pc_pending_queue pc = []" "pc_submission_queue pc = []" "pc_status_in_flight_count pc = 0" "pc_status_pending_count pc = 0"
    "pc_status_lookup_phase_count pc = 0" "pc_status_load_phase_count pc = 0" "pc_completed_results pc = []" "pc_next_request_id pc = 0"
    using assms(1) by (auto simp: pc_init_def Let_def split: if_splits)
  have "lookups_at Map.empty i = Map.empty" "loads_at Map.empty i = Map.empty" for i by (auto simp: lookups_at_def loads_at_def)
  then have "ledger_ok read_ok ?ads Map.empty"
    using ads(2) by (auto simp: ledger_ok_def adapter_led_def held_at_def total_over_def)
  then show "pc_ok read_ok pc" using ads(1) assms(3)
    by (simp add: pc_ok_def pc counts_ok_def queues_ok_def queued_def attach_ok_def pc_waiting_def in_phase_def total_over_def dict_dom_def)
  show "known pc = {}" "pc_next_request_id pc = 0" by (simp_all add: known_def queued_def results_def pc dict_dom_def)
qed

context l2_read_contract
begin

lemma run_ok:
  assumes "pc_run kernels sl ops env read_ok pc F"
  shows "pc_ok read_ok pc \<and> 0 \<le> pc_next_request_id pc \<and> known pc \<subseteq> {0..<pc_next_request_id pc} \<and> F \<subseteq> {0..<pc_next_request_id pc} \<and>
    F \<inter> known pc = {} \<and> (kernels \<longrightarrow> {0..<pc_next_request_id pc} \<subseteq> known pc \<union> F)"
  using assms
proof (induction rule: pc_run.induct)
  case (start adapters descs policy mx fd pc)
  then show ?case using pc_init_ok [of ops adapters descs policy mx fd pc read_ok] by simp
next
  case (submit pc F spec)
  let ?pc' = "fst (submit_prefetch_request spec pc)"
  have n: "pc_next_request_id ?pc' = pc_next_request_id pc + 1" "known ?pc' = insert (pc_next_request_id pc) (known pc)"
    by (auto simp: submit_prefetch_request_def known_def queued_def results_def)
  let ?n = "pc_next_request_id pc"
  have q: "queued ?pc' = queued pc @ [(?n, spec)]" "pc_in_flight_requests ?pc' = pc_in_flight_requests pc" "pc_completed_results ?pc' = pc_completed_results pc"
    "pc_status_pending_count ?pc' = pc_status_pending_count pc" "pc_pending_queue ?pc' = pc_pending_queue pc" "pc_max_in_flight ?pc' = pc_max_in_flight pc"
    by (simp_all add: submit_prefetch_request_def queued_def)
  have Q: "queues_ok pc" using submit.IH by (simp add: pc_ok_def)
  have "?n \<notin> known pc" using submit.IH by auto
  then have new: "?n \<notin> fst ` set (queued pc)" "?n \<notin> dict_dom (pc_in_flight_requests pc)" "?n \<notin> dict_dom (pc_completed_results pc)"
    by (auto simp: known_def results_def)
  have "\<forall>r \<in> fst ` set (queued pc @ [(?n, spec)]) \<union> dict_dom (pc_in_flight_requests pc). r < ?n + 1"
  proof
    fix r assume "r \<in> fst ` set (queued pc @ [(?n, spec)]) \<union> dict_dom (pc_in_flight_requests pc)"
    then have "r = ?n \<or> r \<in> fst ` set (queued pc) \<union> dict_dom (pc_in_flight_requests pc)" by auto
    moreover have "\<forall>r \<in> fst ` set (queued pc) \<union> dict_dom (pc_in_flight_requests pc). r < ?n" using Q unfolding queues_ok_def by blast
    ultimately have "r = ?n \<or> r < ?n" by blast
    then show "r < ?n + 1" by linarith
  qed
  then have "queues_ok ?pc'" using Q new submit.hyps(2) unfolding queues_ok_def n(1) q by simp
  then have "pc_ok read_ok ?pc'" using submit.IH
    by (simp add: pc_ok_def counts_ok_def attach_ok_def pc_waiting_def submit_prefetch_request_def)
  moreover have "{0..<?n + 1} = insert ?n {0..<?n}" using submit.IH by auto
  moreover have "?n \<notin> F" using submit.IH by auto
  ultimately show ?case using submit.IH unfolding n by (simp add: subset_insertI2)
next
  case (fetch pc F r pc' res)
  have pc': "pc_completed_results pc' = dict_del r (pc_completed_results pc)" "queued pc' = queued pc" "pc_next_request_id pc' = pc_next_request_id pc"
    "pc_in_flight_requests pc' = pc_in_flight_requests pc" and res: "res = dict_get (pc_completed_results pc) r"
    using fetch.hyps(2) by (auto simp: query_prefetch_result_def Let_def queued_def)
  have d: "dict_dom (pc_completed_results pc') \<subseteq> dict_dom (pc_completed_results pc)" unfolding pc'(1) by auto
  have "pc' = pc\<lparr>pc_completed_results := pc_completed_results pc', pc_completed_lookups := pc_completed_lookups pc'\<rparr>" using fetch.hyps(2) by (auto simp: query_prefetch_result_def Let_def)
  then obtain cs cl where cs: "pc' = pc\<lparr>pc_completed_results := cs, pc_completed_lookups := cl\<rparr>" by blast
  have "queues_ok pc" using fetch.IH unfolding pc_ok_def by blast
  then have "queues_ok pc'" using d unfolding cs queues_ok_def queued_def by simp blast
  then have "pc_ok read_ok pc'" using fetch.IH unfolding cs by (simp add: pc_ok_def counts_ok_def attach_ok_def pc_waiting_def)
  moreover have "known pc' = fst ` set (queued pc) \<union> dict_dom (pc_in_flight_requests pc) \<union> (dict_dom (pc_completed_results pc) - {r})"
    by (auto simp: known_def results_def pc')
  moreover have "res = None \<longleftrightarrow> r \<notin> dict_dom (pc_completed_results pc)" using res by (simp add: dict_dom_iff)
  moreover have "dict_dom (pc_completed_results pc) \<inter> (fst ` set (queued pc) \<union> dict_dom (pc_in_flight_requests pc)) = {}"
    using fetch.IH unfolding pc_ok_def queues_ok_def by blast
  ultimately show ?case using fetch.IH unfolding pc'(3) known_def results_def by auto
next
  case (iteration pc F now ready l1 pc' l1' res)
  from iteration_ok [OF _ iteration.hyps(2)] iteration.IH show ?case by auto
next
  case (queue_add pc F a i desc ev)
  have "pc_waiting (pc_add_adapter i a desc ev pc) = pc_waiting pc @ [(i, a)]" by (simp add: pc_waiting_def pc_add_adapter_def)
  then have "attach_ok read_ok (pc_add_adapter i a desc ev pc)"
    using queue_add by (auto simp: pc_ok_def attach_ok_def pc_add_adapter_def)
  then show ?case using queue_add.IH
    by (simp add: pc_ok_def counts_ok_def queues_ok_def queued_def known_def results_def pc_add_adapter_def)
next
  case (queue_remove pc F i ev)
  then show ?case
    by (simp add: pc_ok_def counts_ok_def queues_ok_def queued_def known_def results_def pc_request_remove_adapter_def attach_ok_def pc_waiting_def)
next
  case (adapter pc F i a a')
  have ok: "pc_ok read_ok pc" using adapter.IH by simp
  note led = pc_okD(3) [OF ok]
  have "ledger_ok read_ok (dict_set i a' (pc_l2_adapters pc)) (map_of (pc_in_flight_requests pc))"
    by (rule ledger_adapter [OF led adapter.hyps(2) led_env [OF ledger_okD(2) [OF led adapter.hyps(2)] adapter.hyps(3)]])
  moreover have "dict_dom (dict_set i a' (pc_l2_adapters pc)) = dict_dom (pc_l2_adapters pc)" using adapter(2) by (auto simp: dict_dom_iff)
  ultimately show ?case using adapter.IH
    by (simp add: pc_ok_def counts_ok_def queues_ok_def queued_def known_def results_def attach_ok_def pc_waiting_def)
qed

end

section \<open>Shutdown\<close>

context l2_read_contract
begin

lemma cleanup_request_ok:
  assumes ok: "pc_ok read_ok pc" and rq: "map_of (pc_in_flight_requests pc) r = Some rq"
    and step: "cleanup_request sl ops now (pc, l1) (r, rq) = (pc', l1')"
  shows "pc_ok read_ok pc'" "dict_dom (pc_l2_adapters pc') = dict_dom (pc_l2_adapters pc)"
    "\<exists>rq'. map_of (pc_in_flight_requests pc') = (map_of (pc_in_flight_requests pc))(r \<mapsto> rq') \<and> rq_l2_readlocks rq' = [] \<and>
       (\<forall>i. lookup_of i rq' = lookup_of i rq \<and> load_of i rq' = load_of i rq)"
proof -
  let ?A = "dict_dom (pc_l2_adapters pc)"
  obtain l1a where l1a: "cleanup_request sl ops now (pc, l1) (r, rq) =
      (let (pc', l1b, rq') = fst (release_l2_locks ops [] (pc, l1a, rq));
           l1c = (if popcount (rq_l1_readlocks rq') = 0 then l1b
                  else fst (finish_read sl now (gather (rq_l1_readlocks rq') (rq_keys rq')) (rq_num_kv_readers rq') l1b))
       in (store_request pc' rq', l1c))"
    by (simp add: cleanup_request_def Let_def)
  obtain pc1 l1b rq1 res where rel: "release_l2_locks ops [] (pc, l1a, rq) = ((pc1, l1b, rq1), res)" by (metis prod_cases4 surj_pair)
  have pc': "pc' = store_request pc1 rq1" using step l1a rel by (simp add: Let_def split: if_splits)
  have r: "r \<in> dict_dom (pc_in_flight_requests pc)" using rq by (simp add: dict_dom_iff)
  have "tracked_inv read_ok ?A pc r (rq_phase rq) (pc, l1a, rq)" using handler_start [OF ok rq] r by (simp add: tracked_inv_def)
  then have "outcome (\<lambda>_ s. tracked_inv read_ok ?A pc r (rq_phase rq) s \<and> dict_dom (rq_l2_readlocks (snd (snd s))) \<subseteq> dict_dom ([] :: (int, bitmap) pydict) \<and>
        rq_core ((snd (snd s))\<lparr>rq_l2_readlocks := []\<rparr>) = rq_core (rq\<lparr>rq_l2_readlocks := []\<rparr>)) (\<lambda>_. False) (release_l2_locks ops [] (pc, l1a, rq))"
    by (intro hoareD [OF release_tracked [where P = "\<lambda>q. q = rq_core (rq\<lparr>rq_l2_readlocks := []\<rparr>)"]]) simp
  then have t: "tracked_inv read_ok ?A pc r (rq_phase rq) (pc1, l1b, rq1)" "dict_dom (rq_l2_readlocks rq1) = {}"
      "rq_core (rq1\<lparr>rq_l2_readlocks := []\<rparr>) = rq_core (rq\<lparr>rq_l2_readlocks := []\<rparr>)"
    unfolding rel by (cases res; simp add: dict_dom_def)+
  have inv: "handler_inv read_ok ?A pc r (pc1, l1b, rq1)" and in1: "r \<in> dict_dom (pc_in_flight_requests pc1)" using t(1) by (simp_all add: tracked_inv_def)
  have nq: "r \<notin> fst ` set (queued pc)" using r pc_okD(6) [OF ok] unfolding queues_ok_def by blast
  note H = handler_end [OF inv ok HOL.refl nq] and id = handler_invD(1) [OF inv]
  show "pc_ok read_ok pc'" "dict_dom (pc_l2_adapters pc') = ?A" using H(1,4) pc' by simp_all
  have "map_of (pc_in_flight_requests pc1) s = map_of (pc_in_flight_requests pc) s" if "s \<noteq> r" for s
    using rest_ofD(1) [OF handler_invD(5) [OF inv]] that by (metis map_of_dict_del fun_upd_apply)
  then have "map_of (pc_in_flight_requests pc') = (map_of (pc_in_flight_requests pc))(r \<mapsto> rq1)"
    using in1 id by (auto simp: pc' store_request_def)
  moreover have "rq_l2_readlocks rq1 = []" using t(2) by (simp add: dict_dom_def)
  moreover have "lookup_of i rq1 = lookup_of i rq \<and> load_of i rq1 = load_of i rq" for i
    using rq_coreD(2,5,8,9) [OF t(3)] by (simp add: lookup_of_def load_of_def)
  ultimately show "\<exists>rq'. map_of (pc_in_flight_requests pc') = (map_of (pc_in_flight_requests pc))(r \<mapsto> rq') \<and> rq_l2_readlocks rq' = [] \<and>
       (\<forall>i. lookup_of i rq' = lookup_of i rq \<and> load_of i rq' = load_of i rq)" by blast
qed

lemma cleanup_requests_fold:
  assumes "pc_ok read_ok pc" "distinct (map fst items)" "\<forall>(r, q) \<in> set items. map_of (pc_in_flight_requests pc) r = Some q"
    "foldl (cleanup_request sl ops now) (pc, l1) items = (pc', l1')"
    "\<forall>r q. map_of (pc_in_flight_requests pc) r = Some q \<longrightarrow> r \<notin> fst ` set items \<longrightarrow> rq_l2_readlocks q = []"
  shows "pc_ok read_ok pc' \<and> dict_dom (pc_l2_adapters pc') = dict_dom (pc_l2_adapters pc) \<and>
    (\<forall>i. lookups_at (map_of (pc_in_flight_requests pc')) i = lookups_at (map_of (pc_in_flight_requests pc)) i \<and>
         loads_at (map_of (pc_in_flight_requests pc')) i = loads_at (map_of (pc_in_flight_requests pc)) i) \<and>
    (\<forall>r q. map_of (pc_in_flight_requests pc') r = Some q \<longrightarrow> rq_l2_readlocks q = [])"
  using assms
proof (induction items arbitrary: pc l1)
  case (Cons x items)
  obtain r rq where x: "x = (r, rq)" by fastforce
  obtain pc1 l11 where c: "cleanup_request sl ops now (pc, l1) (r, rq) = (pc1, l11)" by fastforce
  have q: "map_of (pc_in_flight_requests pc) r = Some rq" using Cons.prems(3) x by simp
  note C = cleanup_request_ok [OF Cons.prems(1) q c]
  obtain rq' where rq': "map_of (pc_in_flight_requests pc1) = (map_of (pc_in_flight_requests pc))(r \<mapsto> rq')" "rq_l2_readlocks rq' = []"
    "\<And>i. lookup_of i rq' = lookup_of i rq" "\<And>i. load_of i rq' = load_of i rq" using C(3) by blast
  have same: "lookups_at (map_of (pc_in_flight_requests pc1)) i = lookups_at (map_of (pc_in_flight_requests pc)) i"
    "loads_at (map_of (pc_in_flight_requests pc1)) i = loads_at (map_of (pc_in_flight_requests pc)) i" for i
    unfolding rq'(1) using tasks_at_Some(1,2) [of "map_of (pc_in_flight_requests pc)", OF q] by (auto simp: rq'(3,4))
  have nr: "r \<notin> fst ` set items" using Cons.prems(2) x by simp
  then have "\<forall>(s, q) \<in> set items. map_of (pc_in_flight_requests pc1) s = Some q" using Cons.prems(3) rq'(1) by force
  moreover have "\<forall>s q. map_of (pc_in_flight_requests pc1) s = Some q \<longrightarrow> s \<notin> fst ` set items \<longrightarrow> rq_l2_readlocks q = []"
    using Cons.prems(5) rq'(1,2) x by auto
  ultimately show ?case using Cons.IH [OF C(1), of l11] Cons.prems(2,4) x c C(2) same by simp
qed auto

lemma cleanup_ok:
  assumes ok: "pc_ok read_ok pc" and c: "cleanup_in_flight_requests sl ops now (pc, l1) = (pc', l1')"
  shows "pc_in_flight_requests pc' = []" "dict_dom (pc_l2_adapters pc') = dict_dom (pc_l2_adapters pc)"
    "map_of (pc_l2_adapters pc') i = Some a \<Longrightarrow>
       adapter_led read_ok a (lookups_at (map_of (pc_in_flight_requests pc)) i) (loads_at (map_of (pc_in_flight_requests pc)) i) {#}"
proof -
  obtain pc1 l11 where f: "foldl (cleanup_request sl ops now) (pc, l1) (pc_in_flight_requests pc) = (pc1, l11)" by fastforce
  note wf = pc_okD(1) [OF ok]
  have items: "distinct (map fst (pc_in_flight_requests pc))" "\<forall>(r, q) \<in> set (pc_in_flight_requests pc). map_of (pc_in_flight_requests pc) r = Some q"
    using wf dict_wf_map_of_eq [OF wf] by (auto simp: dict_wf_def)
  have F: "pc_ok read_ok pc1 \<and> dict_dom (pc_l2_adapters pc1) = dict_dom (pc_l2_adapters pc) \<and>
    (\<forall>i. lookups_at (map_of (pc_in_flight_requests pc1)) i = lookups_at (map_of (pc_in_flight_requests pc)) i \<and>
         loads_at (map_of (pc_in_flight_requests pc1)) i = loads_at (map_of (pc_in_flight_requests pc)) i) \<and>
    (\<forall>r q. map_of (pc_in_flight_requests pc1) r = Some q \<longrightarrow> rq_l2_readlocks q = [])"
    by (rule cleanup_requests_fold [OF ok items f]) (use map_of_SomeD in force)
  have pc': "pc' = pc1\<lparr>pc_in_flight_requests := []\<rparr>" using c f by (simp add: cleanup_in_flight_requests_def)
  show "pc_in_flight_requests pc' = []" "dict_dom (pc_l2_adapters pc') = dict_dom (pc_l2_adapters pc)" using F by (simp_all add: pc')
  have "held_at (map_of (pc_in_flight_requests pc1)) i = {#}"
    unfolding held_at_def total_over_def by (rule sum.neutral) (use F in \<open>auto simp: held_keys_def dict_get_default_def\<close>)
  then show "adapter_led read_ok a (lookups_at (map_of (pc_in_flight_requests pc)) i) (loads_at (map_of (pc_in_flight_requests pc)) i) {#}"
    if "map_of (pc_l2_adapters pc') i = Some a"
    using ledger_okD(2) [OF pc_okD(3), of read_ok pc1 i a] F that by (simp add: pc')
qed

end

section \<open>What holds in every run\<close>

lemma in_phase_count: "dict_wf d \<Longrightarrow> in_phase ph (map_of d) = int (length (filter (\<lambda>(r, q). rq_phase q = ph) d))"
proof (induction d)
  case Nil
  show ?case by (simp add: in_phase_def total_over_def)
next
  case (Cons x d)
  obtain r q where x: "x = (r, q)" by fastforce
  have d: "dict_wf d" "map_of d r = None" using Cons.prems x by (auto simp: dict_wf_def map_of_eq_None_iff)
  have "total_over g ((map_of d)(r \<mapsto> q)) = g q + total_over g (map_of d)" for g :: "in_flight_request \<Rightarrow> int"
  proof -
    have "r \<notin> dom (map_of d)" using d(2) by blast
    then have "(\<Sum>s\<in>insert r (dom (map_of d)). g (the (((map_of d)(r \<mapsto> q)) s))) = g q + (\<Sum>s\<in>dom (map_of d). g (the (((map_of d)(r \<mapsto> q)) s)))"
      by (simp add: finite_dom_map_of)
    also have "(\<Sum>s\<in>dom (map_of d). g (the (((map_of d)(r \<mapsto> q)) s))) = (\<Sum>s\<in>dom (map_of d). g (the (map_of d s)))"
      by (rule sum.cong) (use \<open>r \<notin> dom (map_of d)\<close> in auto)
    finally show ?thesis by (simp add: total_over_def)
  qed
  moreover have "map_of (x # d) = (map_of d)(r \<mapsto> q)" by (auto simp: x)
  ultimately show ?case using Cons.IH [OF d(1)] unfolding in_phase_def by (simp del: map_of.simps add: x)
qed

lemma status_ok:
  assumes "pc_ok read_ok pc"
  shows "pst_in_flight_request_count (pc_report_status pc) = int (length (pc_in_flight_requests pc))"
    "pst_lookup_phase_count (pc_report_status pc) = int (length (filter (\<lambda>(r, q). rq_phase q = PHASE_LOOKUP) (pc_in_flight_requests pc)))"
    "pst_load_phase_count (pc_report_status pc) = int (length (filter (\<lambda>(r, q). rq_phase q = PLAN_AND_LOAD) (pc_in_flight_requests pc)))"
    "pst_pending_queue_size (pc_report_status pc) = int (length (pc_pending_queue pc))"
proof -
  note K = pc_okD [OF assms]
  have "card (dom (map_of (pc_in_flight_requests pc))) = length (pc_in_flight_requests pc)"
    using length_dom [OF K(1)] by (simp add: dict_dom_def dom_map_of_conv_image_fst)
  then show "pst_in_flight_request_count (pc_report_status pc) = int (length (pc_in_flight_requests pc))"
    "pst_lookup_phase_count (pc_report_status pc) = int (length (filter (\<lambda>(r, q). rq_phase q = PHASE_LOOKUP) (pc_in_flight_requests pc)))"
    "pst_load_phase_count (pc_report_status pc) = int (length (filter (\<lambda>(r, q). rq_phase q = PLAN_AND_LOAD) (pc_in_flight_requests pc)))"
    using K(4) by (simp_all add: counts_ok_def pc_report_status_def in_phase_count [OF K(1)])
  show "pst_pending_queue_size (pc_report_status pc) = int (length (pc_pending_queue pc))"
    using K(6) by (simp add: queues_ok_def pc_report_status_def)
qed

text \<open>
  C21. The prefetch controller returns every lock it takes in the second tier. In every run, what an
  attached adapter has outstanding is exactly what the requests in flight remember: the lookup tasks
  and the load tasks under their ids, and the read locks as the positions of \<open>l2_readlocks\<close>. So an
  adapter is left with no task and no lock when no request is in flight, and the clean up at the end
  returns the locks of every request.
\<close>

theorem prefetch_l2_locks_exact:
  assumes "l2_read_contract ops env read_ok" "pc_run kernels sl ops env read_ok pc F" "map_of (pc_l2_adapters pc) i = Some a"
  shows "(\<exists>LK LD. read_ok a LK LD (held_at (map_of (pc_in_flight_requests pc)) i) \<and>
       represents (lookups_at (map_of (pc_in_flight_requests pc)) i) LK \<and> represents (loads_at (map_of (pc_in_flight_requests pc)) i) LD) \<and>
     (pc_in_flight_requests pc = [] \<longrightarrow> read_ok a Map.empty Map.empty {#}) \<and>
     (\<exists>a' LK LD. map_of (pc_l2_adapters (fst (cleanup_in_flight_requests sl ops now (pc, l1)))) i = Some a' \<and> read_ok a' LK LD {#} \<and>
       represents (lookups_at (map_of (pc_in_flight_requests pc)) i) LK \<and> represents (loads_at (map_of (pc_in_flight_requests pc)) i) LD)"
proof -
  have ok: "pc_ok read_ok pc" using l2_read_contract.run_ok [OF assms(1,2)] by blast
  have led: "adapter_led read_ok a (lookups_at (map_of (pc_in_flight_requests pc)) i) (loads_at (map_of (pc_in_flight_requests pc)) i)
      (held_at (map_of (pc_in_flight_requests pc)) i)" using ledger_okD(2) [OF pc_okD(3) [OF ok] assms(3)] .
  have none: "read_ok a Map.empty Map.empty {#}" if "pc_in_flight_requests pc = []"
    using led unreferenced [OF pc_okD(3) [OF ok], of i] that by (simp add: adapter_led_def)
  obtain pc' l1' where c: "cleanup_in_flight_requests sl ops now (pc, l1) = (pc', l1')" by fastforce
  note C = l2_read_contract.cleanup_ok [OF assms(1) ok c]
  have "i \<in> dict_dom (pc_l2_adapters pc')" using C(2) assms(3) by (simp add: dict_dom_iff)
  then obtain a' where "map_of (pc_l2_adapters pc') i = Some a'" by (auto simp: dict_dom_iff)
  then show ?thesis using led none C(3) c unfolding adapter_led_def by auto
qed

text \<open>
  C22. No request is lost or answered twice. The native kernels are present, the adapters keep their
  read contract, and every request is for whole chunks of at least one object group and one worker
  (\<open>spec_whole\<close>); a description without a group makes the division of \<open>build_trim_mask\<close> raise, and
  such a request is lost. Then in every run each id that
  \<open>submit_prefetch_request\<close> gave out is in exactly one place: queued, in flight, completed with a
  result that was not fetched, or fetched. No more requests are in flight than \<open>max_in_flight\<close> allows,
  the status counts the requests of each phase, and an iteration of the loop never raises.
\<close>

theorem prefetch_requests_accounted:
  assumes "l2_read_contract ops env read_ok" "pc_run True sl ops env read_ok pc F"
  shows "fst ` set (queued pc) \<union> dict_dom (pc_in_flight_requests pc) \<union> dict_dom (pc_completed_results pc) \<union> F = {0..<pc_next_request_id pc} \<and>
     distinct (map fst (queued pc)) \<and> fst ` set (queued pc) \<inter> dict_dom (pc_in_flight_requests pc) = {} \<and>
     dict_dom (pc_completed_results pc) \<inter> (fst ` set (queued pc) \<union> dict_dom (pc_in_flight_requests pc)) = {} \<and>
     F \<inter> (fst ` set (queued pc) \<union> dict_dom (pc_in_flight_requests pc) \<union> dict_dom (pc_completed_results pc)) = {} \<and>
     int (length (pc_in_flight_requests pc)) \<le> max 0 (pc_max_in_flight pc) \<and>
     pst_in_flight_request_count (pc_report_status pc) = int (length (pc_in_flight_requests pc)) \<and>
     pst_lookup_phase_count (pc_report_status pc) = int (length (filter (\<lambda>(r, q). rq_phase q = PHASE_LOOKUP) (pc_in_flight_requests pc))) \<and>
     pst_load_phase_count (pc_report_status pc) = int (length (filter (\<lambda>(r, q). rq_phase q = PLAN_AND_LOAD) (pc_in_flight_requests pc))) \<and>
     pst_pending_queue_size (pc_report_status pc) = int (length (pc_pending_queue pc)) \<and>
     snd (prefetch_loop_iteration True sl ops now ready (pc, l1)) = Inr ()"
proof -
  have R: "pc_ok read_ok pc" "known pc \<subseteq> {0..<pc_next_request_id pc}" "F \<subseteq> {0..<pc_next_request_id pc}" "F \<inter> known pc = {}"
    "{0..<pc_next_request_id pc} \<subseteq> known pc \<union> F" using l2_read_contract.run_ok [OF assms] by simp_all
  have Q: "distinct (map fst (queued pc))" "fst ` set (queued pc) \<inter> dict_dom (pc_in_flight_requests pc) = {}"
    "dict_dom (pc_completed_results pc) \<inter> (fst ` set (queued pc) \<union> dict_dom (pc_in_flight_requests pc)) = {}"
    "int (length (pc_in_flight_requests pc)) \<le> max 0 (pc_max_in_flight pc)"
    using pc_okD(6) [OF R(1)] unfolding queues_ok_def by blast+
  obtain pc' l1' res where it: "prefetch_loop_iteration True sl ops now ready (pc, l1) = ((pc', l1'), res)" by (metis surj_pair)
  have "res = Inr ()" by (rule l2_read_contract.iteration_ok(1) [OF assms(1) R(1) it])
  moreover have "known pc = fst ` set (queued pc) \<union> dict_dom (pc_in_flight_requests pc) \<union> dict_dom (pc_completed_results pc)"
    by (auto simp: known_def results_def)
  moreover have "known pc \<union> F = {0..<pc_next_request_id pc}" using R(2,3,5) by blast
  ultimately show ?thesis using Q R(4) status_ok [OF R(1)] it by simp
qed

section \<open>A run on the mock adapter\<close>

definition demo_desc :: attn_window_desc where
  "demo_desc = \<lparr>num_chunks_in_sw = [-1], aw_world_size = 1, group_kinds = [Attention]\<rparr>"

definition demo_spec :: "pybytes \<Rightarrow> prefetch_spec" where
  "demo_spec b = \<lparr>ps_keys = [demo_okey\<lparr>chunk_hash := b\<rparr>], ps_group_layout_descs = [(0, demo_layout)], ps_num_kv_readers = 1,
     ps_policy = SPARSE, ps_attn_desc = demo_desc, ps_mode = LOOKUP\<rparr>"

definition demo_pc0 :: "mock_adapter prefetch_controller" where
  "demo_pc0 = (case pc_init mock_ops [ma_init 1000000 (10, 11, 12)] [\<lparr>ad_index = 0, ad_type_name = ''mock''\<rparr>]
     DefaultPrefetchPolicy 1 20 of Inr pc \<Rightarrow> pc)"

definition demo_pc1 :: "mock_adapter prefetch_controller" where
  "demo_pc1 = fst (submit_prefetch_request (demo_spec [1]) (fst (submit_prefetch_request (demo_spec [0]) demo_pc0)))"

definition demo_pc2 :: "mock_adapter prefetch_controller" where
  "demo_pc2 = fst (fst (prefetch_loop_iteration True list_sl mock_ops 0 [20] (demo_pc1, l1_init list_sl 16384 12 600 300)))"

abbreviation demo_pc_run :: "mock_adapter prefetch_controller \<Rightarrow> int set \<Rightarrow> bool" where
  "demo_pc_run \<equiv> pc_run True list_sl mock_ops mock_env_read mock_read_ok"

lemma demo_pc0_eq:
  "pc_init mock_ops [ma_init 1000000 (10, 11, 12)] [\<lparr>ad_index = 0, ad_type_name = ''mock''\<rparr>] DefaultPrefetchPolicy 1 20 = Inr demo_pc0"
  by (simp add: demo_pc0_def pc_init_def)

lemma demo_spec_whole: "spec_whole (demo_spec b)"
  by (simp add: spec_whole_def whole_chunks_def demo_spec_def demo_desc_def num_object_groups_def)

lemma demo_pc2_run: "demo_pc_run demo_pc2 {}"
proof -
  have "demo_pc_run demo_pc0 {}"
    by (rule pc_run.start [OF demo_pc0_eq]) (simp_all add: ma_init_ok default_prefetch.prefetch_policy_contract_axioms)
  then have r: "demo_pc_run demo_pc1 {}" unfolding demo_pc1_def by (intro pc_run.submit demo_spec_whole)
  obtain pc' l1' res where it: "prefetch_loop_iteration True list_sl mock_ops 0 [20] (demo_pc1, l1_init list_sl 16384 12 600 300) = ((pc', l1'), res)"
    by (metis surj_pair)
  from pc_run.iteration [OF r it] show ?thesis by (simp add: demo_pc2_def it)
qed

lemma demo_pc2_eq:
  "pc_l2_adapters demo_pc2 = [(0, (ma_init 1000000 (10, 11, 12))\<lparr>ma_next_task_id := 1,
     ma_jobs := [Job_Lookup (ps_keys (demo_spec [0])) 0]\<rparr>)] \<and>
   pc_in_flight_requests demo_pc2 = [(0, (new_request 0 (demo_spec [0]) (new_bitmap 1))\<lparr>rq_pending_lookup_tasks := [(0, 0)]\<rparr>)] \<and>
   pc_pending_queue demo_pc2 = [(1, demo_spec [1])] \<and> pc_submission_queue demo_pc2 = [] \<and> pc_completed_results demo_pc2 = [] \<and>
   pc_next_request_id demo_pc2 = 2"
  by (simp add: demo_pc2_def demo_pc1_def demo_pc0_def pc_init_def submit_prefetch_request_def prefetch_loop_iteration_def
      pc_apply_pending_adapter_ops_def pc_handle_ready_def drain_submission_queue_def start_pending_requests_def start_lookup_phase_def
      lock_l1_keys_def locked_mask_def reserve_read_def l1_eval read_outcome_def read_error_def demo_spec_def demo_desc_def build_trim_mask_def
      num_object_groups_def submit_lookup_def pc_finalize_drained_adapters_def mock_ops_def ma_submit_defs ma_init_def lb_init_def new_request_def
      salt_counts_def)

theorem prefetch_l2_locks_exact_witness:
  "\<exists>LK. mock_read_ok (the (map_of (pc_l2_adapters demo_pc2) 0)) LK Map.empty {#} \<and>
     represents [0 \<mapsto> (0, ps_keys (demo_spec [0]))] LK"
proof -
  have "map_of (pc_l2_adapters demo_pc2) 0 = Some (the (map_of (pc_l2_adapters demo_pc2) 0))" using demo_pc2_eq by simp
  from prefetch_l2_locks_exact [OF mock_read.l2_read_contract_axioms demo_pc2_run this]
  obtain LK LD where L: "mock_read_ok (the (map_of (pc_l2_adapters demo_pc2) 0)) LK LD (held_at (map_of (pc_in_flight_requests demo_pc2)) 0)"
    "represents (lookups_at (map_of (pc_in_flight_requests demo_pc2)) 0) LK" "represents (loads_at (map_of (pc_in_flight_requests demo_pc2)) 0) LD" by blast
  have R: "map_of (pc_in_flight_requests demo_pc2) = [0 \<mapsto> (new_request 0 (demo_spec [0]) (new_bitmap 1))\<lparr>rq_pending_lookup_tasks := [(0, 0)]\<rparr>]"
    using demo_pc2_eq by auto
  have "lookups_at (map_of (pc_in_flight_requests demo_pc2)) 0 = [0 \<mapsto> (0, ps_keys (demo_spec [0]))]"
    "loads_at (map_of (pc_in_flight_requests demo_pc2)) 0 = Map.empty" "held_at (map_of (pc_in_flight_requests demo_pc2)) 0 = {#}"
    unfolding R by (auto simp: lookups_at_def loads_at_def lookup_of_def load_of_def held_at_def total_over_def held_keys_def new_request_def dict_get_default_def)
  then show ?thesis using L by auto
qed

theorem prefetch_requests_accounted_witness:
  "fst ` set (queued demo_pc2) \<union> dict_dom (pc_in_flight_requests demo_pc2) = {0..<2} \<and>
   pst_lookup_phase_count (pc_report_status demo_pc2) = 1 \<and> pst_pending_queue_size (pc_report_status demo_pc2) = 1"
  using prefetch_requests_accounted [OF mock_read.l2_read_contract_axioms demo_pc2_run, of 0 "[]" "l1_init list_sl 16384 12 600 300"] demo_pc2_eq
  by (simp add: dict_dom_def new_request_def)

end
