(* ===== verification/Spec2Isabelle.thy ===== *)
theory Spec2Isabelle
  imports Coordinator Session_State Blend_Directory Prefix_Fold Prefetch_Run
begin

text \<open>
  \<^bold>\<open>LMCache\<close>: memory, locks, eviction, fleet coordination and content keys of its KV-cache store.

  \<^bold>\<open>The program.\<close> LMCache (\<^verbatim>\<open>src/lmcache\<close>) stores the key/value cache of inference engines. An MP
  server keeps objects in a pool of host memory (L1) and in shared storage (L2). L1 is an
  \<open>L1Manager\<close>, which reads and writes objects under TTL locks, over a \<open>TensorMemoryAllocator\<close>, which
  hands out reference-counted objects, over an \<open>AddressManager\<close>, a first-fit free list. Eviction
  controllers watch the usage of each tier and ask an eviction policy for victims. Each server
  reports what it stores, reads and deletes to one coordinator as numbered event batches. The
  coordinator's \<open>EventGate\<close> admits each batch once and in order and fences the state of a restarted
  server; a broadcaster hands the batches to the views (\<open>KeyDirectory\<close>: who holds which key;
  \<open>CacheUsageManager\<close>: bytes per key, salt and server; \<open>ServerConfigRegistry\<close>: declared capacities)
  and to the \<open>FleetEvictionController\<close>, which enforces quotas. Keys are chained hashes of token
  chunks (\<open>TokenHasher\<close>, \<open>Session\<close>), and \<open>BlendIndex\<close> finds chunks by content anywhere in a query.
  Between the tiers of a server work two event loops: the \<open>StoreController\<close> copies what was written
  to L1 to the L2 adapters, the \<open>PrefetchController\<close> looks the keys of a request up in L2, loads the
  longest prefix that can be served and hands it over read-locked. Sets of keys are bitmaps.

  \<^bold>\<open>Theories\<close>, in the order of their imports, with the code they model:

  \<^item> \<open>Prelude\<close>: error values for Python exceptions (\<open>py_error\<close>, \<open>'a result\<close>), dictionaries as
    association lists in insertion order (\<open>dict_get\<close>, \<open>dict_set\<close>, \<open>dict_del\<close>; collection
    \<open>dict_simps\<close>), floats as rationals with a rounding function, shared list lemmas.
  \<^item> \<open>Address_Manager\<close>: \<open>FreeBlock\<close> and \<open>AddressManager\<close> of \<^verbatim>\<open>v1/memory_management.py\<close>. Locale
    \<open>byte_allocator\<close> states what its client relies on. Live ranges are disjoint, aligned and in
    the heap, \<open>check_consistency\<close> never fails, allocation is first-fit, and freeing everything
    leaves one block.
  \<^item> \<open>Tensor_Allocator\<close>: \<open>TensorMemoryObj\<close>, \<^verbatim>\<open>v1/memory_allocators/tensor_memory_allocator.py\<close> and
    \<^verbatim>\<open>v1/pin_monitor.py\<close>. Valid objects never share a byte, double frees included; an object is
    valid exactly while it is referenced or pinned; \<open>memcheck\<close> always succeeds; the pin monitor
    releases exactly the pins that have timed out.
  \<^item> \<open>L1_Manager\<close>: \<^verbatim>\<open>v1/distributed/l1_manager.py\<close>, \<open>TTLLock\<close>, \<^verbatim>\<open>memory_manager/l1_memory_manager.py\<close>.
    While no write request names a key twice (\<open>op_ok\<close>), memory is accounted exactly; readers and writers
    exclude each other, locked objects survive, the last reader of a temporary object frees it.
  \<^item> \<open>Object_Key\<close>: \<open>ObjectKey\<close>, its encodings, packed ranks and IPC keys (\<^verbatim>\<open>v1/distributed/api.py\<close>,
    \<^verbatim>\<open>v1/mp_coordinator/utils/encoding.py\<close>, \<^verbatim>\<open>v1/multiprocess/custom_types.py\<close>): round trips,
    distinctness and isolation by salt.
  \<^item> \<open>Eviction_Policy\<close>, \<open>Quota_Manager\<close>, \<open>Eviction_Controller\<close>: the policies of
    \<^verbatim>\<open>v1/distributed/eviction_policy\<close> with the tier bridges of \<^verbatim>\<open>v1/distributed/eviction.py\<close> (locale
    \<open>policy_contract\<close>, interpreted by LRU, isolated LRU and the factory's sum type),
    \<^verbatim>\<open>v1/distributed/quota_manager.py\<close>, and one pass of each loop of
    \<^verbatim>\<open>storage_controllers/eviction_controller.py\<close>. Isolated LRU refines one LRU per salt, victims are
    exactly the oldest eligible keys, a policy never tracks a key that is not resident.
  \<^item> \<open>Cache_Event\<close>, \<open>Event_Gate\<close>: events, gate, broadcaster and the \<^verbatim>\<open>POST /events\<close> handler
    (\<^verbatim>\<open>v1/mp_coordinator/api.py\<close>, \<^verbatim>\<open>schemas.py\<close>, \<^verbatim>\<open>ingest\<close>, \<^verbatim>\<open>http_apis/events_api.py\<close>). Locales
    \<open>event_consumer\<close> and \<open>stamped_consumer\<close> state what a view must do with batches and fences, and
    prove once that no state of an earlier incarnation is left.
  \<^item> \<open>Usage_Manager\<close>, \<open>Server_Config\<close>, \<open>Instance_Registry\<close>, \<open>Key_Directory\<close>, \<open>Fleet_Eviction\<close>: the
    views of \<^verbatim>\<open>v1/mp_coordinator/views\<close>, \<^verbatim>\<open>registry.py\<close> and
    \<^verbatim>\<open>controllers/eviction_controller.py\<close>. Directory and usage refine the replay of the delivered
    events; an eviction pass requests exactly the oldest unpinned keys of the salts over quota.
  \<^item> \<open>Blend_Index\<close>, \<open>Blend_Directory\<close>: \<^verbatim>\<open>v1/mp_coordinator/blend_index.py\<close> with the window hashes of
    \<^verbatim>\<open>v1/multiprocess/token_hasher.py\<close> in 64-bit words, and the index inside the directory. Without
    fingerprint collisions a fragment lookup finds exactly what is stored.
  \<^item> \<open>Token_Hasher\<close>, \<open>Session_State\<close>: \<^verbatim>\<open>v1/multiprocess/token_hasher.py\<close>,
    \<^verbatim>\<open>cache_control/key_resolver.py\<close>, \<^verbatim>\<open>session.py\<close>. Without hash collisions, keys identify world
    size, model, salt and the whole token prefix; the incremental hashes of a session are those of the resolver.
  \<^item> \<open>Coordinator\<close>: \<^verbatim>\<open>v1/mp_coordinator/app.py\<close>, \<^verbatim>\<open>http_apis\<close> and \<^verbatim>\<open>persistence\<close>: wiring, handlers, health
    loop, checkpoint and restart as one step relation \<open>co_reach\<close>. No lookup returns a stale L1
    placement, the two views agree, every stored L2 key can be evicted, a restart loses nothing.
  \<^item> \<open>Bitmap\<close>, \<open>Prefix_Fold\<close>: the native bitmap of \<^verbatim>\<open>csrc/lmcache_native\<close> with its packed bytes, and
    \<^verbatim>\<open>v1/distributed/bitmap_ops/fold.py\<close> with the native kernels. The kernels equal the Python
    reference, and the fold gives the longest prefix that all object groups can serve.
  \<^item> \<open>L2_Adapter\<close>: \<open>L2AdapterInterface\<close> and its accounting base class, and the mock adapter with its
    event loop (\<^verbatim>\<open>v1/distributed/l2_adapters\<close>). Locales \<open>l2_store_contract\<close> and \<open>l2_read_contract\<close> state
    what the controllers rely on: task ids and results, and locks counted per key. The mock adapter
    interprets both.
  \<^item> \<open>Read_Ledger\<close>: the read locks of \<open>L1_Manager\<close> against what its clients hold, over runs of any
    length (\<open>client_run\<close>). Scope: the run starts from an empty manager, no lock expires while it is
    held (\<open>l1_fresh\<close> at every call), clients return only what they hold, and nobody forces a deletion
    or closes the manager. After an expiry the count is wrong, \<open>expired_return_steals_lock\<close>.
  \<^item> \<open>Store_Controller\<close>: \<^verbatim>\<open>storage_controllers/store_controller.py\<close>, \<^verbatim>\<open>store_policy.py\<close>,
    \<^verbatim>\<open>adapter_lifecycle.py\<close>. Locale \<open>store_policy_contract\<close>. In every run (\<open>sc_run\<close> with \<open>strict = False\<close>,
    where L1 may change in any way between two calls) no task is lost or reported twice, the loop does
    not raise and the removal of an adapter ends. In the strict runs, with the scope of \<open>Read_Ledger\<close>
    for the controller and the other clients, the keys of a task in flight are read-locked.
  \<^item> \<open>Prefetch_Controller\<close>, \<open>Prefetch_Handlers\<close>, \<open>Prefetch_Run\<close>: \<^verbatim>\<open>storage_controllers/prefetch_controller.py\<close>
    and \<^verbatim>\<open>prefetch_policy.py\<close>. Handlers are computations that may raise (\<open>py\<close>), with triples for both
    ends; locale \<open>prefetch_policy_contract\<close>. In every run (\<open>pc_run\<close>) what the adapters have outstanding
    is what the requests in flight remember, and every request is in exactly one place. The theorems
    are for requests over whole chunks (\<open>spec_whole\<close>: at least one group and one worker, and the keys are
    a multiple of groups times workers); the second one is for the native kernels being present.

  \<^bold>\<open>Conventions.\<close> A class is a \<open>record\<close>, a method a function from the state to the new state and the
  result; \<open>Inl\<close> is an exception. A lock is the atomicity of the call that holds it. Clocks, random
  choices and calls to other processes are arguments. Code outside the repository is a parameter
  with its documented behaviour as a named hypothesis: the sorted list of \<^verbatim>\<open>sortedcontainers\<close>
  (\<open>sorted_list_spec\<close>, shown satisfiable by \<open>list_sl\<close>), the conversions of NumPy (\<open>numpy_spec\<close>,
  \<open>list_np\<close>), the hash functions (\<open>collision_free\<close>). Runs are inductive reachability relations or
  folds over call lists.

  \<^bold>\<open>Bounds.\<close> Every loop of the model terminates: structurally, or by a measure (\<open>grow_size\<close> doubles up
  to its target). The loop of \<open>Session._compute_hash\<close> runs for the number of missing chunks, which
  \<open>compute_hash\<close> computes from the loop condition. The filter of the blend index is sized by a
  64-bit mask, so that its theorems are for at most \<open>2 ^ 59\<close> indexed contents, beyond any memory.

  \<^bold>\<open>Not modelled\<close>: tensors and device memory (GPU connectors, serde, MAKV quantisation, native code
  except the bitmaps), sockets, files and their byte formats (the other L2 adapters, storage
  backends, transfer channels, message queue), threads and asyncio scheduling below the granularity
  of a locked call (the compare-and-swap retries of \<open>TTLLock\<close>), the poll sets and blocking waits of
  the event loops, logging and metrics, the integrations.
\<close>

end
